(* ===== verification/Prelude.thy ===== *)
theory Prelude
  imports Complex_Main "HOL-Library.AList" "HOL-Library.List_Lexorder" "HOL-Library.Char_ord"
begin

text \<open>
  What every component of the development shares: Python dictionaries as association lists
  that keep insertion order, Python objects as they arrive from JSON or from callers, and the
  lemmas about them that the component proofs use.
\<close>

section \<open>Ordered dictionaries\<close>

text \<open>
  A Python dictionary remembers the order in which its keys were first inserted: assigning to
  a present key keeps its place, deleting removes it, and a new key goes to the end. That is
  what \<^term>\<open>AList.update\<close> and \<^term>\<open>AList.delete\<close> do on an association list.
  Looking a key up is \<^term>\<open>map_of\<close>.
\<close>

named_theorems dict_simps

type_synonym ('k, 'v) dict = "('k \<times> 'v) list"

definition dict_ok :: "('k, 'v) dict \<Rightarrow> bool" where
  "dict_ok d \<longleftrightarrow> distinct (map fst d)"

definition dict_set :: "'k \<Rightarrow> 'v \<Rightarrow> ('k, 'v) dict \<Rightarrow> ('k, 'v) dict" where
  "dict_set k v d = AList.update k v d"

definition dict_del :: "'k \<Rightarrow> ('k, 'v) dict \<Rightarrow> ('k, 'v) dict" where
  "dict_del k d = AList.delete k d"

definition dict_get_default :: "('k, 'v) dict \<Rightarrow> 'k \<Rightarrow> 'v \<Rightarrow> 'v" where
  "dict_get_default d k v = (case map_of d k of None \<Rightarrow> v | Some w \<Rightarrow> w)"

definition dict_mem :: "'k \<Rightarrow> ('k, 'v) dict \<Rightarrow> bool" where
  "dict_mem k d \<longleftrightarrow> map_of d k \<noteq> None"

definition dict_setdefault :: "'k \<Rightarrow> 'v \<Rightarrow> ('k, 'v) dict \<Rightarrow> ('k, 'v) dict" where
  "dict_setdefault k v d = (if dict_mem k d then d else dict_set k v d)"

lemma dict_set_Nil [simp]: "dict_set k v [] = [(k, v)]"
  by (simp add: dict_set_def)

lemma dict_set_Cons [simp]:
  "dict_set k v ((a, b) # d) = (if a = k then (k, v) # d else (a, b) # dict_set k v d)"
  by (simp add: dict_set_def)

lemma dict_del_Nil [simp]: "dict_del k [] = []"
  by (simp add: dict_del_def)

lemma dict_del_Cons [simp]:
  "dict_del k ((a, b) # d) = (if a = k then dict_del k d else (a, b) # dict_del k d)"
  by (simp add: dict_del_def)

lemma map_of_dict_set [simp, dict_simps]: "map_of (dict_set k v d) = (map_of d)(k \<mapsto> v)"
  by (simp add: dict_set_def AList.update_conv')

lemma map_of_dict_del [simp, dict_simps]: "map_of (dict_del k d) = (map_of d)(k := None)"
  by (simp add: dict_del_def AList.delete_conv')

lemma dict_ok_Nil [simp]: "dict_ok []"
  by (simp add: dict_ok_def)

lemma dict_ok_Cons [simp]: "dict_ok ((k, v) # d) \<longleftrightarrow> k \<notin> fst ` set d \<and> dict_ok d"
  by (auto simp: dict_ok_def)

lemma dict_ok_set [simp, intro]: "dict_ok d \<Longrightarrow> dict_ok (dict_set k v d)"
  by (simp add: dict_ok_def dict_set_def AList.distinct_update)

lemma dict_ok_del [simp, intro]: "dict_ok d \<Longrightarrow> dict_ok (dict_del k d)"
  by (simp add: dict_ok_def dict_del_def AList.distinct_delete)

lemma dict_del_filter: "dict_del k d = filter (\<lambda>p. fst p \<noteq> k) d"
  by (induction d) auto

lemma keys_dict_set [simp]: "fst ` set (dict_set k v d) = insert k (fst ` set d)"
  by (simp add: dict_set_def AList.dom_update)

lemma keys_dict_del [simp]: "fst ` set (dict_del k d) = fst ` set d - {k}"
  by (auto simp: dict_del_filter)

lemma dict_mem_iff [dict_simps]: "dict_mem k d \<longleftrightarrow> k \<in> fst ` set d"
  by (auto simp: dict_mem_def map_of_eq_None_iff)

lemma dict_set_append: "map_of d k = None \<Longrightarrow> dict_set k v d = d @ [(k, v)]"
  by (induction d) (auto split: if_splits)

lemma map_of_Some_set: "dict_ok d \<Longrightarrow> (k, v) \<in> set d \<Longrightarrow> map_of d k = Some v"
  by (simp add: dict_ok_def)

lemma dict_get_default_set [simp]:
  "dict_get_default (dict_set k v d) k' w = (if k' = k then v else dict_get_default d k' w)"
  by (simp add: dict_get_default_def)

lemma dict_get_default_del [simp]:
  "dict_get_default (dict_del k d) k' w = (if k' = k then w else dict_get_default d k' w)"
  by (simp add: dict_get_default_def)

lemma dict_get_default_Cons [simp]:
  "dict_get_default ((a, b) # d) k w = (if k = a then b else dict_get_default d k w)"
  by (simp add: dict_get_default_def)

lemma dict_get_default_Nil [simp]: "dict_get_default [] k w = w"
  by (simp add: dict_get_default_def)

lemma map_of_dict_setdefault [simp, dict_simps]:
  "map_of (dict_setdefault k v d) =
     (case map_of d k of None \<Rightarrow> (map_of d)(k \<mapsto> v) | Some _ \<Rightarrow> map_of d)"
  by (simp add: dict_setdefault_def dict_mem_def split: option.splits)

lemma dict_ok_setdefault [simp, intro]: "dict_ok d \<Longrightarrow> dict_ok (dict_setdefault k v d)"
  by (simp add: dict_setdefault_def)

lemma map_Some_eqI:
  assumes "\<And>k v. f k = Some v \<longleftrightarrow> g k = Some v"
  shows "f = g"
proof
  fix k
  show "f k = g k"
    using assms [of k "the (f k)"] assms [of k "the (g k)"] by (cases "f k"; cases "g k") auto
qed

lemma rel_option_SomeD: "rel_option R x y \<Longrightarrow> x = Some s \<Longrightarrow> \<exists>t. y = Some t \<and> R s t"
  by (cases y) auto

text \<open>Sums over the entries of a dictionary, before and after a change.\<close>

lemma sum_list_dict_del:
  fixes f :: "'k \<times> 'v \<Rightarrow> int"
  assumes "dict_ok d" and "map_of d k = Some v"
  shows "sum_list (map f (dict_del k d)) = sum_list (map f d) - f (k, v)"
  using assms
proof (induction d)
  case (Cons p d)
  show ?case
  proof (cases "fst p = k")
    case True
    with Cons.prems have "dict_del k d = d"
      by (cases p) (auto simp: dict_del_def)
    with True Cons.prems show ?thesis by (cases p) auto
  next
    case False
    with Cons show ?thesis by (cases p) auto
  qed
qed simp

lemma sum_list_dict_set_new:
  fixes f :: "'k \<times> 'v \<Rightarrow> int"
  shows "map_of d k = None \<Longrightarrow> sum_list (map f (dict_set k v d)) = sum_list (map f d) + f (k, v)"
  by (simp add: dict_set_append)

lemma length_dict_set_new: "map_of d k = None \<Longrightarrow> length (dict_set k v d) = Suc (length d)"
  by (simp add: dict_set_append)

lemma sum_list_map_update:
  fixes f :: "'a \<Rightarrow> int"
  shows "i < length xs \<Longrightarrow> sum_list (map f (xs[i := x])) = sum_list (map f xs) - f (xs ! i) + f x"
proof (induction xs arbitrary: i)
  case (Cons a xs)
  then show ?case by (cases i) simp_all
qed simp

section \<open>Partial effects and errors\<close>

text \<open>
  An operation that changes state and may raise returns the state it leaves behind together
  with its outcome, because Python keeps the assignments made before a raise.
  \<open>attempt s r k\<close> is a step that leaves the state as it is and either raises or goes on.
\<close>

definition attempt :: "'s \<Rightarrow> 'e + 'a \<Rightarrow> ('a \<Rightarrow> 's \<times> ('e + 'b)) \<Rightarrow> 's \<times> ('e + 'b)" where
  "attempt s r k = (case r of Inl e \<Rightarrow> (s, Inl e) | Inr a \<Rightarrow> k a)"

definition ensure :: "bool \<Rightarrow> 'e \<Rightarrow> 'e + unit" where
  "ensure b e = (if b then Inr () else Inl e)"

definition and_then :: "'e + 'a \<Rightarrow> ('a \<Rightarrow> 'e + 'b) \<Rightarrow> 'e + 'b" where
  "and_then r k = (case r of Inl e \<Rightarrow> Inl e | Inr a \<Rightarrow> k a)"

lemma attempt_simps [simp]:
  "attempt s (Inl e) k = (s, Inl e)" "attempt s (Inr a) k = k a"
  by (simp_all add: attempt_def)

lemma attempt_split:
  "P (attempt s r k) \<longleftrightarrow> (\<forall>e. r = Inl e \<longrightarrow> P (s, Inl e)) \<and> (\<forall>a. r = Inr a \<longrightarrow> P (k a))"
  by (cases r) auto

lemma ensure_simps [simp]:
  "ensure True e = Inr ()" "ensure False e = Inl e"
  by (simp_all add: ensure_def)

lemma ensure_Inr_iff [simp]: "ensure b e = Inr u \<longleftrightarrow> b"
  by (simp add: ensure_def)

lemma ensure_Inl_iff [simp]: "ensure b e = Inl f \<longleftrightarrow> \<not> b \<and> f = e"
  by (auto simp: ensure_def)

lemma and_then_simps [simp]:
  "and_then (Inl e) k = Inl e" "and_then (Inr a) k = k a"
  by (simp_all add: and_then_def)

lemma and_then_Inr_iff: "and_then r k = Inr b \<longleftrightarrow> (\<exists>a. r = Inr a \<and> k a = Inr b)"
  by (cases r) auto

text \<open>
  \<open>outcome P x\<close> says that \<open>P\<close> holds of the state and the result of \<open>x\<close>; the introduction
  rules follow the control flow of an operation, one goal for each way out of it.
\<close>

definition outcome :: "('s \<Rightarrow> 'r \<Rightarrow> bool) \<Rightarrow> 's \<times> 'r \<Rightarrow> bool" where
  "outcome P x \<longleftrightarrow> P (fst x) (snd x)"

named_theorems outcome_intros

lemma outcome_pair [outcome_intros]: "P s r \<Longrightarrow> outcome P (s, r)"
  by (simp add: outcome_def)

lemma outcome_attempt [outcome_intros]:
  "(\<And>e. r = Inl e \<Longrightarrow> P s (Inl e)) \<Longrightarrow> (\<And>a. r = Inr a \<Longrightarrow> outcome P (k a)) \<Longrightarrow>
     outcome P (attempt s r k)"
  by (cases r) (auto simp: outcome_def)

lemma outcome_option [outcome_intros]:
  "(x = None \<Longrightarrow> outcome P a) \<Longrightarrow> (\<And>y. x = Some y \<Longrightarrow> outcome P (b y)) \<Longrightarrow>
     outcome P (case x of None \<Rightarrow> a | Some y \<Rightarrow> b y)"
  by (cases x) auto

lemma outcome_if [outcome_intros]:
  "(c \<Longrightarrow> outcome P a) \<Longrightarrow> (\<not> c \<Longrightarrow> outcome P b) \<Longrightarrow> outcome P (if c then a else b)"
  by simp

lemma outcome_prod [outcome_intros]:
  "(\<And>a b. x = (a, b) \<Longrightarrow> outcome P (f a b)) \<Longrightarrow> outcome P (case x of (a, b) \<Rightarrow> f a b)"
  by (cases x) auto

lemma outcome_sum [outcome_intros]:
  "(\<And>a. x = Inl a \<Longrightarrow> outcome P (f a)) \<Longrightarrow> (\<And>b. x = Inr b \<Longrightarrow> outcome P (g b)) \<Longrightarrow>
     outcome P (case x of Inl a \<Rightarrow> f a | Inr b \<Rightarrow> g b)"
  by (cases x) auto

lemma outcome_fst [simp]: "outcome (\<lambda>s _. P s) x = P (fst x)"
  by (simp add: outcome_def)

lemma outcome_D: "outcome P x \<Longrightarrow> x = (s, r) \<Longrightarrow> P s r"
  by (simp add: outcome_def)

section \<open>Python objects\<close>

text \<open>
  Values of unknown type: what \<^verbatim>\<open>json.loads\<close> returns, plus the shapes the code tests for
  and refuses. \<open>PNonFinite\<close> is an infinity or a NaN; \<open>POther\<close> carries the type's name.
  \<open>PBool\<close> is apart from \<open>PInt\<close>; code that says \<^verbatim>\<open>isinstance(x, int)\<close> accepts both.
\<close>

datatype pyobj =
    PNone
  | PBool bool
  | PInt int
  | PFloat real
  | PNonFinite
  | PStr string
  | PList "pyobj list"
  | PTuple "pyobj list"
  | PDict "(pyobj \<times> pyobj) list"
  | POther string

fun py_type_name :: "pyobj \<Rightarrow> string" where
  "py_type_name PNone = ''NoneType''"
| "py_type_name (PBool _) = ''bool''"
| "py_type_name (PInt _) = ''int''"
| "py_type_name (PFloat _) = ''float''"
| "py_type_name PNonFinite = ''float''"
| "py_type_name (PStr _) = ''str''"
| "py_type_name (PList _) = ''list''"
| "py_type_name (PTuple _) = ''tuple''"
| "py_type_name (PDict _) = ''dict''"
| "py_type_name (POther n) = n"

fun is_PStr :: "pyobj \<Rightarrow> bool" where
  "is_PStr (PStr _) = True"
| "is_PStr _ = False"

text \<open>Lists and dictionaries have no hash: testing one for membership in a set raises.\<close>

fun unhashable :: "pyobj \<Rightarrow> bool"
  and any_unhashable :: "pyobj list \<Rightarrow> bool" where
  "unhashable (PList _) = True"
| "unhashable (PDict _) = True"
| "unhashable (PTuple xs) = any_unhashable xs"
| "unhashable _ = False"
| "any_unhashable [] = False"
| "any_unhashable (x # xs) = (unhashable x \<or> any_unhashable xs)"

section \<open>Characters\<close>

text \<open>
  \<^verbatim>\<open>str.isspace\<close> and \<^verbatim>\<open>str.isdigit\<close> on the code points up to 255, the range of
  \<^typ>\<open>char\<close>.
\<close>

definition py_isspace :: "char \<Rightarrow> bool" where
  "py_isspace c \<longleftrightarrow>
     (let n = (of_char c :: nat) in 9 \<le> n \<and> n \<le> 13 \<or> 28 \<le> n \<and> n \<le> 32 \<or> n = 133 \<or> n = 160)"

definition py_strip :: "string \<Rightarrow> string" where
  "py_strip s = rev (dropWhile py_isspace (rev (dropWhile py_isspace s)))"

lemma py_strip_Nil_iff: "py_strip s = [] \<longleftrightarrow> list_all py_isspace s"
  by (induction s) (auto simp: py_strip_def dropWhile_eq_Nil_conv list_all_iff
      dest: set_dropWhileD)

lemma find_append: "find P (xs @ ys) = (case find P xs of None \<Rightarrow> find P ys | Some x \<Rightarrow> Some x)"
  by (induction xs) auto

end
