(* ===== verification/Session_Model.thy ===== *)
theory Session_Model
  imports Prelude
begin

text \<open>
  The data of collaborative document sessions (\<^verbatim>\<open>dinkster_collab/sessions.py\<close>): the ordered
  operation, the session, the JSON boundary and the shape check on patches.
\<close>

section \<open>Roles\<close>

text \<open>
  Roles are strings in the code and their rank is a lookup in \<^verbatim>\<open>_ROLE_RANK\<close>; a string that is
  no role is a \<^verbatim>\<open>KeyError\<close>, the value \<open>None\<close> here.
\<close>

definition session_roles :: "string list" where
  "session_roles = [''banned'', ''viewer'', ''editor'', ''owner'']"

definition default_session_role :: string where
  "default_session_role = ''editor''"

definition document_kinds :: "string list" where
  "document_kinds = [''workflow'', ''image'']"

definition role_rank :: "string \<Rightarrow> nat option" where
  "role_rank r = map_of (zip session_roles [0..<length session_roles]) r"

lemma role_rank_simps [simp]:
  "role_rank ''banned'' = Some 0" "role_rank ''viewer'' = Some 1"
  "role_rank ''editor'' = Some 2" "role_rank ''owner'' = Some 3"
  by (simp_all add: role_rank_def session_roles_def)

lemma role_rank_Some_iff: "role_rank r \<noteq> None \<longleftrightarrow> r \<in> set session_roles"
  by (auto simp: role_rank_def session_roles_def)

section \<open>JSON at the boundary\<close>

datatype norm_error =
    NotFinite string
  | KeyNotString string
  | NotJson string string

text \<open>\<^verbatim>\<open>_normalize_json\<close>: a copy of JSON-shaped data, or the error with the place it names.\<close>

fun normalize_json :: "pyobj \<Rightarrow> string \<Rightarrow> norm_error + pyobj"
  and normalize_items :: "pyobj list \<Rightarrow> string \<Rightarrow> norm_error + pyobj list"
  and normalize_entries ::
    "(pyobj \<times> pyobj) list \<Rightarrow> string \<Rightarrow> norm_error + (pyobj \<times> pyobj) list" where
  "normalize_json PNone w = Inr PNone"
| "normalize_json (PStr s) w = Inr (PStr s)"
| "normalize_json (PBool b) w = Inr (PBool b)"
| "normalize_json (PInt n) w = Inr (PInt n)"
| "normalize_json (PFloat x) w = Inr (PFloat x)"
| "normalize_json PNonFinite w = Inl (NotFinite w)"
| "normalize_json (PList xs) w =
     (case normalize_items xs (w @ ''[]'') of Inl e \<Rightarrow> Inl e | Inr ys \<Rightarrow> Inr (PList ys))"
| "normalize_json (PDict kvs) w =
     (case normalize_entries kvs w of Inl e \<Rightarrow> Inl e | Inr ys \<Rightarrow> Inr (PDict ys))"
| "normalize_json (PTuple xs) w = Inl (NotJson w ''tuple'')"
| "normalize_json (POther n) w = Inl (NotJson w n)"
| "normalize_items [] w = Inr []"
| "normalize_items (x # xs) w =
     (case normalize_json x w of
        Inl e \<Rightarrow> Inl e
      | Inr y \<Rightarrow> (case normalize_items xs w of Inl e \<Rightarrow> Inl e | Inr ys \<Rightarrow> Inr (y # ys)))"
| "normalize_entries [] w = Inr []"
| "normalize_entries ((k, v) # kvs) w =
     (case k of
        PStr s \<Rightarrow>
          (case normalize_json v (w @ ''.'' @ s) of
             Inl e \<Rightarrow> Inl e
           | Inr y \<Rightarrow>
               (case normalize_entries kvs w of
                  Inl e \<Rightarrow> Inl e
                | Inr ys \<Rightarrow> Inr ((PStr s, y) # ys)))
      | _ \<Rightarrow> Inl (KeyNotString w))"

fun json_shaped :: "pyobj \<Rightarrow> bool"
  and json_items :: "pyobj list \<Rightarrow> bool"
  and json_entries :: "(pyobj \<times> pyobj) list \<Rightarrow> bool" where
  "json_shaped PNonFinite = False"
| "json_shaped (PTuple xs) = False"
| "json_shaped (POther n) = False"
| "json_shaped (PList xs) = json_items xs"
| "json_shaped (PDict kvs) = json_entries kvs"
| "json_shaped _ = True"
| "json_items [] = True"
| "json_items (x # xs) = (json_shaped x \<and> json_items xs)"
| "json_entries [] = True"
| "json_entries ((k, v) # kvs) = (is_PStr k \<and> json_shaped v \<and> json_entries kvs)"

lemma normalize_shaped:
  "json_shaped v \<Longrightarrow> normalize_json v w = Inr v"
  "json_items xs \<Longrightarrow> normalize_items xs w = Inr xs"
  "json_entries kvs \<Longrightarrow> normalize_entries kvs w = Inr kvs"
proof (induction v w and xs w and kvs w
    rule: normalize_json_normalize_items_normalize_entries.induct)
  case (14 k v kvs w)
  then show ?case by (cases k) auto
qed auto

lemma normalize_not_shaped:
  "\<not> json_shaped v \<Longrightarrow> \<exists>e. normalize_json v w = Inl e"
  "\<not> json_items xs \<Longrightarrow> \<exists>e. normalize_items xs w = Inl e"
  "\<not> json_entries kvs \<Longrightarrow> \<exists>e. normalize_entries kvs w = Inl e"
proof (induction v w and xs w and kvs w
    rule: normalize_json_normalize_items_normalize_entries.induct)
  case (14 k v kvs w)
  show ?case
  proof (cases k)
    case (PStr s)
    show ?thesis
    proof (cases "normalize_json v (w @ ''.'' @ s)")
      case (Inr y)
      with "14.IH"(1) [OF PStr] have "json_shaped v" by auto
      with "14.prems" PStr have "\<not> json_entries kvs" by simp
      with "14.IH"(2) [OF PStr Inr] Inr PStr show ?thesis by auto
    qed (use PStr in simp)
  qed simp_all
qed (auto split: sum.splits)

lemma normalize_json_Inr: "normalize_json v w = Inr u \<longleftrightarrow> json_shaped v \<and> u = v"
  using normalize_shaped(1) [of v w] normalize_not_shaped(1) [of v w] by fastforce

section \<open>The shape of a patch\<close>

text \<open>
  \<^verbatim>\<open>validate_patch\<close> answers \<open>None\<close> or a message; the message is its branch with the indexes it
  names. \<open>Inl\<close> is an exception: \<^verbatim>\<open>op not in _PATCH_OPS\<close> hashes \<^verbatim>\<open>op\<close>, which raises
  \<^verbatim>\<open>TypeError\<close> for a list or an object.
\<close>

datatype patch_problem =
    NotAnArray
  | NoOperation
  | EntryNotObject nat
  | BadOp nat
  | PathNotArray nat
  | BadSegment nat nat
  | MissingValue nat

datatype patch_exn = UnhashableOp

definition patch_ops :: "string list" where
  "patch_ops = [''add'', ''remove'', ''replace'']"

definition needs_value :: "string list" where
  "needs_value = [''add'', ''replace'']"

definition py_get :: "(pyobj \<times> pyobj) list \<Rightarrow> string \<Rightarrow> pyobj" where
  "py_get kvs k = (case map_of kvs (PStr k) of None \<Rightarrow> PNone | Some v \<Rightarrow> v)"

fun segment_ok :: "pyobj \<Rightarrow> bool" where
  "segment_ok (PStr _) = True"
| "segment_ok (PInt _) = True"
| "segment_ok _ = False"

fun bad_segment :: "nat \<Rightarrow> pyobj list \<Rightarrow> nat option" where
  "bad_segment i [] = None"
| "bad_segment i (x # xs) = (if segment_ok x then bad_segment (Suc i) xs else Some i)"

definition patch_entry_problem ::
    "nat \<Rightarrow> (pyobj \<times> pyobj) list \<Rightarrow> patch_exn + patch_problem option" where
  "patch_entry_problem i entry =
     (let op = py_get entry ''op'' in
      if unhashable op then Inl UnhashableOp
      else if op \<notin> PStr ` set patch_ops then Inr (Some (BadOp i))
      else case py_get entry ''path'' of
        PList path \<Rightarrow>
          (case bad_segment 0 path of
             Some j \<Rightarrow> Inr (Some (BadSegment i j))
           | None \<Rightarrow>
               if op \<in> PStr ` set needs_value \<and> \<not> dict_mem (PStr ''value'') entry
               then Inr (Some (MissingValue i)) else Inr None)
      | _ \<Rightarrow> Inr (Some (PathNotArray i)))"

fun patch_entries_problem :: "nat \<Rightarrow> pyobj list \<Rightarrow> patch_exn + patch_problem option" where
  "patch_entries_problem i [] = Inr None"
| "patch_entries_problem i (raw # rest) =
     (case raw of
        PDict entry \<Rightarrow>
          (case patch_entry_problem i entry of
             Inr None \<Rightarrow> patch_entries_problem (Suc i) rest
           | r \<Rightarrow> r)
      | _ \<Rightarrow> Inr (Some (EntryNotObject i)))"

fun validate_patch :: "pyobj \<Rightarrow> patch_exn + patch_problem option" where
  "validate_patch (PList entries) =
     (if entries = [] then Inr (Some NoOperation) else patch_entries_problem 0 entries)"
| "validate_patch _ = Inr (Some NotAnArray)"

text \<open>What an accepted patch looks like.\<close>

definition patch_entry_ok :: "pyobj \<Rightarrow> bool" where
  "patch_entry_ok raw \<longleftrightarrow>
     (case raw of
        PDict entry \<Rightarrow>
          py_get entry ''op'' \<in> PStr ` set patch_ops \<and>
          (case py_get entry ''path'' of PList path \<Rightarrow> list_all segment_ok path | _ \<Rightarrow> False) \<and>
          (py_get entry ''op'' \<in> PStr ` set needs_value \<longrightarrow> dict_mem (PStr ''value'') entry)
      | _ \<Rightarrow> False)"

lemma bad_segment_None: "bad_segment i xs = None \<longleftrightarrow> list_all segment_ok xs"
  by (induction xs arbitrary: i) auto

lemma patch_entry_problem_None:
  "patch_entry_problem i entry = Inr None \<longleftrightarrow> patch_entry_ok (PDict entry)"
  by (auto simp: patch_entry_problem_def patch_entry_ok_def Let_def bad_segment_None [of 0, symmetric]
      split: pyobj.splits option.splits)

lemma patch_entries_problem_None:
  "patch_entries_problem i xs = Inr None \<longleftrightarrow> list_all patch_entry_ok xs"
proof (induction xs arbitrary: i)
  case (Cons raw rest)
  show ?case
  proof (cases raw)
    case (PDict entry)
    then show ?thesis
      using Cons.IH [of "Suc i"] patch_entry_problem_None [of i entry]
      by (auto split: sum.splits option.splits)
  qed (simp_all add: patch_entry_ok_def)
qed simp

section \<open>Operations and sessions\<close>

record session_op =
  so_op_id :: string
  so_actor_id :: string
  so_base_revision :: int
  so_revision :: int
  so_patch :: "pyobj list"
  so_timestamp :: real
  so_principal_id :: string
  so_actor_kind :: string

record document_session =
  ds_session_id :: string
  ds_scope :: string
  ds_document_id :: string
  ds_snapshot :: pyobj
  ds_snapshot_revision :: int
  ds_created_at :: real
  ds_ops :: "session_op list"
  ds_ops_by_id :: "(string, session_op) dict"
  ds_actor_bindings :: "(string, string) dict"
  ds_acl :: "(string, string) dict"
  ds_default_role :: string
  ds_document_kind :: string

definition session_revision :: "document_session \<Rightarrow> int" where
  "session_revision s =
     (if ds_ops s = [] then ds_snapshot_revision s else so_revision (last (ds_ops s)))"

text \<open>
  The log of a session: revisions are contiguous from the checkpoint, each operation was built
  on the revision before it, and the index by operation id holds exactly the retained log.
\<close>

fun contiguous_from :: "int \<Rightarrow> session_op list \<Rightarrow> bool" where
  "contiguous_from r [] = True"
| "contiguous_from r (o1 # os) \<longleftrightarrow>
     so_base_revision o1 = r \<and> so_revision o1 = r + 1 \<and> contiguous_from (r + 1) os"

lemma contiguous_append:
  "contiguous_from r (xs @ ys) \<longleftrightarrow>
     contiguous_from r xs \<and> contiguous_from (r + int (length xs)) ys"
  by (induction xs arbitrary: r) (auto simp: algebra_simps)

lemma contiguous_revisions:
  "contiguous_from r os \<Longrightarrow> map so_revision os = [r + 1..r + int (length os)]"
proof (induction os arbitrary: r)
  case (Cons o1 os)
  then have "contiguous_from (r + 1) os" by simp
  moreover have "[r + 1..r + int (length (o1 # os))] = (r + 1) # [r + 1 + 1..r + 1 + int (length os)]"
    by (subst upto_rec1) (simp_all add: algebra_simps)
  ultimately show ?case using Cons.IH [of "r + 1"] Cons.prems by simp
qed simp

lemma contiguous_last:
  "contiguous_from r os \<Longrightarrow> os \<noteq> [] \<Longrightarrow> so_revision (last os) = r + int (length os)"
  by (induction os arbitrary: r) (fastforce simp: algebra_simps)+

lemma contiguous_bounds:
  "contiguous_from r os \<Longrightarrow> o1 \<in> set os \<Longrightarrow> r < so_revision o1 \<and> so_revision o1 \<le> r + int (length os)"
  by (induction os arbitrary: r) fastforce+

lemma contiguous_filter_gt:
  assumes "contiguous_from r os" and "r \<le> k"
  shows "filter (\<lambda>o1. k < so_revision o1) os = drop (nat (k - r)) os"
  using assms
proof (induction os arbitrary: r)
  case (Cons o1 os)
  show ?case
  proof (cases "k = r")
    case True
    have "\<forall>o2 \<in> set (o1 # os). k < so_revision o2"
      using contiguous_bounds [OF Cons.prems(1)] True by blast
    then have "filter (\<lambda>o1. k < so_revision o1) (o1 # os) = o1 # os" by (simp add: filter_id_conv)
    with True show ?thesis by simp
  next
    case False
    with Cons.prems have "r + 1 \<le> k" by simp
    with Cons.prems Cons.IH [of "r + 1"]
    have "filter (\<lambda>o1. k < so_revision o1) os = drop (nat (k - (r + 1))) os" by simp
    moreover have "\<not> k < so_revision o1" using Cons.prems(1) \<open>r + 1 \<le> k\<close> by simp
    moreover have "nat (k - r) = Suc (nat (k - (r + 1)))" using \<open>r + 1 \<le> k\<close> by simp
    ultimately show ?thesis by simp
  qed
qed simp

lemma contiguous_drop:
  "contiguous_from r os \<Longrightarrow> n \<le> length os \<Longrightarrow> contiguous_from (r + int n) (drop n os)"
proof (induction os arbitrary: r n)
  case (Cons o1 os)
  show ?case
  proof (cases n)
    case (Suc m)
    with Cons.prems Cons.IH [of "r + 1" m] have "contiguous_from (r + 1 + int m) (drop m os)" by simp
    with Suc show ?thesis by (simp add: add.assoc [symmetric])
  qed (use Cons.prems in simp)
qed simp

lemma session_revision_eq:
  "contiguous_from (ds_snapshot_revision s) (ds_ops s) \<Longrightarrow>
     session_revision s = ds_snapshot_revision s + int (length (ds_ops s))"
  by (simp add: session_revision_def contiguous_last)

definition session_wf :: "document_session \<Rightarrow> bool" where
  "session_wf s \<longleftrightarrow>
     contiguous_from (ds_snapshot_revision s) (ds_ops s) \<and>
     0 \<le> ds_snapshot_revision s \<and>
     distinct (map so_op_id (ds_ops s)) \<and>
     dict_ok (ds_ops_by_id s) \<and>
     map_of (ds_ops_by_id s) = map_of (map (\<lambda>x. (so_op_id x, x)) (ds_ops s)) \<and>
     dict_ok (ds_actor_bindings s) \<and>
     (\<forall>x \<in> set (ds_ops s). map_of (ds_actor_bindings s) (so_actor_id x) = Some (so_principal_id x)) \<and>
     dict_ok (ds_acl s) \<and>
     (\<forall>r \<in> snd ` set (ds_acl s). r \<in> set session_roles) \<and>
     ''owner'' \<in> snd ` set (ds_acl s) \<and>
     ds_default_role s \<in> {''viewer'', ''editor''} \<and>
     ds_document_kind s \<in> set document_kinds \<and>
     json_shaped (ds_snapshot s) \<and>
     (\<forall>x \<in> set (ds_ops s). json_items (so_patch x))"

end
