(* ===== verification/Sessions.thy ===== *)
theory Sessions
  imports Session_Model
begin

text \<open>
  The session service (\<^verbatim>\<open>SessionService\<close> in \<^verbatim>\<open>dinkster_collab/sessions.py\<close>): ordering,
  idempotent append, catch-up reads, checkpoints, access control. The service runs over any
  store with the interface \<open>store_api\<close>; the locale below states what it needs of one.
\<close>

section \<open>Errors, store interface and state\<close>

datatype svc_error =
    UnknownSession string
  | StaleBase int
  | SnapshotRequired int int
  | ResyncRequired int
  | ActorPrincipalMismatch string
  | ActorLimit string
  | SessionRole string
  | NoSessionOwner string
  | InvalidSnapshot string
  | NotNormal norm_error
  | BadDocumentKind
  | BadDefaultRole
  | OwnerRequired
  | EmptyPrincipal
  | BadAclRole
  | CheckpointNotAdvancing int int
  | CheckpointAhead int int
  | RoleKeyError string
  | OpKeyError string
  | StoreFailed

record 'st store_api =
  api_put_session :: "'st \<Rightarrow> document_session \<Rightarrow> 'st option"
  api_replace_acl :: "'st \<Rightarrow> string \<Rightarrow> string \<Rightarrow> (string, string) dict \<Rightarrow> 'st option"
  api_append_op :: "'st \<Rightarrow> string \<Rightarrow> session_op \<Rightarrow> string \<Rightarrow> 'st option"
  api_put_actor :: "'st \<Rightarrow> string \<Rightarrow> string \<Rightarrow> string \<Rightarrow> 'st option"
  api_checkpoint :: "'st \<Rightarrow> string \<Rightarrow> pyobj \<Rightarrow> int \<Rightarrow> 'st option"
  api_delete_session :: "'st \<Rightarrow> string \<Rightarrow> 'st option"

text \<open>
  \<open>svc_env\<close> holds what the constructor fixes: the retention cap, the store if there is one, and
  the document validator, which is a parameter of the service. \<open>service\<close> is what changes.
\<close>

record 'st svc_env =
  env_max_retained :: int
  env_api :: "'st store_api option"
  env_validator :: "(string \<Rightarrow> string \<Rightarrow> pyobj \<Rightarrow> string option) option"

record 'st service =
  sv_sessions :: "(string, document_session) dict"
  sv_store :: 'st

definition call_store ::
    "'st svc_env \<Rightarrow> ('st store_api \<Rightarrow> 'st \<Rightarrow> 'st option) \<Rightarrow> 'st \<Rightarrow> 'st option" where
  "call_store env f st = (case env_api env of None \<Rightarrow> Some st | Some api \<Rightarrow> f api st)"

definition put_authoritative :: "document_session \<Rightarrow> 'st service \<Rightarrow> 'st service" where
  "put_authoritative s sv =
     sv\<lparr>sv_sessions := dict_set (ds_session_id s) s (sv_sessions sv)\<rparr>"

section \<open>Reads and access checks\<close>

definition get_authoritative :: "'st service \<Rightarrow> string \<Rightarrow> svc_error + document_session" where
  "get_authoritative sv sid =
     (case map_of (sv_sessions sv) sid of None \<Rightarrow> Inl (UnknownSession sid) | Some s \<Rightarrow> Inr s)"

definition sessions_in :: "'st service \<Rightarrow> string \<Rightarrow> document_session list" where
  "sessions_in sv scope = filter (\<lambda>s. ds_scope s = scope) (map snd (sv_sessions sv))"

definition session_role :: "document_session \<Rightarrow> string \<Rightarrow> string" where
  "session_role s prin = dict_get_default (ds_acl s) prin (ds_default_role s)"

definition role_for :: "'st service \<Rightarrow> string \<Rightarrow> string \<Rightarrow> svc_error + string" where
  "role_for sv sid prin =
     and_then (get_authoritative sv sid) (\<lambda>s. Inr (session_role s prin))"

definition require_role :: "'st service \<Rightarrow> string \<Rightarrow> string \<Rightarrow> string \<Rightarrow> svc_error + unit" where
  "require_role sv sid prin minimum =
     and_then (role_for sv sid prin) (\<lambda>role.
       case role_rank role of
         None \<Rightarrow> Inl (RoleKeyError role)
       | Some a \<Rightarrow>
           (case role_rank minimum of
              None \<Rightarrow> Inl (RoleKeyError minimum)
            | Some b \<Rightarrow> ensure (\<not> a < b) (SessionRole prin)))"

definition acl_policy :: "'st service \<Rightarrow> string \<Rightarrow> svc_error + string \<times> (string, string) dict" where
  "acl_policy sv sid =
     and_then (get_authoritative sv sid) (\<lambda>s. Inr (ds_default_role s, ds_acl s))"

definition check_actor :: "document_session \<Rightarrow> string \<Rightarrow> string \<Rightarrow> svc_error + unit" where
  "check_actor s actor prin =
     (case map_of (ds_actor_bindings s) actor of
        Some p \<Rightarrow> ensure (p = prin) (ActorPrincipalMismatch actor)
      | None \<Rightarrow>
          ensure (\<not> (4096 \<le> length (ds_actor_bindings s) \<or>
                     256 \<le> length (filter (\<lambda>b. snd b = prin) (ds_actor_bindings s))))
                 (ActorLimit (ds_session_id s)))"

definition check_actor_principal ::
    "'st service \<Rightarrow> string \<Rightarrow> string \<Rightarrow> string \<Rightarrow> svc_error + unit" where
  "check_actor_principal sv sid actor prin =
     and_then (get_authoritative sv sid) (\<lambda>s. check_actor s actor prin)"

definition ops_after ::
    "'st service \<Rightarrow> string \<Rightarrow> int \<Rightarrow> string \<Rightarrow> svc_error + session_op list" where
  "ops_after sv sid after prin =
     and_then (get_authoritative sv sid) (\<lambda>s.
     and_then (require_role sv sid prin ''viewer'') (\<lambda>_.
       if after < ds_snapshot_revision s then Inl (ResyncRequired (ds_snapshot_revision s))
       else Inr (filter (\<lambda>x. after < so_revision x) (ds_ops s))))"

definition validated_snapshot ::
    "'st svc_env \<Rightarrow> string \<Rightarrow> string \<Rightarrow> pyobj \<Rightarrow> svc_error + pyobj" where
  "validated_snapshot env kind doc snapshot =
     (case normalize_json snapshot ''snapshot'' of
        Inl e \<Rightarrow> Inl (NotNormal e)
      | Inr v \<Rightarrow>
          (case env_validator env of
             None \<Rightarrow> Inr v
           | Some check \<Rightarrow>
               (case check kind doc v of None \<Rightarrow> Inr v | Some p \<Rightarrow> Inl (InvalidSnapshot p))))"

section \<open>Operations that change the service\<close>

definition new_session ::
    "string \<Rightarrow> real \<Rightarrow> string \<Rightarrow> string \<Rightarrow> pyobj \<Rightarrow> string \<Rightarrow> string \<Rightarrow> document_session" where
  "new_session new_id now scope doc v kind prin =
     \<lparr>ds_session_id = new_id, ds_scope = scope, ds_document_id = doc,
      ds_snapshot = v, ds_snapshot_revision = 0, ds_created_at = now,
      ds_ops = [], ds_ops_by_id = [], ds_actor_bindings = [],
      ds_acl = [(prin, ''owner'')], ds_default_role = default_session_role,
      ds_document_kind = kind\<rparr>"

definition create_session ::
    "'st svc_env \<Rightarrow> 'st service \<Rightarrow> string \<Rightarrow> real \<Rightarrow> string \<Rightarrow> string \<Rightarrow> pyobj \<Rightarrow> string \<Rightarrow> string \<Rightarrow>
     'st service \<times> (svc_error + document_session)" where
  "create_session env sv new_id now scope doc snapshot kind prin =
     attempt sv (ensure (kind \<in> set document_kinds) BadDocumentKind) (\<lambda>_.
     attempt sv (validated_snapshot env kind doc snapshot) (\<lambda>v.
       let s = new_session new_id now scope doc v kind prin;
           sv' = put_authoritative s sv in
       case call_store env (\<lambda>api st. api_put_session api st s) (sv_store sv') of
         None \<Rightarrow> (sv', Inl StoreFailed)
       | Some st \<Rightarrow> (sv'\<lparr>sv_store := st\<rparr>, Inr s)))"

definition replace_acl ::
    "'st svc_env \<Rightarrow> 'st service \<Rightarrow> string \<Rightarrow> string \<Rightarrow> string \<Rightarrow> (string, string) dict \<Rightarrow>
     'st service \<times> (svc_error + document_session)" where
  "replace_acl env sv sid prin role entries =
     attempt sv (get_authoritative sv sid) (\<lambda>s.
     attempt sv (ensure (''owner'' \<in> snd ` set (ds_acl s)) (NoSessionOwner sid)) (\<lambda>_.
     attempt sv (require_role sv sid prin ''owner'') (\<lambda>_.
     attempt sv (ensure (role \<in> {''viewer'', ''editor''}) BadDefaultRole) (\<lambda>_.
     attempt sv (ensure (entries \<noteq> [] \<and> ''owner'' \<in> snd ` set entries) OwnerRequired) (\<lambda>_.
     attempt sv (ensure (\<forall>k \<in> fst ` set entries. k \<noteq> []) EmptyPrincipal) (\<lambda>_.
     attempt sv (ensure (\<forall>r \<in> snd ` set entries. r \<in> set session_roles) BadAclRole) (\<lambda>_.
       case call_store env (\<lambda>api st. api_replace_acl api st sid role entries) (sv_store sv) of
         None \<Rightarrow> (sv, Inl StoreFailed)
       | Some st \<Rightarrow>
           (let s' = s\<lparr>ds_default_role := role, ds_acl := entries\<rparr> in
            ((put_authoritative s' sv)\<lparr>sv_store := st\<rparr>, Inr s')))))))))"

definition close_session ::
    "'st svc_env \<Rightarrow> 'st service \<Rightarrow> string \<Rightarrow> string \<Rightarrow>
     'st service \<times> (svc_error + document_session)" where
  "close_session env sv sid prin =
     attempt sv (get_authoritative sv sid) (\<lambda>s.
       let minimum = (if ''owner'' \<in> snd ` set (ds_acl s) then ''owner'' else ''editor'') in
       attempt sv (require_role sv sid prin minimum) (\<lambda>_.
         let sv' = sv\<lparr>sv_sessions := dict_del sid (sv_sessions sv)\<rparr> in
         case call_store env (\<lambda>api st. api_delete_session api st sid) (sv_store sv') of
           None \<Rightarrow> (sv', Inl StoreFailed)
         | Some st \<Rightarrow> (sv'\<lparr>sv_store := st\<rparr>, Inr s)))"

definition do_bind_actor ::
    "'st svc_env \<Rightarrow> 'st service \<Rightarrow> document_session \<Rightarrow> string \<Rightarrow> string \<Rightarrow>
     'st service \<times> (svc_error + unit)" where
  "do_bind_actor env sv s actor prin =
     (case call_store env (\<lambda>api st. api_put_actor api st (ds_session_id s) actor prin)
             (sv_store sv) of
        None \<Rightarrow> (sv, Inl StoreFailed)
      | Some st \<Rightarrow>
          ((put_authoritative
              (s\<lparr>ds_actor_bindings := dict_set actor prin (ds_actor_bindings s)\<rparr>) sv)
             \<lparr>sv_store := st\<rparr>, Inr ()))"

definition bind_actor ::
    "'st svc_env \<Rightarrow> 'st service \<Rightarrow> string \<Rightarrow> string \<Rightarrow> string \<Rightarrow>
     'st service \<times> (svc_error + unit)" where
  "bind_actor env sv sid actor prin =
     attempt sv (get_authoritative sv sid) (\<lambda>s.
     attempt sv (require_role sv sid prin ''viewer'') (\<lambda>_.
     attempt sv (check_actor_principal sv sid actor prin) (\<lambda>_.
       if dict_mem actor (ds_actor_bindings s) then (sv, Inr ())
       else do_bind_actor env sv s actor prin)))"

fun normalize_patch :: "(pyobj \<times> pyobj) list list \<Rightarrow> svc_error + pyobj list" where
  "normalize_patch [] = Inr []"
| "normalize_patch (e # es) =
     (case normalize_json (PDict e) ''patch entry'' of
        Inl x \<Rightarrow> Inl (NotNormal x)
      | Inr y \<Rightarrow> and_then (normalize_patch es) (\<lambda>ys. Inr (y # ys)))"

definition next_op ::
    "document_session \<Rightarrow> string \<Rightarrow> string \<Rightarrow> pyobj list \<Rightarrow> string \<Rightarrow> string \<Rightarrow> real \<Rightarrow> session_op" where
  "next_op s op_id actor patch prin kind now =
     \<lparr>so_op_id = op_id, so_actor_id = actor, so_base_revision = session_revision s,
      so_revision = session_revision s + 1, so_patch = patch, so_timestamp = now,
      so_principal_id = prin, so_actor_kind = kind\<rparr>"

definition with_op :: "document_session \<Rightarrow> session_op \<Rightarrow> document_session" where
  "with_op s x =
     s\<lparr>ds_ops := ds_ops s @ [x],
       ds_ops_by_id := dict_set (so_op_id x) x (ds_ops_by_id s),
       ds_actor_bindings :=
         dict_setdefault (so_actor_id x) (so_principal_id x) (ds_actor_bindings s)\<rparr>"

definition append ::
    "'st svc_env \<Rightarrow> 'st service \<Rightarrow> string \<Rightarrow> string \<Rightarrow> string \<Rightarrow> int \<Rightarrow>
     (pyobj \<times> pyobj) list list \<Rightarrow> string \<Rightarrow> string \<Rightarrow> real \<Rightarrow>
     'st service \<times> (svc_error + session_op \<times> bool)" where
  "append env sv sid op_id actor base patch prin kind now =
     attempt sv (get_authoritative sv sid) (\<lambda>s.
     attempt sv (require_role sv sid prin ''editor'') (\<lambda>_.
     attempt sv (normalize_patch patch) (\<lambda>npatch.
       let bound = map_of (ds_actor_bindings s) actor in
       attempt sv (ensure (bound = None \<or> bound = Some prin) (ActorPrincipalMismatch actor)) (\<lambda>_.
       case map_of (ds_ops_by_id s) op_id of
         Some existing \<Rightarrow>
           attempt sv (ensure (so_actor_id existing = actor) (ActorPrincipalMismatch actor)) (\<lambda>_.
             if bound = None
             then (case do_bind_actor env sv s actor prin of
                     (sv', Inl e) \<Rightarrow> (sv', Inl e)
                   | (sv', Inr _) \<Rightarrow> (sv', Inr (existing, True)))
             else (sv, Inr (existing, True)))
       | None \<Rightarrow>
           attempt sv (check_actor_principal sv sid actor prin) (\<lambda>_.
           attempt sv (ensure (base = session_revision s) (StaleBase (session_revision s))) (\<lambda>_.
           attempt sv (ensure (\<not> env_max_retained env \<le> int (length (ds_ops s)))
                         (SnapshotRequired (session_revision s) (ds_snapshot_revision s))) (\<lambda>_.
             let x = next_op s op_id actor npatch prin kind now in
             case call_store env (\<lambda>api st. api_append_op api st sid x prin) (sv_store sv) of
               None \<Rightarrow> (sv, Inl StoreFailed)
             | Some st \<Rightarrow>
                 ((put_authoritative (with_op s x) sv)\<lparr>sv_store := st\<rparr>, Inr (x, False)))))))))"

text \<open>
  The pruned operations leave the index one by one; the first that is missing is a
  \<^verbatim>\<open>KeyError\<close>, and the index keeps the deletions made before it.
\<close>

fun del_ops ::
    "session_op list \<Rightarrow> (string, session_op) dict \<Rightarrow> (string, session_op) dict \<times> string option" where
  "del_ops [] d = (d, None)"
| "del_ops (x # xs) d =
     (if dict_mem (so_op_id x) d then del_ops xs (dict_del (so_op_id x) d)
      else (d, Some (so_op_id x)))"

definition checkpoint ::
    "'st svc_env \<Rightarrow> 'st service \<Rightarrow> string \<Rightarrow> int \<Rightarrow> pyobj \<Rightarrow> string \<Rightarrow>
     'st service \<times> (svc_error + document_session)" where
  "checkpoint env sv sid revn document prin =
     attempt sv (get_authoritative sv sid) (\<lambda>s.
     attempt sv (require_role sv sid prin ''editor'') (\<lambda>_.
     attempt sv (ensure (\<not> revn \<le> ds_snapshot_revision s)
                   (CheckpointNotAdvancing revn (ds_snapshot_revision s))) (\<lambda>_.
     attempt sv (ensure (\<not> session_revision s < revn)
                   (CheckpointAhead revn (session_revision s))) (\<lambda>_.
     attempt sv (validated_snapshot env (ds_document_kind s) (ds_document_id s) document) (\<lambda>v.
       let (by_id, missing) =
             del_ops (filter (\<lambda>x. so_revision x \<le> revn) (ds_ops s)) (ds_ops_by_id s);
           s' = s\<lparr>ds_snapshot := v, ds_snapshot_revision := revn,
                  ds_ops := filter (\<lambda>x. revn < so_revision x) (ds_ops s),
                  ds_ops_by_id := by_id\<rparr>;
           sv' = put_authoritative s' sv in
       case missing of
         Some k \<Rightarrow> (sv', Inl (OpKeyError k))
       | None \<Rightarrow>
           (case call_store env (\<lambda>api st. api_checkpoint api st sid v revn) (sv_store sv') of
              None \<Rightarrow> (sv', Inl StoreFailed)
            | Some st \<Rightarrow> (sv'\<lparr>sv_store := st\<rparr>, Inr s')))))))"

section \<open>Commands\<close>

datatype command =
    Create string real string string pyobj string string
  | ReplaceAcl string string string "(string, string) dict"
  | Close string string
  | BindActor string string string
  | Append string string string int "(pyobj \<times> pyobj) list list" string string real
  | Checkpoint string int pyobj string

fun run_command :: "'st svc_env \<Rightarrow> 'st service \<Rightarrow> command \<Rightarrow> 'st service \<times> svc_error option" where
  "run_command env sv (Create i now scope doc v kind p) =
     map_prod id (case_sum Some (\<lambda>_. None)) (create_session env sv i now scope doc v kind p)"
| "run_command env sv (ReplaceAcl i p r es) =
     map_prod id (case_sum Some (\<lambda>_. None)) (replace_acl env sv i p r es)"
| "run_command env sv (Close i p) =
     map_prod id (case_sum Some (\<lambda>_. None)) (close_session env sv i p)"
| "run_command env sv (BindActor i a p) =
     map_prod id (case_sum Some (\<lambda>_. None)) (bind_actor env sv i a p)"
| "run_command env sv (Append i x a b patch p k now) =
     map_prod id (case_sum Some (\<lambda>_. None)) (append env sv i x a b patch p k now)"
| "run_command env sv (Checkpoint i r v p) =
     map_prod id (case_sum Some (\<lambda>_. None)) (checkpoint env sv i r v p)"

fun run_commands :: "'st svc_env \<Rightarrow> 'st service \<Rightarrow> command list \<Rightarrow> 'st service" where
  "run_commands env sv [] = sv"
| "run_commands env sv (c # cs) = run_commands env (fst (run_command env sv c)) cs"

section \<open>The invariant of the service\<close>

definition bound_to :: "document_session \<Rightarrow> string \<Rightarrow> nat" where
  "bound_to s prin = length (filter (\<lambda>b. snd b = prin) (ds_actor_bindings s))"

definition session_ok :: "'st svc_env \<Rightarrow> document_session \<Rightarrow> bool" where
  "session_ok env s \<longleftrightarrow>
     session_wf s \<and>
     int (length (ds_ops s)) \<le> env_max_retained env \<and>
     length (ds_actor_bindings s) \<le> 4096 \<and>
     (\<forall>p. bound_to s p \<le> 256)"

definition service_ok :: "'st svc_env \<Rightarrow> 'st service \<Rightarrow> bool" where
  "service_ok env sv \<longleftrightarrow>
     dict_ok (sv_sessions sv) \<and>
     (\<forall>sid s. map_of (sv_sessions sv) sid = Some s \<longrightarrow> ds_session_id s = sid \<and> session_ok env s)"

text \<open>The callers pass real dictionaries and the constructor refuses a cap below one.\<close>

fun command_ok :: "command \<Rightarrow> bool" where
  "command_ok (ReplaceAcl _ _ _ entries) = dict_ok entries"
| "command_ok _ = True"

lemma service_ok_store [simp]: "service_ok env (sv\<lparr>sv_store := st\<rparr>) = service_ok env sv"
  by (simp add: service_ok_def)

lemma sv_store_put [simp]: "sv_store (put_authoritative s sv) = sv_store sv"
  by (simp add: put_authoritative_def)

lemma service_ok_put:
  "service_ok env sv \<Longrightarrow> session_ok env s \<Longrightarrow> service_ok env (put_authoritative s sv)"
  by (simp add: service_ok_def put_authoritative_def)

lemma service_ok_del:
  "service_ok env sv \<Longrightarrow> service_ok env (sv\<lparr>sv_sessions := dict_del sid (sv_sessions sv)\<rparr>)"
  by (simp add: service_ok_def)

lemma get_authoritative_Inr:
  "get_authoritative sv sid = Inr s \<longleftrightarrow> map_of (sv_sessions sv) sid = Some s"
  by (simp add: get_authoritative_def split: option.splits)

lemma service_ok_get:
  assumes "service_ok env sv" and "get_authoritative sv sid = Inr s"
  shows "session_ok env s" and "ds_session_id s = sid" and "session_wf s"
  using assms by (auto simp: service_ok_def session_ok_def get_authoritative_Inr)

lemma validated_snapshot_shaped: "validated_snapshot env kind doc v = Inr u \<Longrightarrow> json_shaped u"
  by (auto simp: validated_snapshot_def normalize_json_Inr split: sum.splits option.splits)

lemma normalize_patch_shaped: "normalize_patch patch = Inr ps \<Longrightarrow> json_items ps"
  by (induction patch arbitrary: ps)
    (auto simp: and_then_Inr_iff normalize_json_Inr simp del: normalize_json.simps
      json_shaped.simps split: sum.splits)

lemma session_ok_new:
  assumes "1 \<le> env_max_retained env" and "kind \<in> set document_kinds"
    and "validated_snapshot env kind doc w = Inr v"
  shows "session_ok env (new_session i now scope doc v kind prin)"
  using assms validated_snapshot_shaped [OF assms(3)]
  by (simp add: session_ok_def session_wf_def bound_to_def default_session_role_def
      session_roles_def new_session_def)

lemma new_session_simps [simp]:
  "ds_session_id (new_session i now scope doc v kind prin) = i"
  "ds_ops (new_session i now scope doc v kind prin) = []"
  "ds_actor_bindings (new_session i now scope doc v kind prin) = []"
  by (simp_all add: new_session_def)

lemma session_ok_acl:
  assumes "session_ok env s" and "dict_ok entries" and "role \<in> {''viewer'', ''editor''}"
    and "''owner'' \<in> snd ` set entries" and "\<forall>r \<in> snd ` set entries. r \<in> set session_roles"
  shows "session_ok env (s\<lparr>ds_default_role := role, ds_acl := entries\<rparr>)"
  using assms by (simp add: session_ok_def session_wf_def bound_to_def)

lemma check_actor_Inr:
  "check_actor s actor prin = Inr u \<longleftrightarrow>
     map_of (ds_actor_bindings s) actor = Some prin \<or>
     map_of (ds_actor_bindings s) actor = None \<and>
       length (ds_actor_bindings s) < 4096 \<and> bound_to s prin < 256"
  by (auto simp: check_actor_def bound_to_def split: option.splits)

lemma session_ok_bind:
  assumes "session_ok env s" and "check_actor s actor prin = Inr u"
  shows "session_ok env (s\<lparr>ds_actor_bindings := dict_setdefault actor prin (ds_actor_bindings s)\<rparr>)"
proof (cases "map_of (ds_actor_bindings s) actor")
  case None
  let ?b = "ds_actor_bindings s @ [(actor, prin)]"
  have b: "dict_setdefault actor prin (ds_actor_bindings s) = ?b"
    using None by (simp add: dict_setdefault_def dict_mem_def dict_set_append)
  have "dict_ok ?b"
    using assms None by (auto simp: session_ok_def session_wf_def dict_ok_def map_of_eq_None_iff)
  moreover have "map_of ?b = (map_of (ds_actor_bindings s))(actor \<mapsto> prin)"
    using None b by (metis dict_setdefault_def dict_mem_def map_of_dict_set)
  moreover have "length ?b \<le> 4096" and "length (filter (\<lambda>x. snd x = p) ?b) \<le> 256" for p
    using assms None by (auto simp: session_ok_def check_actor_Inr bound_to_def)
  ultimately show ?thesis
    using assms(1) None unfolding b by (fastforce simp: session_ok_def session_wf_def bound_to_def)
next
  case (Some p)
  then have "dict_setdefault actor prin (ds_actor_bindings s) = ds_actor_bindings s"
    by (simp add: dict_setdefault_def dict_mem_def)
  with assms(1) show ?thesis by simp
qed

lemma map_of_index:
  assumes "distinct (map so_op_id os)"
  shows "map_of (map (\<lambda>x. (so_op_id x, x)) os) k = Some x \<longleftrightarrow> x \<in> set os \<and> so_op_id x = k"
proof -
  have "distinct (map fst (map (\<lambda>x. (so_op_id x, x)) os))" using assms by (simp add: comp_def)
  from map_of_eq_Some_iff [OF this] show ?thesis by auto
qed

lemma session_ok_op:
  assumes ok: "session_ok env s"
    and new: "map_of (ds_ops_by_id s) op_id = None" and patch: "json_items patch"
    and actor: "check_actor s actor prin = Inr u"
    and room: "\<not> env_max_retained env \<le> int (length (ds_ops s))"
  shows "session_ok env (with_op s (next_op s op_id actor patch prin kind now))"
proof -
  let ?x = "next_op s op_id actor patch prin kind now"
  let ?t = "s\<lparr>ds_actor_bindings := dict_setdefault actor prin (ds_actor_bindings s)\<rparr>"
  have t: "session_ok env ?t" using session_ok_bind [OF ok actor] .
  then have wf: "session_wf ?t" by (simp add: session_ok_def)
  then have rv: "session_revision s = ds_snapshot_revision s + int (length (ds_ops s))"
    by (simp add: session_wf_def session_revision_eq)
  have "map_of (map (\<lambda>x. (so_op_id x, x)) (ds_ops s)) op_id = None"
    using wf new by (simp add: session_wf_def)
  then have fresh: "op_id \<notin> so_op_id ` set (ds_ops s)" by (force simp: map_of_eq_None_iff)
  have bound: "map_of (dict_setdefault actor prin (ds_actor_bindings s)) actor = Some prin"
    using actor by (auto simp: check_actor_Inr split: option.splits)
  have "with_op s ?x = ?t\<lparr>ds_ops := ds_ops s @ [?x], ds_ops_by_id := dict_set op_id ?x (ds_ops_by_id s)\<rparr>"
    by (simp add: with_op_def next_op_def)
  moreover have "map_of (dict_set op_id ?x (ds_ops_by_id s)) =
      map_of (map (\<lambda>x. (so_op_id x, x)) (ds_ops s @ [?x]))"
    using wf new by (auto simp: session_wf_def map_add_def next_op_def split: option.splits)
  moreover have "contiguous_from (ds_snapshot_revision s) (ds_ops s @ [?x])"
    using wf by (simp add: session_wf_def contiguous_append next_op_def rv)
  moreover have "json_items (so_patch ?x)" "so_op_id ?x = op_id" "so_actor_id ?x = actor"
      "so_principal_id ?x = prin"
    by (simp_all add: next_op_def patch)
  ultimately show ?thesis
    using t room fresh bound
    by (simp add: session_ok_def session_wf_def bound_to_def del: map_of_dict_setdefault)
qed

lemma del_ops_complete:
  assumes "distinct (map so_op_id xs)" and "so_op_id ` set xs \<subseteq> dom (map_of d)" and "dict_ok d"
  obtains d' where "del_ops xs d = (d', None)" and "dict_ok d'"
    and "map_of d' = (\<lambda>k. if k \<in> so_op_id ` set xs then None else map_of d k)"
proof -
  have "\<exists>d'. del_ops xs d = (d', None) \<and> dict_ok d' \<and>
          map_of d' = (\<lambda>k. if k \<in> so_op_id ` set xs then None else map_of d k)"
    using assms
  proof (induction xs arbitrary: d)
    case (Cons x xs)
    let ?d = "dict_del (so_op_id x) d"
    have x: "so_op_id x \<notin> so_op_id ` set xs" and sub: "so_op_id ` set xs \<subseteq> dom (map_of d)"
      using Cons.prems(1,2) by simp_all
    then have sub': "so_op_id ` set xs \<subseteq> dom (map_of ?d)"
      unfolding map_of_dict_del dom_fun_upd by (simp add: subset_Diff_insert)
    have "distinct (map so_op_id xs)" and "dict_ok ?d" using Cons.prems by simp_all
    from Cons.IH [OF this(1) sub' this(2)]
    obtain d' where d': "del_ops xs ?d = (d', None)" "dict_ok d'"
      "map_of d' = (\<lambda>k. if k \<in> so_op_id ` set xs then None else map_of ?d k)" by blast
    have "dict_mem (so_op_id x) d" using Cons.prems(2) by (auto simp: dict_mem_def)
    with d' show ?case by (intro exI [of _ d']) (auto simp: fun_eq_iff)
  qed simp
  then show ?thesis using that by blast
qed

text \<open>The index after a checkpoint is the index of what is retained, and no key is missing.\<close>

lemma session_wf_prune:
  assumes "session_wf s"
  obtains d where "del_ops (filter (\<lambda>x. so_revision x \<le> revn) (ds_ops s)) (ds_ops_by_id s) = (d, None)"
    and "dict_ok d"
    and "map_of d = map_of (map (\<lambda>x. (so_op_id x, x)) (filter (\<lambda>x. revn < so_revision x) (ds_ops s)))"
proof -
  let ?os = "ds_ops s"
  let ?pruned = "filter (\<lambda>x. so_revision x \<le> revn) ?os"
  let ?kept = "filter (\<lambda>x. revn < so_revision x) ?os"
  have dist: "distinct (map so_op_id ?os)" and by_id: "dict_ok (ds_ops_by_id s)"
    and idx: "map_of (ds_ops_by_id s) = map_of (map (\<lambda>x. (so_op_id x, x)) ?os)"
    using assms by (auto simp: session_wf_def)
  have sub: "so_op_id ` set ?pruned \<subseteq> dom (map_of (ds_ops_by_id s))"
    using map_of_index [OF dist] by (auto simp: idx)
  obtain d where d: "del_ops ?pruned (ds_ops_by_id s) = (d, None)" "dict_ok d"
    "map_of d = (\<lambda>k. if k \<in> so_op_id ` set ?pruned then None else map_of (ds_ops_by_id s) k)"
    using del_ops_complete [OF distinct_map_filter [OF dist] sub by_id] .
  have "map_of d k = Some x \<longleftrightarrow> map_of (map (\<lambda>x. (so_op_id x, x)) ?kept) k = Some x" for k x
  proof -
    have pruned: "k \<in> so_op_id ` set ?pruned \<longleftrightarrow> so_revision x \<le> revn"
      if x: "x \<in> set ?os" "so_op_id x = k"
    proof -
      have inj: "inj_on so_op_id (set ?os)" using dist by (simp add: distinct_map)
      have same: "y = x" if "y \<in> set ?os" "so_op_id y = k" for y
        by (rule inj_onD [OF inj]) (use that x in simp_all)
      show ?thesis
      proof
        assume "k \<in> so_op_id ` set ?pruned"
        then obtain y where "y \<in> set ?os" "so_op_id y = k" "so_revision y \<le> revn" by auto
        with same [of y] show "so_revision x \<le> revn" by simp
      qed (use x in force)
    qed
    have "map_of d k = Some x \<longleftrightarrow>
        k \<notin> so_op_id ` set ?pruned \<and> map_of (map (\<lambda>x. (so_op_id x, x)) ?os) k = Some x"
      by (simp add: d(3) idx)
    also have "\<dots> \<longleftrightarrow> x \<in> set ?os \<and> so_op_id x = k \<and> revn < so_revision x"
      using pruned map_of_index [OF dist, of k x] by auto
    also have "\<dots> \<longleftrightarrow> map_of (map (\<lambda>x. (so_op_id x, x)) ?kept) k = Some x"
      by (subst map_of_index [OF distinct_map_filter [OF dist]]) auto
    finally show ?thesis .
  qed
  then have "map_of d = map_of (map (\<lambda>x. (so_op_id x, x)) ?kept)"
    by (rule map_Some_eqI)
  with d that show ?thesis by blast
qed

lemma session_ok_checkpoint:
  assumes ok: "session_ok env s" and "json_shaped v"
    and lo: "ds_snapshot_revision s < revn" and hi: "revn \<le> session_revision s"
    and d: "dict_ok d"
      "map_of d = map_of (map (\<lambda>x. (so_op_id x, x)) (filter (\<lambda>x. revn < so_revision x) (ds_ops s)))"
  shows "session_ok env (s\<lparr>ds_snapshot := v, ds_snapshot_revision := revn,
    ds_ops := filter (\<lambda>x. revn < so_revision x) (ds_ops s), ds_ops_by_id := d\<rparr>)"
proof -
  have c: "contiguous_from (ds_snapshot_revision s) (ds_ops s)"
    using ok by (simp add: session_ok_def session_wf_def)
  let ?n = "nat (revn - ds_snapshot_revision s)"
  have "?n \<le> length (ds_ops s)" using hi lo session_revision_eq [OF c] by simp
  from contiguous_drop [OF c this] lo
  have "contiguous_from revn (filter (\<lambda>x. revn < so_revision x) (ds_ops s))"
    using contiguous_filter_gt [OF c, of revn] by simp
  moreover have "int (length (filter (\<lambda>x. revn < so_revision x) (ds_ops s))) \<le> env_max_retained env"
    using ok length_filter_le [of "\<lambda>x. revn < so_revision x" "ds_ops s"]
    by (simp add: session_ok_def del: length_filter_le)
  ultimately show ?thesis
    using assms distinct_map_filter [of so_op_id "ds_ops s"]
    by (auto simp: session_ok_def session_wf_def bound_to_def)
qed

section \<open>Every operation keeps the invariant\<close>

lemma create_session_ok:
  assumes ok: "service_ok env sv" and cap: "1 \<le> env_max_retained env"
  shows "outcome (\<lambda>sv' _. service_ok env sv') (create_session env sv i now scope doc v kind prin)"
  unfolding create_session_def Let_def
  by (intro outcome_intros) (use ok service_ok_put [OF ok session_ok_new [OF cap]] in auto)

lemma replace_acl_ok:
  assumes "service_ok env sv" and "dict_ok entries"
  shows "outcome (\<lambda>sv' _. service_ok env sv') (replace_acl env sv sid prin role entries)"
  unfolding replace_acl_def Let_def
proof (intro outcome_intros)
  fix s st u1 u2 u3 u4 u5 u6
  assume "get_authoritative sv sid = Inr s"
    and "ensure (role \<in> {''viewer'', ''editor''}) BadDefaultRole = Inr u3"
    and "ensure (entries \<noteq> [] \<and> ''owner'' \<in> snd ` set entries) OwnerRequired = Inr u4"
    and "ensure (\<forall>r \<in> snd ` set entries. r \<in> set session_roles) BadAclRole = Inr u6"
  then have "session_ok env (s\<lparr>ds_default_role := role, ds_acl := entries\<rparr>)"
    using assms by (intro session_ok_acl) (auto dest: service_ok_get)
  with assms show "service_ok env ((put_authoritative
      (s\<lparr>ds_default_role := role, ds_acl := entries\<rparr>) sv)\<lparr>sv_store := st\<rparr>)"
    by (simp add: service_ok_put)
qed (rule assms)+

lemma close_session_ok:
  assumes "service_ok env sv"
  shows "outcome (\<lambda>sv' _. service_ok env sv') (close_session env sv sid prin)"
  unfolding close_session_def Let_def
  by (intro outcome_intros) (use assms in \<open>simp_all add: service_ok_del\<close>)

lemma do_bind_actor_ok:
  assumes "service_ok env sv" and "session_ok env s" and "check_actor s actor prin = Inr u"
    and "map_of (ds_actor_bindings s) actor = None"
  shows "outcome (\<lambda>sv' _. service_ok env sv') (do_bind_actor env sv s actor prin)"
  unfolding do_bind_actor_def
  using session_ok_bind [OF assms(2,3)] assms
  by (intro outcome_intros) (simp_all add: service_ok_put dict_setdefault_def dict_mem_def)

lemma check_actor_principal_get:
  "get_authoritative sv sid = Inr s \<Longrightarrow> check_actor_principal sv sid actor prin = check_actor s actor prin"
  by (simp add: check_actor_principal_def)

lemma bind_actor_ok:
  assumes "service_ok env sv"
  shows "outcome (\<lambda>sv' _. service_ok env sv') (bind_actor env sv sid actor prin)"
  unfolding bind_actor_def
proof (intro outcome_intros)
  fix s u1 u2
  assume s: "get_authoritative sv sid = Inr s"
    and "check_actor_principal sv sid actor prin = Inr u2" and "\<not> dict_mem actor (ds_actor_bindings s)"
  then show "outcome (\<lambda>sv' _. service_ok env sv') (do_bind_actor env sv s actor prin)"
    using do_bind_actor_ok [OF assms service_ok_get(1) [OF assms s]]
    by (simp add: check_actor_principal_get dict_mem_def)
qed (rule assms)+

lemma session_wf_existing:
  assumes "session_wf s" and "map_of (ds_ops_by_id s) op_id = Some x"
  shows "x \<in> set (ds_ops s)" and "so_op_id x = op_id"
    and "map_of (ds_actor_bindings s) (so_actor_id x) = Some (so_principal_id x)"
  using assms map_of_index [of "ds_ops s" op_id x] by (auto simp: session_wf_def)

lemma append_ok:
  assumes ok: "service_ok env sv"
  shows "outcome (\<lambda>sv' _. service_ok env sv') (append env sv sid op_id actor base patch prin kind now)"
proof (cases "get_authoritative sv sid")
  case (Inr s)
  note s = service_ok_get [OF ok Inr]
  have op: "session_ok env (with_op s (next_op s op_id actor ps prin kind now))"
    if "normalize_patch patch = Inr ps" "map_of (ds_ops_by_id s) op_id = None"
      "check_actor_principal sv sid actor prin = Inr ()"
      "\<not> env_max_retained env \<le> int (length (ds_ops s))" for ps
    using session_ok_op [OF s(1)] that normalize_patch_shaped check_actor_principal_get [OF Inr]
    by metis
  have bound: "map_of (ds_actor_bindings s) (so_actor_id x) \<noteq> None"
    if "map_of (ds_ops_by_id s) op_id = Some x" for x
    using session_wf_existing [OF s(3) that] by simp
  show ?thesis
    unfolding append_def Let_def Inr attempt_simps
    by (intro outcome_intros) (use ok op service_ok_put [OF ok] bound in auto)
qed (simp add: append_def outcome_def ok)

lemma checkpoint_ok:
  assumes ok: "service_ok env sv"
  shows "outcome (\<lambda>sv' _. service_ok env sv') (checkpoint env sv sid revn document prin)"
proof (cases "get_authoritative sv sid")
  case (Inr s)
  note s = service_ok_get [OF ok Inr]
  obtain d where d: "del_ops (filter (\<lambda>x. so_revision x \<le> revn) (ds_ops s)) (ds_ops_by_id s) = (d, None)"
    "dict_ok d"
    "map_of d = map_of (map (\<lambda>x. (so_op_id x, x)) (filter (\<lambda>x. revn < so_revision x) (ds_ops s)))"
    using session_wf_prune [OF s(3)] .
  have cp: "session_ok env (s\<lparr>ds_snapshot := v, ds_snapshot_revision := revn,
      ds_ops := filter (\<lambda>x. revn < so_revision x) (ds_ops s), ds_ops_by_id := d\<rparr>)"
    if "validated_snapshot env (ds_document_kind s) (ds_document_id s) document = Inr v"
      "\<not> revn \<le> ds_snapshot_revision s" "\<not> session_revision s < revn" for v
    using session_ok_checkpoint [OF s(1) validated_snapshot_shaped [OF that(1)] _ _ d(2,3)] that(2,3)
    by simp
  show ?thesis
    unfolding checkpoint_def Let_def Inr attempt_simps d(1) prod.case option.case
    by (intro outcome_intros) (use ok cp service_ok_put [OF ok] in auto)
qed (simp add: checkpoint_def outcome_def ok)

lemma run_command_ok:
  assumes "service_ok env sv" and "1 \<le> env_max_retained env" and "command_ok c"
  shows "service_ok env (fst (run_command env sv c))"
  using assms create_session_ok replace_acl_ok close_session_ok bind_actor_ok append_ok checkpoint_ok
  by (cases c) simp_all

lemma run_commands_ok:
  "service_ok env sv \<Longrightarrow> 1 \<le> env_max_retained env \<Longrightarrow> list_all command_ok cs \<Longrightarrow>
     service_ok env (run_commands env sv cs)"
  by (induction cs arbitrary: sv) (simp_all add: run_command_ok)

section \<open>What the service needs of its store\<close>

text \<open>
  \<open>holds st sid so\<close> says that the store state \<open>st\<close> describes session \<open>sid\<close> as \<open>so\<close>
  (\<open>None\<close>: it has no trace of it). A call advances one session and leaves the others.
\<close>

definition advances ::
    "('st \<Rightarrow> string \<Rightarrow> document_session option \<Rightarrow> bool) \<Rightarrow>
     'st \<Rightarrow> string \<Rightarrow> document_session option \<Rightarrow> 'st \<Rightarrow> bool" where
  "advances holds st sid so st' \<longleftrightarrow>
     holds st' sid so \<and> (\<forall>k ko. k \<noteq> sid \<longrightarrow> holds st k ko \<longrightarrow> holds st' k ko)"

definition answers :: "'a option \<Rightarrow> ('a \<Rightarrow> bool) \<Rightarrow> bool" where
  "answers x P \<longleftrightarrow> (case x of None \<Rightarrow> False | Some a \<Rightarrow> P a)"

lemma answers_iff: "answers x P \<longleftrightarrow> (\<exists>a. x = Some a \<and> P a)"
  by (simp add: answers_def split: option.splits)

lemma answers_not_None: "answers x P \<Longrightarrow> x = None \<Longrightarrow> False"
  by (auto simp: answers_iff)

lemma answers_Some: "answers x P \<Longrightarrow> x = Some a \<Longrightarrow> P a"
  by (simp add: answers_iff)

definition store_agrees ::
    "('st \<Rightarrow> string \<Rightarrow> document_session option \<Rightarrow> bool) \<Rightarrow> 'st service \<Rightarrow> bool" where
  "store_agrees holds sv \<longleftrightarrow>
     (\<forall>sid. holds (sv_store sv) sid (map_of (sv_sessions sv) sid))"

fun internal_error :: "svc_error \<Rightarrow> bool" where
  "internal_error StoreFailed = True"
| "internal_error (OpKeyError _) = True"
| "internal_error (RoleKeyError _) = True"
| "internal_error _ = False"

definition clean :: "svc_error + 'a \<Rightarrow> bool" where
  "clean r \<longleftrightarrow> (case r of Inl e \<Rightarrow> \<not> internal_error e | Inr _ \<Rightarrow> True)"

lemma clean_simps [simp]: "clean (Inl e) \<longleftrightarrow> \<not> internal_error e" "clean (Inr a)"
  by (simp_all add: clean_def)

lemma clean_Inl: "clean r \<Longrightarrow> r = Inl e \<Longrightarrow> \<not> internal_error e"
  by simp

lemma agrees_put:
  "store_agrees holds sv \<Longrightarrow> advances holds (sv_store sv) (ds_session_id s) (Some s) st' \<Longrightarrow>
     store_agrees holds ((put_authoritative s sv)\<lparr>sv_store := st'\<rparr>)"
  by (simp add: store_agrees_def advances_def put_authoritative_def)

lemma agrees_del:
  "store_agrees holds sv \<Longrightarrow> advances holds (sv_store sv) sid None st' \<Longrightarrow>
     store_agrees holds (sv\<lparr>sv_sessions := dict_del sid (sv_sessions sv), sv_store := st'\<rparr>)"
  by (simp add: store_agrees_def advances_def)

lemma agrees_get:
  "store_agrees holds sv \<Longrightarrow> map_of (sv_sessions sv) sid = so \<Longrightarrow> holds (sv_store sv) sid so"
  unfolding store_agrees_def by metis

lemma clean_get: "clean (get_authoritative sv sid)"
  by (simp add: get_authoritative_def split: option.splits)

lemma clean_validated: "clean (validated_snapshot env kind doc v)"
  by (simp add: validated_snapshot_def split: sum.splits option.splits)

lemma clean_normalize_patch: "clean (normalize_patch patch)"
  by (induction patch) (auto simp: and_then_def simp del: normalize_json.simps split: sum.splits)

lemma clean_check_actor: "clean (check_actor_principal sv sid actor prin)"
  by (auto simp: check_actor_principal_def check_actor_def get_authoritative_def ensure_def
      split: option.splits)

lemma session_role_known: "session_wf s \<Longrightarrow> role_rank (session_role s prin) \<noteq> None"
  unfolding role_rank_Some_iff session_role_def dict_get_default_def
  by (auto simp: session_wf_def session_roles_def split: option.splits dest!: map_of_SomeD)

lemma clean_require_role:
  assumes "service_ok env sv" and "role_rank minimum \<noteq> None"
  shows "clean (require_role sv sid prin minimum)"
proof (cases "get_authoritative sv sid")
  case (Inr s)
  with assms session_role_known [OF service_ok_get(3) [OF assms(1) Inr], of prin] show ?thesis
    by (auto simp: require_role_def role_for_def ensure_def)
qed (use clean_get [of sv sid] in \<open>simp add: require_role_def role_for_def\<close>)

text \<open>A session is created under an id nobody uses: the generator is 80 random bits and a clock.\<close>

definition fresh_command :: "'st service \<Rightarrow> command \<Rightarrow> bool" where
  "fresh_command sv c \<longleftrightarrow>
     (case c of Create i _ _ _ _ _ _ \<Rightarrow> map_of (sv_sessions sv) i = None | _ \<Rightarrow> True)"

locale session_persistence =
  fixes api :: "'st store_api"
    and holds :: "'st \<Rightarrow> string \<Rightarrow> document_session option \<Rightarrow> bool"
  assumes put_law:
    "holds st (ds_session_id s) None \<Longrightarrow> session_wf s \<Longrightarrow> ds_ops s = [] \<Longrightarrow> ds_actor_bindings s = [] \<Longrightarrow>
       \<exists>st'. api_put_session api st s = Some st' \<and> advances holds st (ds_session_id s) (Some s) st'"
    and acl_law:
    "holds st sid (Some s) \<Longrightarrow> dict_ok entries \<Longrightarrow>
       \<exists>st'. api_replace_acl api st sid role entries = Some st' \<and>
         advances holds st sid (Some (s\<lparr>ds_default_role := role, ds_acl := entries\<rparr>)) st'"
    and op_law:
    "holds st sid (Some s) \<Longrightarrow> session_wf s \<Longrightarrow> so_revision x = session_revision s + 1 \<Longrightarrow>
       map_of (ds_ops_by_id s) (so_op_id x) = None \<Longrightarrow> so_principal_id x = prin \<Longrightarrow>
       \<exists>st'. api_append_op api st sid x prin = Some st' \<and>
         advances holds st sid (Some (with_op s x)) st'"
    and actor_law:
    "holds st sid (Some s) \<Longrightarrow> map_of (ds_actor_bindings s) actor = None \<Longrightarrow>
       \<exists>st'. api_put_actor api st sid actor prin = Some st' \<and>
         advances holds st sid
           (Some (s\<lparr>ds_actor_bindings := dict_set actor prin (ds_actor_bindings s)\<rparr>)) st'"
    and checkpoint_law:
    "holds st sid (Some s) \<Longrightarrow>
       \<exists>st'. api_checkpoint api st sid v revn = Some st' \<and>
         advances holds st sid
           (Some (s\<lparr>ds_snapshot := v, ds_snapshot_revision := revn,
                    ds_ops := filter (\<lambda>x. revn < so_revision x) (ds_ops s), ds_ops_by_id := d\<rparr>)) st'"
    and delete_law:
    "\<exists>st'. api_delete_session api st sid = Some st' \<and> advances holds st sid None st'"
begin

definition in_step :: "'st svc_env \<Rightarrow> 'st service \<Rightarrow> bool" where
  "in_step env sv \<longleftrightarrow> env_api env = Some api \<and> service_ok env sv \<and> store_agrees holds sv"

lemma in_step_get:
  assumes "in_step env sv" and "get_authoritative sv sid = Inr s"
  shows "holds (sv_store sv) sid (Some s)" and "session_wf s" and "ds_session_id s = sid"
  using assms service_ok_get [of env sv sid s] agrees_get [of holds sv sid "Some s"]
  by (auto simp: in_step_def get_authoritative_Inr)

lemma call_api: "in_step env sv \<Longrightarrow> call_store env f st = f api st"
  by (simp add: call_store_def in_step_def)

lemma in_step_clean:
  assumes "in_step env sv" and "role_rank minimum \<noteq> None"
  shows "clean (require_role sv sid prin minimum)"
  by (rule clean_require_role [of env]) (use assms in \<open>simp_all add: in_step_def\<close>)

lemma create_in_step:
  assumes sv: "in_step env sv" and cap: "1 \<le> env_max_retained env"
    and fresh: "map_of (sv_sessions sv) i = None"
  shows "outcome (\<lambda>sv' r. store_agrees holds sv' \<and> clean r)
    (create_session env sv i now scope doc v kind prin)"
proof -
  have agrees: "store_agrees holds sv" using sv by (simp add: in_step_def)
  have put: "answers (api_put_session api (sv_store sv) (new_session i now scope doc w kind prin))
      (\<lambda>st. store_agrees holds
        ((put_authoritative (new_session i now scope doc w kind prin) sv)\<lparr>sv_store := st\<rparr>))"
    if "kind \<in> set document_kinds" "validated_snapshot env kind doc v = Inr w" for w
    using put_law [of "sv_store sv" "new_session i now scope doc w kind prin"]
      session_ok_new [OF cap that] agrees_get [OF agrees fresh] agrees_put [OF agrees]
    by (auto simp: session_ok_def answers_iff)
  show ?thesis
    unfolding create_session_def Let_def call_api [OF sv] sv_store_put
    by (intro outcome_intros)
      (use agrees clean_validated [of env kind doc v] in
        \<open>auto dest: put [THEN answers_not_None] put [THEN answers_Some]\<close>)
qed

lemma acl_in_step:
  assumes sv: "in_step env sv" and entries: "dict_ok entries"
  shows "outcome (\<lambda>sv' r. store_agrees holds sv' \<and> clean r) (replace_acl env sv sid prin role entries)"
proof (cases "get_authoritative sv sid")
  case (Inr s)
  have agrees: "store_agrees holds sv" using sv by (simp add: in_step_def)
  let ?s = "\<lambda>r. s\<lparr>ds_default_role := r, ds_acl := entries\<rparr>"
  have law: "answers (api_replace_acl api (sv_store sv) sid r entries)
      (\<lambda>st. store_agrees holds ((put_authoritative (?s r) sv)\<lparr>sv_store := st\<rparr>))" for r
    using acl_law [OF in_step_get(1) [OF sv Inr] entries, of r] agrees_put [OF agrees, of "?s r"]
      in_step_get(3) [OF sv Inr] by (auto simp: answers_iff)
  show ?thesis
    unfolding replace_acl_def Let_def call_api [OF sv] Inr attempt_simps
    by (intro outcome_intros) (use agrees in_step_clean [OF sv, of "''owner''" sid prin] in
      \<open>auto dest: law [THEN answers_not_None] law [THEN answers_Some]\<close>)
qed (use sv clean_get [of sv sid] in \<open>auto simp: replace_acl_def outcome_def in_step_def\<close>)

lemma close_in_step:
  assumes sv: "in_step env sv"
  shows "outcome (\<lambda>sv' r. store_agrees holds sv' \<and> clean r) (close_session env sv sid prin)"
proof (cases "get_authoritative sv sid")
  case (Inr s)
  have agrees: "store_agrees holds sv" using sv by (simp add: in_step_def)
  have law: "answers (api_delete_session api (sv_store sv) sid)
      (\<lambda>st. store_agrees holds (sv\<lparr>sv_sessions := dict_del sid (sv_sessions sv), sv_store := st\<rparr>))"
    using delete_law [of "sv_store sv" sid] agrees_del [OF agrees, of sid] by (auto simp: answers_iff)
  show ?thesis
    unfolding close_session_def Let_def call_api [OF sv] Inr attempt_simps
    by (intro outcome_intros)
      (use agrees in_step_clean [OF sv, of "''owner''" sid prin]
        in_step_clean [OF sv, of "''editor''" sid prin] in
        \<open>auto dest: law [THEN answers_not_None] law [THEN answers_Some] split: if_splits\<close>)
qed (use sv clean_get [of sv sid] in \<open>auto simp: close_session_def outcome_def in_step_def\<close>)

lemma do_bind_in_step:
  assumes sv: "in_step env sv" and get: "get_authoritative sv sid = Inr s"
    and new: "map_of (ds_actor_bindings s) actor = None"
  shows "outcome (\<lambda>sv' r. store_agrees holds sv' \<and> clean r) (do_bind_actor env sv s actor prin)"
proof -
  have agrees: "store_agrees holds sv" using sv by (simp add: in_step_def)
  let ?s = "s\<lparr>ds_actor_bindings := dict_set actor prin (ds_actor_bindings s)\<rparr>"
  have law: "answers (api_put_actor api (sv_store sv) (ds_session_id s) actor prin)
      (\<lambda>st. store_agrees holds ((put_authoritative ?s sv)\<lparr>sv_store := st\<rparr>))"
    using actor_law [OF in_step_get(1) [OF sv get] new, of prin] agrees_put [OF agrees, of ?s]
      in_step_get(3) [OF sv get] by (auto simp: answers_iff)
  show ?thesis
    unfolding do_bind_actor_def call_api [OF sv]
    by (intro outcome_intros) (use agrees in
      \<open>auto dest: law [THEN answers_not_None] law [THEN answers_Some]\<close>)
qed

lemma bind_in_step:
  assumes sv: "in_step env sv"
  shows "outcome (\<lambda>sv' r. store_agrees holds sv' \<and> clean r) (bind_actor env sv sid actor prin)"
proof (cases "get_authoritative sv sid")
  case (Inr s)
  have agrees: "store_agrees holds sv" using sv by (simp add: in_step_def)
  show ?thesis
    unfolding bind_actor_def Inr attempt_simps
    by (intro outcome_intros do_bind_in_step [OF sv Inr])
      (use agrees in_step_clean [OF sv, of "''viewer''" sid prin] clean_check_actor [of sv sid actor prin]
        in \<open>auto simp: dict_mem_def\<close>)
qed (use sv clean_get [of sv sid] in \<open>auto simp: bind_actor_def outcome_def in_step_def\<close>)

lemma append_in_step:
  assumes sv: "in_step env sv"
  shows "outcome (\<lambda>sv' r. store_agrees holds sv' \<and> clean r)
    (append env sv sid op_id actor base patch prin kind now)"
proof (cases "get_authoritative sv sid")
  case (Inr s)
  have agrees: "store_agrees holds sv" using sv by (simp add: in_step_def)
  note s = in_step_get [OF sv Inr]
  have op: "answers (api_append_op api (sv_store sv) sid (next_op s op_id actor ps prin kind now) prin)
      (\<lambda>st. store_agrees holds ((put_authoritative (with_op s (next_op s op_id actor ps prin kind now)) sv)\<lparr>sv_store := st\<rparr>))"
    if "map_of (ds_ops_by_id s) op_id = None" for ps
    using op_law [OF s(1,2), of "next_op s op_id actor ps prin kind now" prin] that s(3)
      agrees_put [OF agrees, of "with_op s (next_op s op_id actor ps prin kind now)"]
    by (auto simp: next_op_def with_op_def answers_iff)
  have bound: "map_of (ds_actor_bindings s) (so_actor_id x) \<noteq> None"
    if "map_of (ds_ops_by_id s) op_id = Some x" for x
    using session_wf_existing [OF s(2) that] by simp
  show ?thesis
    unfolding append_def Let_def Inr attempt_simps call_api [OF sv]
    by (intro outcome_intros)
      (use agrees bound in_step_clean [OF sv, of "''editor''" sid prin]
        clean_check_actor [of sv sid actor prin] clean_normalize_patch [of patch] in
        \<open>auto dest: op [THEN answers_not_None] op [THEN answers_Some]\<close>)
qed (use sv clean_get [of sv sid] in \<open>auto simp: append_def outcome_def in_step_def\<close>)

lemma checkpoint_in_step:
  assumes sv: "in_step env sv"
  shows "outcome (\<lambda>sv' r. store_agrees holds sv' \<and> clean r) (checkpoint env sv sid revn document prin)"
proof (cases "get_authoritative sv sid")
  case (Inr s)
  have agrees: "store_agrees holds sv" using sv by (simp add: in_step_def)
  note s = in_step_get [OF sv Inr]
  obtain d where d: "del_ops (filter (\<lambda>x. so_revision x \<le> revn) (ds_ops s)) (ds_ops_by_id s) = (d, None)"
    using session_wf_prune [OF s(2)] by metis
  have law: "answers (api_checkpoint api (sv_store sv) sid v revn)
      (\<lambda>st. store_agrees holds ((put_authoritative (s\<lparr>ds_snapshot := v, ds_snapshot_revision := revn, ds_ops := filter (\<lambda>x. revn < so_revision x) (ds_ops s), ds_ops_by_id := d\<rparr>) sv)\<lparr>sv_store := st\<rparr>))"
    for v
    using checkpoint_law [OF s(1), of v revn d] s(3)
      agrees_put [OF agrees, of "s\<lparr>ds_snapshot := v, ds_snapshot_revision := revn,
        ds_ops := filter (\<lambda>x. revn < so_revision x) (ds_ops s), ds_ops_by_id := d\<rparr>"]
    by (auto simp: answers_iff)
  show ?thesis
    unfolding checkpoint_def Let_def Inr attempt_simps d prod.case option.case call_api [OF sv] sv_store_put
    by (intro outcome_intros)
      (use agrees in_step_clean [OF sv, of "''editor''" sid prin]
        clean_validated [of env "ds_document_kind s" "ds_document_id s" document]
        in
        \<open>auto dest: law [THEN answers_not_None] law [THEN answers_Some]\<close>)
qed (use sv clean_get [of sv sid] in \<open>auto simp: checkpoint_def outcome_def in_step_def\<close>)

lemma run_command_in_step:
  assumes sv: "in_step env sv" and cap: "1 \<le> env_max_retained env"
    and c: "command_ok c" "fresh_command sv c"
  shows "in_step env (fst (run_command env sv c)) \<and>
    (\<forall>e. snd (run_command env sv c) = Some e \<longrightarrow> \<not> internal_error e)"
proof -
  have clean: "(case r of Inl e \<Rightarrow> Some e | Inr x \<Rightarrow> None) = Some e \<Longrightarrow> clean r \<Longrightarrow> \<not> internal_error e"
    for r :: "svc_error + 'b" and e
    by (cases r) auto
  have "store_agrees holds (fst (run_command env sv c)) \<and>
    (\<forall>e. snd (run_command env sv c) = Some e \<longrightarrow> \<not> internal_error e)"
    using c create_in_step [OF sv cap] acl_in_step [OF sv] close_in_step [OF sv] bind_in_step [OF sv]
      append_in_step [OF sv] checkpoint_in_step [OF sv]
    by (cases c) (auto simp: outcome_def fresh_command_def dest!: clean)
  moreover have "service_ok env (fst (run_command env sv c))"
    by (rule run_command_ok) (use sv cap c in \<open>simp_all add: in_step_def\<close>)
  ultimately show ?thesis using sv by (simp add: in_step_def)
qed

end

end
