(* ===== verification/Session_Store.thy ===== *)
theory Session_Store
  imports Sessions
begin

text \<open>
  The SQLite persistence of sessions (\<^verbatim>\<open>dinkster_collab/store.py\<close>). A table is the list of its
  rows in insertion order; a statement that violates a key is \<open>None\<close>, the rolled-back
  transaction. JSON columns hold the value itself: \<^verbatim>\<open>json.loads(json.dumps(v))\<close> is \<^verbatim>\<open>v\<close> for
  the normalized values that reach the store.
\<close>

section \<open>Tables\<close>

record session_row =
  sr_session_id :: string
  sr_scope :: string
  sr_document_id :: string
  sr_document_kind :: string
  sr_snapshot :: pyobj
  sr_snapshot_revision :: int
  sr_created_at :: real

record store =
  t_sessions :: "session_row list"
  t_ops :: "(string \<times> session_op) list"
  t_actors :: "(string \<times> string \<times> string) list"
  t_acl :: "(string \<times> string \<times> string) list"
  t_policy :: "(string \<times> string) list"

definition empty_store :: store where
  "empty_store = \<lparr>t_sessions = [], t_ops = [], t_actors = [], t_acl = [], t_policy = []\<rparr>"

definition actor_key :: "string \<times> string \<times> string \<Rightarrow> string \<times> string" where
  "actor_key r = (fst r, fst (snd r))"

text \<open>\<^verbatim>\<open>INSERT\<close> with the uniqueness keys of the table; several rows are one \<^verbatim>\<open>executemany\<close>.\<close>

definition insert_row :: "('r \<Rightarrow> 'k) list \<Rightarrow> 'r \<Rightarrow> 'r list \<Rightarrow> 'r list option" where
  "insert_row keys r t =
     (if list_ex (\<lambda>f. f r \<in> f ` set t) keys then None else Some (t @ [r]))"

fun insert_rows :: "('r \<Rightarrow> 'k) list \<Rightarrow> 'r list \<Rightarrow> 'r list \<Rightarrow> 'r list option" where
  "insert_rows keys [] t = Some t"
| "insert_rows keys (r # rs) t =
     (case insert_row keys r t of None \<Rightarrow> None | Some t' \<Rightarrow> insert_rows keys rs t')"

definition row_of :: "document_session \<Rightarrow> session_row" where
  "row_of s = \<lparr>sr_session_id = ds_session_id s, sr_scope = ds_scope s,
     sr_document_id = ds_document_id s, sr_document_kind = ds_document_kind s,
     sr_snapshot = ds_snapshot s, sr_snapshot_revision = ds_snapshot_revision s,
     sr_created_at = ds_created_at s\<rparr>"

section \<open>Statements of the store\<close>

definition store_put_session :: "store \<Rightarrow> document_session \<Rightarrow> store option" where
  "store_put_session st s =
     (case insert_row [sr_session_id] (row_of s) (t_sessions st) of
        None \<Rightarrow> None
      | Some ts \<Rightarrow>
          (case insert_row [fst] (ds_session_id s, ds_default_role s) (t_policy st) of
             None \<Rightarrow> None
           | Some tp \<Rightarrow>
               (case insert_rows [actor_key]
                       (map (\<lambda>(p, r). (ds_session_id s, p, r)) (ds_acl s)) (t_acl st) of
                  None \<Rightarrow> None
                | Some ta \<Rightarrow> Some (st\<lparr>t_sessions := ts, t_policy := tp, t_acl := ta\<rparr>))))"

definition store_replace_acl ::
    "store \<Rightarrow> string \<Rightarrow> string \<Rightarrow> (string, string) dict \<Rightarrow> store option" where
  "store_replace_acl st sid role entries =
     (case insert_rows [actor_key] (map (\<lambda>(p, r). (sid, p, r)) entries)
             (filter (\<lambda>r. fst r \<noteq> sid) (t_acl st)) of
        None \<Rightarrow> None
      | Some ta \<Rightarrow>
          Some (st\<lparr>t_acl := ta,
                   t_policy := map (\<lambda>r. if fst r = sid then (sid, role) else r) (t_policy st)\<rparr>))"

definition store_append_op ::
    "store \<Rightarrow> string \<Rightarrow> session_op \<Rightarrow> string \<Rightarrow> store option" where
  "store_append_op st sid x prin =
     (let ta = (case insert_row [actor_key] (sid, so_actor_id x, prin) (t_actors st) of
                  None \<Rightarrow> t_actors st
                | Some ta \<Rightarrow> ta) in
      if list_ex (\<lambda>r. fst r = sid \<and> (so_revision (snd r) = so_revision x \<or>
                                      so_op_id (snd r) = so_op_id x)) (t_ops st)
      then None
      else Some (st\<lparr>t_actors := ta,
                    t_ops := t_ops st @ [(sid, x\<lparr>so_principal_id := prin\<rparr>)]\<rparr>))"

definition store_put_actor :: "store \<Rightarrow> string \<Rightarrow> string \<Rightarrow> string \<Rightarrow> store option" where
  "store_put_actor st sid actor prin =
     (case insert_row [actor_key] (sid, actor, prin) (t_actors st) of
        None \<Rightarrow> None
      | Some ta \<Rightarrow> Some (st\<lparr>t_actors := ta\<rparr>))"

definition store_checkpoint :: "store \<Rightarrow> string \<Rightarrow> pyobj \<Rightarrow> int \<Rightarrow> store" where
  "store_checkpoint st sid snapshot revn =
     st\<lparr>t_sessions := map (\<lambda>r. if sr_session_id r = sid
                               then r\<lparr>sr_snapshot := snapshot, sr_snapshot_revision := revn\<rparr>
                               else r) (t_sessions st),
        t_ops := filter (\<lambda>r. \<not> (fst r = sid \<and> so_revision (snd r) \<le> revn)) (t_ops st)\<rparr>"

definition store_delete_session :: "store \<Rightarrow> string \<Rightarrow> store" where
  "store_delete_session st sid =
     \<lparr>t_sessions = filter (\<lambda>r. sr_session_id r \<noteq> sid) (t_sessions st),
      t_ops = filter (\<lambda>r. fst r \<noteq> sid) (t_ops st),
      t_actors = filter (\<lambda>r. fst r \<noteq> sid) (t_actors st),
      t_acl = filter (\<lambda>r. fst r \<noteq> sid) (t_acl st),
      t_policy = filter (\<lambda>r. fst r \<noteq> sid) (t_policy st)\<rparr>"

section \<open>Loading after a restart\<close>

text \<open>
  The joined rows come grouped by session and ordered by revision. A row of another table whose
  session is missing is a \<^verbatim>\<open>KeyError\<close>, here \<open>None\<close>.
\<close>

fun load_op :: "document_session \<Rightarrow> session_op \<Rightarrow> document_session" where
  "load_op s x = s\<lparr>ds_ops := ds_ops s @ [x],
                   ds_ops_by_id := dict_set (so_op_id x) x (ds_ops_by_id s)\<rparr>"

definition session_of_row :: "session_row \<Rightarrow> document_session" where
  "session_of_row r =
     \<lparr>ds_session_id = sr_session_id r, ds_scope = sr_scope r,
      ds_document_id = sr_document_id r, ds_snapshot = sr_snapshot r,
      ds_snapshot_revision = sr_snapshot_revision r, ds_created_at = sr_created_at r,
      ds_ops = [], ds_ops_by_id = [], ds_actor_bindings = [], ds_acl = [],
      ds_default_role = default_session_role, ds_document_kind = sr_document_kind r\<rparr>"

definition load_joined :: "store \<Rightarrow> (string, document_session) dict" where
  "load_joined st =
     map (\<lambda>r. (sr_session_id r,
               foldl load_op (session_of_row r)
                 (sort_key so_revision
                   (map snd (filter (\<lambda>p. fst p = sr_session_id r) (t_ops st))))))
         (sort_key sr_session_id (t_sessions st))"

fun load_rows :: "(document_session \<Rightarrow> 'a \<Rightarrow> document_session) \<Rightarrow> (string \<times> 'a) list \<Rightarrow>
    (string, document_session) dict \<Rightarrow> (string, document_session) dict option" where
  "load_rows upd [] d = Some d"
| "load_rows upd ((sid, a) # rs) d =
     (case map_of d sid of
        None \<Rightarrow> None
      | Some s \<Rightarrow> load_rows upd rs (dict_set sid (upd s a) d))"

definition load_all :: "store \<Rightarrow> document_session list option" where
  "load_all st =
     (case load_rows (\<lambda>s (a, p). s\<lparr>ds_actor_bindings := dict_set a p (ds_actor_bindings s)\<rparr>)
             (t_actors st) (load_joined st) of
        None \<Rightarrow> None
      | Some d1 \<Rightarrow>
          (case load_rows (\<lambda>s r. s\<lparr>ds_default_role := r\<rparr>) (t_policy st) d1 of
             None \<Rightarrow> None
           | Some d2 \<Rightarrow>
               map_option (map snd)
                 (load_rows (\<lambda>s (p, r). s\<lparr>ds_acl := dict_set p r (ds_acl s)\<rparr>)
                    (t_acl st) d2)))"

section \<open>The rows of one session\<close>

definition rows :: "string \<Rightarrow> (string \<times> 'a) list \<Rightarrow> 'a list" where
  "rows sid t = map snd (filter (\<lambda>r. fst r = sid) t)"

named_theorems rows_simps

lemma rows_Nil [simp, rows_simps]: "rows sid [] = []"
  by (simp add: rows_def)

lemma rows_Cons [simp, rows_simps]:
  "rows sid ((k, a) # t) = (if k = sid then a # rows sid t else rows sid t)"
  by (simp add: rows_def)

lemma rows_append [simp, rows_simps]: "rows sid (t @ u) = rows sid t @ rows sid u"
  by (simp add: rows_def)

lemma rows_drop_session [simp, rows_simps]:
  "rows sid (filter (\<lambda>r. fst r \<noteq> k) t) = (if sid = k then [] else rows sid t)"
  by (induction t) auto

lemma rows_tag [simp, rows_simps]:
  "rows sid (map (Pair k) d) = (if sid = k then d else [])"
  by (induction d) auto

lemma rows_filter [rows_simps]:
  "rows sid (filter (\<lambda>r. fst r = k \<longrightarrow> P (snd r)) t) =
     (if sid = k then filter P (rows sid t) else rows sid t)"
  by (induction t) auto

lemma rows_update [rows_simps]:
  "rows sid (map (\<lambda>r. if fst r = k then (k, b) else r) t) =
     (if sid = k then map (\<lambda>_. b) (rows sid t) else rows sid t)"
  by (induction t) auto

lemma set_rows: "a \<in> set (rows sid t) \<longleftrightarrow> (sid, a) \<in> set t"
  by (force simp: rows_def)

lemma actor_key_in_iff: "(sid, a) \<in> actor_key ` set t \<longleftrightarrow> a \<in> fst ` set (rows sid t)"
  by (force simp: actor_key_def set_rows)

lemma insert_row_actor:
  "insert_row [actor_key] (sid, a, b) t =
     (if a \<in> fst ` set (rows sid t) then None else Some (t @ [(sid, a, b)]))"
proof -
  have "actor_key (sid, a, b) = (sid, a)" by (simp add: actor_key_def)
  then show ?thesis by (simp add: insert_row_def actor_key_in_iff)
qed

lemma insert_rows_tag:
  "dict_ok d \<Longrightarrow> fst ` set d \<inter> fst ` set (rows sid t) = {} \<Longrightarrow>
     insert_rows [actor_key] (map (\<lambda>(a, b). (sid, a, b)) d) t =
       Some (t @ map (\<lambda>(a, b). (sid, a, b)) d)"
proof (induction d arbitrary: t)
  case (Cons p d)
  obtain a b where p: "p = (a, b)" by (cases p)
  have "a \<notin> fst ` set (rows sid t)" using Cons.prems(2) p by auto
  then have "insert_row [actor_key] (sid, a, b) t = Some (t @ [(sid, a, b)])"
    by (simp add: insert_row_actor)
  moreover have "fst ` set d \<inter> fst ` set (rows sid (t @ [(sid, a, b)])) = {}"
    using Cons.prems p by (auto simp: dict_ok_def)
  ultimately show ?case using Cons.IH [of "t @ [(sid, a, b)]"] Cons.prems(1) p by simp
qed simp

section \<open>What the tables say about one session\<close>

definition same_entries :: "('k, 'v) dict \<Rightarrow> ('k, 'v) dict \<Rightarrow> bool" where
  "same_entries t d \<longleftrightarrow> dict_ok t \<and> map_of t = map_of d"

definition session_rows :: "string \<Rightarrow> session_row list \<Rightarrow> session_row list" where
  "session_rows sid t = filter (\<lambda>r. sr_session_id r = sid) t"

fun stored :: "store \<Rightarrow> string \<Rightarrow> document_session option \<Rightarrow> bool" where
  "stored st sid None \<longleftrightarrow>
     session_rows sid (t_sessions st) = [] \<and> rows sid (t_ops st) = [] \<and>
     rows sid (t_actors st) = [] \<and> rows sid (t_acl st) = [] \<and> rows sid (t_policy st) = []"
| "stored st sid (Some s) \<longleftrightarrow>
     ds_session_id s = sid \<and>
     session_rows sid (t_sessions st) = [row_of s] \<and>
     rows sid (t_ops st) = ds_ops s \<and>
     same_entries (rows sid (t_actors st)) (ds_actor_bindings s) \<and>
     same_entries (rows sid (t_acl st)) (ds_acl s) \<and>
     rows sid (t_policy st) = [ds_default_role s]"

lemma same_entries_refl: "dict_ok d \<Longrightarrow> same_entries d d"
  by (simp add: same_entries_def)

lemma same_entries_keys: "same_entries t d \<Longrightarrow> fst ` set t = fst ` set d"
  by (simp add: same_entries_def dom_map_of_conv_image_fst [symmetric])

lemma same_entries_snoc:
  assumes "same_entries t d" and "map_of d k = None"
  shows "same_entries (t @ [(k, v)]) (dict_set k v d)"
proof -
  have "map_of t k = None" using assms by (simp add: same_entries_def)
  then have "t @ [(k, v)] = dict_set k v t" by (simp add: dict_set_append)
  with assms show ?thesis by (simp add: same_entries_def)
qed

lemma session_rows_simps [simp]:
  "session_rows sid [] = []"
  "session_rows sid (t @ u) = session_rows sid t @ session_rows sid u"
  by (simp_all add: session_rows_def)

lemma session_rows_Cons [simp]:
  "session_rows sid (r # t) =
     (if sr_session_id r = sid then r # session_rows sid t else session_rows sid t)"
  by (simp add: session_rows_def)

lemma session_rows_drop [simp]:
  "session_rows sid (filter (\<lambda>r. sr_session_id r \<noteq> k) t) =
     (if sid = k then [] else session_rows sid t)"
  by (induction t) auto

lemma session_rows_update:
  assumes "\<And>r. sr_session_id (f r) = sr_session_id r"
  shows "session_rows sid (map (\<lambda>r. if sr_session_id r = k then f r else r) t) =
     (if sid = k then map f (session_rows sid t) else session_rows sid t)"
  using assms by (induction t) auto

lemma sr_session_id_row_of [simp]: "sr_session_id (row_of s) = ds_session_id s"
  by (simp add: row_of_def)

lemma session_id_mem_iff: "sid \<in> sr_session_id ` set t \<longleftrightarrow> session_rows sid t \<noteq> []"
  by (induction t) auto

section \<open>The SQLite store keeps what the service relies on\<close>

definition sqlite_api :: "store store_api" where
  "sqlite_api = \<lparr>api_put_session = store_put_session, api_replace_acl = store_replace_acl,
     api_append_op = store_append_op, api_put_actor = store_put_actor,
     api_checkpoint = (\<lambda>st sid v revn. Some (store_checkpoint st sid v revn)),
     api_delete_session = (\<lambda>st sid. Some (store_delete_session st sid))\<rparr>"

lemma sqlite_api_simps [simp]:
  "api_put_session sqlite_api = store_put_session"
  "api_replace_acl sqlite_api = store_replace_acl"
  "api_append_op sqlite_api = store_append_op"
  "api_put_actor sqlite_api = store_put_actor"
  "api_checkpoint sqlite_api st sid v revn = Some (store_checkpoint st sid v revn)"
  "api_delete_session sqlite_api st sid = Some (store_delete_session st sid)"
  by (simp_all add: sqlite_api_def)

text \<open>A table change that leaves the rows of every other session alone keeps what is stored there.\<close>

lemma stored_cong:
  assumes "session_rows k (t_sessions st') = session_rows k (t_sessions st)"
    and "rows k (t_ops st') = rows k (t_ops st)"
    and "rows k (t_actors st') = rows k (t_actors st)"
    and "rows k (t_acl st') = rows k (t_acl st)"
    and "rows k (t_policy st') = rows k (t_policy st)"
  shows "stored st' k ko \<longleftrightarrow> stored st k ko"
  using assms by (cases ko) simp_all

lemma store_put_advances:
  assumes "stored st (ds_session_id s) None" and "session_wf s"
    and "ds_ops s = []" and "ds_actor_bindings s = []"
  shows "\<exists>st'. store_put_session st s = Some st' \<and> advances stored st (ds_session_id s) (Some s) st'"
proof -
  let ?i = "ds_session_id s"
  let ?st = "st\<lparr>t_sessions := t_sessions st @ [row_of s], t_policy := t_policy st @ [(?i, ds_default_role s)],
    t_acl := t_acl st @ map (\<lambda>(p, r). (?i, p, r)) (ds_acl s)\<rparr>"
  have acl: "dict_ok (ds_acl s)" using assms(2) by (simp add: session_wf_def)
  have "insert_row [sr_session_id] (row_of s) (t_sessions st) = Some (t_sessions st @ [row_of s])"
    using assms(1) by (simp add: insert_row_def session_id_mem_iff)
  moreover have "?i \<notin> fst ` set (t_policy st)"
    using assms(1) set_rows [of _ ?i "t_policy st"] by auto
  then have "insert_row [fst] (?i, ds_default_role s) (t_policy st) =
      Some (t_policy st @ [(?i, ds_default_role s)])"
    by (simp add: insert_row_def)
  moreover have "insert_rows [actor_key] (map (\<lambda>(p, r). (?i, p, r)) (ds_acl s)) (t_acl st) =
      Some (t_acl st @ map (\<lambda>(p, r). (?i, p, r)) (ds_acl s))"
    using insert_rows_tag [OF acl, of ?i "t_acl st"] assms(1) by simp
  ultimately have "store_put_session st s = Some ?st" by (simp add: store_put_session_def)
  moreover have "stored ?st ?i (Some s)" using assms acl by (simp add: same_entries_refl)
  moreover have "stored ?st k ko" if "k \<noteq> ?i" "stored st k ko" for k ko
    using that(2) by (subst stored_cong [where st = st]) (use that(1) in simp_all)
  ultimately show ?thesis by (auto simp: advances_def)
qed

lemma store_acl_advances:
  assumes "stored st sid (Some s)" and "dict_ok entries"
  shows "\<exists>st'. store_replace_acl st sid role entries = Some st' \<and>
    advances stored st sid (Some (s\<lparr>ds_default_role := role, ds_acl := entries\<rparr>)) st'"
proof -
  let ?st = "st\<lparr>t_acl := filter (\<lambda>r. fst r \<noteq> sid) (t_acl st) @ map (\<lambda>(p, r). (sid, p, r)) entries,
    t_policy := map (\<lambda>r. if fst r = sid then (sid, role) else r) (t_policy st)\<rparr>"
  have "store_replace_acl st sid role entries = Some ?st"
    using insert_rows_tag [OF assms(2), of sid "filter (\<lambda>r. fst r \<noteq> sid) (t_acl st)"]
    by (simp add: store_replace_acl_def)
  moreover have "stored ?st sid (Some (s\<lparr>ds_default_role := role, ds_acl := entries\<rparr>))"
    using assms by (simp add: rows_update same_entries_refl row_of_def)
  moreover have "stored ?st k ko" if "k \<noteq> sid" "stored st k ko" for k ko
    using that(2) by (subst stored_cong [where st = st]) (use that(1) in \<open>simp_all add: rows_update\<close>)
  ultimately show ?thesis by (auto simp: advances_def)
qed

lemma store_actor_advances:
  assumes "stored st sid (Some s)" and "map_of (ds_actor_bindings s) actor = None"
  shows "\<exists>st'. store_put_actor st sid actor prin = Some st' \<and>
    advances stored st sid
      (Some (s\<lparr>ds_actor_bindings := dict_set actor prin (ds_actor_bindings s)\<rparr>)) st'"
proof -
  let ?st = "st\<lparr>t_actors := t_actors st @ [(sid, actor, prin)]\<rparr>"
  have same: "same_entries (rows sid (t_actors st)) (ds_actor_bindings s)" using assms(1) by simp
  have "actor \<notin> fst ` set (rows sid (t_actors st))"
    using same_entries_keys [OF same] assms(2) by (simp add: map_of_eq_None_iff)
  then have "store_put_actor st sid actor prin = Some ?st"
    by (simp add: store_put_actor_def insert_row_actor)
  moreover have "stored ?st sid (Some (s\<lparr>ds_actor_bindings := dict_set actor prin (ds_actor_bindings s)\<rparr>))"
    using assms same_entries_snoc [OF same assms(2)] by (simp add: row_of_def)
  moreover have "stored ?st k ko" if "k \<noteq> sid" "stored st k ko" for k ko
    using that(2) by (subst stored_cong [where st = st]) (use that(1) in simp_all)
  ultimately show ?thesis by (auto simp: advances_def)
qed

lemma list_ex_rows:
  "list_ex (\<lambda>r. fst r = sid \<and> P (snd r)) t \<longleftrightarrow> list_ex P (rows sid t)"
  by (induction t) (auto split: if_splits)

lemma store_op_advances:
  assumes st: "stored st sid (Some s)" and wf: "session_wf s"
    and rv: "so_revision x = session_revision s + 1"
    and new: "map_of (ds_ops_by_id s) (so_op_id x) = None" and prin: "so_principal_id x = prin"
  shows "\<exists>st'. store_append_op st sid x prin = Some st' \<and> advances stored st sid (Some (with_op s x)) st'"
proof -
  let ?ta = "if so_actor_id x \<in> fst ` set (rows sid (t_actors st)) then t_actors st
    else t_actors st @ [(sid, so_actor_id x, prin)]"
  let ?st = "st\<lparr>t_actors := ?ta, t_ops := t_ops st @ [(sid, x)]\<rparr>"
  have c: "contiguous_from (ds_snapshot_revision s) (ds_ops s)" using wf by (simp add: session_wf_def)
  have "so_revision y \<noteq> so_revision x \<and> so_op_id y \<noteq> so_op_id x" if y: "y \<in> set (ds_ops s)" for y
  proof -
    have "map_of (map (\<lambda>x. (so_op_id x, x)) (ds_ops s)) (so_op_id x) = None"
      using wf new by (simp add: session_wf_def)
    then have "so_op_id x \<notin> so_op_id ` set (ds_ops s)"
      by (simp add: map_of_eq_None_iff image_image)
    then have "so_op_id y \<noteq> so_op_id x" using y by (metis image_eqI)
    moreover have "so_revision y \<noteq> so_revision x"
      using contiguous_bounds [OF c y] session_revision_eq [OF c] rv by simp
    ultimately show ?thesis by simp
  qed
  then have "\<not> list_ex (\<lambda>y. so_revision y = so_revision x \<or> so_op_id y = so_op_id x)
      (rows sid (t_ops st))"
    using st by (auto simp: list_ex_iff)
  then have "\<not> list_ex (\<lambda>r. fst r = sid \<and> (so_revision (snd r) = so_revision x \<or>
      so_op_id (snd r) = so_op_id x)) (t_ops st)"
    using list_ex_rows [of sid "\<lambda>y. so_revision y = so_revision x \<or> so_op_id y = so_op_id x" "t_ops st"]
    by simp
  moreover have "x\<lparr>so_principal_id := prin\<rparr> = x" using prin by simp
  ultimately have "store_append_op st sid x prin = Some ?st"
    by (simp add: store_append_op_def insert_row_actor Let_def)
  moreover have same: "same_entries (rows sid (t_actors st)) (ds_actor_bindings s)" using st by simp
  have "same_entries (rows sid ?ta) (dict_setdefault (so_actor_id x) prin (ds_actor_bindings s))"
  proof (cases "map_of (ds_actor_bindings s) (so_actor_id x)")
    case None
    then have "so_actor_id x \<notin> fst ` set (rows sid (t_actors st))"
      using same_entries_keys [OF same] by (simp add: map_of_eq_None_iff)
    with None same_entries_snoc [OF same None, of prin] show ?thesis
      by (simp add: dict_setdefault_def dict_mem_def)
  next
    case (Some p)
    then have "so_actor_id x \<in> fst ` set (rows sid (t_actors st))"
      using same_entries_keys [OF same] by (force dest: map_of_SomeD)
    with Some same show ?thesis by (simp add: dict_setdefault_def dict_mem_def)
  qed
  then have "stored ?st sid (Some (with_op s x))"
    using st prin by (simp add: with_op_def row_of_def)
  moreover have "stored ?st k ko" if "k \<noteq> sid" "stored st k ko" for k ko
    using that(2) by (subst stored_cong [where st = st]) (use that(1) in simp_all)
  ultimately show ?thesis by (auto simp: advances_def)
qed

lemma store_checkpoint_advances:
  assumes "stored st sid (Some s)"
  shows "advances stored st sid
    (Some (s\<lparr>ds_snapshot := v, ds_snapshot_revision := revn,
             ds_ops := filter (\<lambda>x. revn < so_revision x) (ds_ops s), ds_ops_by_id := d\<rparr>))
    (store_checkpoint st sid v revn)"
proof -
  let ?st = "store_checkpoint st sid v revn"
  have "stored ?st sid (Some (s\<lparr>ds_snapshot := v, ds_snapshot_revision := revn,
      ds_ops := filter (\<lambda>x. revn < so_revision x) (ds_ops s), ds_ops_by_id := d\<rparr>))"
    using assms
    by (simp add: store_checkpoint_def session_rows_update row_of_def not_le
        rows_filter [where P = "\<lambda>x. revn < so_revision x"])
  moreover have "stored ?st k ko" if "k \<noteq> sid" "stored st k ko" for k ko
    using that(2)
    by (subst stored_cong [where st = st])
      (use that(1) in \<open>simp_all add: store_checkpoint_def session_rows_update not_le
        rows_filter [where P = "\<lambda>x. revn < so_revision x"]\<close>)
  ultimately show ?thesis by (simp add: advances_def)
qed

lemma store_delete_advances: "advances stored st sid None (store_delete_session st sid)"
proof -
  have "stored (store_delete_session st sid) k ko" if "k \<noteq> sid" "stored st k ko" for k ko
    using that(2)
    by (subst stored_cong [where st = st]) (use that(1) in \<open>simp_all add: store_delete_session_def\<close>)
  then show ?thesis by (simp add: advances_def store_delete_session_def)
qed

interpretation sqlite: session_persistence sqlite_api stored
  by unfold_locales
    (auto simp: store_put_advances store_acl_advances store_op_advances store_actor_advances
      store_checkpoint_advances store_delete_advances simp del: stored.simps)

section \<open>A restart reads back every session\<close>

definition session_same :: "document_session \<Rightarrow> document_session \<Rightarrow> bool" where
  "session_same s t \<longleftrightarrow>
     row_of s = row_of t \<and> ds_ops s = ds_ops t \<and>
     same_entries (ds_ops_by_id s) (ds_ops_by_id t) \<and>
     same_entries (ds_actor_bindings s) (ds_actor_bindings t) \<and>
     same_entries (ds_acl s) (ds_acl t) \<and> ds_default_role s = ds_default_role t"

lemma dict_set_present:
  "dict_ok d \<Longrightarrow> map_of d k = Some w \<Longrightarrow>
     dict_set k v d = map (\<lambda>(i, x). (i, if i = k then v else x)) d"
proof (induction d)
  case (Cons p d)
  obtain a b where p: "p = (a, b)" by (cases p)
  have "map (\<lambda>(i, x). (i, if i = a then v else x)) d = d" if "a \<notin> fst ` set d"
    using that by (induction d) auto
  with Cons p show ?case by auto
qed simp

lemma load_rows_map:
  "dict_ok d \<Longrightarrow> fst ` set rs \<subseteq> fst ` set d \<Longrightarrow>
     load_rows upd rs d = Some (map (\<lambda>(k, s). (k, foldl upd s (rows k rs))) d)"
proof (induction rs arbitrary: d)
  case (Cons r rs)
  obtain sid a where r: "r = (sid, a)" by (cases r)
  have "sid \<in> fst ` set d" using Cons.prems(2) r by simp
  then obtain s where s: "map_of d sid = Some s" by (metis map_of_eq_None_iff not_None_eq)
  let ?d = "dict_set sid (upd s a) d"
  have d: "?d = map (\<lambda>(i, x). (i, if i = sid then upd s a else x)) d"
    by (rule dict_set_present [OF Cons.prems(1) s])
  have "load_rows upd rs ?d = Some (map (\<lambda>(k, s). (k, foldl upd s (rows k rs))) ?d)"
    using Cons.prems by (intro Cons.IH) auto
  moreover have "x = s" if "(sid, x) \<in> set d" for x
    using map_of_Some_set [OF Cons.prems(1) that] s by simp
  ultimately show ?case using s by (auto simp: r d)
qed (simp add: case_prod_unfold)

lemma foldl_dict_set: "dict_ok (d @ es) \<Longrightarrow> foldl (\<lambda>d (k, v). dict_set k v d) d es = d @ es"
proof (induction es arbitrary: d)
  case (Cons e es)
  obtain k v where e: "e = (k, v)" by (cases e)
  have "map_of d k = None"
    using Cons.prems e by (auto simp: dict_ok_def map_of_eq_None_iff)
  with Cons e show ?case by (simp add: dict_set_append)
qed simp

lemma foldl_load_op:
  "foldl load_op s xs = s\<lparr>ds_ops := ds_ops s @ xs,
     ds_ops_by_id := foldl (\<lambda>d (k, v). dict_set k v d) (ds_ops_by_id s) (map (\<lambda>x. (so_op_id x, x)) xs)\<rparr>"
  by (induction xs arbitrary: s) simp_all

lemma foldl_load_actor:
  "foldl (\<lambda>s (a, p). s\<lparr>ds_actor_bindings := dict_set a p (ds_actor_bindings s)\<rparr>) s xs =
     s\<lparr>ds_actor_bindings := foldl (\<lambda>d (k, v). dict_set k v d) (ds_actor_bindings s) xs\<rparr>"
  by (induction xs arbitrary: s) (auto simp: case_prod_unfold)

lemma foldl_load_acl:
  "foldl (\<lambda>s (a, p). s\<lparr>ds_acl := dict_set a p (ds_acl s)\<rparr>) s xs =
     s\<lparr>ds_acl := foldl (\<lambda>d (k, v). dict_set k v d) (ds_acl s) xs\<rparr>"
  by (induction xs arbitrary: s) (auto simp: case_prod_unfold)

definition loaded_session :: "store \<Rightarrow> session_row \<Rightarrow> document_session" where
  "loaded_session st r =
     foldl (\<lambda>s (p, r). s\<lparr>ds_acl := dict_set p r (ds_acl s)\<rparr>)
       (foldl (\<lambda>s r. s\<lparr>ds_default_role := r\<rparr>)
         (foldl (\<lambda>s (a, p). s\<lparr>ds_actor_bindings := dict_set a p (ds_actor_bindings s)\<rparr>)
           (foldl load_op (session_of_row r)
             (sort_key so_revision (rows (sr_session_id r) (t_ops st))))
           (rows (sr_session_id r) (t_actors st)))
         (rows (sr_session_id r) (t_policy st)))
       (rows (sr_session_id r) (t_acl st))"

lemma load_all_eq:
  assumes "distinct (map sr_session_id (t_sessions st))"
    and "fst ` set (t_actors st) \<subseteq> sr_session_id ` set (t_sessions st)"
    and "fst ` set (t_policy st) \<subseteq> sr_session_id ` set (t_sessions st)"
    and "fst ` set (t_acl st) \<subseteq> sr_session_id ` set (t_sessions st)"
  shows "load_all st = Some (map (loaded_session st) (sort_key sr_session_id (t_sessions st)))"
proof -
  let ?rs = "sort_key sr_session_id (t_sessions st)"
  have keys: "fst ` set (map (\<lambda>r. (sr_session_id r, f r)) ?rs) = sr_session_id ` set (t_sessions st)"
    for f :: "session_row \<Rightarrow> document_session" by (simp add: image_image)
  have "distinct (map sr_session_id ?rs)"
    using assms(1) by (simp add: distinct_map)
  then have ok: "dict_ok (map (\<lambda>r. (sr_session_id r, f r)) ?rs)" for f :: "session_row \<Rightarrow> document_session"
    by (simp add: dict_ok_def comp_def)
  have load: "load_rows upd rs (map (\<lambda>r. (sr_session_id r, f r)) ?rs) =
      Some (map (\<lambda>r. (sr_session_id r, foldl upd (f r) (rows (sr_session_id r) rs))) ?rs)"
    if "fst ` set rs \<subseteq> sr_session_id ` set (t_sessions st)"
    for upd :: "document_session \<Rightarrow> 'a \<Rightarrow> document_session" and rs f
    using load_rows_map [OF ok, of rs f upd] that by (simp add: image_image comp_def)
  have joined: "load_joined st = map (\<lambda>r. (sr_session_id r, foldl load_op (session_of_row r)
      (sort_key so_revision (rows (sr_session_id r) (t_ops st))))) ?rs"
    by (simp add: load_joined_def rows_def)
  show ?thesis
    unfolding load_all_def joined load [OF assms(2)] option.case load [OF assms(3)]
      load [OF assms(4)]
    by (simp add: loaded_session_def comp_def)
qed

lemma stored_rows_known:
  assumes "\<And>sid. stored st sid (m sid)"
  shows "fst ` set (t_actors st) \<subseteq> sr_session_id ` set (t_sessions st)"
    and "fst ` set (t_policy st) \<subseteq> sr_session_id ` set (t_sessions st)"
    and "fst ` set (t_acl st) \<subseteq> sr_session_id ` set (t_sessions st)"
proof -
  have "k \<in> sr_session_id ` set (t_sessions st)"
    if "rows k (t_actors st) \<noteq> [] \<or> rows k (t_policy st) \<noteq> [] \<or> rows k (t_acl st) \<noteq> []" for k
    using assms [of k] that by (cases "m k") (simp_all add: session_id_mem_iff)
  moreover have "rows k t \<noteq> []" if "(k, a) \<in> set t" for k a and t :: "(string \<times> 'a) list"
    using that set_rows [of a k t] by auto
  ultimately show "fst ` set (t_actors st) \<subseteq> sr_session_id ` set (t_sessions st)"
    and "fst ` set (t_policy st) \<subseteq> sr_session_id ` set (t_sessions st)"
    and "fst ` set (t_acl st) \<subseteq> sr_session_id ` set (t_sessions st)"
    by force+
qed

lemma stored_rows_distinct:
  assumes "\<And>sid. stored st sid (m sid)"
  shows "distinct (map sr_session_id (t_sessions st))"
proof -
  have "length (session_rows k (t_sessions st)) \<le> 1" for k
    using assms [of k] by (cases "m k") simp_all
  moreover have "(\<And>k. length (session_rows k t) \<le> 1) \<Longrightarrow> distinct (map sr_session_id t)" for t
  proof (induction t)
    case (Cons r t)
    have "session_rows (sr_session_id r) t = []" using Cons.prems [of "sr_session_id r"] by simp
    then have "sr_session_id r \<notin> sr_session_id ` set t" using session_id_mem_iff by blast
    moreover have "length (session_rows k t) \<le> 1" for k
      using Cons.prems [of k] by (simp split: if_splits)
    ultimately show ?case using Cons.IH by simp
  qed simp
  ultimately show ?thesis by blast
qed

lemma contiguous_sorted: "contiguous_from r os \<Longrightarrow> sorted (map so_revision os)"
  using contiguous_revisions [of r os] by simp

lemma loaded_session_same:
  assumes st: "stored st (sr_session_id r) (Some s)" and wf: "session_wf s"
    and r: "r \<in> set (t_sessions st)"
  shows "session_same (loaded_session st r) s"
proof -
  have rs: "r = row_of s"
  proof -
    have "r \<in> set (session_rows (sr_session_id r) (t_sessions st))" using r by (simp add: session_rows_def)
    with st show ?thesis by simp
  qed
  have "sort_key so_revision (ds_ops s) = ds_ops s"
    using wf contiguous_sorted by (auto simp: session_wf_def intro: sort_key_id_if_sorted)
  moreover have "dict_ok (map (\<lambda>x. (so_op_id x, x)) (ds_ops s))"
    using wf by (simp add: session_wf_def dict_ok_def comp_def)
  ultimately show ?thesis
    using st wf foldl_dict_set [of "[]" "map (\<lambda>x. (so_op_id x, x)) (ds_ops s)"]
      foldl_dict_set [of "[]" "rows (sr_session_id r) (t_actors st)"]
      foldl_dict_set [of "[]" "rows (sr_session_id r) (t_acl st)"]
    by (simp add: loaded_session_def foldl_load_op foldl_load_actor foldl_load_acl session_same_def
        session_of_row_def row_of_def rs same_entries_def session_wf_def)
qed

text \<open>
  The constructor of the service over a database: the cap is checked, the sessions are read
  back, and a broken foreign key is a \<^verbatim>\<open>KeyError\<close>.
\<close>

datatype start_error = CapTooSmall | MissingSession

definition start_service ::
    "int \<Rightarrow> (string \<Rightarrow> string \<Rightarrow> pyobj \<Rightarrow> string option) option \<Rightarrow> store \<Rightarrow>
     start_error + store svc_env \<times> store service" where
  "start_service cap validator st =
     (if cap < 1 then Inl CapTooSmall
      else case load_all st of
        None \<Rightarrow> Inl MissingSession
      | Some ss \<Rightarrow>
          Inr (\<lparr>env_max_retained = cap, env_api = Some sqlite_api, env_validator = validator\<rparr>,
               \<lparr>sv_sessions = foldl (\<lambda>d (k, s). dict_set k s d) [] (map (\<lambda>s. (ds_session_id s, s)) ss),
                sv_store = st\<rparr>))"

end
