(* ===== verification/Session_Theorems.thy ===== *)
theory Session_Theorems
  imports Session_Store
begin

text \<open>
  The properties of collaborative sessions: recovery after a crash, ordering, idempotence,
  catch-up reads, checkpoints and access control. They rest on the invariant of the service and
  on the interpretation of its store interface by the SQLite tables.
\<close>

section \<open>Restarting\<close>

lemma same_entries_set:
  "same_entries a b \<Longrightarrow> dict_ok b \<Longrightarrow> set a = set b"
  unfolding same_entries_def dict_ok_def using map_of_inject_set by blast

lemma same_entries_length_filter:
  assumes "same_entries a b" and "dict_ok b"
  shows "length (filter P a) = length (filter P b)"
proof -
  have "distinct a" "distinct b"
    using assms by (auto simp: same_entries_def dict_ok_def distinct_map)
  then have "length (filter P x) = card {e \<in> set x. P e}" if "x = a \<or> x = b" for x
    using that distinct_card [of "filter P x"] by auto
  then show ?thesis using same_entries_set [OF assms] by simp
qed

lemma same_entries_length: "same_entries a b \<Longrightarrow> dict_ok b \<Longrightarrow> length a = length b"
  using same_entries_length_filter [of a b "\<lambda>_. True"] by simp

lemma row_of_eq_iff:
  "row_of s = row_of t \<longleftrightarrow>
     ds_session_id s = ds_session_id t \<and> ds_scope s = ds_scope t \<and>
     ds_document_id s = ds_document_id t \<and> ds_document_kind s = ds_document_kind t \<and>
     ds_snapshot s = ds_snapshot t \<and> ds_snapshot_revision s = ds_snapshot_revision t \<and>
     ds_created_at s = ds_created_at t"
  by (auto simp: row_of_def)

lemma session_same_ok:
  assumes same: "session_same s t" and ok: "session_ok env t"
  shows "session_ok env' s \<longleftrightarrow> int (length (ds_ops t)) \<le> env_max_retained env'"
proof -
  have wf: "session_wf t" using ok by (simp add: session_ok_def)
  then have acts: "dict_ok (ds_actor_bindings t)" and acl: "dict_ok (ds_acl t)"
    by (simp_all add: session_wf_def)
  have "set (ds_acl s) = set (ds_acl t)"
    using same_entries_set [OF _ acl] same by (simp add: session_same_def)
  moreover have "length (ds_actor_bindings s) = length (ds_actor_bindings t)"
    using same_entries_length [OF _ acts] same by (simp add: session_same_def)
  moreover have "bound_to s p = bound_to t p" for p
    using same_entries_length_filter [OF _ acts] same by (simp add: session_same_def bound_to_def)
  ultimately show ?thesis
    using same ok wf
    by (auto simp: session_ok_def session_wf_def session_same_def same_entries_def row_of_eq_iff)
qed

text \<open>What \<open>load_all\<close> gives for a store that agrees with a running service.\<close>

lemma load_all_agreeing:
  assumes "service_ok env sv" and "store_agrees stored sv"
  obtains ss where "load_all (sv_store sv) = Some ss" and "distinct (map ds_session_id ss)"
    and "ds_session_id ` set ss = fst ` set (sv_sessions sv)"
    and "\<And>s. s \<in> set ss \<Longrightarrow>
      \<exists>t. map_of (sv_sessions sv) (ds_session_id s) = Some t \<and> session_same s t"
proof -
  let ?st = "sv_store sv"
  have st: "stored ?st sid (map_of (sv_sessions sv) sid)" for sid
    using assms(2) by (simp add: store_agrees_def)
  let ?rs = "sort_key sr_session_id (t_sessions ?st)"
  have load: "load_all ?st = Some (map (loaded_session ?st) ?rs)"
    using load_all_eq [OF stored_rows_distinct [of ?st, OF st] stored_rows_known [of ?st, OF st]] .
  have same: "\<exists>t. map_of (sv_sessions sv) (sr_session_id r) = Some t \<and>
      session_same (loaded_session ?st r) t" if r: "r \<in> set (t_sessions ?st)" for r
  proof -
    have "session_rows (sr_session_id r) (t_sessions ?st) \<noteq> []"
      using r session_id_mem_iff by blast
    then obtain t where t: "map_of (sv_sessions sv) (sr_session_id r) = Some t"
      using st [of "sr_session_id r"] by (cases "map_of (sv_sessions sv) (sr_session_id r)") auto
    then have "session_wf t" using assms(1) by (auto simp: service_ok_def session_ok_def)
    with t r st [of "sr_session_id r"] show ?thesis by (auto intro: loaded_session_same)
  qed
  have id: "ds_session_id (loaded_session ?st r) = sr_session_id r" if "r \<in> set (t_sessions ?st)" for r
    using same [OF that] st [of "sr_session_id r"] by (auto simp: session_same_def row_of_eq_iff)
  have ids: "map ds_session_id (map (loaded_session ?st) ?rs) = map sr_session_id ?rs"
    using id by simp
  have "distinct (map sr_session_id ?rs)"
    using stored_rows_distinct [of ?st, OF st] by (simp add: distinct_map)
  then have 1: "distinct (map ds_session_id (map (loaded_session ?st) ?rs))" unfolding ids .
  have "sid \<in> sr_session_id ` set (t_sessions ?st) \<longleftrightarrow> sid \<in> fst ` set (sv_sessions sv)" for sid
    using st [of sid] session_id_mem_iff [of sid "t_sessions ?st"]
      map_of_eq_None_iff [of "sv_sessions sv" sid]
    by (cases "map_of (sv_sessions sv) sid") simp_all
  then have 2: "ds_session_id ` set (map (loaded_session ?st) ?rs) = fst ` set (sv_sessions sv)"
    using arg_cong [OF ids, of set] by (auto simp only: set_map set_sort image_image)
  have 3: "\<exists>t. map_of (sv_sessions sv) (ds_session_id s) = Some t \<and> session_same s t"
    if "s \<in> set (map (loaded_session ?st) ?rs)" for s
    using that same id by auto
  show thesis by (rule that [OF load 1 2 3])
qed

lemma map_of_by_id:
  assumes "distinct (map ds_session_id ss)"
  shows "map_of (foldl (\<lambda>d (k, s). dict_set k s d) [] (map (\<lambda>s. (ds_session_id s, s)) ss)) k = Some s
      \<longleftrightarrow> s \<in> set ss \<and> ds_session_id s = k"
    and "dict_ok (foldl (\<lambda>d (k, s). dict_set k s d) [] (map (\<lambda>s. (ds_session_id s, s)) ss))"
proof -
  let ?d = "map (\<lambda>s. (ds_session_id s, s)) ss"
  have ok: "dict_ok ?d" using assms by (simp add: dict_ok_def comp_def)
  have d: "foldl (\<lambda>d (k, s). dict_set k s d) [] ?d = ?d"
    using foldl_dict_set [of "[]" ?d] ok by simp
  show "map_of (foldl (\<lambda>d (k, s). dict_set k s d) [] ?d) k = Some s
      \<longleftrightarrow> s \<in> set ss \<and> ds_session_id s = k"
    unfolding d using ok map_of_eq_Some_iff [of ?d k s] by (auto simp: dict_ok_def)
  show "dict_ok (foldl (\<lambda>d (k, s). dict_set k s d) [] ?d)" unfolding d by (rule ok)
qed

lemma stored_same:
  assumes "stored st sid (Some t)" and "session_same s t"
  shows "stored st sid (Some s)"
  using assms by (auto simp: session_same_def same_entries_def row_of_eq_iff simp del: row_of_def)

lemma start_service_agreeing:
  assumes ok: "service_ok env sv" and agrees: "store_agrees stored sv"
    and cap: "1 \<le> env_max_retained env"
  obtains env' sv' where
    "start_service (env_max_retained env) (env_validator env) (sv_store sv) = Inr (env', sv')"
    and "env_api env' = Some sqlite_api" and "env_max_retained env' = env_max_retained env"
    and "service_ok env' sv'" and "store_agrees stored sv'" and "sv_store sv' = sv_store sv"
    and "\<And>sid. rel_option session_same (map_of (sv_sessions sv') sid) (map_of (sv_sessions sv) sid)"
proof -
  obtain ss where ss: "load_all (sv_store sv) = Some ss" "distinct (map ds_session_id ss)"
    "ds_session_id ` set ss = fst ` set (sv_sessions sv)"
    and same: "\<And>s. s \<in> set ss \<Longrightarrow>
      \<exists>t. map_of (sv_sessions sv) (ds_session_id s) = Some t \<and> session_same s t"
    using load_all_agreeing [OF ok agrees] by blast
  let ?env = "\<lparr>env_max_retained = env_max_retained env, env_api = Some sqlite_api,
    env_validator = env_validator env\<rparr>"
  let ?sv = "\<lparr>sv_sessions = foldl (\<lambda>d (k, s). dict_set k s d) [] (map (\<lambda>s. (ds_session_id s, s)) ss),
    sv_store = sv_store sv\<rparr>"
  have start: "start_service (env_max_retained env) (env_validator env) (sv_store sv) = Inr (?env, ?sv)"
    using cap ss(1) by (simp add: start_service_def)
  have rel: "rel_option session_same (map_of (sv_sessions ?sv) sid) (map_of (sv_sessions sv) sid)" for sid
  proof (cases "map_of (sv_sessions ?sv) sid")
    case None
    then have "sid \<notin> ds_session_id ` set ss"
      using map_of_by_id(1) [OF ss(2), of sid] by auto
    then have "map_of (sv_sessions sv) sid = None" by (simp add: ss(3) map_of_eq_None_iff)
    with None show ?thesis by simp
  next
    case (Some s)
    then show ?thesis using map_of_by_id(1) [OF ss(2), of sid s] same [of s] by auto
  qed
  have sok: "ds_session_id s = sid \<and> session_ok ?env s" if got: "map_of (sv_sessions ?sv) sid = Some s" for sid s
  proof -
    obtain t where t: "map_of (sv_sessions sv) sid = Some t" "session_same s t"
      using rel_option_SomeD [OF rel got] by blast
    with ok have "session_ok env t" "ds_session_id t = sid" by (auto simp: service_ok_def)
    with session_same_ok [OF t(2), of env ?env] t(2) show ?thesis
      by (simp add: session_ok_def [of env t] session_same_def row_of_eq_iff)
  qed
  have "dict_ok (sv_sessions ?sv)" using map_of_by_id(2) [OF ss(2)] by simp
  with sok have "service_ok ?env ?sv" unfolding service_ok_def by blast
  moreover have "stored (sv_store ?sv) sid (map_of (sv_sessions ?sv) sid)" for sid
  proof (cases "map_of (sv_sessions ?sv) sid")
    case None
    then have "map_of (sv_sessions sv) sid = None" using rel [of sid] by simp
    with agrees_get [OF agrees] have "stored (sv_store sv) sid None" by blast
    then show ?thesis unfolding None by simp
  next
    case (Some s)
    obtain t where "map_of (sv_sessions sv) sid = Some t" "session_same s t"
      using rel_option_SomeD [OF rel Some] by blast
    then have "stored (sv_store sv) sid (Some s)" using agrees_get [OF agrees] stored_same by blast
    then show ?thesis unfolding Some by simp
  qed
  then have "store_agrees stored ?sv" by (simp add: store_agrees_def)
  ultimately show thesis using that [OF start] rel by simp
qed

text \<open>Commands and restarts in any order; \<open>None\<close> is a restart that fails.\<close>

datatype session_event = Run command | Restart

fun run_event :: "store svc_env \<times> store service \<Rightarrow> session_event \<Rightarrow>
    (store svc_env \<times> store service) option" where
  "run_event (env, sv) (Run c) = Some (env, fst (run_command env sv c))"
| "run_event (env, sv) Restart =
     (case start_service (env_max_retained env) (env_validator env) (sv_store sv) of
        Inl _ \<Rightarrow> None
      | Inr p \<Rightarrow> Some p)"

fun run_events :: "store svc_env \<times> store service \<Rightarrow> session_event list \<Rightarrow>
    (store svc_env \<times> store service) option" where
  "run_events p [] = Some p"
| "run_events p (ev # evs) = (case run_event p ev of None \<Rightarrow> None | Some q \<Rightarrow> run_events q evs)"

fun event_ok :: "store svc_env \<times> store service \<Rightarrow> session_event \<Rightarrow> bool" where
  "event_ok p (Run c) \<longleftrightarrow> command_ok c \<and> fresh_command (snd p) c"
| "event_ok p Restart \<longleftrightarrow> True"

fun events_ok :: "store svc_env \<times> store service \<Rightarrow> session_event list \<Rightarrow> bool" where
  "events_ok p [] \<longleftrightarrow> True"
| "events_ok p (ev # evs) \<longleftrightarrow>
     event_ok p ev \<and> (case run_event p ev of None \<Rightarrow> True | Some q \<Rightarrow> events_ok q evs)"

definition in_sync :: "store svc_env \<times> store service \<Rightarrow> bool" where
  "in_sync p \<longleftrightarrow>
     env_api (fst p) = Some sqlite_api \<and> 1 \<le> env_max_retained (fst p) \<and>
     service_ok (fst p) (snd p) \<and> store_agrees stored (snd p)"

lemma in_sync_event:
  assumes "in_sync p" and "event_ok p ev"
  shows "\<exists>q. run_event p ev = Some q \<and> in_sync q"
proof (cases ev)
  case (Run c)
  then show ?thesis
    using assms sqlite.run_command_in_step [of "fst p" "snd p" c]
    by (cases p) (auto simp: in_sync_def sqlite.in_step_def)
next
  case Restart
  obtain env sv where p: "p = (env, sv)" by (cases p)
  have pre: "service_ok env sv" "store_agrees stored sv" "1 \<le> env_max_retained env"
    using assms(1) by (simp_all add: in_sync_def p)
  obtain env' sv' where
    "start_service (env_max_retained env) (env_validator env) (sv_store sv) = Inr (env', sv')"
    "in_sync (env', sv')"
    using start_service_agreeing [OF pre] pre(3) by (metis fst_conv snd_conv in_sync_def)
  then show ?thesis by (simp add: Restart p)
qed

lemma in_sync_events:
  "in_sync p \<Longrightarrow> events_ok p evs \<Longrightarrow> \<exists>q. run_events p evs = Some q \<and> in_sync q"
proof (induction evs arbitrary: p)
  case (Cons ev evs)
  then obtain q where "run_event p ev = Some q" "in_sync q"
    using in_sync_event [of p ev] by auto
  with Cons show ?case by auto
qed simp

lemma in_sync_start:
  "start_service cap validator empty_store = Inr p \<Longrightarrow> in_sync p"
  by (auto simp: start_service_def load_all_def load_joined_def empty_store_def in_sync_def
      service_ok_def store_agrees_def split: if_splits)

section \<open>Recovery and integrity\<close>

definition sample_start :: "store svc_env \<times> store service" where
  "sample_start =
     (\<lparr>env_max_retained = 3, env_api = Some sqlite_api, env_validator = None\<rparr>,
      \<lparr>sv_sessions = [], sv_store = empty_store\<rparr>)"

definition sample_patch :: "(pyobj \<times> pyobj) list list" where
  "sample_patch = [[(PStr ''op'', PStr ''remove''), (PStr ''path'', PList [PStr ''a'', PInt 0])]]"

definition sample_events :: "session_event list" where
  "sample_events =
     [Run (Create ''s1'' 0 ''lab'' ''doc'' (PDict []) ''workflow'' ''ann''),
      Run (Append ''s1'' ''op1'' ''tab1'' 0 sample_patch ''ann'' ''human'' 1),
      Restart,
      Run (Append ''s1'' ''op2'' ''tab2'' 1 sample_patch ''bob'' ''human'' 2),
      Run (Checkpoint ''s1'' 1 (PList []) ''ann''),
      Run (ReplaceAcl ''s1'' ''ann'' ''viewer'' [(''ann'', ''owner''), (''bob'', ''banned'')])]"

lemma start_sample: "start_service 3 None empty_store = Inr sample_start"
  by (simp add: start_service_def sample_start_def load_all_def load_joined_def empty_store_def)

lemma sample_events_ok: "events_ok sample_start sample_events"
  by code_simp

text \<open>
  C1: From an empty database, after any sequence of service commands and restarts, a crash loses
  nothing: every command has kept the service invariant, starting the service again on the
  SQLite tables succeeds, and it reads back the same sessions, field by field.
\<close>
theorem sessions_survive_restarts:
  assumes "start_service cap validator empty_store = Inr p" and "events_ok p evs"
  shows "\<exists>env sv env' sv'. run_events p evs = Some (env, sv) \<and> service_ok env sv \<and>
    start_service (env_max_retained env) (env_validator env) (sv_store sv) = Inr (env', sv') \<and>
    (\<forall>sid. rel_option session_same (map_of (sv_sessions sv') sid) (map_of (sv_sessions sv) sid))"
proof -
  obtain q where q: "run_events p evs = Some q" "in_sync q"
    using in_sync_events [OF in_sync_start] assms by blast
  obtain env sv where p: "q = (env, sv)" by (cases q)
  with q(2) have pre: "service_ok env sv" "store_agrees stored sv" "1 \<le> env_max_retained env"
    by (simp_all add: in_sync_def)
  from start_service_agreeing [OF pre] q(1) pre(1) show ?thesis unfolding p by metis
qed

theorem sessions_survive_restarts_witness:
  "\<exists>env sv env' sv'. run_events sample_start sample_events = Some (env, sv) \<and> service_ok env sv \<and>
    start_service (env_max_retained env) (env_validator env) (sv_store sv) = Inr (env', sv') \<and>
    (\<forall>sid. rel_option session_same (map_of (sv_sessions sv') sid) (map_of (sv_sessions sv) sid))"
  by (rule sessions_survive_restarts [OF start_sample sample_events_ok])

text \<open>
  C23: After any such history the next command raises no internal error: no SQLite constraint
  fails, no role is missing from the rank table and no pruned operation is missing from the
  index; what it can raise is only what its callers handle.
\<close>
theorem commands_raise_only_client_errors:
  assumes "start_service cap validator empty_store = Inr p" and "events_ok p evs"
    and "event_ok (the (run_events p evs)) (Run c)"
    and "snd (run_command (fst (the (run_events p evs))) (snd (the (run_events p evs))) c) = Some e"
  shows "\<not> internal_error e"
proof -
  obtain q where q: "run_events p evs = Some q" "in_sync q"
    using in_sync_events [OF in_sync_start] assms by blast
  then show ?thesis
    using sqlite.run_command_in_step [of "fst q" "snd q" c] assms(3,4)
    by (auto simp: in_sync_def sqlite.in_step_def)
qed

theorem commands_raise_only_client_errors_witness: "\<not> internal_error (StaleBase 0)"
proof (rule commands_raise_only_client_errors [OF start_sample])
  let ?c = "Append ''s1'' ''op1'' ''tab1'' 5 sample_patch ''ann'' ''human'' 1"
  show "events_ok sample_start (take 1 sample_events)" by code_simp
  show "event_ok (the (run_events sample_start (take 1 sample_events))) (Run ?c)" by code_simp
  show "snd (run_command (fst (the (run_events sample_start (take 1 sample_events))))
      (snd (the (run_events sample_start (take 1 sample_events)))) ?c) = Some (StaleBase 0)"
    by code_simp
qed

section \<open>Ordering\<close>

lemma append_accepted_cases:
  assumes "append env sv sid op_id actor base patch prin kind now = (sv', Inr (x, False))"
  obtains s ps st where "get_authoritative sv sid = Inr s"
    and "require_role sv sid prin ''editor'' = Inr ()" and "normalize_patch patch = Inr ps"
    and "map_of (ds_ops_by_id s) op_id = None" and "check_actor s actor prin = Inr ()"
    and "base = session_revision s" and "\<not> env_max_retained env \<le> int (length (ds_ops s))"
    and "x = next_op s op_id actor ps prin kind now"
    and "sv' = (put_authoritative (with_op s x) sv)\<lparr>sv_store := st\<rparr>"
  using assms
  by (auto simp: append_def Let_def attempt_def ensure_def check_actor_principal_def
      split: sum.splits option.splits if_splits prod.splits)

lemma append_replayed_cases:
  assumes "service_ok env sv"
    and "append env sv sid op_id actor base patch prin kind now = (sv', Inr (x, True))"
  obtains s where "get_authoritative sv sid = Inr s" and "sv' = sv"
    and "require_role sv sid prin ''editor'' = Inr ()"
    and "map_of (ds_ops_by_id s) op_id = Some x" and "so_actor_id x = actor"
    and "map_of (ds_actor_bindings s) actor = Some prin"
proof -
  obtain s where s: "get_authoritative sv sid = Inr s"
    using assms(2) by (auto simp: append_def attempt_def split: sum.splits)
  note wf = service_ok_get(3) [OF assms(1) s]
  have "map_of (ds_actor_bindings s) (so_actor_id y) \<noteq> None"
    if "map_of (ds_ops_by_id s) op_id = Some y" for y
    using session_wf_existing(3) [OF wf that] by simp
  with assms(2) s that show thesis
    by (auto simp: append_def Let_def attempt_def ensure_def
        split: sum.splits option.splits if_splits prod.splits)
qed

lemma get_put [simp]:
  "get_authoritative ((put_authoritative s sv)\<lparr>sv_store := st\<rparr>) k =
     (if k = ds_session_id s then Inr s else get_authoritative sv k)"
  by (simp add: get_authoritative_def put_authoritative_def)

lemma require_role_put:
  assumes "get_authoritative sv sid = Inr s" and "ds_session_id t = sid"
    and "ds_acl t = ds_acl s" and "ds_default_role t = ds_default_role s"
  shows "require_role ((put_authoritative t sv)\<lparr>sv_store := st\<rparr>) sid prin minimum =
    require_role sv sid prin minimum"
  using assms by (simp add: require_role_def role_for_def session_role_def)

text \<open>
  C5: Submitting an operation again after it was ordered returns the recorded envelope and
  changes nothing, whatever base revision, time or (well-formed) patch the retry carries.
\<close>
theorem append_is_idempotent:
  assumes ok: "service_ok env sv"
    and first: "append env sv sid op_id actor base patch prin kind now = (sv', Inr (x, b))"
    and patch: "normalize_patch patch' = Inr ps'"
  shows "append env sv' sid op_id actor base' patch' prin kind' now' = (sv', Inr (x, True))"
proof (cases b)
  case True
  obtain s where "get_authoritative sv sid = Inr s" and "sv' = sv"
    and "require_role sv sid prin ''editor'' = Inr ()"
    and "map_of (ds_ops_by_id s) op_id = Some x" and "so_actor_id x = actor"
    and "map_of (ds_actor_bindings s) actor = Some prin"
  proof -
    have "append env sv sid op_id actor base patch prin kind now = (sv', Inr (x, True))"
      using first True by simp
    from append_replayed_cases [OF ok this] that show thesis by blast
  qed
  with patch show ?thesis by (simp add: append_def)
next
  case False
  obtain s ps st where s: "get_authoritative sv sid = Inr s"
    "require_role sv sid prin ''editor'' = Inr ()" "map_of (ds_ops_by_id s) op_id = None"
    "check_actor s actor prin = Inr ()" and x: "x = next_op s op_id actor ps prin kind now"
    and sv': "sv' = (put_authoritative (with_op s x) sv)\<lparr>sv_store := st\<rparr>"
    using append_accepted_cases first False by metis
  have id: "ds_session_id s = sid" using service_ok_get(3) [OF ok s(1)] ok s(1) service_ok_get by blast
  have "require_role sv' sid prin ''editor'' = Inr ()"
    unfolding sv' using s(2) require_role_put [OF s(1), of "with_op s x"] id by (simp add: with_op_def)
  moreover have "get_authoritative sv' sid = Inr (with_op s x)"
    unfolding sv' by (simp add: id with_op_def)
  moreover have "map_of (ds_actor_bindings (with_op s x)) actor = Some prin"
    using s(4) by (auto simp: with_op_def x next_op_def check_actor_Inr)
  moreover have "map_of (ds_ops_by_id (with_op s x)) op_id = Some x" "so_actor_id x = actor"
    by (simp_all add: with_op_def x next_op_def)
  ultimately show ?thesis using patch by (simp add: append_def)
qed

definition sample_state :: "nat \<Rightarrow> store svc_env \<times> store service" where
  "sample_state n = the (run_events sample_start (take n sample_events))"

lemma sample_state_ok: "service_ok (fst (sample_state n)) (snd (sample_state n))"
proof -
  have "in_sync sample_start" using in_sync_start [OF start_sample] .
  moreover have "events_ok sample_start (take n sample_events)"
  proof -
    have "events_ok p (take n evs)" if "events_ok p evs" for p evs
      using that
    proof (induction evs arbitrary: p n)
      case (Cons ev evs)
      then show ?case by (cases n) (auto split: option.splits)
    qed simp
    then show ?thesis using sample_events_ok by blast
  qed
  ultimately show ?thesis
    using in_sync_events [of sample_start "take n sample_events"]
    by (auto simp: sample_state_def in_sync_def)
qed

definition sample_op :: session_op where
  "sample_op = \<lparr>so_op_id = ''op1'', so_actor_id = ''tab1'', so_base_revision = 0, so_revision = 1,
     so_patch = map PDict sample_patch, so_timestamp = 1, so_principal_id = ''ann'',
     so_actor_kind = ''human''\<rparr>"

definition sample_append :: "store service \<Rightarrow> store service \<times> (svc_error + session_op \<times> bool)" where
  "sample_append sv = append (fst (sample_state 1)) sv ''s1'' ''op1'' ''tab1'' 0 sample_patch
     ''ann'' ''human'' 1"

lemma sample_append:
  "sample_append (snd (sample_state 1)) =
     (fst (sample_append (snd (sample_state 1))), Inr (sample_op, False))"
proof (rule prod_eqI)
  show "snd (sample_append (snd (sample_state 1))) =
      snd (fst (sample_append (snd (sample_state 1))), Inr (sample_op, False))"
    by code_simp
qed simp

theorem append_is_idempotent_witness:
  "append (fst (sample_state 1)) (fst (sample_append (snd (sample_state 1))))
     ''s1'' ''op1'' ''tab1'' 7 [] ''ann'' ''agent'' 9 =
   (fst (sample_append (snd (sample_state 1))), Inr (sample_op, True))"
  by (rule append_is_idempotent [OF sample_state_ok sample_append [unfolded sample_append_def],
        folded sample_append_def]) simp

lemma session_revision_with_op [simp]: "session_revision (with_op s x) = so_revision x"
  by (simp add: with_op_def session_revision_def)

text \<open>
  C2: An accepted operation was built on the head of its session and becomes the next revision
  of that session alone; whoever submits another operation on the same base afterwards is not
  accepted, so of two concurrent edits exactly one is ordered first.
\<close>
theorem append_orders:
  assumes ok: "service_ok env sv"
    and acc: "append env sv sid op_id actor base patch prin kind now = (sv', Inr (x, False))"
  shows "\<exists>s. map_of (sv_sessions sv) sid = Some s \<and> base = session_revision s \<and>
      so_base_revision x = base \<and> so_revision x = base + 1 \<and>
      map_of (sv_sessions sv') = (map_of (sv_sessions sv))(sid \<mapsto> with_op s x) \<and>
      session_revision (with_op s x) = base + 1 \<and>
      (\<forall>op2 actor2 patch2 prin2 kind2 now2 sv2 y.
         append env sv' sid op2 actor2 base patch2 prin2 kind2 now2 \<noteq> (sv2, Inr (y, False)))"
proof -
  obtain s ps st where s: "get_authoritative sv sid = Inr s" and base: "base = session_revision s"
    and x: "x = next_op s op_id actor ps prin kind now"
    and sv': "sv' = (put_authoritative (with_op s x) sv)\<lparr>sv_store := st\<rparr>"
    using append_accepted_cases acc by metis
  have id: "ds_session_id (with_op s x) = sid"
    using service_ok_get(2) [OF ok s] by (simp add: with_op_def)
  have "append env sv' sid op2 actor2 base patch2 prin2 kind2 now2 \<noteq> (sv2, Inr (y, False))"
    for op2 actor2 patch2 prin2 kind2 now2 sv2 y
  proof
    assume "append env sv' sid op2 actor2 base patch2 prin2 kind2 now2 = (sv2, Inr (y, False))"
    then obtain s' where s': "get_authoritative sv' sid = Inr s'" and rv: "base = session_revision s'"
      using append_accepted_cases by metis
    from s' have "s' = with_op s x" unfolding sv' using id by simp
    with rv have "base = so_revision x" by simp
    then show False by (simp add: base x next_op_def)
  qed
  moreover have "map_of (sv_sessions sv') = (map_of (sv_sessions sv))(sid \<mapsto> with_op s x)"
    unfolding sv' by (simp add: put_authoritative_def id)
  moreover have "session_revision (with_op s x) = base + 1"
    by (simp add: x next_op_def base)
  ultimately show ?thesis
    using s base x by (intro exI [of _ s]) (simp add: get_authoritative_Inr next_op_def)
qed

theorem append_orders_witness:
  "\<exists>s. map_of (sv_sessions (snd (sample_state 1))) ''s1'' = Some s \<and> 0 = session_revision s \<and>
      so_base_revision sample_op = 0 \<and> so_revision sample_op = 0 + 1 \<and>
      map_of (sv_sessions (fst (sample_append (snd (sample_state 1))))) =
        (map_of (sv_sessions (snd (sample_state 1))))(''s1'' \<mapsto> with_op s sample_op) \<and>
      session_revision (with_op s sample_op) = 0 + 1 \<and>
      (\<forall>op2 actor2 patch2 prin2 kind2 now2 sv2 y.
         append (fst (sample_state 1)) (fst (sample_append (snd (sample_state 1)))) ''s1''
           op2 actor2 0 patch2 prin2 kind2 now2 \<noteq> (sv2, Inr (y, False)))"
  by (rule append_orders [OF sample_state_ok sample_append [unfolded sample_append_def],
        folded sample_append_def])

section \<open>Catching up and checkpoints\<close>

text \<open>
  C4: A catch-up read from a cursor at or after the checkpoint returns exactly the operations
  with revisions \<open>after + 1\<close> up to the head, in order and without a gap; an older cursor is told
  to resync from the snapshot.
\<close>
theorem ops_after_is_exact:
  assumes ok: "service_ok env sv" and s: "map_of (sv_sessions sv) sid = Some s"
    and role: "require_role sv sid prin ''viewer'' = Inr ()"
  shows "ops_after sv sid after prin =
      (if after < ds_snapshot_revision s then Inl (ResyncRequired (ds_snapshot_revision s))
       else Inr (drop (nat (after - ds_snapshot_revision s)) (ds_ops s))) \<and>
    (\<forall>os. ops_after sv sid after prin = Inr os \<longrightarrow>
       map so_revision os = [after + 1..session_revision s])"
proof -
  have get: "get_authoritative sv sid = Inr s" using s by (simp add: get_authoritative_Inr)
  have c: "contiguous_from (ds_snapshot_revision s) (ds_ops s)"
    using service_ok_get(3) [OF ok get] by (simp add: session_wf_def)
  let ?n = "nat (after - ds_snapshot_revision s)"
  have "ops_after sv sid after prin =
      (if after < ds_snapshot_revision s then Inl (ResyncRequired (ds_snapshot_revision s))
       else Inr (filter (\<lambda>x. after < so_revision x) (ds_ops s)))"
    by (simp add: ops_after_def get role)
  then have eq: "ops_after sv sid after prin =
      (if after < ds_snapshot_revision s then Inl (ResyncRequired (ds_snapshot_revision s))
       else Inr (drop ?n (ds_ops s)))"
    using contiguous_filter_gt [OF c, of after] by simp
  have head: "session_revision s = ds_snapshot_revision s + int (length (ds_ops s))"
    by (rule session_revision_eq [OF c])
  have "map so_revision (drop ?n (ds_ops s)) = [after + 1..session_revision s]"
    if "ds_snapshot_revision s \<le> after"
  proof (cases "?n \<le> length (ds_ops s)")
    case True
    from contiguous_revisions [OF contiguous_drop [OF c True]] show ?thesis
      using that True unfolding head by (simp add: of_nat_diff add.commute)
  next
    case False
    then show ?thesis using that unfolding head by simp
  qed
  then show ?thesis unfolding eq by simp
qed

theorem ops_after_is_exact_witness:
  "\<exists>s. map_of (sv_sessions (snd (sample_state 4))) ''s1'' = Some s \<and>
     ops_after (snd (sample_state 4)) ''s1'' 1 ''eve'' = Inr (drop 1 (ds_ops s))"
proof -
  let ?sv = "snd (sample_state 4)"
  let ?s = "the (map_of (sv_sessions ?sv) ''s1'')"
  have "map_of (sv_sessions ?sv) ''s1'' \<noteq> None" by code_simp
  then have s: "map_of (sv_sessions ?sv) ''s1'' = Some ?s" by auto
  have role: "require_role ?sv ''s1'' ''eve'' ''viewer'' = Inr ()" by code_simp
  have "ds_snapshot_revision ?s = 0" by code_simp
  with ops_after_is_exact [OF sample_state_ok s role, of 1] s show ?thesis by auto
qed

text \<open>
  C3: A checkpoint never changes the document a client sees. For every way of applying patches,
  when the installed snapshot is the old snapshot with the covered operations applied, replaying
  the retained log from the new snapshot gives what replaying the old log gave, the head revision
  is the same, and a reader whose cursor the checkpoint does not pass reads the same operations.
\<close>
theorem checkpoint_keeps_document:
  fixes app :: "pyobj \<Rightarrow> session_op \<Rightarrow> pyobj"
  assumes ok: "service_ok env sv" and s: "map_of (sv_sessions sv) sid = Some s"
    and cp: "checkpoint env sv sid revn document prin = (sv', Inr t)"
    and doc: "document = foldl app (ds_snapshot s) (take (nat (revn - ds_snapshot_revision s)) (ds_ops s))"
  shows "map_of (sv_sessions sv') sid = Some t \<and>
    foldl app (ds_snapshot t) (ds_ops t) = foldl app (ds_snapshot s) (ds_ops s) \<and>
    session_revision t = session_revision s \<and> ds_snapshot_revision t = revn \<and>
    (\<forall>after \<ge> revn. ops_after sv' sid after reader = ops_after sv sid after reader)"
proof -
  have get: "get_authoritative sv sid = Inr s" using s by (simp add: get_authoritative_Inr)
  have wf: "session_wf s" and id: "ds_session_id s = sid" using service_ok_get [OF ok get] by simp_all
  then have c: "contiguous_from (ds_snapshot_revision s) (ds_ops s)" by (simp add: session_wf_def)
  have lo: "ds_snapshot_revision s < revn" and hi: "revn \<le> session_revision s"
    and "\<exists>v d st. validated_snapshot env (ds_document_kind s) (ds_document_id s) document = Inr v \<and>
      t = s\<lparr>ds_snapshot := v, ds_snapshot_revision := revn,
            ds_ops := filter (\<lambda>x. revn < so_revision x) (ds_ops s), ds_ops_by_id := d\<rparr> \<and>
      sv' = (put_authoritative t sv)\<lparr>sv_store := st\<rparr>"
    using cp by (auto simp: checkpoint_def get Let_def attempt_def ensure_def
        split: sum.splits if_splits prod.splits option.splits)
  then obtain v d st where v: "validated_snapshot env (ds_document_kind s) (ds_document_id s) document = Inr v"
    and t: "t = s\<lparr>ds_snapshot := v, ds_snapshot_revision := revn,
      ds_ops := filter (\<lambda>x. revn < so_revision x) (ds_ops s), ds_ops_by_id := d\<rparr>"
    and sv': "sv' = (put_authoritative t sv)\<lparr>sv_store := st\<rparr>" by blast
  have "v = document"
    using v by (auto simp: validated_snapshot_def normalize_json_Inr split: sum.splits option.splits)
  let ?n = "nat (revn - ds_snapshot_revision s)"
  have kept: "filter (\<lambda>x. revn < so_revision x) (ds_ops s) = drop ?n (ds_ops s)"
    using contiguous_filter_gt [OF c, of revn] lo by simp
  have head: "session_revision s = ds_snapshot_revision s + int (length (ds_ops s))"
    by (rule session_revision_eq [OF c])
  have n: "?n \<le> length (ds_ops s)" using hi lo unfolding head by simp
  have "session_revision t = session_revision s"
    using session_revision_eq [of t] contiguous_drop [OF c n] n lo unfolding t kept head
    by (simp add: of_nat_diff)
  moreover have "foldl app (ds_snapshot t) (ds_ops t) = foldl app (ds_snapshot s) (ds_ops s)"
    unfolding t kept by (simp add: \<open>v = document\<close> doc flip: foldl_append)
  moreover have get': "get_authoritative sv' sid = Inr t" unfolding sv' t by (simp add: id)
  moreover have "map_of (sv_sessions sv') sid = Some t" using get' by (simp add: get_authoritative_Inr)
  moreover have snap: "ds_snapshot_revision t = revn" by (simp add: t)
  moreover have "require_role sv' sid reader ''viewer'' = require_role sv sid reader ''viewer''"
    unfolding sv' using require_role_put [OF get, of t] by (simp add: t id)
  moreover have "filter (\<lambda>x. after < so_revision x) (ds_ops t) =
      filter (\<lambda>x. after < so_revision x) (ds_ops s)" if "revn \<le> after" for after
    using that unfolding t by (auto intro: filter_cong)
  ultimately show ?thesis
    using lo by (auto simp: ops_after_def get)
qed

theorem checkpoint_keeps_document_witness:
  "\<exists>t :: document_session. foldl (\<lambda>d x. PList [d, PStr (so_op_id x)]) (ds_snapshot t) (ds_ops t) =
        PList [PList [PDict [], PStr ''op1''], PStr ''op2''] \<and> ds_snapshot_revision t = 1"
proof -
  let ?env = "fst (sample_state 4)" and ?sv = "snd (sample_state 4)"
  let ?app = "\<lambda>d x. PList [d, PStr (so_op_id x)]"
  let ?s = "the (map_of (sv_sessions ?sv) ''s1'')"
  let ?doc = "PList [PDict [], PStr ''op1'']"
  let ?cp = "checkpoint ?env ?sv ''s1'' 1 ?doc ''ann''"
  have "map_of (sv_sessions ?sv) ''s1'' \<noteq> None" by code_simp
  then have s: "map_of (sv_sessions ?sv) ''s1'' = Some ?s" by auto
  have "isl (snd ?cp) = False" by code_simp
  then have cp: "?cp = (fst ?cp, Inr (projr (snd ?cp)))" by (simp add: prod_eq_iff)
  have snap: "ds_snapshot ?s = PDict []" and sr: "ds_snapshot_revision ?s = 0"
    and ids: "map so_op_id (ds_ops ?s) = [''op1'', ''op2'']" by code_simp+
  obtain a b where ops: "ds_ops ?s = [a, b]" "so_op_id a = ''op1''" "so_op_id b = ''op2''"
    using ids by auto
  have "?doc = foldl ?app (ds_snapshot ?s) (take (nat (1 - ds_snapshot_revision ?s)) (ds_ops ?s))"
    by (simp add: snap sr ops)
  from checkpoint_keeps_document [OF sample_state_ok s cp this, of "''ann''"]
  have "\<exists>t :: document_session. foldl ?app (ds_snapshot t) (ds_ops t) = foldl ?app (PDict []) [a, b] \<and>
      ds_snapshot_revision t = 1"
    unfolding snap ops(1) by blast
  then obtain t :: document_session where t: "foldl ?app (ds_snapshot t) (ds_ops t) = foldl ?app (PDict []) [a, b]"
    "ds_snapshot_revision t = 1" by blast
  show ?thesis by (rule exI [of _ t]) (simp add: t ops(2,3))
qed

section \<open>History and access control\<close>

text \<open>
  How a session may change while it exists: revisions only grow, what both logs cover is the
  same, and an actor keeps its principal.
\<close>

definition evolves :: "document_session \<Rightarrow> document_session \<Rightarrow> bool" where
  "evolves s t \<longleftrightarrow>
     session_revision s \<le> session_revision t \<and>
     ds_snapshot_revision s \<le> ds_snapshot_revision t \<and>
     (\<exists>new. ds_ops t = filter (\<lambda>x. ds_snapshot_revision t < so_revision x) (ds_ops s) @ new) \<and>
     map_of (ds_actor_bindings s) \<subseteq>\<^sub>m map_of (ds_actor_bindings t)"

lemma evolves_same:
  assumes "session_wf s" and "ds_ops t = ds_ops s" and "ds_snapshot_revision t = ds_snapshot_revision s"
    and "map_of (ds_actor_bindings s) \<subseteq>\<^sub>m map_of (ds_actor_bindings t)"
  shows "evolves s t"
proof -
  have "contiguous_from (ds_snapshot_revision s) (ds_ops s)" using assms(1) by (simp add: session_wf_def)
  from contiguous_filter_gt [OF this order_refl]
  have "filter (\<lambda>x. ds_snapshot_revision s < so_revision x) (ds_ops s) = ds_ops s" by simp
  with assms show ?thesis by (simp add: evolves_def session_revision_def)
qed

lemma with_op_simps:
  "ds_snapshot_revision (with_op s x) = ds_snapshot_revision s"
  "ds_ops (with_op s x) = ds_ops s @ [x]"
  "ds_actor_bindings (with_op s x) =
     dict_setdefault (so_actor_id x) (so_principal_id x) (ds_actor_bindings s)"
  "ds_session_id (with_op s x) = ds_session_id s"
  by (simp_all add: with_op_def)

lemma evolves_with_op:
  assumes wf: "session_wf s"
  shows "evolves s (with_op s (next_op s i a ps p k now))"
proof -
  have c: "contiguous_from (ds_snapshot_revision s) (ds_ops s)" using wf by (simp add: session_wf_def)
  from contiguous_filter_gt [OF c order_refl]
  have "filter (\<lambda>x. ds_snapshot_revision s < so_revision x) (ds_ops s) = ds_ops s" by simp
  then show ?thesis
    by (auto simp: evolves_def map_le_def dom_def with_op_simps next_op_def split: option.splits)
qed

lemma evolves_checkpoint:
  assumes wf: "session_wf s" and "ds_snapshot_revision s < revn" and "revn \<le> session_revision s"
  shows "evolves s (s\<lparr>ds_snapshot := v, ds_snapshot_revision := revn,
    ds_ops := filter (\<lambda>x. revn < so_revision x) (ds_ops s), ds_ops_by_id := d\<rparr>)"
proof -
  have c: "contiguous_from (ds_snapshot_revision s) (ds_ops s)" using wf by (simp add: session_wf_def)
  have "session_revision s \<le> so_revision (last (filter (\<lambda>x. revn < so_revision x) (ds_ops s)))"
    if "filter (\<lambda>x. revn < so_revision x) (ds_ops s) \<noteq> []"
  proof -
    let ?n = "nat (revn - ds_snapshot_revision s)"
    have kept: "filter (\<lambda>x. revn < so_revision x) (ds_ops s) = drop ?n (ds_ops s)"
      using contiguous_filter_gt [OF c, of revn] assms(2) by simp
    with that have "last (drop ?n (ds_ops s)) = last (ds_ops s)" and "ds_ops s \<noteq> []" by auto
    then show ?thesis unfolding kept by (simp add: session_revision_def)
  qed
  moreover have "session_revision s \<le> revn" if "filter (\<lambda>x. revn < so_revision x) (ds_ops s) = []"
    using that assms(2) last_in_set [of "ds_ops s"]
    by (auto simp: session_revision_def filter_empty_conv not_less)
  moreover have "session_revision (s\<lparr>ds_snapshot := v, ds_snapshot_revision := revn,
      ds_ops := filter (\<lambda>x. revn < so_revision x) (ds_ops s), ds_ops_by_id := d\<rparr>) =
    (if filter (\<lambda>x. revn < so_revision x) (ds_ops s) = [] then revn
     else so_revision (last (filter (\<lambda>x. revn < so_revision x) (ds_ops s))))"
    by (simp add: session_revision_def)
  ultimately show ?thesis using assms(2) by (simp add: evolves_def)
qed

definition all_evolve :: "'st service \<Rightarrow> 'st service \<Rightarrow> bool" where
  "all_evolve sv sv' \<longleftrightarrow>
     (\<forall>sid s t. map_of (sv_sessions sv) sid = Some s \<longrightarrow> map_of (sv_sessions sv') sid = Some t \<longrightarrow>
        evolves s t)"

lemma all_evolve_refl: "service_ok env sv \<Longrightarrow> all_evolve sv sv"
  by (auto simp: all_evolve_def service_ok_def session_ok_def intro: evolves_same)

lemma all_evolve_put:
  assumes "service_ok env sv" and "get_authoritative sv sid = Inr s" and "ds_session_id t = sid"
    and "evolves s t"
  shows "all_evolve sv (put_authoritative t sv)"
  using assms(2-4) all_evolve_refl [OF assms(1)]
  by (auto simp: all_evolve_def put_authoritative_def get_authoritative_Inr)

lemma all_evolve_store [simp]: "all_evolve sv (sv'\<lparr>sv_store := st\<rparr>) = all_evolve sv sv'"
  by (simp add: all_evolve_def)

lemma all_evolve_del:
  "service_ok env sv \<Longrightarrow> all_evolve sv (sv\<lparr>sv_sessions := dict_del sid (sv_sessions sv)\<rparr>)"
  using all_evolve_refl [of env sv] by (simp add: all_evolve_def)

lemma all_evolve_create:
  "service_ok env sv \<Longrightarrow> map_of (sv_sessions sv) (ds_session_id s) = None \<Longrightarrow>
     all_evolve sv (put_authoritative s sv)"
  using all_evolve_refl [of env sv] by (auto simp: all_evolve_def put_authoritative_def)

lemma bind_evolves:
  assumes ok: "service_ok env sv" and s: "get_authoritative sv sid = Inr s"
    and "map_of (ds_actor_bindings s) actor = None"
  shows "outcome (\<lambda>sv' _. all_evolve sv sv') (do_bind_actor env sv s actor prin)"
proof -
  have "evolves s (s\<lparr>ds_actor_bindings := dict_set actor prin (ds_actor_bindings s)\<rparr>)"
    using assms(3) service_ok_get(3) [OF ok s]
    by (intro evolves_same) (auto simp: map_le_def dom_def)
  then have "all_evolve sv (put_authoritative
      (s\<lparr>ds_actor_bindings := dict_set actor prin (ds_actor_bindings s)\<rparr>) sv)"
    using service_ok_get(2) [OF ok s] by (intro all_evolve_put [OF ok s]) simp_all
  then show ?thesis
    unfolding do_bind_actor_def
    by (intro outcome_intros) (use all_evolve_refl [OF ok] in auto)
qed

text \<open>The access an operation needs; closing needs an owner because every session has one.\<close>

fun needed_role :: "command \<Rightarrow> (string \<times> string \<times> string) option" where
  "needed_role (Create _ _ _ _ _ _ _) = None"
| "needed_role (ReplaceAcl sid p _ _) = Some (sid, p, ''owner'')"
| "needed_role (Close sid p) = Some (sid, p, ''owner'')"
| "needed_role (BindActor sid _ p) = Some (sid, p, ''viewer'')"
| "needed_role (Append sid _ _ _ _ p _ _) = Some (sid, p, ''editor'')"
| "needed_role (Checkpoint sid _ _ p) = Some (sid, p, ''editor'')"

definition has_role :: "'st service \<Rightarrow> string \<Rightarrow> string \<Rightarrow> string \<Rightarrow> bool" where
  "has_role sv sid prin minimum \<longleftrightarrow>
     (case map_of (sv_sessions sv) sid of
        None \<Rightarrow> False
      | Some s \<Rightarrow>
          (case (role_rank (session_role s prin), role_rank minimum) of
             (Some a, Some b) \<Rightarrow> b \<le> a
           | _ \<Rightarrow> False))"

lemma require_role_iff: "require_role sv sid prin minimum = Inr u \<longleftrightarrow> has_role sv sid prin minimum"
  by (auto simp: require_role_def role_for_def has_role_def get_authoritative_def
      split: option.splits)

definition touches_with :: "'st service \<Rightarrow> bool \<Rightarrow> 'st service \<Rightarrow> bool" where
  "touches_with sv allowed sv' \<longleftrightarrow> all_evolve sv sv' \<and> (sv' = sv \<or> allowed)"

lemma append_touches:
  assumes ok: "service_ok env sv"
  shows "outcome (\<lambda>sv' _. touches_with sv (has_role sv sid prin ''editor'') sv')
    (append env sv sid op_id actor base patch prin kind now)"
proof (cases "get_authoritative sv sid")
  case (Inr s)
  note s = service_ok_get [OF ok Inr]
  have op: "all_evolve sv (put_authoritative (with_op s (next_op s op_id actor ps prin kind now)) sv)"
    for ps
    using s(2) by (intro all_evolve_put [OF ok Inr] evolves_with_op s(3)) (simp add: with_op_simps)
  have bound: "map_of (ds_actor_bindings s) (so_actor_id x) \<noteq> None"
    if "map_of (ds_ops_by_id s) op_id = Some x" for x
    using session_wf_existing [OF s(3) that] by simp
  show ?thesis
    unfolding append_def Let_def Inr attempt_simps touches_with_def
    by (intro outcome_intros) (use all_evolve_refl [OF ok] op bound in \<open>auto simp: require_role_iff\<close>)
qed (use all_evolve_refl [OF ok] in \<open>simp add: append_def outcome_def touches_with_def\<close>)

lemma checkpoint_touches:
  assumes ok: "service_ok env sv"
  shows "outcome (\<lambda>sv' _. touches_with sv (has_role sv sid prin ''editor'') sv')
    (checkpoint env sv sid revn document prin)"
proof (cases "get_authoritative sv sid")
  case (Inr s)
  note s = service_ok_get [OF ok Inr]
  have cp: "all_evolve sv (put_authoritative (s\<lparr>ds_snapshot := v, ds_snapshot_revision := revn,
      ds_ops := filter (\<lambda>x. revn < so_revision x) (ds_ops s), ds_ops_by_id := d\<rparr>) sv)"
    if "\<not> revn \<le> ds_snapshot_revision s" "\<not> session_revision s < revn" for v d
    using that s(2) by (intro all_evolve_put [OF ok Inr] evolves_checkpoint s(3)) simp_all
  show ?thesis
    unfolding checkpoint_def Let_def Inr attempt_simps touches_with_def
    by (intro outcome_intros) (use all_evolve_refl [OF ok] cp in \<open>auto simp: require_role_iff\<close>)
qed (use all_evolve_refl [OF ok] in \<open>simp add: checkpoint_def outcome_def touches_with_def\<close>)

lemma acl_touches:
  assumes ok: "service_ok env sv"
  shows "outcome (\<lambda>sv' _. touches_with sv (has_role sv sid prin ''owner'') sv')
    (replace_acl env sv sid prin role entries)"
proof (cases "get_authoritative sv sid")
  case (Inr s)
  note s = service_ok_get [OF ok Inr]
  have acl: "all_evolve sv (put_authoritative (s\<lparr>ds_default_role := r, ds_acl := entries\<rparr>) sv)" for r
    using s(2) by (intro all_evolve_put [OF ok Inr] evolves_same s(3)) simp_all
  show ?thesis
    unfolding replace_acl_def Let_def Inr attempt_simps touches_with_def
    by (intro outcome_intros) (use all_evolve_refl [OF ok] acl in \<open>auto simp: require_role_iff\<close>)
qed (use all_evolve_refl [OF ok] in \<open>simp add: replace_acl_def outcome_def touches_with_def\<close>)

lemma close_touches:
  assumes ok: "service_ok env sv"
  shows "outcome (\<lambda>sv' _. touches_with sv (has_role sv sid prin ''owner'') sv') (close_session env sv sid prin)"
proof (cases "get_authoritative sv sid")
  case (Inr s)
  have "''owner'' \<in> snd ` set (ds_acl s)"
    using service_ok_get(3) [OF ok Inr] by (simp add: session_wf_def)
  then show ?thesis
    unfolding close_session_def Let_def Inr attempt_simps touches_with_def
    by (intro outcome_intros)
      (use all_evolve_refl [OF ok] all_evolve_del [OF ok] in \<open>auto simp: require_role_iff\<close>)
qed (use all_evolve_refl [OF ok] in \<open>simp add: close_session_def outcome_def touches_with_def\<close>)

lemma bind_touches:
  assumes ok: "service_ok env sv"
  shows "outcome (\<lambda>sv' _. touches_with sv (has_role sv sid prin ''viewer'') sv') (bind_actor env sv sid actor prin)"
proof (cases "get_authoritative sv sid")
  case (Inr s)
  have bind: "all_evolve sv (fst (do_bind_actor env sv s actor prin))"
    if "\<not> dict_mem actor (ds_actor_bindings s)"
    using bind_evolves [OF ok Inr, of actor prin] that by (simp add: dict_mem_def)
  show ?thesis
    unfolding bind_actor_def Inr attempt_simps touches_with_def outcome_fst
    by (auto simp: attempt_def require_role_iff all_evolve_refl [OF ok] bind split: sum.splits)
qed (use all_evolve_refl [OF ok] in \<open>simp add: bind_actor_def outcome_def touches_with_def\<close>)

lemma create_touches:
  assumes ok: "service_ok env sv" and fresh: "map_of (sv_sessions sv) i = None"
  shows "outcome (\<lambda>sv' _. touches_with sv True sv') (create_session env sv i now scope doc v kind prin)"
proof -
  have "all_evolve sv (put_authoritative (new_session i now scope doc w kind prin) sv)" for w
    by (rule all_evolve_create [OF ok]) (simp add: fresh)
  then show ?thesis
    unfolding create_session_def Let_def touches_with_def
    by (intro outcome_intros) (use all_evolve_refl [OF ok] in auto)
qed

lemma command_touches:
  assumes "service_ok env sv" and "fresh_command sv c"
  shows "touches_with sv (case needed_role c of None \<Rightarrow> True | Some (sid, p, m) \<Rightarrow> has_role sv sid p m)
    (fst (run_command env sv c))"
  using assms append_touches checkpoint_touches acl_touches close_touches bind_touches create_touches
  by (cases c) (simp_all add: fresh_command_def)

text \<open>
  C21: While a session lives its history is append-only: a command never lowers a revision, never
  changes or reorders an operation both logs cover, and never moves an actor to another
  principal.
\<close>
theorem session_history_is_append_only:
  assumes "service_ok env sv" and "fresh_command sv c"
    and "map_of (sv_sessions sv) sid = Some s"
    and "map_of (sv_sessions (fst (run_command env sv c))) sid = Some t"
  shows "evolves s t"
  using command_touches [OF assms(1,2)] assms(3,4) by (auto simp: touches_with_def all_evolve_def)

theorem session_history_is_append_only_witness:
  "evolves (the (map_of (sv_sessions (snd (sample_state 4))) ''s1''))
     (the (map_of (sv_sessions (fst (run_command (fst (sample_state 4)) (snd (sample_state 4))
        (Checkpoint ''s1'' 1 (PList []) ''ann'')))) ''s1''))"
proof (rule session_history_is_append_only [OF sample_state_ok])
  show "fresh_command (snd (sample_state 4)) (Checkpoint ''s1'' 1 (PList []) ''ann'')"
    by (simp add: fresh_command_def)
  have "map_of (sv_sessions (snd (sample_state 4))) ''s1'' \<noteq> None" by code_simp
  then show "map_of (sv_sessions (snd (sample_state 4))) ''s1'' =
      Some (the (map_of (sv_sessions (snd (sample_state 4))) ''s1''))" by simp
  have "map_of (sv_sessions (fst (run_command (fst (sample_state 4)) (snd (sample_state 4))
      (Checkpoint ''s1'' 1 (PList []) ''ann'')))) ''s1'' \<noteq> None" by code_simp
  then show "map_of (sv_sessions (fst (run_command (fst (sample_state 4)) (snd (sample_state 4))
      (Checkpoint ''s1'' 1 (PList []) ''ann'')))) ''s1'' =
    Some (the (map_of (sv_sessions (fst (run_command (fst (sample_state 4)) (snd (sample_state 4))
      (Checkpoint ''s1'' 1 (PList []) ''ann'')))) ''s1''))" by simp
qed

text \<open>
  C22: A command that changes anything was issued by a principal whose role in that session ranks
  high enough: an editor for operations and checkpoints, an owner for the access list and for
  closing, a viewer for presence. In particular a banned principal changes nothing.
\<close>
theorem changes_are_authorized:
  assumes "service_ok env sv" and "fresh_command sv c"
    and "fst (run_command env sv c) \<noteq> sv" and "needed_role c = Some (sid, prin, minimum)"
  shows "has_role sv sid prin minimum"
  using command_touches [OF assms(1,2)] assms(3,4) by (auto simp: touches_with_def)

theorem changes_are_authorized_witness:
  "has_role (snd (sample_state 4)) ''s1'' ''ann'' ''editor''"
proof (rule changes_are_authorized [OF sample_state_ok])
  let ?c = "Checkpoint ''s1'' 1 (PList []) ''ann''"
  let ?sv = "snd (sample_state 4)" and ?sv' = "fst (run_command (fst (sample_state 4)) (snd (sample_state 4)) ?c)"
  show "fresh_command ?sv ?c" by (simp add: fresh_command_def)
  show "needed_role ?c = Some (''s1'', ''ann'', ''editor'')" by simp
  have "ds_snapshot_revision (the (map_of (sv_sessions ?sv) ''s1'')) = 0" by code_simp
  moreover have "ds_snapshot_revision (the (map_of (sv_sessions ?sv') ''s1'')) = 1" by code_simp
  ultimately show "?sv' \<noteq> ?sv" by auto
qed

section \<open>The boundary\<close>

text \<open>
  A request body is accepted as a patch exactly when it is a non-empty array of objects
  whose \<^verbatim>\<open>op\<close> is add, remove or replace, whose \<^verbatim>\<open>path\<close> is an array of strings and integers
  (booleans are not integers) and which carry a \<^verbatim>\<open>value\<close> when the operation needs one.
\<close>
theorem patch_accepted_iff:
  "validate_patch p = Inr None \<longleftrightarrow> (\<exists>xs. p = PList xs \<and> xs \<noteq> [] \<and> list_all patch_entry_ok xs)"
  by (cases p) (auto simp: patch_entries_problem_None)

text \<open>
  The validator, which promises an error message or nothing, raises instead when an entry's
  \<^verbatim>\<open>op\<close> is an array or an object and every entry before it is well formed: testing membership in a
  frozen set hashes the operand.
\<close>
theorem patch_op_unhashable_raises:
  assumes "list_all patch_entry_ok xs" and "py_get entry ''op'' = PList ys \<or> py_get entry ''op'' = PDict kvs"
  shows "validate_patch (PList (xs @ PDict entry # rest)) = Inl UnhashableOp"
proof -
  have "patch_entry_problem i entry = Inl UnhashableOp" for i
    using assms(2) by (auto simp: patch_entry_problem_def)
  moreover have "list_all patch_entry_ok xs \<Longrightarrow>
      patch_entries_problem i (xs @ ys) = patch_entries_problem (i + length xs) ys" for i xs ys
  proof (induction xs arbitrary: i)
    case (Cons x xs)
    then obtain e where "x = PDict e" by (cases x) (auto simp: patch_entry_ok_def)
    with Cons patch_entry_problem_None [of i e] show ?case by simp
  qed simp
  ultimately show ?thesis using assms(1) by simp
qed

theorem patch_op_unhashable_raises_witness:
  "validate_patch (PList [PDict [(PStr ''op'', PList [])]]) = Inl UnhashableOp"
  using patch_op_unhashable_raises [of "[]" "[(PStr ''op'', PList [])]" "[]" "[]" "[]"]
  by (simp add: py_get_def)

end
