(* ===== verification/Pins.thy ===== *)
theory Pins
  imports Prelude
begin

text \<open>
  Liveness of resource references held by running workflows (\<^verbatim>\<open>dinkster_values/pins.py\<close>) and
  the gate that release passes through: every registry condemns the resource, or none does.
\<close>

section \<open>The registry\<close>

record pins =
  pn_counts :: "(string, int) dict"
  pn_condemned :: "string set"

definition no_pins :: pins where
  "no_pins = \<lparr>pn_counts = [], pn_condemned = {}\<rparr>"

definition pin :: "pins \<Rightarrow> string \<Rightarrow> pins \<times> bool" where
  "pin p r =
     (if r \<in> pn_condemned p then (p, False)
      else (p\<lparr>pn_counts := dict_set r (dict_get_default (pn_counts p) r 0 + 1) (pn_counts p)\<rparr>, True))"

definition unpin :: "pins \<Rightarrow> string \<Rightarrow> pins" where
  "unpin p r =
     (let count = dict_get_default (pn_counts p) r 0 in
      if count \<le> 1 then p\<lparr>pn_counts := dict_del r (pn_counts p)\<rparr>
      else p\<lparr>pn_counts := dict_set r (count - 1) (pn_counts p)\<rparr>)"

definition pinned :: "pins \<Rightarrow> string \<Rightarrow> bool" where
  "pinned p r \<longleftrightarrow> 0 < dict_get_default (pn_counts p) r 0"

definition condemn :: "pins \<Rightarrow> string \<Rightarrow> pins \<times> bool" where
  "condemn p r =
     (if pinned p r \<or> r \<in> pn_condemned p then (p, False)
      else (p\<lparr>pn_condemned := insert r (pn_condemned p)\<rparr>, True))"

definition absolve :: "pins \<Rightarrow> string \<Rightarrow> pins" where
  "absolve p r = p\<lparr>pn_condemned := pn_condemned p - {r}\<rparr>"

definition condemned :: "pins \<Rightarrow> string \<Rightarrow> bool" where
  "condemned p r \<longleftrightarrow> r \<in> pn_condemned p"

section \<open>The release gate\<close>

text \<open>
  What \<^verbatim>\<open>_release_entry\<close> does with the registries of the engines it serves: condemn in each in
  turn; at the first refusal absolve the ones that accepted and give up.
\<close>

fun condemn_each :: "('g \<Rightarrow> string \<Rightarrow> 'g \<times> bool) \<Rightarrow> ('g \<Rightarrow> string \<Rightarrow> 'g) \<Rightarrow>
    string \<Rightarrow> 'g list \<Rightarrow> 'g list \<Rightarrow> 'g list \<times> bool" where
  "condemn_each con absol r accepted [] = (accepted, True)"
| "condemn_each con absol r accepted (g # gs) =
     (case con g r of
        (g', True) \<Rightarrow> condemn_each con absol r (accepted @ [g']) gs
      | (g', False) \<Rightarrow> (map (\<lambda>a. absol a r) accepted @ g' # gs, False))"

text \<open>
  A gate: condemning succeeds only on a resource nobody holds and closes it to new holders,
  a refusal changes nothing, and absolving undoes a condemnation.
\<close>

locale release_gate =
  fixes con :: "'g \<Rightarrow> string \<Rightarrow> 'g \<times> bool"
    and absol :: "'g \<Rightarrow> string \<Rightarrow> 'g"
    and held :: "'g \<Rightarrow> string \<Rightarrow> bool"
    and closed :: "'g \<Rightarrow> string \<Rightarrow> bool"
  assumes con_True: "con g r = (g', True) \<Longrightarrow> \<not> held g r \<and> \<not> held g' r \<and> closed g' r"
    and con_False: "con g r = (g', False) \<Longrightarrow> g' = g \<and> (held g r \<or> closed g r)"
    and abs_con: "con g r = (g', True) \<Longrightarrow> absol g' r = g"
begin

lemma condemn_each_refused:
  assumes "condemn_each con absol r acc gs = (hs, False)" and "list_all2 (\<lambda>g a. con g r = (a, True)) gs0 acc"
  shows "hs = gs0 @ gs"
  using assms
proof (induction gs arbitrary: acc gs0)
  case (Cons g gs)
  obtain g' ok where g: "con g r = (g', ok)" by (cases "con g r")
  show ?case
  proof (cases ok)
    case True
    with Cons.prems g have "list_all2 (\<lambda>g a. con g r = (a, True)) (gs0 @ [g]) (acc @ [g'])"
      by (simp add: list_all2_appendI)
    with Cons.IH [of "acc @ [g']" "gs0 @ [g]"] Cons.prems(1) g True show ?thesis by simp
  next
    case False
    have "map (\<lambda>a. absol a r) acc = gs0"
      using Cons.prems(2) by (induction rule: list_all2_induct) (simp_all add: abs_con)
    with Cons.prems(1) g False con_False [of g r g'] show ?thesis by auto
  qed
qed simp

lemma condemn_each_accepted:
  assumes "condemn_each con absol r acc gs = (hs, True)"
  shows "\<exists>bs. hs = acc @ bs \<and> list_all2 (\<lambda>g a. con g r = (a, True)) gs bs"
  using assms
proof (induction gs arbitrary: acc)
  case (Cons g gs)
  obtain g' ok where g: "con g r = (g', ok)" by (cases "con g r")
  with Cons.prems have "ok" by (cases ok) auto
  with Cons.prems g have "condemn_each con absol r (acc @ [g']) gs = (hs, True)" by simp
  from Cons.IH [OF this] obtain bs where
    "hs = acc @ g' # bs" "list_all2 (\<lambda>g a. con g r = (a, True)) gs bs" by auto
  with g \<open>ok\<close> show ?case by auto
qed simp

lemma all_or_nothing:
  assumes "condemn_each con absol r [] gs = (hs, ok)"
  shows "if ok then list_all (\<lambda>h. closed h r \<and> \<not> held h r) hs \<and> map (\<lambda>h. absol h r) hs = gs else hs = gs"
proof (cases ok)
  case True
  with condemn_each_accepted [of r "[]" gs hs] assms
  have "list_all2 (\<lambda>g a. con g r = (a, True)) gs hs" by simp
  then have "list_all (\<lambda>h. closed h r \<and> \<not> held h r) hs \<and> map (\<lambda>h. absol h r) hs = gs"
    by (induction rule: list_all2_induct) (auto simp: abs_con dest: con_True)
  with True show ?thesis by simp
next
  case False
  with condemn_each_refused [of r "[]" gs hs "[]"] assms show ?thesis by simp
qed

lemma refused_is_held:
  assumes "condemn_each con absol r acc gs = (hs, False)"
  shows "\<exists>g \<in> set gs. held g r \<or> closed g r"
  using assms
proof (induction gs arbitrary: acc)
  case (Cons g gs)
  obtain g' ok where g: "con g r = (g', ok)" by (cases "con g r")
  show ?case
  proof (cases ok)
    case True
    with Cons.IH [of "acc @ [g']"] Cons.prems g show ?thesis by auto
  next
    case False
    with con_False [of g r g'] g show ?thesis by auto
  qed
qed simp

end

interpretation pin_gate: release_gate condemn absolve pinned condemned
  by unfold_locales
    (auto simp: condemn_def absolve_def pinned_def condemned_def split: if_splits)

section \<open>Histories of a registry\<close>

datatype pin_event = Pin string | Unpin string | Condemn string | Absolve string

fun run_pin :: "pins \<Rightarrow> pin_event \<Rightarrow> pins" where
  "run_pin p (Pin r) = fst (pin p r)"
| "run_pin p (Unpin r) = unpin p r"
| "run_pin p (Condemn r) = fst (condemn p r)"
| "run_pin p (Absolve r) = absolve p r"

definition pins_ok :: "pins \<Rightarrow> bool" where
  "pins_ok p \<longleftrightarrow>
     dict_ok (pn_counts p) \<and> (\<forall>r c. map_of (pn_counts p) r = Some c \<longrightarrow> 0 < c) \<and>
     (\<forall>r. \<not> (pinned p r \<and> condemned p r))"

lemma pins_ok_event:
  assumes "pins_ok p"
  shows "pins_ok (run_pin p e)"
proof -
  have nonneg: "0 \<le> dict_get_default (pn_counts p) r 0" for r
    using assms by (force simp: pins_ok_def dict_get_default_def split: option.splits)
  then have "0 < dict_get_default (pn_counts p) r 0 + 1" for r
    using nonneg [of r] by simp
  with assms show ?thesis
    by (cases e) (auto simp: pins_ok_def pin_def unpin_def condemn_def absolve_def pinned_def
        condemned_def Let_def split: if_splits)
qed

lemma pins_ok_events: "pins_ok p \<Longrightarrow> pins_ok (foldl run_pin p es)"
  by (induction es arbitrary: p) (simp_all add: pins_ok_event)

lemma tombstone_event: "condemned p r \<Longrightarrow> Absolve r \<noteq> e \<Longrightarrow> condemned (run_pin p e) r"
  by (cases e) (auto simp: condemned_def pin_def unpin_def condemn_def absolve_def Let_def)

lemma tombstone_events:
  "condemned p r \<Longrightarrow> Absolve r \<notin> set es \<Longrightarrow> condemned (foldl run_pin p es) r"
  by (induction es arbitrary: p) (simp_all add: tombstone_event)

section \<open>Properties\<close>

text \<open>
  In every history of a registry no resource is pinned and condemned at once; a condemned
  resource refuses every pin, and stays condemned until it is absolved.
\<close>
theorem pins_are_exclusive:
  "let p = foldl run_pin no_pins es in
     \<not> (pinned p r \<and> condemned p r) \<and>
     (condemned p r \<longrightarrow> pin p r = (p, False) \<and> condemn p r = (p, False) \<and>
       (\<forall>more. Absolve r \<notin> set more \<longrightarrow>
          condemned (foldl run_pin p more) r \<and> \<not> snd (pin (foldl run_pin p more) r)))"
proof -
  have "pins_ok no_pins" by (simp add: pins_ok_def no_pins_def pinned_def)
  then have "pins_ok (foldl run_pin no_pins es)" by (rule pins_ok_events)
  then show ?thesis
    using tombstone_events [of "foldl run_pin no_pins es" r]
    by (auto simp: Let_def pins_ok_def pin_def condemn_def condemned_def)
qed

theorem pins_are_exclusive_witness:
  "let p = foldl run_pin no_pins [Pin ''a'', Unpin ''a'', Condemn ''a''] in
     condemned p ''a'' \<and> \<not> pinned p ''a'' \<and> \<not> snd (pin (foldl run_pin p [Unpin ''a'', Pin ''b'']) ''a'')"
  using pins_are_exclusive [of "[Pin ''a'', Unpin ''a'', Condemn ''a'']" "''a''"]
  by (simp add: Let_def no_pins_def pin_def unpin_def condemn_def condemned_def pinned_def)

text \<open>
  Releasing a resource past several engines is all or nothing: either every registry has
  condemned it and none has it pinned (and absolving them all restores each exactly), or every
  registry is exactly as it was and some registry pins it or was already releasing it.
\<close>
theorem release_gate_is_atomic:
  assumes "condemn_each condemn absolve r [] gs = (hs, ok)"
  shows "if ok then list_all (\<lambda>h. condemned h r \<and> \<not> pinned h r) hs \<and> map (\<lambda>h. absolve h r) hs = gs
         else hs = gs \<and> (\<exists>g \<in> set gs. pinned g r \<or> condemned g r)"
  using pin_gate.all_or_nothing [OF assms] pin_gate.refused_is_held [of r "[]" gs hs] assms
  by (cases ok) auto

theorem release_gate_is_atomic_witness:
  "snd (condemn_each condemn absolve ''a'' [] [no_pins, fst (pin no_pins ''a'')]) = False \<and>
   fst (condemn_each condemn absolve ''a'' [] [no_pins, fst (pin no_pins ''a'')]) =
     [no_pins, fst (pin no_pins ''a'')]"
proof -
  have no: "\<not> snd (condemn_each condemn absolve ''a'' [] [no_pins, fst (pin no_pins ''a'')])"
    by (simp add: no_pins_def pin_def condemn_def pinned_def)
  from release_gate_is_atomic
    [of "''a''" "[no_pins, fst (pin no_pins ''a'')]"
      "fst (condemn_each condemn absolve ''a'' [] [no_pins, fst (pin no_pins ''a'')])" False]
  show ?thesis using no by (auto simp: prod_eq_iff)
qed

end
