(* ===== verification/Governor.thy ===== *)
theory Governor
  imports Prelude
begin

text \<open>
  The memory governor (\<^verbatim>\<open>dinkster_memory/governor.py\<close>): declared budgets, reservations and
  shedding. A governed consumer is known to it by its handle; what consumers hold is a world
  they share, read and changed through \<open>consumer_api\<close>. Times are not modelled: a deadline that
  has passed is a flag of the step that looks at the clock.
\<close>

section \<open>Consumers\<close>

record pressure =
  ps_device :: string
  ps_needed :: int
  ps_items :: "string list option"

text \<open>\<open>ca_shed\<close> answers \<open>None\<close> when the consumer raises; \<open>ca_detailed\<close> is the detail contract.\<close>

record ('w, 'h) consumer_api =
  ca_footprint :: "'w \<Rightarrow> 'h \<Rightarrow> string \<Rightarrow> int"
  ca_shed :: "'w \<Rightarrow> 'h \<Rightarrow> pressure \<Rightarrow> 'w \<times> int option"
  ca_detailed :: "'h \<Rightarrow> bool"

record 'h registered =
  rg_order :: nat
  rg_priority :: int
  rg_name :: string
  rg_shedder :: 'h

section \<open>State\<close>

record reservation =
  rv_id :: nat
  rv_device :: string
  rv_nbytes :: int

record 'h governor =
  gv_budgets :: "(string, int) dict"
  gv_reserved :: "(string, int) dict"
  gv_peaks :: "(string, int) dict"
  gv_reservations :: "(nat, reservation) dict"
  gv_shedders :: "'h registered list"
  gv_next_id :: nat
  gv_next_order :: nat

datatype gov_error =
    NegativeBudget string
  | NegativeReservation
  | BudgetExceeded int int string
  | ReservationTimeout
  | ItemsNeedOneConsumer
  | ConsumerFailed
  | Cancelled

definition new_governor :: "(string, int) dict \<Rightarrow> gov_error + 'h governor" where
  "new_governor budgets =
     (case filter (\<lambda>(d, n). n < 0) budgets of
        (d, _) # _ \<Rightarrow> Inl (NegativeBudget d)
      | [] \<Rightarrow> Inr \<lparr>gv_budgets = budgets, gv_reserved = [], gv_peaks = [], gv_reservations = [],
                   gv_shedders = [], gv_next_id = 1, gv_next_order = 0\<rparr>)"

definition set_budget :: "'h governor \<Rightarrow> string \<Rightarrow> int \<Rightarrow> gov_error + 'h governor" where
  "set_budget g d n =
     (if n < 0 then Inl (NegativeBudget d) else Inr (g\<lparr>gv_budgets := dict_set d n (gv_budgets g)\<rparr>))"

text \<open>Sorting by priority and then by registration, as the stable sort of the source does.\<close>

definition register_shedder :: "'h governor \<Rightarrow> 'h \<Rightarrow> int \<Rightarrow> string \<Rightarrow> 'h governor" where
  "register_shedder g h priority name =
     g\<lparr>gv_shedders :=
         sort_key rg_priority (sort_key rg_order
           (gv_shedders g @ [\<lparr>rg_order = gv_next_order g, rg_priority = priority,
                              rg_name = name, rg_shedder = h\<rparr>])),
       gv_next_order := gv_next_order g + 1\<rparr>"

definition unregister_shedder :: "'h governor \<Rightarrow> 'h \<Rightarrow> 'h governor" where
  "unregister_shedder g h = g\<lparr>gv_shedders := filter (\<lambda>r. rg_shedder r \<noteq> h) (gv_shedders g)\<rparr>"

section \<open>Accounting\<close>

definition reserved :: "'h governor \<Rightarrow> string \<Rightarrow> int" where
  "reserved g d = dict_get_default (gv_reserved g) d 0"

definition footprint :: "('w, 'h) consumer_api \<Rightarrow> 'h governor \<Rightarrow> 'w \<Rightarrow> string \<Rightarrow> int" where
  "footprint api g w d = sum_list (map (\<lambda>r. ca_footprint api w (rg_shedder r) d) (gv_shedders g))"

definition available :: "('w, 'h) consumer_api \<Rightarrow> 'h governor \<Rightarrow> 'w \<Rightarrow> string \<Rightarrow> int option" where
  "available api g w d =
     (case map_of (gv_budgets g) d of
        None \<Rightarrow> None
      | Some budget \<Rightarrow> Some (budget - reserved g d - footprint api g w d))"

text \<open>\<open>avail\<close> is the system's available memory, \<open>None\<close> when reading it raises.\<close>

definition live_ram_shortfall ::
    "('w, 'h) consumer_api \<Rightarrow> 'h governor \<Rightarrow> 'w \<Rightarrow> int option \<Rightarrow> string \<Rightarrow> int \<Rightarrow> int" where
  "live_ram_shortfall api g w avail d n =
     (if d \<noteq> ''ram'' \<or> n \<le> 0 \<or> gv_shedders g = [] then 0
      else if footprint api g w d \<le> 0 then 0
      else case avail of None \<Rightarrow> 0 | Some a \<Rightarrow> max 0 (n - a))"

section \<open>Shedding\<close>

fun shed_each :: "('w, 'h) consumer_api \<Rightarrow> string \<Rightarrow> string list option \<Rightarrow> string list option \<Rightarrow>
    'h registered list \<Rightarrow> int \<Rightarrow> int \<Rightarrow> 'w \<Rightarrow> 'w \<times> (gov_error + int)" where
  "shed_each api d consumers items [] remaining freed w = (w, Inr freed)"
| "shed_each api d consumers items (r # rs) remaining freed w =
     (if remaining \<le> 0 then (w, Inr freed)
      else if (case consumers of None \<Rightarrow> False | Some names \<Rightarrow> rg_name r \<notin> set names)
      then shed_each api d consumers items rs remaining freed w
      else if items \<noteq> None \<and> \<not> ca_detailed api (rg_shedder r)
      then shed_each api d consumers items rs remaining freed w
      else case ca_shed api w (rg_shedder r) \<lparr>ps_device = d, ps_needed = remaining, ps_items = items\<rparr> of
        (w', None) \<Rightarrow> (w', Inl ConsumerFailed)
      | (w', Some n) \<Rightarrow> shed_each api d consumers items rs (remaining - n) (freed + n) w')"

definition governor_shed :: "('w, 'h) consumer_api \<Rightarrow> 'h governor \<Rightarrow> string \<Rightarrow> int \<Rightarrow>
    string list option \<Rightarrow> string list option \<Rightarrow> 'w \<Rightarrow> 'w \<times> (gov_error + int)" where
  "governor_shed api g d n consumers items w =
     (if items \<noteq> None \<and> (case consumers of None \<Rightarrow> True | Some names \<Rightarrow> length names \<noteq> 1)
      then (w, Inl ItemsNeedOneConsumer)
      else shed_each api d consumers items (gv_shedders g) n 0 w)"

section \<open>Admission\<close>

definition fits :: "('w, 'h) consumer_api \<Rightarrow> 'h governor \<Rightarrow> 'w \<Rightarrow> string \<Rightarrow> int \<Rightarrow> int \<Rightarrow> bool" where
  "fits api g w d n budget \<longleftrightarrow> reserved g d + footprint api g w d + n \<le> budget"

definition record_reservation :: "'h governor \<Rightarrow> string \<Rightarrow> int \<Rightarrow> 'h governor \<times> reservation" where
  "record_reservation g d n =
     (let r = \<lparr>rv_id = gv_next_id g, rv_device = d, rv_nbytes = n\<rparr> in
      (g\<lparr>gv_reservations := dict_set (rv_id r) r (gv_reservations g),
         gv_reserved := dict_set d (reserved g d + n) (gv_reserved g),
         gv_next_id := gv_next_id g + 1\<rparr>, r))"

text \<open>The second component says whether the reservation was still there, so waiters are notified.\<close>

definition release_reservation :: "'h governor \<Rightarrow> reservation \<Rightarrow> 'h governor \<times> bool" where
  "release_reservation g r =
     (if \<not> dict_mem (rv_id r) (gv_reservations g) then (g, False)
      else (g\<lparr>gv_reservations := dict_del (rv_id r) (gv_reservations g),
              gv_reserved := dict_set (rv_device r) (reserved g (rv_device r) - rv_nbytes r)
                               (gv_reserved g)\<rparr>, True))"

text \<open>
  The part of \<^verbatim>\<open>_admit\<close> that runs under the lock: refuse, shed outside the lock, grant, or wait.
  \<open>expired\<close>: the deadline has passed when the clock is read before waiting.
\<close>

datatype decision =
    Refused gov_error
  | ShedFirst int bool
  | Granted reservation
  | MustWait

definition admit_section :: "('w, 'h) consumer_api \<Rightarrow> 'h governor \<Rightarrow> 'w \<Rightarrow> string \<Rightarrow> int \<Rightarrow>
    bool \<Rightarrow> int \<Rightarrow> bool \<Rightarrow> 'h governor \<times> decision" where
  "admit_section api g w d n shed_attempted live_shortfall expired =
     (let budget = map_of (gv_budgets g) d;
          ok = (case budget of None \<Rightarrow> True | Some b \<Rightarrow> fits api g w d n b) in
      if (case budget of None \<Rightarrow> False | Some b \<Rightarrow> b < n)
      then (g, Refused (BudgetExceeded n (the budget) d))
      else if \<not> shed_attempted \<and> (0 < live_shortfall \<or> \<not> ok)
      then (case budget of
              Some b \<Rightarrow>
                if ok then (g, ShedFirst (max 0 live_shortfall) False)
                else (g, ShedFirst (max (reserved g d + footprint api g w d + n - b) live_shortfall) True)
            | None \<Rightarrow> (g, ShedFirst (max 0 live_shortfall) False))
      else if ok then (let (g', r) = record_reservation g d n in (g', Granted r))
      else if reserved g d = 0 then (g, Refused ReservationTimeout)
      else if expired then (g, Refused ReservationTimeout)
      else (g, MustWait))"

section \<open>Tasks\<close>

text \<open>
  Where a \<^verbatim>\<open>reserve\<close> call is: about to take the lock (with the local variables
  \<^verbatim>\<open>shed_attempted\<close> and \<^verbatim>\<open>live_shortfall\<close>), shedding outside it, waiting on the condition,
  notified but not yet running, inside the body of the context manager, or over.
\<close>

datatype pc =
    Idle
  | Checking bool int
  | Shedding int bool
  | Waiting int
  | Woken int
  | Holding reservation
  | Failed gov_error
  | Finished

record task =
  tk_device :: string
  tk_nbytes :: int
  tk_timed :: bool
  tk_pc :: pc

record ('w, 'h) gov_system =
  gs_gov :: "'h governor"
  gs_world :: 'w
  gs_tasks :: "task list"

definition begin_pc :: "('w, 'h) consumer_api \<Rightarrow> 'h governor \<Rightarrow> 'w \<Rightarrow> int option \<Rightarrow> task \<Rightarrow> pc" where
  "begin_pc api g w avail t =
     (if tk_nbytes t < 0 then Failed NegativeReservation
      else Checking False
        (if (case map_of (gv_budgets g) (tk_device t) of None \<Rightarrow> False | Some b \<Rightarrow> b < tk_nbytes t)
         then 0 else live_ram_shortfall api g w avail (tk_device t) (tk_nbytes t)))"

fun decided_pc :: "int \<Rightarrow> decision \<Rightarrow> pc" where
  "decided_pc live (Refused e) = Failed e"
| "decided_pc live (ShedFirst s b) = Shedding s b"
| "decided_pc live (Granted r) = Holding r"
| "decided_pc live MustWait = Waiting live"

definition shed_pc :: "bool \<Rightarrow> gov_error + int \<Rightarrow> pc" where
  "shed_pc budget_pressure r =
     (case r of
        Inl e \<Rightarrow> if budget_pressure then Failed e else Checking False 0
      | Inr _ \<Rightarrow> Checking budget_pressure 0)"

definition shed_expired_pc :: "bool \<Rightarrow> pc" where
  "shed_expired_pc budget_pressure = (if budget_pressure then Failed ReservationTimeout else Checking False 0)"

fun wake :: "task \<Rightarrow> task" where
  "wake t = (case tk_pc t of Waiting l \<Rightarrow> t\<lparr>tk_pc := Woken l\<rparr> | _ \<Rightarrow> t)"

abbreviation with_pc :: "('w, 'h) gov_system \<Rightarrow> nat \<Rightarrow> pc \<Rightarrow> ('w, 'h) gov_system" where
  "with_pc s i p \<equiv> s\<lparr>gs_tasks := (gs_tasks s)[i := (gs_tasks s ! i)\<lparr>tk_pc := p\<rparr>]\<rparr>"

text \<open>
  One step of the event loop. Between two steps of a task everything else may run: consumers
  change what they hold (\<open>World\<close>), budgets and consumers are reconfigured, other tasks move.
  \<^verbatim>\<open>_release\<close> runs without suspending: the lock is never held across a suspension.
\<close>

inductive gov_step :: "('w, 'h) consumer_api \<Rightarrow> ('w, 'h) gov_system \<Rightarrow> ('w, 'h) gov_system \<Rightarrow> bool"
  for api :: "('w, 'h) consumer_api" where
  Begin: "i < length (gs_tasks s) \<Longrightarrow> tk_pc (gs_tasks s ! i) = Idle \<Longrightarrow>
    gov_step api s (with_pc s i (begin_pc api (gs_gov s) (gs_world s) avail (gs_tasks s ! i)))"
| Check: "i < length (gs_tasks s) \<Longrightarrow> tk_pc (gs_tasks s ! i) = Checking attempted live \<Longrightarrow>
    (expired \<Longrightarrow> tk_timed (gs_tasks s ! i)) \<Longrightarrow>
    admit_section api (gs_gov s) (gs_world s) (tk_device (gs_tasks s ! i)) (tk_nbytes (gs_tasks s ! i))
      attempted live expired = (g', d) \<Longrightarrow>
    gov_step api s ((with_pc s i (decided_pc live d))\<lparr>gs_gov := g'\<rparr>)"
| Shed: "i < length (gs_tasks s) \<Longrightarrow> tk_pc (gs_tasks s ! i) = Shedding short pressed \<Longrightarrow>
    governor_shed api (gs_gov s) (tk_device (gs_tasks s ! i)) short None None (gs_world s) = (w', r) \<Longrightarrow>
    gov_step api s ((with_pc s i (shed_pc pressed r))\<lparr>gs_world := w'\<rparr>)"
| Shed_expired: "i < length (gs_tasks s) \<Longrightarrow> tk_pc (gs_tasks s ! i) = Shedding short pressed \<Longrightarrow>
    tk_timed (gs_tasks s ! i) \<Longrightarrow> gov_step api s (with_pc s i (shed_expired_pc pressed))"
| Wait_expired: "i < length (gs_tasks s) \<Longrightarrow> tk_pc (gs_tasks s ! i) = Waiting live \<Longrightarrow>
    tk_timed (gs_tasks s ! i) \<Longrightarrow> gov_step api s (with_pc s i (Failed ReservationTimeout))"
| Resume: "i < length (gs_tasks s) \<Longrightarrow> tk_pc (gs_tasks s ! i) = Woken live \<Longrightarrow>
    gov_step api s (with_pc s i (Checking False live))"
| Release: "i < length (gs_tasks s) \<Longrightarrow> tk_pc (gs_tasks s ! i) = Holding r \<Longrightarrow>
    release_reservation (gs_gov s) r = (g', notify) \<Longrightarrow>
    gov_step api s
      (s\<lparr>gs_gov := g',
         gs_tasks := (if notify then map wake (gs_tasks s) else gs_tasks s)
           [i := (gs_tasks s ! i)\<lparr>tk_pc := Finished\<rparr>]\<rparr>)"
| Cancel: "i < length (gs_tasks s) \<Longrightarrow> (\<forall>r. tk_pc (gs_tasks s ! i) \<noteq> Holding r) \<Longrightarrow>
    tk_pc (gs_tasks s ! i) \<noteq> Finished \<Longrightarrow> gov_step api s (with_pc s i (Failed Cancelled))"
| World: "gov_step api s (s\<lparr>gs_world := w'\<rparr>)"
| Budget: "set_budget (gs_gov s) d n = Inr g' \<Longrightarrow> gov_step api s (s\<lparr>gs_gov := g'\<rparr>)"
| Register: "gov_step api s (s\<lparr>gs_gov := register_shedder (gs_gov s) h priority name\<rparr>)"
| Unregister: "gov_step api s (s\<lparr>gs_gov := unregister_shedder (gs_gov s) h\<rparr>)"

inductive gov_reachable :: "('w, 'h) consumer_api \<Rightarrow> ('w, 'h) gov_system \<Rightarrow> bool"
  for api :: "('w, 'h) consumer_api" where
  Start: "new_governor budgets = Inr g \<Longrightarrow> list_all (\<lambda>t. tk_pc t = Idle) ts \<Longrightarrow>
    gov_reachable api \<lparr>gs_gov = g, gs_world = w, gs_tasks = ts\<rparr>"
| Step: "gov_reachable api s \<Longrightarrow> gov_step api s s' \<Longrightarrow> gov_reachable api s'"

inductive_cases gov_stepE: "gov_step api s s'"

section \<open>Accounting invariant\<close>

fun holding :: "pc \<Rightarrow> reservation option" where
  "holding (Holding r) = Some r"
| "holding _ = None"

definition held_by :: "string \<Rightarrow> task \<Rightarrow> int" where
  "held_by d t =
     (case holding (tk_pc t) of None \<Rightarrow> 0 | Some r \<Rightarrow> if rv_device r = d then rv_nbytes r else 0)"

definition held_bytes :: "task list \<Rightarrow> string \<Rightarrow> int" where
  "held_bytes ts d = sum_list (map (held_by d) ts)"

fun waiting :: "pc \<Rightarrow> bool" where
  "waiting (Waiting _) = True"
| "waiting _ = False"

fun active :: "pc \<Rightarrow> bool" where
  "active Idle = False"
| "active (Failed _) = False"
| "active _ = True"

definition accounts_ok :: "'h governor \<Rightarrow> task list \<Rightarrow> bool" where
  "accounts_ok g ts \<longleftrightarrow> (\<forall>d. reserved g d = held_bytes ts d)"

definition ids_ok :: "'h governor \<Rightarrow> bool" where
  "ids_ok g \<longleftrightarrow>
     dict_ok (gv_reservations g) \<and> (\<forall>k \<in> dom (map_of (gv_reservations g)). k < gv_next_id g)"

definition task_ok :: "'h governor \<Rightarrow> task \<Rightarrow> bool" where
  "task_ok g t \<longleftrightarrow>
     (active (tk_pc t) \<longrightarrow> 0 \<le> tk_nbytes t) \<and>
     (waiting (tk_pc t) \<longrightarrow> reserved g (tk_device t) \<noteq> 0) \<and>
     (\<forall>r. holding (tk_pc t) = Some r \<longrightarrow>
        map_of (gv_reservations g) (rv_id r) = Some r \<and>
        rv_device r = tk_device t \<and> rv_nbytes r = tk_nbytes t)"

definition holds_distinct :: "task list \<Rightarrow> bool" where
  "holds_distinct ts \<longleftrightarrow>
     (\<forall>i j r q. i < length ts \<longrightarrow> j < length ts \<longrightarrow> i \<noteq> j \<longrightarrow>
        holding (tk_pc (ts ! i)) = Some r \<longrightarrow> holding (tk_pc (ts ! j)) = Some q \<longrightarrow> rv_id r \<noteq> rv_id q)"

definition gov_inv :: "('w, 'h) gov_system \<Rightarrow> bool" where
  "gov_inv s \<longleftrightarrow>
     accounts_ok (gs_gov s) (gs_tasks s) \<and> ids_ok (gs_gov s) \<and>
     (\<forall>t \<in> set (gs_tasks s). task_ok (gs_gov s) t) \<and> holds_distinct (gs_tasks s)"

lemma holding_Some [simp]: "holding p = Some r \<longleftrightarrow> p = Holding r"
  by (cases p) auto

lemma held_by_nonneg:
  "(\<And>r. holding (tk_pc t) = Some r \<Longrightarrow> rv_nbytes r = tk_nbytes t) \<Longrightarrow>
     (active (tk_pc t) \<Longrightarrow> 0 \<le> tk_nbytes t) \<Longrightarrow> 0 \<le> held_by d t"
  by (cases "tk_pc t") (auto simp: held_by_def)

lemma task_ok_held_by: "task_ok g t \<Longrightarrow> 0 \<le> held_by d t"
  by (rule held_by_nonneg) (auto simp: task_ok_def)

lemma gov_inv_gov:
  assumes "gov_inv s" and "gv_reserved g' = gv_reserved (gs_gov s)"
    and "gv_reservations g' = gv_reservations (gs_gov s)" and "gv_next_id g' = gv_next_id (gs_gov s)"
  shows "gov_inv (s\<lparr>gs_gov := g'\<rparr>)"
proof -
  have r: "reserved g' = reserved (gs_gov s)" using assms(2) by (simp add: reserved_def fun_eq_iff)
  have "task_ok g' = task_ok (gs_gov s)" using assms(3) by (simp add: task_ok_def r fun_eq_iff)
  moreover have "accounts_ok g' = accounts_ok (gs_gov s)" by (simp add: accounts_ok_def r fun_eq_iff)
  moreover have "ids_ok g' = ids_ok (gs_gov s)" using assms(3,4) by (simp add: ids_ok_def)
  ultimately show ?thesis using assms(1) by (simp add: gov_inv_def)
qed

lemma gov_inv_world: "gov_inv s \<Longrightarrow> gov_inv (s\<lparr>gs_world := w\<rparr>)"
  by (simp add: gov_inv_def)

lemma set_update_cases: "x \<in> set (xs[i := y]) \<Longrightarrow> x = y \<or> x \<in> set xs"
  using set_update_subset_insert by fast

lemma holds_distinct_update:
  assumes "holds_distinct ts"
    and "\<And>r j q. holding (tk_pc t) = Some r \<Longrightarrow> j < length ts \<Longrightarrow> j \<noteq> i \<Longrightarrow>
      holding (tk_pc (ts ! j)) = Some q \<Longrightarrow> rv_id r \<noteq> rv_id q"
  shows "holds_distinct (ts[i := t])"
  unfolding holds_distinct_def
proof (intro allI impI)
  fix j k r q
  assume "j < length (ts[i := t])" "k < length (ts[i := t])" and jk: "j \<noteq> k"
    and r: "holding (tk_pc (ts[i := t] ! j)) = Some r" and q: "holding (tk_pc (ts[i := t] ! k)) = Some q"
  then have l: "j < length ts" "k < length ts" by simp_all
  consider "j = i" | "k = i" | "j \<noteq> i" "k \<noteq> i" by blast
  then show "rv_id r \<noteq> rv_id q"
  proof cases
    case 1
    with assms(2) [of r k q] r q l jk show ?thesis by simp
  next
    case 2
    with assms(2) [of q j r] r q l jk show ?thesis by simp
  next
    case 3
    with assms(1) r q l jk show ?thesis by (simp add: holds_distinct_def)
  qed
qed

lemma held_bytes_update:
  "i < length ts \<Longrightarrow> held_bytes (ts[i := t]) d = held_bytes ts d - held_by d (ts ! i) + held_by d t"
  by (simp add: held_bytes_def sum_list_map_update)

lemma held_by_none: "holding (tk_pc t) = None \<Longrightarrow> held_by d t = 0"
  by (simp add: held_by_def)

lemma gov_inv_with_pc:
  assumes inv: "gov_inv s" and i: "i < length (gs_tasks s)"
    and old: "holding (tk_pc (gs_tasks s ! i)) = None" and new: "holding p = None"
    and "active p \<Longrightarrow> 0 \<le> tk_nbytes (gs_tasks s ! i)"
    and "waiting p \<Longrightarrow> reserved (gs_gov s) (tk_device (gs_tasks s ! i)) \<noteq> 0"
  shows "gov_inv (with_pc s i p)"
proof -
  let ?t = "(gs_tasks s ! i)\<lparr>tk_pc := p\<rparr>"
  have "held_bytes ((gs_tasks s)[i := ?t]) d = held_bytes (gs_tasks s) d" for d
    using old new by (simp add: held_bytes_update [OF i] held_by_none)
  then have "accounts_ok (gs_gov s) ((gs_tasks s)[i := ?t])"
    using inv by (simp add: gov_inv_def accounts_ok_def)
  moreover have "task_ok (gs_gov s) ?t" using assms(4-6) by (simp add: task_ok_def)
  then have "\<forall>t \<in> set ((gs_tasks s)[i := ?t]). task_ok (gs_gov s) t"
    using inv by (auto simp: gov_inv_def dest!: set_update_cases)
  moreover have "holds_distinct ((gs_tasks s)[i := ?t])"
    using inv new by (intro holds_distinct_update) (simp_all add: gov_inv_def)
  ultimately show ?thesis using inv by (simp add: gov_inv_def)
qed

lemma reserved_nonneg:
  assumes "gov_inv s"
  shows "0 \<le> reserved (gs_gov s) d"
proof -
  have "0 \<le> held_by d t" if "t \<in> set (gs_tasks s)" for t
    using assms that task_ok_held_by by (auto simp: gov_inv_def)
  then have "0 \<le> held_bytes (gs_tasks s) d" unfolding held_bytes_def by (intro sum_list_nonneg) auto
  with assms show ?thesis by (simp add: gov_inv_def accounts_ok_def)
qed

lemma admit_section_cases:
  assumes "admit_section api g w d n attempted live expired = (g', dec)"
  shows "case dec of
      Granted r \<Rightarrow> (g', r) = record_reservation g d n \<and>
        (case map_of (gv_budgets g) d of None \<Rightarrow> True | Some b \<Rightarrow> fits api g w d n b)
    | MustWait \<Rightarrow> g' = g \<and> reserved g d \<noteq> 0
    | _ \<Rightarrow> g' = g"
  using assms by (auto simp: admit_section_def Let_def split: if_splits option.splits prod.splits)

lemma record_simps:
  assumes "record_reservation g d n = (g', r)"
  shows "r = \<lparr>rv_id = gv_next_id g, rv_device = d, rv_nbytes = n\<rparr>"
    and "reserved g' k = (if k = d then reserved g d + n else reserved g k)"
    and "gv_reservations g' = dict_set (gv_next_id g) r (gv_reservations g)"
    and "gv_next_id g' = gv_next_id g + 1" and "gv_budgets g' = gv_budgets g"
    and "gv_shedders g' = gv_shedders g"
  using assms by (auto simp: record_reservation_def Let_def reserved_def)

lemma gov_inv_grant:
  assumes inv: "gov_inv s" and i: "i < length (gs_tasks s)"
    and t: "t = gs_tasks s ! i" and pc: "holding (tk_pc t) = None" "active (tk_pc t)"
    and rec: "record_reservation (gs_gov s) (tk_device t) (tk_nbytes t) = (g', r)"
  shows "gov_inv ((with_pc s i (Holding r))\<lparr>gs_gov := g'\<rparr>)"
proof -
  note g' = record_simps [OF rec]
  let ?g = "gs_gov s" and ?ts = "gs_tasks s" and ?t = "t\<lparr>tk_pc := Holding r\<rparr>"
  have t_ok: "task_ok ?g t" using inv i by (simp add: gov_inv_def t)
  then have n: "0 \<le> tk_nbytes t" using pc by (simp add: task_ok_def)
  have ids: "dict_ok (gv_reservations ?g)" "k \<in> dom (map_of (gv_reservations ?g)) \<Longrightarrow> k < gv_next_id ?g" for k
    using inv by (auto simp: gov_inv_def ids_ok_def)
  have fresh: "map_of (gv_reservations ?g) (gv_next_id ?g) = None" using ids(2) by fastforce
  have "held_bytes (?ts[i := ?t]) k = held_bytes ?ts k + (if k = tk_device t then tk_nbytes t else 0)" for k
    using pc(1) by (simp add: held_bytes_update [OF i] t [symmetric] held_by_none) (simp add: held_by_def g'(1))
  then have "accounts_ok g' (?ts[i := ?t])"
    using inv by (simp add: gov_inv_def accounts_ok_def g'(2))
  moreover have "ids_ok g'"
    using ids by (auto simp: ids_ok_def g'(3,4) less_Suc_eq)
  moreover have "task_ok g' x" if "x \<in> set (?ts[i := ?t])" for x
  proof (cases "x = ?t")
    case True
    then show ?thesis using n by (simp add: task_ok_def g'(1,3))
  next
    case False
    with that have x: "task_ok ?g x" using inv set_update_cases by (fastforce simp: gov_inv_def)
    have "reserved g' (tk_device x) \<noteq> 0" if "reserved ?g (tk_device x) \<noteq> 0"
      using that n reserved_nonneg [OF inv, of "tk_device x"] by (auto simp: g'(2))
    with x fresh show ?thesis by (auto simp: task_ok_def g'(3))
  qed
  moreover have "holds_distinct (?ts[i := ?t])"
  proof (rule holds_distinct_update)
    show "holds_distinct ?ts" using inv by (simp add: gov_inv_def)
    fix a j q
    assume "holding (tk_pc ?t) = Some a" "j < length ?ts" "holding (tk_pc (?ts ! j)) = Some q"
    moreover from this have "map_of (gv_reservations ?g) (rv_id q) = Some q"
      using inv by (auto simp: gov_inv_def task_ok_def)
    ultimately show "rv_id a \<noteq> rv_id q" using fresh by (auto simp: g'(1))
  qed
  ultimately show ?thesis by (simp add: gov_inv_def t)
qed

lemma wake_simps [simp]:
  "tk_device (wake t) = tk_device t" "tk_nbytes (wake t) = tk_nbytes t" "tk_timed (wake t) = tk_timed t"
  "holding (tk_pc (wake t)) = holding (tk_pc t)" "\<not> waiting (tk_pc (wake t))"
  "active (tk_pc (wake t)) = active (tk_pc t)" "held_by d (wake t) = held_by d t"
  by (cases "tk_pc t"; simp add: held_by_def)+

lemma wake_holding [simp]: "tk_pc (wake t) = Holding r \<longleftrightarrow> tk_pc t = Holding r"
  by (cases "tk_pc t") simp_all

declare wake.simps [simp del]

lemma held_bytes_nonzero: "held_bytes ts d \<noteq> 0 \<Longrightarrow> \<exists>t \<in> set ts. held_by d t \<noteq> 0"
  unfolding held_bytes_def by (induction ts) auto

lemma gov_inv_release:
  assumes inv: "gov_inv s" and i: "i < length (gs_tasks s)"
    and t: "t = gs_tasks s ! i" and pc: "tk_pc t = Holding r"
    and rel: "release_reservation (gs_gov s) r = (g', notify)"
  shows "gov_inv (s\<lparr>gs_gov := g', gs_tasks := (if notify then map wake (gs_tasks s) else gs_tasks s)
    [i := t\<lparr>tk_pc := Finished\<rparr>]\<rparr>)" and "notify"
proof -
  let ?g = "gs_gov s" and ?ts = "gs_tasks s" and ?t = "t\<lparr>tk_pc := Finished\<rparr>"
  have t_ok: "task_ok ?g t" using inv i by (simp add: gov_inv_def t)
  then have r: "map_of (gv_reservations ?g) (rv_id r) = Some r" using pc by (simp add: task_ok_def)
  then show notify: "notify" using rel by (auto simp: release_reservation_def dict_mem_def)
  have g': "gv_reservations g' = dict_del (rv_id r) (gv_reservations ?g)" "gv_next_id g' = gv_next_id ?g"
    "reserved g' k = (if k = rv_device r then reserved ?g k - rv_nbytes r else reserved ?g k)" for k
    using rel r by (auto simp: release_reservation_def dict_mem_def reserved_def)
  have "held_bytes (map wake ?ts) k = held_bytes ?ts k" for k by (simp add: held_bytes_def comp_def)
  then have "held_bytes ((map wake ?ts)[i := ?t]) k = held_bytes ?ts k - held_by k t" for k
    using i by (simp add: held_bytes_update t [symmetric]) (simp add: held_by_def)
  then have "accounts_ok g' ((map wake ?ts)[i := ?t])"
    using inv pc by (simp add: gov_inv_def accounts_ok_def g'(3) held_by_def)
  moreover have "ids_ok g'" using inv by (auto simp: gov_inv_def ids_ok_def g'(1,2))
  moreover have "holds_distinct ((map wake ?ts)[i := ?t])"
    using inv by (intro holds_distinct_update) (simp_all add: gov_inv_def holds_distinct_def)
  moreover have "task_ok g' x" if x: "x \<in> set ((map wake ?ts)[i := ?t])" for x
  proof -
    obtain j where j: "j < length ?ts" "x = (map wake ?ts)[i := ?t] ! j"
      using x by (auto simp: in_set_conv_nth)
    show ?thesis
    proof (cases "j = i")
      case True
      then show ?thesis using j t_ok pc by (simp add: task_ok_def)
    next
      case False
      then have woken: "x = wake (?ts ! j)" using j by simp
      have "task_ok ?g (?ts ! j)" using inv j by (simp add: gov_inv_def)
      moreover have "rv_id q \<noteq> rv_id r" if "holding (tk_pc (?ts ! j)) = Some q" for q
        using inv j i False that pc t by (fastforce simp: gov_inv_def holds_distinct_def)
      ultimately show ?thesis using woken by (auto simp: task_ok_def g'(1))
    qed
  qed
  ultimately show "gov_inv (s\<lparr>gs_gov := g', gs_tasks := (if notify then map wake (gs_tasks s) else gs_tasks s)
    [i := t\<lparr>tk_pc := Finished\<rparr>]\<rparr>)" using notify by (simp add: gov_inv_def)
qed

lemma gov_inv_step:
  assumes "gov_step api s s'" and inv: "gov_inv s"
  shows "gov_inv s'"
  using assms(1)
proof cases
  case (Begin i avail)
  then show ?thesis
    using inv by (auto simp: begin_pc_def intro!: gov_inv_with_pc)
next
  case (Check i attempted live expired g' d)
  let ?t = "gs_tasks s ! i"
  have n: "0 \<le> tk_nbytes ?t" using inv Check(2,3) by (auto simp: gov_inv_def task_ok_def)
  note d = admit_section_cases [OF Check(5)]
  show ?thesis
  proof (cases d)
    case (Granted r)
    with d have "record_reservation (gs_gov s) (tk_device ?t) (tk_nbytes ?t) = (g', r)" by simp
    from gov_inv_grant [OF inv Check(2) refl _ _ this] show ?thesis
      using Check(1,3) Granted by simp
  next
    case MustWait
    with d have "g' = gs_gov s" "reserved (gs_gov s) (tk_device ?t) \<noteq> 0" by simp_all
    then show ?thesis
      using inv Check(1,2,3) MustWait n by (auto intro!: gov_inv_with_pc)
  qed (use d inv Check(1,2,3) n in \<open>auto intro!: gov_inv_with_pc\<close>)
next
  case (Shed i short pressed w' r)
  have n: "0 \<le> tk_nbytes (gs_tasks s ! i)" using inv Shed(2,3) by (auto simp: gov_inv_def task_ok_def)
  have "gov_inv (with_pc s i (shed_pc pressed r))"
    using inv Shed(2,3) n
    by (intro gov_inv_with_pc) (auto simp: shed_pc_def split: sum.splits if_splits)
  from gov_inv_world [OF this] show ?thesis unfolding Shed(1) .
next
  case (Shed_expired i short pressed)
  have n: "0 \<le> tk_nbytes (gs_tasks s ! i)"
    using inv Shed_expired(2,3) by (auto simp: gov_inv_def task_ok_def)
  show ?thesis
    using inv Shed_expired(2,3) n unfolding Shed_expired(1)
    by (intro gov_inv_with_pc) (auto simp: shed_expired_pc_def split: if_splits)
next
  case (Wait_expired i live)
  then show ?thesis using inv by (auto intro!: gov_inv_with_pc)
next
  case (Resume i live)
  have n: "0 \<le> tk_nbytes (gs_tasks s ! i)"
    using inv Resume(2,3) by (auto simp: gov_inv_def task_ok_def)
  show ?thesis using inv Resume n by (auto intro!: gov_inv_with_pc)
next
  case (Release i r g' notify)
  show ?thesis
    unfolding Release(1) by (rule gov_inv_release [OF inv Release(2) refl Release(3,4)])
next
  case (Cancel i)
  then have "holding (tk_pc (gs_tasks s ! i)) = None" by (cases "tk_pc (gs_tasks s ! i)") simp_all
  with Cancel inv show ?thesis by (auto intro!: gov_inv_with_pc)
next
  case (World w')
  then show ?thesis using inv by (simp add: gov_inv_world)
next
  case (Budget d n g')
  then show ?thesis
    using inv by (auto simp: set_budget_def split: if_splits intro!: gov_inv_gov)
next
  case (Register h priority name)
  then show ?thesis using inv by (auto simp: register_shedder_def intro!: gov_inv_gov)
next
  case (Unregister h)
  then show ?thesis using inv by (auto simp: unregister_shedder_def intro!: gov_inv_gov)
qed

lemma gov_inv_reachable: "gov_reachable api s \<Longrightarrow> gov_inv s"
proof (induction rule: gov_reachable.induct)
  case (Start budgets g ts w)
  have idle: "tk_pc t = Idle" if "t \<in> set ts" for t using Start(2) that by (simp add: list_all_iff)
  have "map (held_by d) ts = map (\<lambda>_. 0) ts" for d using idle by (simp add: held_by_def)
  then have "held_bytes ts d = sum_list (map (\<lambda>_. 0) ts)" for d by (simp only: held_bytes_def)
  then have "held_bytes ts d = 0" for d by simp
  with Start idle show ?case
    by (auto simp: new_governor_def gov_inv_def accounts_ok_def ids_ok_def task_ok_def
        holds_distinct_def reserved_def split: list.splits)
qed (rule gov_inv_step)

section \<open>Reported sheds\<close>

text \<open>
  The contract of a consumer (\<^verbatim>\<open>Shedder\<close>): a footprint is not negative, and what a shed reports
  as freed is bounded by what left the consumer; it never grows another consumer.
\<close>

locale shedders =
  fixes api :: "('w, 'h) consumer_api"
    and good :: "'w \<Rightarrow> bool"
  assumes footprint_nonneg: "good w \<Longrightarrow> 0 \<le> ca_footprint api w h d"
    and shed_good: "good w \<Longrightarrow> ca_shed api w h p = (w', r) \<Longrightarrow> good w'"
    and shed_freed: "good w \<Longrightarrow> ca_shed api w h p = (w', Some n) \<Longrightarrow>
      0 \<le> n \<and> n \<le> ca_footprint api w h (ps_device p) - ca_footprint api w' h (ps_device p)"
    and shed_frame: "good w \<Longrightarrow> ca_shed api w h p = (w', r) \<Longrightarrow> k \<noteq> h \<Longrightarrow>
      ca_footprint api w' k d \<le> ca_footprint api w k d"
begin

definition total :: "'h registered list \<Rightarrow> 'w \<Rightarrow> string \<Rightarrow> int" where
  "total rs w d = sum_list (map (\<lambda>r. ca_footprint api w (rg_shedder r) d) rs)"

lemma total_nonneg: "good w \<Longrightarrow> 0 \<le> total rs w d"
  unfolding total_def by (intro sum_list_nonneg) (auto simp: footprint_nonneg)

lemma total_frame:
  assumes "good w" and "ca_shed api w h p = (w', r)" and "h \<notin> rg_shedder ` set rs"
  shows "total rs w' d \<le> total rs w d"
  unfolding total_def using assms(3)
  by (intro sum_list_mono shed_frame [OF assms(1,2)]) auto

lemma total_shed:
  assumes "good w" and "ca_shed api w h p = (w', Some n)" and "distinct (map rg_shedder rs)"
    and "h \<in> rg_shedder ` set rs"
  shows "total rs w' (ps_device p) \<le> total rs w (ps_device p) - n"
  using assms(3,4)
proof (induction rs)
  case (Cons r rs)
  show ?case
  proof (cases "rg_shedder r = h")
    case True
    with Cons.prems have "total rs w' (ps_device p) \<le> total rs w (ps_device p)"
      by (intro total_frame [OF assms(1,2)]) auto
    with True shed_freed [OF assms(1,2)] show ?thesis by (simp add: total_def)
  next
    case False
    with Cons have "total rs w' (ps_device p) \<le> total rs w (ps_device p) - n" by auto
    with False shed_frame [OF assms(1,2), of "rg_shedder r" "ps_device p"] show ?thesis
      by (simp add: total_def)
  qed
qed simp

lemma shed_each_freed:
  assumes "good w" and "distinct (map rg_shedder all)" and "set rs \<subseteq> set all"
    and "shed_each api d consumers items rs remaining freed w = (w', Inr m)"
  shows "good w' \<and> freed \<le> m \<and> total all w' d \<le> total all w d - (m - freed)"
  using assms(1,3,4)
proof (induction rs arbitrary: remaining freed w)
  case (Cons r rs)
  have rs: "set rs \<subseteq> set all" using Cons.prems(2) by simp
  let ?skip = "remaining \<le> 0 \<or> (case consumers of None \<Rightarrow> False | Some names \<Rightarrow> rg_name r \<notin> set names) \<or>
    items \<noteq> None \<and> \<not> ca_detailed api (rg_shedder r)"
  show ?case
  proof (cases ?skip)
    case True
    then consider "remaining \<le> 0"
      | "0 < remaining" "shed_each api d consumers items rs remaining freed w = (w', Inr m)"
      using Cons.prems(3) by (cases "remaining \<le> 0") (auto split: if_splits)
    then show ?thesis
    proof cases
      case 1
      with Cons.prems show ?thesis by simp
    next
      case 2
      show ?thesis by (rule Cons.IH [OF Cons.prems(1) rs 2(2)])
    qed
  next
    case False
    let ?p = "\<lparr>ps_device = d, ps_needed = remaining, ps_items = items\<rparr>"
    obtain w1 x where x: "ca_shed api w (rg_shedder r) ?p = (w1, x)" by fastforce
    then obtain n where n: "x = Some n"
      using False Cons.prems(3) by (cases x) (auto split: if_splits)
    have rec: "shed_each api d consumers items rs (remaining - n) (freed + n) w1 = (w', Inr m)"
      using False Cons.prems(3) x n by (auto split: if_splits)
    have w1: "good w1" by (rule shed_good [OF Cons.prems(1) x])
    have "0 \<le> n" using shed_freed [OF Cons.prems(1) x [unfolded n]] by simp
    moreover have "total all w1 d \<le> total all w d - n"
      using total_shed [OF Cons.prems(1) x [unfolded n] assms(2)] Cons.prems(2) by auto
    ultimately show ?thesis using Cons.IH [OF w1 rs rec] by auto
  qed
qed simp

lemma shed_each_outside:
  assumes "good w" and "shed_each api d consumers items rs remaining freed w = (w', r)"
    and "k \<notin> rg_shedder ` set rs"
  shows "ca_footprint api w' k e \<le> ca_footprint api w k e"
  using assms
proof (induction rs arbitrary: remaining freed w)
  case (Cons x rs)
  show ?case
  proof (cases "remaining \<le> 0 \<or> (case consumers of None \<Rightarrow> False | Some names \<Rightarrow> rg_name x \<notin> set names) \<or>
      items \<noteq> None \<and> \<not> ca_detailed api (rg_shedder x)")
    case True
    then show ?thesis
      using Cons.prems Cons.IH [OF Cons.prems(1)] by (cases "remaining \<le> 0") (auto split: if_splits)
  next
    case False
    let ?p = "\<lparr>ps_device = d, ps_needed = remaining, ps_items = items\<rparr>"
    obtain w1 n where x: "ca_shed api w (rg_shedder x) ?p = (w1, n)" by fastforce
    have w1: "good w1" by (rule shed_good [OF Cons.prems(1) x])
    have k: "ca_footprint api w1 k e \<le> ca_footprint api w k e"
      using shed_frame [OF Cons.prems(1) x, of k e] Cons.prems(3) by auto
    show ?thesis
    proof (cases n)
      case None
      with k False Cons.prems(2) x show ?thesis by (auto split: if_splits)
    next
      case (Some m)
      then have "shed_each api d consumers items rs (remaining - m) (freed + m) w1 = (w', r)"
        using False Cons.prems(2) x by (auto split: if_splits)
      from Cons.IH [OF w1 this] Cons.prems(3) k show ?thesis by auto
    qed
  qed
qed simp

lemma governor_shed_honest:
  assumes "good w" and "distinct (map rg_shedder (gv_shedders g))"
    and "governor_shed api g d n consumers items w = (w', Inr m)"
  shows "good w' \<and> 0 \<le> m \<and> footprint api g w' d \<le> footprint api g w d - m"
proof -
  have "shed_each api d consumers items (gv_shedders g) n 0 w = (w', Inr m)"
    using assms(3) by (simp add: governor_shed_def split: if_splits)
  from shed_each_freed [OF assms(1,2) order_refl this] show ?thesis
    by (simp add: footprint_def total_def)
qed

end

text \<open>A consumer that can always free what it holds, as a cache without spilling can.\<close>

locale complete_shedders = shedders +
  assumes shed_complete: "good w \<Longrightarrow> ps_items p = None \<Longrightarrow>
    \<exists>w' n. ca_shed api w h p = (w', Some n) \<and>
      min (ps_needed p) (ca_footprint api w h (ps_device p)) \<le> n"
begin

lemma shed_each_complete:
  assumes "good w" and "distinct (map rg_shedder rs)"
  shows "\<exists>w' m. shed_each api d None None rs remaining freed w = (w', Inr m) \<and>
    (remaining \<le> m - freed \<or> total rs w' d \<le> 0)"
  using assms
proof (induction rs arbitrary: remaining freed w)
  case Nil
  then show ?case by (simp add: total_def)
next
  case (Cons r rs)
  show ?case
  proof (cases "remaining \<le> 0")
    case False
    let ?p = "\<lparr>ps_device = d, ps_needed = remaining, ps_items = None\<rparr>"
    obtain w1 n where n: "ca_shed api w (rg_shedder r) ?p = (w1, Some n)"
      "min remaining (ca_footprint api w (rg_shedder r) d) \<le> n"
      using shed_complete [of w ?p "rg_shedder r"] Cons.prems(1) by auto
    have w1: "good w1" by (rule shed_good [OF Cons.prems(1) n(1)])
    obtain w' m where m: "shed_each api d None None rs (remaining - n) (freed + n) w1 = (w', Inr m)"
      "remaining - n \<le> m - (freed + n) \<or> total rs w' d \<le> 0"
      using Cons.IH [OF w1, of "remaining - n" "freed + n"] Cons.prems(2) by auto
    have "freed + n \<le> m"
      using shed_each_freed [OF w1 _ order_refl m(1)] Cons.prems(2) by simp
    moreover have "ca_footprint api w' (rg_shedder r) d \<le> ca_footprint api w (rg_shedder r) d - n"
      using shed_each_outside [OF w1 m(1), of "rg_shedder r" d] shed_freed [OF Cons.prems(1) n(1)]
        Cons.prems(2) by auto
    ultimately have "remaining \<le> m - freed \<or> total (r # rs) w' d \<le> 0"
      using m(2) n(2) by (auto simp: total_def)
    moreover have "shed_each api d None None (r # rs) remaining freed w = (w', Inr m)"
      using False n(1) m(1) by simp
    ultimately show ?thesis by blast
  qed auto
qed

lemma governor_shed_complete:
  assumes "good w" and "distinct (map rg_shedder (gv_shedders g))"
  shows "\<exists>w' m. governor_shed api g d n None None w = (w', Inr m) \<and> good w' \<and>
    footprint api g w' d \<le> max 0 (footprint api g w d - n)"
proof -
  obtain w' m where m: "shed_each api d None None (gv_shedders g) n 0 w = (w', Inr m)"
    "n \<le> m \<or> total (gv_shedders g) w' d \<le> 0"
    using shed_each_complete [OF assms, of d n 0] by auto
  with shed_each_freed [OF assms order_refl m(1)] show ?thesis
    by (auto simp: governor_shed_def footprint_def total_def)
qed

end

section \<open>A reservation on its own\<close>

text \<open>
  A \<^verbatim>\<open>reserve\<close> call that nothing interferes with and that has no deadline: it takes its steps until
  it is granted, refused or has to wait for another holder. Four rounds are enough.
\<close>

fun admit_alone :: "nat \<Rightarrow> ('w, 'h) consumer_api \<Rightarrow> 'h governor \<Rightarrow> 'w \<Rightarrow> string \<Rightarrow> int \<Rightarrow> pc \<Rightarrow>
    ('h governor \<times> 'w \<times> pc) option" where
  "admit_alone 0 api g w d n p = None"
| "admit_alone (Suc k) api g w d n (Checking attempted live) =
     (case admit_section api g w d n attempted live False of
        (g', dec) \<Rightarrow> admit_alone k api g' w d n (decided_pc live dec))"
| "admit_alone (Suc k) api g w d n (Shedding short pressed) =
     (case governor_shed api g d short None None w of
        (w', r) \<Rightarrow> admit_alone k api g w' d n (shed_pc pressed r))"
| "admit_alone (Suc k) api g w d n p = Some (g, w, p)"

lemma admit_alone_ends:
  fixes api :: "('w, 'h) consumer_api"
  assumes "p = Checking attempted live"
  shows "\<exists>g' w' q. admit_alone 6 api g w d n p = Some (g', w', q) \<and>
    ((\<exists>r. q = Holding r) \<or> (\<exists>e. q = Failed e) \<or> (\<exists>l. q = Waiting l \<and> reserved g' d \<noteq> 0))"
proof -
  have fin: "admit_alone (Suc k) api g w d n q = Some (g, w, q)"
    if "\<not> (\<exists>a l. q = Checking a l)" "\<not> (\<exists>s b. q = Shedding s b)" for k q and g :: "'h governor" and w
    using that by (cases q) auto
  let ?good = "\<lambda>x. \<exists>g' w' q. x = Some (g', w', q) \<and>
    ((\<exists>r. q = Holding r) \<or> (\<exists>e. q = Failed e) \<or> (\<exists>l. q = Waiting l \<and> reserved g' d \<noteq> 0))"
  text \<open>One round; \<open>next\<close> is what happens when it sheds.\<close>
  have round: "?good (admit_alone (Suc (Suc k)) api g w d n (Checking a l))"
    if shed: "\<And>s b. \<not> a \<Longrightarrow> (b \<or> 0 < l) \<Longrightarrow> ?good (admit_alone (Suc k) api g w d n (Shedding s b))"
    for k a l and g :: "'h governor" and w
  proof -
    obtain g' dec where sec: "admit_section api g w d n a l False = (g', dec)" by fastforce
    note cs = admit_section_cases [OF sec]
    show ?thesis
    proof (cases dec)
      case (ShedFirst s b)
      have "\<not> a \<and> (b \<or> 0 < l)"
        using sec ShedFirst by (auto simp: admit_section_def Let_def split: if_splits option.splits prod.splits)
      with shed [of b s] sec ShedFirst cs show ?thesis by simp
    qed (use sec cs fin in auto)
  qed
  have third: "?good (admit_alone (Suc (Suc k)) api g w d n (Checking True l))"
    for k l and g :: "'h governor" and w
    by (rule round) simp
  have pressed: "?good (admit_alone (Suc (Suc (Suc k))) api g w d n (Shedding s True))"
    for k s and g :: "'h governor" and w
  proof -
    obtain w' r where r: "governor_shed api g d s None None w = (w', r)" by fastforce
    show ?thesis
      using third [of k g w' 0] r fin by (cases r) (auto simp: shed_pc_def)
  qed
  have second: "?good (admit_alone (Suc (Suc (Suc (Suc k)))) api g w d n (Checking False 0))"
    for k and g :: "'h governor" and w
    by (rule round) (use pressed in auto)
  have "?good (admit_alone (Suc (Suc (Suc (Suc (Suc k))))) api g w d n (Shedding s b))"
    for k s b and g :: "'h governor" and w
  proof (cases b)
    case False
    obtain w' r where r: "governor_shed api g d s None None w = (w', r)" by fastforce
    show ?thesis
      using second [of k g w'] r False by (cases r) (auto simp: shed_pc_def)
  qed (use pressed in auto)
  then have "?good (admit_alone (Suc (Suc (Suc (Suc (Suc (Suc 0)))))) api g w d n (Checking attempted live))"
    by (intro round) auto
  moreover have "(6 :: nat) = Suc (Suc (Suc (Suc (Suc (Suc 0)))))" by simp
  ultimately show ?thesis unfolding assms by (simp only:)
qed

section \<open>Scheduling one task\<close>

text \<open>The step a task takes when the event loop runs it, used to build concrete histories.\<close>

definition run_task :: "('w, 'h) consumer_api \<Rightarrow> nat \<Rightarrow> ('w, 'h) gov_system \<Rightarrow> ('w, 'h) gov_system" where
  "run_task api i s =
     (case tk_pc (gs_tasks s ! i) of
        Idle \<Rightarrow> with_pc s i (begin_pc api (gs_gov s) (gs_world s) None (gs_tasks s ! i))
      | Checking a l \<Rightarrow>
          (case admit_section api (gs_gov s) (gs_world s) (tk_device (gs_tasks s ! i))
                  (tk_nbytes (gs_tasks s ! i)) a l False of
             (g', d) \<Rightarrow> (with_pc s i (decided_pc l d))\<lparr>gs_gov := g'\<rparr>)
      | Shedding n p \<Rightarrow>
          (case governor_shed api (gs_gov s) (tk_device (gs_tasks s ! i)) n None None (gs_world s) of
             (w', r) \<Rightarrow> (with_pc s i (shed_pc p r))\<lparr>gs_world := w'\<rparr>)
      | Woken l \<Rightarrow> with_pc s i (Checking False l)
      | Holding r \<Rightarrow>
          (case release_reservation (gs_gov s) r of
             (g', notify) \<Rightarrow> s\<lparr>gs_gov := g',
               gs_tasks := (if notify then map wake (gs_tasks s) else gs_tasks s)
                 [i := (gs_tasks s ! i)\<lparr>tk_pc := Finished\<rparr>]\<rparr>)
      | _ \<Rightarrow> s)"

fun runnable :: "pc \<Rightarrow> bool" where
  "runnable (Waiting _) = False"
| "runnable (Failed _) = False"
| "runnable Finished = False"
| "runnable _ = True"

lemma run_task_step:
  assumes i: "i < length (gs_tasks s)" and "runnable (tk_pc (gs_tasks s ! i))"
  shows "gov_step api s (run_task api i s)"
proof (cases "tk_pc (gs_tasks s ! i)")
  case Idle
  then show ?thesis using gov_step.Begin [OF i Idle] by (simp add: run_task_def)
next
  case (Checking a l)
  obtain g' d where "admit_section api (gs_gov s) (gs_world s) (tk_device (gs_tasks s ! i))
      (tk_nbytes (gs_tasks s ! i)) a l False = (g', d)" by fastforce
  with gov_step.Check [OF i Checking _ this] Checking show ?thesis by (simp add: run_task_def)
next
  case (Shedding n p)
  obtain w' r where "governor_shed api (gs_gov s) (tk_device (gs_tasks s ! i)) n None None (gs_world s) =
      (w', r)" by fastforce
  with gov_step.Shed [OF i Shedding this] Shedding show ?thesis by (simp add: run_task_def)
next
  case (Woken l)
  then show ?thesis using gov_step.Resume [OF i Woken] by (simp add: run_task_def)
next
  case (Holding r)
  obtain g' notify where "release_reservation (gs_gov s) r = (g', notify)" by fastforce
  with gov_step.Release [OF i Holding this] Holding show ?thesis by (simp add: run_task_def)
qed (use assms in simp_all)

lemma run_task_reachable:
  assumes s: "gov_reachable api s" and i: "i < length (gs_tasks s)"
  shows "gov_reachable api (run_task api i s)"
proof (cases "runnable (tk_pc (gs_tasks s ! i))")
  case True
  show ?thesis by (rule gov_reachable.Step [OF s run_task_step [OF i True]])
next
  case False
  then have "run_task api i s = s" by (cases "tk_pc (gs_tasks s ! i)") (simp_all add: run_task_def)
  with s show ?thesis by simp
qed

lemma length_run_task [simp]: "length (gs_tasks (run_task api i s)) = length (gs_tasks s)"
  by (simp add: run_task_def split: pc.split prod.split)

lemma run_tasks_reachable:
  "gov_reachable api s \<Longrightarrow> \<forall>i \<in> set is. i < length (gs_tasks s) \<Longrightarrow>
     gov_reachable api (fold (run_task api) is s)"
  by (induction "is" arbitrary: s) (simp_all add: run_task_reachable)

definition idle_api :: "(unit, nat) consumer_api" where
  "idle_api = \<lparr>ca_footprint = (\<lambda>_ _ _. 0), ca_shed = (\<lambda>w _ _. (w, Some 0)), ca_detailed = (\<lambda>_. False)\<rparr>"

definition two_tasks :: "(unit, nat) gov_system" where
  "two_tasks =
     \<lparr>gs_gov = \<lparr>gv_budgets = [(''ram'', 10)], gv_reserved = [], gv_peaks = [], gv_reservations = [],
               gv_shedders = [], gv_next_id = 1, gv_next_order = 0\<rparr>,
      gs_world = (),
      gs_tasks = [\<lparr>tk_device = ''ram'', tk_nbytes = 6, tk_timed = False, tk_pc = Idle\<rparr>,
                  \<lparr>tk_device = ''ram'', tk_nbytes = 6, tk_timed = False, tk_pc = Idle\<rparr>]\<rparr>"

lemma two_tasks_reachable:
  "gov_reachable idle_api (fold (run_task idle_api) (map (\<lambda>n. n mod 2) is) two_tasks)"
proof (rule run_tasks_reachable)
  show "gov_reachable idle_api two_tasks"
    unfolding two_tasks_def
    by (rule gov_reachable.Start [of "[(''ram'', 10)]"]) (simp_all add: new_governor_def)
  have "i mod 2 < length (gs_tasks two_tasks)" for i :: nat by (simp add: two_tasks_def)
  then show "\<forall>i \<in> set (map (\<lambda>n. n mod 2) is). i < length (gs_tasks two_tasks)" by simp
qed

section \<open>Properties\<close>

text \<open>
  C24: In every interleaving of reservations with consumers, reconfiguration, timeouts and
  cancellation the reserved total of a device is the sum of the reservations held on it, and it
  is not negative: nothing leaks and nothing is released twice.
\<close>
theorem reservations_account:
  assumes "gov_reachable api s"
  shows "reserved (gs_gov s) d = held_bytes (gs_tasks s) d \<and> 0 \<le> reserved (gs_gov s) d"
  using gov_inv_reachable [OF assms] reserved_nonneg [OF gov_inv_reachable [OF assms]]
  by (simp add: gov_inv_def accounts_ok_def)

theorem reservations_account_witness:
  "reserved (gs_gov (fold (run_task idle_api) [0, 0, 1] two_tasks)) ''ram'' = 6"
proof -
  have "held_bytes (gs_tasks (fold (run_task idle_api) (map (\<lambda>n. n mod 2) [0, 0, 1]) two_tasks)) ''ram'' = 6"
    by code_simp
  then show ?thesis using reservations_account [OF two_tasks_reachable [of "[0, 0, 1]"], of "''ram''"] by simp
qed

text \<open>
  C25: No reservation hangs for lack of a wake-up: whenever one waits un-notified, another task
  still holds a reservation of positive size on the same device, and its release notifies every
  waiter.
\<close>
theorem waiting_has_a_holder:
  assumes "gov_reachable api s" and "i < length (gs_tasks s)" and "tk_pc (gs_tasks s ! i) = Waiting l"
  shows "\<exists>j r. j < length (gs_tasks s) \<and> tk_pc (gs_tasks s ! j) = Holding r \<and>
    rv_device r = tk_device (gs_tasks s ! i) \<and> 0 < rv_nbytes r \<and>
    (\<forall>g' notify. release_reservation (gs_gov s) r = (g', notify) \<longrightarrow> notify)"
proof -
  let ?d = "tk_device (gs_tasks s ! i)"
  have inv: "gov_inv s" by (rule gov_inv_reachable [OF assms(1)])
  then have "held_bytes (gs_tasks s) ?d \<noteq> 0"
    using assms(2,3) by (auto simp: gov_inv_def accounts_ok_def task_ok_def)
  then obtain t where t: "t \<in> set (gs_tasks s)" "held_by ?d t \<noteq> 0"
    using held_bytes_nonzero by blast
  then obtain j where j: "j < length (gs_tasks s)" "gs_tasks s ! j = t" by (auto simp: in_set_conv_nth)
  obtain r where r: "tk_pc t = Holding r" "rv_device r = ?d" "rv_nbytes r \<noteq> 0"
    using t(2) by (auto simp: held_by_def split: option.splits if_splits)
  have ok: "task_ok (gs_gov s) t" using inv t(1) by (simp add: gov_inv_def)
  then have "0 < rv_nbytes r" using r by (simp add: task_ok_def)
  moreover have "notify" if "release_reservation (gs_gov s) r = (g', notify)" for g' notify
    using gov_inv_release(2) [OF inv j(1) refl _ that] j(2) r(1) by simp
  ultimately show ?thesis using j r by blast
qed

theorem waiting_has_a_holder_witness:
  "\<exists>j r. j < 2 \<and> tk_pc (gs_tasks (fold (run_task idle_api) [0, 0, 1, 1, 1, 1] two_tasks) ! j) = Holding r \<and>
     rv_device r = ''ram'' \<and> 0 < rv_nbytes r"
proof -
  let ?s = "fold (run_task idle_api) (map (\<lambda>n. n mod 2) [0, 0, 1, 1, 1, 1]) two_tasks"
  have l: "length (gs_tasks ?s) = 2" by code_simp
  have w: "tk_pc (gs_tasks ?s ! 1) = Waiting 0" and d: "tk_device (gs_tasks ?s ! 1) = ''ram''" by code_simp+
  from waiting_has_a_holder [OF two_tasks_reachable _ w] show ?thesis unfolding l d by auto
qed

text \<open>
  C26: A reservation is granted only where it fits: at the moment a task is given one, it is for
  the device and size it asked for, and if the device has a budget then everything reserved on
  it, this reservation included, together with what the consumers hold is within that budget.
\<close>
theorem grants_fit_the_budget:
  assumes "gov_reachable api s" and "gov_step api s s'" and "i < length (gs_tasks s)"
    and "tk_pc (gs_tasks s ! i) \<noteq> Holding r" and "tk_pc (gs_tasks s' ! i) = Holding r"
    and "map_of (gv_budgets (gs_gov s')) (tk_device (gs_tasks s ! i)) = Some b"
  shows "rv_device r = tk_device (gs_tasks s ! i) \<and> rv_nbytes r = tk_nbytes (gs_tasks s ! i) \<and>
    reserved (gs_gov s') (rv_device r) + footprint api (gs_gov s') (gs_world s') (rv_device r) \<le> b"
  using assms(2)
proof cases
  case (Check j attempted live expired g' d)
  show ?thesis
  proof (cases "j = i")
    case True
    then have d: "d = Granted r" using Check assms(3,5) by (cases d) simp_all
    with admit_section_cases [OF Check(5)]
    have rec: "record_reservation (gs_gov s) (tk_device (gs_tasks s ! i)) (tk_nbytes (gs_tasks s ! i)) = (g', r)"
      and fit: "case map_of (gv_budgets (gs_gov s)) (tk_device (gs_tasks s ! i)) of None \<Rightarrow> True
        | Some b \<Rightarrow> fits api (gs_gov s) (gs_world s) (tk_device (gs_tasks s ! i)) (tk_nbytes (gs_tasks s ! i)) b"
      by (auto simp: True split: option.splits)
    note g' = record_simps [OF rec]
    have "map_of (gv_budgets (gs_gov s)) (tk_device (gs_tasks s ! i)) = Some b"
      using assms(6) Check(1) g'(5) by simp
    then show ?thesis
      using fit Check(1) by (simp add: g'(1,2) fits_def footprint_def g'(6))
  qed (use Check assms(4,5) in simp)
next
  case (Release j q g' notify)
  have "holding (tk_pc (wake (gs_tasks s ! i))) \<noteq> Some r" using assms(4) by simp
  then show ?thesis using Release assms(3-5) by (cases "i = j") (auto split: if_splits)
qed (use assms(3-5) in \<open>auto simp: nth_list_update begin_pc_def shed_pc_def shed_expired_pc_def
  split: if_splits sum.splits\<close>)

theorem grants_fit_the_budget_witness:
  "reserved (gs_gov (fold (run_task idle_api) [0, 0] two_tasks)) ''ram'' + 0 \<le> 10"
proof -
  let ?s = "fold (run_task idle_api) (map (\<lambda>n. n mod 2) [0]) two_tasks"
  let ?r = "\<lparr>rv_id = 1, rv_device = ''ram'', rv_nbytes = 6\<rparr>"
  have l: "0 < length (gs_tasks ?s)" by code_simp
  have "runnable (tk_pc (gs_tasks ?s ! 0))" by code_simp
  from run_task_step [OF l this] have st: "gov_step idle_api ?s (run_task idle_api 0 ?s)" .
  have n: "tk_pc (gs_tasks ?s ! 0) \<noteq> Holding ?r" by code_simp
  have h: "tk_pc (gs_tasks (run_task idle_api 0 ?s) ! 0) = Holding ?r" by code_simp
  have b: "map_of (gv_budgets (gs_gov (run_task idle_api 0 ?s))) (tk_device (gs_tasks ?s ! 0)) = Some 10"
    by code_simp
  have f: "footprint idle_api (gs_gov (run_task idle_api 0 ?s)) (gs_world (run_task idle_api 0 ?s)) ''ram'' = 0"
    by code_simp
  have "reserved (gs_gov (run_task idle_api 0 ?s)) ''ram'' +
      footprint idle_api (gs_gov (run_task idle_api 0 ?s)) (gs_world (run_task idle_api 0 ?s)) ''ram'' \<le> 10"
    using grants_fit_the_budget [OF two_tasks_reachable st l n h b, unfolded reservation.select_convs] by blast
  moreover have "run_task idle_api 0 ?s = fold (run_task idle_api) [0, 0] two_tasks" by simp
  ultimately show ?thesis unfolding f by simp
qed

text \<open>
  While the budgets are not changed, what is reserved on a budgeted device never exceeds its
  budget, whatever consumers, tasks and timeouts do, provided consumers report no negative
  footprint.
\<close>
theorem reserved_stays_within_budget:
  assumes "new_governor budgets = Inr g" and "list_all (\<lambda>t. tk_pc t = Idle) ts"
    and "\<forall>w h d. 0 \<le> ca_footprint api w h d"
    and "(\<lambda>s s'. gov_step api s s' \<and> gv_budgets (gs_gov s') = gv_budgets (gs_gov s))\<^sup>*\<^sup>*
      \<lparr>gs_gov = g, gs_world = w, gs_tasks = ts\<rparr> s"
    and "map_of (gv_budgets (gs_gov s)) d = Some b"
  shows "reserved (gs_gov s) d \<le> b"
proof -
  let ?s0 = "\<lparr>gs_gov = g, gs_world = w, gs_tasks = ts\<rparr>"
  have "gov_reachable api s \<and>
      (\<forall>d b. map_of (gv_budgets (gs_gov s)) d = Some b \<longrightarrow> reserved (gs_gov s) d \<le> b)"
    using assms(4)
  proof (induction rule: rtranclp_induct)
    case base
    have "0 \<le> b" if "map_of (gv_budgets g) d = Some b" for d b
      using assms(1) map_of_SomeD [OF that]
      by (force simp: new_governor_def filter_empty_conv split: list.splits prod.splits)
    moreover have "reserved g d = 0" for d
      using assms(1) by (auto simp: new_governor_def reserved_def split: list.splits prod.splits)
    ultimately show ?case using gov_reachable.Start [OF assms(1,2)] by simp
  next
    case (step s s')
    have nonneg: "0 \<le> footprint api g w d" for g w d
      unfolding footprint_def using assms(3) by (intro sum_list_nonneg) auto
    have inv: "gov_inv s" using step.IH gov_inv_reachable by blast
    have "reserved (gs_gov s') d \<le> b" if b: "map_of (gv_budgets (gs_gov s)) d = Some b" for d b
    proof -
      have old: "reserved (gs_gov s) d \<le> b" using step.IH b by blast
      from step.hyps(2) have "gov_step api s s'" by simp
      then show ?thesis
      proof cases
        case (Check j attempted live expired g' dec)
        show ?thesis
        proof (cases dec)
          case (Granted r)
          with admit_section_cases [OF Check(5)]
          have rec: "record_reservation (gs_gov s) (tk_device (gs_tasks s ! j)) (tk_nbytes (gs_tasks s ! j)) = (g', r)"
            and fit: "tk_device (gs_tasks s ! j) = d \<Longrightarrow>
              fits api (gs_gov s) (gs_world s) d (tk_nbytes (gs_tasks s ! j)) b"
            using b by auto
          show ?thesis
            using record_simps(2) [OF rec, of d] old Check(1) fit nonneg [of "gs_gov s" "gs_world s" d]
            by (auto simp: fits_def)
        qed (use admit_section_cases [OF Check(5)] old Check(1) in auto)
      next
        case (Release j r g' notify)
        have "task_ok (gs_gov s) (gs_tasks s ! j)" using inv Release(2) by (simp add: gov_inv_def)
        then have "0 \<le> rv_nbytes r" using Release(3) by (simp add: task_ok_def)
        then have "reserved g' d \<le> reserved (gs_gov s) d"
          using Release(4) by (auto simp: release_reservation_def reserved_def split: if_splits)
        then show ?thesis using old Release(1) by simp
      next
        case (Budget d' n g')
        then show ?thesis using old by (auto simp: set_budget_def reserved_def split: if_splits)
      next
        case (Register h priority name)
        then show ?thesis using old by (simp add: register_shedder_def reserved_def)
      next
        case (Unregister h)
        then show ?thesis using old by (simp add: unregister_shedder_def reserved_def)
      qed (use old in simp_all)
    qed
    then show ?case using step.IH step.hyps(2) gov_reachable.Step by fastforce
  qed
  with assms(5) show ?thesis by blast
qed

theorem reserved_stays_within_budget_witness:
  "reserved (gs_gov (run_task idle_api 0 two_tasks)) ''ram'' \<le> 10"
proof -
  let ?R = "\<lambda>s s'. gov_step idle_api s s' \<and> gv_budgets (gs_gov s') = gv_budgets (gs_gov s)"
  have "gov_step idle_api two_tasks (run_task idle_api 0 two_tasks)"
    by (rule run_task_step) (simp_all add: two_tasks_def)
  moreover have b: "gv_budgets (gs_gov (run_task idle_api 0 two_tasks)) = [(''ram'', 10)]" by code_simp
  ultimately have r: "?R\<^sup>*\<^sup>* two_tasks (run_task idle_api 0 two_tasks)"
    by (intro r_into_rtranclp) (simp add: two_tasks_def)
  have t: "\<lparr>gs_gov = gs_gov two_tasks, gs_world = (), gs_tasks = gs_tasks two_tasks\<rparr> = two_tasks"
    by (simp add: two_tasks_def)
  show ?thesis
  proof (rule reserved_stays_within_budget)
    show "?R\<^sup>*\<^sup>* \<lparr>gs_gov = gs_gov two_tasks, gs_world = (), gs_tasks = gs_tasks two_tasks\<rparr>
      (run_task idle_api 0 two_tasks)" unfolding t by (rule r)
    show "new_governor [(''ram'', 10)] = Inr (gs_gov two_tasks)"
      by (simp add: new_governor_def two_tasks_def)
    show "map_of (gv_budgets (gs_gov (run_task idle_api 0 two_tasks))) ''ram'' = Some 10"
      unfolding b by simp
  qed (simp_all add: idle_api_def two_tasks_def)
qed

text \<open>
  C27: A reservation that is left alone is decided: after at most three looks at the budget and
  two sheds it is granted, refused, or waiting for memory that is reserved by somebody else.
\<close>
theorem admission_ends:
  "\<exists>g' w' q. admit_alone 6 api g w d n (Checking attempted live) = Some (g', w', q) \<and>
    ((\<exists>r. q = Holding r) \<or> (\<exists>e. q = Failed e) \<or> (\<exists>l. q = Waiting l \<and> reserved g' d \<noteq> 0))"
  using admit_alone_ends [OF refl] .

end
