(* ===== verification/Leases.thy ===== *)
theory Leases
  imports Governor
begin

text \<open>
  Leases (\<^verbatim>\<open>dinkster_memory/leases.py\<close>): governor reservations with an id and a time to live, for
  holders in other processes. Each lease has a holder task; what matters of it is when its
  sleep ends (\<open>hd_wake\<close>). Event-loop time is an argument of every step.
\<close>

section \<open>State\<close>

record lease =
  ls_id :: string
  ls_device :: string
  ls_nbytes :: int
  ls_expires :: real

record held =
  hd_lease :: lease
  hd_released :: bool
  hd_wake :: real
  hd_reservation :: reservation

record 'h broker =
  bk_gov :: "'h governor"
  bk_max_ttl :: real
  bk_held :: "(string, held) dict"
  bk_closed :: bool

datatype lease_error = BadMaxTtl | BadTtl | BrokerClosed

definition new_broker :: "'h governor \<Rightarrow> real \<Rightarrow> lease_error + 'h broker" where
  "new_broker g max_ttl =
     (if max_ttl \<le> 0 then Inl BadMaxTtl
      else Inr \<lparr>bk_gov = g, bk_max_ttl = max_ttl, bk_held = [], bk_closed = False\<rparr>)"

definition clamp_ttl :: "'h broker \<Rightarrow> real \<Rightarrow> lease_error + real" where
  "clamp_ttl b ttl = (if ttl \<le> 0 then Inl BadTtl else Inr (min ttl (bk_max_ttl b)))"

definition ttl_remaining :: "lease \<Rightarrow> real \<Rightarrow> real" where
  "ttl_remaining l now = max 0 (ls_expires l - now)"

definition broker_leases :: "'h broker \<Rightarrow> lease list" where
  "broker_leases b = map (hd_lease \<circ> snd) (bk_held b)"

section \<open>Operations\<close>

text \<open>What \<^verbatim>\<open>acquire\<close> checks before it starts a holder.\<close>

definition acquire_check :: "'h broker \<Rightarrow> real \<Rightarrow> lease_error + real" where
  "acquire_check b ttl = (if bk_closed b then Inl BrokerClosed else clamp_ttl b ttl)"

definition give_back :: "'h broker \<Rightarrow> reservation \<Rightarrow> 'h broker" where
  "give_back b r = b\<lparr>bk_gov := fst (release_reservation (bk_gov b) r)\<rparr>"

text \<open>The governor has granted the holder its reservation: the body of \<^verbatim>\<open>hold\<close> up to its sleep.\<close>

definition lease_granted ::
    "'h broker \<Rightarrow> string \<Rightarrow> string \<Rightarrow> int \<Rightarrow> real \<Rightarrow> real \<Rightarrow> 'h broker \<times> (lease_error + lease)" where
  "lease_granted b i d n ttl now =
     (let (g, r) = record_reservation (bk_gov b) d n; b' = b\<lparr>bk_gov := g\<rparr> in
      if bk_closed b then (give_back b' r, Inl BrokerClosed)
      else
        let l = \<lparr>ls_id = i, ls_device = d, ls_nbytes = n, ls_expires = now + ttl\<rparr> in
        (b'\<lparr>bk_held := dict_set i \<lparr>hd_lease = l, hd_released = False, hd_wake = now + ttl,
                                  hd_reservation = r\<rparr> (bk_held b)\<rparr>, Inr l))"

definition end_lease :: "'h broker \<Rightarrow> string \<Rightarrow> held \<Rightarrow> 'h broker" where
  "end_lease b i h = (give_back b (hd_reservation h))\<lparr>bk_held := dict_del i (bk_held b)\<rparr>"

text \<open>The holder wakes: it gives the memory back, or sleeps until the present expiry.\<close>

definition holder_wakes :: "'h broker \<Rightarrow> string \<Rightarrow> real \<Rightarrow> 'h broker" where
  "holder_wakes b i now =
     (case map_of (bk_held b) i of
        None \<Rightarrow> b
      | Some h \<Rightarrow>
          if \<not> hd_released h \<and> now < hd_wake h then b
          else if hd_released h \<or> ls_expires (hd_lease h) - now \<le> 0 then end_lease b i h
          else b\<lparr>bk_held := dict_set i (h\<lparr>hd_wake := ls_expires (hd_lease h)\<rparr>) (bk_held b)\<rparr>)"

text \<open>
  Setting the event of a lease only makes its holder runnable; \<^verbatim>\<open>release\<close> then awaits the
  holder, and anything may run before the holder does.
\<close>

definition release_lease :: "'h broker \<Rightarrow> string \<Rightarrow> 'h broker \<times> bool" where
  "release_lease b i =
     (case map_of (bk_held b) i of
        None \<Rightarrow> (b, False)
      | Some h \<Rightarrow> (b\<lparr>bk_held := dict_set i (h\<lparr>hd_released := True\<rparr>) (bk_held b)\<rparr>, True))"

definition renew_lease ::
    "'h broker \<Rightarrow> string \<Rightarrow> real \<Rightarrow> real \<Rightarrow> 'h broker \<times> (lease_error + lease option)" where
  "renew_lease b i ttl now =
     attempt b (clamp_ttl b ttl) (\<lambda>t.
       case map_of (bk_held b) i of
         None \<Rightarrow> (b, Inr None)
       | Some h \<Rightarrow>
           if ls_expires (hd_lease h) \<le> now then (b, Inr None)
           else
             let l = (hd_lease h)\<lparr>ls_expires := now + t\<rparr> in
             (b\<lparr>bk_held := dict_set i (h\<lparr>hd_lease := l\<rparr>) (bk_held b)\<rparr>, Inr (Some l)))"

definition close_broker :: "'h broker \<Rightarrow> 'h broker" where
  "close_broker b =
     b\<lparr>bk_closed := True, bk_held := map (\<lambda>(i, h). (i, h\<lparr>hd_released := True\<rparr>)) (bk_held b)\<rparr>"

section \<open>Histories\<close>

text \<open>
  Events with the time at which they happen; ids of granted leases are fresh (UUIDs). A grant
  may come after \<^verbatim>\<open>close\<close>: the request was checked before it waited in admission.
\<close>

datatype lease_event =
    Grant string string int real
  | Wake string
  | Release_lease string
  | Renew string real
  | Close_broker

fun run_lease :: "'h broker \<Rightarrow> real \<Rightarrow> lease_event \<Rightarrow> 'h broker" where
  "run_lease b now (Grant i d n ttl) =
     (case clamp_ttl b ttl of Inl _ \<Rightarrow> b | Inr t \<Rightarrow> fst (lease_granted b i d n t now))"
| "run_lease b now (Wake i) = holder_wakes b i now"
| "run_lease b now (Release_lease i) = fst (release_lease b i)"
| "run_lease b now (Renew i ttl) = fst (renew_lease b i ttl now)"
| "run_lease b now Close_broker = close_broker b"

inductive lease_history :: "'h governor \<Rightarrow> real \<Rightarrow> 'h broker \<Rightarrow> bool" for g0 :: "'h governor" where
  Init: "new_broker g0 max_ttl = Inr b \<Longrightarrow> lease_history g0 now b"
| Event: "lease_history g0 t b \<Longrightarrow> t \<le> now \<Longrightarrow>
    (\<And>i d n ttl. e = Grant i d n ttl \<Longrightarrow> map_of (bk_held b) i = None \<and> 0 \<le> n) \<Longrightarrow>
    lease_history g0 now (run_lease b now e)"

section \<open>Invariant\<close>

definition leased_bytes :: "string \<Rightarrow> string \<times> held \<Rightarrow> int" where
  "leased_bytes d p = (if ls_device (hd_lease (snd p)) = d then ls_nbytes (hd_lease (snd p)) else 0)"

text \<open>A held lease and the reservation behind it, at a time \<open>now\<close>.\<close>

definition held_ok :: "'h broker \<Rightarrow> real \<Rightarrow> held \<Rightarrow> bool" where
  "held_ok b now h \<longleftrightarrow>
     map_of (gv_reservations (bk_gov b)) (rv_id (hd_reservation h)) = Some (hd_reservation h) \<and>
     rv_device (hd_reservation h) = ls_device (hd_lease h) \<and>
     rv_nbytes (hd_reservation h) = ls_nbytes (hd_lease h) \<and>
     ls_expires (hd_lease h) \<le> now + bk_max_ttl b \<and> hd_wake h \<le> now + bk_max_ttl b \<and>
     (bk_closed b \<longrightarrow> hd_released h)"

definition separate :: "(string, held) dict \<Rightarrow> bool" where
  "separate d \<longleftrightarrow> (\<forall>i j h k. map_of d i = Some h \<longrightarrow> map_of d j = Some k \<longrightarrow> i \<noteq> j \<longrightarrow>
     rv_id (hd_reservation h) \<noteq> rv_id (hd_reservation k))"

definition leased :: "string \<Rightarrow> 'h broker \<Rightarrow> int" where
  "leased d b = sum_list (map (leased_bytes d) (bk_held b))"

definition broker_inv :: "'h governor \<Rightarrow> real \<Rightarrow> 'h broker \<Rightarrow> bool" where
  "broker_inv g0 now b \<longleftrightarrow>
     dict_ok (bk_held b) \<and> ids_ok (bk_gov b) \<and> 0 < bk_max_ttl b \<and> separate (bk_held b) \<and>
     (\<forall>d. reserved (bk_gov b) d = reserved g0 d + leased d b) \<and>
     (\<forall>i h. map_of (bk_held b) i = Some h \<longrightarrow> held_ok b now h)"

lemma broker_inv_later: "broker_inv g0 t b \<Longrightarrow> t \<le> now \<Longrightarrow> broker_inv g0 now b"
  unfolding broker_inv_def held_ok_def by fastforce

lemma held_okI:
  "broker_inv g0 now b \<Longrightarrow> map_of (bk_held b) i = Some h \<Longrightarrow> held_ok b now h"
  by (simp add: broker_inv_def)

lemma release_simps:
  assumes "map_of (gv_reservations g) (rv_id r) = Some r"
  shows "reserved (fst (release_reservation g r)) d =
      (if d = rv_device r then reserved g d - rv_nbytes r else reserved g d)"
    and "gv_reservations (fst (release_reservation g r)) = dict_del (rv_id r) (gv_reservations g)"
    and "gv_next_id (fst (release_reservation g r)) = gv_next_id g"
  using assms by (auto simp: release_reservation_def dict_mem_def reserved_def)

lemma end_lease_inv:
  assumes inv: "broker_inv g0 now b" and h: "map_of (bk_held b) i = Some h"
  shows "broker_inv g0 now (end_lease b i h)"
proof -
  let ?r = "hd_reservation h"
  note r = held_okI [OF inv h, unfolded held_ok_def]
  note rel = release_simps [OF conjunct1 [OF r]]
  have ok: "dict_ok (bk_held b)" "ids_ok (bk_gov b)" and sep: "separate (bk_held b)"
    using inv by (simp_all add: broker_inv_def)
  have ids: "ids_ok (fst (release_reservation (bk_gov b) ?r))"
    using ok(2) by (auto simp: ids_ok_def rel)
  have sum: "reserved (fst (release_reservation (bk_gov b) ?r)) d =
      reserved g0 d + (leased d b - leased_bytes d (i, h))" for d
    using inv r by (auto simp: broker_inv_def leased_bytes_def rel(1))
  have held: "held_ok (end_lease b i h) now k" if k: "map_of (bk_held b) j = Some k" "j \<noteq> i" for j k
    using held_okI [OF inv k(1)] sep h k unfolding separate_def held_ok_def
    by (auto simp: end_lease_def give_back_def rel(2))
  have "separate (bk_held (end_lease b i h))"
    using sep by (auto simp: separate_def end_lease_def)
  then show ?thesis
    using ok ids sum held inv sum_list_dict_del [OF ok(1) h]
    by (simp add: broker_inv_def leased_def) (auto simp: end_lease_def give_back_def)
qed

text \<open>Changing a held lease in place, as a renewal, a release or a re-armed sleep does.\<close>

lemma sum_list_dict_set_same:
  fixes f :: "'k \<times> 'v \<Rightarrow> int"
  shows "map_of d k = Some v \<Longrightarrow> f (k, w) = f (k, v) \<Longrightarrow>
    sum_list (map f (dict_set k w d)) = sum_list (map f d)"
  by (induction d) (auto split: if_splits)

lemma replace_held_inv:
  assumes inv: "broker_inv g0 now b" and h: "map_of (bk_held b) i = Some h"
    and same: "hd_reservation k = hd_reservation h" and ok: "held_ok b now k"
  shows "broker_inv g0 now (b\<lparr>bk_held := dict_set i k (bk_held b)\<rparr>)"
proof -
  have "leased_bytes d (i, k) = leased_bytes d (i, h)" for d
    using ok held_okI [OF inv h] same by (simp add: held_ok_def leased_bytes_def)
  then have "leased d (b\<lparr>bk_held := dict_set i k (bk_held b)\<rparr>) = leased d b" for d
    unfolding leased_def by (simp add: sum_list_dict_set_same [OF h])
  moreover have "separate (dict_set i k (bk_held b))"
    using inv h unfolding broker_inv_def separate_def by (simp add: same)
  ultimately show ?thesis
    using inv ok unfolding broker_inv_def by (simp add: held_ok_def)
qed

lemma granted_inv:
  assumes inv: "broker_inv g0 now b" and fresh: "map_of (bk_held b) i = None"
    and t: "t \<le> bk_max_ttl b"
  shows "broker_inv g0 now (fst (lease_granted b i d n t now))"
proof -
  obtain g r where rec: "record_reservation (bk_gov b) d n = (g, r)" by fastforce
  note g = record_simps [OF rec]
  have ids: "ids_ok (bk_gov b)" using inv by (simp add: broker_inv_def)
  then have new: "map_of (gv_reservations (bk_gov b)) (gv_next_id (bk_gov b)) = None"
    by (fastforce simp: ids_ok_def)
  have ids': "ids_ok g" using ids by (auto simp: ids_ok_def g(3,4) less_Suc_eq)
  have older: "rv_id (hd_reservation k) \<noteq> gv_next_id (bk_gov b)"
    if "map_of (bk_held b) j = Some k" for j k
    using held_okI [OF inv that] new by (auto simp: held_ok_def)
  show ?thesis
  proof (cases "bk_closed b")
    case True
    have r: "map_of (gv_reservations g) (rv_id r) = Some r" by (simp add: g(1,3))
    note rel = release_simps [OF r]
    have "ids_ok (fst (release_reservation g r))" using ids' by (auto simp: ids_ok_def rel)
    moreover have "reserved (fst (release_reservation g r)) e = reserved (bk_gov b) e" for e
      unfolding rel(1) by (simp add: g(1,2))
    moreover have "held_ok (give_back (b\<lparr>bk_gov := g\<rparr>) r) now k" if "map_of (bk_held b) j = Some k" for j k
      using held_okI [OF inv that] older [OF that] rel(2)
      by (simp add: held_ok_def give_back_def) (simp add: g(1,3))
    ultimately show ?thesis
      using inv True rec by (simp add: lease_granted_def Let_def broker_inv_def leased_def)
        (simp add: give_back_def)
  next
    case False
    let ?h = "\<lparr>hd_lease = \<lparr>ls_id = i, ls_device = d, ls_nbytes = n, ls_expires = now + t\<rparr>,
      hd_released = False, hd_wake = now + t, hd_reservation = r\<rparr>"
    let ?b = "b\<lparr>bk_gov := g, bk_held := dict_set i ?h (bk_held b)\<rparr>"
    have b: "fst (lease_granted b i d n t now) = ?b"
      using False rec by (simp add: lease_granted_def Let_def)
    have "leased e ?b = leased e b + leased_bytes e (i, ?h)" for e
      by (simp add: leased_def sum_list_dict_set_new [OF fresh])
    then have "reserved g e = reserved g0 e + leased e ?b" for e
      using inv by (simp add: broker_inv_def leased_bytes_def g(2))
    moreover have "separate (dict_set i ?h (bk_held b))"
      using inv older unfolding separate_def broker_inv_def by (simp add: g(1)) (metis older)
    moreover have "held_ok ?b now k" if "map_of (bk_held ?b) j = Some k" for j k
    proof (cases "j = i")
      case True
      with that have "k = ?h" by simp
      then show ?thesis using False t by (simp add: held_ok_def g(1,3))
    next
      case False
      with that have old: "map_of (bk_held b) j = Some k" by simp
      show ?thesis using held_okI [OF inv old] older [OF old] \<open>\<not> bk_closed b\<close> by (simp add: held_ok_def g(1,3))
    qed
    ultimately show ?thesis
      using inv ids' unfolding b by (simp add: broker_inv_def)
  qed
qed

lemma wakes_inv:
  assumes inv: "broker_inv g0 now b"
  shows "broker_inv g0 now (holder_wakes b i now)"
proof (cases "map_of (bk_held b) i")
  case (Some h)
  have "broker_inv g0 now (b\<lparr>bk_held := dict_set i (h\<lparr>hd_wake := ls_expires (hd_lease h)\<rparr>) (bk_held b)\<rparr>)"
    using held_okI [OF inv Some] by (intro replace_held_inv [OF inv Some]) (simp_all add: held_ok_def)
  with Some inv end_lease_inv [OF inv Some] show ?thesis by (simp add: holder_wakes_def)
qed (use inv in \<open>simp add: holder_wakes_def\<close>)

lemma release_lease_inv:
  assumes inv: "broker_inv g0 now b"
  shows "broker_inv g0 now (fst (release_lease b i))"
proof (cases "map_of (bk_held b) i")
  case (Some h)
  have "broker_inv g0 now (b\<lparr>bk_held := dict_set i (h\<lparr>hd_released := True\<rparr>) (bk_held b)\<rparr>)"
    using held_okI [OF inv Some] by (intro replace_held_inv [OF inv Some]) (simp_all add: held_ok_def)
  with Some show ?thesis by (simp add: release_lease_def)
qed (use inv in \<open>simp add: release_lease_def\<close>)

lemma clamp_ttl_Inr:
  "clamp_ttl b ttl = Inr t \<longleftrightarrow> 0 < ttl \<and> t = min ttl (bk_max_ttl b)"
  by (auto simp: clamp_ttl_def)

lemma renew_inv:
  assumes inv: "broker_inv g0 now b"
  shows "broker_inv g0 now (fst (renew_lease b i ttl now))"
  unfolding renew_lease_def outcome_fst [symmetric] Let_def
proof (intro outcome_intros inv)
  fix t h
  assume t: "clamp_ttl b ttl = Inr t" and h: "map_of (bk_held b) i = Some h"
  let ?k = "h\<lparr>hd_lease := (hd_lease h)\<lparr>ls_expires := now + t\<rparr>\<rparr>"
  show "broker_inv g0 now (b\<lparr>bk_held := dict_set i ?k (bk_held b)\<rparr>)"
    using held_okI [OF inv h] t
    by (intro replace_held_inv [OF inv h]) (simp_all add: held_ok_def clamp_ttl_Inr)
qed

lemma map_of_mark: "map_of (map (\<lambda>(i, h). (i, f h)) d) i = map_option f (map_of d i)"
  by (induction d) auto

lemma close_inv:
  assumes inv: "broker_inv g0 now b"
  shows "broker_inv g0 now (close_broker b)"
proof -
  have "map fst (bk_held (close_broker b)) = map fst (bk_held b)"
    by (simp add: close_broker_def comp_def case_prod_beta)
  moreover have "leased d (close_broker b) = leased d b" for d
    unfolding leased_def close_broker_def
    by (auto simp: leased_bytes_def intro!: arg_cong [where f = sum_list])
  moreover have "separate (bk_held (close_broker b))"
    using inv unfolding broker_inv_def separate_def close_broker_def
    by (auto simp: map_of_mark)
  moreover have "held_ok (close_broker b) now h" if "map_of (bk_held (close_broker b)) i = Some h" for i h
    using that inv by (auto simp: close_broker_def map_of_mark broker_inv_def held_ok_def)
  ultimately show ?thesis
    using inv by (simp add: broker_inv_def dict_ok_def) (simp add: close_broker_def)
qed

lemma run_lease_inv:
  assumes "broker_inv g0 now b"
    and "\<And>i d n ttl. e = Grant i d n ttl \<Longrightarrow> map_of (bk_held b) i = None \<and> 0 \<le> n"
  shows "broker_inv g0 now (run_lease b now e)"
  using assms
  by (cases e) (auto simp: wakes_inv release_lease_inv renew_inv close_inv clamp_ttl_Inr
    intro: granted_inv split: sum.split)

lemma history_inv: "lease_history g0 now b \<Longrightarrow> ids_ok g0 \<Longrightarrow> broker_inv g0 now b"
proof (induction rule: lease_history.induct)
  case (Init max_ttl b now)
  then show ?case
    by (auto simp: new_broker_def broker_inv_def separate_def leased_def split: if_splits)
next
  case (Event t b now e)
  then show ?case by (blast intro: run_lease_inv broker_inv_later)
qed

section \<open>Waking the holders\<close>

definition wake_all :: "'h broker \<Rightarrow> string list \<Rightarrow> real \<Rightarrow> 'h broker" where
  "wake_all b is now = fold (\<lambda>i b'. holder_wakes b' i now) is b"

definition due :: "real \<Rightarrow> held \<Rightarrow> bool" where
  "due now h \<longleftrightarrow> hd_released h \<or> hd_wake h \<le> now \<and> ls_expires (hd_lease h) \<le> now"

lemma wakes_due:
  assumes "\<forall>i h. map_of (bk_held b) i = Some h \<longrightarrow> due now h"
  shows "map_of (bk_held (holder_wakes b i now)) = (map_of (bk_held b))(i := None)"
proof (cases "map_of (bk_held b) i")
  case (Some h)
  then have "due now h" using assms by blast
  then show ?thesis using Some by (auto simp: holder_wakes_def due_def end_lease_def give_back_def)
qed (auto simp: holder_wakes_def)

lemma wake_all_due:
  assumes "\<forall>i h. map_of (bk_held b) i = Some h \<longrightarrow> due now h"
  shows "map_of (bk_held (wake_all b is now)) = map_of (bk_held b) |` (- set is)"
  using assms
proof (induction "is" arbitrary: b)
  case (Cons i "is")
  have "\<forall>j h. map_of (bk_held (holder_wakes b i now)) j = Some h \<longrightarrow> due now h"
    using Cons.prems by (simp add: wakes_due)
  from Cons.IH [OF this] show ?case
    by (auto simp: wake_all_def wakes_due [OF Cons.prems] restrict_map_def fun_eq_iff)
qed (simp add: wake_all_def restrict_map_def)

lemma wake_all_inv: "broker_inv g0 now b \<Longrightarrow> broker_inv g0 now (wake_all b is now)"
  by (induction "is" arbitrary: b) (simp_all add: wake_all_def wakes_inv)

lemma wake_all_clears:
  assumes inv: "broker_inv g0 now b" and due: "\<forall>i h. map_of (bk_held b) i = Some h \<longrightarrow> due now h"
  shows "bk_held (wake_all b (map fst (bk_held b)) now) = [] \<and>
    reserved (bk_gov (wake_all b (map fst (bk_held b)) now)) d = reserved g0 d"
proof -
  let ?b = "wake_all b (map fst (bk_held b)) now"
  have "map_of (bk_held ?b) = Map.empty"
    unfolding wake_all_due [OF due] by (auto simp: restrict_map_def map_of_eq_None_iff fun_eq_iff)
  then have "bk_held ?b = []" by (cases "bk_held ?b") (auto simp: fun_eq_iff split: if_splits)
  then show ?thesis
    using wake_all_inv [OF inv, of "map fst (bk_held b)"] by (simp add: broker_inv_def leased_def)
qed

text \<open>Two leases of 6 and 3 bytes, the first renewed at time 4.\<close>

definition lease_gov :: "nat governor" where
  "lease_gov = \<lparr>gv_budgets = [(''ram'', 10)], gv_reserved = [], gv_peaks = [], gv_reservations = [],
     gv_shedders = [], gv_next_id = 1, gv_next_order = 0\<rparr>"

definition lease_example :: "nat broker" where
  "lease_example =
     run_lease (run_lease (run_lease
       \<lparr>bk_gov = lease_gov, bk_max_ttl = 300, bk_held = [], bk_closed = False\<rparr>
       1 (Grant ''a'' ''ram'' 6 10)) 2 (Grant ''b'' ''ram'' 3 1000)) 4 (Renew ''a'' 20)"

lemma lease_example_history: "lease_history lease_gov 4 lease_example" "ids_ok lease_gov"
proof -
  let ?b = "\<lparr>bk_gov = lease_gov, bk_max_ttl = 300, bk_held = [], bk_closed = False\<rparr>"
  have 0: "lease_history lease_gov 0 ?b"
    by (rule lease_history.Init [of lease_gov 300]) (simp add: new_broker_def)
  have 1: "lease_history lease_gov 1 (run_lease ?b 1 (Grant ''a'' ''ram'' 6 10))"
    by (rule lease_history.Event [OF 0]) simp_all
  have 2: "lease_history lease_gov 2
      (run_lease (run_lease ?b 1 (Grant ''a'' ''ram'' 6 10)) 2 (Grant ''b'' ''ram'' 3 1000))"
    by (rule lease_history.Event [OF 1])
      (auto simp: clamp_ttl_def lease_granted_def record_reservation_def Let_def)
  show "lease_history lease_gov 4 lease_example"
    unfolding lease_example_def by (rule lease_history.Event [OF 2]) simp_all
qed (simp add: ids_ok_def lease_gov_def)

lemma lease_example_leases:
  "broker_leases lease_example =
     [\<lparr>ls_id = ''a'', ls_device = ''ram'', ls_nbytes = 6, ls_expires = 24\<rparr>,
      \<lparr>ls_id = ''b'', ls_device = ''ram'', ls_nbytes = 3, ls_expires = 302\<rparr>]"
  "map fst (bk_held lease_example) = [''a'', ''b'']" "bk_max_ttl lease_example = 300"
  by (simp_all add: lease_example_def broker_leases_def clamp_ttl_def lease_granted_def Let_def
      record_reservation_def renew_lease_def)

section \<open>Properties\<close>

text \<open>
  The governor's accounts follow the leases exactly: at every moment of every history the
  reserved total of a device is what it was without the broker plus the sizes of the leases held
  on it, whatever was granted, renewed, released, expired, closed or granted after closing.
\<close>
theorem leases_account:
  assumes "lease_history g0 now b" and "ids_ok g0"
  shows "reserved (bk_gov b) d =
    reserved g0 d + sum_list (map (\<lambda>l. if ls_device l = d then ls_nbytes l else 0) (broker_leases b))"
proof -
  have "map (\<lambda>l. if ls_device l = d then ls_nbytes l else 0) (broker_leases b) =
      map (leased_bytes d) (bk_held b)"
    by (simp add: broker_leases_def leased_bytes_def)
  then show ?thesis
    using history_inv [OF assms] by (simp add: broker_inv_def leased_def)
qed

theorem leases_account_witness: "reserved (bk_gov lease_example) ''ram'' = 9"
  using leases_account [OF lease_example_history, of "''ram''"]
  by (simp add: lease_example_leases) (simp add: lease_gov_def reserved_def)

text \<open>
  C31: Silence is release. No lease outlives its last renewal by more than the cap: if nothing is
  renewed or granted after time \<open>T\<close>, then once the holders have woken at any time from
  \<open>T + max_ttl\<close> on, no lease is left and every device is back to what was reserved
  without the broker.
\<close>
theorem silence_releases:
  assumes "lease_history g0 T b" and "ids_ok g0" and "T + bk_max_ttl b \<le> now"
  shows "broker_leases (wake_all b (map fst (bk_held b)) now) = [] \<and>
    reserved (bk_gov (wake_all b (map fst (bk_held b)) now)) d = reserved g0 d"
proof -
  note inv = history_inv [OF assms(1,2)]
  have "due now h" if "map_of (bk_held b) i = Some h" for i h
    using held_okI [OF inv that] assms(3) by (simp add: held_ok_def due_def)
  moreover have "T \<le> now" using inv assms(3) by (simp add: broker_inv_def)
  ultimately show ?thesis
    using wake_all_clears [OF broker_inv_later [OF inv]] by (simp add: broker_leases_def)
qed

theorem silence_releases_witness:
  "reserved (bk_gov (wake_all lease_example [''a'', ''b''] 304)) ''ram'' = 0"
proof -
  have "reserved lease_gov ''ram'' = 0" by (simp add: lease_gov_def reserved_def)
  moreover have "4 + bk_max_ttl lease_example \<le> 304" by (simp add: lease_example_leases)
  ultimately show ?thesis
    using silence_releases [OF lease_example_history, of 304 "''ram''"] by (simp add: lease_example_leases)
qed

text \<open>
  Closing the broker gives everything back: after \<^verbatim>\<open>close\<close>, as soon as the holders
  have run, no lease is left and every device is back to what was reserved without the broker.
\<close>
theorem close_releases_all:
  assumes "lease_history g0 now b" and "ids_ok g0"
  shows "broker_leases (wake_all (close_broker b) (map fst (bk_held (close_broker b))) now) = [] \<and>
    reserved (bk_gov (wake_all (close_broker b) (map fst (bk_held (close_broker b))) now)) d = reserved g0 d"
proof -
  note inv = close_inv [OF history_inv [OF assms]]
  have "due now h" if "map_of (bk_held (close_broker b)) i = Some h" for i h
    using held_okI [OF inv that] by (simp add: held_ok_def due_def close_broker_def)
  then show ?thesis
    using wake_all_clears [OF inv] by (simp add: broker_leases_def)
qed

theorem close_releases_all_witness:
  "reserved (bk_gov (wake_all (close_broker lease_example) [''a'', ''b''] 4)) ''ram'' = 0"
proof -
  have "map fst (bk_held (close_broker lease_example)) = map fst (bk_held lease_example)"
    by (simp add: close_broker_def case_prod_beta comp_def)
  moreover have "reserved lease_gov ''ram'' = 0" by (simp add: lease_gov_def reserved_def)
  ultimately show ?thesis
    using close_releases_all [OF lease_example_history, of "''ram''"] by (simp add: lease_example_leases(2))
qed

text \<open>
  A renewal is a heartbeat that counts: it succeeds only for a lease that has not expired,
  keeps the lease's id, device and size, runs for the clamped time from now, and until then no
  wake-up of the holder gives the memory back unless somebody releases the lease.
\<close>
theorem renewal_keeps_the_lease:
  assumes "renew_lease b i ttl now = (b', Inr (Some l))"
  shows "\<exists>h. map_of (bk_held b) i = Some h \<and> now < ls_expires (hd_lease h) \<and>
    l = (hd_lease h)\<lparr>ls_expires := now + min ttl (bk_max_ttl b)\<rparr> \<and>
    bk_gov b' = bk_gov b \<and>
    (\<forall>ts. \<not> hd_released h \<and> (\<forall>t \<in> set ts. t < ls_expires l) \<longrightarrow>
       map_option hd_lease (map_of (bk_held (fold (\<lambda>t c. holder_wakes c i t) ts b')) i) = Some l \<and>
       bk_gov (fold (\<lambda>t c. holder_wakes c i t) ts b') = bk_gov b)"
proof -
  obtain t h where t: "clamp_ttl b ttl = Inr t" and h: "map_of (bk_held b) i = Some h"
    and live: "now < ls_expires (hd_lease h)"
    and l: "l = (hd_lease h)\<lparr>ls_expires := now + t\<rparr>"
    and b': "b' = b\<lparr>bk_held := dict_set i (h\<lparr>hd_lease := l\<rparr>) (bk_held b)\<rparr>"
    using assms by (auto simp: renew_lease_def attempt_def Let_def split: sum.splits option.splits if_splits)
  have keep: "(\<exists>k. map_of (bk_held (fold (\<lambda>t c. holder_wakes c i t) ts c)) i = Some k \<and> hd_lease k = l) \<and>
      bk_gov (fold (\<lambda>t c. holder_wakes c i t) ts c) = bk_gov c"
    if "\<forall>t \<in> set ts. t < ls_expires l" and "map_of (bk_held c) i = Some k" "hd_lease k = l" "\<not> hd_released k"
    for ts k and c :: "'a broker"
    using that by (induction ts arbitrary: c k) (auto simp: holder_wakes_def)
  have "map_of (bk_held b') i = Some (h\<lparr>hd_lease := l\<rparr>)" by (simp add: b')
  note keep = keep [OF _ this]
  show ?thesis
    using h live l t keep by (auto simp: clamp_ttl_Inr b')
qed

theorem renewal_keeps_the_lease_witness:
  "bk_gov (holder_wakes (fst (renew_lease lease_example ''a'' 50 23)) ''a'' 40) = bk_gov lease_example"
proof -
  let ?l = "\<lparr>ls_id = ''a'', ls_device = ''ram'', ls_nbytes = 6, ls_expires = 73\<rparr>"
  have held: "\<exists>h. map_of (bk_held lease_example) ''a'' = Some h \<and> \<not> hd_released h \<and>
      hd_lease h = ?l\<lparr>ls_expires := 24\<rparr>"
    by (simp add: lease_example_def clamp_ttl_def lease_granted_def Let_def
        record_reservation_def renew_lease_def)
  then obtain b' where "renew_lease lease_example ''a'' 50 23 = (b', Inr (Some ?l))"
    by (auto simp: renew_lease_def clamp_ttl_def lease_example_leases(3) Let_def)
  from renewal_keeps_the_lease [OF this] held this show ?thesis
    by (auto dest!: spec [of _ "[40]"])
qed

text \<open>
  A renewal may also shorten a lease; the holder then sleeps on until the earlier deadline it
  went to sleep with, so an expired lease can keep its memory reserved.
\<close>

lemma shortened_lease_lingers:
  "\<exists>b l. renew_lease lease_example ''b'' 1 5 = (b, Inr (Some l)) \<and> ls_expires l = 6 \<and>
     reserved (bk_gov (holder_wakes b ''b'' 300)) ''ram'' = 9"
  by (simp add: renew_lease_def holder_wakes_def lease_example_def clamp_ttl_def lease_granted_def
      Let_def record_reservation_def reserved_def lease_gov_def)

end
