(* ===== verification/Budgets.thy ===== *)
theory Budgets
  imports Prelude
begin

text \<open>
  Memory configuration: the size and budget parser (\<^verbatim>\<open>dinkster_memory/budgets.py\<close>), the
  accelerator reserve policy (\<^verbatim>\<open>accelerator.py\<close>) and batches of reservations
  (\<^verbatim>\<open>reservations.py\<close>).
\<close>

section \<open>Sizes\<close>

text \<open>\<^verbatim>\<open>str.lower\<close>, \<^verbatim>\<open>str.isdigit\<close> and \<^verbatim>\<open>int\<close> on code points up to 255; the superscripts 1 to 3
  are digits for \<^verbatim>\<open>isdigit\<close> and not for \<^verbatim>\<open>int\<close>.\<close>

definition py_lower_char :: "char \<Rightarrow> char" where
  "py_lower_char c =
     (let n = (of_char c :: nat) in
      if 65 \<le> n \<and> n \<le> 90 \<or> 192 \<le> n \<and> n \<le> 222 \<and> n \<noteq> 215 then char_of (n + 32) else c)"

definition ascii_digit :: "char \<Rightarrow> bool" where
  "ascii_digit c \<longleftrightarrow> 48 \<le> (of_char c :: nat) \<and> (of_char c :: nat) \<le> 57"

definition py_isdigit_char :: "char \<Rightarrow> bool" where
  "py_isdigit_char c \<longleftrightarrow> ascii_digit c \<or> (of_char c :: nat) \<in> {178, 179, 185}"

definition py_isdigit :: "string \<Rightarrow> bool" where
  "py_isdigit s \<longleftrightarrow> s \<noteq> [] \<and> list_all py_isdigit_char s"

definition digits_value :: "string \<Rightarrow> int" where
  "digits_value s = foldl (\<lambda>n c. 10 * n + (int (of_char c) - 48)) 0 s"

definition py_int :: "string \<Rightarrow> int option" where
  "py_int s = (if s \<noteq> [] \<and> list_all ascii_digit s then Some (digits_value s) else None)"

definition mebibyte :: int where
  "mebibyte = 1024 * 1024"

definition gibibyte :: int where
  "gibibyte = 1024 * mebibyte"

definition size_suffixes :: "(char, int) dict" where
  "size_suffixes =
     [(CHR ''k'', 1024), (CHR ''m'', mebibyte), (CHR ''g'', gibibyte), (CHR ''t'', 1024 * gibibyte)]"

datatype size_error = EmptySize | NotByteCount | NotInteger

definition parse_size :: "string \<Rightarrow> size_error + int" where
  "parse_size text =
     (let size = map py_lower_char (py_strip text) in
      if size = [] then Inl EmptySize
      else
        let factor = dict_get_default size_suffixes (last size) 1;
            digits = (if factor \<noteq> 1 then butlast size else size) in
        if \<not> py_isdigit digits then Inl NotByteCount
        else case py_int digits of None \<Rightarrow> Inl NotInteger | Some n \<Rightarrow> Inr (n * factor))"

section \<open>Budgets\<close>

datatype budgets_error =
    ConfigNotTable
  | UnknownTopLevel
  | BudgetsNotTable
  | BadDeviceKey pyobj
  | SizeNotStringOrInt string
  | NegativeSize string
  | BadSize string size_error

definition device_key_ok :: "string \<Rightarrow> bool" where
  "device_key_ok d \<longleftrightarrow> d \<noteq> [] \<and> d = py_strip d \<and> \<not> list_ex py_isspace d"

fun budget_value :: "string \<Rightarrow> pyobj \<Rightarrow> budgets_error + int" where
  "budget_value d (PBool _) = Inl (SizeNotStringOrInt d)"
| "budget_value d (PInt n) = (if n < 0 then Inl (NegativeSize d) else Inr n)"
| "budget_value d (PStr s) = (case parse_size s of Inl e \<Rightarrow> Inl (BadSize d e) | Inr n \<Rightarrow> Inr n)"
| "budget_value d _ = Inl (SizeNotStringOrInt d)"

fun parse_budget_items ::
    "(pyobj \<times> pyobj) list \<Rightarrow> (string, int) dict \<Rightarrow> budgets_error + (string, int) dict" where
  "parse_budget_items [] acc = Inr acc"
| "parse_budget_items ((k, v) # kvs) acc =
     (case k of
        PStr d \<Rightarrow>
          if device_key_ok d
          then and_then (budget_value d v) (\<lambda>n. parse_budget_items kvs (dict_set d n acc))
          else Inl (BadDeviceKey k)
      | _ \<Rightarrow> Inl (BadDeviceKey k))"

fun parse_budgets :: "pyobj \<Rightarrow> budgets_error + (string, int) dict" where
  "parse_budgets (PDict conf) =
     (if \<exists>k \<in> fst ` set conf. k \<noteq> PStr ''budgets'' then Inl UnknownTopLevel
      else case map_of conf (PStr ''budgets'') of
        None \<Rightarrow> parse_budget_items [] []
      | Some (PDict table) \<Rightarrow> parse_budget_items table []
      | Some _ \<Rightarrow> Inl BudgetsNotTable)"
| "parse_budgets _ = Inl ConfigNotTable"

lemma digits_value_nonneg:
  assumes "list_all ascii_digit s"
  shows "0 \<le> digits_value s"
proof -
  have "0 \<le> foldl (\<lambda>n c. 10 * n + (int (of_char c) - 48)) a s" if "0 \<le> a" for a
    using assms that by (induction s arbitrary: a) (simp_all add: ascii_digit_def)
  then show ?thesis by (simp add: digits_value_def)
qed

lemma size_factor_pos: "0 < dict_get_default size_suffixes c 1"
  by (simp add: size_suffixes_def mebibyte_def gibibyte_def)

lemma parse_size_Inr:
  assumes "parse_size s = Inr n"
  obtains ds c where "list_all ascii_digit ds" and "n = digits_value ds * dict_get_default size_suffixes c 1"
proof -
  let ?size = "map py_lower_char (py_strip s)"
  let ?factor = "dict_get_default size_suffixes (last ?size) 1"
  let ?digits = "if ?factor \<noteq> 1 then butlast ?size else ?size"
  have "(case py_int ?digits of None \<Rightarrow> Inl NotInteger | Some m \<Rightarrow> Inr (m * ?factor)) = Inr n"
    using assms unfolding parse_size_def Let_def by (metis Inl_Inr_False)
  then have "list_all ascii_digit ?digits" and "n = digits_value ?digits * ?factor"
    by (auto simp only: py_int_def split: option.splits if_splits)
  then show ?thesis by (rule that)
qed

lemma parse_size_nonneg: "parse_size s = Inr n \<Longrightarrow> 0 \<le> n"
  using digits_value_nonneg size_factor_pos less_imp_le by (metis parse_size_Inr mult_nonneg_nonneg)

lemma budget_value_nonneg: "budget_value d v = Inr n \<Longrightarrow> 0 \<le> n"
  using parse_size_nonneg by (cases v) (auto split: if_splits sum.splits)

lemma parse_budget_items_values:
  assumes "parse_budget_items kvs acc = Inr b" and "distinct (map fst kvs)"
    and "\<And>d. PStr d \<in> fst ` set kvs \<Longrightarrow> map_of acc d = None"
  shows "map_of b d = (case map_of kvs (PStr d) of
      None \<Rightarrow> map_of acc d
    | Some v \<Rightarrow> (case budget_value d v of Inl _ \<Rightarrow> None | Inr n \<Rightarrow> Some n))"
    and "\<forall>k \<in> fst ` set kvs. \<exists>d. k = PStr d \<and> device_key_ok d"
    and "\<forall>d v. (PStr d, v) \<in> set kvs \<longrightarrow> (\<exists>n. budget_value d v = Inr n)"
  using assms
proof (induction kvs arbitrary: acc)
  case (Cons kv kvs)
  obtain k v where kv: "kv = (k, v)" by (cases kv)
  { case 1
    then obtain e n where k: "k = PStr e" "device_key_ok e" "budget_value e v = Inr n"
      "parse_budget_items kvs (dict_set e n acc) = Inr b"
      unfolding kv by (cases k) (auto simp: and_then_Inr_iff split: if_splits)
    have "PStr e \<notin> fst ` set kvs" using 1 kv k by simp
    then have none: "map_of kvs (PStr e) = None" by (simp add: map_of_eq_None_iff)
    have "map_of b d = (case map_of kvs (PStr d) of
        None \<Rightarrow> map_of (dict_set e n acc) d
      | Some v \<Rightarrow> (case budget_value d v of Inl _ \<Rightarrow> None | Inr n \<Rightarrow> Some n))"
      using 1 kv k by (intro Cons.IH(1)) auto
    then show ?case using none kv k by (auto split: option.split)
  next
    case 2
    then obtain e n where k: "k = PStr e" "device_key_ok e"
      "parse_budget_items kvs (dict_set e n acc) = Inr b"
      unfolding kv by (cases k) (auto simp: and_then_Inr_iff split: if_splits)
    have "\<forall>k \<in> fst ` set kvs. \<exists>d. k = PStr d \<and> device_key_ok d"
      using 2 kv k by (intro Cons.IH(2) [OF k(3)]) auto
    then show ?case using kv k by auto
  next
    case 3
    then obtain e n where k: "k = PStr e" "budget_value e v = Inr n"
      "parse_budget_items kvs (dict_set e n acc) = Inr b"
      unfolding kv by (cases k) (auto simp: and_then_Inr_iff split: if_splits)
    have "\<forall>d v. (PStr d, v) \<in> set kvs \<longrightarrow> (\<exists>n. budget_value d v = Inr n)"
      using 3 kv k by (intro Cons.IH(3) [OF k(3)]) auto
    then show ?case using kv k by auto
  }
qed auto

section \<open>The accelerator policy\<close>

definition default_accelerator_headroom :: int where
  "default_accelerator_headroom = 256 * mebibyte"

text \<open>\<^verbatim>\<open>int(0.8 * GIBIBYTE)\<close>: the double 0.8 times a power of two, truncated.\<close>

definition default_inference_reserve :: int where
  "default_inference_reserve = 858993459"

datatype policy_error = NotNonNegative string | BadTotal

fun non_negative_bytes :: "pyobj \<Rightarrow> string \<Rightarrow> policy_error + int" where
  "non_negative_bytes (PInt n) name = (if n < 0 then Inl (NotNonNegative name) else Inr n)"
| "non_negative_bytes _ name = Inl (NotNonNegative name)"

record accelerator_policy =
  ap_headroom :: int
  ap_reserve :: int

record resolved_policy =
  rp_total :: int
  rp_headroom :: int
  rp_reserve :: int
  rp_hard_budget :: "int option"
  rp_effective_budget :: int
  rp_budget_headroom :: int
  rp_capacity :: int

definition make_policy :: "pyobj \<Rightarrow> pyobj \<Rightarrow> policy_error + accelerator_policy" where
  "make_policy headroom reserve =
     and_then (non_negative_bytes headroom ''physical accelerator headroom'') (\<lambda>h.
     and_then (non_negative_bytes reserve ''inference working reserve'') (\<lambda>r.
       Inr \<lparr>ap_headroom = h, ap_reserve = r\<rparr>))"

definition policy_minimum_free :: "accelerator_policy \<Rightarrow> int" where
  "policy_minimum_free p = ap_headroom p + ap_reserve p"

definition resolve_policy ::
    "accelerator_policy \<Rightarrow> pyobj \<Rightarrow> pyobj \<Rightarrow> policy_error + resolved_policy" where
  "resolve_policy p total_bytes hard =
     and_then (case total_bytes of PInt n \<Rightarrow> if n < 0 then Inl BadTotal else Inr n | _ \<Rightarrow> Inl BadTotal) (\<lambda>t.
     and_then (case hard of
                 PNone \<Rightarrow> Inr None
               | v \<Rightarrow> and_then (non_negative_bytes v ''hard accelerator budget'') (\<lambda>b. Inr (Some b))) (\<lambda>h.
       let effective = (case h of None \<Rightarrow> t | Some b \<Rightarrow> min t b) in
       Inr \<lparr>rp_total = t, rp_headroom = ap_headroom p, rp_reserve = ap_reserve p,
            rp_hard_budget = h, rp_effective_budget = effective,
            rp_budget_headroom = t - effective,
            rp_capacity = max 0 (effective - policy_minimum_free p)\<rparr>))"

lemma non_negative_bytes_Inr: "non_negative_bytes v name = Inr n \<longleftrightarrow> v = PInt n \<and> 0 \<le> n"
  by (cases v) auto

lemma resolve_policy_Inr:
  assumes "resolve_policy p total_bytes hard = Inr r"
  obtains t h where "0 \<le> t" and "\<And>b. h = Some b \<Longrightarrow> 0 \<le> b"
    and "r = (let effective = (case h of None \<Rightarrow> t | Some b \<Rightarrow> min t b) in
      \<lparr>rp_total = t, rp_headroom = ap_headroom p, rp_reserve = ap_reserve p,
       rp_hard_budget = h, rp_effective_budget = effective, rp_budget_headroom = t - effective,
       rp_capacity = max 0 (effective - policy_minimum_free p)\<rparr>)"
proof -
  from assms obtain t h where
    t: "(case total_bytes of PInt n \<Rightarrow> if n < 0 then Inl BadTotal else Inr n | _ \<Rightarrow> Inl BadTotal) = Inr t"
    and h: "(case hard of PNone \<Rightarrow> Inr None
      | v \<Rightarrow> and_then (non_negative_bytes v ''hard accelerator budget'') (\<lambda>b. Inr (Some b))) = Inr h"
    and r: "r = (let effective = (case h of None \<Rightarrow> t | Some b \<Rightarrow> min t b) in
      \<lparr>rp_total = t, rp_headroom = ap_headroom p, rp_reserve = ap_reserve p,
       rp_hard_budget = h, rp_effective_budget = effective, rp_budget_headroom = t - effective,
       rp_capacity = max 0 (effective - policy_minimum_free p)\<rparr>)"
    unfolding resolve_policy_def by (auto simp: and_then_Inr_iff Let_def)
  have "0 \<le> t" using t by (cases total_bytes) (auto split: if_splits)
  moreover have "0 \<le> b" if "h = Some b" for b
    using h that by (cases hard) (auto simp: and_then_Inr_iff split: if_splits)
  ultimately show ?thesis using r that by blast
qed

definition resolved_minimum_free :: "resolved_policy \<Rightarrow> int" where
  "resolved_minimum_free r = rp_headroom r + rp_reserve r"

definition insufficient_total :: "resolved_policy \<Rightarrow> bool" where
  "insufficient_total r \<longleftrightarrow> rp_total r < resolved_minimum_free r"

definition budget_exceeds_total :: "resolved_policy \<Rightarrow> bool" where
  "budget_exceeds_total r \<longleftrightarrow> (case rp_hard_budget r of None \<Rightarrow> False | Some b \<Rightarrow> rp_total r < b)"

section \<open>Batches of reservations\<close>

record reservation_request =
  rq_residency :: string
  rq_nbytes :: int

definition make_request :: "string \<Rightarrow> int \<Rightarrow> reservation_request option" where
  "make_request residency n =
     (if residency = [] \<or> n < 0 then None else Some \<lparr>rq_residency = residency, rq_nbytes = n\<rparr>)"

definition merge_requests :: "reservation_request list \<Rightarrow> (string, int) dict" where
  "merge_requests rs =
     foldl (\<lambda>d r. dict_set (rq_residency r) (dict_get_default d (rq_residency r) 0 + rq_nbytes r) d) [] rs"

text \<open>The reservations a batch makes, in the order it makes them.\<close>

definition acquisition_order :: "reservation_request list \<Rightarrow> (string \<times> int) list" where
  "acquisition_order rs =
     map (\<lambda>k. (k, dict_get_default (merge_requests rs) k 0)) (sort (map fst (merge_requests rs)))"

lemma merge_requests_snoc:
  "merge_requests (rs @ [r]) =
     dict_set (rq_residency r) (dict_get_default (merge_requests rs) (rq_residency r) 0 + rq_nbytes r)
       (merge_requests rs)"
  by (simp add: merge_requests_def)

lemma merge_requests_ok: "dict_ok (merge_requests rs)"
  by (induction rs rule: rev_induct) (simp_all add: merge_requests_snoc, simp add: merge_requests_def)

lemma merge_requests_keys: "fst ` set (merge_requests rs) = rq_residency ` set rs"
  by (induction rs rule: rev_induct) (simp_all add: merge_requests_snoc, simp add: merge_requests_def)

lemma merge_requests_total:
  "dict_get_default (merge_requests rs) k 0 =
     sum_list (map rq_nbytes (filter (\<lambda>r. rq_residency r = k) rs))"
  by (induction rs rule: rev_induct) (auto simp: merge_requests_snoc, simp add: merge_requests_def)

lemma acquisition_order_sorted:
  "sorted (map fst (acquisition_order rs))" "distinct (map fst (acquisition_order rs))"
  using merge_requests_ok [of rs] by (simp_all add: acquisition_order_def comp_def dict_ok_def)

text \<open>A batch part-way through its order: what it holds and what it asks for next.\<close>

record batch =
  bt_requests :: "reservation_request list"
  bt_done :: nat

definition batch_holds :: "batch \<Rightarrow> string set" where
  "batch_holds b = set (take (bt_done b) (map fst (acquisition_order (bt_requests b))))"

definition batch_wants :: "batch \<Rightarrow> string option" where
  "batch_wants b =
     (let ks = map fst (acquisition_order (bt_requests b)) in
      if bt_done b < length ks then Some (ks ! bt_done b) else None)"

definition batch_blocks :: "(batch \<times> batch) set" where
  "batch_blocks = {(a, b). \<exists>k. batch_wants a = Some k \<and> k \<in> batch_holds b}"

lemma holds_below_wants:
  assumes "k \<in> batch_holds b" and "batch_wants b = Some m"
  shows "k < m"
proof -
  let ?ks = "map fst (acquisition_order (bt_requests b))"
  have m: "bt_done b < length ?ks" "m = ?ks ! bt_done b"
    using assms(2) by (auto simp: batch_wants_def Let_def split: if_splits)
  obtain i where i: "i < bt_done b" "k = ?ks ! i"
    using assms(1) by (auto simp: batch_holds_def in_set_conv_nth)
  have "?ks ! i \<le> ?ks ! bt_done b"
    using acquisition_order_sorted(1) i(1) m(1) by (intro sorted_nth_mono) simp_all
  moreover have "?ks ! i \<noteq> ?ks ! bt_done b"
    using acquisition_order_sorted(2) [of "bt_requests b"] i(1) m(1)
    by (metis nth_eq_iff_index_eq less_trans less_irrefl)
  ultimately show ?thesis using i(2) m(2) by simp
qed

section \<open>Properties\<close>

text \<open>
  C32: Two or more batches of reservations cannot deadlock each other: however far each has come,
  no batch waits, directly or through others, for a residency class it holds itself. Each batch
  asks once per class, for the sum of what it requested of it.
\<close>
theorem batches_never_deadlock:
  "acyclic batch_blocks \<and>
   distinct (map fst (acquisition_order rs)) \<and>
   set (acquisition_order rs) =
     (\<lambda>k. (k, sum_list (map rq_nbytes (filter (\<lambda>r. rq_residency r = k) rs)))) ` rq_residency ` set rs"
proof -
  have chain: "\<exists>k. batch_wants a = Some k \<and> (\<forall>m. batch_wants b = Some m \<longrightarrow> k < m)"
    if "(a, b) \<in> batch_blocks\<^sup>+" for a b
    using that
  proof (induction rule: trancl_induct)
    case (base b)
    then show ?case using holds_below_wants by (auto simp: batch_blocks_def)
  next
    case (step b c)
    then obtain k m where "batch_wants a = Some k" "batch_wants b = Some m" "k < m" "m \<in> batch_holds c"
      by (auto simp: batch_blocks_def)
    then show ?case using holds_below_wants by (metis less_trans)
  qed
  have "acyclic batch_blocks"
    unfolding acyclic_def using chain by (metis less_irrefl)
  moreover have "set (acquisition_order rs) =
     (\<lambda>k. (k, sum_list (map rq_nbytes (filter (\<lambda>r. rq_residency r = k) rs)))) ` rq_residency ` set rs"
    by (simp add: acquisition_order_def merge_requests_total merge_requests_keys)
  ultimately show ?thesis using acquisition_order_sorted(2) by blast
qed

text \<open>
  A configuration is accepted exactly when every device key is a non-empty string without
  whitespace and every size parses; the budgets are then those sizes, none negative, so the
  governor accepts them.
\<close>
theorem budgets_parse_exactly:
  assumes "distinct (map fst table)"
  shows "case parse_budgets (PDict [(PStr ''budgets'', PDict table)]) of
      Inl _ \<Rightarrow> \<exists>(k, v) \<in> set table. \<forall>d n. k = PStr d \<longrightarrow> device_key_ok d \<longrightarrow> budget_value d v \<noteq> Inr n
    | Inr b \<Rightarrow> \<forall>d. map_of b d = map_option (\<lambda>v. projr (budget_value d v)) (map_of table (PStr d)) \<and>
        (\<forall>n. map_of b d = Some n \<longrightarrow> 0 \<le> n \<and> device_key_ok d)"
proof (cases "parse_budgets (PDict [(PStr ''budgets'', PDict table)])")
  case (Inl e)
  then have "parse_budget_items table [] = Inl e" by simp
  moreover have "\<exists>(k, v) \<in> set kvs. \<forall>d n. k = PStr d \<longrightarrow> device_key_ok d \<longrightarrow> budget_value d v \<noteq> Inr n"
    if "parse_budget_items kvs acc = Inl e" for kvs acc
    using that
  proof (induction kvs arbitrary: acc)
    case (Cons kv kvs)
    obtain k v where kv: "kv = (k, v)" by (cases kv)
    show ?case
    proof (cases "\<exists>d n. k = PStr d \<and> device_key_ok d \<and> budget_value d v = Inr n")
      case True
      then obtain d n where "k = PStr d" "device_key_ok d" "budget_value d v = Inr n" by blast
      with Cons kv show ?thesis by fastforce
    next
      case False
      then show ?thesis unfolding kv by auto
    qed
  qed simp
  ultimately show ?thesis using Inl by auto
next
  case (Inr b)
  then have items: "parse_budget_items table [] = Inr b" by simp
  note vals = parse_budget_items_values [OF items assms, simplified]
  have "map_of b d = map_option (\<lambda>v. projr (budget_value d v)) (map_of table (PStr d))" for d
    using vals(1) [of d] vals(3) by (fastforce dest: map_of_SomeD split: option.splits sum.splits)
  moreover have "0 \<le> n \<and> device_key_ok d" if "map_of b d = Some n" for d n
    using vals(1) [of d] vals(2) that budget_value_nonneg
    by (force dest: map_of_SomeD split: option.splits sum.splits)
  ultimately show ?thesis using Inr by simp
qed

theorem budgets_parse_exactly_witness:
  "\<exists>b. parse_budgets (PDict [(PStr ''budgets'', PDict [(PStr ''ram'', PStr '' 8G '')])]) = Inr b \<and>
     map_of b ''ram'' = Some (8 * gibibyte)"
proof -
  let ?t = "[(PStr ''ram'', PStr '' 8G '')]"
  have "isl (parse_budgets (PDict [(PStr ''budgets'', PDict ?t)])) = False" by code_simp
  then obtain b where b: "parse_budgets (PDict [(PStr ''budgets'', PDict ?t)]) = Inr b"
    by (cases "parse_budgets (PDict [(PStr ''budgets'', PDict ?t)])") auto
  have "budget_value ''ram'' (PStr '' 8G '') = Inr (8 * gibibyte)" by code_simp
  moreover have "distinct (map fst ?t)" by simp
  ultimately show ?thesis
    using budgets_parse_exactly [of ?t] b by simp
qed

text \<open>
  Resolving an accelerator policy never promises memory the device or the budget does not
  have: the residency capacity and the minimum kept free fit in the effective budget, which is
  the smaller of the total and the hard budget.
\<close>
theorem resolved_policy_fits:
  assumes "make_policy headroom reserve = Inr p" and "resolve_policy p total_bytes hard = Inr r"
  shows "0 \<le> rp_capacity r \<and> rp_effective_budget r \<le> rp_total r \<and>
    (\<forall>b. rp_hard_budget r = Some b \<longrightarrow> rp_effective_budget r \<le> b) \<and>
    (0 < rp_capacity r \<longrightarrow> rp_capacity r + resolved_minimum_free r = rp_effective_budget r) \<and>
    rp_effective_budget r + rp_budget_headroom r = rp_total r \<and>
    (insufficient_total r \<longrightarrow> rp_capacity r = 0)"
proof -
  have p: "0 \<le> ap_headroom p" "0 \<le> ap_reserve p"
    using assms(1) by (auto simp: make_policy_def and_then_Inr_iff non_negative_bytes_Inr)
  obtain t h where "0 \<le> t" and h: "\<And>b. h = Some b \<Longrightarrow> 0 \<le> b"
    and r: "r = (let effective = (case h of None \<Rightarrow> t | Some b \<Rightarrow> min t b) in
      \<lparr>rp_total = t, rp_headroom = ap_headroom p, rp_reserve = ap_reserve p,
       rp_hard_budget = h, rp_effective_budget = effective, rp_budget_headroom = t - effective,
       rp_capacity = max 0 (effective - policy_minimum_free p)\<rparr>)"
    using resolve_policy_Inr [OF assms(2)] by blast
  then show ?thesis
    using p by (cases h) (auto simp: Let_def policy_minimum_free_def resolved_minimum_free_def
        insufficient_total_def)
qed

theorem resolved_policy_fits_witness:
  "rp_capacity (projr (resolve_policy \<lparr>ap_headroom = 10, ap_reserve = 20\<rparr> (PInt 100) (PInt 80))) +
     resolved_minimum_free (projr (resolve_policy \<lparr>ap_headroom = 10, ap_reserve = 20\<rparr> (PInt 100) (PInt 80))) = 80"
proof -
  let ?p = "\<lparr>ap_headroom = 10, ap_reserve = 20\<rparr>"
  have p: "make_policy (PInt 10) (PInt 20) = Inr ?p" by (simp add: make_policy_def)
  obtain r where r: "resolve_policy ?p (PInt 100) (PInt 80) = Inr r" "0 < rp_capacity r"
    "rp_effective_budget r = 80"
    by (simp add: resolve_policy_def policy_minimum_free_def Let_def)
  from resolved_policy_fits [OF p r(1)] r show ?thesis by simp
qed

end
