(* ===== verification/Type_Ids.thy ===== *)
theory Type_Ids
  imports Prelude
begin

text \<open>
  Runtime type ids (\<^verbatim>\<open>dinkster_values/lists.py\<close>, \<^verbatim>\<open>tuples.py\<close>,
  \<^verbatim>\<open>streams.py\<close>, \<^verbatim>\<open>assets.py\<close>): strings such as
  \<^verbatim>\<open>list<asset<IMAGE>>\<close> with one printer and one parser per constructor, and the two
  walks that look for the atoms inside an id. \<open>rtype\<close> is the grammar the strings stand for.
\<close>

section \<open>Strings\<close>

definition py_startswith :: "string \<Rightarrow> string \<Rightarrow> bool" where
  "py_startswith s p \<longleftrightarrow> take (length p) s = p"

definition py_endswith :: "string \<Rightarrow> string \<Rightarrow> bool" where
  "py_endswith s p \<longleftrightarrow> length p \<le> length s \<and> drop (length s - length p) s = p"

fun py_join :: "string \<Rightarrow> string list \<Rightarrow> string" where
  "py_join sep [] = []"
| "py_join sep [x] = x"
| "py_join sep (x # y # xs) = x @ sep @ py_join sep (y # xs)"

section \<open>Constructors\<close>

definition list_type_id :: "string \<Rightarrow> string" where
  "list_type_id t = ''list<'' @ t @ ''>''"

definition parse_list_type_id :: "string \<Rightarrow> string option" where
  "parse_list_type_id s =
     (if py_startswith s ''list<'' \<and> py_endswith s ''>'' \<and> length s > 6
      then Some (butlast (drop 5 s)) else None)"

definition asset_type_id :: "string \<Rightarrow> string" where
  "asset_type_id t = ''asset<'' @ t @ ''>''"

definition parse_asset_type_id :: "string \<Rightarrow> string option" where
  "parse_asset_type_id s =
     (if py_startswith s ''asset<'' \<and> py_endswith s ''>'' \<and> length s > 7
      then Some (butlast (drop 6 s)) else None)"

definition stream_type_id :: "string \<Rightarrow> string" where
  "stream_type_id t = ''stream<'' @ t @ ''>''"

definition parse_stream_type_id :: "string \<Rightarrow> string option" where
  "parse_stream_type_id s =
     (if py_startswith s ''stream<'' \<and> py_endswith s ''>'' \<and> length s > 8
      then Some (butlast (drop 7 s)) else None)"

definition tuple_type_id :: "string list \<Rightarrow> string" where
  "tuple_type_id ts = ''tuple<'' @ py_join '','' ts @ ''>''"

text \<open>
  The loop over the characters of a tuple's body: the depth of open brackets, and the characters
  since the last position started.
\<close>

fun tuple_split :: "nat \<Rightarrow> string \<Rightarrow> string \<Rightarrow> string list option" where
  "tuple_split depth cur [] = (if depth \<noteq> 0 then None else Some [cur])"
| "tuple_split depth cur (c # cs) =
     (if c = CHR ''<'' then tuple_split (Suc depth) (cur @ [c]) cs
      else if c = CHR ''>''
      then (case depth of 0 \<Rightarrow> None | Suc d \<Rightarrow> tuple_split d (cur @ [c]) cs)
      else if c = CHR '','' \<and> depth = 0 then map_option ((#) cur) (tuple_split 0 [] cs)
      else tuple_split depth (cur @ [c]) cs)"

definition parse_tuple_type_id :: "string \<Rightarrow> string list option" where
  "parse_tuple_type_id s =
     (if \<not> py_startswith s ''tuple<'' \<or> \<not> py_endswith s ''>'' then None
      else let body = butlast (drop 6 s) in
        if body = [] then Some []
        else case tuple_split 0 [] body of
               None \<Rightarrow> None
             | Some positions \<Rightarrow> if [] \<in> set positions then None else Some positions)"

subsection \<open>Parsers invert printers\<close>

lemma endswith_iff: "py_endswith s p \<longleftrightarrow> (\<exists>t. s = t @ p)"
  unfolding py_endswith_def by (metis append_take_drop_id append_eq_conv_conj diff_add_inverse2
      le_add2 length_append)

lemma startswith_iff: "py_startswith s p \<longleftrightarrow> (\<exists>t. s = p @ t)"
  unfolding py_startswith_def by (metis append_eq_conv_conj append_take_drop_id)

lemma bracket_parse:
  assumes "length p = n"
  shows "(if py_startswith s p \<and> py_endswith s ''>'' \<and> Suc n < length s
      then Some (butlast (drop n s)) else None) = Some t \<longleftrightarrow> t \<noteq> [] \<and> s = p @ t @ ''>''"
proof
  assume l: "(if py_startswith s p \<and> py_endswith s ''>'' \<and> Suc n < length s
      then Some (butlast (drop n s)) else None) = Some t"
  then have a: "py_startswith s p" "py_endswith s ''>''" "Suc n < length s" "t = butlast (drop n s)"
    by (auto split: if_splits)
  obtain u where u: "s = p @ u" using a(1) startswith_iff by blast
  with a(3) assms have "1 < length u" by simp
  moreover obtain v where "s = v @ ''>''" using a(2) endswith_iff by blast
  ultimately obtain w where "u = w @ ''>''" using u
    by (cases u rule: rev_cases) auto
  with u a(4) assms \<open>1 < length u\<close> show "t \<noteq> [] \<and> s = p @ t @ ''>''"
    by (auto simp: butlast_append)
next
  assume "t \<noteq> [] \<and> s = p @ t @ ''>''"
  then have "s = (p @ t) @ ''>''" "t \<noteq> []" by simp_all
  then have "py_endswith s ''>''" "py_startswith s p" "Suc n < length s" "butlast (drop n s) = t"
    using assms by (auto simp: endswith_iff startswith_iff butlast_append)
  then show "(if py_startswith s p \<and> py_endswith s ''>'' \<and> Suc n < length s
      then Some (butlast (drop n s)) else None) = Some t" by simp
qed

lemma parse_list_iff: "parse_list_type_id s = Some t \<longleftrightarrow> t \<noteq> [] \<and> s = list_type_id t"
  using bracket_parse [of "''list<''" 5] by (simp add: parse_list_type_id_def list_type_id_def)

lemma parse_asset_iff: "parse_asset_type_id s = Some t \<longleftrightarrow> t \<noteq> [] \<and> s = asset_type_id t"
  using bracket_parse [of "''asset<''" 6] by (simp add: parse_asset_type_id_def asset_type_id_def)

lemma parse_stream_iff: "parse_stream_type_id s = Some t \<longleftrightarrow> t \<noteq> [] \<and> s = stream_type_id t"
  using bracket_parse [of "''stream<''" 7] by (simp add: parse_stream_type_id_def stream_type_id_def)

text \<open>
  \<open>closed_at d p\<close>: reading \<open>p\<close> at depth \<open>d\<close> meets no separator of the tuple and comes back to
  the same depth.
\<close>

fun depth_after :: "nat \<Rightarrow> string \<Rightarrow> nat option" where
  "depth_after d [] = Some d"
| "depth_after d (c # cs) =
     (if c = CHR ''<'' then depth_after (Suc d) cs
      else if c = CHR ''>'' then (case d of 0 \<Rightarrow> None | Suc e \<Rightarrow> depth_after e cs)
      else if c = CHR '','' \<and> d = 0 then None
      else depth_after d cs)"

definition closed_id :: "string \<Rightarrow> bool" where
  "closed_id p \<longleftrightarrow> (\<forall>d. depth_after d p = Some d)"

lemma depth_after_append:
  "depth_after d (p @ q) = (case depth_after d p of None \<Rightarrow> None | Some e \<Rightarrow> depth_after e q)"
  by (induction d p rule: depth_after.induct) (auto split: nat.split option.split)

lemma closed_idD: "closed_id p \<Longrightarrow> depth_after d p = Some d"
  by (simp add: closed_id_def)

lemma closed_atom: "\<forall>c \<in> set p. c \<noteq> CHR ''<'' \<and> c \<noteq> CHR ''>'' \<and> c \<noteq> CHR '','' \<Longrightarrow> closed_id p"
  unfolding closed_id_def by (induction p) auto

lemma closed_bracket:
  assumes "\<forall>c \<in> set n. c \<noteq> CHR ''<'' \<and> c \<noteq> CHR ''>'' \<and> c \<noteq> CHR '',''"
    and "\<And>d. depth_after (Suc d) t = Some (Suc d)"
  shows "closed_id (n @ ''<'' @ t @ ''>'')"
  using closed_idD [OF closed_atom [OF assms(1)]] assms(2)
  by (simp add: closed_id_def depth_after_append)

lemma depth_after_join:
  "\<forall>t \<in> set ts. closed_id t \<Longrightarrow> depth_after (Suc d) (py_join '','' ts) = Some (Suc d)"
  by (induction "'',''" ts rule: py_join.induct) (simp_all add: depth_after_append closed_idD)

lemma tuple_split_append:
  "depth_after d p = Some e \<Longrightarrow> tuple_split d cur (p @ q) = tuple_split e (cur @ p) q"
  by (induction d p arbitrary: cur rule: depth_after.induct) (auto split: if_splits nat.splits)

lemma tuple_split_join:
  "ts \<noteq> [] \<Longrightarrow> \<forall>t \<in> set ts. closed_id t \<Longrightarrow> tuple_split 0 [] (py_join '','' ts) = Some ts"
proof (induction "'',''" ts rule: py_join.induct)
  case (2 x)
  then show ?case using tuple_split_append [of 0 x 0 "[]" "[]"] by (simp add: closed_idD)
next
  case (3 x y xs)
  then have "tuple_split 0 [] (x @ '','' @ py_join '','' (y # xs)) =
      tuple_split 0 x ('','' @ py_join '','' (y # xs))"
    using tuple_split_append [of 0 x 0 "[]"] by (simp add: closed_idD)
  with 3 show ?case by simp
qed simp

lemma tuple_split_sound:
  "tuple_split d cur body = Some ts \<Longrightarrow> ts \<noteq> [] \<and> py_join '','' ts = cur @ body"
proof (induction d cur body arbitrary: ts rule: tuple_split.induct)
  case (2 depth cur c cs)
  show ?case
  proof (cases "c = CHR '','' \<and> depth = 0")
    case True
    with 2(5) obtain us where "tuple_split 0 [] cs = Some us" "ts = cur # us" by auto
    with 2(3) True show ?thesis by (cases us) auto
  next
    case False
    with 2 show ?thesis by (auto split: if_splits nat.splits)
  qed
qed (auto split: if_splits)

lemma parse_tuple_sound:
  assumes "parse_tuple_type_id s = Some ts"
  shows "s = tuple_type_id ts \<and> [] \<notin> set ts"
proof -
  have s: "py_startswith s ''tuple<''" "py_endswith s ''>''"
    using assms by (auto simp: parse_tuple_type_id_def split: if_splits)
  obtain u where u: "s = ''tuple<'' @ u" using s(1) startswith_iff by blast
  obtain v where "s = v @ ''>''" using s(2) endswith_iff by blast
  with u obtain w where w: "u = w @ ''>''" by (cases u rule: rev_cases) auto
  have "butlast (drop 6 s) = w" by (simp add: u w)
  then have "[] \<notin> set ts \<and> py_join '','' ts = w"
    using assms s tuple_split_sound [of 0 "[]" w]
    by (auto simp: parse_tuple_type_id_def Let_def split: if_splits option.splits)
  then show ?thesis by (simp add: tuple_type_id_def u w)
qed

lemma parse_tuple_complete:
  assumes "\<forall>t \<in> set ts. closed_id t \<and> t \<noteq> []"
  shows "parse_tuple_type_id (tuple_type_id ts) = Some ts"
proof -
  have s: "py_startswith (tuple_type_id ts) ''tuple<''" "py_endswith (tuple_type_id ts) ''>''"
    unfolding startswith_iff endswith_iff tuple_type_id_def by (blast, simp)
  have "py_join '','' ts = [] \<longleftrightarrow> ts = []"
    using assms by (induction "'',''" ts rule: py_join.induct) auto
  moreover have "butlast (drop 6 (tuple_type_id ts)) = py_join '','' ts"
    by (simp add: tuple_type_id_def)
  ultimately show ?thesis
    using s assms tuple_split_join [of ts] by (auto simp: parse_tuple_type_id_def Let_def)
qed

text \<open>The four constructors never overlap.\<close>

lemmas type_id_defs = list_type_id_def asset_type_id_def stream_type_id_def tuple_type_id_def

lemma parsers_disjoint [simp]:
  "parse_asset_type_id (list_type_id t) = None" "parse_stream_type_id (list_type_id t) = None"
  "parse_tuple_type_id (list_type_id t) = None" "parse_list_type_id (asset_type_id t) = None"
  "parse_stream_type_id (asset_type_id t) = None" "parse_tuple_type_id (asset_type_id t) = None"
  "parse_list_type_id (stream_type_id t) = None" "parse_asset_type_id (stream_type_id t) = None"
  "parse_tuple_type_id (stream_type_id t) = None" "parse_list_type_id (tuple_type_id ts) = None"
  "parse_asset_type_id (tuple_type_id ts) = None" "parse_stream_type_id (tuple_type_id ts) = None"
  by (simp_all add: type_id_defs parse_list_type_id_def parse_asset_type_id_def
      parse_stream_type_id_def parse_tuple_type_id_def py_startswith_def)

lemma parsers_invert [simp]:
  "t \<noteq> [] \<Longrightarrow> parse_list_type_id (list_type_id t) = Some t"
  "t \<noteq> [] \<Longrightarrow> parse_asset_type_id (asset_type_id t) = Some t"
  "t \<noteq> [] \<Longrightarrow> parse_stream_type_id (stream_type_id t) = Some t"
  by (simp_all add: parse_list_iff parse_asset_iff parse_stream_iff)

section \<open>Walks\<close>

definition bracket_free :: "string \<Rightarrow> bool" where
  "bracket_free s \<longleftrightarrow> CHR ''<'' \<notin> set s \<and> CHR ''>'' \<notin> set s"

definition inner_type_id :: "string \<Rightarrow> string option" where
  "inner_type_id s =
     (case parse_list_type_id s of
        Some t \<Rightarrow> Some t
      | None \<Rightarrow> (case parse_asset_type_id s of Some t \<Rightarrow> Some t | None \<Rightarrow> parse_stream_type_id s))"

lemma inner_type_id_cases:
  assumes "inner_type_id s = Some t"
  shows "s = list_type_id t \<or> s = asset_type_id t \<or> s = stream_type_id t"
proof -
  have "parse_list_type_id s = Some t \<or> parse_asset_type_id s = Some t \<or> parse_stream_type_id s = Some t"
    using assms by (simp add: inner_type_id_def split: option.splits)
  then show ?thesis unfolding parse_list_iff parse_asset_iff parse_stream_iff by blast
qed

lemma inner_type_id_shorter: "inner_type_id s = Some t \<Longrightarrow> length t < length s"
  by (auto simp: inner_type_id_def parse_list_iff parse_asset_iff parse_stream_iff type_id_defs
      split: option.splits)

function runtime_type_atom :: "string \<Rightarrow> string option" where
  "runtime_type_atom s =
     (if parse_list_type_id s = Some ''*'' then None
      else case inner_type_id s of
        Some t \<Rightarrow> runtime_type_atom t
      | None \<Rightarrow> if s = [] \<or> \<not> bracket_free s then None else Some s)"
  by auto
termination
  by (relation "measure length") (auto dest: inner_type_id_shorter)

declare runtime_type_atom.simps [simp del]

text \<open>The stack of \<^verbatim>\<open>runtime_type_atoms\<close>, its top first, and the atoms seen so far.\<close>

lemma py_join_length: "sum_list (map (\<lambda>t. length t + 1) ts) \<le> length (py_join '','' ts) + 1"
  by (induction "'',''" ts rule: py_join.induct) simp_all

lemma tuple_positions_shorter:
  assumes "parse_tuple_type_id s = Some ts"
  shows "sum_list (map (\<lambda>t. length t + 1) ts) < length s + 1"
  using py_join_length [of ts] parse_tuple_sound [OF assms] by (simp add: tuple_type_id_def)

function type_atoms_loop :: "string list \<Rightarrow> string list \<Rightarrow> string list option" where
  "type_atoms_loop [] atoms = Some atoms"
| "type_atoms_loop (s # pending) atoms =
     (case parse_tuple_type_id s of
        Some positions \<Rightarrow> type_atoms_loop (positions @ pending) atoms
      | None \<Rightarrow>
          if parse_list_type_id s = Some ''*'' then type_atoms_loop pending atoms
          else case inner_type_id s of
            Some t \<Rightarrow> type_atoms_loop (t # pending) atoms
          | None \<Rightarrow>
              if s = [] \<or> \<not> bracket_free s \<or> CHR '','' \<in> set s then None
              else type_atoms_loop pending (if s \<in> set atoms then atoms else atoms @ [s]))"
  by pat_completeness auto
termination
  by (relation "measure (\<lambda>(pending, _). sum_list (map (\<lambda>t. length t + 1) pending))")
    (auto dest: inner_type_id_shorter tuple_positions_shorter)

definition runtime_type_atoms :: "string \<Rightarrow> string list option" where
  "runtime_type_atoms s = type_atoms_loop [s] []"

section \<open>The grammar\<close>

datatype rtype =
    RAtom string
  | RList rtype
  | RAsset rtype
  | RStream rtype
  | RTuple "rtype list"

fun type_id_of :: "rtype \<Rightarrow> string" where
  "type_id_of (RAtom a) = a"
| "type_id_of (RList t) = list_type_id (type_id_of t)"
| "type_id_of (RAsset t) = asset_type_id (type_id_of t)"
| "type_id_of (RStream t) = stream_type_id (type_id_of t)"
| "type_id_of (RTuple ts) = tuple_type_id (map type_id_of ts)"

definition atom_ok :: "string \<Rightarrow> bool" where
  "atom_ok a \<longleftrightarrow> a \<noteq> [] \<and> bracket_free a \<and> CHR '','' \<notin> set a"

fun rtype_ok :: "rtype \<Rightarrow> bool" where
  "rtype_ok (RAtom a) = atom_ok a"
| "rtype_ok (RList t) = rtype_ok t"
| "rtype_ok (RAsset t) = rtype_ok t"
| "rtype_ok (RStream t) = rtype_ok t"
| "rtype_ok (RTuple ts) = list_all rtype_ok ts"

text \<open>The atoms in order of first position; the wildcard element of a list is none.\<close>

fun leaves :: "rtype \<Rightarrow> string list" where
  "leaves (RAtom a) = [a]"
| "leaves (RList t) = (if t = RAtom ''*'' then [] else leaves t)"
| "leaves (RAsset t) = leaves t"
| "leaves (RStream t) = leaves t"
| "leaves (RTuple ts) = concat (map leaves ts)"

definition add_atom :: "string \<Rightarrow> string list \<Rightarrow> string list" where
  "add_atom a atoms = (if a \<in> set atoms then atoms else atoms @ [a])"

lemma type_id_nonempty: "rtype_ok t \<Longrightarrow> type_id_of t \<noteq> []"
  by (cases t) (auto simp: type_id_defs atom_ok_def)

lemma type_id_closed: "rtype_ok t \<Longrightarrow> closed_id (type_id_of t)"
proof (induction t)
  case (RAtom a)
  then show ?case by (intro closed_atom) (auto simp: atom_ok_def bracket_free_def)
next
  case (RList t)
  then show ?case using closed_bracket [of "''list''"] by (simp add: list_type_id_def closed_idD)
next
  case (RAsset t)
  then show ?case using closed_bracket [of "''asset''"] by (simp add: asset_type_id_def closed_idD)
next
  case (RStream t)
  then show ?case using closed_bracket [of "''stream''"] by (simp add: stream_type_id_def closed_idD)
next
  case (RTuple ts)
  then have "\<forall>t \<in> set (map type_id_of ts). closed_id t" by (auto simp: list_all_iff)
  then show ?case
    using closed_bracket [of "''tuple''"] by (simp add: tuple_type_id_def depth_after_join)
qed

lemma parse_type_id_of:
  "rtype_ok (RTuple ts) \<Longrightarrow> parse_tuple_type_id (type_id_of (RTuple ts)) = Some (map type_id_of ts)"
  unfolding type_id_of.simps
  by (rule parse_tuple_complete) (use type_id_nonempty in \<open>auto simp: list_all_iff type_id_closed\<close>)

lemma atom_parses_none:
  assumes "bracket_free a"
  shows "parse_list_type_id a = None" "parse_asset_type_id a = None" "parse_stream_type_id a = None"
    "parse_tuple_type_id a = None"
proof -
  have n: "a \<noteq> p @ ''<'' @ t" for p t using assms by (auto simp: bracket_free_def)
  show "parse_list_type_id a = None" "parse_asset_type_id a = None" "parse_stream_type_id a = None"
    using parse_list_iff [of a] parse_asset_iff [of a] parse_stream_iff [of a]
      n [of "''list''"] n [of "''asset''"] n [of "''stream''"]
    by (auto simp: list_type_id_def asset_type_id_def stream_type_id_def not_None_eq [symmetric] simp del: not_None_eq)
  show "parse_tuple_type_id a = None"
    using parse_tuple_sound [of a] n [of "''tuple''"] by (cases "parse_tuple_type_id a") (auto simp: tuple_type_id_def)
qed

lemma type_id_inject:
  "rtype_ok t \<Longrightarrow> rtype_ok u \<Longrightarrow> type_id_of t = type_id_of u \<Longrightarrow> t = u"
proof (induction t arbitrary: u)
  case (RAtom a)
  then have "bracket_free (type_id_of u)" by (simp add: atom_ok_def)
  with RAtom.prems(3) show ?case by (cases u) (auto simp: bracket_free_def type_id_defs)
next
  case (RList t)
  then show ?case by (cases u) (auto simp: type_id_defs atom_ok_def bracket_free_def)
next
  case (RAsset t)
  then show ?case by (cases u) (auto simp: type_id_defs atom_ok_def bracket_free_def)
next
  case (RStream t)
  then show ?case by (cases u) (auto simp: type_id_defs atom_ok_def bracket_free_def)
next
  case (RTuple ts)
  show ?case
  proof (cases u)
    case (RTuple us)
    with RTuple.prems parse_type_id_of [of ts] parse_type_id_of [of us]
    have m: "map type_id_of ts = map type_id_of us" by simp
    have "ts = us"
    proof (rule nth_equalityI)
      show l: "length ts = length us" using map_eq_imp_length_eq [OF m] .
      fix i assume i: "i < length ts"
      with m l have "type_id_of (ts ! i) = type_id_of (us ! i)" by (metis nth_map)
      with RTuple.IH [of "ts ! i" "us ! i"] RTuple.prems RTuple i l show "ts ! i = us ! i"
        by (simp add: list_all_length)
    qed
    with RTuple show ?thesis by simp
  qed (use RTuple.prems in \<open>auto simp: type_id_defs atom_ok_def bracket_free_def\<close>)
qed

lemma wildcard_id: "rtype_ok t \<Longrightarrow> type_id_of t = ''*'' \<longleftrightarrow> t = RAtom ''*''"
  using type_id_inject [of t "RAtom ''*''"] by (auto simp: atom_ok_def bracket_free_def)

lemma atoms_loop_complete:
  "list_all rtype_ok ts \<Longrightarrow>
     type_atoms_loop (map type_id_of ts @ pending) atoms =
     type_atoms_loop pending (fold add_atom (concat (map leaves ts)) atoms)"
proof (induction "size_list size ts" arbitrary: ts pending atoms rule: less_induct)
  case less
  show ?case
  proof (cases ts)
    case (Cons t us)
    note IH = less.hyps [OF _ _]
    have us: "type_atoms_loop (map type_id_of us @ pending) atoms' =
        type_atoms_loop pending (fold add_atom (concat (map leaves us)) atoms')" for atoms'
      using less.prems Cons by (intro less.hyps) simp_all
    have one: "type_atoms_loop (type_id_of v # map type_id_of us @ pending) atoms =
        type_atoms_loop (map type_id_of us @ pending) (fold add_atom (leaves v) atoms)"
      if "rtype_ok v" "size v < size t" for v
      using less.hyps [of "[v]" "map type_id_of us @ pending" atoms] that Cons by simp
    show ?thesis
    proof (cases t)
      case (RAtom a)
      with less.prems Cons have "atom_ok a" by simp
      then have "parse_list_type_id a = None" "inner_type_id a = None" "parse_tuple_type_id a = None"
        "a \<noteq> []" "bracket_free a" "CHR '','' \<notin> set a"
        by (auto simp: atom_ok_def atom_parses_none inner_type_id_def)
      then show ?thesis using RAtom Cons us by (simp add: add_atom_def)
    next
      case (RList v)
      with less.prems Cons have v: "rtype_ok v" by simp
      note n = type_id_nonempty [OF v]
      have "inner_type_id (list_type_id (type_id_of v)) = Some (type_id_of v)"
        by (simp add: inner_type_id_def n)
      then show ?thesis using RList Cons us one [OF v] wildcard_id [OF v] n by simp
    next
      case (RAsset v)
      with less.prems Cons have v: "rtype_ok v" by simp
      note n = type_id_nonempty [OF v]
      have "inner_type_id (asset_type_id (type_id_of v)) = Some (type_id_of v)"
        by (simp add: inner_type_id_def n)
      then show ?thesis using RAsset Cons us one [OF v] n by simp
    next
      case (RStream v)
      with less.prems Cons have v: "rtype_ok v" by simp
      note n = type_id_nonempty [OF v]
      have "inner_type_id (stream_type_id (type_id_of v)) = Some (type_id_of v)"
        by (simp add: inner_type_id_def n)
      then show ?thesis using RStream Cons us one [OF v] n by simp
    next
      case (RTuple vs)
      with less.prems Cons have vs: "list_all rtype_ok vs" by simp
      have "size_list size vs < size_list size ts" using RTuple Cons by simp
      from less.hyps [OF this vs] show ?thesis
        using RTuple Cons us parse_type_id_of [of vs] vs by simp
    qed
  qed simp
qed

declare type_atoms_loop.simps(2) [simp del]

lemma atoms_loop_sound:
  "type_atoms_loop pending atoms = Some as \<Longrightarrow>
     \<exists>ts. list_all rtype_ok ts \<and> pending = map type_id_of ts"
proof (induction pending atoms rule: type_atoms_loop.induct)
  case (1 atoms)
  then show ?case by simp
next
  case (2 s pending atoms)
  note step = type_atoms_loop.simps(2) [of s pending atoms]
  show ?case
  proof (cases "parse_tuple_type_id s")
    case (Some positions)
    with 2 obtain ts where ts: "list_all rtype_ok ts" "positions @ pending = map type_id_of ts" by (auto simp: step)
    then obtain us vs where uv: "ts = us @ vs" "positions = map type_id_of us" "pending = map type_id_of vs"
      by (metis append_eq_map_conv)
    have "s = type_id_of (RTuple us)" using parse_tuple_sound [OF Some] uv(2) by simp
    then show ?thesis using ts uv by (intro exI [of _ "RTuple us # vs"]) simp
  next
    case tuple: None
    show ?thesis
    proof (cases "parse_list_type_id s = Some ''*''")
      case True
      with 2 tuple obtain ts where ts: "list_all rtype_ok ts" "pending = map type_id_of ts" by (auto simp: step)
      have "s = type_id_of (RList (RAtom ''*''))" using True by (simp add: parse_list_iff)
      then show ?thesis
        using ts by (intro exI [of _ "RList (RAtom ''*'') # ts"]) (simp add: atom_ok_def bracket_free_def)
    next
      case list: False
      show ?thesis
      proof (cases "inner_type_id s")
        case (Some t)
        have loop: "type_atoms_loop (t # pending) atoms = Some as"
          using 2(5) tuple list Some by (simp add: step)
        obtain ts where ts: "list_all rtype_ok ts" "t # pending = map type_id_of ts"
          using 2(3) [OF tuple list Some loop] by (elim exE conjE)
        obtain v vs where v: "ts = v # vs" "t = type_id_of v" "pending = map type_id_of vs"
          using map_eq_Cons_D [OF ts(2) [symmetric]] by blast
        have "s = list_type_id t \<or> s = asset_type_id t \<or> s = stream_type_id t"
          by (rule inner_type_id_cases [OF Some])
        then have "s = type_id_of (RList v) \<or> s = type_id_of (RAsset v) \<or> s = type_id_of (RStream v)"
          unfolding v(2) by simp
        moreover have "list_all rtype_ok (w # vs) \<and> s # pending = map type_id_of (w # vs)"
          if "s = type_id_of w" "rtype_ok w" for w using that ts(1) v(1,3) by simp
        ultimately show ?thesis
          using ts(1) unfolding v(1) by (metis list.pred_inject(2) rtype_ok.simps(2,3,4))
      next
        case None
        with 2 tuple list have ok: "atom_ok s" by (auto simp: atom_ok_def step split: if_splits)
        with 2 tuple list None obtain ts where "list_all rtype_ok ts" "pending = map type_id_of ts"
          by (auto simp: atom_ok_def step split: if_splits)
        then show ?thesis using ok by (intro exI [of _ "RAtom s # ts"]) simp
      qed
    qed
  qed
qed

text \<open>Reading an id back: the type it spells.\<close>

lemma runtime_type_atoms_of:
  assumes "rtype_ok t"
  shows "runtime_type_atoms (type_id_of t) = Some (fold add_atom (leaves t) [])"
  using atoms_loop_complete [of "[t]" "[]" "[]"] assms
  unfolding runtime_type_atoms_def by simp

lemma runtime_type_atoms_iff:
  "runtime_type_atoms s = Some as \<longleftrightarrow>
     (\<exists>t. rtype_ok t \<and> s = type_id_of t \<and> as = fold add_atom (leaves t) [])"
proof
  assume a: "runtime_type_atoms s = Some as"
  then obtain t where t: "rtype_ok t" "s = type_id_of t"
    using atoms_loop_sound [of "[s]" "[]" as]
    unfolding runtime_type_atoms_def by auto
  with a show "\<exists>t. rtype_ok t \<and> s = type_id_of t \<and> as = fold add_atom (leaves t) []"
    using runtime_type_atoms_of [OF t(1)] by auto
qed (use runtime_type_atoms_of in blast)

section \<open>Properties\<close>

text \<open>
  Type ids are canonical. The walk over an id accepts exactly the spellings of the types of
  the grammar, every accepted id spells one type only, and the answer is that type's atoms in
  order of first position without repetition; everything else is refused.
\<close>
theorem type_ids_are_canonical:
  "runtime_type_atoms s = Some as \<longleftrightarrow>
     (\<exists>!t. rtype_ok t \<and> s = type_id_of t) \<and>
     (\<exists>t. rtype_ok t \<and> s = type_id_of t \<and> as = fold add_atom (leaves t) [])"
  unfolding runtime_type_atoms_iff using type_id_inject by metis

end
