(* ===== verification/Names.thy ===== *)
theory Names
  imports Type_Ids
begin

text \<open>
  The shared name grammar (\<^verbatim>\<open>dinkster_values/names.py\<close>): which names are valid, what a
  namespace claim covers, and when two claims cannot have different owners.
\<close>

section \<open>Grammar\<close>

definition name_max :: nat where
  "name_max = 64"

definition reserved_namespaces :: "string list" where
  "reserved_namespaces = [''std'', ''comfy'', ''core'', ''dinkster'']"

definition ascii_lower :: "char \<Rightarrow> bool" where
  "ascii_lower c \<longleftrightarrow> 97 \<le> (of_char c :: nat) \<and> (of_char c :: nat) \<le> 122"

definition ascii_upper :: "char \<Rightarrow> bool" where
  "ascii_upper c \<longleftrightarrow> 65 \<le> (of_char c :: nat) \<and> (of_char c :: nat) \<le> 90"

definition ascii_num :: "char \<Rightarrow> bool" where
  "ascii_num c \<longleftrightarrow> 48 \<le> (of_char c :: nat) \<and> (of_char c :: nat) \<le> 57"

definition name_sep :: "char \<Rightarrow> bool" where
  "name_sep c \<longleftrightarrow> c \<in> set ''-_.''"

text \<open>
  The tail of both patterns: segments of \<open>word\<close> characters between single \<open>sep\<close> characters;
  \<open>fresh\<close> says that a separator was just read.
\<close>

fun segments_ok :: "(char \<Rightarrow> bool) \<Rightarrow> (char \<Rightarrow> bool) \<Rightarrow> bool \<Rightarrow> string \<Rightarrow> bool" where
  "segments_ok word sep fresh [] = (\<not> fresh)"
| "segments_ok word sep fresh (c # cs) =
     (if word c then segments_ok word sep False cs
      else sep c \<and> \<not> fresh \<and> segments_ok word sep True cs)"

fun name_re :: "string \<Rightarrow> bool" where
  "name_re [] = False"
| "name_re (c # cs) =
     (ascii_lower c \<and> segments_ok (\<lambda>c. ascii_lower c \<or> ascii_num c) name_sep False cs)"

fun claim_re :: "string \<Rightarrow> bool" where
  "claim_re [] = False"
| "claim_re (c # cs) =
     ((ascii_lower c \<or> ascii_upper c) \<and>
      segments_ok (\<lambda>c. ascii_lower c \<or> ascii_upper c \<or> ascii_num c)
        (\<lambda>c. name_sep c \<or> c = CHR '' '') False cs)"

datatype name_problem = EmptyName | TooLong nat | BadName

definition validate_name :: "string \<Rightarrow> name_problem option" where
  "validate_name s =
     (if s = [] then Some EmptyName
      else if length s > name_max then Some (TooLong (length s))
      else if \<not> name_re s then Some BadName
      else None)"

definition validate_claim :: "string \<Rightarrow> name_problem option" where
  "validate_claim s =
     (if s = [] then Some EmptyName
      else if length s > name_max then Some (TooLong (length s))
      else if \<not> claim_re s then Some BadName
      else None)"

section \<open>Atoms\<close>

text \<open>
  \<^verbatim>\<open>str.casefold\<close> on the code points up to 255. The micro sign folds to a letter beyond them
  that nothing else here folds to, so leaving it alone compares the same.
\<close>

definition py_casefold_char :: "char \<Rightarrow> string" where
  "py_casefold_char c =
     (let n = (of_char c :: nat) in
      if n = 223 then ''ss''
      else if 65 \<le> n \<and> n \<le> 90 \<or> 192 \<le> n \<and> n \<le> 222 \<and> n \<noteq> 215 then [char_of (n + 32)]
      else [c])"

definition py_casefold :: "string \<Rightarrow> string" where
  "py_casefold s = concat (map py_casefold_char s)"

fun split_atoms :: "string \<Rightarrow> string list \<times> char list" where
  "split_atoms [] = ([[]], [])"
| "split_atoms (c # cs) =
     (case split_atoms cs of (atoms, seps) \<Rightarrow>
        if name_sep c then ([] # atoms, c # seps)
        else ((c # hd atoms) # tl atoms, seps))"

abbreviation atoms_of :: "string \<Rightarrow> string list" where
  "atoms_of s \<equiv> fst (split_atoms s)"

definition folded_atoms :: "string \<Rightarrow> string list" where
  "folded_atoms s = map py_casefold (atoms_of s)"

definition canonical_name :: "string \<Rightarrow> string" where
  "canonical_name s = py_join ''-'' (folded_atoms s)"

definition canonical_claim :: "string \<Rightarrow> string" where
  "canonical_claim s = (if validate_name s = None then canonical_name s else s)"

section \<open>Coverage and conflict\<close>

definition claim_covers :: "string \<Rightarrow> string \<Rightarrow> bool" where
  "claim_covers claim node_type =
     (if validate_name claim \<noteq> None then claim = node_type
      else
        let claim_atoms = atoms_of claim; (node_atoms, node_seps) = split_atoms node_type;
            edge = length claim_atoms in
        if length node_atoms \<le> edge then False
        else if \<not> list_all (\<lambda>(c, n). py_casefold c = py_casefold n) (zip claim_atoms (take edge node_atoms))
        then False
        else node_seps ! (edge - 1) = CHR ''.'')"

definition claims_conflict :: "string \<Rightarrow> string \<Rightarrow> bool" where
  "claims_conflict a b =
     (if validate_name a \<noteq> None \<and> validate_name b \<noteq> None then a = b
      else if validate_name a \<noteq> None then claim_covers b a
      else if validate_name b \<noteq> None then claim_covers a b
      else
        let (x, y) = (if length (folded_atoms a) > length (folded_atoms b)
                      then (folded_atoms b, folded_atoms a) else (folded_atoms a, folded_atoms b)) in
        take (length x) y = x)"

definition reserved_root :: "string \<Rightarrow> string option" where
  "reserved_root claim = find (\<lambda>root. claim = root \<or> claims_conflict root claim) reserved_namespaces"

section \<open>Lemmas\<close>

lemma split_atoms_shape: "length (atoms_of s) = Suc (length (snd (split_atoms s)))"
  by (induction s) (auto split: prod.splits)

lemma atoms_nonempty [simp]: "atoms_of s \<noteq> []"
  using split_atoms_shape [of s] by auto

lemma atoms_no_sep: "a \<in> set (atoms_of s) \<Longrightarrow> c \<in> set a \<Longrightarrow> \<not> name_sep c"
proof (induction s arbitrary: a)
  case (Cons d s)
  obtain as ss where s: "split_atoms s = (as, ss)" by fastforce
  with atoms_nonempty [of s] obtain x xs where x: "as = x # xs" by (cases as) auto
  have "\<not> name_sep c" if "c \<in> set y" "y \<in> set (x # xs)" for y
    using Cons.IH [of y] that s x by simp
  then have "\<forall>y \<in> set (x # xs). c \<in> set y \<longrightarrow> \<not> name_sep c" by blast
  with Cons.prems s x show ?case by (auto split: if_splits)
qed simp

text \<open>Joining the atoms with their separators gives the name back.\<close>

fun interleave :: "string list \<Rightarrow> char list \<Rightarrow> string" where
  "interleave (a # as) (c # cs) = a @ c # interleave as cs"
| "interleave as [] = concat as"
| "interleave [] cs = cs"

lemma split_atoms_join: "interleave (fst (split_atoms s)) (snd (split_atoms s)) = s"
proof (induction s)
  case (Cons d s)
  obtain as ss where s: "split_atoms s = (as, ss)" by fastforce
  with atoms_nonempty [of s] obtain x xs where x: "as = x # xs" by (cases as) auto
  from Cons s x show ?case by (cases ss) auto
qed simp

lemma covers_exact: "validate_name a = Some p \<Longrightarrow> claim_covers a n \<longleftrightarrow> a = n"
  by (simp add: claim_covers_def)

lemma covers_namespace:
  assumes "validate_name a = None"
  shows "claim_covers a n \<longleftrightarrow>
     length (folded_atoms a) < length (folded_atoms n) \<and>
     take (length (folded_atoms a)) (folded_atoms n) = folded_atoms a \<and>
     snd (split_atoms n) ! (length (folded_atoms a) - 1) = CHR ''.''"
proof -
  have "list_all (\<lambda>(c, n). py_casefold c = py_casefold n) (zip x (take (length x) y)) \<longleftrightarrow>
      take (length x) (map py_casefold y) = map py_casefold x" if "length x < length y" for x y
    using that by (induction x y rule: list_induct2') auto
  from this [of "atoms_of a" "atoms_of n"] show ?thesis
    using assms by (auto simp: claim_covers_def folded_atoms_def Let_def case_prod_beta)
qed

lemma conflict_namespaces:
  assumes "validate_name a = None" "validate_name b = None"
  shows "claims_conflict a b \<longleftrightarrow>
     take (length (folded_atoms a)) (folded_atoms b) = folded_atoms a \<or>
     take (length (folded_atoms b)) (folded_atoms a) = folded_atoms b"
  using assms by (auto simp: claims_conflict_def Let_def dest: arg_cong [where f = length])

lemma claims_conflict_sym: "claims_conflict a b = claims_conflict b a"
  by (cases "validate_name a"; cases "validate_name b")
    (auto simp: conflict_namespaces, auto simp: claims_conflict_def)

text \<open>A valid name starts with a letter, so its first atom is not empty.\<close>

lemma name_first_atom:
  assumes "validate_name a = None"
  shows "hd (folded_atoms a) \<noteq> []"
proof -
  obtain c cs where a: "a = c # cs" "ascii_lower c"
    using assms by (cases a) (auto simp: validate_name_def split: if_splits)
  have "\<not> name_sep c" using a(2) by (auto simp: ascii_lower_def name_sep_def)
  moreover obtain as ss where "split_atoms cs = (as, ss)" by fastforce
  moreover have "py_casefold (c # x) \<noteq> []" for x
    by (simp add: py_casefold_def py_casefold_char_def Let_def)
  ultimately show ?thesis by (simp add: a folded_atoms_def)
qed

lemma take_le_eq:
  assumes "take (length x) n = x" "take (length y) n = y" "length x \<le> length y"
  shows "take (length x) y = x"
  using assms by (metis min_absorb1 take_take)

text \<open>The lookup of reserved roots tries them in some order; at most one can answer.\<close>

lemma reserved_roots_exclusive:
  assumes "r \<in> set reserved_namespaces" "q \<in> set reserved_namespaces"
    and "claim = r \<or> claims_conflict r claim" and "claim = q \<or> claims_conflict q claim"
  shows "r = q"
proof -
  have roots: "list_all (\<lambda>t. validate_name t = None) reserved_namespaces"
    "list_all (\<lambda>t. folded_atoms t = [t]) reserved_namespaces" by code_simp+
  have root: "hd (folded_atoms claim) = t"
    if t: "t \<in> set reserved_namespaces" "claim = t \<or> claims_conflict t claim" for t
  proof -
    have v: "validate_name t = None" and f: "folded_atoms t = [t]"
      using roots t(1) by (auto simp: list_all_iff)
    have ne: "folded_atoms claim \<noteq> []" by (simp add: folded_atoms_def)
    show ?thesis
    proof (cases "claim = t")
      case False
      then have c: "claims_conflict t claim" using t(2) by blast
      show ?thesis
      proof (cases "validate_name claim")
        case None
        then show ?thesis
          using c ne unfolding conflict_namespaces [OF v None] f
          by (cases "folded_atoms claim") auto
      next
        case (Some p)
        then have "claim_covers t claim" using c v by (simp add: claims_conflict_def)
        then show ?thesis
          using ne unfolding covers_namespace [OF v] f by (cases "folded_atoms claim") auto
      qed
    qed (simp add: f)
  qed
  from root [OF assms(1,3)] root [OF assms(2,4)] show ?thesis by simp
qed

section \<open>Properties\<close>

text \<open>
  Claims are exclusive: if two claims cover the same node type, they conflict, so claims that
  may have different owners never cover a common node type, whatever separators and letter case
  the names use.
\<close>
theorem claims_are_exclusive:
  assumes "claim_covers a n" and "claim_covers b n"
  shows "claims_conflict a b"
proof (cases "validate_name a = None \<and> validate_name b = None")
  case True
  note cov = covers_namespace [OF conjunct1 [OF True], of n] covers_namespace [OF conjunct2 [OF True], of n]
  show ?thesis
    unfolding conflict_namespaces [OF conjunct1 [OF True] conjunct2 [OF True]]
    using assms cov take_le_eq nat_le_linear by metis
next
  case False
  then show ?thesis
    using assms by (auto simp: claims_conflict_def covers_exact)
qed

theorem claims_are_exclusive_witness: "claims_conflict ''img'' ''img.filters''"
proof (rule claims_are_exclusive)
  show "claim_covers ''img'' ''Img.filters.Blur''" by code_simp
  show "claim_covers ''img.filters'' ''Img.filters.Blur''" by code_simp
qed

end
