(* ===== verification/Type_Exprs.thy ===== *)
theory Type_Exprs
  imports Type_Ids
begin

text \<open>
  Type expressions of node interfaces (\<^verbatim>\<open>dinkster_schema/model.py\<close>), the solver that binds
  template variables from the types of received values (\<^verbatim>\<open>solve.py\<close>) and the planning of
  asset coercions (\<^verbatim>\<open>coerce.py\<close>).
\<close>

section \<open>Expressions\<close>

datatype elem_index = IndexInt int | IndexInput string

text \<open>
  One constructor per kind, with the fields that kind may carry; a tuple element refers to an
  input by name or, once elaborated, to an expression.
\<close>

datatype type_expr =
    Concrete string
  | Union "string list"
  | Wildcard
  | Variable string "string list"
  | ListOf type_expr
  | AssetOf type_expr
  | StreamOf type_expr
  | TupleOf "type_expr list"
  | FamilyTuple string
  | TupleElementInput string elem_index
  | TupleElementOf type_expr elem_index

definition structured_id :: "string \<Rightarrow> bool" where
  "structured_id s \<longleftrightarrow> parse_tuple_type_id s \<noteq> None \<or> parse_stream_type_id s \<noteq> None \<or>
     parse_list_type_id s \<noteq> None \<or> parse_asset_type_id s \<noteq> None"

definition index_ok :: "elem_index \<Rightarrow> bool" where
  "index_ok i \<longleftrightarrow> i \<noteq> IndexInput []"

text \<open>The checks of \<^verbatim>\<open>__post_init__\<close> that the constructors do not already impose.\<close>

fun expr_ok :: "type_expr \<Rightarrow> bool" where
  "expr_ok (Concrete s) = (\<not> structured_id s)"
| "expr_ok (Union ts) = (2 \<le> length ts \<and> \<not> list_ex structured_id ts)"
| "expr_ok Wildcard = True"
| "expr_ok (Variable v ts) = (v \<noteq> [] \<and> \<not> list_ex structured_id ts)"
| "expr_ok (ListOf e) = expr_ok e"
| "expr_ok (AssetOf e) = expr_ok e"
| "expr_ok (StreamOf e) = expr_ok e"
| "expr_ok (TupleOf es) = list_all expr_ok es"
| "expr_ok (FamilyTuple f) = (f \<noteq> [])"
| "expr_ok (TupleElementInput f i) = (f \<noteq> [] \<and> index_ok i)"
| "expr_ok (TupleElementOf e i) = (expr_ok e \<and> index_ok i)"

fun requires_elaboration :: "type_expr \<Rightarrow> bool" where
  "requires_elaboration (ListOf e) = requires_elaboration e"
| "requires_elaboration (AssetOf e) = requires_elaboration e"
| "requires_elaboration (StreamOf e) = requires_elaboration e"
| "requires_elaboration (TupleOf es) = list_ex requires_elaboration es"
| "requires_elaboration (FamilyTuple f) = (f \<noteq> [])"
| "requires_elaboration (TupleElementInput f i) = (f \<noteq> [] \<or> (case i of IndexInput _ \<Rightarrow> True | IndexInt _ \<Rightarrow> False))"
| "requires_elaboration (TupleElementOf e i) =
     ((case i of IndexInput _ \<Rightarrow> True | IndexInt _ \<Rightarrow> False) \<or> requires_elaboration e)"
| "requires_elaboration _ = False"

fun accepts_concrete :: "type_expr \<Rightarrow> string \<Rightarrow> bool"
  and accept_positions :: "type_expr list \<Rightarrow> string list \<Rightarrow> bool" where
  "accepts_concrete Wildcard s = True"
| "accepts_concrete (Variable _ ts) s = (ts = [] \<or> s \<in> set ts)"
| "accepts_concrete (TupleOf es) s =
     (case parse_tuple_type_id s of None \<Rightarrow> False | Some ps \<Rightarrow> accept_positions es ps)"
| "accepts_concrete (StreamOf e) s =
     (case parse_stream_type_id s of None \<Rightarrow> False | Some t \<Rightarrow> accepts_concrete e t)"
| "accepts_concrete (ListOf e) s =
     (case parse_list_type_id s of None \<Rightarrow> False | Some t \<Rightarrow> accepts_concrete e t)"
| "accepts_concrete (AssetOf e) s =
     (case parse_asset_type_id s of None \<Rightarrow> False | Some t \<Rightarrow> accepts_concrete e t)"
| "accepts_concrete (Concrete t) s = (s = t)"
| "accepts_concrete (Union ts) s = (s \<in> set ts)"
| "accepts_concrete (FamilyTuple _) s = False"
| "accepts_concrete (TupleElementInput _ _) s = False"
| "accepts_concrete (TupleElementOf _ _) s = False"
| "accept_positions [] [] = True"
| "accept_positions (e # es) (p # ps) = (accepts_concrete e p \<and> accept_positions es ps)"
| "accept_positions _ _ = False"

fun runtime_type_id :: "type_expr \<Rightarrow> string option"
  and runtime_positions :: "type_expr list \<Rightarrow> string list option" where
  "runtime_type_id (Concrete s) = Some s"
| "runtime_type_id (TupleOf es) = map_option tuple_type_id (runtime_positions es)"
| "runtime_type_id (StreamOf e) = map_option stream_type_id (runtime_type_id e)"
| "runtime_type_id (ListOf e) =
     (if e = Wildcard then Some (list_type_id ''*'') else map_option list_type_id (runtime_type_id e))"
| "runtime_type_id (AssetOf e) = map_option asset_type_id (runtime_type_id e)"
| "runtime_type_id _ = None"
| "runtime_positions [] = Some []"
| "runtime_positions (e # es) =
     (case (runtime_type_id e, runtime_positions es) of (Some s, Some ss) \<Rightarrow> Some (s # ss) | _ \<Rightarrow> None)"

datatype cardinality = Scalar | Listed | Unknown

definition runtime_cardinality :: "string \<Rightarrow> cardinality" where
  "runtime_cardinality s = (if parse_list_type_id s \<noteq> None then Listed else Scalar)"

fun expr_cardinality :: "type_expr \<Rightarrow> cardinality" where
  "expr_cardinality (ListOf _) = Listed"
| "expr_cardinality (Concrete _) = Scalar"
| "expr_cardinality (Union _) = Scalar"
| "expr_cardinality (AssetOf _) = Scalar"
| "expr_cardinality (StreamOf _) = Scalar"
| "expr_cardinality (TupleOf _) = Scalar"
| "expr_cardinality _ = Unknown"

section \<open>Solving template variables\<close>

datatype solve_error =
    NotATuple string nat string
  | NotAStream string string
  | NotAList string string
  | NotAnAsset string string
  | OutsideAllowlist string string string
  | AlreadyBound string string string string
  | NotElaborated
  | NotATupleInput
  | IndexOutOfRange int

fun unify :: "string \<Rightarrow> type_expr \<Rightarrow> string \<Rightarrow> (string, string) dict \<Rightarrow> solve_error + (string, string) dict"
  and unify_positions :: "string \<Rightarrow> type_expr list \<Rightarrow> string list \<Rightarrow> (string, string) dict \<Rightarrow>
    solve_error + (string, string) dict" where
  "unify i (TupleOf es) s b =
     (case parse_tuple_type_id s of
        None \<Rightarrow> Inl (NotATuple i (length es) s)
      | Some ps \<Rightarrow> if length ps \<noteq> length es then Inl (NotATuple i (length es) s)
                   else unify_positions i es ps b)"
| "unify i (Variable v allowed) s b =
     (if allowed \<noteq> [] \<and> s \<notin> set allowed then Inl (OutsideAllowlist i s v)
      else case map_of b v of
        None \<Rightarrow> Inr (dict_set v s b)
      | Some bound \<Rightarrow> if bound \<noteq> s then Inl (AlreadyBound i v bound s) else Inr b)"
| "unify i (StreamOf e) s b =
     (case parse_stream_type_id s of None \<Rightarrow> Inl (NotAStream i s) | Some t \<Rightarrow> unify i e t b)"
| "unify i (ListOf e) s b =
     (case parse_list_type_id s of None \<Rightarrow> Inl (NotAList i s) | Some t \<Rightarrow> unify i e t b)"
| "unify i (AssetOf e) s b =
     (case parse_asset_type_id s of None \<Rightarrow> Inl (NotAnAsset i s) | Some t \<Rightarrow> unify i e t b)"
| "unify i _ s b = Inr b"
| "unify_positions i (e # es) (p # ps) b =
     and_then (unify i e p b) (\<lambda>b'. unify_positions i es ps b')"
| "unify_positions i _ _ b = Inr b"

record input_spec =
  in_id :: string
  in_type :: type_expr
  in_accepts_list :: bool

definition is_list_expr :: "type_expr \<Rightarrow> bool" where
  "is_list_expr e = (case e of ListOf _ \<Rightarrow> True | _ \<Rightarrow> False)"

text \<open>An input that accepts a list of its type is matched against the element type.\<close>

definition received_type :: "input_spec \<Rightarrow> string \<Rightarrow> string" where
  "received_type spec s =
     (if in_accepts_list spec \<and> \<not> is_list_expr (in_type spec)
      then (case parse_list_type_id s of None \<Rightarrow> s | Some t \<Rightarrow> t) else s)"

fun bind_specs :: "input_spec list \<Rightarrow> (string, string) dict \<Rightarrow> (string, string) dict \<Rightarrow>
    solve_error + (string, string) dict" where
  "bind_specs [] types b = Inr b"
| "bind_specs (spec # specs) types b =
     (case map_of types (in_id spec) of
        None \<Rightarrow> bind_specs specs types b
      | Some s \<Rightarrow> and_then (unify (in_id spec) (in_type spec) (received_type spec s) b)
                    (\<lambda>b'. bind_specs specs types b'))"

definition bind_type_variables :: "input_spec list \<Rightarrow> (string, string) dict \<Rightarrow>
    solve_error + (string, string) dict" where
  "bind_type_variables specs types = bind_specs specs types []"

lemma tuple_position_shorter: "parse_tuple_type_id s = Some ps \<Longrightarrow> p \<in> set ps \<Longrightarrow> length p < length s"
  using tuple_positions_shorter [of s ps] member_le_sum_list [of "length p + 1" "map (\<lambda>t. length t + 1) ps"]
  by force

function type_expr_from_runtime_id :: "string \<Rightarrow> type_expr" where
  "type_expr_from_runtime_id s =
     (case parse_tuple_type_id s of
        Some ps \<Rightarrow> TupleOf (map type_expr_from_runtime_id ps)
      | None \<Rightarrow> (case parse_stream_type_id s of
          Some t \<Rightarrow> StreamOf (type_expr_from_runtime_id t)
        | None \<Rightarrow> (case parse_list_type_id s of
            Some t \<Rightarrow> ListOf (if t = ''*'' then Wildcard else type_expr_from_runtime_id t)
          | None \<Rightarrow> (case parse_asset_type_id s of
              Some t \<Rightarrow> AssetOf (type_expr_from_runtime_id t)
            | None \<Rightarrow> Concrete s))))"
  by auto
termination
  by (relation "measure length")
    (auto simp: parse_stream_iff parse_list_iff parse_asset_iff type_id_defs dest: tuple_position_shorter)

declare type_expr_from_runtime_id.simps [simp del]

definition tuple_at :: "type_expr list \<Rightarrow> int \<Rightarrow> type_expr option" where
  "tuple_at es i =
     (if - int (length es) \<le> i \<and> i < int (length es)
      then Some (es ! nat (if i < 0 then int (length es) + i else i)) else None)"

fun resolved_type_expr :: "type_expr \<Rightarrow> (string, string) dict \<Rightarrow> solve_error + type_expr option"
  and resolved_positions :: "type_expr list \<Rightarrow> (string, string) dict \<Rightarrow> solve_error + type_expr list option" where
  "resolved_type_expr (Concrete s) b = Inr (Some (Concrete s))"
| "resolved_type_expr (Variable v _) b = Inr (map_option type_expr_from_runtime_id (map_of b v))"
| "resolved_type_expr (TupleOf es) b =
     and_then (resolved_positions es b) (\<lambda>r. Inr (map_option TupleOf r))"
| "resolved_type_expr (TupleElementInput _ _) b = Inl NotElaborated"
| "resolved_type_expr (TupleElementOf e i) b =
     (case i of
        IndexInput _ \<Rightarrow> Inl NotElaborated
      | IndexInt n \<Rightarrow>
          and_then (resolved_type_expr e b) (\<lambda>r.
            case r of
              None \<Rightarrow> Inr None
            | Some (TupleOf es) \<Rightarrow>
                (case tuple_at es n of None \<Rightarrow> Inl (IndexOutOfRange n) | Some x \<Rightarrow> Inr (Some x))
            | Some _ \<Rightarrow> Inl NotATupleInput))"
| "resolved_type_expr (StreamOf e) b =
     and_then (resolved_type_expr e b) (\<lambda>r. Inr (map_option StreamOf r))"
| "resolved_type_expr (ListOf e) b =
     (if e = Wildcard then Inr (Some (ListOf e))
      else and_then (resolved_type_expr e b) (\<lambda>r. Inr (map_option ListOf r)))"
| "resolved_type_expr (AssetOf e) b =
     and_then (resolved_type_expr e b) (\<lambda>r. Inr (map_option AssetOf r))"
| "resolved_type_expr _ b = Inr None"
| "resolved_positions [] b = Inr (Some [])"
| "resolved_positions (e # es) b =
     and_then (resolved_type_expr e b) (\<lambda>r. and_then (resolved_positions es b) (\<lambda>rs.
       Inr (case (r, rs) of (Some x, Some xs) \<Rightarrow> Some (x # xs) | _ \<Rightarrow> None)))"

definition resolved_type_id :: "type_expr \<Rightarrow> (string, string) dict \<Rightarrow> solve_error + string option" where
  "resolved_type_id e b =
     and_then (resolved_type_expr e b)
       (\<lambda>r. Inr (case r of None \<Rightarrow> None | Some x \<Rightarrow> runtime_type_id x))"

section \<open>Coercing assets\<close>

fun expr_mentions :: "string \<Rightarrow> type_expr \<Rightarrow> bool" where
  "expr_mentions c (Concrete s) = (s = c)"
| "expr_mentions c (Union ts) = (c \<in> set ts)"
| "expr_mentions c (Variable _ ts) = (c \<in> set ts)"
| "expr_mentions c (ListOf e) = expr_mentions c e"
| "expr_mentions c (AssetOf e) = expr_mentions c e"
| "expr_mentions c (StreamOf e) = expr_mentions c e"
| "expr_mentions c (TupleOf es) = list_ex (expr_mentions c) es"
| "expr_mentions c _ = False"

definition combo_type_mismatch_is_error :: "string \<Rightarrow> type_expr \<Rightarrow> bool" where
  "combo_type_mismatch_is_error source expected \<longleftrightarrow>
     (case runtime_type_atoms source of None \<Rightarrow> False | Some atoms \<Rightarrow> ''COMBO'' \<in> set atoms) \<or>
     expr_mentions ''COMBO'' expected"

definition plan_type_equivalence ::
    "string \<Rightarrow> type_expr \<Rightarrow> (string \<Rightarrow> string option) \<Rightarrow> string option" where
  "plan_type_equivalence source expected equivalent =
     (if accepts_concrete expected source then None
      else case equivalent source of
        None \<Rightarrow> None
      | Some counterpart \<Rightarrow> if accepts_concrete expected counterpart then Some counterpart else None)"

datatype coercion_kind = Decode | Lift | Merge

record coercion_plan =
  cp_kind :: coercion_kind
  cp_target :: string
  cp_result :: string
  cp_merge :: "string option"

datatype missing_provider = MissingDecoder string | MissingMerge string

definition missing_providers :: "coercion_plan \<Rightarrow> (string \<Rightarrow> bool) \<Rightarrow> (string \<Rightarrow> bool) \<Rightarrow> missing_provider list" where
  "missing_providers p decoder_for merge_for =
     (if decoder_for (cp_target p) then [] else [MissingDecoder (cp_target p)]) @
     (case cp_merge p of
        None \<Rightarrow> []
      | Some t \<Rightarrow> if merge_for t then [] else [MissingMerge t])"

definition plan_asset_coercion :: "string \<Rightarrow> type_expr \<Rightarrow> coercion_plan option" where
  "plan_asset_coercion source expected =
     (case parse_asset_type_id source of
        Some target \<Rightarrow>
          if accepts_concrete expected target
          then Some \<lparr>cp_kind = Decode, cp_target = target, cp_result = target, cp_merge = None\<rparr>
          else None
      | None \<Rightarrow> (case parse_list_type_id source of
          None \<Rightarrow> None
        | Some element \<Rightarrow> (case parse_asset_type_id element of
            None \<Rightarrow> None
          | Some target \<Rightarrow>
              let lifted = list_type_id target in
              if accepts_concrete expected lifted
              then Some \<lparr>cp_kind = Lift, cp_target = target, cp_result = lifted, cp_merge = None\<rparr>
              else if expr_cardinality expected = Scalar \<and> parse_list_type_id target = None \<and>
                accepts_concrete expected target
              then Some \<lparr>cp_kind = Merge, cp_target = target, cp_result = target, cp_merge = Some target\<rparr>
              else None)))"

section \<open>Lemmas about solving\<close>

text \<open>
  \<open>solves \<sigma> e s\<close>: giving the variables the types \<open>\<sigma>\<close> makes \<open>e\<close> fit the received type \<open>s\<close>, as far
  as the solver is responsible for it (variables, allowlists and constructors).
\<close>

fun solves :: "(string \<Rightarrow> string option) \<Rightarrow> type_expr \<Rightarrow> string \<Rightarrow> bool"
  and solves_positions :: "(string \<Rightarrow> string option) \<Rightarrow> type_expr list \<Rightarrow> string list \<Rightarrow> bool" where
  "solves \<sigma> (TupleOf es) s =
     (case parse_tuple_type_id s of None \<Rightarrow> False | Some ps \<Rightarrow> length ps = length es \<and> solves_positions \<sigma> es ps)"
| "solves \<sigma> (Variable v allowed) s = ((allowed = [] \<or> s \<in> set allowed) \<and> \<sigma> v = Some s)"
| "solves \<sigma> (StreamOf e) s = (case parse_stream_type_id s of None \<Rightarrow> False | Some t \<Rightarrow> solves \<sigma> e t)"
| "solves \<sigma> (ListOf e) s = (case parse_list_type_id s of None \<Rightarrow> False | Some t \<Rightarrow> solves \<sigma> e t)"
| "solves \<sigma> (AssetOf e) s = (case parse_asset_type_id s of None \<Rightarrow> False | Some t \<Rightarrow> solves \<sigma> e t)"
| "solves \<sigma> _ s = True"
| "solves_positions \<sigma> (e # es) (p # ps) = (solves \<sigma> e p \<and> solves_positions \<sigma> es ps)"
| "solves_positions \<sigma> _ _ = True"

definition exactly_solved :: "(string, string) dict \<Rightarrow> solve_error + (string, string) dict \<Rightarrow>
    ((string \<Rightarrow> string option) \<Rightarrow> bool) \<Rightarrow> bool" where
  "exactly_solved b r P \<longleftrightarrow>
     (case r of
        Inr b' \<Rightarrow> (\<forall>\<sigma>. map_of b' \<subseteq>\<^sub>m \<sigma> \<longleftrightarrow> map_of b \<subseteq>\<^sub>m \<sigma> \<and> P \<sigma>)
      | Inl _ \<Rightarrow> (\<forall>\<sigma>. \<not> (map_of b \<subseteq>\<^sub>m \<sigma> \<and> P \<sigma>)))"

lemma exactly_solved_then:
  assumes "exactly_solved b r P" and "\<And>b'. r = Inr b' \<Longrightarrow> exactly_solved b' (k b') Q"
  shows "exactly_solved b (and_then r k) (\<lambda>\<sigma>. P \<sigma> \<and> Q \<sigma>)"
  using assms by (cases r) (auto simp: exactly_solved_def split: sum.splits)

lemma exactly_solved_Inr: "exactly_solved b (Inr b') P \<Longrightarrow> P (map_of b')"
  unfolding exactly_solved_def sum.case by (metis map_le_refl)

lemma exactly_solved_done: "exactly_solved b (Inr b) (\<lambda>_. True)"
  by (simp add: exactly_solved_def)

lemma map_le_upd_iff: "m v = None \<Longrightarrow> m(v \<mapsto> s) \<subseteq>\<^sub>m \<sigma> \<longleftrightarrow> m \<subseteq>\<^sub>m \<sigma> \<and> \<sigma> v = Some s"
  by (auto simp: map_le_def dom_def)

lemma exactly_solved_variable:
  "exactly_solved b (unify i (Variable v allowed) s b) (\<lambda>\<sigma>. solves \<sigma> (Variable v allowed) s)"
proof (cases "map_of b v")
  case None
  then show ?thesis by (auto simp: exactly_solved_def map_le_upd_iff)
next
  case (Some t)
  have "\<sigma> v = Some t" if "map_of b \<subseteq>\<^sub>m \<sigma>" for \<sigma>
    using that Some by (auto simp: map_le_def dom_def)
  then have "map_of b \<subseteq>\<^sub>m \<sigma> \<and> \<sigma> v = Some s \<longleftrightarrow> map_of b \<subseteq>\<^sub>m \<sigma> \<and> s = t" for \<sigma>
    by (metis option.inject)
  then show ?thesis by (simp add: exactly_solved_def Some)
qed

lemma unify_exact:
  "exactly_solved b (unify i e s b) (\<lambda>\<sigma>. solves \<sigma> e s)"
  "exactly_solved b (unify_positions i es ps b) (\<lambda>\<sigma>. solves_positions \<sigma> es ps)"
proof (induction i e s b and i es ps b rule: unify_unify_positions.induct)
  case (1 i es s b)
  show ?case
  proof (cases "parse_tuple_type_id s")
    case (Some ps)
    with 1 show ?thesis by (cases "length ps = length es") (simp_all add: exactly_solved_def)
  qed (simp add: exactly_solved_def)
next
  case (2 i v allowed s b)
  show ?case by (rule exactly_solved_variable)
next
  case (3 i e s b)
  then show ?case by (cases "parse_stream_type_id s") (simp_all add: exactly_solved_def)
next
  case (4 i e s b)
  then show ?case by (cases "parse_list_type_id s") (simp_all add: exactly_solved_def)
next
  case (5 i e s b)
  then show ?case by (cases "parse_asset_type_id s") (simp_all add: exactly_solved_def)
qed (simp_all add: exactly_solved_done exactly_solved_then)

definition solves_inputs :: "(string \<Rightarrow> string option) \<Rightarrow> input_spec list \<Rightarrow> (string, string) dict \<Rightarrow> bool" where
  "solves_inputs \<sigma> specs types \<longleftrightarrow>
     (\<forall>spec \<in> set specs. \<forall>s. map_of types (in_id spec) = Some s \<longrightarrow>
        solves \<sigma> (in_type spec) (received_type spec s))"

lemma bind_specs_exact:
  "exactly_solved b (bind_specs specs types b) (\<lambda>\<sigma>. solves_inputs \<sigma> specs types)"
proof (induction specs arbitrary: b)
  case Nil
  then show ?case by (simp add: solves_inputs_def exactly_solved_done)
next
  case (Cons spec specs)
  show ?case
  proof (cases "map_of types (in_id spec)")
    case None
    with Cons show ?thesis by (simp add: solves_inputs_def)
  next
    case (Some s)
    have "solves_inputs \<sigma> (spec # specs) types \<longleftrightarrow>
        solves \<sigma> (in_type spec) (received_type spec s) \<and> solves_inputs \<sigma> specs types" for \<sigma>
      using Some by (simp add: solves_inputs_def)
    then show ?thesis
      using Some exactly_solved_then [OF unify_exact(1) Cons] by simp
  qed
qed

text \<open>The type an id spells, spelt again.\<close>

lemma runtime_positions_all:
  "\<forall>e \<in> set es. runtime_type_id (f e) = Some e \<Longrightarrow> runtime_positions (map f es) = Some es"
  by (induction es) simp_all

lemma runtime_id_of_read: "runtime_type_id (type_expr_from_runtime_id s) = Some s"
proof (induction s rule: type_expr_from_runtime_id.induct)
  case (1 s)
  show ?case
  proof (cases "parse_tuple_type_id s")
    case (Some ps)
    then have "runtime_positions (map type_expr_from_runtime_id ps) = Some ps"
      using 1(4) by (intro runtime_positions_all) blast
    with Some show ?thesis
      using parse_tuple_sound [OF Some] by (subst type_expr_from_runtime_id.simps) simp
  next
    case tuple: None
    show ?thesis
    proof (cases "parse_stream_type_id s")
      case (Some t)
      with 1(3) [OF tuple Some] tuple show ?thesis
        by (subst type_expr_from_runtime_id.simps) (simp add: parse_stream_iff)
    next
      case stream: None
      show ?thesis
      proof (cases "parse_list_type_id s")
        case (Some t)
        have read: "runtime_type_id (if t = ''*'' then Wildcard else type_expr_from_runtime_id t) =
            (if t = ''*'' then None else Some t)"
          using 1(2) [OF tuple stream Some] by simp
        have "type_expr_from_runtime_id t \<noteq> Wildcard" if "t \<noteq> ''*''"
          using read that by auto
        with Some read tuple stream show ?thesis
          by (subst type_expr_from_runtime_id.simps) (auto simp: parse_list_iff)
      next
        case list: None
        show ?thesis
        proof (cases "parse_asset_type_id s")
          case (Some t)
          with 1(1) [OF tuple stream list Some] tuple stream list show ?thesis
            by (subst type_expr_from_runtime_id.simps) (simp add: parse_asset_iff)
        qed (use tuple stream list in \<open>subst type_expr_from_runtime_id.simps, simp\<close>)
      qed
    qed
  qed
qed

lemma read_not_wildcard: "type_expr_from_runtime_id s \<noteq> Wildcard"
  using runtime_id_of_read [of s] by auto

text \<open>A pattern is an interface type whose type is determined once its variables are.\<close>

fun pattern :: "type_expr \<Rightarrow> bool" where
  "pattern (Concrete _) = True"
| "pattern (Variable _ _) = True"
| "pattern (ListOf e) = (e = Wildcard \<or> pattern e)"
| "pattern (AssetOf e) = pattern e"
| "pattern (StreamOf e) = pattern e"
| "pattern (TupleOf es) = list_all pattern es"
| "pattern _ = False"

text \<open>Concrete leaves are not the solver's business; here they are required to match.\<close>

fun leaf_match :: "type_expr \<Rightarrow> string \<Rightarrow> bool"
  and leaf_match_all :: "type_expr list \<Rightarrow> string list \<Rightarrow> bool" where
  "leaf_match (Concrete t) s = (s = t)"
| "leaf_match (ListOf e) s =
     (case parse_list_type_id s of None \<Rightarrow> False | Some t \<Rightarrow> if e = Wildcard then t = ''*'' else leaf_match e t)"
| "leaf_match (AssetOf e) s = (case parse_asset_type_id s of None \<Rightarrow> False | Some t \<Rightarrow> leaf_match e t)"
| "leaf_match (StreamOf e) s = (case parse_stream_type_id s of None \<Rightarrow> False | Some t \<Rightarrow> leaf_match e t)"
| "leaf_match (TupleOf es) s = (case parse_tuple_type_id s of None \<Rightarrow> False | Some ps \<Rightarrow> leaf_match_all es ps)"
| "leaf_match _ s = True"
| "leaf_match_all (e # es) (p # ps) = (leaf_match e p \<and> leaf_match_all es ps)"
| "leaf_match_all _ _ = True"

lemma resolves_to:
  "pattern e \<Longrightarrow> leaf_match e s \<Longrightarrow> solves (map_of b) e s \<Longrightarrow>
     \<exists>x. resolved_type_expr e b = Inr (Some x) \<and> runtime_type_id x = Some s \<and> x \<noteq> Wildcard"
  "list_all pattern es \<Longrightarrow> leaf_match_all es ps \<Longrightarrow> solves_positions (map_of b) es ps \<Longrightarrow>
     length ps = length es \<Longrightarrow>
     \<exists>xs. resolved_positions es b = Inr (Some xs) \<and> runtime_positions xs = Some ps"
proof (induction e s and es ps rule: leaf_match_leaf_match_all.induct)
  case (2 e s)
  then obtain t where t: "parse_list_type_id s = Some t" by (auto split: option.splits)
  show ?case
  proof (cases "e = Wildcard")
    case True
    with 2 t show ?thesis by (auto simp: parse_list_iff)
  next
    case False
    with 2 t show ?thesis by (auto simp: parse_list_iff)
  qed
next
  case (3 e s)
  then obtain t where "parse_asset_type_id s = Some t" by (auto split: option.splits)
  with 3 show ?case by (auto simp: parse_asset_iff)
next
  case (4 e s)
  then obtain t where "parse_stream_type_id s = Some t" by (auto split: option.splits)
  with 4 show ?case by (auto simp: parse_stream_iff)
next
  case (5 es s)
  then obtain ps where ps: "parse_tuple_type_id s = Some ps" by (auto split: option.splits)
  with 5 parse_tuple_sound [OF ps] show ?case by auto
qed (use runtime_id_of_read read_not_wildcard in auto)

section \<open>Properties\<close>

text \<open>
  Binding template variables is exact. When it succeeds, an assignment of types to variables
  fits all received inputs if and only if it extends the bindings, so the bindings are the least
  solution and do not depend on the order of the inputs; when it raises, no assignment fits.
\<close>
theorem binding_is_exact:
  "case bind_type_variables specs types of
     Inr b \<Rightarrow> (\<forall>\<sigma>. solves_inputs \<sigma> specs types \<longleftrightarrow> map_of b \<subseteq>\<^sub>m \<sigma>)
   | Inl _ \<Rightarrow> (\<forall>\<sigma>. \<not> solves_inputs \<sigma> specs types)"
  using bind_specs_exact [of "[]" specs types]
  by (auto simp: bind_type_variables_def exactly_solved_def split: sum.splits)

text \<open>
  Under the bindings solved from an invocation every generic input type resolves to exactly
  the type id that was received for it (its element type, for an input that accepts lists).
\<close>
theorem inputs_resolve_to_received:
  assumes "bind_type_variables specs types = Inr b" and "spec \<in> set specs"
    and "map_of types (in_id spec) = Some s"
    and "pattern (in_type spec)" and "leaf_match (in_type spec) (received_type spec s)"
  shows "resolved_type_id (in_type spec) b = Inr (Some (received_type spec s))"
proof -
  have "solves_inputs (map_of b) specs types"
    using bind_specs_exact [of "[]" specs types] assms(1)
    by (simp add: bind_type_variables_def) (rule exactly_solved_Inr)
  then have "solves (map_of b) (in_type spec) (received_type spec s)"
    using assms(2,3) by (auto simp: solves_inputs_def)
  from resolves_to(1) [OF assms(4,5) this] show ?thesis by (auto simp: resolved_type_id_def)
qed

definition example_specs :: "input_spec list" where
  "example_specs =
     [\<lparr>in_id = ''xs'', in_type = ListOf (Variable ''T'' []), in_accepts_list = False\<rparr>,
      \<lparr>in_id = ''x'', in_type = Variable ''T'' [''INT'', ''FLOAT''], in_accepts_list = True\<rparr>]"

theorem inputs_resolve_to_received_witness:
  "resolved_type_id (ListOf (Variable ''T'' [])) [(''T'', ''INT'')] = Inr (Some ''list<INT>'')"
proof -
  have read: "parse_list_type_id ''list<INT>'' = Some ''INT''"
    by (simp add: parse_list_iff list_type_id_def)
  have "bind_type_variables example_specs [(''x'', ''list<INT>''), (''xs'', ''list<INT>'')] =
      Inr [(''T'', ''INT'')]"
    by (simp add: bind_type_variables_def example_specs_def received_type_def is_list_expr_def read)
  from inputs_resolve_to_received [OF this, of "example_specs ! 0" "''list<INT>''"] show ?thesis
    by (simp add: example_specs_def received_type_def is_list_expr_def read)
qed

text \<open>
  Asset coercion is one exact step. A plan exists precisely when the source is an asset whose
  target the input accepts, or a list of assets that the input accepts decoded element by element
  or, failing that, merged into one value of a scalar input that is no list; the plan's result is
  a type the input accepts.
\<close>
theorem coercion_is_one_step:
  "plan_asset_coercion s e = Some p \<longleftrightarrow>
     accepts_concrete e (cp_result p) \<and> cp_target p \<noteq> [] \<and>
     (case cp_kind p of
        Decode \<Rightarrow> s = asset_type_id (cp_target p) \<and> cp_result p = cp_target p \<and> cp_merge p = None
      | Lift \<Rightarrow> s = list_type_id (asset_type_id (cp_target p)) \<and>
          cp_result p = list_type_id (cp_target p) \<and> cp_merge p = None
      | Merge \<Rightarrow> s = list_type_id (asset_type_id (cp_target p)) \<and>
          cp_result p = cp_target p \<and> cp_merge p = Some (cp_target p) \<and>
          expr_cardinality e = Scalar \<and> parse_list_type_id (cp_target p) = None \<and>
          \<not> accepts_concrete e (list_type_id (cp_target p)))"
proof (cases "parse_asset_type_id s")
  case (Some t)
  then have s: "s = asset_type_id t" "t \<noteq> []" by (simp_all add: parse_asset_iff)
  have n: "s \<noteq> list_type_id u" for u using s by (simp add: type_id_defs)
  have inj: "asset_type_id t = asset_type_id u \<longleftrightarrow> t = u" for u by (auto simp: type_id_defs)
  show ?thesis
    using s n by (cases p; cases "cp_kind p")
      (auto simp: plan_asset_coercion_def inj)
next
  case asset: None
  then have a: "s \<noteq> asset_type_id t" if "t \<noteq> []" for t using that by auto
  show ?thesis
  proof (cases "\<exists>t. t \<noteq> [] \<and> s = list_type_id (asset_type_id t)")
    case True
    then obtain t where t: "t \<noteq> []" "s = list_type_id (asset_type_id t)" by blast
    have inj: "list_type_id (asset_type_id t) = list_type_id (asset_type_id u) \<longleftrightarrow> t = u" for u
      by (auto simp: type_id_defs)
    have ne: "asset_type_id t \<noteq> []" by (simp add: type_id_defs)
    have plan: "plan_asset_coercion (list_type_id (asset_type_id t)) e =
        (if accepts_concrete e (list_type_id t)
         then Some \<lparr>cp_kind = Lift, cp_target = t, cp_result = list_type_id t, cp_merge = None\<rparr>
         else if expr_cardinality e = Scalar \<and> parse_list_type_id t = None \<and> accepts_concrete e t
         then Some \<lparr>cp_kind = Merge, cp_target = t, cp_result = t, cp_merge = Some t\<rparr>
         else None)"
      using t(1) ne by (simp add: plan_asset_coercion_def Let_def)
    show ?thesis
      unfolding t(2) plan inj using t(1) a [unfolded t(2)]
      by (cases p; cases "cp_kind p") auto
  next
    case False
    have "plan_asset_coercion s e = None"
      using asset False
      by (auto simp: plan_asset_coercion_def parse_list_iff parse_asset_iff split: option.split)
    then show ?thesis using a False by (cases "cp_kind p") auto
  qed
qed

end
