(* ===== verification/Graph_Model.thy ===== *)
theory Graph_Model
  imports Type_Exprs
begin

text \<open>
  The document graph (\<^verbatim>\<open>dinkster_graph/model.py\<close>): nodes, regions with a body graph of their
  own, links between node outputs and inputs, literals, and the snapshot a run takes.
\<close>

section \<open>Values of inputs\<close>

record link =
  lk_node :: string
  lk_output :: string

text \<open>What an input may hold: a link, a literal with a type stamp, or any other object.\<close>

datatype gval =
    VNone
  | VBool bool
  | VInt int
  | VFloat real
  | VStr string
  | VList "gval list"
  | VDict "(gval \<times> gval) list"
  | VLink link
  | VTyped string gval
  | VOther string

fun link_of :: "gval \<Rightarrow> link option" where
  "link_of (VLink l) = Some l"
| "link_of _ = None"

section \<open>Nodes\<close>

record graph_node =
  gn_type :: string
  gn_inputs :: "(string, gval) dict"
  gn_output_members :: "(string, string list) dict"
  gn_slot_variants :: "(string, string) dict"

datatype region_kind = MapRegion | FoldRegion | WhileRegion
datatype binding_mode = Zip | Cross | Broadcast
datatype output_mode = Gather | Compact | StateOutput | Flatten | Last
datatype region_cache = Reuse | Rerun

record region_output =
  ro_source :: link
  ro_mode :: output_mode

record region =
  rn_kind :: region_kind
  rn_ports :: "(string, type_expr) dict"
  rn_inputs :: "(string, gval) dict"
  rn_element_ports :: "string list"
  rn_state_ports :: "string list"
  rn_outputs :: "(string, region_output) dict"
  rn_binding :: binding_mode
  rn_cache_policy :: region_cache
  rn_max_iterations :: "int option"
  rn_continue_source :: "link option"

text \<open>A region node is its declaration together with its body, a graph.\<close>

datatype any_node = Plain graph_node | Region region "(string \<times> any_node) list"

type_synonym graph = "(string, any_node) dict"

fun node_inputs :: "any_node \<Rightarrow> (string, gval) dict" where
  "node_inputs (Plain n) = gn_inputs n"
| "node_inputs (Region r _) = rn_inputs r"

definition ports_node_id :: string where
  "ports_node_id = ''$region''"

definition node_id_forbidden_chars :: "char set" where
  "node_id_forbidden_chars = {CHR ''/'', CHR ''['', CHR '']''}"

definition top_level_node_id :: "string \<Rightarrow> string" where
  "top_level_node_id s = takeWhile (\<lambda>c. c \<noteq> CHR ''['') (takeWhile (\<lambda>c. c \<noteq> CHR ''/'') s)"

lemma top_level_of_path:
  assumes "set n \<inter> node_id_forbidden_chars = {}" and "rest = [] \<or> hd rest \<in> {CHR ''/'', CHR ''[''}"
  shows "top_level_node_id (n @ rest) = n"
proof -
  have n: "\<forall>c \<in> set n. c \<noteq> CHR ''/'' \<and> c \<noteq> CHR ''[''"
    using assms(1) by (auto simp: node_id_forbidden_chars_def)
  have tw: "takeWhile P (n @ xs) = n @ takeWhile P xs" if "\<forall>c \<in> set n. P c" for P xs
    using that by (simp add: takeWhile_append2)
  have "top_level_node_id (n @ rest) =
      n @ takeWhile (\<lambda>c. c \<noteq> CHR ''['') (takeWhile (\<lambda>c. c \<noteq> CHR ''/'') rest)"
    unfolding top_level_node_id_def using n by (simp add: tw)
  then show ?thesis using assms(2) by (cases rest) auto
qed

text \<open>What the graph algorithms read of a node's schema.\<close>

record selector_spec =
  sl_input :: string
  sl_false :: string
  sl_true :: string

record node_schema =
  ns_output_node :: bool
  ns_selector :: "selector_spec option"
  ns_outputs :: "string list"

section \<open>Snapshots\<close>

datatype copy_error = NonStringKey | NotJsonShaped string

fun is_VStr :: "gval \<Rightarrow> bool" where
  "is_VStr (VStr _) = True"
| "is_VStr _ = False"

fun copy_literal :: "gval \<Rightarrow> copy_error + gval"
  and copy_literals :: "gval list \<Rightarrow> copy_error + gval list"
  and copy_items :: "(gval \<times> gval) list \<Rightarrow> copy_error + (gval \<times> gval) list" where
  "copy_literal (VLink l) = Inr (VLink l)"
| "copy_literal (VTyped t v) = and_then (copy_literal v) (\<lambda>v'. Inr (VTyped t v'))"
| "copy_literal (VList vs) = and_then (copy_literals vs) (\<lambda>vs'. Inr (VList vs'))"
| "copy_literal (VDict kvs) =
     (if \<not> list_all is_VStr (map fst kvs) then Inl NonStringKey
      else and_then (copy_items kvs) (\<lambda>kvs'. Inr (VDict kvs')))"
| "copy_literal (VOther t) = Inl (NotJsonShaped t)"
| "copy_literal v = Inr v"
| "copy_literals [] = Inr []"
| "copy_literals (v # vs) =
     and_then (copy_literal v) (\<lambda>v'. and_then (copy_literals vs) (\<lambda>vs'. Inr (v' # vs')))"
| "copy_items [] = Inr []"
| "copy_items ((k, v) # kvs) =
     and_then (copy_literal v) (\<lambda>v'. and_then (copy_items kvs) (\<lambda>kvs'. Inr ((k, v') # kvs')))"

fun copy_inputs :: "(string, gval) dict \<Rightarrow> copy_error + (string, gval) dict" where
  "copy_inputs [] = Inr []"
| "copy_inputs ((k, v) # d) =
     and_then (copy_literal v) (\<lambda>v'. and_then (copy_inputs d) (\<lambda>d'. Inr ((k, v') # d')))"

fun copy_node :: "any_node \<Rightarrow> copy_error + any_node"
  and copy_nodes :: "(string \<times> any_node) list \<Rightarrow> copy_error + (string \<times> any_node) list" where
  "copy_node (Region r body) =
     and_then (copy_nodes body) (\<lambda>body'. and_then (copy_inputs (rn_inputs r)) (\<lambda>inputs.
       Inr (Region (r\<lparr>rn_inputs := inputs\<rparr>) body')))"
| "copy_node (Plain n) =
     and_then (copy_inputs (gn_inputs n)) (\<lambda>inputs. Inr (Plain (n\<lparr>gn_inputs := inputs\<rparr>)))"
| "copy_nodes [] = Inr []"
| "copy_nodes ((i, n) # ns) =
     and_then (copy_node n) (\<lambda>n'. and_then (copy_nodes ns) (\<lambda>ns'. Inr ((i, n') # ns')))"

definition snapshot_graph :: "graph \<Rightarrow> copy_error + graph" where
  "snapshot_graph g = copy_nodes g"

subsection \<open>A snapshot is the document\<close>

text \<open>The documents whose literals are JSON all the way down.\<close>

fun json_shaped :: "gval \<Rightarrow> bool" where
  "json_shaped (VTyped t v) = json_shaped v"
| "json_shaped (VList vs) = list_all json_shaped vs"
| "json_shaped (VDict kvs) = list_all (\<lambda>(k, v). is_VStr k \<and> json_shaped v) kvs"
| "json_shaped (VOther t) = False"
| "json_shaped _ = True"

fun json_node :: "any_node \<Rightarrow> bool" where
  "json_node (Plain n) = list_all (json_shaped \<circ> snd) (gn_inputs n)"
| "json_node (Region r body) = (list_all (json_shaped \<circ> snd) (rn_inputs r) \<and> list_all (json_node \<circ> snd) body)"

definition copies :: "bool \<Rightarrow> 'a \<Rightarrow> copy_error + 'a \<Rightarrow> bool" where
  "copies ok x r \<longleftrightarrow> (if ok then r = Inr x else \<exists>e. r = Inl e)"

lemma copies_then:
  assumes "copies p x r" and "copies q y (k x)"
  shows "copies (p \<and> q) y (and_then r k)"
  using assms by (auto simp: copies_def split: if_splits)

lemma copies_map: "copies p x r \<Longrightarrow> copies p (f x) (and_then r (\<lambda>x'. Inr (f x')))"
  by (auto simp: copies_def split: if_splits)

lemma copy_literal_exact:
  "copies (json_shaped v) v (copy_literal v)"
  "copies (list_all json_shaped vs) vs (copy_literals vs)"
  "copies (list_all (json_shaped \<circ> snd) kvs) kvs (copy_items kvs)"
proof (induction v and vs and kvs rule: copy_literal_copy_literals_copy_items.induct)
  case (4 kvs)
  have parts: "json_shaped (VDict kvs) \<longleftrightarrow>
      list_all is_VStr (map fst kvs) \<and> list_all (json_shaped \<circ> snd) kvs"
    by (auto simp: list_all_iff)
  show ?case
  proof (cases "list_all is_VStr (map fst kvs)")
    case True
    from copies_map [OF 4 [simplified, OF this], of VDict] show ?thesis
      using True unfolding parts by (simp add: comp_def)
  qed (simp add: copies_def parts del: json_shaped.simps)
qed (auto simp: copies_def split: if_splits)

lemma copy_inputs_exact: "copies (list_all (json_shaped \<circ> snd) d) d (copy_inputs d)"
proof (induction d rule: copy_inputs.induct)
  case (2 k v d)
  then show ?case using copy_literal_exact(1) [of v] by (auto simp: copies_def split: if_splits)
qed (simp add: copies_def)

lemma copy_node_exact:
  "copies (json_node n) n (copy_node n)"
  "copies (list_all (json_node \<circ> snd) ns) ns (copy_nodes ns)"
proof (induction n and ns rule: copy_node_copy_nodes.induct)
  case (1 r body)
  then show ?case
    using copy_inputs_exact [of "rn_inputs r"] by (auto simp: copies_def comp_def split: if_splits)
next
  case (2 n)
  show ?case using copy_inputs_exact [of "gn_inputs n"] by (auto simp: copies_def split: if_splits)
qed (auto simp: copies_def split: if_splits)

end
