(* ===== verification/Graph_Plan.thy ===== *)
theory Graph_Plan
  imports Graph_Model
begin

text \<open>
  Planning (\<^verbatim>\<open>dinkster_graph/plan.py\<close>): which nodes are needed for the targets, in which order
  they run, and where a document has a cycle.
\<close>

section \<open>Definitions\<close>

fun targets_node :: "(string, node_schema) dict \<Rightarrow> any_node \<Rightarrow> bool"
  and targets_nodes :: "(string, node_schema) dict \<Rightarrow> (string \<times> any_node) list \<Rightarrow> string list" where
  "targets_node schemas (Region r body) = (targets_nodes schemas body \<noteq> [])"
| "targets_node schemas (Plain n) =
     (case map_of schemas (gn_type n) of None \<Rightarrow> False | Some s \<Rightarrow> ns_output_node s)"
| "targets_nodes schemas [] = []"
| "targets_nodes schemas ((i, n) # ns) =
     (if targets_node schemas n then i # targets_nodes schemas ns else targets_nodes schemas ns)"

definition output_node_targets :: "graph \<Rightarrow> (string, node_schema) dict \<Rightarrow> string list" where
  "output_node_targets g schemas = targets_nodes schemas g"

text \<open>
  A set of the source is a list without repetitions here; nothing below depends on its order.
\<close>

definition dependencies :: "graph \<Rightarrow> string \<Rightarrow> string list" where
  "dependencies g i =
     (case map_of g i of
        None \<Rightarrow> []
      | Some n \<Rightarrow>
          remdups (filter (\<lambda>j. dict_mem j g)
            (List.map_filter (\<lambda>(_, v). map_option lk_node (link_of v)) (node_inputs n))))"

text \<open>The stack of \<^verbatim>\<open>reachable_from\<close>, its top first.\<close>

lemma dependencies_in_graph: "set (dependencies g i) \<subseteq> fst ` set g"
  by (auto simp: dependencies_def dict_mem_iff split: option.splits)

function reach_loop :: "graph \<Rightarrow> string list \<Rightarrow> string list \<Rightarrow> string list" where
  "reach_loop g needed [] = needed"
| "reach_loop g needed (i # stack) =
     (if i \<in> set needed then reach_loop g needed stack
      else reach_loop g (needed @ [i]) (rev (dependencies g i) @ stack))"
  by pat_completeness auto
termination
proof (relation "measures [\<lambda>(g, needed, stack). card (fst ` set g \<union> set stack - set needed),
    \<lambda>(g, needed, stack). length stack]", goal_cases)
  case (2 g needed i stack)
  have "fst ` set g \<union> set stack - set needed \<subseteq> fst ` set g \<union> set (i # stack) - set needed" by auto
  then have "card (fst ` set g \<union> set stack - set needed) \<le> card (fst ` set g \<union> set (i # stack) - set needed)"
    by (rule card_mono [rotated]) simp
  then show ?case by auto
next
  case (3 g needed i stack)
  have less: "fst ` set g \<union> set (rev (dependencies g i) @ stack) - set (needed @ [i])
      \<subset> fst ` set g \<union> set (i # stack) - set needed"
    using 3 dependencies_in_graph [of g i] by auto
  show ?case using psubset_card_mono [OF _ less] by simp
qed simp

definition reachable_from :: "graph \<Rightarrow> string list \<Rightarrow> string list" where
  "reachable_from g targets = reach_loop g [] (rev (filter (\<lambda>t. dict_mem t g) targets))"

definition dependency_map :: "graph \<Rightarrow> string list \<Rightarrow> (string, string list) dict" where
  "dependency_map g targets =
     (let needed = reachable_from g targets in
      map (\<lambda>n. (n, filter (\<lambda>d. d \<in> set needed) (dependencies g n))) needed)"

text \<open>
  One turn of Kahn's algorithm: take the first ready node, drop it from the remaining
  dependencies, and add the nodes it was the last dependency of.
\<close>

definition strike :: "string \<Rightarrow> (string, string list) dict \<Rightarrow> (string, string list) dict" where
  "strike n remaining = map (\<lambda>(m, ds). (m, removeAll n ds)) remaining"

definition newly_ready :: "string \<Rightarrow> string list \<Rightarrow> (string, string list) dict \<Rightarrow> string list" where
  "newly_ready n order remaining =
     map fst (filter (\<lambda>(m, ds). n \<in> set ds \<and> removeAll n ds = [] \<and> m \<notin> set order) remaining)"

definition kahn_size :: "(string, string list) dict \<Rightarrow> nat" where
  "kahn_size remaining = sum_list (map (length \<circ> snd) remaining)"

lemma strike_size: "2 * kahn_size (strike n rem) + length (newly_ready n order rem) \<le> 2 * kahn_size rem"
proof (induction rem)
  case (Cons p rem)
  obtain m ds where p: "p = (m, ds)" by fastforce
  have "length (removeAll n ds) + (if n \<in> set ds then 1 else 0) \<le> length ds"
    by (induction ds) auto
  then show ?case
    using Cons by (auto simp: p kahn_size_def strike_def newly_ready_def split: if_splits)
qed (simp add: kahn_size_def strike_def newly_ready_def)

function kahn :: "(string, string list) dict \<Rightarrow> string list \<Rightarrow> string list \<Rightarrow> string list" where
  "kahn remaining order [] = order"
| "kahn remaining order (n # ready) =
     kahn (strike n remaining) (order @ [n])
       (sort (remdups (ready @ newly_ready n (order @ [n]) remaining)))"
  by pat_completeness auto
termination
proof (relation "measure (\<lambda>(rem, _, ready). 2 * kahn_size rem + length ready)", goal_cases)
  case (2 rem order n ready)
  have "length (remdups (ready @ newly_ready n (order @ [n]) rem)) \<le>
      length ready + length (newly_ready n (order @ [n]) rem)"
    using length_remdups_leq [of "ready @ newly_ready n (order @ [n]) rem"] by simp
  with strike_size [of n rem "order @ [n]"] show ?case by simp
qed simp

datatype plan_error = GraphCycleError "string list"

definition plan :: "graph \<Rightarrow> string list \<Rightarrow> plan_error + string list" where
  "plan g targets =
     (let needed = reachable_from g targets;
          remaining = map (\<lambda>n. (n, filter (\<lambda>d. d \<in> set needed) (dependencies g n))) needed;
          order = kahn remaining [] (sort (map fst (filter (\<lambda>(_, ds). ds = []) remaining))) in
      if length order \<noteq> length needed then Inl (GraphCycleError (sort needed)) else Inr order)"

subsection \<open>Cycle search\<close>

datatype color = White | Gray | Black

text \<open>
  \<open>visit\<close> returns the colours, the path and the cycle found; the fuel is the depth the
  recursion may still reach, \<open>None\<close> if it does not suffice.
\<close>

fun visit :: "nat \<Rightarrow> graph \<Rightarrow> (string \<Rightarrow> color) \<Rightarrow> string list \<Rightarrow> string \<Rightarrow>
      ((string \<Rightarrow> color) \<times> string list \<times> string list option) option"
  and visit_deps :: "nat \<Rightarrow> graph \<Rightarrow> (string \<Rightarrow> color) \<Rightarrow> string list \<Rightarrow> string \<Rightarrow> string list \<Rightarrow>
      ((string \<Rightarrow> color) \<times> string list \<times> string list option) option" where
  "visit 0 g color path n = None"
| "visit (Suc fuel) g color path n =
     visit_deps fuel g (color(n := Gray)) (path @ [n]) n (sort (dependencies g n))"
| "visit_deps fuel g color path n [] = Some (color(n := Black), butlast path, None)"
| "visit_deps fuel g color path n (d # ds) =
     (if color d = Gray then Some (color, path, Some (dropWhile (\<lambda>m. m \<noteq> d) path @ [d]))
      else if color d = White then
        (case visit fuel g color path d of
           None \<Rightarrow> None
         | Some (color', path', Some cycle) \<Rightarrow> Some (color', path', Some cycle)
         | Some (color', path', None) \<Rightarrow> visit_deps fuel g color' path' n ds)
      else visit_deps fuel g color path n ds)"

fun visit_all :: "nat \<Rightarrow> graph \<Rightarrow> (string \<Rightarrow> color) \<Rightarrow> string list \<Rightarrow> string list \<Rightarrow> string list option option" where
  "visit_all fuel g color path [] = Some None"
| "visit_all fuel g color path (n # ns) =
     (if color n = White then
        (case visit fuel g color path n of
           None \<Rightarrow> None
         | Some (color', path', Some cycle) \<Rightarrow> Some (Some cycle)
         | Some (color', path', None) \<Rightarrow> visit_all fuel g color' path' ns)
      else visit_all fuel g color path ns)"

definition find_cycle :: "graph \<Rightarrow> string list option option" where
  "find_cycle g = visit_all (Suc (length g)) g (\<lambda>_. White) [] (sort (map fst g))"

section \<open>Reachability\<close>

definition dep_rel :: "graph \<Rightarrow> (string \<times> string) set" where
  "dep_rel g = {(i, j). j \<in> set (dependencies g i)}"

definition needed_set :: "graph \<Rightarrow> string list \<Rightarrow> string set" where
  "needed_set g targets = {j. \<exists>t \<in> set targets. dict_mem t g \<and> (t, j) \<in> (dep_rel g)\<^sup>*}"

lemma reach_loop_contains: "set needed \<union> set stack \<subseteq> set (reach_loop g needed stack)"
  by (induction g needed stack rule: reach_loop.induct) auto

lemma reach_loop_distinct: "distinct needed \<Longrightarrow> distinct (reach_loop g needed stack)"
  by (induction g needed stack rule: reach_loop.induct) auto

lemma reach_loop_sound:
  "j \<in> set (reach_loop g needed stack) \<Longrightarrow>
     j \<in> set needed \<or> (\<exists>i \<in> set stack. (i, j) \<in> (dep_rel g)\<^sup>*)"
proof (induction g needed stack rule: reach_loop.induct)
  case (2 g needed i stack)
  show ?case
  proof (cases "i \<in> set needed")
    case True
    then show ?thesis using 2 by auto
  next
    case False
    with 2 have "j \<in> set needed \<or> j = i \<or>
        (\<exists>k \<in> set (dependencies g i) \<union> set stack. (k, j) \<in> (dep_rel g)\<^sup>*)" by auto
    moreover have "(i, j) \<in> (dep_rel g)\<^sup>*" if "k \<in> set (dependencies g i)" "(k, j) \<in> (dep_rel g)\<^sup>*" for k
      using that by (auto simp: dep_rel_def intro: converse_rtrancl_into_rtrancl)
    ultimately show ?thesis by auto
  qed
qed simp

lemma reach_loop_closed:
  "\<forall>i \<in> set needed. set (dependencies g i) \<subseteq> set needed \<union> set stack \<Longrightarrow>
     i \<in> set (reach_loop g needed stack) \<Longrightarrow> set (dependencies g i) \<subseteq> set (reach_loop g needed stack)"
proof (induction g needed stack rule: reach_loop.induct)
  case (2 g needed i stack)
  show ?case
  proof (cases "i \<in> set needed")
    case True
    then show ?thesis using 2 by auto
  next
    case False
    then show ?thesis using 2 by fastforce
  qed
qed auto

lemma set_reachable_from: "set (reachable_from g targets) = needed_set g targets"
proof
  show "set (reachable_from g targets) \<subseteq> needed_set g targets"
    using reach_loop_sound [of _ g "[]"] by (fastforce simp: reachable_from_def needed_set_def)
  let ?R = "set (reachable_from g targets)"
  have closed: "set (dependencies g i) \<subseteq> ?R" if "i \<in> ?R" for i
    using that reach_loop_closed [of "[]"] by (simp add: reachable_from_def)
  have start: "t \<in> ?R" if "t \<in> set targets" "dict_mem t g" for t
    using that reach_loop_contains [of "[]"] by (force simp: reachable_from_def)
  have "j \<in> ?R" if "(i, j) \<in> (dep_rel g)\<^sup>*" "i \<in> ?R" for i j
    using that by (induction rule: rtrancl_induct) (use closed in \<open>auto simp: dep_rel_def\<close>)
  then show "needed_set g targets \<subseteq> ?R" using start by (auto simp: needed_set_def)
qed

lemma distinct_reachable_from: "distinct (reachable_from g targets)"
  by (simp add: reachable_from_def reach_loop_distinct)

lemma needed_closed: "i \<in> needed_set g targets \<Longrightarrow> set (dependencies g i) \<subseteq> needed_set g targets"
  unfolding set_reachable_from [symmetric] reachable_from_def
  using reach_loop_closed [of "[]"] by simp

section \<open>Kahn's algorithm\<close>

text \<open>
  What the algorithm keeps, as functions of the order so far: \<open>D\<close> are the dependencies and
  \<open>ns\<close> the needed nodes.
\<close>

definition left_over :: "(string \<Rightarrow> string list) \<Rightarrow> string list \<Rightarrow> string list \<Rightarrow> (string, string list) dict" where
  "left_over D ns order = map (\<lambda>n. (n, filter (\<lambda>d. d \<notin> set order) (D n))) ns"

definition ready_nodes :: "(string \<Rightarrow> string list) \<Rightarrow> string list \<Rightarrow> string list \<Rightarrow> string list" where
  "ready_nodes D ns order = sort (filter (\<lambda>n. n \<notin> set order \<and> set (D n) \<subseteq> set order) ns)"

lemma removeAll_filter: "removeAll n (filter (\<lambda>d. d \<notin> A) xs) = filter (\<lambda>d. d \<notin> insert n A) xs"
  by (induction xs) auto

lemma strike_left_over: "strike n (left_over D ns order) = left_over D ns (order @ [n])"
  by (simp add: strike_def left_over_def removeAll_filter comp_def)

lemma set_newly_ready:
  "set (newly_ready n (order @ [n]) (left_over D ns order)) =
     {m \<in> set ns. n \<in> set (D m) \<and> n \<notin> set order \<and> set (D m) \<subseteq> set (order @ [n]) \<and> m \<notin> set (order @ [n])}"
  by (auto simp: newly_ready_def left_over_def filter_map comp_def removeAll_filter filter_empty_conv)

lemma set_ready_nodes:
  "set (ready_nodes D ns order) = {n \<in> set ns. n \<notin> set order \<and> set (D n) \<subseteq> set order}"
  by (auto simp: ready_nodes_def)

lemma ready_step:
  assumes "ready_nodes D ns order = n # rest" and "distinct ns"
  shows "sort (remdups (rest @ newly_ready n (order @ [n]) (left_over D ns order))) =
    ready_nodes D ns (order @ [n])"
proof -
  have d: "distinct (ready_nodes D ns order)" "sorted (ready_nodes D ns order)"
    using assms(2) by (simp_all add: ready_nodes_def)
  have n: "n \<in> set ns" "n \<notin> set order" using set_ready_nodes [of D ns order] assms(1) by auto
  have rest: "set rest = {m \<in> set ns. m \<noteq> n \<and> m \<notin> set order \<and> set (D m) \<subseteq> set order}"
    using set_ready_nodes [of D ns order] d(1) unfolding assms(1) by auto
  show ?thesis
  proof (rule sorted_distinct_set_unique)
    show "set (sort (remdups (rest @ newly_ready n (order @ [n]) (left_over D ns order)))) =
        set (ready_nodes D ns (order @ [n]))"
      using n by (auto simp: rest set_newly_ready set_ready_nodes)
  qed (use assms(2) in \<open>simp_all add: ready_nodes_def\<close>)
qed

text \<open>Each node of the result is the first of those that were ready when it was taken.\<close>

definition greedy_from :: "(string \<Rightarrow> string list) \<Rightarrow> string list \<Rightarrow> nat \<Rightarrow> string list \<Rightarrow> bool" where
  "greedy_from D ns k order \<longleftrightarrow>
     (\<forall>i. k \<le> i \<longrightarrow> i < length order \<longrightarrow>
        ready_nodes D ns (take i order) \<noteq> [] \<and> order ! i = hd (ready_nodes D ns (take i order)))"

lemma kahn_greedy:
  assumes "distinct ns"
  shows "ready = ready_nodes D ns order \<Longrightarrow> rem = left_over D ns order \<Longrightarrow>
    take (length order) (kahn rem order ready) = order \<and>
    greedy_from D ns (length order) (kahn rem order ready) \<and>
    ready_nodes D ns (kahn rem order ready) = []"
proof (induction rem order ready rule: kahn.induct)
  case (1 rem order)
  then show ?case by (simp add: greedy_from_def)
next
  case (2 rem order n ready)
  let ?r = "kahn rem order (n # ready)"
  have r: "?r = kahn (left_over D ns (order @ [n])) (order @ [n]) (ready_nodes D ns (order @ [n]))"
    by (simp only: 2(3) kahn.simps(2) strike_left_over ready_step [OF 2(2) [symmetric] assms])
  have IH: "take (length (order @ [n])) ?r = order @ [n]" "greedy_from D ns (length (order @ [n])) ?r"
    "ready_nodes D ns ?r = []"
    using 2(1) ready_step [OF 2(2) [symmetric] assms] unfolding r 2(3)
    by (simp_all add: strike_left_over)
  have pre: "take (length order) ?r = order"
    using arg_cong [OF IH(1), of "take (length order)"] by (simp add: min_def)
  have at: "?r ! length order = n"
    using arg_cong [OF IH(1), of "\<lambda>xs. xs ! length order"] by (simp add: nth_append)
  have "greedy_from D ns (length order) ?r"
    unfolding greedy_from_def
  proof (intro allI impI)
    fix i assume i: "length order \<le> i" "i < length ?r"
    show "ready_nodes D ns (take i ?r) \<noteq> [] \<and> ?r ! i = hd (ready_nodes D ns (take i ?r))"
    proof (cases "i = length order")
      case True
      then show ?thesis using pre at 2(2) [symmetric] by simp
    next
      case False
      then show ?thesis using IH(2) i by (auto simp: greedy_from_def)
    qed
  qed
  with pre IH(3) show ?case by blast
qed

lemma greedy_ready_prefix:
  assumes "greedy_from D ns 0 order" and "i < length order"
  shows "order ! i \<in> set ns" "order ! i \<notin> set (take i order)" "set (D (order ! i)) \<subseteq> set (take i order)"
    "\<forall>m \<in> set ns. m \<notin> set (take i order) \<longrightarrow> set (D m) \<subseteq> set (take i order) \<longrightarrow> order ! i \<le> m"
proof -
  let ?r = "ready_nodes D ns (take i order)"
  have r: "?r \<noteq> []" "order ! i = hd ?r" using assms by (auto simp: greedy_from_def)
  then have "order ! i \<in> set ?r" by simp
  then show "order ! i \<in> set ns" "order ! i \<notin> set (take i order)"
    "set (D (order ! i)) \<subseteq> set (take i order)" by (auto simp: set_ready_nodes)
  have "sorted ?r" by (simp add: ready_nodes_def)
  then have "\<forall>m \<in> set ?r. hd ?r \<le> m" using r(1) by (cases ?r) auto
  then show "\<forall>m \<in> set ns. m \<notin> set (take i order) \<longrightarrow> set (D m) \<subseteq> set (take i order) \<longrightarrow> order ! i \<le> m"
    using r(2) by (auto simp: set_ready_nodes)
qed

lemma greedy_distinct: "greedy_from D ns 0 order \<Longrightarrow> distinct order"
proof -
  assume g: "greedy_from D ns 0 order"
  have "order ! i \<noteq> order ! j" if "i < j" "j < length order" for i j
  proof -
    have "order ! i \<in> set (take j order)" using that by (auto simp: in_set_conv_nth)
    then show ?thesis using greedy_ready_prefix(2) [OF g that(2)] by auto
  qed
  then show ?thesis by (metis distinct_conv_nth nat_neq_iff)
qed

text \<open>A set of nodes each of which depends on another of the set has a cycle.\<close>

lemma stuck_cyclic:
  assumes "finite S" "S \<noteq> {}" and "\<And>n. n \<in> S \<Longrightarrow> \<exists>d \<in> S. (n, d) \<in> r"
  shows "\<not> acyclic (r \<inter> S \<times> S)"
proof
  let ?r = "r \<inter> S \<times> S"
  assume "acyclic ?r"
  moreover have "finite ?r" using assms(1) by simp
  ultimately have "wf (?r\<inverse>)" by (rule finite_acyclic_wf_converse [rotated])
  moreover obtain x where "x \<in> S" using assms(2) by blast
  ultimately obtain z where z: "z \<in> S" "\<And>y. (y, z) \<in> ?r\<inverse> \<Longrightarrow> y \<notin> S"
    by (rule wfE_min) blast
  obtain d where d: "d \<in> S" "(z, d) \<in> r" using assms(3) [OF z(1)] by blast
  then show False using z(1) z(2) [of d] by simp
qed

lemma ordered_acyclic:
  assumes "\<And>n d. (n, d) \<in> r \<Longrightarrow> \<exists>i < length order. order ! i = n \<and> d \<in> set (take i order)"
    and "distinct order"
  shows "acyclic r"
proof -
  define pos where "pos n = (THE i. i < length order \<and> order ! i = n)" for n
  have pos: "pos (order ! i) = i" if "i < length order" for i
    unfolding pos_def using that assms(2) by (intro the_equality) (auto simp: nth_eq_iff_index_eq)
  have "pos d < pos n" if "(n, d) \<in> r" for n d
  proof -
    obtain i where i: "i < length order" "order ! i = n" "d \<in> set (take i order)" using assms(1) [OF \<open>(n, d) \<in> r\<close>] by blast
    then obtain j where "j < i" "order ! j = d" by (auto simp: in_set_conv_nth)
    with i pos [of i] pos [of j] show ?thesis by auto
  qed
  then show ?thesis by (rule acyclicI_order)
qed

section \<open>Planning\<close>

text \<open>
  An order of exactly the needed nodes in which every node comes after its dependencies and is
  the least of those whose dependencies are all placed.
\<close>

definition least_topological :: "graph \<Rightarrow> string set \<Rightarrow> string list \<Rightarrow> bool" where
  "least_topological g ns order \<longleftrightarrow>
     distinct order \<and> set order = ns \<and>
     (\<forall>i < length order. set (dependencies g (order ! i)) \<subseteq> set (take i order) \<and>
        (\<forall>m \<in> ns. m \<notin> set (take i order) \<longrightarrow> set (dependencies g m) \<subseteq> set (take i order) \<longrightarrow>
           order ! i \<le> m))"

lemma plan_cases:
  "case plan g targets of
     Inr order \<Rightarrow> least_topological g (needed_set g targets) order
   | Inl e \<Rightarrow> \<not> acyclic (dep_rel g \<inter> needed_set g targets \<times> needed_set g targets)"
proof -
  let ?ns = "reachable_from g targets" and ?N = "needed_set g targets"
  let ?D = "\<lambda>n. filter (\<lambda>d. d \<in> set ?ns) (dependencies g n)"
  have N: "set ?ns = ?N" by (rule set_reachable_from)
  have fin: "finite ?N" unfolding N [symmetric] by simp
  have D: "set (?D n) = set (dependencies g n)" if "n \<in> ?N" for n
    using needed_closed [OF that] N by auto
  have rem: "map (\<lambda>n. (n, ?D n)) ?ns = left_over ?D ?ns []" by (simp add: left_over_def)
  have ready: "sort (map fst (filter (\<lambda>(_, ds). ds = []) (map (\<lambda>n. (n, ?D n)) ?ns))) = ready_nodes ?D ?ns []"
    by (auto simp: ready_nodes_def filter_map comp_def filter_empty_conv
        intro!: arg_cong [where f = sort] filter_cong)
  define order where "order = kahn (left_over ?D ?ns []) [] (ready_nodes ?D ?ns [])"
  have plan: "plan g targets = (if length order \<noteq> length ?ns then Inl (GraphCycleError (sort ?ns)) else Inr order)"
    unfolding plan_def Let_def rem [symmetric] order_def ready [symmetric] ..
  have greedy: "greedy_from ?D ?ns 0 order" and stuck: "ready_nodes ?D ?ns order = []"
    using kahn_greedy [where D = ?D and order = "[]", OF distinct_reachable_from [of g targets] refl refl]
    unfolding order_def by simp_all
  note pre = greedy_ready_prefix [OF greedy]
  have dist: "distinct order" by (rule greedy_distinct [OF greedy])
  have sub: "set order \<subseteq> ?N" using pre(1) N by (auto simp: in_set_conv_nth)
  have len: "length order = length ?ns \<longleftrightarrow> set order = ?N"
    using sub N distinct_card [OF dist] distinct_card [OF distinct_reachable_from [of g targets]]
      card_subset_eq [of ?N "set order"] finite_set [of ?ns] by auto
  show ?thesis
  proof (cases "set order = ?N")
    case True
    have "least_topological g ?N order"
      unfolding least_topological_def
    proof (intro conjI dist True allI impI ballI)
      fix i assume i: "i < length order"
      then have "order ! i \<in> ?N" using sub nth_mem by blast
      then show "set (dependencies g (order ! i)) \<subseteq> set (take i order)" using pre(3) [OF i] D by simp
      show "order ! i \<le> m" if "m \<in> ?N" "m \<notin> set (take i order)" "set (dependencies g m) \<subseteq> set (take i order)" for m
        using pre(4) [OF i] that N D by simp
    qed
    then show ?thesis using plan len True by simp
  next
    case False
    let ?S = "?N - set order"
    have "\<exists>d \<in> ?S. (n, d) \<in> dep_rel g" if n: "n \<in> ?S" for n
    proof -
      have "\<not> set (?D n) \<subseteq> set order" using set_ready_nodes [of ?D ?ns order] stuck n N by auto
      then show ?thesis using D needed_closed n by (fastforce simp: dep_rel_def)
    qed
    moreover have "finite ?S" "?S \<noteq> {}" using False sub fin by auto
    ultimately have "\<not> acyclic (dep_rel g \<inter> ?S \<times> ?S)" by (intro stuck_cyclic)
    then have "\<not> acyclic (dep_rel g \<inter> ?N \<times> ?N)"
      by (rule contrapos_nn) (erule acyclic_subset, auto)
    then show ?thesis using plan len False by simp
  qed
qed

lemma least_topological_acyclic:
  assumes "least_topological g ns order"
  shows "acyclic (dep_rel g \<inter> ns \<times> ns)"
proof (rule ordered_acyclic)
  fix n d assume "(n, d) \<in> dep_rel g \<inter> ns \<times> ns"
  then obtain i where "i < length order" "order ! i = n" "d \<in> set (dependencies g n)"
    using assms by (auto simp: least_topological_def dep_rel_def in_set_conv_nth)
  then show "\<exists>i < length order. order ! i = n \<and> d \<in> set (take i order)"
    using assms by (auto simp: least_topological_def)
qed (use assms in \<open>simp add: least_topological_def\<close>)

section \<open>Cycle search\<close>

definition cycle_in :: "graph \<Rightarrow> string list \<Rightarrow> bool" where
  "cycle_in g c \<longleftrightarrow> 2 \<le> length c \<and> hd c = last c \<and>
     (\<forall>i. Suc i < length c \<longrightarrow> (c ! i, c ! Suc i) \<in> dep_rel g)"

definition black_set :: "(string \<Rightarrow> color) \<Rightarrow> string set" where
  "black_set c = {n. c n = Black}"

text \<open>
  The path holds the gray nodes and follows dependencies; black nodes depend only on black nodes,
  without a cycle among them.
\<close>

definition search_inv :: "graph \<Rightarrow> (string \<Rightarrow> color) \<Rightarrow> string list \<Rightarrow> bool" where
  "search_inv g c path \<longleftrightarrow>
     distinct path \<and> set path = {n. c n = Gray} \<and> set path \<subseteq> fst ` set g \<and>
     (\<forall>i. Suc i < length path \<longrightarrow> (path ! i, path ! Suc i) \<in> dep_rel g) \<and>
     (\<forall>n \<in> black_set c. set (dependencies g n) \<subseteq> black_set c) \<and>
     acyclic (dep_rel g \<inter> black_set c \<times> black_set c)"

text \<open>What a search leaves: a cycle, or the node black and the path as it was to be.\<close>

definition searched :: "graph \<Rightarrow> (string \<Rightarrow> color) \<Rightarrow> string list \<Rightarrow> string \<Rightarrow>
    ((string \<Rightarrow> color) \<times> string list \<times> string list option) option \<Rightarrow> bool" where
  "searched g c path n r \<longleftrightarrow>
     (case r of
        None \<Rightarrow> False
      | Some (c', path', Some cycle) \<Rightarrow> cycle_in g cycle
      | Some (c', path', None) \<Rightarrow>
          path' = path \<and> search_inv g c' path \<and> c' n = Black \<and> black_set c \<subseteq> black_set c')"

lemma path_short: "search_inv g c path \<Longrightarrow> length path \<le> length g"
proof -
  assume "search_inv g c path"
  then have "distinct path" "card (set path) \<le> card (fst ` set g)"
    by (auto simp: search_inv_def intro: card_mono)
  then show ?thesis
    using card_image_le [of "set g" fst] card_length [of g] distinct_card [of path] by simp
qed

lemma acyclic_insert_sink:
  assumes "acyclic (r \<inter> B \<times> B)" and "\<forall>m \<in> B. \<forall>d. (m, d) \<in> r \<longrightarrow> d \<in> B" and "n \<notin> B"
    and "\<forall>d. (n, d) \<in> r \<longrightarrow> d \<in> B"
  shows "acyclic (r \<inter> insert n B \<times> insert n B)"
proof -
  let ?s = "r \<inter> insert n B \<times> insert n B"
  have B: "(m, d) \<in> (r \<inter> B \<times> B)\<^sup>+" if "(m, d) \<in> ?s\<^sup>+" "m \<in> B" for m d
    using that
  proof (induction rule: trancl_induct)
    case (base y)
    then have "(m, y) \<in> r \<inter> B \<times> B" using assms(2) by auto
    then show ?case by (rule r_into_trancl)
  next
    case (step y z)
    then have "y \<in> B" by (auto dest: tranclD2)
    then have "(y, z) \<in> r \<inter> B \<times> B" using step.hyps(2) assms(2) by auto
    with step show ?case by (auto intro: trancl_into_trancl)
  qed
  have "x \<noteq> y" if "(x, y) \<in> ?s\<^sup>+" for x y
  proof (cases "x \<in> B")
    case True
    then show ?thesis using B [OF that] assms(1) by (auto simp: acyclic_def)
  next
    case False
    from that obtain z where z: "(x, z) \<in> ?s" "(z, y) \<in> ?s\<^sup>*" by (auto dest: tranclD)
    then have "z \<in> B" using False assms(4) by auto
    moreover have "y \<in> B" if "(z, y) \<in> ?s\<^sup>*" "z \<in> B" for z
      using that by (induction rule: rtrancl_induct) (use assms(2) in auto)
    ultimately show ?thesis using z(2) False by auto
  qed
  then show ?thesis by (auto simp: acyclic_def)
qed

lemma blacken:
  assumes inv: "search_inv g c (path @ [n])" and deps: "set (dependencies g n) \<subseteq> black_set c"
  shows "search_inv g (c(n := Black)) path" "black_set (c(n := Black)) = insert n (black_set c)"
proof -
  have gray: "c n = Gray" "n \<notin> set path" using inv by (auto simp: search_inv_def)
  show b: "black_set (c(n := Black)) = insert n (black_set c)" by (auto simp: black_set_def)
  have "set path = {m. (c(n := Black)) m = Gray}"
    using inv gray by (auto simp: search_inv_def)
  moreover have "(path ! i, path ! Suc i) \<in> dep_rel g" if "Suc i < length path" for i
    using inv that unfolding search_inv_def by (force simp: nth_append dest: spec [of _ i])
  moreover have "acyclic (dep_rel g \<inter> insert n (black_set c) \<times> insert n (black_set c))"
    using inv deps gray by (intro acyclic_insert_sink) (auto simp: search_inv_def dep_rel_def black_set_def)
  ultimately show "search_inv g (c(n := Black)) path"
    using inv deps unfolding search_inv_def b by auto
qed

lemma gray_cycle:
  assumes inv: "search_inv g c path" and d: "c d = Gray" "(last path, d) \<in> dep_rel g"
  shows "cycle_in g (dropWhile (\<lambda>m. m \<noteq> d) path @ [d])"
proof -
  let ?t = "takeWhile (\<lambda>m. m \<noteq> d) path" and ?p = "dropWhile (\<lambda>m. m \<noteq> d) path"
  have dp: "d \<in> set path" using inv d(1) by (auto simp: search_inv_def)
  then have ne: "?p \<noteq> []" "hd ?p = d" using hd_dropWhile [of "\<lambda>m. m \<noteq> d" path] by auto
  have path: "path = ?t @ ?p" by simp
  have last: "last path = last ?p" using ne(1) path by (metis last_appendR)
  have "((?p @ [d]) ! i, (?p @ [d]) ! Suc i) \<in> dep_rel g" if i: "Suc i < length (?p @ [d])" for i
  proof (cases "Suc i < length ?p")
    case True
    have "path ! (length ?t + k) = ?p ! k" for k by (subst path) (simp only: nth_append_length_plus)
    moreover have "Suc (length ?t + i) < length path"
      using True length_append [of ?t ?p] unfolding takeWhile_dropWhile_id by simp
    ultimately show ?thesis
      using inv True unfolding search_inv_def by (metis add_Suc_right nth_append Suc_lessD)
  next
    case False
    with i have l: "length ?p = Suc i" by simp
    have "(?p @ [d]) ! Suc i = d" "(?p @ [d]) ! i = last ?p"
      unfolding nth_append last_conv_nth [OF ne(1)] l by simp_all
    with d(2) last show ?thesis by simp
  qed
  then show ?thesis using ne by (cases ?p) (auto simp: cycle_in_def)
qed

lemma searched_mono: "searched g c' path n r \<Longrightarrow> black_set c \<subseteq> black_set c' \<Longrightarrow> searched g c path n r"
  by (auto simp: searched_def split: option.splits prod.splits)

lemma grow_path:
  assumes "search_inv g c path" "c n = White" "n \<in> fst ` set g" "path = [] \<or> (last path, n) \<in> dep_rel g"
  shows "search_inv g (c(n := Gray)) (path @ [n])" "black_set (c(n := Gray)) = black_set c"
proof -
  show b: "black_set (c(n := Gray)) = black_set c" using assms(2) by (auto simp: black_set_def)
  have "(path @ [n]) ! i = last path" if "Suc i = length path" for i
  proof -
    have ne: "path \<noteq> []" using that by auto
    show ?thesis unfolding nth_append last_conv_nth [OF ne] that [symmetric] by simp
  qed
  then have "((path @ [n]) ! i, (path @ [n]) ! Suc i) \<in> dep_rel g" if "Suc i < length (path @ [n])" for i
    using assms(1,4) that unfolding search_inv_def
    by (cases "Suc i = length path") (auto simp: nth_append)
  then show "search_inv g (c(n := Gray)) (path @ [n])"
    using assms(1-3) unfolding search_inv_def b by auto
qed

lemma visit_ok:
  "search_inv g c path \<Longrightarrow> c n = White \<Longrightarrow> n \<in> fst ` set g \<Longrightarrow>
     path = [] \<or> (last path, n) \<in> dep_rel g \<Longrightarrow> length g < fuel + length path \<Longrightarrow>
     searched g c path n (visit fuel g c path n)"
  "search_inv g c path \<Longrightarrow> path \<noteq> [] \<Longrightarrow> last path = n \<Longrightarrow> set ds \<subseteq> set (dependencies g n) \<Longrightarrow>
     set (dependencies g n) \<subseteq> black_set c \<union> set ds \<Longrightarrow> length g < fuel + length path \<Longrightarrow>
     searched g c (butlast path) n (visit_deps fuel g c path n ds)"
proof (induction fuel g c path n and fuel g c path n ds rule: visit_visit_deps.induct)
  case (1 g c path n)
  then show ?case using path_short [of g c path] by simp
next
  case (2 fuel g c path n)
  note grown = grow_path [OF 2(2-5)]
  have "searched g (c(n := Gray)) (butlast (path @ [n])) n
      (visit_deps fuel g (c(n := Gray)) (path @ [n]) n (sort (dependencies g n)))"
    using 2(6) by (intro 2(1) grown(1)) auto
  then show ?case using searched_mono [of g "c(n := Gray)" path n _ c] grown(2) by simp
next
  case (3 fuel g c path n)
  then have path: "path = butlast path @ [n]" by (metis append_butlast_last_id)
  have inv: "search_inv g c (butlast path @ [n])" using 3(1) path by simp
  have deps: "set (dependencies g n) \<subseteq> black_set c" using 3(5) by simp
  from blacken [OF inv deps] show ?case by (simp add: searched_def subset_insertI)
next
  case (4 fuel g c path n d ds)
  have rel: "(last path, d) \<in> dep_rel g" using 4(6,7) by (auto simp: dep_rel_def)
  have dg: "d \<in> fst ` set g" using 4(7) dependencies_in_graph by fastforce
  show ?case
  proof (cases "c d")
    case Gray
    then show ?thesis using gray_cycle [OF 4(4) Gray rel] by (simp add: searched_def)
  next
    case Black
    then have "searched g c (butlast path) n (visit_deps fuel g c path n ds)"
      using 4(4-9) by (intro 4(3)) (auto simp: black_set_def)
    with Black show ?thesis by simp
  next
    case White
    have v: "searched g c path d (visit fuel g c path d)"
      using 4(4,9) White dg rel by (intro 4(1)) auto
    obtain c' path' r where vr: "visit fuel g c path d = Some (c', path', r)"
      using v by (auto simp: searched_def split: option.splits)
    show ?thesis
    proof (cases r)
      case (Some cycle)
      then show ?thesis using v vr White by (simp add: searched_def)
    next
      case None
      with v vr have s: "path' = path" "search_inv g c' path" "c' d = Black" "black_set c \<subseteq> black_set c'"
        by (auto simp: searched_def)
      have "searched g c' (butlast path) n (visit_deps fuel g c' path' n ds)"
        using 4(2) [of "(c', path', None)" c' "(path', None)" path' None] White vr None 4(5-9) s
        by (auto simp: black_set_def)
      then show ?thesis using searched_mono [OF _ s(4)] White vr None by simp
    qed
  qed
qed

lemma visit_all_ok:
  "search_inv g c [] \<Longrightarrow> set ns \<subseteq> fst ` set g \<Longrightarrow> fst ` set g \<subseteq> black_set c \<union> set ns \<Longrightarrow>
     (case visit_all (Suc (length g)) g c [] ns of
        None \<Rightarrow> False | Some None \<Rightarrow> acyclic (dep_rel g) | Some (Some cycle) \<Rightarrow> cycle_in g cycle)"
proof (induction ns arbitrary: c)
  case Nil
  have "dep_rel g \<subseteq> black_set c \<times> black_set c"
  proof
    fix e assume "e \<in> dep_rel g"
    then obtain i j where e: "e = (i, j)" "j \<in> set (dependencies g i)" by (auto simp: dep_rel_def)
    then have "i \<in> fst ` set g"
      by (cases "map_of g i") (auto simp: dependencies_def dest: map_of_SomeD intro: rev_image_eqI)
    with e Nil dependencies_in_graph [of g i] show "e \<in> black_set c \<times> black_set c" by auto
  qed
  then have "dep_rel g \<inter> black_set c \<times> black_set c = dep_rel g" by auto
  with Nil(1) show ?case by (simp add: search_inv_def)
next
  case (Cons n ns)
  show ?case
  proof (cases "c n = White")
    case True
    have v: "searched g c [] n (visit (Suc (length g)) g c [] n)"
      using Cons.prems True by (intro visit_ok(1)) auto
    obtain c' path' r where vr: "visit (Suc (length g)) g c [] n = Some (c', path', r)"
      using v by (auto simp: searched_def split: option.splits)
    show ?thesis
    proof (cases r)
      case (Some cycle)
      then show ?thesis using v vr True by (simp add: searched_def del: visit.simps)
    next
      case None
      with v vr have s: "path' = []" "search_inv g c' []" "c' n = Black" "black_set c \<subseteq> black_set c'"
        by (auto simp: searched_def)
      have "fst ` set g \<subseteq> black_set c' \<union> set ns"
        using Cons.prems(3) s(3,4) by (auto simp: black_set_def)
      then show ?thesis using Cons.IH [OF s(2)] Cons.prems(2) True vr None s(1) by (simp del: visit.simps)
    qed
  next
    case False
    moreover have "c n \<noteq> Gray" using Cons.prems(1) by (auto simp: search_inv_def)
    ultimately have "n \<in> black_set c" by (cases "c n") (auto simp: black_set_def)
    then have "set ns \<subseteq> fst ` set g" "fst ` set g \<subseteq> black_set c \<union> set ns" using Cons.prems(2,3) by auto
    from Cons.IH [OF Cons.prems(1) this] show ?thesis using False by simp
  qed
qed

lemma find_cycle_cases:
  "case find_cycle g of
     None \<Rightarrow> False | Some None \<Rightarrow> acyclic (dep_rel g) | Some (Some cycle) \<Rightarrow> cycle_in g cycle"
  unfolding find_cycle_def by (rule visit_all_ok) (auto simp: search_inv_def black_set_def acyclic_def)

lemma cycle_not_acyclic:
  assumes "cycle_in g c"
  shows "\<not> acyclic (dep_rel g)"
proof -
  have step: "(c ! 0, c ! Suc i) \<in> (dep_rel g)\<^sup>+" if "Suc i < length c" for i
    using that
  proof (induction i)
    case 0
    then show ?case using assms by (auto simp: cycle_in_def)
  next
    case (Suc i)
    then show ?case using assms by (auto simp: cycle_in_def intro: trancl_into_trancl)
  qed
  have c: "2 \<le> length c" "hd c = last c" using assms by (simp_all add: cycle_in_def)
  then have "c \<noteq> []" "Suc (length c - 2) = length c - 1" "Suc (length c - 2) < length c" by auto
  then have "(hd c, last c) \<in> (dep_rel g)\<^sup>+"
    using step [of "length c - 2"] by (simp add: hd_conv_nth last_conv_nth)
  then show ?thesis using c(2) by (auto simp: acyclic_def)
qed

lemma least_topological_unique:
  assumes "least_topological g ns xs" "least_topological g ns ys"
  shows "xs = ys"
proof -
  have len: "length xs = length ys"
    using assms by (metis least_topological_def distinct_card)
  have "take i xs = take i ys" if "i \<le> length xs" for i
    using that
  proof (induction i)
    case (Suc i)
    then have t: "take i xs = take i ys" and i: "i < length xs" "i < length ys" using len by simp_all
    have least: "zs ! i \<in> ns" "zs ! i \<notin> set (take i zs)" "set (dependencies g (zs ! i)) \<subseteq> set (take i zs)"
      "m \<in> ns \<Longrightarrow> m \<notin> set (take i zs) \<Longrightarrow> set (dependencies g m) \<subseteq> set (take i zs) \<Longrightarrow> zs ! i \<le> m"
      if "least_topological g ns zs" "i < length zs" for zs m
      using that by (auto simp: least_topological_def in_set_conv_nth nth_eq_iff_index_eq)
    have "xs ! i \<le> ys ! i"
      using least(4) [OF assms(1) i(1)] least(1-3) [OF assms(2) i(2)] t by simp
    moreover have "ys ! i \<le> xs ! i"
      using least(4) [OF assms(2) i(2)] least(1-3) [OF assms(1) i(1)] t by simp
    ultimately show ?case using t i by (simp add: take_Suc_conv_app_nth)
  qed simp
  from this [of "length xs"] len show ?thesis by simp
qed

section \<open>Properties\<close>

text \<open>
  C33: A plan is the deterministic execution order. It lists exactly the nodes the targets need,
  each after everything it depends on, and the least node first wherever there is a choice; no
  other list does. Planning fails precisely when the needed nodes have a cycle.
\<close>
theorem plan_is_exact:
  "case plan g targets of
     Inr order \<Rightarrow>
       (\<forall>xs. least_topological g (needed_set g targets) xs \<longleftrightarrow> xs = order) \<and>
       acyclic (dep_rel g \<inter> needed_set g targets \<times> needed_set g targets)
   | Inl _ \<Rightarrow> \<not> acyclic (dep_rel g \<inter> needed_set g targets \<times> needed_set g targets)"
proof (cases "plan g targets")
  case (Inl e)
  then show ?thesis using plan_cases [of g targets] by simp
next
  case (Inr order)
  then have "least_topological g (needed_set g targets) order" using plan_cases [of g targets] by simp
  with Inr show ?thesis
    using least_topological_unique [of g] least_topological_acyclic [of g] by auto
qed

text \<open>
  The search for cycles always answers: with a path of dependencies that ends where it
  started when the document has a cycle anywhere, and with none exactly when it has none.
\<close>
theorem find_cycle_is_exact:
  "\<exists>r. find_cycle g = Some r \<and>
     (case r of
        Some cycle \<Rightarrow> cycle_in g cycle \<and> \<not> acyclic (dep_rel g)
      | None \<Rightarrow> acyclic (dep_rel g))"
  using find_cycle_cases [of g] cycle_not_acyclic [of g] by (auto split: option.splits)

end
