(* ===== verification/Graph_Lower.thy ===== *)
theory Graph_Lower
  imports Graph_Plan
begin

text \<open>
  Lowering of selector nodes (\<^verbatim>\<open>dinkster_graph/lower.py\<close>): a selector whose condition is a
  literal is replaced by the input it selects, and what only the other branch needed goes away.
\<close>

section \<open>Definitions\<close>

datatype lowering_problem =
    SelectorIsTarget string
  | BadSelectorValue string string
  | MissingBranch string string

text \<open>\<open>NoOutput\<close> is the \<^verbatim>\<open>IndexError\<close> of a selector schema without outputs.\<close>

datatype lowering_result =
    Lowered graph
  | LowerRefused lowering_problem
  | NoOutput

definition linked_nodes :: "any_node \<Rightarrow> string list" where
  "linked_nodes n = List.map_filter (\<lambda>(_, v). map_option lk_node (link_of v)) (node_inputs n)"

function cone_loop :: "graph \<Rightarrow> string list \<Rightarrow> string list \<Rightarrow> string list" where
  "cone_loop nodes found [] = found"
| "cone_loop nodes found (i # stack) =
     (case map_of nodes i of
        None \<Rightarrow> cone_loop nodes found stack
      | Some n \<Rightarrow>
          if i \<in> set found then cone_loop nodes found stack
          else cone_loop nodes (found @ [i]) (rev (linked_nodes n) @ stack))"
  by pat_completeness auto
termination
proof (relation "measures [\<lambda>(nodes, found, _). card (fst ` set nodes - set found), \<lambda>(_, _, stack). length stack]",
    goal_cases)
  case (4 nodes found i stack n)
  then have "i \<in> fst ` set nodes - set found" by (auto dest: map_of_SomeD intro: rev_image_eqI)
  then have "card (fst ` set nodes - set (found @ [i])) < card (fst ` set nodes - set found)"
    by (intro psubset_card_mono) auto
  then show ?case by simp
qed simp_all

definition cone :: "graph \<Rightarrow> link \<Rightarrow> string list" where
  "cone nodes source = cone_loop nodes [] [lk_node source]"

definition referenced :: "graph \<Rightarrow> string set" where
  "referenced nodes = (\<Union>n \<in> snd ` set nodes. set (linked_nodes n))"

lemma referenced_code [code]: "referenced nodes = set (concat (map (linked_nodes \<circ> snd) nodes))"
  by (auto simp: referenced_def)

definition removable :: "graph \<Rightarrow> string set \<Rightarrow> string list \<Rightarrow> string \<Rightarrow> bool" where
  "removable nodes candidates targets i \<longleftrightarrow>
     i \<in> candidates \<and> i \<notin> set targets \<and> i \<notin> referenced nodes"

function prune :: "graph \<Rightarrow> string set \<Rightarrow> string list \<Rightarrow> graph" where
  "prune nodes candidates targets =
     (if list_ex (\<lambda>p. removable nodes candidates targets (fst p)) nodes
      then prune (filter (\<lambda>p. \<not> removable nodes candidates targets (fst p)) nodes) candidates targets
      else nodes)"
  by auto
termination
  by (relation "measure (\<lambda>(nodes, _, _). length nodes)") (auto simp: list_ex_iff length_filter_less)

declare prune.simps [simp del]

definition selector_of :: "(string, node_schema) dict \<Rightarrow> any_node \<Rightarrow> (node_schema \<times> selector_spec) option" where
  "selector_of schemas n =
     (case n of
        Region _ _ \<Rightarrow> None
      | Plain p \<Rightarrow>
          (case map_of schemas (gn_type p) of
             None \<Rightarrow> None
           | Some s \<Rightarrow> map_option (\<lambda>sel. (s, sel)) (ns_selector s)))"

fun with_inputs :: "(string, gval) dict \<Rightarrow> any_node \<Rightarrow> any_node" where
  "with_inputs d (Plain n) = Plain (n\<lparr>gn_inputs := d\<rparr>)"
| "with_inputs d (Region r body) = Region (r\<lparr>rn_inputs := d\<rparr>) body"

definition rewire :: "link \<Rightarrow> gval \<Rightarrow> graph \<Rightarrow> graph" where
  "rewire output value nodes =
     map (\<lambda>(i, n). (i, with_inputs
       (map (\<lambda>(k, v). (k, if v = VLink output then value else v)) (node_inputs n)) n)) nodes"

lemma with_inputs_simps [simp]:
  "node_inputs (with_inputs d n) = d" "selector_of schemas (with_inputs d n) = selector_of schemas n"
  by (cases n; simp add: selector_of_def)+

lemma keys_rewire [simp]: "map fst (rewire l v nodes) = map fst nodes"
  by (simp add: rewire_def comp_def case_prod_beta)

lemma set_prune: "set (prune nodes c ts) \<subseteq> set nodes"
proof (induction nodes c ts rule: prune.induct)
  case (1 nodes c ts)
  then show ?case by (subst prune.simps) auto
qed

definition find_selector :: "(string, node_schema) dict \<Rightarrow> string list \<Rightarrow> graph \<Rightarrow>
    (string \<times> any_node) option" where
  "find_selector schemas runtime nodes =
     find (\<lambda>(i, n). selector_of schemas n \<noteq> None \<and> i \<notin> set runtime) nodes"

fun literal_bool :: "gval option \<Rightarrow> bool option" where
  "literal_bool (Some (VBool b)) = Some b"
| "literal_bool _ = None"

lemma literal_bool_Some [simp]: "literal_bool v = Some b \<longleftrightarrow> v = Some (VBool b)"
  by (cases v rule: literal_bool.cases) auto

fun input_link :: "gval option \<Rightarrow> link option" where
  "input_link (Some v) = link_of v"
| "input_link None = None"

text \<open>One selector with a literal condition: the result, or the graph and candidates to go on with.\<close>

definition lower_one :: "(string, node_schema) dict \<Rightarrow> string list \<Rightarrow> graph \<Rightarrow> string set \<Rightarrow> string \<Rightarrow> any_node \<Rightarrow>
    lowering_result + (graph \<times> string set)" where
  "lower_one schemas targets nodes candidates i n =
     (case selector_of schemas n of
        None \<Rightarrow> Inl NoOutput
      | Some (schema, sel) \<Rightarrow>
          if i \<in> set targets then Inl (LowerRefused (SelectorIsTarget i))
          else (case literal_bool (map_of (node_inputs n) (sl_input sel)) of
            None \<Rightarrow> Inl (LowerRefused (BadSelectorValue i (sl_input sel)))
          | Some b \<Rightarrow>
              let branch = (if b then sl_true sel else sl_false sel);
                  other = (if b then sl_false sel else sl_true sel) in
              (case map_of (node_inputs n) branch of
                 None \<Rightarrow> Inl (LowerRefused (MissingBranch i branch))
               | Some value \<Rightarrow>
                   (case ns_outputs schema of
                      [] \<Rightarrow> Inl NoOutput
                    | out # _ \<Rightarrow>
                        let nodes' = rewire \<lparr>lk_node = i, lk_output = out\<rparr> value (dict_del i nodes);
                            candidates' = (case input_link (map_of (node_inputs n) other) of
                              None \<Rightarrow> candidates | Some l \<Rightarrow> candidates \<union> set (cone nodes' l)) in
                        Inr (prune nodes' candidates' targets, candidates')))))"

definition reads_link :: "(string, node_schema) dict \<Rightarrow> any_node \<Rightarrow> bool" where
  "reads_link schemas n =
     (case selector_of schemas n of
        None \<Rightarrow> False
      | Some (_, sel) \<Rightarrow> input_link (map_of (node_inputs n) (sl_input sel)) \<noteq> None)"

lemma lower_one_Inr:
  assumes "lower_one schemas targets nodes candidates i n = Inr (nodes', candidates')"
  shows "\<exists>schema sel b value out outs.
     selector_of schemas n = Some (schema, sel) \<and> i \<notin> set targets \<and>
     map_of (node_inputs n) (sl_input sel) = Some (VBool b) \<and>
     map_of (node_inputs n) (if b then sl_true sel else sl_false sel) = Some value \<and>
     ns_outputs schema = out # outs \<and>
     candidates' = (case input_link (map_of (node_inputs n) (if b then sl_false sel else sl_true sel)) of
        None \<Rightarrow> candidates
      | Some l \<Rightarrow> candidates \<union> set (cone (rewire \<lparr>lk_node = i, lk_output = out\<rparr> value (dict_del i nodes)) l)) \<and>
     nodes' = prune (rewire \<lparr>lk_node = i, lk_output = out\<rparr> value (dict_del i nodes)) candidates' targets"
  using assms unfolding lower_one_def Let_def
  by (simp split: option.splits if_splits list.splits prod.splits) fastforce+

lemma keys_rewire_del: "fst ` set (rewire l v (dict_del i nodes)) = fst ` set nodes - {i}"
  using keys_rewire [of l v "dict_del i nodes"] by (metis keys_dict_del set_map)

lemma lower_one_shrinks:
  assumes "lower_one schemas targets nodes candidates i n = Inr (nodes', candidates')"
  shows "fst ` set nodes' \<subseteq> fst ` set nodes - {i}"
proof -
  obtain l v where "nodes' = prune (rewire l v (dict_del i nodes)) candidates' targets"
    using lower_one_Inr [OF assms] by blast
  then show ?thesis
    using image_mono [OF set_prune [of "rewire l v (dict_del i nodes)" candidates' targets], of fst]
    by (simp add: keys_rewire_del)
qed

function lower_loop :: "(string, node_schema) dict \<Rightarrow> string list \<Rightarrow> graph \<Rightarrow> string set \<Rightarrow> string list \<Rightarrow>
    lowering_result" where
  "lower_loop schemas targets nodes candidates runtime =
     (case find_selector schemas runtime nodes of
        None \<Rightarrow> Lowered (prune nodes candidates targets)
      | Some (i, n) \<Rightarrow>
          if reads_link schemas n then lower_loop schemas targets nodes candidates (runtime @ [i])
          else (case lower_one schemas targets nodes candidates i n of
            Inl r \<Rightarrow> r
          | Inr (nodes', candidates') \<Rightarrow> lower_loop schemas targets nodes' candidates' runtime))"
  by auto
termination
proof (relation "measure (\<lambda>(_, _, nodes, _, runtime). card (fst ` set nodes - set runtime))", goal_cases)
  case (2 schemas targets nodes candidates runtime p i n)
  then have "i \<in> fst ` set nodes - set runtime"
    by (auto simp: find_selector_def find_Some_iff intro: rev_image_eqI nth_mem)
  then have "fst ` set nodes - set (runtime @ [i]) \<subset> fst ` set nodes - set runtime" by auto
  from psubset_card_mono [OF _ this] show ?case by simp
next
  case (3 schemas targets nodes candidates runtime p i n q nodes' candidates')
  then have i: "i \<in> fst ` set nodes - set runtime"
    by (auto simp: find_selector_def find_Some_iff intro: rev_image_eqI nth_mem)
  have "fst ` set nodes' \<subseteq> fst ` set nodes - {i}"
    using lower_one_shrinks 3 by blast
  with i have "fst ` set nodes' - set runtime \<subset> fst ` set nodes - set runtime" by blast
  from psubset_card_mono [OF _ this] show ?case by simp
qed simp

declare lower_loop.simps [simp del]

definition lower_selectors :: "graph \<Rightarrow> string list \<Rightarrow> (string, node_schema) dict \<Rightarrow> lowering_result" where
  "lower_selectors g targets schemas = lower_loop schemas targets g {} []"

section \<open>Specification\<close>

text \<open>
  What lowering means, on the original graph alone. The condition of a selector and its two branches
  are read from its schema; a link to its first output stands for the branch that the condition
  picks, where the condition may itself be such a link.
\<close>

definition condition_of :: "(string, node_schema) dict \<Rightarrow> any_node \<Rightarrow> gval option" where
  "condition_of schemas n =
     (case selector_of schemas n of None \<Rightarrow> None | Some (_, sel) \<Rightarrow> map_of (node_inputs n) (sl_input sel))"

definition branch_of :: "(string, node_schema) dict \<Rightarrow> any_node \<Rightarrow> bool \<Rightarrow> string option" where
  "branch_of schemas n b =
     map_option (\<lambda>(_, sel). if b then sl_true sel else sl_false sel) (selector_of schemas n)"

definition branch_value :: "(string, node_schema) dict \<Rightarrow> any_node \<Rightarrow> bool \<Rightarrow> gval option" where
  "branch_value schemas n b =
     (case branch_of schemas n b of None \<Rightarrow> None | Some k \<Rightarrow> map_of (node_inputs n) k)"

definition first_output :: "(string, node_schema) dict \<Rightarrow> any_node \<Rightarrow> string option" where
  "first_output schemas n =
     (case selector_of schemas n of Some (s, _) \<Rightarrow> (case ns_outputs s of [] \<Rightarrow> None | out # _ \<Rightarrow> Some out) | None \<Rightarrow> None)"

inductive resolves :: "(string, node_schema) dict \<Rightarrow> graph \<Rightarrow> gval \<Rightarrow> gval \<Rightarrow> bool" for schemas g where
  here: "resolves schemas g v v"
| follow: "map_of g i = Some n \<Longrightarrow> condition_of schemas n = Some c \<Longrightarrow> resolves schemas g c (VBool b) \<Longrightarrow>
    branch_value schemas n b = Some v \<Longrightarrow> first_output schemas n = Some out \<Longrightarrow> resolves schemas g v w \<Longrightarrow>
    resolves schemas g (VLink \<lparr>lk_node = i, lk_output = out\<rparr>) w"

text \<open>The condition of the selector is the truth value \<open>b\<close>.\<close>

definition decided :: "(string, node_schema) dict \<Rightarrow> graph \<Rightarrow> any_node \<Rightarrow> bool \<Rightarrow> bool" where
  "decided schemas g n b \<longleftrightarrow> (\<exists>c. condition_of schemas n = Some c \<and> resolves schemas g c (VBool b))"

text \<open>The condition is absent, or a literal that is not a truth value.\<close>

definition undecidable :: "(string, node_schema) dict \<Rightarrow> graph \<Rightarrow> any_node \<Rightarrow> bool" where
  "undecidable schemas g n \<longleftrightarrow>
     (case condition_of schemas n of
        None \<Rightarrow> True
      | Some c \<Rightarrow> \<exists>v. resolves schemas g c v \<and> link_of v = None \<and> (\<forall>b. v \<noteq> VBool b))"

definition feeds_into :: "graph \<Rightarrow> (string \<times> string) set" where
  "feeds_into g = {(i, j) | i j n. map_of g i = Some n \<and> j \<in> set (linked_nodes n)}"

text \<open>Only branches that a decided selector does not take lose nodes.\<close>

definition discarded :: "(string, node_schema) dict \<Rightarrow> graph \<Rightarrow> string \<Rightarrow> bool" where
  "discarded schemas g i \<longleftrightarrow>
     (\<exists>s n b l. map_of g s = Some n \<and> decided schemas g n b \<and>
        branch_value schemas n (\<not> b) = Some (VLink l) \<and> (lk_node l, i) \<in> (feeds_into g)\<^sup>*)"

definition same_but_inputs :: "any_node \<Rightarrow> any_node \<Rightarrow> bool" where
  "same_but_inputs n m \<longleftrightarrow> m = with_inputs (node_inputs m) n"

definition derived :: "(string, node_schema) dict \<Rightarrow> graph \<Rightarrow> any_node \<Rightarrow> any_node \<Rightarrow> bool" where
  "derived schemas g n m \<longleftrightarrow> same_but_inputs n m \<and>
     list_all2 (\<lambda>(k, v) (l, w). k = l \<and> resolves schemas g v w) (node_inputs n) (node_inputs m)"

text \<open>
  A selector that was lowered: it is decided, nothing left reads its output unless it selects itself,
  and \<open>settled\<close> holds of the node that its other branch links to.
\<close>

definition lowered_away :: "(string, node_schema) dict \<Rightarrow> graph \<Rightarrow> (string \<Rightarrow> bool) \<Rightarrow> graph \<Rightarrow> string \<Rightarrow> any_node \<Rightarrow> bool" where
  "lowered_away schemas g settled h i n \<longleftrightarrow>
     (\<exists>b v out. decided schemas g n b \<and> branch_value schemas n b = Some v \<and> first_output schemas n = Some out \<and>
        ((\<exists>j m k. (j, m) \<in> set h \<and> (k, VLink \<lparr>lk_node = i, lk_output = out\<rparr>) \<in> set (node_inputs m)) \<longrightarrow>
           resolves schemas g v (VLink \<lparr>lk_node = i, lk_output = out\<rparr>)) \<and>
        (\<forall>l x. branch_value schemas n (\<not> b) = Some (VLink l) \<longrightarrow> map_of g (lk_node l) = Some x \<longrightarrow>
           selector_of schemas x = None \<longrightarrow> map_of h (lk_node l) \<noteq> None \<longrightarrow> settled (lk_node l)))"

definition kept_ok :: "(string, node_schema) dict \<Rightarrow> graph \<Rightarrow> string list \<Rightarrow> (string \<Rightarrow> bool) \<Rightarrow> graph \<Rightarrow> bool" where
  "kept_ok schemas g targets settled h \<longleftrightarrow>
     dict_ok h \<and>
     (\<forall>i m. map_of h i = Some m \<longrightarrow> (\<exists>n. map_of g i = Some n \<and> derived schemas g n m)) \<and>
     (\<forall>i n. map_of g i = Some n \<longrightarrow> map_of h i = None \<longrightarrow>
        i \<notin> set targets \<and>
        (lowered_away schemas g settled h i n \<or> i \<notin> referenced h \<and> discarded schemas g i))"

text \<open>Why lowering refuses a document.\<close>

definition refusal_ok :: "(string, node_schema) dict \<Rightarrow> graph \<Rightarrow> string list \<Rightarrow> lowering_problem \<Rightarrow> bool" where
  "refusal_ok schemas g targets p \<longleftrightarrow>
     (case p of
        SelectorIsTarget i \<Rightarrow>
          i \<in> set targets \<and> (\<exists>n. map_of g i = Some n \<and> selector_of schemas n \<noteq> None \<and>
            (undecidable schemas g n \<or> (\<exists>b. decided schemas g n b)))
      | BadSelectorValue i k \<Rightarrow>
          i \<notin> set targets \<and> (\<exists>n s sel. map_of g i = Some n \<and> selector_of schemas n = Some (s, sel) \<and>
            k = sl_input sel \<and> undecidable schemas g n)
      | MissingBranch i k \<Rightarrow>
          i \<notin> set targets \<and> (\<exists>n b. map_of g i = Some n \<and> decided schemas g n b \<and>
            branch_of schemas n b = Some k \<and> map_of (node_inputs n) k = None))"

definition lowering_ok :: "(string, node_schema) dict \<Rightarrow> graph \<Rightarrow> string list \<Rightarrow> lowering_result \<Rightarrow> bool" where
  "lowering_ok schemas g targets r \<longleftrightarrow>
     (case r of
        Lowered h \<Rightarrow>
          kept_ok schemas g targets (\<lambda>j. j \<in> set targets \<or> j \<in> referenced h) h \<and>
          (\<forall>i n. map_of h i \<noteq> None \<longrightarrow> map_of g i = Some n \<longrightarrow> selector_of schemas n \<noteq> None \<longrightarrow>
             (\<exists>l. condition_of schemas n = Some (VLink l)))
      | LowerRefused p \<Rightarrow> refusal_ok schemas g targets p
      | NoOutput \<Rightarrow> \<exists>i n b. map_of g i = Some n \<and> decided schemas g n b \<and>
          branch_value schemas n b \<noteq> None \<and> first_output schemas n = None)"

section \<open>Lemmas\<close>

lemma resolves_literal: "resolves schemas g v w \<Longrightarrow> link_of v = None \<Longrightarrow> w = v"
  by (induction rule: resolves.induct) auto

lemma resolves_link: "resolves schemas g v (VLink l) \<Longrightarrow> \<exists>l'. v = VLink l'"
  using resolves_literal [of schemas g v "VLink l"] by (cases v) auto

lemma resolves_trans: "resolves schemas g u v \<Longrightarrow> resolves schemas g v w \<Longrightarrow> resolves schemas g u w"
  by (induction rule: resolves.induct) (auto intro: resolves.intros)

text \<open>What a value resolves to is one chain; so its literal, and the truth value of a condition, is unique.\<close>

lemma resolves_chain:
  "resolves schemas g v w \<Longrightarrow> resolves schemas g v w' \<Longrightarrow> resolves schemas g w w' \<or> resolves schemas g w' w"
proof (induction arbitrary: w' rule: resolves.induct)
  case (follow i n c b v out w)
  note outer_hyps = follow.hyps and outer_IH = follow.IH
  from follow.prems show ?case
  proof (cases rule: resolves.cases)
    case here
    then show ?thesis using outer_hyps by (auto intro: resolves.follow)
  next
    case (follow i' n' c' b' v' out')
    then have same: "n' = n" "c' = c" "i' = i" using outer_hyps(1,2) by auto
    have "b' = b"
      using outer_IH(1) [of "VBool b'"] follow(4) same
        resolves_literal [of schemas g "VBool b" "VBool b'"] resolves_literal [of schemas g "VBool b'" "VBool b"] by auto
    then have "v' = v" using outer_hyps(4) follow(5) same by simp
    then show ?thesis using outer_IH(2) follow(7) by simp
  qed
qed auto

lemma decided_unique: "decided schemas g n b \<Longrightarrow> decided schemas g n b' \<Longrightarrow> b = b'"
proof -
  assume "decided schemas g n b" "decided schemas g n b'"
  then obtain c where "resolves schemas g c (VBool b)" "resolves schemas g c (VBool b')" by (auto simp: decided_def)
  from resolves_chain [OF this] show ?thesis by (auto dest: resolves_literal)
qed

lemma same_selector: "same_but_inputs n m \<Longrightarrow> selector_of schemas m = selector_of schemas n"
  by (metis same_but_inputs_def with_inputs_simps(2))

lemma map_of_filter_keys:
  "map_of (filter (\<lambda>p. P (fst p)) d) i = (if P i then map_of d i else None)"
  by (induction d) auto

lemma map_of_rewire:
  "map_of (rewire l v nodes) i = map_option (\<lambda>n. with_inputs
     (map (\<lambda>(k, u). (k, if u = VLink l then v else u)) (node_inputs n)) n) (map_of nodes i)"
  by (induction nodes) (auto simp: rewire_def)

lemma dict_ok_rewire [simp]: "dict_ok (rewire l v nodes) = dict_ok nodes"
  by (simp add: dict_ok_def)

lemma dict_ok_filter: "dict_ok d \<Longrightarrow> dict_ok (filter P d)"
  unfolding dict_ok_def by (induction d) auto

lemma set_map_filter: "x \<in> set (List.map_filter f xs) \<longleftrightarrow> (\<exists>y \<in> set xs. f y = Some x)"
  by (induction xs) (auto simp: List.map_filter_simps split: option.split)

lemma link_of_Some [simp]: "link_of v = Some l \<longleftrightarrow> v = VLink l"
  by (cases v) auto

lemma in_linked: "i \<in> set (linked_nodes n) \<longleftrightarrow>
    (\<exists>k l. (k, VLink l) \<in> set (node_inputs n) \<and> lk_node l = i)"
  unfolding linked_nodes_def set_map_filter by (simp add: case_prod_beta) force

lemma in_referenced: "i \<in> referenced h \<longleftrightarrow>
    (\<exists>j m k l. (j, m) \<in> set h \<and> (k, VLink l) \<in> set (node_inputs m) \<and> lk_node l = i)"
  by (simp add: referenced_def in_linked) force

lemma map_of_related:
  "list_all2 (\<lambda>(k, v) (l, w). k = l \<and> R v w) d e \<Longrightarrow> rel_option R (map_of d k) (map_of e k)"
  by (induction d e rule: list_all2_induct) auto

lemma in_related: "list_all2 (\<lambda>(k, v) (l, w). k = l \<and> R v w) d e \<Longrightarrow> (k, w) \<in> set e \<Longrightarrow>
    \<exists>v. (k, v) \<in> set d \<and> R v w"
  by (induction d e rule: list_all2_induct) auto

lemma derived_refl: "derived schemas g n n"
proof -
  have "with_inputs (node_inputs n) n = n" by (cases n) simp_all
  then show ?thesis by (auto simp: derived_def same_but_inputs_def intro!: list_all2_refl resolves.here)
qed

lemma derived_rewire:
  assumes "derived schemas g n m" and "resolves schemas g (VLink l) v"
  shows "derived schemas g n (with_inputs (map (\<lambda>(k, u). (k, if u = VLink l then v else u)) (node_inputs m)) m)"
proof -
  have twice: "with_inputs d (with_inputs e x) = with_inputs d x" for d e x by (cases x) simp_all
  have all: "list_all2 (\<lambda>(k, v) (l, w). k = l \<and> resolves schemas g v w) (node_inputs n) (node_inputs m)"
    using assms(1) by (simp add: derived_def)
  have "list_all2 (\<lambda>(k, v) (l, w). k = l \<and> resolves schemas g v w) (node_inputs n)
      (map (\<lambda>(k, u). (k, if u = VLink l then v else u)) (node_inputs m))"
    unfolding list_all2_map2
  proof (rule list_all2_mono [OF all])
    fix p q
    assume pq: "(\<lambda>(k, v) (l, w). k = l \<and> resolves schemas g v w) p q"
    obtain k a b where p: "p = (k, a)" "q = (k, b)" "resolves schemas g a b"
      using pq by (cases p; cases q) auto
    then have "b = VLink l \<Longrightarrow> resolves schemas g a v" using assms(2) by (auto intro: resolves_trans)
    show "(case p of (k, w) \<Rightarrow> \<lambda>(l, w'). k = l \<and> resolves schemas g w w')
        (case q of (k, u) \<Rightarrow> (k, if u = VLink l then v else u))"
      using p \<open>b = VLink l \<Longrightarrow> resolves schemas g a v\<close> by simp
  qed
  moreover have "m = with_inputs (node_inputs m) n" using assms(1) by (simp add: derived_def same_but_inputs_def)
  then have "with_inputs d m = with_inputs d n" for d by (metis twice)
  ultimately show ?thesis by (simp add: derived_def same_but_inputs_def)
qed


text \<open>Links of the lowered graph come from paths of the original one.\<close>

lemma resolves_feeds:
  "resolves schemas g v (VLink l) \<Longrightarrow> \<exists>l'. v = VLink l' \<and> (lk_node l', lk_node l) \<in> (feeds_into g)\<^sup>*"
proof (induction v "VLink l" rule: resolves.induct)
  case (follow i n c b v out)
  then obtain l' where l': "v = VLink l'" "(lk_node l', lk_node l) \<in> (feeds_into g)\<^sup>*" by blast
  obtain k where "map_of (node_inputs n) k = Some (VLink l')"
    using follow.hyps(4) l'(1) by (auto simp: branch_value_def split: option.splits)
  then have "lk_node l' \<in> set (linked_nodes n)" by (auto simp: in_linked dest: map_of_SomeD)
  with follow.hyps(1) have "(i, lk_node l') \<in> feeds_into g" by (auto simp: feeds_into_def)
  with l'(2) show ?case by auto
qed auto

definition nodes_derived :: "(string, node_schema) dict \<Rightarrow> graph \<Rightarrow> graph \<Rightarrow> bool" where
  "nodes_derived schemas g h \<longleftrightarrow>
     (\<forall>i m. map_of h i = Some m \<longrightarrow> (\<exists>n. map_of g i = Some n \<and> derived schemas g n m))"

lemma derived_feeds:
  assumes "nodes_derived schemas g h" and "(i, j) \<in> (feeds_into h)\<^sup>*"
  shows "(i, j) \<in> (feeds_into g)\<^sup>*"
  using assms(2)
proof (induction rule: rtrancl_induct)
  case (step j k)
  obtain m where m: "map_of h j = Some m" "k \<in> set (linked_nodes m)" using step.hyps(2) by (auto simp: feeds_into_def)
  then obtain a l where l: "(a, VLink l) \<in> set (node_inputs m)" "lk_node l = k" by (auto simp: in_linked)
  obtain n where n: "map_of g j = Some n" "derived schemas g n m" using assms(1) m(1) by (auto simp: nodes_derived_def)
  obtain v where v: "(a, v) \<in> set (node_inputs n)" "resolves schemas g v (VLink l)"
    using in_related [OF conjunct2 [OF n(2) [unfolded derived_def]] l(1)] by blast
  obtain l' where l': "v = VLink l'" "(lk_node l', k) \<in> (feeds_into g)\<^sup>*" using resolves_feeds [OF v(2)] l(2) by blast
  have "lk_node l' \<in> set (linked_nodes n)" using v(1) l'(1) by (auto simp: in_linked)
  then have "(j, lk_node l') \<in> feeds_into g" using n(1) by (auto simp: feeds_into_def)
  then show ?case using step.IH l'(2) by (meson converse_rtrancl_into_rtrancl rtrancl_trans)
qed simp

lemma cone_loop_feeds:
  "x \<in> set (cone_loop h found stack) \<Longrightarrow> x \<in> set found \<or> (\<exists>s \<in> set stack. (s, x) \<in> (feeds_into h)\<^sup>*)"
proof (induction h found stack rule: cone_loop.induct)
  case (2 h found i stack)
  show ?case
  proof (cases "map_of h i")
    case None
    then show ?thesis using 2 by auto
  next
    case (Some n)
    show ?thesis
    proof (cases "i \<in> set found")
      case True
      then show ?thesis using 2 Some by auto
    next
      case False
      have "(i, j) \<in> feeds_into h" if "j \<in> set (linked_nodes n)" for j using that Some by (auto simp: feeds_into_def)
      then have step: "\<exists>s \<in> set (i # stack). (s, x) \<in> (feeds_into h)\<^sup>*" if "j \<in> set (linked_nodes n)" "(j, x) \<in> (feeds_into h)\<^sup>*" for j
        using that by (auto intro: converse_rtrancl_into_rtrancl)
      have "x \<in> set (found @ [i]) \<or> (\<exists>s \<in> set (rev (linked_nodes n) @ stack). (s, x) \<in> (feeds_into h)\<^sup>*)"
        using 2(3) [OF Some False] 2(4) Some False by simp
      then show ?thesis using step by auto
    qed
  qed
qed simp

lemma cone_feeds: "x \<in> set (cone h l) \<Longrightarrow> (lk_node l, x) \<in> (feeds_into h)\<^sup>*"
  using cone_loop_feeds [of x h "[]" "[lk_node l]"] by (simp add: cone_def)

lemma cone_loop_found: "set found \<subseteq> set (cone_loop h found stack)"
  by (induction h found stack rule: cone_loop.induct) (auto split: option.splits)

lemma cone_source: "map_of h (lk_node l) \<noteq> None \<Longrightarrow> lk_node l \<in> set (cone h l)"
  using cone_loop_found [of "[lk_node l]" h] by (auto simp: cone_def)

text \<open>The invariant of the loop, with the candidates.\<close>

definition lower_inv :: "(string, node_schema) dict \<Rightarrow> graph \<Rightarrow> string list \<Rightarrow> string set \<Rightarrow> graph \<Rightarrow> bool" where
  "lower_inv schemas g targets c h \<longleftrightarrow> kept_ok schemas g targets (\<lambda>j. j \<in> c) h \<and> (\<forall>j \<in> c. discarded schemas g j)"

lemma lower_inv_nodes: "lower_inv schemas g targets c h \<Longrightarrow> nodes_derived schemas g h"
  by (simp add: lower_inv_def kept_ok_def nodes_derived_def)

lemma lowered_away_mono:
  assumes "lowered_away schemas g settled h i n" and "set h' \<subseteq> set h"
    and "\<And>j. map_of h' j \<noteq> None \<Longrightarrow> map_of h j \<noteq> None" and "\<And>j. map_of h' j \<noteq> None \<Longrightarrow> settled j \<Longrightarrow> settled' j"
  shows "lowered_away schemas g settled' h' i n"
proof -
  obtain b v out where d: "decided schemas g n b" "branch_value schemas n b = Some v" "first_output schemas n = Some out"
    and reads: "(\<exists>j m k. (j, m) \<in> set h \<and> (k, VLink \<lparr>lk_node = i, lk_output = out\<rparr>) \<in> set (node_inputs m)) \<longrightarrow>
      resolves schemas g v (VLink \<lparr>lk_node = i, lk_output = out\<rparr>)"
    and other: "\<forall>l x. branch_value schemas n (\<not> b) = Some (VLink l) \<longrightarrow> map_of g (lk_node l) = Some x \<longrightarrow>
      selector_of schemas x = None \<longrightarrow> map_of h (lk_node l) \<noteq> None \<longrightarrow> settled (lk_node l)"
    using assms(1) unfolding lowered_away_def by blast
  have "(\<exists>j m k. (j, m) \<in> set h' \<and> (k, VLink \<lparr>lk_node = i, lk_output = out\<rparr>) \<in> set (node_inputs m)) \<longrightarrow>
      resolves schemas g v (VLink \<lparr>lk_node = i, lk_output = out\<rparr>)" using reads assms(2) by blast
  moreover have "\<forall>l x. branch_value schemas n (\<not> b) = Some (VLink l) \<longrightarrow> map_of g (lk_node l) = Some x \<longrightarrow>
      selector_of schemas x = None \<longrightarrow> map_of h' (lk_node l) \<noteq> None \<longrightarrow> settled' (lk_node l)"
    using other assms(3,4) by blast
  ultimately show ?thesis using d unfolding lowered_away_def by blast
qed

lemma lower_inv_prune:
  "lower_inv schemas g targets c h \<Longrightarrow> lower_inv schemas g targets c (prune h c targets)"
proof (induction h c targets rule: prune.induct)
  case (1 h c ts)
  let ?f = "filter (\<lambda>p. \<not> removable h c ts (fst p)) h"
  show ?case
  proof (cases "list_ex (\<lambda>p. removable h c ts (fst p)) h")
    case True
    have less: "referenced ?f \<subseteq> referenced h" by (auto simp: referenced_def)
    have m: "map_of ?f i = (if removable h c ts i then None else map_of h i)" for i
      by (subst map_of_filter_keys) simp
    have inv: "kept_ok schemas g ts (\<lambda>j. j \<in> c) h" "\<forall>j \<in> c. discarded schemas g j"
      using 1(2) by (simp_all add: lower_inv_def)
    have "i \<notin> set ts \<and> (lowered_away schemas g (\<lambda>j. j \<in> c) ?f i n \<or> i \<notin> referenced ?f \<and> discarded schemas g i)"
      if "map_of g i = Some n" "map_of ?f i = None" for i n
    proof (cases "removable h c ts i")
      case True
      then show ?thesis using less inv(2) by (auto simp: removable_def)
    next
      case False
      with that have "map_of h i = None" unfolding m by simp
      with that(1) inv(1) have "i \<notin> set ts" and
        why: "lowered_away schemas g (\<lambda>j. j \<in> c) h i n \<or> i \<notin> referenced h \<and> discarded schemas g i"
        unfolding kept_ok_def by blast+
      moreover have "lowered_away schemas g (\<lambda>j. j \<in> c) ?f i n" if "lowered_away schemas g (\<lambda>j. j \<in> c) h i n"
        by (rule lowered_away_mono [OF that]) (auto simp: m split: if_splits)
      ultimately show ?thesis using less by blast
    qed
    moreover have "dict_ok ?f" using inv(1) by (simp add: kept_ok_def dict_ok_filter)
    moreover have "\<exists>n. map_of g i = Some n \<and> derived schemas g n x" if "map_of ?f i = Some x" for i x
      using inv(1) that unfolding kept_ok_def m by (auto split: if_splits)
    ultimately have "lower_inv schemas g ts c ?f" using inv(2) unfolding lower_inv_def kept_ok_def by blast
    then show ?thesis using 1(1) [OF True] True by (subst prune.simps) simp
  next
    case False
    then show ?thesis using 1(2) by (subst prune.simps) simp
  qed
qed

lemma prune_settles:
  "map_of (prune h c targets) j \<noteq> None \<Longrightarrow> j \<in> c \<Longrightarrow> j \<in> set targets \<or> j \<in> referenced (prune h c targets)"
proof (induction h c targets rule: prune.induct)
  case (1 h c ts)
  show ?case
  proof (cases "list_ex (\<lambda>p. removable h c ts (fst p)) h")
    case True
    then show ?thesis using 1 by (subst prune.simps, subst (asm) (3) prune.simps) simp
  next
    case False
    then have p: "prune h c ts = h" by (subst prune.simps) simp
    with 1(2) have "j \<in> fst ` set h" by (simp add: map_of_eq_None_iff)
    with False have "\<not> removable h c ts j" by (auto simp: list_ex_iff)
    then show ?thesis using 1(3) by (simp add: p removable_def)
  qed
qed

text \<open>How a selector of the current graph reads in the original one.\<close>

lemma selector_reads:
  assumes "derived schemas g n m"
  shows "selector_of schemas m = selector_of schemas n" and "branch_of schemas m b = branch_of schemas n b"
    and "first_output schemas m = first_output schemas n"
    and "rel_option (resolves schemas g) (condition_of schemas n) (condition_of schemas m)"
    and "rel_option (resolves schemas g) (branch_value schemas n b) (branch_value schemas m b)"
    and "rel_option (resolves schemas g) (map_of (node_inputs n) k) (map_of (node_inputs m) k)"
proof -
  have all: "list_all2 (\<lambda>(k, v) (l, w). k = l \<and> resolves schemas g v w) (node_inputs n) (node_inputs m)"
    using assms by (simp add: derived_def)
  show sel: "selector_of schemas m = selector_of schemas n"
    using assms same_selector by (auto simp: derived_def)
  then show "branch_of schemas m b = branch_of schemas n b" "first_output schemas m = first_output schemas n"
    by (simp_all add: branch_of_def first_output_def)
  then show "rel_option (resolves schemas g) (condition_of schemas n) (condition_of schemas m)"
    "rel_option (resolves schemas g) (branch_value schemas n b) (branch_value schemas m b)"
    using sel map_of_related [OF all] by (auto simp: condition_of_def branch_value_def split: option.splits)
  show "rel_option (resolves schemas g) (map_of (node_inputs n) k) (map_of (node_inputs m) k)"
    by (rule map_of_related [OF all])
qed

lemma decided_later:
  assumes "derived schemas g n m" and "condition_of schemas m = Some (VBool b)"
  shows "decided schemas g n b"
  using selector_reads(4) [OF assms(1)] assms(2) by (auto simp: decided_def option_rel_Some2)

lemma undecidable_later:
  assumes "derived schemas g n m" and "case condition_of schemas m of None \<Rightarrow> True | Some v \<Rightarrow> link_of v = None \<and> (\<forall>b. v \<noteq> VBool b)"
  shows "undecidable schemas g n"
  using selector_reads(4) [OF assms(1)] assms(2)
  by (cases "condition_of schemas n"; cases "condition_of schemas m") (auto simp: undecidable_def)

lemma inputs_rewire:
  "(k, u) \<in> set (node_inputs m) \<Longrightarrow> (j, m) \<in> set (rewire l v h) \<Longrightarrow>
     (\<exists>x. (j, x) \<in> set h \<and> (k, u) \<in> set (node_inputs x) \<and> u \<noteq> VLink l) \<or> u = v"
  by (force simp: rewire_def split: if_splits)

lemma lower_inv_step:
  assumes inv: "lower_inv schemas g targets c h" and n: "map_of h i = Some n"
    and one: "lower_one schemas targets h c i n = Inr (h', c')"
  shows "lower_inv schemas g targets c' h'"
proof -
  obtain schema sel b picked out outs where sel: "selector_of schemas n = Some (schema, sel)"
    and i: "i \<notin> set targets" and cond: "map_of (node_inputs n) (sl_input sel) = Some (VBool b)"
    and picked: "map_of (node_inputs n) (if b then sl_true sel else sl_false sel) = Some picked"
    and out: "ns_outputs schema = out # outs"
    and c': "c' = (case input_link (map_of (node_inputs n) (if b then sl_false sel else sl_true sel)) of
        None \<Rightarrow> c | Some l \<Rightarrow> c \<union> set (cone (rewire \<lparr>lk_node = i, lk_output = out\<rparr> picked (dict_del i h)) l))"
    and h': "h' = prune (rewire \<lparr>lk_node = i, lk_output = out\<rparr> picked (dict_del i h)) c' targets"
    using lower_one_Inr [OF one] by blast
  let ?l = "\<lparr>lk_node = i, lk_output = out\<rparr>" and ?h = "rewire \<lparr>lk_node = i, lk_output = out\<rparr> picked (dict_del i h)"
  have kept: "kept_ok schemas g targets (\<lambda>j. j \<in> c) h" and disc: "\<forall>j \<in> c. discarded schemas g j"
    using inv by (simp_all add: lower_inv_def)
  have other: "branch_value schemas n (\<not> b) = map_of (node_inputs n) (if b then sl_false sel else sl_true sel)"
    using sel by (simp add: branch_value_def branch_of_def)
  have facts: "condition_of schemas n = Some (VBool b)" "branch_value schemas n b = Some picked" "first_output schemas n = Some out"
    using sel cond picked out by (auto simp: condition_of_def branch_value_def branch_of_def first_output_def)
  obtain n0 where n0: "map_of g i = Some n0" "derived schemas g n0 n"
    using kept n unfolding kept_ok_def by blast
  note reads = selector_reads [OF n0(2)]
  have dec: "decided schemas g n0 b" by (rule decided_later [OF n0(2) facts(1)])
  obtain v0 where v0: "branch_value schemas n0 b = Some v0" "resolves schemas g v0 picked"
    using reads(5) [of b] facts(2) by (auto simp: option_rel_Some2)
  have out0: "first_output schemas n0 = Some out" using reads(3) facts(3) by simp
  have l: "resolves schemas g (VLink ?l) picked"
    using n0(1) dec v0 out0 unfolding decided_def by (auto intro: resolves.follow)
  have m: "map_of ?h j = (if j = i then None else map_option (\<lambda>n. with_inputs
     (map (\<lambda>(k, u). (k, if u = VLink ?l then picked else u)) (node_inputs n)) n) (map_of h j))" for j
    by (simp add: map_of_rewire)
  have der: "nodes_derived schemas g ?h"
    unfolding nodes_derived_def
  proof (intro allI impI)
    fix j x assume hx: "map_of ?h j = Some x"
    obtain y where y: "map_of h j = Some y" and
      x: "x = with_inputs (map (\<lambda>(k, u). (k, if u = VLink ?l then picked else u)) (node_inputs y)) y"
      using hx unfolding m by (auto split: if_splits)
    obtain a where "map_of g j = Some a" "derived schemas g a y"
      using kept y unfolding kept_ok_def by blast
    then show "\<exists>n. map_of g j = Some n \<and> derived schemas g n x" using derived_rewire [OF _ l] x by blast
  qed
  text \<open>Every input of the new graph is one of the old graph, which is not the output replaced, or what replaces it.\<close>
  have picked_in: "(i, n) \<in> set h" "\<exists>k. (k, picked) \<in> set (node_inputs n)"
    using map_of_SomeD [OF n] map_of_SomeD [OF picked] by blast+
  have input: "\<exists>a x k. (a, x) \<in> set h \<and> (k, u) \<in> set (node_inputs x)"
    if "(j, x) \<in> set ?h" "(k, u) \<in> set (node_inputs x)" for j x k u
    using inputs_rewire [OF that(2,1)] picked_in by (auto simp: dict_del_filter)
  have ref: "referenced ?h \<subseteq> referenced h"
    using input by (auto simp: in_referenced) blast
  text \<open>The candidates are in the branch that is not taken.\<close>
  have new_disc: "discarded schemas g j" if "j \<in> c'" for j
  proof (cases "j \<in> c")
    case False
    with that obtain l' where l': "branch_value schemas n (\<not> b) = Some (VLink l')" "j \<in> set (cone ?h l')"
      unfolding c' other by (cases "map_of (node_inputs n) (if b then sl_false sel else sl_true sel)")
        (auto split: option.splits)
    then obtain w where w: "branch_value schemas n0 (\<not> b) = Some w" "resolves schemas g w (VLink l')"
      using reads(5) [of "\<not> b"] by (auto simp: option_rel_Some2)
    obtain l0 where l0: "w = VLink l0" "(lk_node l0, lk_node l') \<in> (feeds_into g)\<^sup>*" using resolves_feeds [OF w(2)] by blast
    have "(lk_node l', j) \<in> (feeds_into g)\<^sup>*" by (rule derived_feeds [OF der cone_feeds [OF l'(2)]])
    with l0 w(1) n0(1) dec show ?thesis unfolding discarded_def by (meson rtrancl_trans)
  qed (use disc in blast)
  have more: "j \<in> c' " if "j \<in> c" for j using that by (auto simp: c' split: option.splits)
  have "i \<notin> set targets \<and> lowered_away schemas g (\<lambda>j. j \<in> c') ?h i n0"
  proof
    show "i \<notin> set targets" by (rule i)
    have "resolves schemas g v0 (VLink ?l)"
      if "(j, x) \<in> set ?h" "(k, VLink ?l) \<in> set (node_inputs x)" for j x k
      using inputs_rewire [OF that(2,1)] v0(2) by auto
    moreover have "lk_node l' \<in> c'"
      if l': "branch_value schemas n0 (\<not> b) = Some (VLink l')" "map_of g (lk_node l') = Some x"
        "selector_of schemas x = None" "map_of ?h (lk_node l') \<noteq> None" for l' x
    proof -
      obtain w where w: "branch_value schemas n (\<not> b) = Some w" "resolves schemas g (VLink l') w"
        using reads(5) [of "\<not> b"] l'(1) by (auto simp: option_rel_Some1)
      from w(2) have "w = VLink l'"
        using l'(2,3) by (cases rule: resolves.cases) (auto simp: condition_of_def)
      then have "input_link (map_of (node_inputs n) (if b then sl_false sel else sl_true sel)) = Some l'"
        using w(1) other by simp
      then show ?thesis using cone_source [OF l'(4)] by (simp add: c')
    qed
    ultimately show "lowered_away schemas g (\<lambda>j. j \<in> c') ?h i n0"
      unfolding lowered_away_def using dec v0(1) out0 by blast
  qed
  moreover have "lowered_away schemas g (\<lambda>j. j \<in> c') ?h j x"
    if away: "lowered_away schemas g (\<lambda>j. j \<in> c) h j x" for j x
  proof -
    obtain b v out where d: "decided schemas g x b" "branch_value schemas x b = Some v" "first_output schemas x = Some out"
      and rd: "(\<exists>a m k. (a, m) \<in> set h \<and> (k, VLink \<lparr>lk_node = j, lk_output = out\<rparr>) \<in> set (node_inputs m)) \<longrightarrow>
        resolves schemas g v (VLink \<lparr>lk_node = j, lk_output = out\<rparr>)"
      and ot: "\<forall>l y. branch_value schemas x (\<not> b) = Some (VLink l) \<longrightarrow> map_of g (lk_node l) = Some y \<longrightarrow>
        selector_of schemas y = None \<longrightarrow> map_of h (lk_node l) \<noteq> None \<longrightarrow> lk_node l \<in> c"
      using away unfolding lowered_away_def by blast
    have "\<exists>a m k. (a, m) \<in> set h \<and> (k, VLink \<lparr>lk_node = j, lk_output = out\<rparr>) \<in> set (node_inputs m)"
      if "\<exists>a m k. (a, m) \<in> set ?h \<and> (k, VLink \<lparr>lk_node = j, lk_output = out\<rparr>) \<in> set (node_inputs m)"
      using input that by blast
    moreover have "map_of h a \<noteq> None" if "map_of ?h a \<noteq> None" for a using that by (auto simp: m split: if_splits)
    ultimately show ?thesis using d rd ot more unfolding lowered_away_def by blast
  qed
  moreover have "map_of h j = None \<or> j = i" if "map_of ?h j = None" for j
    using that by (auto simp: m split: if_splits)
  ultimately have "j \<notin> set targets \<and> (lowered_away schemas g (\<lambda>j. j \<in> c') ?h j x \<or> j \<notin> referenced ?h \<and> discarded schemas g j)"
    if "map_of g j = Some x" "map_of ?h j = None" for j x
    using that kept ref n0(1) unfolding kept_ok_def by (cases "j = i") (fastforce, blast)
  then have "lower_inv schemas g targets c' ?h"
    using kept der new_disc unfolding lower_inv_def kept_ok_def nodes_derived_def by simp
  then show ?thesis unfolding h' by (rule lower_inv_prune)
qed

lemma link_of_None: "link_of v \<noteq> None \<longleftrightarrow> (\<exists>l. v = VLink l)"
  by (cases v) simp_all

lemma literal_bool_None: "literal_bool v = None \<longleftrightarrow> (\<forall>b. v \<noteq> Some (VBool b))"
  using literal_bool_Some [of v] by (cases "literal_bool v") auto

lemma reads_link_iff: "reads_link schemas n \<longleftrightarrow> (\<exists>l. condition_of schemas n = Some (VLink l))"
proof -
  have "input_link v \<noteq> None \<longleftrightarrow> (\<exists>l. v = Some (VLink l))" for v by (cases v) (simp_all add: link_of_None)
  then show ?thesis by (simp add: reads_link_def condition_of_def split: option.split)
qed

lemma lower_one_refused:
  assumes inv: "lower_inv schemas g targets c h" and n: "map_of h i = Some n" "\<not> reads_link schemas n"
    and one: "lower_one schemas targets h c i n = Inl (LowerRefused p)"
  shows "refusal_ok schemas g targets p"
proof -
  obtain n0 where n0: "map_of g i = Some n0" "derived schemas g n0 n"
    using lower_inv_nodes [OF inv] n(1) unfolding nodes_derived_def by blast
  note reads = selector_reads [OF n0(2)]
  obtain s sel where sel: "selector_of schemas n = Some (s, sel)"
    using one by (auto simp: lower_one_def split: option.splits)
  have c: "condition_of schemas n = map_of (node_inputs n) (sl_input sel)" by (simp add: condition_of_def sel)
  have und: "undecidable schemas g n0" if "literal_bool (map_of (node_inputs n) (sl_input sel)) = None"
  proof (rule undecidable_later [OF n0(2)])
    show "case condition_of schemas n of None \<Rightarrow> True | Some v \<Rightarrow> link_of v = None \<and> (\<forall>b. v \<noteq> VBool b)"
      using that n(2) unfolding reads_link_iff literal_bool_None c
      by (cases "map_of (node_inputs n) (sl_input sel)") (simp, simp, metis link_of_None)
  qed
  have dec: "decided schemas g n0 b" if "map_of (node_inputs n) (sl_input sel) = Some (VBool b)" for b
    using decided_later [OF n0(2)] c that by simp
  consider (target) "i \<in> set targets" "p = SelectorIsTarget i"
    | (bad) "i \<notin> set targets" "literal_bool (map_of (node_inputs n) (sl_input sel)) = None" "p = BadSelectorValue i (sl_input sel)"
    | (missing) b where "i \<notin> set targets" "map_of (node_inputs n) (sl_input sel) = Some (VBool b)"
        "map_of (node_inputs n) (if b then sl_true sel else sl_false sel) = None"
        "p = MissingBranch i (if b then sl_true sel else sl_false sel)"
    using one sel by (auto simp: lower_one_def Let_def split: option.splits if_splits list.splits)
  then show ?thesis
  proof cases
    case target
    have "undecidable schemas g n0 \<or> (\<exists>b. decided schemas g n0 b)"
      using und dec by (cases "literal_bool (map_of (node_inputs n) (sl_input sel))") auto
    moreover have "selector_of schemas n0 = Some (s, sel)" using reads(1) sel by simp
    ultimately show ?thesis using target n0(1) by (auto simp: refusal_ok_def)
  next
    case bad
    have "selector_of schemas n0 = Some (s, sel)" using reads(1) sel by simp
    then show ?thesis using bad und n0(1) by (auto simp: refusal_ok_def)
  next
    case missing
    let ?k = "if b then sl_true sel else sl_false sel"
    have "selector_of schemas n0 = Some (s, sel)" using reads(1) sel by simp
    then have "branch_of schemas n0 b = Some ?k" by (simp add: branch_of_def)
    moreover have "map_of (node_inputs n0) ?k = None" using reads(6) [of ?k] missing(3) by simp
    ultimately show ?thesis using missing(1,4) dec [OF missing(2)] n0(1) by (auto simp: refusal_ok_def)
  qed
qed

lemma lower_one_no_output:
  assumes inv: "lower_inv schemas g targets c h" and n: "map_of h i = Some n" "selector_of schemas n \<noteq> None"
    and one: "lower_one schemas targets h c i n = Inl NoOutput"
  shows "lowering_ok schemas g targets NoOutput"
proof -
  obtain n0 where n0: "map_of g i = Some n0" "derived schemas g n0 n"
    using lower_inv_nodes [OF inv] n(1) unfolding nodes_derived_def by blast
  note reads = selector_reads [OF n0(2)]
  obtain s sel where sel: "selector_of schemas n = Some (s, sel)" using n(2) by (auto simp: not_None_eq)
  obtain b v where b: "map_of (node_inputs n) (sl_input sel) = Some (VBool b)"
    "map_of (node_inputs n) (if b then sl_true sel else sl_false sel) = Some v" "ns_outputs s = []"
    using one sel by (auto simp: lower_one_def Let_def split: option.splits if_splits list.splits)
  have "branch_value schemas n b = Some v" using sel b(2) by (simp add: branch_value_def branch_of_def)
  then have "branch_value schemas n0 b \<noteq> None" using reads(5) [of b] by (auto simp: option_rel_Some2)
  moreover have "decided schemas g n0 b" using decided_later [OF n0(2)] sel b(1) by (simp add: condition_of_def)
  moreover have "first_output schemas n0 = None" using reads(3) sel b(3) by (simp add: first_output_def)
  ultimately show ?thesis using n0(1) by (auto simp: lowering_ok_def)
qed

lemma lower_one_stops:
  assumes "lower_one schemas targets h c i n = Inl r"
  shows "r = NoOutput \<or> (\<exists>p. r = LowerRefused p)"
  using assms by (auto simp: lower_one_def Let_def split: option.splits if_splits list.splits prod.splits)

lemma lowered_kept:
  assumes inv: "lower_inv schemas g targets c h" and none: "find_selector schemas runtime h = None"
    and run: "\<forall>i n. i \<in> set runtime \<longrightarrow> map_of g i = Some n \<longrightarrow> (\<exists>l. condition_of schemas n = Some (VLink l))"
  shows "lowering_ok schemas g targets (Lowered (prune h c targets))"
proof -
  let ?h = "prune h c targets" and ?settled = "\<lambda>j. j \<in> set targets \<or> j \<in> referenced (prune h c targets)"
  have kept: "kept_ok schemas g targets (\<lambda>j. j \<in> c) ?h"
    using lower_inv_prune [OF inv] by (simp add: lower_inv_def)
  have away: "lowered_away schemas g ?settled ?h i n" if "lowered_away schemas g (\<lambda>j. j \<in> c) ?h i n" for i n
    by (rule lowered_away_mono [OF that]) (simp_all add: prune_settles)
  have "kept_ok schemas g targets ?settled ?h" using kept away unfolding kept_ok_def by blast
  moreover have "\<exists>l. condition_of schemas n = Some (VLink l)"
    if i: "map_of ?h i \<noteq> None" "map_of g i = Some n" "selector_of schemas n \<noteq> None" for i n
  proof -
    obtain m where m: "map_of ?h i = Some m" using i(1) by blast
    then have "(i, m) \<in> set h" using set_prune map_of_SomeD by fastforce
    moreover have "derived schemas g n m" using kept m i(2) unfolding kept_ok_def by fastforce
    then have "selector_of schemas m \<noteq> None" using selector_reads(1) i(3) by metis
    ultimately have "i \<in> set runtime" using none by (auto simp: find_selector_def find_None_iff)
    then show ?thesis using run i(2) by blast
  qed
  ultimately show ?thesis by (simp add: lowering_ok_def)
qed

lemma find_mem: "find P xs = Some x \<Longrightarrow> x \<in> set xs \<and> P x"
  by (induction xs) (auto split: if_splits)

lemma lower_loop_ok:
  "lower_inv schemas g targets c h \<Longrightarrow>
   \<forall>i n. i \<in> set runtime \<longrightarrow> map_of g i = Some n \<longrightarrow> (\<exists>l. condition_of schemas n = Some (VLink l)) \<Longrightarrow>
     lowering_ok schemas g targets (lower_loop schemas targets h c runtime)"
proof (induction schemas targets h c runtime rule: lower_loop.induct)
  case (1 schemas targets h c runtime)
  show ?case
  proof (cases "find_selector schemas runtime h")
    case None
    then show ?thesis using lowered_kept [OF 1(3) None 1(4)] by (subst lower_loop.simps) simp
  next
    case (Some p)
    then obtain i n where p: "p = (i, n)" "(i, n) \<in> set h" "selector_of schemas n \<noteq> None"
      using find_mem [of _ h p] unfolding find_selector_def by (cases p) fastforce
    have n: "map_of h i = Some n" using p(2) 1(3) by (simp add: lower_inv_def kept_ok_def map_of_Some_set)
    show ?thesis
    proof (cases "reads_link schemas n")
      case True
      have "\<exists>l. condition_of schemas n0 = Some (VLink l)" if "map_of g i = Some n0" for n0
      proof -
        have "derived schemas g n0 n" using lower_inv_nodes [OF 1(3)] n that unfolding nodes_derived_def by fastforce
        from selector_reads(4) [OF this] True show ?thesis
          unfolding reads_link_iff by (auto simp: option_rel_Some2) (meson resolves_link)
      qed
      then have "\<forall>j n. j \<in> set (runtime @ [i]) \<longrightarrow> map_of g j = Some n \<longrightarrow> (\<exists>l. condition_of schemas n = Some (VLink l))"
        using 1(4) by auto
      from 1(1) [OF Some p(1) [symmetric] True 1(3) this] show ?thesis
        using Some p(1) True by (subst lower_loop.simps) simp
    next
      case False
      show ?thesis
      proof (cases "lower_one schemas targets h c i n")
        case (Inl r)
        then have "lowering_ok schemas g targets r"
          using lower_one_stops [OF Inl] lower_one_refused [OF 1(3) n False] lower_one_no_output [OF 1(3) n p(3)]
          by (auto simp: lowering_ok_def)
        then show ?thesis using False Some p(1) Inl by (subst lower_loop.simps) simp
      next
        case (Inr q)
        obtain h' c' where q: "q = (h', c')" by fastforce
        show ?thesis
          using 1(2) [OF Some p(1) [symmetric] False Inr q [symmetric] _ 1(4)] lower_inv_step [OF 1(3) n] False Some p(1) Inr q
          by (subst lower_loop.simps) simp
      qed
    qed
  qed
qed

section \<open>Properties\<close>


definition example_node :: "string \<Rightarrow> (string, gval) dict \<Rightarrow> any_node" where
  "example_node t inputs = Plain \<lparr>gn_type = t, gn_inputs = inputs, gn_output_members = [], gn_slot_variants = []\<rparr>"

definition example_link :: "string \<Rightarrow> gval" where
  "example_link i = VLink \<lparr>lk_node = i, lk_output = ''out''\<rparr>"

definition example_graph :: graph where
  "example_graph =
     [(''s'', example_node ''If'' [(''cond'', VBool True), (''yes'', example_link ''x''), (''no'', example_link ''y'')]),
      (''x'', example_node ''Load'' []), (''y'', example_node ''Load'' []),
      (''c'', example_node ''Save'' [(''image'', example_link ''s'')])]"

definition example_schemas :: "(string, node_schema) dict" where
  "example_schemas =
     [(''If'', \<lparr>ns_output_node = False,
        ns_selector = Some \<lparr>sl_input = ''cond'', sl_false = ''no'', sl_true = ''yes''\<rparr>, ns_outputs = [''out'']\<rparr>)]"


end
