(* ===== verification/Loops.thy ===== *)
theory Loops
  imports Graph_Plan
begin

text \<open>
  Loop regions drawn with boundary nodes (\<^verbatim>\<open>validate_loops\<close> of \<^verbatim>\<open>dinkster_graph/validate.py\<close>):
  every End Loop is paired with the closest Start Loop, and what lies between is the body.
\<close>

section \<open>Definitions\<close>

datatype severity = SevError | SevWarning

record diagnostic =
  dg_severity :: severity
  dg_code :: string
  dg_message :: string
  dg_node_id :: "string option"
  dg_input_id :: "string option"

record loop_pair =
  lp_end :: string
  lp_body :: "string list"

text \<open>
  \<open>walk\<close>: the stack's top comes first, and what a stop node leads to is not visited. The sets of
  the source are lists without repetitions; only sorted or as sets do they reach a result.
\<close>

function walk_loop :: "(string, string list) dict \<Rightarrow> (string \<Rightarrow> bool) \<Rightarrow> string list \<Rightarrow> string list \<Rightarrow>
    string list \<Rightarrow> string list \<times> string list" where
  "walk_loop edges stops visited reached [] = (visited, reached)"
| "walk_loop edges stops visited reached (k # pending) =
     (if k \<in> set visited then walk_loop edges stops visited reached pending
      else if stops k then walk_loop edges stops (visited @ [k]) (reached @ [k]) pending
      else walk_loop edges stops (visited @ [k]) reached (rev (dict_get_default edges k []) @ pending))"
  by pat_completeness auto
termination
proof (relation "measures [\<lambda>(edges, _, visited, _, pending).
      card (\<Union> (set ` snd ` set edges) \<union> set pending - set visited),
    \<lambda>(_, _, _, _, pending). length pending]", goal_cases)
  case (2 edges stops visited reached k pending)
  have "card (\<Union> (set ` snd ` set edges) \<union> set pending - set visited) \<le>
      card (\<Union> (set ` snd ` set edges) \<union> set (k # pending) - set visited)"
    by (rule card_mono) auto
  then show ?case by auto
next
  case (3 edges stops visited reached k pending)
  have "card (\<Union> (set ` snd ` set edges) \<union> set pending - set (visited @ [k])) <
      card (\<Union> (set ` snd ` set edges) \<union> set (k # pending) - set visited)"
    using 3 by (intro psubset_card_mono) auto
  then show ?case by simp
next
  case (4 edges stops visited reached k pending)
  have e: "set (dict_get_default edges k []) \<subseteq> \<Union> (set ` snd ` set edges)"
    by (cases "map_of edges k") (force simp: dict_get_default_def dest: map_of_SomeD)+
  have "card (\<Union> (set ` snd ` set edges) \<union> set (rev (dict_get_default edges k []) @ pending) -
        set (visited @ [k])) <
      card (\<Union> (set ` snd ` set edges) \<union> set (k # pending) - set visited)"
    using 4 e by (intro psubset_card_mono) auto
  then show ?case by simp
qed simp

definition walk_visited :: "string list \<Rightarrow> (string, string list) dict \<Rightarrow> (string \<Rightarrow> bool) \<Rightarrow> string list" where
  "walk_visited seeds edges stops = fst (walk_loop edges stops [] [] (rev seeds))"

definition walk_reached :: "string list \<Rightarrow> (string, string list) dict \<Rightarrow> (string \<Rightarrow> bool) \<Rightarrow> string list" where
  "walk_reached seeds edges stops = snd (walk_loop edges stops [] [] (rev seeds))"

fun is_loop_node :: "string \<Rightarrow> any_node \<Rightarrow> bool" where
  "is_loop_node t (Plain n) = (gn_type n = t)"
| "is_loop_node t (Region r body) = False"

definition loop_nodes :: "string \<Rightarrow> string list \<Rightarrow> graph \<Rightarrow> string list" where
  "loop_nodes t known g = map fst (filter (\<lambda>(k, n). is_loop_node t n \<and> k \<notin> set known) g)"

definition loop_parents :: "graph \<Rightarrow> (string, string list) dict" where
  "loop_parents g = map (\<lambda>(k, _). (k, dependencies g k)) g"

definition loop_children :: "graph \<Rightarrow> (string, string list) dict" where
  "loop_children g =
     map (\<lambda>(k, _). (k, map fst (filter (\<lambda>(_, ds). k \<in> set ds) (loop_parents g)))) g"

definition next_boundaries :: "(string, string list) dict \<Rightarrow> string list \<Rightarrow> (string, string list) dict" where
  "next_boundaries edges bs =
     map (\<lambda>k. (k, walk_reached (dict_get_default edges k []) edges (\<lambda>j. j \<in> set bs))) bs"

definition loop_descendants :: "(string, string list) dict \<Rightarrow> (string, string list) dict" where
  "loop_descendants start_edges =
     map (\<lambda>(k, js). (k, walk_visited js start_edges (\<lambda>_. False))) start_edges"

text \<open>What the pairing reads and does not change.\<close>

record loop_scope =
  ls_parents :: "(string, string list) dict"
  ls_children :: "(string, string list) dict"
  ls_terminal :: "string list"
  ls_descendants :: "(string, string list) dict"
  ls_end_edges :: "(string, string list) dict"

fun join_comma :: "string list \<Rightarrow> string" where
  "join_comma [] = ''''"
| "join_comma [s] = s"
| "join_comma (s # ss) = s @ '', '' @ join_comma ss"

definition loop_error :: "string \<Rightarrow> string \<Rightarrow> string \<Rightarrow> diagnostic" where
  "loop_error code message node_id =
     \<lparr>dg_severity = SevError, dg_code = ''loop.'' @ code, dg_message = message,
      dg_node_id = Some node_id, dg_input_id = None\<rparr>"

text \<open>The End Loops that wait for no other remaining one.\<close>

definition loop_leaves :: "loop_scope \<Rightarrow> string list \<Rightarrow> string list" where
  "loop_leaves sc remaining =
     sort (filter (\<lambda>k. list_all (\<lambda>j. j \<notin> set remaining) (dict_get_default (ls_end_edges sc) k [])) remaining)"

definition loop_candidates :: "loop_scope \<Rightarrow> string list \<Rightarrow> string \<Rightarrow> string list" where
  "loop_candidates sc available e =
     walk_reached (dict_get_default (ls_parents sc) e []) (ls_parents sc) (\<lambda>k. k \<in> set available)"

definition closest_starts :: "loop_scope \<Rightarrow> string list \<Rightarrow> string list" where
  "closest_starts sc candidates =
     filter (\<lambda>c. list_all (\<lambda>d. d = c \<or> c \<in> set (dict_get_default (ls_descendants sc) d [])) candidates)
       candidates"

definition body_escapes :: "loop_scope \<Rightarrow> string list \<Rightarrow> string \<Rightarrow> string \<Rightarrow> string list" where
  "body_escapes sc remaining s e =
     removeAll e (walk_reached (dict_get_default (ls_children sc) s []) (ls_children sc)
       (\<lambda>k. k \<in> set remaining \<or> k \<in> set (ls_terminal sc) \<or> k = e))"

text \<open>The loop over the remaining End Loops; \<open>Inl []\<close> is its exit on a cycle.\<close>

lemma loop_leaves_remaining: "loop_leaves sc remaining = e # es \<Longrightarrow> e \<in> set remaining"
proof -
  assume a: "loop_leaves sc remaining = e # es"
  have "set (loop_leaves sc remaining) \<subseteq> set remaining" by (auto simp: loop_leaves_def)
  then show ?thesis by (simp add: a)
qed

function pair_loops :: "loop_scope \<Rightarrow> string list \<Rightarrow> string list \<Rightarrow> (string, string) dict \<Rightarrow>
    diagnostic list + string list \<times> (string, string) dict" where
  "pair_loops sc available remaining matched =
     (if remaining = [] then Inr (available, matched)
      else case loop_leaves sc remaining of
        [] \<Rightarrow> Inl []
      | e # _ \<Rightarrow>
          (let candidates = loop_candidates sc available e in
           if candidates = [] then
             Inl [loop_error ''unmatchedEnd'' (''End Loop '' @ e @ '' has no available Start Loop'') e]
           else case closest_starts sc candidates of
             [s] \<Rightarrow>
               (let remaining' = removeAll e remaining;
                    escapes = body_escapes sc remaining' s e in
                if escapes \<noteq> [] then
                  Inl [loop_error ''bodyEscape''
                    (''Start Loop '' @ s @ '' reaches '' @ join_comma (sort escapes) @
                     '' without End Loop '' @ e) s]
                else pair_loops sc (removeAll s available) remaining' (dict_set s e matched))
           | _ \<Rightarrow>
               Inl [loop_error ''ambiguousNesting''
                 (''End Loop '' @ e @ '' can close unrelated Start Loops: '' @
                  join_comma (sort candidates)) e]))"
  by pat_completeness auto
termination
proof (relation "measure (\<lambda>(_, _, remaining, _). length remaining)", goal_cases)
  case (2 sc available remaining matched e es)
  then have "e \<in> set remaining" using loop_leaves_remaining by metis
  then show ?case using 2 by (simp add: length_removeAll_less)
qed simp

declare pair_loops.simps [simp del]

definition loop_body :: "(string, string list) dict \<Rightarrow> string \<Rightarrow> string \<Rightarrow> string list" where
  "loop_body children s e =
     removeAll e (walk_visited (dict_get_default children s []) children (\<lambda>k. k = e))"

definition accumulate_source :: "graph \<Rightarrow> string \<Rightarrow> string option" where
  "accumulate_source g e =
     (case map_of g e of
        None \<Rightarrow> None
      | Some n \<Rightarrow>
          (case map_of (node_inputs n) ''accumulate'' of
             None \<Rightarrow> None
           | Some v \<Rightarrow> map_option lk_node (link_of v)))"

fun loop_results :: "graph \<Rightarrow> (string, string) dict \<Rightarrow> diagnostic + (string, loop_pair) dict" where
  "loop_results g [] = Inr []"
| "loop_results g ((s, e) # matched) =
     (let body = loop_body (loop_children g) s e in
      case accumulate_source g e of
        None \<Rightarrow> and_then (loop_results g matched) (\<lambda>r. Inr ((s, \<lparr>lp_end = e, lp_body = sort body\<rparr>) # r))
      | Some a \<Rightarrow>
          if a \<in> set body \<or> a = s then
            Inl (loop_error ''accumulateFromBody''
              (''End Loop '' @ e @ '' accumulate depends on loop body node '' @ a) e)
          else and_then (loop_results g matched)
            (\<lambda>r. Inr ((s, \<lparr>lp_end = e, lp_body = sort body\<rparr>) # r)))"

definition make_loop_scope :: "graph \<Rightarrow> string list \<Rightarrow> string list \<Rightarrow> string list \<Rightarrow> loop_scope" where
  "make_loop_scope g targets starts ends =
     \<lparr>ls_parents = loop_parents g, ls_children = loop_children g,
      ls_terminal = filter (\<lambda>k. dict_mem k g \<and> dict_get_default (loop_children g) k [] = []) targets,
      ls_descendants = loop_descendants (next_boundaries (loop_children g) starts),
      ls_end_edges = next_boundaries (loop_parents g) ends\<rparr>"

definition validate_loops :: "graph \<Rightarrow> string list \<Rightarrow> (string, loop_pair) dict \<Rightarrow>
    (string, loop_pair) dict \<times> diagnostic list" where
  "validate_loops g targets known =
     (let starts = loop_nodes ''StartLoop'' (map fst known) g;
          ends = loop_nodes ''EndLoop'' (map (lp_end \<circ> snd) known) g in
      if starts = [] \<and> ends = [] then ([], [])
      else case pair_loops (make_loop_scope g targets starts ends) starts ends [] of
        Inl ds \<Rightarrow> ([], ds)
      | Inr (available, matched) \<Rightarrow>
          if available \<noteq> [] then
            ([], [loop_error ''unmatchedStart''
              (''Start Loops without End Loops: '' @ join_comma (sort available)) (hd (sort available))])
          else case loop_results g matched of
            Inl d \<Rightarrow> ([], [d])
          | Inr pairs \<Rightarrow> (pairs, []))"

section \<open>Walks\<close>

definition succs :: "(string, string list) dict \<Rightarrow> string \<Rightarrow> string set" where
  "succs edges i = set (dict_get_default edges i [])"

text \<open>The edges a walk follows: none out of a stop.\<close>

definition steps :: "(string, string list) dict \<Rightarrow> (string \<Rightarrow> bool) \<Rightarrow> (string \<times> string) set" where
  "steps edges stops = {(i, j). \<not> stops i \<and> j \<in> succs edges i}"

lemma walk_loop_contains:
  "set visited \<union> set pending \<subseteq> set (fst (walk_loop edges stops visited reached pending))"
  by (induction edges stops visited reached pending rule: walk_loop.induct) auto

lemma walk_loop_sound:
  "j \<in> set (fst (walk_loop edges stops visited reached pending)) \<Longrightarrow>
     j \<in> set visited \<or> (\<exists>i \<in> set pending. (i, j) \<in> (steps edges stops)\<^sup>*)"
proof (induction edges stops visited reached pending rule: walk_loop.induct)
  case (2 edges stops visited reached k pending)
  consider "k \<in> set visited" | "k \<notin> set visited" "stops k" | "k \<notin> set visited" "\<not> stops k" by blast
  then show ?case
  proof cases
    case 3
    with 2 have "j \<in> set visited \<or> j = k \<or>
        (\<exists>i \<in> succs edges k \<union> set pending. (i, j) \<in> (steps edges stops)\<^sup>*)"
      by (auto simp: succs_def)
    moreover have "(k, j) \<in> (steps edges stops)\<^sup>*" if "i \<in> succs edges k" "(i, j) \<in> (steps edges stops)\<^sup>*" for i
      using that 3 by (auto simp: steps_def intro: converse_rtrancl_into_rtrancl)
    ultimately show ?thesis by auto
  qed (use 2 in auto)
qed simp

lemma walk_loop_closed:
  "\<forall>i \<in> set visited. \<not> stops i \<longrightarrow> succs edges i \<subseteq> set visited \<union> set pending \<Longrightarrow>
     i \<in> set (fst (walk_loop edges stops visited reached pending)) \<Longrightarrow> \<not> stops i \<Longrightarrow>
     succs edges i \<subseteq> set (fst (walk_loop edges stops visited reached pending))"
proof (induction edges stops visited reached pending rule: walk_loop.induct)
  case (2 edges stops visited reached k pending)
  consider "k \<in> set visited" | "k \<notin> set visited" "stops k" | "k \<notin> set visited" "\<not> stops k" by blast
  then show ?case
  proof cases
    case 1
    with 2 show ?thesis by auto
  next
    case 2
    with "2.IH"(2) "2.prems" show ?thesis by auto
  next
    case 3
    have "\<forall>i \<in> set (visited @ [k]). \<not> stops i \<longrightarrow>
        succs edges i \<subseteq> set (visited @ [k]) \<union> set (rev (dict_get_default edges k []) @ pending)"
      using "2.prems"(1) by (auto simp: succs_def)
    with "2.IH"(3) [OF 3] "2.prems" 3 show ?thesis by auto
  qed
qed auto

lemma walk_loop_reached:
  "set reached = {i \<in> set visited. stops i} \<Longrightarrow> distinct reached \<Longrightarrow>
     set (snd (walk_loop edges stops visited reached pending)) =
       {i \<in> set (fst (walk_loop edges stops visited reached pending)). stops i} \<and>
     distinct (snd (walk_loop edges stops visited reached pending))"
  by (induction edges stops visited reached pending rule: walk_loop.induct) auto

lemma set_walk_visited:
  "set (walk_visited seeds edges stops) = (steps edges stops)\<^sup>* `` set seeds"
proof
  show "set (walk_visited seeds edges stops) \<subseteq> (steps edges stops)\<^sup>* `` set seeds"
    using walk_loop_sound [of _ edges stops "[]"] by (fastforce simp: walk_visited_def)
  let ?V = "set (walk_visited seeds edges stops)"
  have "j \<in> ?V" if "(i, j) \<in> (steps edges stops)\<^sup>*" "i \<in> ?V" for i j
    using that
  proof (induction rule: rtrancl_induct)
    case (step j k)
    then show ?case using walk_loop_closed [of "[]" stops edges "rev seeds" j "[]"]
      by (auto simp: walk_visited_def steps_def)
  qed
  moreover have "set seeds \<subseteq> ?V"
    using walk_loop_contains [of "[]" "rev seeds"] by (auto simp: walk_visited_def)
  ultimately show "(steps edges stops)\<^sup>* `` set seeds \<subseteq> ?V" by auto
qed

lemma set_walk_reached:
  "set (walk_reached seeds edges stops) = {i \<in> (steps edges stops)\<^sup>* `` set seeds. stops i}"
  using walk_loop_reached [of "[]" "[]" stops edges "rev seeds"]
  by (simp add: walk_reached_def walk_visited_def flip: set_walk_visited)

lemma distinct_walk_reached: "distinct (walk_reached seeds edges stops)"
  using walk_loop_reached [of "[]" "[]" stops edges "rev seeds"] by (simp add: walk_reached_def)

lemma steps_mono: "(\<And>i. stops' i \<Longrightarrow> stops i) \<Longrightarrow> steps edges stops \<subseteq> steps edges stops'"
  by (auto simp: steps_def)

text \<open>A walk that may not pass more stops ends at the first of them.\<close>

lemma first_stop:
  assumes "(i, j) \<in> (steps edges stops)\<^sup>*" and "T j"
  shows "\<exists>t. T t \<and> (i, t) \<in> (steps edges (\<lambda>k. stops k \<or> T k))\<^sup>* \<and> (t, j) \<in> (steps edges stops)\<^sup>*"
  using assms
proof (induction rule: converse_rtrancl_induct)
  case (step i k)
  then obtain t where t: "T t" "(k, t) \<in> (steps edges (\<lambda>k. stops k \<or> T k))\<^sup>*"
    "(t, j) \<in> (steps edges stops)\<^sup>*" by blast
  show ?case
  proof (cases "T i")
    case True
    then show ?thesis using step by (blast intro: converse_rtrancl_into_rtrancl)
  next
    case False
    then have "(i, k) \<in> steps edges (\<lambda>k. stops k \<or> T k)" using step(1) by (simp add: steps_def)
    with t show ?thesis by (blast intro: converse_rtrancl_into_rtrancl)
  qed
qed blast

text \<open>Either a path avoids a node or it reaches it first.\<close>

lemma avoid_or_reach:
  assumes "(i, j) \<in> (steps edges stops)\<^sup>*"
  shows "(i, j) \<in> (steps edges (\<lambda>k. k = e))\<^sup>* \<or> (i, e) \<in> (steps edges stops)\<^sup>* \<and> (e, j) \<in> (steps edges stops)\<^sup>+"
  using assms
proof (induction rule: rtrancl_induct)
  case (step j k)
  then show ?case
  proof (cases "j = e")
    case True
    with step show ?thesis by auto
  next
    case False
    then have "(j, k) \<in> steps edges (\<lambda>k. k = e)" using step(2) by (simp add: steps_def)
    with step(3) step(2) show ?thesis by (meson rtrancl.rtrancl_into_rtrancl trancl.trancl_into_trancl)
  qed
qed simp

section \<open>Pairing\<close>

text \<open>The links of the document, from producer to consumer.\<close>

definition feeds :: "graph \<Rightarrow> (string \<times> string) set" where
  "feeds g = (dep_rel g)\<inverse>"

lemma feeds_iff: "(i, j) \<in> feeds g \<longleftrightarrow> i \<in> set (dependencies g j)"
  by (simp add: feeds_def dep_rel_def)

lemma map_of_map_key: "map_of (map (\<lambda>(k, _). (k, f k)) d) k = (if k \<in> fst ` set d then Some (f k) else None)"
  by (induction d) auto

lemma dependencies_outside: "k \<notin> fst ` set g \<Longrightarrow> dependencies g k = []"
  by (simp add: dependencies_def map_of_eq_None_iff [symmetric])

lemma succs_parents: "succs (loop_parents g) k = {i. (i, k) \<in> feeds g}"
  using dependencies_outside [of k g]
  by (auto simp: succs_def loop_parents_def map_of_map_key dict_get_default_def feeds_iff)

lemma succs_children: "succs (loop_children g) k = {j. (k, j) \<in> feeds g}"
proof -
  have "j \<in> fst ` set g" if "k \<in> set (dependencies g j)" for j
    using that dependencies_outside [of j g] by fastforce
  moreover have "k \<in> fst ` set g" if "k \<in> set (dependencies g j)" for j
    using that dependencies_in_graph [of g j] by blast
  ultimately show ?thesis
    by (force simp: succs_def loop_children_def map_of_map_key dict_get_default_def feeds_iff loop_parents_def)
qed

lemma steps_children: "steps (loop_children g) (\<lambda>_. False) = feeds g"
  by (auto simp: steps_def succs_children)

lemma steps_parents: "steps (loop_parents g) (\<lambda>_. False) = (feeds g)\<inverse>"
  by (auto simp: steps_def succs_parents)

lemma steps_children_sub: "steps (loop_children g) stops \<subseteq> feeds g"
  unfolding steps_children [of g, symmetric] by (rule steps_mono) simp

lemma steps_parents_sub: "steps (loop_parents g) stops \<subseteq> (feeds g)\<inverse>"
  unfolding steps_parents [symmetric] by (rule steps_mono) simp

lemma succs_boundaries:
  "succs (next_boundaries edges bs) k =
     (if k \<in> set bs then set (walk_reached (dict_get_default edges k []) edges (\<lambda>j. j \<in> set bs)) else {})"
proof -
  have "map_of (map (\<lambda>k. (k, f k)) bs) k = (if k \<in> set bs then Some (f k) else None)" for f :: "string \<Rightarrow> string list"
    by (induction bs) auto
  then show ?thesis by (simp add: succs_def next_boundaries_def dict_get_default_def)
qed

lemma start_edge_feeds:
  assumes "j \<in> succs (next_boundaries (loop_children g) bs) i"
  shows "(i, j) \<in> (feeds g)\<^sup>+"
proof -
  from assms obtain k where k: "k \<in> succs (loop_children g) i"
    and kj: "(k, j) \<in> (steps (loop_children g) (\<lambda>j. j \<in> set bs))\<^sup>*"
    unfolding succs_boundaries by (auto simp: set_walk_reached succs_def split: if_splits)
  from k have "(i, k) \<in> feeds g" by (simp add: succs_children)
  moreover from kj have "(k, j) \<in> (feeds g)\<^sup>*" using rtrancl_mono [OF steps_children_sub] by blast
  ultimately show ?thesis by simp
qed

lemma descendant_feeds:
  assumes "j \<in> set (dict_get_default (loop_descendants (next_boundaries (loop_children g) bs)) i [])"
  shows "(i, j) \<in> (feeds g)\<^sup>+"
proof -
  let ?E = "next_boundaries (loop_children g) bs"
  have "j \<in> (steps ?E (\<lambda>_. False))\<^sup>* `` succs ?E i"
  proof -
    have "map_of (map (\<lambda>(k, js). (k, f js)) E) i = map_option f (map_of E i)"
      for f :: "string list \<Rightarrow> string list" and E by (induction E) auto
    then have "map_of (loop_descendants E) i = map_option (\<lambda>js. walk_visited js E (\<lambda>_. False)) (map_of E i)"
      for E by (simp add: loop_descendants_def)
    then show ?thesis using assms
      by (cases "map_of ?E i") (simp_all add: dict_get_default_def succs_def set_walk_visited)
  qed
  then obtain k where k: "k \<in> succs ?E i" and kj: "(k, j) \<in> (steps ?E (\<lambda>_. False))\<^sup>*" by auto
  have "steps ?E (\<lambda>_. False) \<subseteq> (feeds g)\<^sup>+" using start_edge_feeds by (auto simp: steps_def)
  then have "(k, j) \<in> ((feeds g)\<^sup>+)\<^sup>*" using kj rtrancl_mono by blast
  with start_edge_feeds [OF k] show ?thesis by simp
qed

lemma end_edge_exists:
  assumes "(r, e) \<in> (feeds g)\<^sup>+" and "r \<in> set ends" and "e \<in> set ends"
  shows "\<exists>x \<in> set (dict_get_default (next_boundaries (loop_parents g) ends) e []).
    x \<in> set ends \<and> (r, x) \<in> (feeds g)\<^sup>*"
proof -
  from assms(1) obtain p where rp: "(r, p) \<in> (feeds g)\<^sup>*" and pe: "(p, e) \<in> feeds g"
    by (meson tranclD2)
  from rp have "(p, r) \<in> (steps (loop_parents g) (\<lambda>_. False))\<^sup>*"
    by (simp add: steps_parents rtrancl_converse)
  from first_stop [OF this, of "\<lambda>k. k \<in> set ends"] assms(2) obtain t where t: "t \<in> set ends"
    "(p, t) \<in> (steps (loop_parents g) (\<lambda>k. k \<in> set ends))\<^sup>*"
    "(t, r) \<in> (steps (loop_parents g) (\<lambda>_. False))\<^sup>*" by auto
  have "t \<in> succs (next_boundaries (loop_parents g) ends) e"
  proof -
    have "p \<in> set (dict_get_default (loop_parents g) e [])"
      using pe succs_parents [of g e] by (auto simp: succs_def)
    with t assms(3) show ?thesis by (auto simp: succs_boundaries set_walk_reached)
  qed
  moreover have "(r, t) \<in> (feeds g)\<^sup>*" using t(3) by (simp add: steps_parents rtrancl_converse)
  ultimately show ?thesis using t(1) by (auto simp: succs_def)
qed

text \<open>What a walk from a Start Loop meets that does not go on behind its End Loop.\<close>

definition inside :: "graph \<Rightarrow> string \<Rightarrow> string \<Rightarrow> string set" where
  "inside g s e = {(i, j). i \<noteq> e \<and> (i, j) \<in> feeds g}\<^sup>* `` {j. (s, j) \<in> feeds g}"

lemma steps_avoiding: "steps (loop_children g) (\<lambda>k. k = e) = {(i, j). i \<noteq> e \<and> (i, j) \<in> feeds g}"
  by (auto simp: steps_def succs_children)

lemmas inside_steps = inside_def [folded steps_avoiding]

lemma set_loop_body: "set (loop_body (loop_children g) s e) = inside g s e - {e}"
  using succs_children [of g s]
  by (auto simp: loop_body_def set_walk_visited inside_steps succs_def)

lemma inside_feeds: "j \<in> inside g s e \<Longrightarrow> (s, j) \<in> (feeds g)\<^sup>+"
  using rtrancl_mono [OF steps_children_sub [of g "\<lambda>k. k = e"]]
  by (force simp: inside_steps intro: rtrancl_into_trancl2)

text \<open>The state of the pairing loop.\<close>

definition end_clear :: "graph \<Rightarrow> string \<times> string \<Rightarrow> string \<Rightarrow> bool" where
  "end_clear g p e2 \<longleftrightarrow> (e2, snd p) \<notin> (feeds g)\<^sup>+ \<and> e2 \<notin> inside g (fst p) (snd p)"

definition start_clear :: "graph \<Rightarrow> string \<times> string \<Rightarrow> string \<Rightarrow> bool" where
  "start_clear g p s2 \<longleftrightarrow> ((s2, snd p) \<in> (feeds g)\<^sup>+ \<longrightarrow> (s2, fst p) \<in> (feeds g)\<^sup>+)"

definition pair_sound :: "graph \<Rightarrow> string list \<Rightarrow> string \<times> string \<Rightarrow> bool" where
  "pair_sound g terminal p \<longleftrightarrow>
     (fst p, snd p) \<in> (feeds g)\<^sup>+ \<and> (\<forall>t \<in> set terminal. t \<in> inside g (fst p) (snd p) \<longrightarrow> t = snd p)"

definition pairing :: "graph \<Rightarrow> string list \<Rightarrow> string list \<Rightarrow> string list \<Rightarrow> string list \<Rightarrow> string list \<Rightarrow>
    (string, string) dict \<Rightarrow> bool" where
  "pairing g terminal starts ends available remaining matched \<longleftrightarrow>
     set available \<union> fst ` set matched = set starts \<and> set available \<inter> fst ` set matched = {} \<and>
     set remaining \<union> snd ` set matched = set ends \<and> set remaining \<inter> snd ` set matched = {} \<and>
     distinct (map fst matched) \<and> distinct (map snd matched) \<and>
     (\<forall>p \<in> set matched. pair_sound g terminal p \<and>
        (\<forall>e2 \<in> set remaining. end_clear g p e2) \<and> (\<forall>s2 \<in> set available. start_clear g p s2)) \<and>
     sorted_wrt (\<lambda>p q. end_clear g p (snd q) \<and> start_clear g p (fst q)) matched"

lemma pairing_initial: "pairing g terminal starts ends starts ends []"
  by (simp add: pairing_def)

lemma pairing_extend:
  assumes "pairing g terminal starts ends available remaining matched"
    and "s \<in> set available" and "e \<in> set remaining" and "pair_sound g terminal (s, e)"
    and "\<forall>e2 \<in> set remaining - {e}. end_clear g (s, e) e2"
    and "\<forall>s2 \<in> set available - {s}. start_clear g (s, e) s2"
  shows "pairing g terminal starts ends (removeAll s available) (removeAll e remaining) (dict_set s e matched)"
proof -
  have "s \<notin> fst ` set matched" "e \<notin> snd ` set matched"
    using assms(1-3) by (auto simp: pairing_def)
  moreover from this(1) have "dict_set s e matched = matched @ [(s, e)]"
    by (intro dict_set_append) (simp add: map_of_eq_None_iff)
  ultimately show ?thesis using assms
    by (simp add: pairing_def sorted_wrt_append) auto
qed

text \<open>One turn of the pairing loop.\<close>

lemma leaf_no_ancestor:
  assumes "pairing g terminal starts ends available remaining matched"
    and "ls_end_edges sc = next_boundaries (loop_parents g) ends"
    and "loop_leaves sc remaining = e # es" and "r \<in> set remaining"
  shows "(r, e) \<notin> (feeds g)\<^sup>+"
proof
  assume re: "(r, e) \<in> (feeds g)\<^sup>+"
  have el: "e \<in> set (loop_leaves sc remaining)" using assms(3) by simp
  then have e: "e \<in> set remaining" by (simp add: loop_leaves_def)
  have leaf: "x \<notin> set remaining" if "x \<in> set (dict_get_default (next_boundaries (loop_parents g) ends) e [])" for x
    using that el assms(2) by (auto simp: loop_leaves_def list_all_iff)
  from assms(1) have ends: "set remaining \<union> snd ` set matched = set ends"
    and clear: "\<forall>p \<in> set matched. \<forall>e2 \<in> set remaining. end_clear g p e2"
    by (simp_all add: pairing_def)
  from e assms(4) ends have "r \<in> set ends" "e \<in> set ends" by auto
  from end_edge_exists [OF re this]
  obtain x where x: "x \<in> set (dict_get_default (next_boundaries (loop_parents g) ends) e [])"
    "x \<in> set ends" "(r, x) \<in> (feeds g)\<^sup>*" by (elim bexE conjE)
  from leaf [OF x(1)] x(2) ends obtain p where p: "p \<in> set matched" "x = snd p" by blast
  show False
  proof (cases "r = x")
    case True
    with leaf [OF x(1)] assms(4) show False by simp
  next
    case False
    with x(3) have "(r, x) \<in> (feeds g)\<^sup>+" by (simp add: rtrancl_eq_or_trancl)
    with clear p assms(4) show False by (auto simp: end_clear_def)
  qed
qed

lemma candidate_feeds:
  assumes "c \<in> set (loop_candidates sc available e)" and "ls_parents sc = loop_parents g"
  shows "c \<in> set available" "(c, e) \<in> (feeds g)\<^sup>+"
proof -
  from assms obtain p where p: "p \<in> succs (loop_parents g) e"
    "(p, c) \<in> (steps (loop_parents g) (\<lambda>k. k \<in> set available))\<^sup>*"
    and "c \<in> set available"
    unfolding loop_candidates_def assms(2) set_walk_reached succs_def by blast
  then show "c \<in> set available" by simp
  from p(1) have "(p, e) \<in> feeds g" by (simp add: succs_parents)
  moreover from p(2) have "(p, c) \<in> ((feeds g)\<inverse>)\<^sup>*"
    using rtrancl_mono [OF steps_parents_sub] by blast
  then have "(c, p) \<in> (feeds g)\<^sup>*" by (simp add: rtrancl_converse)
  ultimately show "(c, e) \<in> (feeds g)\<^sup>+" by simp
qed

lemma candidate_exists:
  assumes "(a, e) \<in> (feeds g)\<^sup>+" and "a \<in> set available" and "ls_parents sc = loop_parents g"
  shows "\<exists>c \<in> set (loop_candidates sc available e). (a, c) \<in> (feeds g)\<^sup>*"
proof -
  from assms(1) obtain p where ap: "(a, p) \<in> (feeds g)\<^sup>*" and pe: "(p, e) \<in> feeds g"
    by (meson tranclD2)
  from ap have "(p, a) \<in> (steps (loop_parents g) (\<lambda>_. False))\<^sup>*"
    by (simp add: steps_parents rtrancl_converse)
  from first_stop [OF this, of "\<lambda>k. k \<in> set available"] assms(2) obtain t where t: "t \<in> set available"
    "(p, t) \<in> (steps (loop_parents g) (\<lambda>k. k \<in> set available))\<^sup>*"
    "(t, a) \<in> (steps (loop_parents g) (\<lambda>_. False))\<^sup>*" by auto
  have "p \<in> set (dict_get_default (loop_parents g) e [])"
    using pe succs_parents [of g e] by (auto simp: succs_def)
  with t have "t \<in> set (loop_candidates sc available e)"
    by (auto simp: loop_candidates_def set_walk_reached assms(3))
  moreover have "(a, t) \<in> (feeds g)\<^sup>*" using t(3) by (simp add: steps_parents rtrancl_converse)
  ultimately show ?thesis by blast
qed

lemma no_escape:
  assumes "body_escapes sc remaining s e = []" and "ls_children sc = loop_children g"
    and "t \<in> inside g s e" and "t \<in> set remaining \<or> t \<in> set (ls_terminal sc)"
  shows "t = e"
proof (rule ccontr)
  assume "t \<noteq> e"
  let ?T = "\<lambda>k. (k \<in> set remaining \<or> k \<in> set (ls_terminal sc)) \<and> k \<noteq> e"
  from assms(3) obtain j where j: "(s, j) \<in> feeds g" "(j, t) \<in> (steps (loop_children g) (\<lambda>k. k = e))\<^sup>*"
    by (auto simp: inside_steps)
  from first_stop [OF j(2), of ?T] assms(4) \<open>t \<noteq> e\<close> obtain u where u: "?T u"
    "(j, u) \<in> (steps (loop_children g) (\<lambda>k. k = e \<or> ?T k))\<^sup>*" by auto
  have same: "(\<lambda>k. k = e \<or> ?T k) = (\<lambda>k. k \<in> set remaining \<or> k \<in> set (ls_terminal sc) \<or> k = e)"
    by auto
  have "j \<in> set (dict_get_default (loop_children g) s [])"
    using j(1) succs_children [of g s] by (auto simp: succs_def)
  with u have "u \<in> set (body_escapes sc remaining s e)"
    unfolding body_escapes_def assms(2) same by (auto simp: set_walk_reached)
  with assms(1) show False by simp
qed

lemma closest_is_last:
  assumes "closest_starts sc (loop_candidates sc available e) = [s]"
    and "ls_parents sc = loop_parents g"
    and "ls_descendants sc = loop_descendants (next_boundaries (loop_children g) starts)"
  shows "s \<in> set (loop_candidates sc available e)"
    and "a \<in> set available - {s} \<Longrightarrow> start_clear g (s, e) a"
proof -
  have "s \<in> set (closest_starts sc (loop_candidates sc available e))" using assms(1) by simp
  then show s: "s \<in> set (loop_candidates sc available e)" by (simp add: closest_starts_def)
  have close: "c = s \<or> (c, s) \<in> (feeds g)\<^sup>+" if "c \<in> set (loop_candidates sc available e)" for c
    using that \<open>s \<in> set (closest_starts _ _)\<close> descendant_feeds [of s g starts c]
    by (auto simp: closest_starts_def list_all_iff assms(3))
  assume a: "a \<in> set available - {s}"
  show "start_clear g (s, e) a"
    unfolding start_clear_def
  proof
    assume "(a, snd (s, e)) \<in> (feeds g)\<^sup>+"
    then obtain c where c: "c \<in> set (loop_candidates sc available e)" "(a, c) \<in> (feeds g)\<^sup>*"
      using candidate_exists [OF _ _ assms(2), of a e available] a by auto
    from close [OF c(1)] c(2) a show "(a, fst (s, e)) \<in> (feeds g)\<^sup>+"
      by (auto simp: rtrancl_eq_or_trancl)
  qed
qed

lemma pairing_step:
  assumes "pairing g (ls_terminal sc) starts ends available remaining matched"
    and sc: "sc = make_loop_scope g targets starts ends"
    and "loop_leaves sc remaining = e # es"
    and "closest_starts sc (loop_candidates sc available e) = [s]"
    and "body_escapes sc (removeAll e remaining) s e = []"
  shows "pairing g (ls_terminal sc) starts ends (removeAll s available) (removeAll e remaining)
    (dict_set s e matched)"
proof (rule pairing_extend [OF assms(1)])
  have fields: "ls_parents sc = loop_parents g" "ls_children sc = loop_children g"
    "ls_descendants sc = loop_descendants (next_boundaries (loop_children g) starts)"
    "ls_end_edges sc = next_boundaries (loop_parents g) ends"
    by (simp_all add: sc make_loop_scope_def)
  note s = closest_is_last [OF assms(4) fields(1) fields(3)]
  show "s \<in> set available" using candidate_feeds(1) [OF s(1) fields(1)] .
  show e: "e \<in> set remaining" using loop_leaves_remaining [OF assms(3)] .
  show "pair_sound g (ls_terminal sc) (s, e)"
    using candidate_feeds(2) [OF s(1) fields(1)] no_escape [OF assms(5) fields(2)]
    by (auto simp: pair_sound_def)
  show "\<forall>e2 \<in> set remaining - {e}. end_clear g (s, e) e2"
    using leaf_no_ancestor [OF assms(1) fields(4) assms(3)] no_escape [OF assms(5) fields(2)]
    by (auto simp: end_clear_def)
  show "\<forall>s2 \<in> set available - {s}. start_clear g (s, e) s2" using s(2) by blast
qed

lemma pair_loops_pairing:
  assumes "pair_loops sc available remaining matched = Inr (av, m)"
    and "pairing g (ls_terminal sc) starts ends available remaining matched"
    and "sc = make_loop_scope g targets starts ends"
  shows "pairing g (ls_terminal sc) starts ends av [] m"
  using assms
proof (induction sc available remaining matched rule: pair_loops.induct)
  case (1 sc available remaining matched)
  show ?case
  proof (cases "remaining = []")
    case True
    with 1(2,3) show ?thesis by (simp add: pair_loops.simps)
  next
    case False
    from 1(2) False obtain e es s where leaf: "loop_leaves sc remaining = e # es"
      and c: "loop_candidates sc available e \<noteq> []"
      and s: "closest_starts sc (loop_candidates sc available e) = [s]"
      and esc: "body_escapes sc (removeAll e remaining) s e = []"
      and rest: "pair_loops sc (removeAll s available) (removeAll e remaining) (dict_set s e matched) = Inr (av, m)"
      by (subst (asm) pair_loops.simps) (auto simp: Let_def split: list.splits if_splits)
    have "\<not> body_escapes sc (removeAll e remaining) s e \<noteq> []" using esc by simp
    from 1(1) [OF False leaf refl c s refl refl refl this rest pairing_step [OF 1(3,4) leaf s esc] 1(4)]
    show ?thesis .
  qed
qed

section \<open>Results\<close>

lemma distinct_walk_visited: "distinct (walk_visited seeds edges stops)"
proof -
  have "distinct visited \<Longrightarrow> distinct (fst (walk_loop edges stops visited reached pending))"
    for visited reached pending
    by (induction edges stops visited reached pending rule: walk_loop.induct) auto
  then show ?thesis by (simp add: walk_visited_def)
qed

lemma sorted_loop_body:
  "sort (loop_body (loop_children g) s e) = sorted_list_of_set (inside g s e - {e})"
proof -
  have "distinct (loop_body (loop_children g) s e)"
    by (simp add: loop_body_def distinct_walk_visited distinct_removeAll)
  then show ?thesis
    by (simp add: sorted_list_of_set_sort_remdups distinct_remdups_id flip: set_loop_body)
qed

lemma loop_results_Inr:
  "loop_results g m = Inr r \<Longrightarrow>
     map (\<lambda>(s, p). (s, lp_end p)) r = m \<and>
     (\<forall>(s, p) \<in> set r. lp_body p = sort (loop_body (loop_children g) s (lp_end p)) \<and>
        (\<forall>a. accumulate_source g (lp_end p) = Some a \<longrightarrow> a \<notin> set (lp_body p) \<and> a \<noteq> s))"
proof (induction m arbitrary: r)
  case (Cons q m)
  obtain s e where q: "q = (s, e)" by fastforce
  from Cons.prems obtain r' where "loop_results g m = Inr r'"
    "r = (s, \<lparr>lp_end = e, lp_body = sort (loop_body (loop_children g) s e)\<rparr>) # r'"
    "accumulate_source g e = Some a \<Longrightarrow> a \<notin> set (loop_body (loop_children g) s e) \<and> a \<noteq> s" for a
    by (auto simp: q and_then_Inr_iff Let_def split: option.splits if_splits)
  with Cons.IH show ?case by (auto simp: q)
qed simp

lemma finite_feeds: "finite (feeds g)"
proof (rule finite_subset)
  show "feeds g \<subseteq> fst ` set g \<times> fst ` set g"
    using dependencies_in_graph [of g] dependencies_outside [of _ g] by (fastforce simp: feeds_iff)
qed simp

lemma acyclic_leaf:
  assumes "acyclic (feeds g)" and "remaining \<noteq> []"
    and "ls_end_edges sc = next_boundaries (loop_parents g) ends"
  shows "loop_leaves sc remaining \<noteq> []"
proof -
  have "wf ((feeds g)\<^sup>+)" using finite_acyclic_wf [OF finite_feeds assms(1)] by (rule wf_trancl)
  moreover obtain r0 where "r0 \<in> set remaining" using assms(2) by (cases remaining) auto
  ultimately obtain r where r: "r \<in> set remaining" "\<And>x. (x, r) \<in> (feeds g)\<^sup>+ \<Longrightarrow> x \<notin> set remaining"
    by (rule wfE_min) blast
  have "x \<notin> set remaining" if "x \<in> set (dict_get_default (ls_end_edges sc) r [])" for x
  proof (rule r(2))
    from that obtain p where p: "p \<in> succs (loop_parents g) r"
      "(p, x) \<in> (steps (loop_parents g) (\<lambda>j. j \<in> set ends))\<^sup>*"
      unfolding assms(3) succs_def [symmetric] succs_boundaries
      by (auto simp: set_walk_reached succs_def split: if_splits)
    from p(2) have "(x, p) \<in> (feeds g)\<^sup>*"
      using rtrancl_mono [OF steps_parents_sub] by (auto simp: rtrancl_converse)
    moreover from p(1) have "(p, r) \<in> feeds g" by (simp add: succs_parents)
    ultimately show "(x, r) \<in> (feeds g)\<^sup>+" by simp
  qed
  with r(1) have "r \<in> set (loop_leaves sc remaining)" by (simp add: loop_leaves_def list_all_iff)
  then show ?thesis by auto
qed

lemma pair_loops_reports:
  assumes "acyclic (feeds g)" and "ls_end_edges sc = next_boundaries (loop_parents g) ends"
  shows "pair_loops sc available remaining matched \<noteq> Inl []"
  using assms
proof (induction sc available remaining matched rule: pair_loops.induct)
  case (1 sc available remaining matched)
  then show ?case
    using acyclic_leaf [OF 1(2) _ 1(3), of remaining]
    by (subst pair_loops.simps) (auto simp: Let_def split: list.splits)
qed

lemma validate_loops_pairing:
  assumes "find_cycle g = Some None" and "validate_loops g targets known = (pairs, [])"
  shows "pairing g (filter (\<lambda>k. dict_mem k g \<and> dict_get_default (loop_children g) k [] = []) targets)
      (loop_nodes ''StartLoop'' (map fst known) g) (loop_nodes ''EndLoop'' (map (lp_end \<circ> snd) known) g)
      [] [] (map (\<lambda>(s, p). (s, lp_end p)) pairs)"
    and "(s, p) \<in> set pairs \<Longrightarrow> lp_body p = sorted_list_of_set (inside g s (lp_end p) - {lp_end p})"
    and "(s, p) \<in> set pairs \<Longrightarrow> accumulate_source g (lp_end p) = Some a \<Longrightarrow>
      a \<notin> set (lp_body p) \<and> a \<noteq> s"
proof -
  let ?S = "loop_nodes ''StartLoop'' (map fst known) g"
  let ?E = "loop_nodes ''EndLoop'' (map (lp_end \<circ> snd) known) g"
  let ?T = "filter (\<lambda>k. dict_mem k g \<and> dict_get_default (loop_children g) k [] = []) targets"
  define sc where "sc = make_loop_scope g targets ?S ?E"
  have sc: "ls_terminal sc = ?T" "ls_end_edges sc = next_boundaries (loop_parents g) ?E"
    by (simp_all add: sc_def make_loop_scope_def)
  have ac: "acyclic (feeds g)"
    using find_cycle_cases [of g] assms(1) by (simp add: feeds_def acyclic_converse)
  have main: "pairing g ?T ?S ?E [] [] (map (\<lambda>(s, p). (s, lp_end p)) pairs) \<and>
    (\<forall>(s, p) \<in> set pairs. lp_body p = sort (loop_body (loop_children g) s (lp_end p)) \<and>
        (\<forall>a. accumulate_source g (lp_end p) = Some a \<longrightarrow> a \<notin> set (lp_body p) \<and> a \<noteq> s))"
  proof (cases "?S = [] \<and> ?E = []")
    case True
    with assms(2) have "pairs = []" by (simp add: validate_loops_def)
    with True show ?thesis by (simp add: pairing_def)
  next
    case False
    from assms(2) pair_loops_reports [OF ac sc(2), of ?S ?E "[]"] obtain m
      where m: "pair_loops sc ?S ?E [] = Inr ([], m)" "loop_results g m = Inr pairs"
      unfolding validate_loops_def Let_def if_not_P [OF False] sc_def [symmetric]
      by (auto split: sum.splits if_splits)
    from pair_loops_pairing [OF m(1) _ sc_def] pairing_initial [of g "ls_terminal sc"]
    have "pairing g ?T ?S ?E [] [] m" by (simp add: sc(1))
    with loop_results_Inr [OF m(2)] show ?thesis by simp
  qed
  then show "pairing g ?T ?S ?E [] [] (map (\<lambda>(s, p). (s, lp_end p)) pairs)" by (rule conjunct1)
  from main show "(s, p) \<in> set pairs \<Longrightarrow> lp_body p = sorted_list_of_set (inside g s (lp_end p) - {lp_end p})"
    by (auto simp: sorted_loop_body)
  from main show "(s, p) \<in> set pairs \<Longrightarrow> accumulate_source g (lp_end p) = Some a \<Longrightarrow>
      a \<notin> set (lp_body p) \<and> a \<noteq> s" by blast
qed

section \<open>Nesting\<close>

lemma inside_through:
  assumes "s' \<in> inside g s e" and "s' \<noteq> e" and "(s', j) \<in> feeds g"
    and "(j, k) \<in> {(i, j). i \<noteq> e \<and> (i, j) \<in> feeds g}\<^sup>*"
  shows "k \<in> inside g s e"
proof -
  from assms(1) obtain i where "(s, i) \<in> feeds g" "(i, s') \<in> {(i, j). i \<noteq> e \<and> (i, j) \<in> feeds g}\<^sup>*"
    by (auto simp: inside_def)
  moreover have "(s', j) \<in> {(i, j). i \<noteq> e \<and> (i, j) \<in> feeds g}" using assms(2,3) by simp
  ultimately show ?thesis using assms(4)
    by (auto simp: inside_def intro: rtrancl_trans converse_rtrancl_into_rtrancl)
qed

text \<open>A node that another reaches is inside its loop, or beyond the loop's end.\<close>

lemma inside_or_beyond:
  assumes "(s, k) \<in> (feeds g)\<^sup>+"
  shows "k \<in> inside g s e \<or> (s, e) \<in> (feeds g)\<^sup>+ \<and> (e, k) \<in> (feeds g)\<^sup>+"
proof -
  from assms obtain j where j: "(s, j) \<in> feeds g" "(j, k) \<in> (feeds g)\<^sup>*" by (meson tranclD)
  have "(j, k) \<in> (steps (loop_children g) (\<lambda>_. False))\<^sup>*" using j(2) by (simp add: steps_children)
  from avoid_or_reach [OF this, of e] j show ?thesis
    unfolding steps_children inside_steps by (auto intro: rtrancl_into_trancl2)
qed

lemma inside_or_end_inside:
  assumes "k \<in> inside g s e'"
  shows "k \<in> inside g s e \<or> e \<in> inside g s e'"
proof -
  let ?R = "steps (loop_children g) (\<lambda>k. k = e')"
  from assms obtain j where j: "(s, j) \<in> feeds g" "(j, k) \<in> ?R\<^sup>*"
    by (auto simp: inside_steps)
  from avoid_or_reach [OF j(2), of e] j(1) show ?thesis unfolding inside_steps by blast
qed

lemma inside_inside:
  assumes "s' \<in> inside g s e" and "s' \<noteq> e" and "k \<in> inside g s' e"
  shows "k \<in> inside g s e"
  using assms(3) inside_through [OF assms(1,2)] by (auto simp: inside_def)

lemma nested_pair:
  assumes "acyclic (feeds g)"
    and first: "end_clear g (s', e') e" "start_clear g (s', e') s" and "s' \<noteq> e" and "e' \<noteq> e"
    and reach: "(s', e') \<in> (feeds g)\<^sup>+"
  shows "s' \<in> inside g s e \<longleftrightarrow> e' \<in> inside g s e"
    and "s' \<in> inside g s e \<Longrightarrow> inside g s' e' - {e'} \<subseteq> inside g s e - {e}"
proof -
  have no_back: "(e, e') \<notin> (feeds g)\<^sup>+" and kept: "e \<notin> inside g s' e'"
    using first(1) by (simp_all add: end_clear_def)
  show "s' \<in> inside g s e \<longleftrightarrow> e' \<in> inside g s e"
  proof
    assume s': "s' \<in> inside g s e"
    from inside_or_beyond [OF reach, of e] no_back have "e' \<in> inside g s' e" by blast
    with inside_inside [OF s' \<open>s' \<noteq> e\<close>] show "e' \<in> inside g s e" .
  next
    assume e': "e' \<in> inside g s e"
    from inside_feeds [OF e'] first(2) have "(s, s') \<in> (feeds g)\<^sup>+" by (simp add: start_clear_def)
    from inside_or_beyond [OF this, of e] show "s' \<in> inside g s e"
      using no_back reach by (meson trancl_trans)
  qed
  assume s': "s' \<in> inside g s e"
  show "inside g s' e' - {e'} \<subseteq> inside g s e - {e}"
  proof
    fix k assume k: "k \<in> inside g s' e' - {e'}"
    with inside_or_end_inside [of k g s' e' e] kept have "k \<in> inside g s' e" by blast
    with inside_inside [OF s' \<open>s' \<noteq> e\<close>] k kept show "k \<in> inside g s e - {e}" by blast
  qed
qed

text \<open>The pair that was made first is never around the other.\<close>

lemma not_around_later:
  assumes "acyclic (feeds g)"
    and first: "end_clear g (s, e) e'" "start_clear g (s, e) s'" and "s' \<noteq> e"
    and reach: "(s', e') \<in> (feeds g)\<^sup>+"
  shows "e' \<notin> inside g s e" and "s' \<notin> inside g s e"
proof -
  show e': "e' \<notin> inside g s e" using first(1) by (simp add: end_clear_def)
  show "s' \<notin> inside g s e"
  proof
    assume s': "s' \<in> inside g s e"
    from inside_or_beyond [OF reach, of e] show False
    proof
      assume "e' \<in> inside g s' e"
      with inside_inside [OF s' \<open>s' \<noteq> e\<close>] e' show False by blast
    next
      assume "(s', e) \<in> (feeds g)\<^sup>+ \<and> (e, e') \<in> (feeds g)\<^sup>+"
      with first(2) have "(s', s) \<in> (feeds g)\<^sup>+" by (simp add: start_clear_def)
      with inside_feeds [OF s'] have "(s, s) \<in> (feeds g)\<^sup>+" by (rule trancl_trans)
      with assms(1) show False by (simp add: acyclic_def)
    qed
  qed
qed

lemma pair_ends_differ:
  assumes "pairing g terminal starts ends [] [] m" and "set starts \<inter> set ends = {}"
    and "(s, e) \<in> set m" and "(s', e') \<in> set m" and "s \<noteq> s'"
  shows "s' \<noteq> e" and "e' \<noteq> e"
proof -
  from assms(1) have m: "fst ` set m = set starts" "snd ` set m = set ends" "distinct (map snd m)"
    by (simp_all add: pairing_def)
  from m(1,2) assms(3,4) have "s' \<in> set starts" "e \<in> set ends" by force+
  with assms(2) show "s' \<noteq> e" by blast
  from m(3) have "inj_on snd (set m)" by (simp add: distinct_map)
  from inj_onD [OF this, of "(s, e)" "(s', e')"] assms(3-5) show "e' \<noteq> e" by auto
qed

lemma pairs_nest:
  assumes "acyclic (feeds g)" and "pairing g terminal starts ends [] [] m"
    and "set starts \<inter> set ends = {}" and "(s, e) \<in> set m" and "(s', e') \<in> set m" and "s \<noteq> s'"
  shows "s' \<in> inside g s e \<longleftrightarrow> e' \<in> inside g s e"
    and "s' \<in> inside g s e \<Longrightarrow> inside g s' e' - {e'} \<subseteq> inside g s e - {e}"
proof -
  from assms(2) have m: "fst ` set m = set starts" "snd ` set m = set ends" "distinct (map snd m)" "\<forall>p \<in> set m. (fst p, snd p) \<in> (feeds g)\<^sup>+"
    "sorted_wrt (\<lambda>p q. end_clear g p (snd q) \<and> start_clear g p (fst q)) m"
    by (simp_all add: pairing_def pair_sound_def)
  note ne = pair_ends_differ [OF assms(2-6)]
  from m(4) assms(5) have reach: "(s', e') \<in> (feeds g)\<^sup>+" by fastforce
  from assms(4,5) obtain i j where ij: "i < length m" "j < length m" "m ! i = (s, e)" "m ! j = (s', e')"
    by (auto simp: in_set_conv_nth)
  with assms(6) have "i \<noteq> j" by auto
  then have "i < j \<or> j < i" by auto
  then have "end_clear g (s, e) e' \<and> start_clear g (s, e) s' \<or> end_clear g (s', e') e \<and> start_clear g (s', e') s"
    using m(5) ij by (fastforce simp: sorted_wrt_iff_nth_less)
  then show "s' \<in> inside g s e \<longleftrightarrow> e' \<in> inside g s e"
    and "s' \<in> inside g s e \<Longrightarrow> inside g s' e' - {e'} \<subseteq> inside g s e - {e}"
    using nested_pair [OF assms(1) _ _ ne reach] not_around_later [OF assms(1) _ _ ne(1) reach] by blast+
qed

lemma loop_nodes_disjoint:
  assumes "dict_ok g" and "t \<noteq> u"
  shows "set (loop_nodes t known g) \<inter> set (loop_nodes u known' g) = {}"
proof -
  have mem: "\<exists>n. map_of g k = Some n \<and> is_loop_node t n" if k: "k \<in> set (loop_nodes t known g)" for k t known
  proof -
    from k obtain n where "(k, n) \<in> set g" "is_loop_node t n" by (auto simp: loop_nodes_def)
    with map_of_Some_set [OF assms(1)] show ?thesis by blast
  qed
  have "\<not> is_loop_node u n" if "is_loop_node t n" for n using assms(2) that by (cases n) auto
  with mem [of _ t known] mem [of _ u known'] show ?thesis by fastforce
qed

text \<open>An example: one loop inside another.\<close>

definition chain_node :: "string \<Rightarrow> string list \<Rightarrow> any_node" where
  "chain_node t sources =
     Plain \<lparr>gn_type = t, gn_inputs = map (\<lambda>i. (i, VLink \<lparr>lk_node = i, lk_output = ''out''\<rparr>)) sources,
       gn_output_members = [], gn_slot_variants = []\<rparr>"

definition nested_loops :: graph where
  "nested_loops =
     [(''s1'', chain_node ''StartLoop'' []), (''s2'', chain_node ''StartLoop'' [''s1'']),
      (''b'', chain_node ''Add'' [''s2'']), (''e2'', chain_node ''EndLoop'' [''b'']),
      (''e1'', chain_node ''EndLoop'' [''e2'']), (''t'', chain_node ''Save'' [''e1''])]"

definition nested_pairs :: "(string, loop_pair) dict" where
  "nested_pairs =
     [(''s2'', \<lparr>lp_end = ''e2'', lp_body = [''b'']\<rparr>),
      (''s1'', \<lparr>lp_end = ''e1'', lp_body = [''b'', ''e2'', ''s2'']\<rparr>)]"

lemma nested_loops_paired:
  "dict_ok nested_loops" "find_cycle nested_loops = Some None"
  "validate_loops nested_loops [''t''] [] = (nested_pairs, [])"
  by code_simp+

section \<open>Properties\<close>

text \<open>
  C35: Accepted loops account for every boundary. In a document without cycles, when no loop is
  rejected, every Start Loop is paired and every End Loop closes exactly one; the body is exactly
  what lies after the start without passing the end, in name order; no target that nothing
  consumes lies in a body, and no end accumulates a value of its own body.
\<close>
theorem loop_pairs_are_complete:
  assumes "find_cycle g = Some None" and "validate_loops g targets known = (pairs, [])"
  shows "set (map fst pairs) = set (loop_nodes ''StartLoop'' (map fst known) g) \<and>
    set (map (lp_end \<circ> snd) pairs) = set (loop_nodes ''EndLoop'' (map (lp_end \<circ> snd) known) g) \<and>
    distinct (map fst pairs) \<and> distinct (map (lp_end \<circ> snd) pairs) \<and>
    (\<forall>(s, p) \<in> set pairs.
       (s, lp_end p) \<in> (feeds g)\<^sup>+ \<and>
       lp_body p = sorted_list_of_set (inside g s (lp_end p) - {lp_end p}) \<and>
       (\<forall>t \<in> set targets. dict_mem t g \<longrightarrow> (\<forall>j. (t, j) \<notin> feeds g) \<longrightarrow> t \<notin> set (lp_body p)) \<and>
       (\<forall>a. accumulate_source g (lp_end p) = Some a \<longrightarrow> a \<notin> set (lp_body p) \<and> a \<noteq> s))"
proof -
  note v = validate_loops_pairing [OF assms]
  have t: "dict_get_default (loop_children g) t [] = []" if "\<forall>j. (t, j) \<notin> feeds g" for t
    using that succs_children [of g t] by (simp add: succs_def)
  have body: "set (lp_body p) = inside g s (lp_end p) - {lp_end p}" if "(s, p) \<in> set pairs" for s p
  proof -
    have "finite (inside g s (lp_end p) - {lp_end p})" unfolding set_loop_body [symmetric] by simp
    with v(2) [OF that] show ?thesis by simp
  qed
  have fs: "map fst (map (\<lambda>(s, p). (s, lp_end p)) pairs) = map fst pairs"
    "map snd (map (\<lambda>(s, p). (s, lp_end p)) pairs) = map (lp_end \<circ> snd) pairs" by auto
  have "set (map fst pairs) = set (loop_nodes ''StartLoop'' (map fst known) g)"
    "set (map (lp_end \<circ> snd) pairs) = set (loop_nodes ''EndLoop'' (map (lp_end \<circ> snd) known) g)"
    "distinct (map fst pairs)" "distinct (map (lp_end \<circ> snd) pairs)"
    using v(1) unfolding pairing_def fs set_map [symmetric] by simp_all
  moreover have "(s, lp_end p) \<in> (feeds g)\<^sup>+ \<and>
      (\<forall>t \<in> set targets. dict_mem t g \<longrightarrow> (\<forall>j. (t, j) \<notin> feeds g) \<longrightarrow> t \<notin> set (lp_body p))"
    if "(s, p) \<in> set pairs" for s p
    using v(1) that t by (force simp: pairing_def pair_sound_def body [OF that])
  ultimately show ?thesis using v(2,3) by blast
qed

theorem loop_pairs_are_complete_witness:
  "(''s1'', ''e1'') \<in> (feeds nested_loops)\<^sup>+ \<and>
     sorted_list_of_set (inside nested_loops ''s1'' ''e1'' - {''e1''}) = [''b'', ''e2'', ''s2'']"
  using loop_pairs_are_complete [OF nested_loops_paired(2,3)] by (simp add: nested_pairs_def)

text \<open>
  Accepted loops nest. For any two of them, the one's boundaries lie both inside or both
  outside the other's body, and when they lie inside, so does the whole inner body.
\<close>
theorem loops_nest:
  assumes "dict_ok g" and "find_cycle g = Some None" and "validate_loops g targets known = (pairs, [])"
    and "(s, p) \<in> set pairs" and "(s', p') \<in> set pairs" and "s \<noteq> s'"
  shows "(s' \<in> set (lp_body p) \<longleftrightarrow> lp_end p' \<in> set (lp_body p)) \<and>
    (s' \<in> set (lp_body p) \<longrightarrow> set (lp_body p') \<subseteq> set (lp_body p))"
proof -
  note v = validate_loops_pairing [OF assms(2,3)]
  let ?S = "loop_nodes ''StartLoop'' (map fst known) g"
  let ?E = "loop_nodes ''EndLoop'' (map (lp_end \<circ> snd) known) g"
  have ac: "acyclic (feeds g)"
    using find_cycle_cases [of g] assms(2) by (simp add: feeds_def acyclic_converse)
  have body: "set (lp_body p) = inside g s (lp_end p) - {lp_end p}" if "(s, p) \<in> set pairs" for s p
  proof -
    have "finite (inside g s (lp_end p) - {lp_end p})" unfolding set_loop_body [symmetric] by simp
    with v(2) [OF that] show ?thesis by simp
  qed
  have mem: "(s, lp_end p) \<in> set (map (\<lambda>(s, p). (s, lp_end p)) pairs)"
    "(s', lp_end p') \<in> set (map (\<lambda>(s, p). (s, lp_end p)) pairs)"
    using assms(4,5) by force+
  have disj: "set ?S \<inter> set ?E = {}" by (rule loop_nodes_disjoint [OF assms(1)]) simp
  note ends = pair_ends_differ [OF v(1) disj mem assms(6)]
  show ?thesis
    using pairs_nest [OF ac v(1) disj mem assms(6)] ends unfolding body [OF assms(4)] body [OF assms(5)] by blast
qed

theorem loops_nest_witness:
  "\<exists>p p'. (''s1'', p) \<in> set nested_pairs \<and> (''s2'', p') \<in> set nested_pairs \<and>
     ''s2'' \<in> set (lp_body p) \<and> lp_end p' \<in> set (lp_body p) \<and> set (lp_body p') \<subseteq> set (lp_body p)"
  using loops_nest [OF nested_loops_paired, of "''s1''" "snd (nested_pairs ! 1)" "''s2''" "snd (nested_pairs ! 0)"]
  by (auto simp: nested_pairs_def)

end
