(* ===== verification/Values.thy ===== *)
theory Values
  imports Type_Ids
begin

text \<open>
  Value envelopes and the structural containers (\<^verbatim>\<open>dinkster_values/model.py\<close>,
  \<^verbatim>\<open>lists.py\<close>, \<^verbatim>\<open>tuples.py\<close>): the tree of envelopes inside a value, the resources it
  refers to, and the stamping of resident references.
\<close>

section \<open>Envelopes\<close>

text \<open>
  \<open>Value type_id fingerprint meta payload kind children\<close>: the payload is its identity as an object
  (\<^verbatim>\<open>id(value.payload)\<close>); its children are the envelopes a list or tuple payload holds.
\<close>

datatype payload_kind = Opaque | ListPayload | TuplePayload

datatype val =
  Value (v_type: string) (v_fingerprint: string) (v_meta: "(string, pyobj) dict")
    (v_payload: nat) (v_kind: payload_kind) (v_children: "val list")

definition resource_id_key :: string where "resource_id_key = ''resourceId''"
definition resource_refs_key :: string where "resource_refs_key = ''resourceRefs''"
definition resource_owner_key :: string where "resource_owner_key = ''resourceOwner''"
definition producer_arm_key :: string where "producer_arm_key = ''resourceProducerArm''"
definition cost_key :: string where "cost_key = ''cost''"
definition length_key :: string where "length_key = ''length''"

lemmas meta_keys = resource_id_key_def resource_refs_key_def resource_owner_key_def producer_arm_key_def
  cost_key_def length_key_def

text \<open>\<^verbatim>\<open>ValueMeta.get\<close> answers None for a missing key and for one that holds None.\<close>

definition meta_get :: "val \<Rightarrow> string \<Rightarrow> pyobj" where
  "meta_get v k = dict_get_default (v_meta v) k PNone"

definition value_children :: "val \<Rightarrow> val list option" where
  "value_children v = (if v_kind v = Opaque then None else Some (v_children v))"

definition list_children :: "val \<Rightarrow> val list option" where
  "list_children v = (if v_kind v = ListPayload then Some (v_children v) else None)"

text \<open>\<open>hash\<close> stands for the framed blake2b of the parts, \<open>fresh\<close> for the new payload object.\<close>

definition list_fingerprint :: "(string list \<Rightarrow> string) \<Rightarrow> val list \<Rightarrow> string" where
  "list_fingerprint hash vs =
     hash (''list'' # concat (map (\<lambda>v. [v_type v, v_fingerprint v]) vs))"

definition make_list_value :: "(string list \<Rightarrow> string) \<Rightarrow> nat \<Rightarrow> string \<Rightarrow> val list \<Rightarrow> string + val" where
  "make_list_value hash fresh element vs =
     (case find (\<lambda>v. element \<noteq> ''*'' \<and> v_type v \<noteq> element) vs of
        Some v \<Rightarrow> Inl (v_type v)
      | None \<Rightarrow> Inr (Value (list_type_id element) (list_fingerprint hash vs)
                  [(length_key, PInt (int (length vs)))] fresh ListPayload vs))"

definition make_tuple_value :: "(string list \<Rightarrow> string) \<Rightarrow> nat \<Rightarrow> val list \<Rightarrow> val" where
  "make_tuple_value hash fresh vs =
     Value (tuple_type_id (map v_type vs))
       (hash (''tuple'' # concat (map (\<lambda>v. [v_type v, v_fingerprint v]) vs)))
       [(length_key, PInt (int (length vs)))] fresh TuplePayload vs"

section \<open>Reading the tree\<close>

fun iter_value_tree :: "val \<Rightarrow> val list" where
  "iter_value_tree (Value t f m p k cs) =
     Value t f m p k cs # (if k = Opaque then [] else concat (map iter_value_tree cs))"

fun strings_of :: "pyobj list \<Rightarrow> string list" where
  "strings_of [] = []"
| "strings_of (PStr s # xs) = s # strings_of xs"
| "strings_of (_ # xs) = strings_of xs"

fun str_of :: "pyobj \<Rightarrow> string option" where
  "str_of (PStr s) = Some s"
| "str_of _ = None"

definition local_resource_ids :: "val \<Rightarrow> string list" where
  "local_resource_ids v =
     (case str_of (meta_get v resource_id_key) of None \<Rightarrow> [] | Some s \<Rightarrow> [s]) @
     (case meta_get v resource_refs_key of
        PList xs \<Rightarrow> strings_of xs
      | PTuple xs \<Rightarrow> strings_of xs
      | _ \<Rightarrow> [])"

text \<open>Adding to a dictionary that already has the key keeps its place: first-seen order.\<close>

definition first_seen :: "'a list \<Rightarrow> 'a list" where
  "first_seen xs = fold (\<lambda>x seen. if x \<in> set seen then seen else seen @ [x]) xs []"

definition value_resource_ids :: "val \<Rightarrow> string list" where
  "value_resource_ids v = first_seen (concat (map local_resource_ids (iter_value_tree v)))"

definition value_resource_refs :: "val \<Rightarrow> (string \<times> string option) list" where
  "value_resource_refs v =
     first_seen (concat (map (\<lambda>n. map (\<lambda>i. (i, str_of (meta_get n resource_owner_key)))
       (local_resource_ids n)) (iter_value_tree v)))"

definition value_resource_provenance_refs :: "val \<Rightarrow> (string \<times> pyobj \<times> pyobj \<times> bool) list" where
  "value_resource_provenance_refs v =
     concat (map (\<lambda>n. map (\<lambda>i. (i, meta_get n resource_owner_key, meta_get n producer_arm_key,
         dict_mem producer_arm_key (v_meta n))) (local_resource_ids n)) (iter_value_tree v))"

text \<open>
  Stamping, with the identity of the next new payload object. A container is rebuilt only if a
  child changed.
\<close>

definition stamp_own :: "string \<Rightarrow> string \<Rightarrow> val \<Rightarrow> val" where
  "stamp_own owner arm v =
     (if local_resource_ids v \<noteq> [] \<and> meta_get v resource_owner_key = PStr owner \<and>
        \<not> dict_mem producer_arm_key (v_meta v)
      then Value (v_type v) (v_fingerprint v) (dict_set producer_arm_key (PStr arm) (v_meta v))
             (v_payload v) (v_kind v) (v_children v)
      else v)"

fun stamp_arm :: "string \<Rightarrow> string \<Rightarrow> nat \<Rightarrow> val \<Rightarrow> nat \<times> val"
  and stamp_arms :: "string \<Rightarrow> string \<Rightarrow> nat \<Rightarrow> val list \<Rightarrow> nat \<times> val list" where
  "stamp_arm owner arm next (Value t f m p k cs) =
     (if k = Opaque then (next, stamp_own owner arm (Value t f m p k cs))
      else case stamp_arms owner arm next cs of
        (next', cs') \<Rightarrow>
          if cs' \<noteq> cs then (Suc next', stamp_own owner arm (Value t f m next' k cs'))
          else (next', stamp_own owner arm (Value t f m p k cs)))"
| "stamp_arms owner arm next [] = (next, [])"
| "stamp_arms owner arm next (c # cs) =
     (case stamp_arm owner arm next c of (next', c') \<Rightarrow>
        case stamp_arms owner arm next' cs of (next'', cs') \<Rightarrow> (next'', c' # cs'))"

section \<open>Lemmas\<close>

lemma fold_first_seen:
  "distinct seen \<Longrightarrow>
     distinct (fold (\<lambda>x seen. if x \<in> set seen then seen else seen @ [x]) xs seen) \<and>
     set (fold (\<lambda>x seen. if x \<in> set seen then seen else seen @ [x]) xs seen) = set seen \<union> set xs"
  by (induction xs arbitrary: seen) auto

lemma first_seen [simp]: "distinct (first_seen xs)" "set (first_seen xs) = set xs"
  using fold_first_seen [of "[]" xs] by (simp_all add: first_seen_def)

text \<open>What a stamp leaves alone: types, fingerprints, shape and every other metadata entry.\<close>

fun same_but_arm :: "val \<Rightarrow> val \<Rightarrow> bool"
  and same_but_arms :: "val list \<Rightarrow> val list \<Rightarrow> bool" where
  "same_but_arm (Value t f m p k cs) v \<longleftrightarrow>
     v_type v = t \<and> v_fingerprint v = f \<and> v_kind v = k \<and>
     (\<forall>key. key \<noteq> producer_arm_key \<longrightarrow> map_of (v_meta v) key = map_of m key) \<and>
     (dict_mem producer_arm_key m \<longrightarrow> v_meta v = m) \<and> same_but_arms cs (v_children v)"
| "same_but_arms [] vs = (vs = [])"
| "same_but_arms (c # cs) vs = (case vs of [] \<Rightarrow> False | d # ds \<Rightarrow> same_but_arm c d \<and> same_but_arms cs ds)"

lemma same_but_arm_refl: "same_but_arm v v"
proof (induction v)
  case (Value t f m p k cs)
  then have "same_but_arms cs cs" by (induction cs) auto
  then show ?case by simp
qed

lemma same_but_arm_own: "same_but_arm v w \<Longrightarrow> v_meta w = v_meta v \<Longrightarrow> same_but_arm v (stamp_own owner arm w)"
  by (cases v) (auto simp: stamp_own_def)

lemma stamp_same:
  "same_but_arm v (snd (stamp_arm owner arm next v))"
  "same_but_arms vs (snd (stamp_arms owner arm next vs))"
proof (induction owner arm "next" v and owner arm "next" vs rule: stamp_arm_stamp_arms.induct)
  case (1 owner arm "next" t f m p k cs)
  show ?case
  proof (cases "k = Opaque")
    case True
    then show ?thesis by (simp add: same_but_arm_own same_but_arm_refl del: same_but_arm.simps)
  next
    case False
    obtain n' cs' where cs': "stamp_arms owner arm next cs = (n', cs')" by fastforce
    have "same_but_arm (Value t f m p k cs) (Value t f m q k cs')" for q
      using 1 [OF False] cs' by simp
    then show ?thesis
      using False cs' by (auto simp: same_but_arm_own same_but_arm_refl simp del: same_but_arm.simps)
  qed
next
  case (3 owner arm "next" c cs)
  obtain n' c' where c': "stamp_arm owner arm next c = (n', c')" by fastforce
  obtain n'' cs' where "stamp_arms owner arm n' cs = (n'', cs')" by fastforce
  then show ?case using 3 c' by simp
qed simp

text \<open>A value all of whose references owned by \<open>owner\<close> carry a producing arm.\<close>

definition stamped :: "string \<Rightarrow> val \<Rightarrow> bool" where
  "stamped owner v \<longleftrightarrow> (local_resource_ids v \<noteq> [] \<longrightarrow> meta_get v resource_owner_key = PStr owner \<longrightarrow>
     dict_mem producer_arm_key (v_meta v))"

lemma iter_value_tree_own:
  "iter_value_tree (stamp_own owner arm (Value t f m p k cs)) =
     stamp_own owner arm (Value t f m p k cs) # (if k = Opaque then [] else concat (map iter_value_tree cs))"
  by (simp add: stamp_own_def)

lemma stamped_own: "stamped owner (stamp_own owner arm v)"
  by (auto simp: stamped_def stamp_own_def dict_mem_def)

lemma stamp_complete:
  "list_all (stamped owner) (iter_value_tree (snd (stamp_arm owner arm next v)))"
  "list_all (list_all (stamped owner) \<circ> iter_value_tree) (snd (stamp_arms owner arm next vs))"
proof (induction owner arm "next" v and owner arm "next" vs rule: stamp_arm_stamp_arms.induct)
  case (1 owner arm "next" t f m p k cs)
  show ?case
  proof (cases "k = Opaque")
    case True
    then show ?thesis by (simp add: iter_value_tree_own stamped_own)
  next
    case False
    obtain n' cs' where cs': "stamp_arms owner arm next cs = (n', cs')" by fastforce
    have "list_all (stamped owner) (iter_value_tree (stamp_own owner arm (Value t f m q k cs')))" for q
      using 1 [OF False] False cs' by (auto simp: iter_value_tree_own stamped_own list_all_iff)
    from this [of n'] this [of p] show ?thesis using False cs' by (cases "cs' = cs") simp_all
  qed
next
  case (3 owner arm "next" c cs)
  obtain n' c' where c': "stamp_arm owner arm next c = (n', c')" by fastforce
  obtain n'' cs' where "stamp_arms owner arm n' cs = (n'', cs')" by fastforce
  then show ?case using 3 c' by simp
qed simp

lemma value_resource_ids_tree:
  "r \<in> set (value_resource_ids v) \<longleftrightarrow>
     r \<in> set (local_resource_ids v) \<or>
     (\<exists>cs. value_children v = Some cs \<and> (\<exists>c \<in> set cs. r \<in> set (value_resource_ids c)))"
  by (cases v) (auto simp: value_resource_ids_def value_children_def)

section \<open>Properties\<close>

text \<open>
  Stamping reaches every reference and nothing else: afterwards each reference of the owner, at
  any depth of lists and tuples, carries a producing arm, while types, fingerprints, shape, other
  metadata and arms that were already stamped are what they were.
\<close>
theorem stamping_is_complete:
  "list_all (stamped owner) (iter_value_tree (snd (stamp_arm owner arm next v))) \<and>
   same_but_arm v (snd (stamp_arm owner arm next v))"
  by (simp add: stamp_complete stamp_same)

end
