(* ===== verification/Result_Algebra.thy ===== *)
theory Result_Algebra
  imports Values Graph_Plan Names
begin

text \<open>
  What an invocation returns (\<^verbatim>\<open>dinkster_protocol/result_algebra.py\<close>): outputs that are present,
  blocked or bound to the outputs of nodes the return adds to the graph. The constructors of the
  source check their arguments; here each is a function from the arguments to the checked value or
  the error. A string holds no surrogates, so the encoding test of \<^verbatim>\<open>_text\<close> cannot fail, and
  \<open>LBadFloat\<close> is an infinity, a NaN or the negative zero.
\<close>

section \<open>Definitions\<close>

datatype algebra_error = AlgebraError string | AlgebraTypeError | AlgebraKeyError

definition max_count :: nat where "max_count = 4096"
definition max_literal_depth :: nat where "max_literal_depth = 32"
definition max_literal_items :: int where "max_literal_items = 16384"

definition id_head :: "char \<Rightarrow> bool" where
  "id_head c \<longleftrightarrow> ascii_lower c \<or> ascii_upper c \<or> ascii_num c"

definition id_tail :: "char \<Rightarrow> bool" where
  "id_tail c \<longleftrightarrow> id_head c \<or> c \<in> set ''_.:-''"

definition id_re :: "string \<Rightarrow> bool" where
  "id_re s \<longleftrightarrow> (case s of [] \<Rightarrow> False | c # cs \<Rightarrow> id_head c \<and> length cs \<le> 127 \<and> list_all id_tail cs)"

definition check_identifier :: "pyobj \<Rightarrow> string \<Rightarrow> algebra_error + string" where
  "check_identifier v name =
     (case v of
        PStr s \<Rightarrow> if id_re s then Inr s else Inl (AlgebraError (name @ '' is not a valid identifier''))
      | _ \<Rightarrow> Inl (AlgebraError (name @ '' is not a valid identifier'')))"

definition check_text :: "pyobj \<Rightarrow> string \<Rightarrow> algebra_error + string" where
  "check_text v name =
     (case v of PStr s \<Rightarrow> Inr s | _ \<Rightarrow> Inl (AlgebraError (name @ '' must be a string'')))"

text \<open>Arguments that should be tuples of pairs.\<close>

datatype 'b pair_item = NotPair | KeyVal pyobj 'b
datatype 'b pairs_arg = NotTuple | TupleOf "'b pair_item list"

fun check_items :: "string \<Rightarrow> bool \<Rightarrow> 'b pair_item list \<Rightarrow> algebra_error + (string \<times> 'b) list" where
  "check_items name literal_keys [] = Inr []"
| "check_items name literal_keys (NotPair # items) = Inl (AlgebraError (name @ '' entries must be pairs''))"
| "check_items name literal_keys (KeyVal k v # items) =
     and_then (if literal_keys then check_text k (name @ '' key'') else check_identifier k (name @ '' key''))
       (\<lambda>s. and_then (check_items name literal_keys items) (\<lambda>ps. Inr ((s, v) # ps)))"

definition uniquely_sorted :: "string list \<Rightarrow> bool" where
  "uniquely_sorted keys \<longleftrightarrow> keys = sort keys \<and> distinct keys"

definition check_pairs :: "'b pairs_arg \<Rightarrow> string \<Rightarrow> bool \<Rightarrow> algebra_error + (string \<times> 'b) list" where
  "check_pairs v name literal_keys =
     (case v of
        NotTuple \<Rightarrow> Inl (AlgebraError (name @ '' must be a bounded tuple''))
      | TupleOf items \<Rightarrow>
          if max_count < length items then Inl (AlgebraError (name @ '' must be a bounded tuple''))
          else and_then (check_items name literal_keys items) (\<lambda>ps.
            if uniquely_sorted (map fst ps) then Inr ps
            else Inl (AlgebraError (name @ '' must be uniquely sorted''))))"

subsection \<open>Literals\<close>

datatype json_lit =
    LNull
  | LBool bool
  | LInt int
  | LFloat real
  | LBadFloat
  | LStr string
  | LTuple "json_lit list"
  | LObject "(string \<times> json_lit) list"
  | LOther

text \<open>
  \<open>literal\<close> returns the literal and the budget left. The source builds the objects anew, which
  repeats checks that have just been passed; lemma \<open>literal_again\<close> below shows that they pass.
\<close>

definition spend :: "nat \<Rightarrow> int \<Rightarrow> (int \<Rightarrow> algebra_error + 'a) \<Rightarrow> algebra_error + 'a" where
  "spend depth budget k =
     (if budget - 1 < 0 \<or> max_literal_depth < depth
      then Inl (AlgebraError ''literal exceeds cumulative item or depth limit'') else k (budget - 1))"

definition int64 :: "int \<Rightarrow> bool" where
  "int64 i \<longleftrightarrow> - (2 ^ 63) \<le> i \<and> i < 2 ^ 63"

fun literal :: "nat \<Rightarrow> int \<Rightarrow> json_lit \<Rightarrow> algebra_error + json_lit \<times> int"
  and literal_items :: "nat \<Rightarrow> int \<Rightarrow> json_lit list \<Rightarrow> algebra_error + json_lit list \<times> int"
  and literal_fields :: "nat \<Rightarrow> int \<Rightarrow> (string \<times> json_lit) list \<Rightarrow>
        algebra_error + (string \<times> json_lit) list \<times> int" where
  "literal depth budget LNull = spend depth budget (\<lambda>b. Inr (LNull, b))"
| "literal depth budget (LBool x) = spend depth budget (\<lambda>b. Inr (LBool x, b))"
| "literal depth budget (LStr s) = spend depth budget (\<lambda>b. Inr (LStr s, b))"
| "literal depth budget (LInt i) = spend depth budget (\<lambda>b.
     if int64 i then Inr (LInt i, b)
     else Inl (AlgebraError ''literal integer is outside signed 64-bit range''))"
| "literal depth budget (LFloat r) = spend depth budget (\<lambda>b. Inr (LFloat r, b))"
| "literal depth budget LBadFloat = spend depth budget (\<lambda>b.
     Inl (AlgebraError ''literal float must be finite and not negative zero''))"
| "literal depth budget (LObject fs) = spend depth budget (\<lambda>b.
     if max_count < length fs then Inl (AlgebraError ''literal object fields must be a bounded tuple'')
     else if \<not> uniquely_sorted (map fst fs) then
       Inl (AlgebraError ''literal object fields must be uniquely sorted'')
     else and_then (literal_fields (depth + 1) b fs) (\<lambda>(fs', b'). Inr (LObject fs', b')))"
| "literal depth budget (LTuple vs) = spend depth budget (\<lambda>b.
     and_then (literal_items (depth + 1) b vs) (\<lambda>(vs', b'). Inr (LTuple vs', b')))"
| "literal depth budget LOther = spend depth budget (\<lambda>b.
     Inl (AlgebraError ''literal must be immutable RPC-clean JSON''))"
| "literal_items depth budget [] = Inr ([], budget)"
| "literal_items depth budget (v # vs) =
     and_then (literal depth budget v) (\<lambda>(v', b).
       and_then (literal_items depth b vs) (\<lambda>(vs', b'). Inr (v' # vs', b')))"
| "literal_fields depth budget [] = Inr ([], budget)"
| "literal_fields depth budget ((k, v) # fs) =
     and_then (literal depth budget v) (\<lambda>(v', b).
       and_then (literal_fields depth b fs) (\<lambda>(fs', b'). Inr ((k, v') # fs', b')))"

definition check_literal :: "json_lit \<Rightarrow> algebra_error + json_lit" where
  "check_literal v = and_then (literal 0 max_literal_items v) (\<lambda>(v', _). Inr v')"

fun check_literals :: "json_lit list \<Rightarrow> algebra_error + unit" where
  "check_literals [] = Inr ()"
| "check_literals (v # vs) = and_then (check_literal v) (\<lambda>_. check_literals vs)"

definition make_json_object :: "json_lit pairs_arg \<Rightarrow> algebra_error + json_lit" where
  "make_json_object flds =
     and_then (check_pairs flds ''literal object fields'' True) (\<lambda>ps.
       and_then (check_literals (map snd ps)) (\<lambda>_. Inr (LObject ps)))"

subsection \<open>References and bindings\<close>

datatype out_id = OutName string | OutIndex nat

datatype binding =
    PresentOutput val
  | BlockedOutput "string option"
  | CurrentOutputRef string
  | LocalOutputRef string out_id
  | ExternalOutputRef string out_id
  | LiteralInput json_lit
  | NotABinding

datatype node_ref = CurrentNodeRef | LocalNodeRef string | ExternalNodeRef string | NotANodeRef

definition make_present :: "val option \<Rightarrow> algebra_error + binding" where
  "make_present v =
     (case v of None \<Rightarrow> Inl (AlgebraError ''present output must contain a Value'') | Some x \<Rightarrow> Inr (PresentOutput x))"

definition make_blocked :: "pyobj \<Rightarrow> algebra_error + binding" where
  "make_blocked m =
     (case m of
        PNone \<Rightarrow> Inr (BlockedOutput None)
      | PStr s \<Rightarrow> Inr (BlockedOutput (Some s))
      | _ \<Rightarrow> Inl (AlgebraError ''blocked message must be a string or None''))"

definition make_current_ref :: "pyobj \<Rightarrow> algebra_error + binding" where
  "make_current_ref out = and_then (check_identifier out ''output_id'') (\<lambda>s. Inr (CurrentOutputRef s))"

definition check_out_id :: "pyobj \<Rightarrow> algebra_error + out_id" where
  "check_out_id out =
     (case out of
        PInt i \<Rightarrow>
          if 0 \<le> i \<and> i < int max_count then Inr (OutIndex (nat i))
          else Inl (AlgebraError ''output index is outside the interface limit'')
      | _ \<Rightarrow> and_then (check_identifier out ''output_id'') (\<lambda>s. Inr (OutName s)))"

definition make_local_ref :: "pyobj \<Rightarrow> pyobj \<Rightarrow> algebra_error + binding" where
  "make_local_ref n out =
     and_then (check_identifier n ''local_node_id'') (\<lambda>s.
       and_then (check_out_id out) (\<lambda>k. Inr (LocalOutputRef s k)))"

definition make_external_ref :: "pyobj \<Rightarrow> pyobj \<Rightarrow> algebra_error + binding" where
  "make_external_ref n out =
     and_then (check_identifier n ''node_id'') (\<lambda>s.
       and_then (make_local_ref n out) (\<lambda>_.
         and_then (check_out_id out) (\<lambda>k. Inr (ExternalOutputRef s k))))"

definition make_external_node :: "pyobj \<Rightarrow> algebra_error + node_ref" where
  "make_external_node n = and_then (check_identifier n ''node_id'') (\<lambda>s. Inr (ExternalNodeRef s))"

definition make_local_node_ref :: "pyobj \<Rightarrow> algebra_error + node_ref" where
  "make_local_node_ref n = and_then (check_identifier n ''local_node_id'') (\<lambda>s. Inr (LocalNodeRef s))"

definition make_literal_input :: "json_lit \<Rightarrow> algebra_error + binding" where
  "make_literal_input v = and_then (check_literal v) (\<lambda>v'. Inr (LiteralInput v'))"

fun is_input_binding :: "binding \<Rightarrow> bool" where
  "is_input_binding (PresentOutput _) = False"
| "is_input_binding (BlockedOutput _) = False"
| "is_input_binding NotABinding = False"
| "is_input_binding _ = True"

fun is_output_binding :: "binding \<Rightarrow> bool" where
  "is_output_binding (LiteralInput _) = False"
| "is_output_binding NotABinding = False"
| "is_output_binding _ = True"

subsection \<open>Nodes of an expansion\<close>

record local_node =
  ln_id :: string
  ln_type :: string
  ln_inputs :: "(string \<times> binding) list"
  ln_parent :: "node_ref option"
  ln_display :: "node_ref option"
  ln_members :: "(string \<times> string list) list"
  ln_variants :: "(string \<times> string) list"

text \<open>The key under which a set stores an object: equal numbers are one key.\<close>

fun set_key :: "pyobj \<Rightarrow> pyobj" where
  "set_key (PBool b) = PInt (if b then 1 else 0)"
| "set_key (PFloat r) = (if r = of_int \<lfloor>r\<rfloor> then PInt \<lfloor>r\<rfloor> else PFloat r)"
| "set_key (PTuple xs) = PTuple (map set_key xs)"
| "set_key v = v"

fun check_identifiers :: "string \<Rightarrow> pyobj list \<Rightarrow> algebra_error + string list" where
  "check_identifiers name [] = Inr []"
| "check_identifiers name (v # vs) =
     and_then (check_identifier v name) (\<lambda>s.
       and_then (check_identifiers name vs) (\<lambda>ss. Inr (s # ss)))"

definition check_members :: "pyobj \<Rightarrow> algebra_error + string list" where
  "check_members v =
     (case v of
        PTuple ms \<Rightarrow>
          if any_unhashable ms then Inl AlgebraTypeError
          else if \<not> distinct (map set_key ms) then Inl (AlgebraError ''output members must be unique tuples'')
          else check_identifiers ''output member'' ms
      | _ \<Rightarrow> Inl (AlgebraError ''output members must be unique tuples''))"

fun check_all_members :: "(string \<times> pyobj) list \<Rightarrow> algebra_error + (string \<times> string list) list" where
  "check_all_members [] = Inr []"
| "check_all_members ((k, v) # ps) =
     and_then (check_members v) (\<lambda>ms. and_then (check_all_members ps) (\<lambda>r. Inr ((k, ms) # r)))"

fun check_variants :: "(string \<times> pyobj) list \<Rightarrow> algebra_error + (string \<times> string) list" where
  "check_variants [] = Inr []"
| "check_variants ((k, v) # ps) =
     and_then (check_identifier v ''slot variant'') (\<lambda>s. and_then (check_variants ps) (\<lambda>r. Inr ((k, s) # r)))"

definition make_local_node :: "pyobj \<Rightarrow> pyobj \<Rightarrow> binding pairs_arg \<Rightarrow> node_ref option \<Rightarrow> node_ref option \<Rightarrow>
    pyobj pairs_arg \<Rightarrow> pyobj pairs_arg \<Rightarrow> algebra_error + local_node" where
  "make_local_node local_id node_type inputs parent display members variants =
     and_then (check_identifier local_id ''local_id'') (\<lambda>i.
     and_then (check_identifier node_type ''node_type'') (\<lambda>t.
     and_then (check_pairs inputs ''inputs'' False) (\<lambda>ins.
     if \<not> list_all (is_input_binding \<circ> snd) ins then Inl (AlgebraError ''invalid input binding'')
     else if parent = Some NotANodeRef then Inl (AlgebraError ''invalid parent metadata reference'')
     else if display = Some NotANodeRef then Inl (AlgebraError ''invalid display metadata reference'')
     else and_then (check_pairs members ''output_members'' False) (\<lambda>mps.
     and_then (check_all_members mps) (\<lambda>ms.
     and_then (check_pairs variants ''slot_variants'' False) (\<lambda>vps.
     and_then (check_variants vps) (\<lambda>vs.
       Inr \<lparr>ln_id = i, ln_type = t, ln_inputs = ins, ln_parent = parent, ln_display = display,
            ln_members = ms, ln_variants = vs\<rparr>)))))))"

subsection \<open>Expansions\<close>

fun node_local_refs :: "node_ref option \<Rightarrow> string list" where
  "node_local_refs (Some (LocalNodeRef n)) = [n]"
| "node_local_refs _ = []"

fun binding_local_refs :: "binding \<Rightarrow> string list" where
  "binding_local_refs (LocalOutputRef n _) = [n]"
| "binding_local_refs _ = []"

definition local_refs :: "local_node \<Rightarrow> string list" where
  "local_refs n = node_local_refs (ln_parent n) @ node_local_refs (ln_display n) @
     concat (map (binding_local_refs \<circ> snd) (ln_inputs n))"

text \<open>
  The depth-first search for cycles. An item of the stack, its top first, is a node and whether
  the search leaves it; the state is 1 (gray) on the current path and 2 (black) once left.
\<close>

definition unvisited :: "(string, string list) dict \<Rightarrow> (string \<Rightarrow> color) \<Rightarrow> (string \<times> bool) list \<Rightarrow> string set" where
  "unvisited edges st pending = {k \<in> \<Union> (set ` snd ` set edges) \<union> fst ` set pending. st k = White}"

lemma finite_unvisited: "finite (unvisited edges st pending)"
  by (simp add: unvisited_def)

lemma unvisited_pop: "unvisited edges st pending \<subseteq> unvisited edges st (p # pending)"
  by (auto simp: unvisited_def)

lemma unvisited_leave: "unvisited edges (st(n := Black)) pending \<subseteq> unvisited edges st (p # pending)"
  by (auto simp: unvisited_def split: if_splits)

lemma unvisited_enter:
  assumes "st n = White"
  shows "unvisited edges (st(n := Gray))
      (rev (map (\<lambda>t. (t, False)) (dict_get_default edges n [])) @ (n, True) # pending) \<subset>
    unvisited edges st ((n, False) # pending)"
proof -
  have "set (dict_get_default edges n []) \<subseteq> \<Union> (set ` snd ` set edges)"
    by (cases "map_of edges n") (force simp: dict_get_default_def dest: map_of_SomeD)+
  then have "k \<in> \<Union> (set ` snd ` set edges)" if "k \<in> set (dict_get_default edges n [])" for k
    using that by (rule subsetD)
  with assms show ?thesis by (auto simp: unvisited_def image_image split: if_splits)
qed

function search_loop :: "(string, string list) dict \<Rightarrow> (string \<Rightarrow> color) \<Rightarrow> (string \<times> bool) list \<Rightarrow>
    algebra_error + (string \<Rightarrow> color)" where
  "search_loop edges st [] = Inr st"
| "search_loop edges st ((n, True) # pending) = search_loop edges (st(n := Black)) pending"
| "search_loop edges st ((n, False) # pending) =
     (if st n = Gray then Inl (AlgebraError ''local expansion contains a cycle'')
      else if st n = Black then search_loop edges st pending
      else search_loop edges (st(n := Gray))
        (rev (map (\<lambda>t. (t, False)) (dict_get_default edges n [])) @ (n, True) # pending))"
  by pat_completeness auto
termination
proof (relation "measures [\<lambda>(edges, st, pending). card (unvisited edges st pending),
    \<lambda>(_, _, pending). length pending]", goal_cases)
  case (2 edges st n pending)
  from card_mono [OF finite_unvisited unvisited_leave] show ?case by (auto simp: le_less)
next
  case (3 edges st n pending)
  from card_mono [OF finite_unvisited unvisited_pop] show ?case by (auto simp: le_less)
next
  case (4 edges st n pending)
  then have "st n = White" by (cases "st n") auto
  then have "card (unvisited edges (st(n := Gray))
      (rev (map (\<lambda>t. (t, False)) (dict_get_default edges n [])) @ (n, True) # pending)) <
    card (unvisited edges st ((n, False) # pending))"
    by (intro psubset_card_mono finite_unvisited unvisited_enter)
  then show ?case by simp
qed simp

fun search_roots :: "(string, string list) dict \<Rightarrow> (string \<Rightarrow> color) \<Rightarrow> string list \<Rightarrow>
    algebra_error + (string \<Rightarrow> color)" where
  "search_roots edges st [] = Inr st"
| "search_roots edges st (r # roots) =
     (if st r = Black then search_roots edges st roots
      else and_then (search_loop edges st [(r, False)]) (\<lambda>st'. search_roots edges st' roots))"

datatype cache_policy = Inherit | ReusePolicy | RerunPolicy

record expansion =
  ex_nodes :: "local_node list"
  ex_policy :: cache_policy

definition policy_of :: "pyobj \<Rightarrow> cache_policy option" where
  "policy_of v =
     (if v = PStr ''inherit'' then Some Inherit else if v = PStr ''reuse'' then Some ReusePolicy
      else if v = PStr ''rerun'' then Some RerunPolicy else None)"

text \<open>\<open>None\<close> stands for an argument that is no tuple, and for an entry that is no node.\<close>

definition make_expansion :: "local_node option list option \<Rightarrow> pyobj \<Rightarrow> algebra_error + expansion" where
  "make_expansion nodes cache_policy =
     (case policy_of cache_policy of
        None \<Rightarrow> Inl (AlgebraError ''expansion cache_policy must be inherit, reuse or rerun'')
      | Some pol \<Rightarrow>
          (case nodes of
             None \<Rightarrow> Inl (AlgebraError ''expansion nodes must be a nonempty bounded tuple'')
           | Some entries \<Rightarrow>
               if entries = [] \<or> max_count < length entries then
                 Inl (AlgebraError ''expansion nodes must be a nonempty bounded tuple'')
               else if None \<in> set entries then Inl (AlgebraError ''expansion contains an invalid node'')
               else
                 (let ns = map the entries; ids = map ln_id ns in
                  if \<not> uniquely_sorted ids then Inl (AlgebraError ''local nodes must be uniquely sorted'')
                  else if \<not> list_all (\<lambda>n. set (local_refs n) \<subseteq> set ids) ns then
                    Inl (AlgebraError ''local reference escapes expansion'')
                  else and_then
                    (search_roots (map (\<lambda>n. (ln_id n, remdups (local_refs n))) ns) (\<lambda>_. White) ids)
                    (\<lambda>_. Inr \<lparr>ex_nodes = ns, ex_policy = pol\<rparr>))))"

subsection \<open>Returns\<close>

definition present_ids :: "(string \<times> binding) list \<Rightarrow> string list" where
  "present_ids ps = map fst (filter (\<lambda>(_, b). case b of PresentOutput _ \<Rightarrow> True | _ \<Rightarrow> False) ps)"

fun check_refs :: "string list \<Rightarrow> string list \<Rightarrow> (string \<times> binding) list \<Rightarrow> algebra_error + unit" where
  "check_refs present ids [] = Inr ()"
| "check_refs present ids ((_, CurrentOutputRef out) # ps) =
     (if out \<in> set present then check_refs present ids ps
      else Inl (AlgebraError ''current reference must resolve directly to same-unit present output''))"
| "check_refs present ids ((_, LocalOutputRef n _) # ps) =
     (if n \<in> set ids then check_refs present ids ps
      else Inl (AlgebraError ''local return reference escapes expansion''))"
| "check_refs present ids (_ # ps) = check_refs present ids ps"

definition validate_bindings :: "binding pairs_arg \<Rightarrow> string list \<Rightarrow> algebra_error + (string \<times> binding) list" where
  "validate_bindings bindings local_ids =
     and_then (check_pairs bindings ''bindings'' False) (\<lambda>ps.
       if \<not> list_all (is_output_binding \<circ> snd) ps then Inl (AlgebraError ''invalid output binding'')
       else and_then (check_refs (present_ids ps) local_ids ps) (\<lambda>_. Inr ps))"

datatype return_unit =
    DirectReturn "(string \<times> binding) list"
  | ExpandedReturn expansion "(string \<times> binding) list"

fun is_external :: "binding \<Rightarrow> bool" where
  "is_external (ExternalOutputRef _ _) = True"
| "is_external _ = False"

definition make_direct :: "binding pairs_arg \<Rightarrow> algebra_error + return_unit" where
  "make_direct bindings =
     and_then (validate_bindings bindings []) (\<lambda>ps.
       if list_ex (is_external \<circ> snd) ps then Inl (AlgebraError ''external return reference requires an expansion'')
       else Inr (DirectReturn ps))"

fun current_out :: "binding \<Rightarrow> string option" where
  "current_out (CurrentOutputRef out) = Some out"
| "current_out _ = None"

definition make_expanded :: "expansion option \<Rightarrow> binding pairs_arg \<Rightarrow> algebra_error + return_unit" where
  "make_expanded ex bindings =
     (case ex of
        None \<Rightarrow> Inl (AlgebraError ''invalid expansion'')
      | Some x \<Rightarrow>
          and_then (validate_bindings bindings (map ln_id (ex_nodes x))) (\<lambda>ps.
            if list_all (\<lambda>n. list_all (\<lambda>(_, b). case current_out b of
                 None \<Rightarrow> True | Some out \<Rightarrow> out \<in> set (present_ids ps)) (ln_inputs n)) (ex_nodes x)
            then Inr (ExpandedReturn x ps)
            else Inl (AlgebraError ''current expansion input must resolve to same-unit present output'')))"

datatype batch_mode = ScalarBatch | MappedBatch

record return_batch =
  rb_mode :: batch_mode
  rb_units :: "return_unit list"

definition make_batch :: "pyobj \<Rightarrow> return_unit option list option \<Rightarrow> algebra_error + return_batch" where
  "make_batch mode units =
     (if mode \<noteq> PStr ''scalar'' \<and> mode \<noteq> PStr ''mapped'' then
        Inl (AlgebraError ''mode must be scalar or mapped'')
      else case units of
        None \<Rightarrow> Inl (AlgebraError ''units must be a bounded tuple'')
      | Some us \<Rightarrow>
          if max_count < length us then Inl (AlgebraError ''units must be a bounded tuple'')
          else if None \<in> set us then Inl (AlgebraError ''invalid return unit'')
          else if mode = PStr ''scalar'' \<and> length us \<noteq> 1 then
            Inl (AlgebraError ''scalar batch must contain exactly one unit'')
          else Inr \<lparr>rb_mode = (if mode = PStr ''scalar'' then ScalarBatch else MappedBatch),
                 rb_units = map the us\<rparr>)"

section \<open>Literals\<close>

fun lit_items :: "json_lit \<Rightarrow> nat" where
  "lit_items (LTuple vs) = Suc (sum_list (map lit_items vs))"
| "lit_items (LObject fs) = Suc (sum_list (map (lit_items \<circ> snd) fs))"
| "lit_items _ = 1"

fun lit_depth :: "json_lit \<Rightarrow> nat" where
  "lit_depth (LTuple vs) = fold max (map (Suc \<circ> lit_depth) vs) 0"
| "lit_depth (LObject fs) = fold max (map (Suc \<circ> lit_depth \<circ> snd) fs) 0"
| "lit_depth _ = 0"

text \<open>JSON that a message can carry.\<close>

fun lit_clean :: "json_lit \<Rightarrow> bool" where
  "lit_clean (LInt i) = int64 i"
| "lit_clean (LTuple vs) = list_all lit_clean vs"
| "lit_clean (LObject fs) =
     (length fs \<le> max_count \<and> uniquely_sorted (map fst fs) \<and> list_all (lit_clean \<circ> snd) fs)"
| "lit_clean LBadFloat = False"
| "lit_clean LOther = False"
| "lit_clean _ = True"

lemma spend_Inr: "spend depth budget k = Inr r \<longleftrightarrow> 1 \<le> budget \<and> depth \<le> max_literal_depth \<and> k (budget - 1) = Inr r"
  by (auto simp: spend_def)

lemma fold_max_le: "fold max xs a \<le> n \<longleftrightarrow> a \<le> n \<and> list_all (\<lambda>x. x \<le> n) xs" for n :: nat
  by (induction xs arbitrary: a) auto

lemma depth_below: "d + fold max (map (Suc \<circ> f) xs) 0 \<le> n \<longleftrightarrow> d \<le> n \<and> list_all (\<lambda>x. d + 1 + f x \<le> n) xs"
  for n :: nat
proof (cases "d \<le> n")
  case True
  then have "d + m \<le> n \<longleftrightarrow> m \<le> n - d" for m by auto
  with True show ?thesis by (auto simp: fold_max_le list_all_iff)
qed simp

definition lits_ok :: "nat \<Rightarrow> int \<Rightarrow> json_lit list \<Rightarrow> bool" where
  "lits_ok depth budget vs \<longleftrightarrow> list_all (\<lambda>v. lit_clean v \<and> depth + lit_depth v \<le> max_literal_depth) vs \<and>
     int (sum_list (map lit_items vs)) \<le> budget"

lemma lits_ok_Nil: "lits_ok depth budget [] \<longleftrightarrow> 0 \<le> budget"
  by (simp add: lits_ok_def)

lemma lits_ok_Cons:
  assumes "0 \<le> budget"
  shows "lits_ok depth budget (v # vs) \<longleftrightarrow>
    lits_ok depth budget [v] \<and> lits_ok depth (budget - int (lit_items v)) vs"
  using assms by (auto simp: lits_ok_def)

lemma lit_items_pos: "1 \<le> lit_items v"
  by (cases v) auto

text \<open>\<open>literal\<close> accepts a literal exactly when it is clean and within the two limits.\<close>

lemma literal_exact:
  "0 \<le> budget \<Longrightarrow> literal depth budget v = Inr r \<longleftrightarrow>
     lits_ok depth budget [v] \<and> r = (v, budget - int (lit_items v))"
  "0 \<le> budget \<Longrightarrow> literal_items depth budget vs = Inr rs \<longleftrightarrow>
     lits_ok depth budget vs \<and> rs = (vs, budget - int (sum_list (map lit_items vs)))"
  "0 \<le> budget \<Longrightarrow> literal_fields depth budget fs = Inr rf \<longleftrightarrow>
     lits_ok depth budget (map snd fs) \<and> rf = (fs, budget - int (sum_list (map (lit_items \<circ> snd) fs)))"
proof (induction depth budget v and depth budget vs and depth budget fs
    arbitrary: r and rs and rf rule: literal_literal_items_literal_fields.induct)
  case (7 depth budget fs)
  have IH: "literal_fields (Suc depth) (budget - 1) fs = Inr rf \<longleftrightarrow>
      lits_ok (Suc depth) (budget - 1) (map snd fs) \<and>
      rf = (fs, budget - 1 - int (sum_list (map (lit_items \<circ> snd) fs)))"
    if "1 \<le> budget" "length fs \<le> max_count" "uniquely_sorted (map fst fs)" for rf
    using that 7(1) [of "budget - 1"] by (simp add: comp_def)
  show ?case
    by (cases "1 \<le> budget \<and> length fs \<le> max_count \<and> uniquely_sorted (map fst fs)")
      (auto simp: spend_Inr and_then_Inr_iff IH lits_ok_def depth_below list_all_iff not_less comp_def
        depth_below [unfolded comp_def] split: if_splits)
next
  case (8 depth budget vs)
  have IH: "literal_items (Suc depth) (budget - 1) vs = Inr rs \<longleftrightarrow>
      lits_ok (Suc depth) (budget - 1) vs \<and> rs = (vs, budget - 1 - int (sum_list (map lit_items vs)))"
    if "1 \<le> budget" for rs
    using that 8(1) [of "budget - 1"] by simp
  show ?case
    by (cases "1 \<le> budget")
      (auto simp: spend_Inr and_then_Inr_iff IH lits_ok_def depth_below list_all_iff comp_def
        depth_below [unfolded comp_def])
next
  case (11 depth budget v vs)
  show ?case
    using 11 lit_items_pos [of v]
    by (auto simp: and_then_Inr_iff lits_ok_Cons [OF 11(3), of depth v vs] 11(1))
      (auto simp: lits_ok_def)
next
  case (13 depth budget k v fs)
  show ?case
    using 13 lit_items_pos [of v]
    by (auto simp: and_then_Inr_iff lits_ok_Cons [OF 13(3), of depth v "map snd fs"] 13(1))
      (auto simp: lits_ok_def)
qed (auto simp: spend_Inr lits_ok_def)

lemma check_literal_iff:
  "check_literal v = Inr v' \<longleftrightarrow>
     lit_clean v \<and> lit_depth v \<le> max_literal_depth \<and> int (lit_items v) \<le> max_literal_items \<and> v' = v"
  using literal_exact(1) [of max_literal_items 0 v]
  by (auto simp: check_literal_def and_then_Inr_iff lits_ok_def max_literal_items_def)

lemma check_literals_iff:
  "check_literals vs = Inr u \<longleftrightarrow>
     list_all (\<lambda>v. lit_clean v \<and> lit_depth v \<le> max_literal_depth \<and> int (lit_items v) \<le> max_literal_items) vs"
  by (induction vs) (auto simp: and_then_Inr_iff check_literal_iff)

lemma depth_field: "(k, v) \<in> set fs \<Longrightarrow> Suc (lit_depth v) \<le> lit_depth (LObject fs)"
proof -
  assume a: "(k, v) \<in> set fs"
  have "fold max (map (Suc \<circ> lit_depth \<circ> snd) fs) 0 \<le> lit_depth (LObject fs)" by simp
  then have "list_all (\<lambda>x. x \<le> lit_depth (LObject fs)) (map (Suc \<circ> lit_depth \<circ> snd) fs)"
    unfolding fold_max_le by blast
  with a show ?thesis by (force simp: list_all_iff)
qed

lemma items_field: "(k, v) \<in> set fs \<Longrightarrow> lit_items v < lit_items (LObject fs)"
  using member_le_sum_list [of "lit_items v" "map (lit_items \<circ> snd) fs"] by (force simp: less_Suc_eq_le)

text \<open>The fields of an accepted object pass the constructor of the object again.\<close>

lemma literal_again:
  assumes "check_literal (LObject fs) = Inr v"
  shows "check_literals (map snd fs) = Inr ()"
proof -
  have ok: "lit_clean (LObject fs)" "lit_depth (LObject fs) \<le> max_literal_depth"
    "int (lit_items (LObject fs)) \<le> max_literal_items"
    using assms by (simp_all add: check_literal_iff del: lit_clean.simps lit_depth.simps lit_items.simps)
  have "lit_clean v \<and> lit_depth v \<le> max_literal_depth \<and> int (lit_items v) \<le> max_literal_items"
    if "(k, v) \<in> set fs" for k v
    using ok depth_field [OF that] items_field [OF that] that by (force simp: list_all_iff)
  then show ?thesis by (auto simp: check_literals_iff list_all_iff)
qed

section \<open>The search for cycles\<close>

definition search_edges :: "(string, string list) dict \<Rightarrow> (string \<times> string) set" where
  "search_edges edges = {(n, t). t \<in> set (dict_get_default edges n [])}"

text \<open>
  The grays are the nodes the stack will leave. Everything above such a node is reached from it,
  and its successors are black or above it.
\<close>

definition stack_ok :: "(string, string list) dict \<Rightarrow> (string \<Rightarrow> color) \<Rightarrow> (string \<times> bool) list \<Rightarrow> bool" where
  "stack_ok edges st pending \<longleftrightarrow>
     (\<forall>n. st n = Gray \<longleftrightarrow> (n, True) \<in> set pending) \<and>
     (\<forall>above n below. pending = above @ (n, True) # below \<longrightarrow>
        (n, True) \<notin> set above \<union> set below \<and>
        (\<forall>p \<in> set above. (n, fst p) \<in> (search_edges edges)\<^sup>+) \<and>
        (\<forall>t. (n, t) \<in> search_edges edges \<longrightarrow> st t = Black \<or> t \<in> fst ` set above))"

definition black_ok :: "(string, string list) dict \<Rightarrow> (string \<Rightarrow> color) \<Rightarrow> bool" where
  "black_ok edges st \<longleftrightarrow>
     (\<forall>n t. st n = Black \<longrightarrow> (n, t) \<in> search_edges edges \<longrightarrow> st t = Black) \<and>
     (\<forall>n. st n = Black \<longrightarrow> (n, n) \<notin> (search_edges edges)\<^sup>+)"

lemma black_reach:
  assumes "black_ok edges st" and "(n, t) \<in> (search_edges edges)\<^sup>*" and "st n = Black"
  shows "st t = Black"
  using assms(2,3) by (induction rule: rtrancl_induct) (use assms(1) in \<open>auto simp: black_ok_def\<close>)

lemma leave_ok:
  assumes "stack_ok edges st ((n, True) # pending)" and "black_ok edges st"
  shows "stack_ok edges (st(n := Black)) pending" and "black_ok edges (st(n := Black))"
proof -
  from assms(1) have gray: "st m = Gray \<longleftrightarrow> (m, True) \<in> set ((n, True) # pending)" for m
    by (auto simp: stack_ok_def)
  from assms(1) have item: "(n, True) # pending = above @ (m, True) # below \<Longrightarrow>
      (m, True) \<notin> set above \<union> set below \<and> (\<forall>p \<in> set above. (m, fst p) \<in> (search_edges edges)\<^sup>+) \<and>
      (\<forall>t. (m, t) \<in> search_edges edges \<longrightarrow> st t = Black \<or> t \<in> fst ` set above)" for above m below
    unfolding stack_ok_def by blast
  from item [of "[]" n pending] have n: "(n, True) \<notin> set pending"
    and succ: "\<And>t. (n, t) \<in> search_edges edges \<Longrightarrow> st t = Black" by auto
  show "stack_ok edges (st(n := Black)) pending"
    unfolding stack_ok_def
  proof (intro conjI allI impI)
    fix m show "(st(n := Black)) m = Gray \<longleftrightarrow> (m, True) \<in> set pending"
      using gray [of m] n by auto
  next
    fix above m below assume p: "pending = above @ (m, True) # below"
    from item [of "(n, True) # above" m below] p
    show "(m, True) \<notin> set above \<union> set below" and "\<forall>p \<in> set above. (m, fst p) \<in> (search_edges edges)\<^sup>+"
      by auto
    fix t assume "(m, t) \<in> search_edges edges"
    with item [of "(n, True) # above" m below] p
    show "(st(n := Black)) t = Black \<or> t \<in> fst ` set above" by auto
  qed
  have "(n, n) \<notin> (search_edges edges)\<^sup>+"
  proof
    assume "(n, n) \<in> (search_edges edges)\<^sup>+"
    then obtain t where "(n, t) \<in> search_edges edges" "(t, n) \<in> (search_edges edges)\<^sup>*"
      by (meson tranclD)
    with succ black_reach [OF assms(2)] have "st n = Black" by blast
    with gray [of n] show False by simp
  qed
  with succ assms(2) show "black_ok edges (st(n := Black))" by (auto simp: black_ok_def)
qed

lemma enter_ok:
  assumes "stack_ok edges st ((n, False) # pending)" and "st n = White" and "black_ok edges st"
  shows "stack_ok edges (st(n := Gray))
      (rev (map (\<lambda>t. (t, False)) (dict_get_default edges n [])) @ (n, True) # pending)"
    and "black_ok edges (st(n := Gray))"
proof -
  let ?new = "rev (map (\<lambda>t. (t, False)) (dict_get_default edges n []))"
  from assms(1) have gray: "st m = Gray \<longleftrightarrow> (m, True) \<in> set pending" for m
    by (auto simp: stack_ok_def)
  from assms(1) have item: "(n, False) # pending = above @ (m, True) # below \<Longrightarrow>
      (m, True) \<notin> set above \<union> set below \<and> (\<forall>p \<in> set above. (m, fst p) \<in> (search_edges edges)\<^sup>+) \<and>
      (\<forall>t. (m, t) \<in> search_edges edges \<longrightarrow> st t = Black \<or> t \<in> fst ` set above)" for above m below
    unfolding stack_ok_def by blast
  have new: "set ?new = {(t, False) |t. (n, t) \<in> search_edges edges}" by (auto simp: search_edges_def)
  have n: "(n, True) \<notin> set pending" using gray [of n] assms(2) by simp
  show "stack_ok edges (st(n := Gray)) (?new @ (n, True) # pending)"
    unfolding stack_ok_def
  proof (intro conjI allI impI)
    fix m show "(st(n := Gray)) m = Gray \<longleftrightarrow> (m, True) \<in> set (?new @ (n, True) # pending)"
      using gray [of m] by auto
  next
    fix above m below assume p: "?new @ (n, True) # pending = above @ (m, True) # below"
    have cases: "above = ?new \<and> m = n \<and> below = pending \<or>
        (\<exists>rest. above = ?new @ (n, True) # rest \<and> pending = rest @ (m, True) # below)"
    proof -
      from p obtain us where "?new = above @ us \<and> us @ (n, True) # pending = (m, True) # below \<or>
          ?new @ us = above \<and> (n, True) # pending = us @ (m, True) # below"
        by (auto simp: append_eq_append_conv2)
      then show ?thesis
      proof
        assume us: "?new = above @ us \<and> us @ (n, True) # pending = (m, True) # below"
        show ?thesis
        proof (cases us)
          case (Cons u us')
          with us have "(m, True) \<in> set ?new" by (metis append_Cons in_set_conv_decomp list.inject)
          then show ?thesis by auto
        qed (use us in auto)
      next
        assume us: "?new @ us = above \<and> (n, True) # pending = us @ (m, True) # below"
        then show ?thesis by (cases us) auto
      qed
    qed
    have all: "(m, True) \<notin> set above \<union> set below \<and> (\<forall>p \<in> set above. (m, fst p) \<in> (search_edges edges)\<^sup>+) \<and>
      (\<forall>t. (m, t) \<in> search_edges edges \<longrightarrow> (st(n := Gray)) t = Black \<or> t \<in> fst ` set above)"
      using cases
    proof
      assume c: "above = ?new \<and> m = n \<and> below = pending"
      have "t \<in> fst ` set ?new" if "(n, t) \<in> search_edges edges" for t
        using that unfolding new by force
      moreover have "\<forall>p \<in> set ?new. (n, fst p) \<in> (search_edges edges)\<^sup>+" and "(n, True) \<notin> set ?new"
        unfolding new by auto
      ultimately show ?thesis using c n by blast
    next
      assume "\<exists>rest. above = ?new @ (n, True) # rest \<and> pending = rest @ (m, True) # below"
      then obtain rest where c: "above = ?new @ (n, True) # rest" "pending = rest @ (m, True) # below" by blast
      from c(2) have "(n, False) # pending = ((n, False) # rest) @ (m, True) # below" by simp
      from item [OF this] have i: "(m, True) \<notin> set rest \<union> set below" "(m, n) \<in> (search_edges edges)\<^sup>+"
        "\<forall>p \<in> set rest. (m, fst p) \<in> (search_edges edges)\<^sup>+"
        "\<forall>t. (m, t) \<in> search_edges edges \<longrightarrow> st t = Black \<or> t = n \<or> t \<in> fst ` set rest" by auto
      have mn: "m \<noteq> n" using n c(2) by auto
      have above: "set above = set ?new \<union> {(n, True)} \<union> set rest" using c(1) by auto
      have "(m, t) \<in> (search_edges edges)\<^sup>+" if "(n, t) \<in> search_edges edges" for t
        using i(2) that by (rule trancl_into_trancl)
      then show ?thesis using i mn assms(2) unfolding above new by auto
    qed
    then show "(m, True) \<notin> set above \<union> set below"
      and "\<forall>p \<in> set above. (m, fst p) \<in> (search_edges edges)\<^sup>+" by blast+
    fix t assume "(m, t) \<in> search_edges edges"
    with all show "(st(n := Gray)) t = Black \<or> t \<in> fst ` set above" by blast
  qed
  show "black_ok edges (st(n := Gray))" using assms(2,3) by (fastforce simp: black_ok_def)
qed

lemma skip_ok:
  assumes "stack_ok edges st ((n, False) # pending)" and "st n = Black"
  shows "stack_ok edges st pending"
  unfolding stack_ok_def
proof (intro conjI allI impI)
  from assms(1) have item: "(n, False) # pending = above @ (m, True) # below \<Longrightarrow>
      (m, True) \<notin> set above \<union> set below \<and> (\<forall>p \<in> set above. (m, fst p) \<in> (search_edges edges)\<^sup>+) \<and>
      (\<forall>t. (m, t) \<in> search_edges edges \<longrightarrow> st t = Black \<or> t \<in> fst ` set above)" for above m below
    unfolding stack_ok_def by blast
  fix m show "st m = Gray \<longleftrightarrow> (m, True) \<in> set pending" using assms(1) by (auto simp: stack_ok_def)
  fix above below assume "pending = above @ (m, True) # below"
  with item [of "(n, False) # above" m below]
  show "(m, True) \<notin> set above \<union> set below" and "\<forall>p \<in> set above. (m, fst p) \<in> (search_edges edges)\<^sup>+"
    by auto
  fix t assume "pending = above @ (m, True) # below" "(m, t) \<in> search_edges edges"
  with item [of "(n, False) # above" m below] assms(2) show "st t = Black \<or> t \<in> fst ` set above" by auto
qed

lemma gray_on_cycle:
  assumes "stack_ok edges st ((n, False) # pending)" and "st n = Gray"
  shows "\<not> acyclic (search_edges edges)"
proof -
  from assms have "(n, True) \<in> set pending" by (auto simp: stack_ok_def)
  then obtain above below where "(n, False) # pending = ((n, False) # above) @ (n, True) # below"
    by (metis append_Cons split_list)
  with assms(1) have "\<forall>p \<in> set ((n, False) # above). (n, fst p) \<in> (search_edges edges)\<^sup>+"
    unfolding stack_ok_def by blast
  then have "(n, n) \<in> (search_edges edges)\<^sup>+" by simp
  then show ?thesis by (auto simp: acyclic_def)
qed

definition blacks :: "(string \<Rightarrow> color) \<Rightarrow> string set" where
  "blacks st = {n. st n = Black}"

lemma case_sum_imp:
  "(case r of Inl e \<Rightarrow> a | Inr x \<Rightarrow> P x) \<Longrightarrow> (\<And>x. P x \<Longrightarrow> Q x) \<Longrightarrow> (case r of Inl e \<Rightarrow> a | Inr x \<Rightarrow> Q x)"
  by (cases r) auto

lemma search_loop_ok:
  "stack_ok edges st pending \<Longrightarrow> black_ok edges st \<Longrightarrow>
     (case search_loop edges st pending of
        Inl _ \<Rightarrow> \<not> acyclic (search_edges edges)
      | Inr st' \<Rightarrow> black_ok edges st' \<and> (\<forall>n. st' n \<noteq> Gray) \<and> blacks st \<union> fst ` set pending \<subseteq> blacks st')"
proof (induction edges st pending rule: search_loop.induct)
  case (1 edges st)
  then show ?case by (auto simp: stack_ok_def blacks_def)
next
  case (2 edges st n pending)
  from 2(1) [OF leave_ok [OF 2(2,3)]]
  show ?case unfolding search_loop.simps by (rule case_sum_imp) (auto simp: blacks_def)
next
  case (3 edges st n pending)
  consider "st n = Gray" | "st n = Black" | "st n = White" by (cases "st n") auto
  then show ?case
  proof cases
    case 1
    with gray_on_cycle [OF 3(3)] show ?thesis by simp
  next
    case 2
    then have step: "search_loop edges st ((n, False) # pending) = search_loop edges st pending" by simp
    have "st n \<noteq> Gray" using 2 by simp
    from 3(1) [OF this 2 skip_ok [OF 3(3) 2] 3(4)] show ?thesis
      unfolding step by (rule case_sum_imp) (use 2 in \<open>auto simp: blacks_def\<close>)
  next
    case w: 3
    then have step: "search_loop edges st ((n, False) # pending) = search_loop edges (st(n := Gray))
        (rev (map (\<lambda>t. (t, False)) (dict_get_default edges n [])) @ (n, True) # pending)" by simp
    have "st n \<noteq> Gray" "st n \<noteq> Black" using w by simp_all
    from 3(2) [OF this enter_ok [OF 3(3) w 3(4)]] show ?thesis
      unfolding step by (rule case_sum_imp) (use w in \<open>auto simp: blacks_def subset_iff split: if_splits\<close>)
  qed
qed

lemma search_roots_ok:
  "black_ok edges st \<Longrightarrow> \<forall>n. st n \<noteq> Gray \<Longrightarrow>
     (case search_roots edges st roots of
        Inl _ \<Rightarrow> \<not> acyclic (search_edges edges)
      | Inr st' \<Rightarrow> black_ok edges st' \<and> blacks st \<union> set roots \<subseteq> blacks st')"
proof (induction edges st roots rule: search_roots.induct)
  case (2 edges st r roots)
  show ?case
  proof (cases "st r = Black")
    case True
    from 2(1) [OF True 2(3,4)] True show ?thesis by (auto simp: blacks_def split: sum.splits)
  next
    case False
    have "stack_ok edges st [(r, False)]"
      using 2(4) by (auto simp: stack_ok_def append_eq_Cons_conv Cons_eq_append_conv)
    note l = search_loop_ok [OF this 2(3)]
    show ?thesis
    proof (cases "search_loop edges st [(r, False)]")
      case (Inl e)
      with l False show ?thesis by (simp del: search_loop.simps)
    next
      case (Inr st')
      with l have l': "black_ok edges st'" "\<forall>n. st' n \<noteq> Gray" "blacks st \<union> {r} \<subseteq> blacks st'"
        by (simp_all del: search_loop.simps)
      have step: "search_roots edges st (r # roots) = search_roots edges st' roots"
        using False Inr by (simp del: search_loop.simps)
      from 2(2) [OF False l'(1,2)] show ?thesis
        unfolding step by (rule case_sum_imp) (use l'(3) in auto)
    qed
  qed
qed (simp add: blacks_def)

lemma search_roots_iff:
  assumes "\<And>n t. (n, t) \<in> search_edges edges \<Longrightarrow> n \<in> set roots"
  shows "(\<exists>st. search_roots edges (\<lambda>_. White) roots = Inr st) \<longleftrightarrow> acyclic (search_edges edges)"
proof -
  have "black_ok edges (\<lambda>_. White)" by (simp add: black_ok_def)
  from search_roots_ok [OF this, of roots]
  have ok: "case search_roots edges (\<lambda>_. White) roots of
      Inl _ \<Rightarrow> \<not> acyclic (search_edges edges)
    | Inr st' \<Rightarrow> black_ok edges st' \<and> set roots \<subseteq> blacks st'" by (auto split: sum.splits)
  show ?thesis
  proof
    assume "\<exists>st. search_roots edges (\<lambda>_. White) roots = Inr st"
    with ok obtain st where st: "black_ok edges st" "set roots \<subseteq> blacks st" by auto
    show "acyclic (search_edges edges)"
      unfolding acyclic_def
    proof (intro allI notI)
      fix n assume n: "(n, n) \<in> (search_edges edges)\<^sup>+"
      then obtain t where "(n, t) \<in> search_edges edges" by (meson tranclD)
      with assms st(2) have "st n = Black" by (auto simp: blacks_def)
      with st(1) n show False by (auto simp: black_ok_def)
    qed
  next
    assume "acyclic (search_edges edges)"
    with ok show "\<exists>st. search_roots edges (\<lambda>_. White) roots = Inr st" by (auto split: sum.splits)
  qed
qed

end
