(* ===== verification/Result_Document.thy ===== *)
theory Result_Document
  imports Result_Algebra
begin

text \<open>
  Return units as documents (\<^verbatim>\<open>dinkster_protocol/result_document.py\<close>): the form in which workers
  send them and persistent caches keep them. Present values go through a callback that answers an
  index. The keys of JSON objects are strings; a dictionary with other keys is refused, here with a
  \<^verbatim>\<open>TypeError\<close> from sorting whenever it has two entries.
\<close>

section \<open>Printing\<close>

abbreviation obj :: "(string \<times> pyobj) list \<Rightarrow> pyobj" where
  "obj kvs \<equiv> PDict (map (\<lambda>(k, v). (PStr k, v)) kvs)"

fun out_id_obj :: "out_id \<Rightarrow> pyobj" where
  "out_id_obj (OutName s) = PStr s"
| "out_id_obj (OutIndex i) = PInt (int i)"

fun ref_to_document :: "binding \<Rightarrow> pyobj" where
  "ref_to_document (CurrentOutputRef out) =
     obj [(''kind'', PStr ''outputRef''), (''scope'', PStr ''current''), (''outputId'', PStr out)]"
| "ref_to_document (ExternalOutputRef n out) =
     obj [(''kind'', PStr ''outputRef''), (''scope'', PStr ''external''), (''nodeId'', PStr n),
          (''outputId'', out_id_obj out)]"
| "ref_to_document (LocalOutputRef n out) =
     obj [(''kind'', PStr ''outputRef''), (''scope'', PStr ''local''), (''localNodeId'', PStr n),
          (''outputId'', out_id_obj out)]"
| "ref_to_document _ = PNone"

fun metadata_to_document :: "node_ref option \<Rightarrow> pyobj" where
  "metadata_to_document (Some CurrentNodeRef) = obj [(''kind'', PStr ''nodeRef''), (''scope'', PStr ''current'')]"
| "metadata_to_document (Some (ExternalNodeRef n)) =
     obj [(''kind'', PStr ''nodeRef''), (''scope'', PStr ''external''), (''nodeId'', PStr n)]"
| "metadata_to_document (Some (LocalNodeRef n)) =
     obj [(''kind'', PStr ''nodeRef''), (''scope'', PStr ''local''), (''localNodeId'', PStr n)]"
| "metadata_to_document _ = PNone"

text \<open>An object's keys are unique, so building the dictionary drops none.\<close>

fun literal_to_json :: "json_lit \<Rightarrow> pyobj" where
  "literal_to_json LNull = PNone"
| "literal_to_json (LBool b) = PBool b"
| "literal_to_json (LInt i) = PInt i"
| "literal_to_json (LFloat r) = PFloat r"
| "literal_to_json LBadFloat = PNonFinite"
| "literal_to_json (LStr s) = PStr s"
| "literal_to_json (LTuple vs) = PList (map literal_to_json vs)"
| "literal_to_json (LObject fs) = PDict (map (\<lambda>p. (PStr (fst p), literal_to_json (snd p))) fs)"
| "literal_to_json LOther = POther ''object''"

fun binding_to_document :: "('s \<Rightarrow> val \<Rightarrow> int \<times> 's) \<Rightarrow> 's \<Rightarrow> binding \<Rightarrow> pyobj \<times> 's" where
  "binding_to_document encode s (PresentOutput v) =
     (let (i, s') = encode s v in (obj [(''kind'', PStr ''present''), (''valueIndex'', PInt i)], s'))"
| "binding_to_document encode s (BlockedOutput m) =
     (obj [(''kind'', PStr ''blocked''),
           (''message'', case m of None \<Rightarrow> PNone | Some t \<Rightarrow> PStr t)], s)"
| "binding_to_document encode s b = (ref_to_document b, s)"

fun bindings_to_document :: "('s \<Rightarrow> val \<Rightarrow> int \<times> 's) \<Rightarrow> 's \<Rightarrow> (string \<times> binding) list \<Rightarrow> pyobj list \<times> 's" where
  "bindings_to_document encode s [] = ([], s)"
| "bindings_to_document encode s ((k, b) # ps) =
     (let (d, s') = binding_to_document encode s b; (ds, s'') = bindings_to_document encode s' ps in
      (obj [(''id'', PStr k), (''value'', d)] # ds, s''))"

fun input_to_document :: "binding \<Rightarrow> pyobj" where
  "input_to_document (LiteralInput v) = obj [(''kind'', PStr ''literal''), (''value'', literal_to_json v)]"
| "input_to_document b = ref_to_document b"

definition node_to_document :: "local_node \<Rightarrow> pyobj" where
  "node_to_document n =
     obj [(''display'', metadata_to_document (ln_display n)),
          (''inputs'', PList (map (\<lambda>(k, b). obj [(''id'', PStr k), (''value'', input_to_document b)]) (ln_inputs n))),
          (''localId'', PStr (ln_id n)),
          (''nodeType'', PStr (ln_type n)),
          (''parent'', metadata_to_document (ln_parent n)),
          (''outputMembers'', obj (map (\<lambda>(k, ms). (k, PList (map PStr ms))) (ln_members n))),
          (''slotVariants'', obj (map (\<lambda>(k, v). (k, PStr v)) (ln_variants n)))]"

fun policy_name :: "cache_policy \<Rightarrow> string" where
  "policy_name Inherit = ''inherit''"
| "policy_name ReusePolicy = ''reuse''"
| "policy_name RerunPolicy = ''rerun''"

fun return_unit_to_document :: "('s \<Rightarrow> val \<Rightarrow> int \<times> 's) \<Rightarrow> 's \<Rightarrow> return_unit \<Rightarrow> pyobj \<times> 's" where
  "return_unit_to_document encode s (DirectReturn ps) =
     (let (ds, s') = bindings_to_document encode s ps in
      (obj [(''kind'', PStr ''direct''), (''bindings'', PList ds)], s'))"
| "return_unit_to_document encode s (ExpandedReturn ex ps) =
     (let (ds, s') = bindings_to_document encode s ps in
      (obj [(''kind'', PStr ''expanded''), (''bindings'', PList ds),
            (''expansion'', obj [(''cachePolicy'', PStr (policy_name (ex_policy ex))),
                                 (''nodes'', PList (map node_to_document (ex_nodes ex)))])], s'))"

section \<open>Parsing\<close>

definition item_get :: "(pyobj \<times> pyobj) list \<Rightarrow> string \<Rightarrow> pyobj" where
  "item_get kvs k = dict_get_default kvs (PStr k) PNone"

definition exact :: "pyobj \<Rightarrow> string list \<Rightarrow> algebra_error + (pyobj \<times> pyobj) list" where
  "exact v flds =
     (case v of
        PDict kvs \<Rightarrow>
          if set (map fst kvs) = set (map PStr flds) then Inr kvs else Inl (AlgebraError ''unexpected fields'')
      | _ \<Rightarrow> Inl (AlgebraError ''unexpected fields''))"

definition ref_from_document :: "pyobj \<Rightarrow> algebra_error + binding" where
  "ref_from_document raw =
     (case raw of
        PDict item \<Rightarrow>
          if item_get item ''kind'' \<noteq> PStr ''outputRef'' then Inl (AlgebraError ''unknown reference'')
          else if item_get item ''scope'' = PStr ''current'' then
            and_then (exact raw [''kind'', ''scope'', ''outputId'']) (\<lambda>it. make_current_ref (item_get it ''outputId''))
          else if item_get item ''scope'' = PStr ''local'' then
            and_then (exact raw [''kind'', ''scope'', ''localNodeId'', ''outputId''])
              (\<lambda>it. make_local_ref (item_get it ''localNodeId'') (item_get it ''outputId''))
          else if item_get item ''scope'' = PStr ''external'' then
            and_then (exact raw [''kind'', ''scope'', ''nodeId'', ''outputId''])
              (\<lambda>it. make_external_ref (item_get it ''nodeId'') (item_get it ''outputId''))
          else Inl (AlgebraError ''unknown reference'')
      | _ \<Rightarrow> Inl (AlgebraError ''reference must be an object''))"

definition metadata_from_document :: "pyobj \<Rightarrow> algebra_error + node_ref option" where
  "metadata_from_document raw =
     (case raw of
        PNone \<Rightarrow> Inr None
      | PDict item \<Rightarrow>
          if item_get item ''kind'' \<noteq> PStr ''nodeRef'' then Inl (AlgebraError ''unknown metadata reference'')
          else if item_get item ''scope'' = PStr ''current'' then
            and_then (exact raw [''kind'', ''scope'']) (\<lambda>_. Inr (Some CurrentNodeRef))
          else if item_get item ''scope'' = PStr ''external'' then
            and_then (exact raw [''kind'', ''scope'', ''nodeId''])
              (\<lambda>it. and_then (make_external_node (item_get it ''nodeId'')) (\<lambda>r. Inr (Some r)))
          else and_then (exact raw [''kind'', ''scope'', ''localNodeId''])
            (\<lambda>it. if item_get it ''scope'' \<noteq> PStr ''local'' then Inl (AlgebraError ''unknown metadata scope'')
                  else and_then (make_local_node_ref (item_get it ''localNodeId'')) (\<lambda>r. Inr (Some r)))
      | _ \<Rightarrow> Inl (AlgebraError ''metadata reference must be an object''))"

text \<open>A Python object used as a literal; a list or a dictionary inside a tuple is none.\<close>

fun as_literal :: "pyobj \<Rightarrow> json_lit" where
  "as_literal PNone = LNull"
| "as_literal (PBool b) = LBool b"
| "as_literal (PInt i) = LInt i"
| "as_literal (PFloat r) = LFloat r"
| "as_literal PNonFinite = LBadFloat"
| "as_literal (PStr s) = LStr s"
| "as_literal (PTuple vs) = LTuple (map as_literal vs)"
| "as_literal _ = LOther"

fun str_of :: "pyobj \<Rightarrow> string" where
  "str_of (PStr s) = s"
| "str_of _ = ''''"

fun collect :: "(algebra_error + 'a) list \<Rightarrow> algebra_error + 'a list" where
  "collect [] = Inr []"
| "collect (r # rs) = and_then r (\<lambda>x. and_then (collect rs) (\<lambda>xs. Inr (x # xs)))"

fun json_to_literal :: "pyobj \<Rightarrow> algebra_error + json_lit" where
  "json_to_literal (PList vs) = and_then (collect (map json_to_literal vs)) (\<lambda>xs. Inr (LTuple xs))"
| "json_to_literal (PDict kvs) =
     (if \<not> list_all is_PStr (map fst kvs) then Inl (AlgebraError ''literal object keys must be strings'')
      else and_then (collect (map (\<lambda>(k, r). and_then r (\<lambda>x. Inr (KeyVal k x)))
          (sort_key (str_of \<circ> fst) (map (\<lambda>p. (fst p, json_to_literal (snd p))) kvs))))
        (\<lambda>items. make_json_object (TupleOf items)))"
| "json_to_literal v = Inr (as_literal v)"

text \<open>The callback for present values keeps a state of its own, \<open>t\<close>.\<close>

definition binding_from_document :: "('t \<Rightarrow> pyobj \<Rightarrow> pyobj \<Rightarrow> algebra_error + val \<times> 't) \<Rightarrow> 't \<Rightarrow> pyobj \<Rightarrow>
    algebra_error + binding pair_item \<times> 't" where
  "binding_from_document decode t raw =
     and_then (exact raw [''id'', ''value'']) (\<lambda>entry.
       (case item_get entry ''value'' of
          PDict v \<Rightarrow>
            and_then
              (if item_get v ''kind'' = PStr ''present'' then
                 and_then (exact (PDict v) [''kind'', ''valueIndex'']) (\<lambda>it.
                   and_then (decode t (item_get it ''valueIndex'') (item_get entry ''id'')) (\<lambda>(x, t').
                     and_then (make_present (Some x)) (\<lambda>b. Inr (b, t'))))
               else and_then
                 (if item_get v ''kind'' = PStr ''blocked'' then
                    and_then (exact (PDict v) [''kind'', ''message'']) (\<lambda>it. make_blocked (item_get it ''message''))
                  else ref_from_document (PDict v))
                 (\<lambda>b. Inr (b, t)))
              (\<lambda>(b, t'). Inr (KeyVal (item_get entry ''id'') b, t'))
        | _ \<Rightarrow> Inl (AlgebraError ''binding must be an object'')))"

fun bindings_from_document :: "('t \<Rightarrow> pyobj \<Rightarrow> pyobj \<Rightarrow> algebra_error + val \<times> 't) \<Rightarrow> 't \<Rightarrow> pyobj list \<Rightarrow>
    algebra_error + binding pair_item list \<times> 't" where
  "bindings_from_document decode t [] = Inr ([], t)"
| "bindings_from_document decode t (raw # raws) =
     and_then (binding_from_document decode t raw) (\<lambda>(item, t').
       and_then (bindings_from_document decode t' raws) (\<lambda>(items, t''). Inr (item # items, t'')))"

definition input_from_document :: "pyobj \<Rightarrow> algebra_error + binding pair_item" where
  "input_from_document raw =
     and_then (exact raw [''id'', ''value'']) (\<lambda>entry.
       (let v = item_get entry ''value'';
            lit = (case v of PDict kvs \<Rightarrow> item_get kvs ''kind'' = PStr ''literal'' | _ \<Rightarrow> False) in
        and_then
          (if lit then
             and_then (exact v [''kind'', ''value'']) (\<lambda>it.
               and_then (json_to_literal (item_get it ''value'')) make_literal_input)
           else ref_from_document v)
          (\<lambda>b. Inr (KeyVal (item_get entry ''id'') b))))"

definition sorted_items :: "(pyobj \<times> pyobj) list \<Rightarrow> algebra_error + (pyobj \<times> pyobj) list" where
  "sorted_items kvs =
     (if list_all (is_PStr \<circ> fst) kvs then Inr (sort_key (str_of \<circ> fst) kvs)
      else if length kvs < 2 then Inr kvs else Inl AlgebraTypeError)"

fun is_PList :: "pyobj \<Rightarrow> bool" where
  "is_PList (PList _) = True"
| "is_PList _ = False"

fun as_tuple :: "pyobj \<Rightarrow> pyobj" where
  "as_tuple (PList vs) = PTuple vs"
| "as_tuple v = v"

definition node_fields :: "string list" where
  "node_fields = [''display'', ''inputs'', ''localId'', ''nodeType'', ''parent'', ''outputMembers'', ''slotVariants'']"

definition node_from_document :: "pyobj \<Rightarrow> algebra_error + local_node" where
  "node_from_document raw =
     and_then (exact raw node_fields) (\<lambda>node.
       (case item_get node ''inputs'' of
          PList raw_inputs \<Rightarrow>
            (case (item_get node ''outputMembers'', item_get node ''slotVariants'') of
               (PDict members, PDict variants) \<Rightarrow>
                 if \<not> list_all (is_PList \<circ> snd) members then Inl (AlgebraError ''output members must be arrays'')
                 else
                   and_then (collect (map input_from_document raw_inputs)) (\<lambda>inputs.
                   and_then (metadata_from_document (item_get node ''parent'')) (\<lambda>parent.
                   and_then (metadata_from_document (item_get node ''display'')) (\<lambda>display.
                   and_then (sorted_items members) (\<lambda>ms.
                   and_then (sorted_items variants) (\<lambda>vs.
                     make_local_node (item_get node ''localId'') (item_get node ''nodeType'')
                       (TupleOf inputs) parent display
                       (TupleOf (map (\<lambda>(k, m). KeyVal k (as_tuple m)) ms))
                       (TupleOf (map (\<lambda>(k, v). KeyVal k v) vs)))))))
             | _ \<Rightarrow> Inl (AlgebraError ''node interfaces must be objects''))
        | _ \<Rightarrow> Inl (AlgebraError ''inputs must be an array'')))"

definition return_unit_from_document :: "('t \<Rightarrow> pyobj \<Rightarrow> pyobj \<Rightarrow> algebra_error + val \<times> 't) \<Rightarrow> 't \<Rightarrow> pyobj \<Rightarrow>
    algebra_error + return_unit" where
  "return_unit_from_document decode t raw =
     (case raw of
        PDict kvs \<Rightarrow>
          (let kind = item_get kvs ''kind'';
               expected = (if kind = PStr ''direct'' then [''kind'', ''bindings'']
                           else [''kind'', ''bindings'', ''expansion'']) in
           and_then (exact raw expected) (\<lambda>unit.
             (case item_get unit ''bindings'' of
                PList raw_bindings \<Rightarrow>
                  and_then (bindings_from_document decode t raw_bindings) (\<lambda>(bindings, _).
                    if kind = PStr ''direct'' then make_direct (TupleOf bindings)
                    else if kind \<noteq> PStr ''expanded'' then Inl (AlgebraError ''unknown return kind'')
                    else and_then (exact (item_get unit ''expansion'') [''nodes'', ''cachePolicy'']) (\<lambda>expansion.
                      (case item_get expansion ''nodes'' of
                         PList raw_nodes \<Rightarrow>
                           and_then (collect (map node_from_document raw_nodes)) (\<lambda>nodes.
                             and_then (make_expansion (Some (map Some nodes)) (item_get expansion ''cachePolicy''))
                               (\<lambda>ex. make_expanded (Some ex) (TupleOf bindings)))
                       | _ \<Rightarrow> Inl (AlgebraError ''nodes must be an array''))))
              | _ \<Rightarrow> Inl (AlgebraError ''bindings must be an array''))))
      | _ \<Rightarrow> Inl (AlgebraError ''return unit must be an object''))"

subsection \<open>The callbacks of the persistent cache\<close>

text \<open>
  In \<^verbatim>\<open>dinkster_caches/wire.py\<close> present values are the outputs of the cached entry, numbered in
  the order of the bindings; a missing output is a \<^verbatim>\<open>KeyError\<close>, which the reader catches as well.
\<close>

definition cached_encode :: "nat \<Rightarrow> val \<Rightarrow> int \<times> nat" where
  "cached_encode n v = (int n, n + 1)"

definition cached_decode :: "(string, val) dict \<Rightarrow> string list \<Rightarrow> pyobj \<Rightarrow> pyobj \<Rightarrow>
    algebra_error + val \<times> string list" where
  "cached_decode entry used index output_id =
     (case index of
        PInt i \<Rightarrow>
          if i \<noteq> int (length used) then Inl (AlgebraError ''invalid cached present binding index'')
          else if unhashable output_id then Inl AlgebraTypeError
          else (case output_id of
             PStr k \<Rightarrow>
               if k \<in> set used then Inl (AlgebraError ''invalid cached present binding index'')
               else (case map_of entry k of None \<Rightarrow> Inl AlgebraKeyError | Some v \<Rightarrow> Inr (v, used @ [k]))
           | _ \<Rightarrow> Inl AlgebraKeyError)
      | _ \<Rightarrow> Inl (AlgebraError ''invalid cached present binding index''))"

section \<open>Well-formed units\<close>

text \<open>What the constructors admit.\<close>

fun out_id_ok :: "out_id \<Rightarrow> bool" where
  "out_id_ok (OutName s) = id_re s"
| "out_id_ok (OutIndex i) = (i < max_count)"

fun binding_ok :: "binding \<Rightarrow> bool" where
  "binding_ok (PresentOutput _) = True"
| "binding_ok (BlockedOutput _) = True"
| "binding_ok (CurrentOutputRef out) = id_re out"
| "binding_ok (LocalOutputRef n out) = (id_re n \<and> out_id_ok out)"
| "binding_ok (ExternalOutputRef n out) = (id_re n \<and> out_id_ok out)"
| "binding_ok (LiteralInput v) = (check_literal v = Inr v)"
| "binding_ok NotABinding = False"

fun meta_ok :: "node_ref option \<Rightarrow> bool" where
  "meta_ok None = True"
| "meta_ok (Some CurrentNodeRef) = True"
| "meta_ok (Some (LocalNodeRef n)) = id_re n"
| "meta_ok (Some (ExternalNodeRef n)) = id_re n"
| "meta_ok (Some NotANodeRef) = False"

definition pairs_ok :: "(string \<times> 'b) list \<Rightarrow> bool" where
  "pairs_ok ps \<longleftrightarrow> length ps \<le> max_count \<and> uniquely_sorted (map fst ps) \<and> list_all (id_re \<circ> fst) ps"

definition local_node_ok :: "local_node \<Rightarrow> bool" where
  "local_node_ok n \<longleftrightarrow> id_re (ln_id n) \<and> id_re (ln_type n) \<and>
     pairs_ok (ln_inputs n) \<and> (\<forall>(_, b) \<in> set (ln_inputs n). is_input_binding b \<and> binding_ok b) \<and>
     meta_ok (ln_parent n) \<and> meta_ok (ln_display n) \<and>
     pairs_ok (ln_members n) \<and> (\<forall>(_, ms) \<in> set (ln_members n). distinct ms \<and> list_all id_re ms) \<and>
     pairs_ok (ln_variants n) \<and> (\<forall>(_, v) \<in> set (ln_variants n). id_re v)"

text \<open>The references between the nodes of an expansion.\<close>

definition ref_rel :: "local_node list \<Rightarrow> (string \<times> string) set" where
  "ref_rel ns = {(ln_id n, t) |n t. n \<in> set ns \<and> t \<in> set (local_refs n)}"

definition expansion_shape :: "expansion \<Rightarrow> bool" where
  "expansion_shape ex \<longleftrightarrow>
     ex_nodes ex \<noteq> [] \<and> length (ex_nodes ex) \<le> max_count \<and>
     uniquely_sorted (map ln_id (ex_nodes ex)) \<and>
     (\<forall>n \<in> set (ex_nodes ex). set (local_refs n) \<subseteq> ln_id ` set (ex_nodes ex)) \<and>
     acyclic (ref_rel (ex_nodes ex))"

definition bindings_resolve :: "string set \<Rightarrow> (string \<times> binding) list \<Rightarrow> bool" where
  "bindings_resolve ids ps \<longleftrightarrow>
     (\<forall>(_, b) \<in> set ps. (\<forall>out. b = CurrentOutputRef out \<longrightarrow> out \<in> set (present_ids ps)) \<and>
        (\<forall>n out. b = LocalOutputRef n out \<longrightarrow> n \<in> ids))"

definition bindings_ok :: "string set \<Rightarrow> (string \<times> binding) list \<Rightarrow> bool" where
  "bindings_ok ids ps \<longleftrightarrow> pairs_ok ps \<and>
     (\<forall>(_, b) \<in> set ps. is_output_binding b \<and> binding_ok b) \<and> bindings_resolve ids ps"

fun unit_ok :: "return_unit \<Rightarrow> bool" where
  "unit_ok (DirectReturn ps) \<longleftrightarrow> bindings_ok {} ps \<and> (\<forall>(_, b) \<in> set ps. \<not> is_external b)"
| "unit_ok (ExpandedReturn ex ps) \<longleftrightarrow>
     expansion_shape ex \<and> (\<forall>n \<in> set (ex_nodes ex). local_node_ok n) \<and>
     bindings_ok (ln_id ` set (ex_nodes ex)) ps \<and>
     (\<forall>n \<in> set (ex_nodes ex). \<forall>(_, b) \<in> set (ln_inputs n).
        \<forall>out. b = CurrentOutputRef out \<longrightarrow> out \<in> set (present_ids ps))"

subsection \<open>What the constructors return\<close>

lemma if_error_iff:
  "(if c then Inl e else r) = Inr u \<longleftrightarrow> \<not> c \<and> r = Inr u"
  "(if c then r else Inl e) = Inr u \<longleftrightarrow> c \<and> r = Inr u"
  by simp_all

lemma pairs_ok_keys:
  "pairs_ok ps \<longleftrightarrow> length (map fst ps) \<le> max_count \<and> uniquely_sorted (map fst ps) \<and> list_all id_re (map fst ps)"
  by (auto simp: pairs_ok_def list_all_iff)

lemma check_identifier_Inr: "check_identifier v name = Inr s \<longleftrightarrow> v = PStr s \<and> id_re s"
  by (auto simp: check_identifier_def split: pyobj.splits if_splits)

lemma check_text_Inr: "check_text v name = Inr s \<longleftrightarrow> v = PStr s"
  by (auto simp: check_text_def split: pyobj.splits)

abbreviation str_pairs :: "(string \<times> 'b) list \<Rightarrow> 'b pair_item list" where
  "str_pairs ps \<equiv> map (\<lambda>(k, v). KeyVal (PStr k) v) ps"

lemma check_items_Inr:
  "check_items name lk items = Inr ps \<longleftrightarrow> items = str_pairs ps \<and> (lk \<or> list_all (id_re \<circ> fst) ps)"
proof (induction name lk items arbitrary: ps rule: check_items.induct)
  case (3 name lk k v items)
  show ?case
  proof (cases ps)
    case (Cons p ps')
    then show ?thesis
      by (cases p) (auto simp: and_then_Inr_iff 3 check_identifier_Inr check_text_Inr)
  qed (auto simp: and_then_Inr_iff)
qed auto

lemma check_pairs_Inr:
  "check_pairs arg name lk = Inr ps \<longleftrightarrow> arg = TupleOf (str_pairs ps) \<and> length ps \<le> max_count \<and>
     uniquely_sorted (map fst ps) \<and> (lk \<or> list_all (id_re \<circ> fst) ps)"
  by (cases arg) (auto simp: check_pairs_def and_then_Inr_iff check_items_Inr not_less split: if_splits)

lemma check_pairs_False: "check_pairs arg name False = Inr ps \<longleftrightarrow> arg = TupleOf (str_pairs ps) \<and> pairs_ok ps"
  by (auto simp: check_pairs_Inr pairs_ok_def)

lemma check_out_id_Inr: "check_out_id v = Inr out \<longleftrightarrow> v = out_id_obj out \<and> out_id_ok out"
  by (cases out)
    (auto simp: check_out_id_def and_then_Inr_iff check_identifier_Inr max_count_def split: pyobj.splits if_splits)

lemma make_current_ref_Inr: "make_current_ref v = Inr b \<longleftrightarrow> (\<exists>s. b = CurrentOutputRef s \<and> v = PStr s \<and> id_re s)"
  by (auto simp: make_current_ref_def and_then_Inr_iff check_identifier_Inr)

lemma make_local_ref_Inr:
  "make_local_ref n v = Inr b \<longleftrightarrow>
     (\<exists>s out. b = LocalOutputRef s out \<and> n = PStr s \<and> v = out_id_obj out \<and> id_re s \<and> out_id_ok out)"
  by (auto simp: make_local_ref_def and_then_Inr_iff check_identifier_Inr check_out_id_Inr)

lemma make_external_ref_Inr:
  "make_external_ref n v = Inr b \<longleftrightarrow>
     (\<exists>s out. b = ExternalOutputRef s out \<and> n = PStr s \<and> v = out_id_obj out \<and> id_re s \<and> out_id_ok out)"
  by (auto simp: make_external_ref_def make_local_ref_Inr and_then_Inr_iff check_identifier_Inr check_out_id_Inr)

lemma make_blocked_Inr:
  "make_blocked v = Inr b \<longleftrightarrow> b = BlockedOutput None \<and> v = PNone \<or> (\<exists>s. b = BlockedOutput (Some s) \<and> v = PStr s)"
  by (auto simp: make_blocked_def split: pyobj.splits)

lemma make_literal_input_Inr:
  "make_literal_input v = Inr b \<longleftrightarrow> b = LiteralInput v \<and> check_literal v = Inr v"
  by (auto simp: make_literal_input_def and_then_Inr_iff check_literal_iff)

lemma set_key_PStr: "map (set_key \<circ> PStr) ms = map PStr ms"
  by (induction ms) auto

lemma distinct_PStr: "distinct (map PStr ms) \<longleftrightarrow> distinct ms"
  by (simp add: distinct_map inj_on_def)

lemma any_unhashable_PStr: "\<not> any_unhashable (map PStr ms)"
  by (induction ms) auto

lemma check_identifiers_Inr: "check_identifiers name vs = Inr ss \<longleftrightarrow> vs = map PStr ss \<and> list_all id_re ss"
proof (induction vs arbitrary: ss)
  case (Cons v vs)
  show ?case by (cases ss) (auto simp: and_then_Inr_iff check_identifier_Inr Cons)
qed auto

lemma check_members_Inr:
  "check_members v = Inr ms \<longleftrightarrow> v = PTuple (map PStr ms) \<and> distinct ms \<and> list_all id_re ms"
  by (auto simp: check_members_def check_identifiers_Inr any_unhashable_PStr set_key_PStr distinct_PStr
      split: pyobj.splits if_splits)

lemma check_all_members_Inr:
  "check_all_members ps = Inr r \<longleftrightarrow> ps = map (\<lambda>(k, ms). (k, PTuple (map PStr ms))) r \<and>
     (\<forall>(_, ms) \<in> set r. distinct ms \<and> list_all id_re ms)"
proof (induction ps arbitrary: r rule: check_all_members.induct)
  case (2 k v ps)
  show ?case by (cases r) (auto simp: and_then_Inr_iff check_members_Inr 2)
qed auto

lemma check_variants_Inr:
  "check_variants ps = Inr r \<longleftrightarrow> ps = map (\<lambda>(k, v). (k, PStr v)) r \<and> (\<forall>(_, v) \<in> set r. id_re v)"
proof (induction ps arbitrary: r rule: check_variants.induct)
  case (2 k v ps)
  show ?case by (cases r) (auto simp: and_then_Inr_iff check_identifier_Inr 2)
qed auto

lemma make_local_node_Inr:
  "make_local_node i t ins parent display members variants = Inr n \<longleftrightarrow>
     i = PStr (ln_id n) \<and> t = PStr (ln_type n) \<and> ins = TupleOf (str_pairs (ln_inputs n)) \<and>
     parent = ln_parent n \<and> display = ln_display n \<and>
     members = TupleOf (str_pairs (map (\<lambda>(k, ms). (k, PTuple (map PStr ms))) (ln_members n))) \<and>
     variants = TupleOf (str_pairs (map (\<lambda>(k, v). (k, PStr v)) (ln_variants n))) \<and>
     id_re (ln_id n) \<and> id_re (ln_type n) \<and> pairs_ok (ln_inputs n) \<and>
     list_all (is_input_binding \<circ> snd) (ln_inputs n) \<and>
     ln_parent n \<noteq> Some NotANodeRef \<and> ln_display n \<noteq> Some NotANodeRef \<and>
     pairs_ok (ln_members n) \<and> (\<forall>(_, ms) \<in> set (ln_members n). distinct ms \<and> list_all id_re ms) \<and>
     pairs_ok (ln_variants n) \<and> (\<forall>(_, v) \<in> set (ln_variants n). id_re v)"
proof -
  have keep: "pairs_ok (map (\<lambda>(k, v). (k, f v)) ps) \<longleftrightarrow> pairs_ok ps" for f :: "'x \<Rightarrow> 'y" and ps
  proof -
    have "map fst (map (\<lambda>(k, v). (k, f v)) ps) = map fst ps" by auto
    then show ?thesis unfolding pairs_ok_keys by (simp only:)
  qed
  have "make_local_node i t ins parent display members variants = Inr n \<longleftrightarrow>
      (\<exists>si st inp mps ms vps vs. i = PStr si \<and> id_re si \<and> t = PStr st \<and> id_re st \<and>
        ins = TupleOf (str_pairs inp) \<and> pairs_ok inp \<and> list_all (is_input_binding \<circ> snd) inp \<and>
        parent \<noteq> Some NotANodeRef \<and> display \<noteq> Some NotANodeRef \<and>
        members = TupleOf (str_pairs mps) \<and> pairs_ok mps \<and> check_all_members mps = Inr ms \<and>
        variants = TupleOf (str_pairs vps) \<and> pairs_ok vps \<and> check_variants vps = Inr vs \<and>
        n = \<lparr>ln_id = si, ln_type = st, ln_inputs = inp, ln_parent = parent, ln_display = display,
            ln_members = ms, ln_variants = vs\<rparr>)"
    unfolding make_local_node_def and_then_Inr_iff if_error_iff check_identifier_Inr check_pairs_False
    by blast
  then show ?thesis
    unfolding check_all_members_Inr check_variants_Inr by (cases n) (auto simp: keep)
qed

lemma search_edges_refs:
  assumes "distinct (map ln_id ns)"
  shows "search_edges (map (\<lambda>n. (ln_id n, remdups (local_refs n))) ns) = ref_rel ns"
proof -
  let ?E = "map (\<lambda>n. (ln_id n, remdups (local_refs n))) ns"
  have some: "map_of ?E (ln_id n) = Some (remdups (local_refs n))" if "n \<in> set ns" for n
    using assms that by (intro map_of_is_SomeI) (auto simp: comp_def)
  have none: "map_of ?E k = None" if "k \<notin> ln_id ` set ns" for k
    using that by (auto simp: map_of_eq_None_iff image_iff)
  show ?thesis
  proof (rule set_eqI)
    fix p :: "string \<times> string"
    obtain k t where p: "p = (k, t)" by fastforce
    have inj: "n = m" if "n \<in> set ns" "m \<in> set ns" "ln_id n = ln_id m" for n m
      using assms that by (auto simp: distinct_map inj_on_def)
    show "p \<in> search_edges ?E \<longleftrightarrow> p \<in> ref_rel ns"
    proof (cases "k \<in> ln_id ` set ns")
      case True
      then obtain n where n: "n \<in> set ns" "k = ln_id n" by blast
      with some [OF n(1)] have "p \<in> search_edges ?E \<longleftrightarrow> t \<in> set (local_refs n)"
        by (simp add: p search_edges_def dict_get_default_def)
      also have "\<dots> \<longleftrightarrow> p \<in> ref_rel ns" using n inj by (auto simp: p ref_rel_def)
      finally show ?thesis .
    next
      case False
      then show ?thesis using none [OF False] by (auto simp: p search_edges_def dict_get_default_def ref_rel_def)
    qed
  qed
qed

lemma policy_of_name: "policy_of (PStr (policy_name p)) = Some p"
  by (cases p) (simp_all add: policy_of_def)

lemma make_expansion_Inr:
  "make_expansion nodes pol = Inr ex \<longleftrightarrow>
     policy_of pol = Some (ex_policy ex) \<and> nodes = Some (map Some (ex_nodes ex)) \<and> expansion_shape ex"
proof -
  have all: "None \<notin> set entries \<longleftrightarrow> entries = map Some (map the entries)" for entries :: "local_node option list"
    by (induction entries) auto
  have search: "(\<exists>st. search_roots (map (\<lambda>n. (ln_id n, remdups (local_refs n))) ns) (\<lambda>_. White) (map ln_id ns) = Inr st)
      \<longleftrightarrow> acyclic (ref_rel ns)" if "distinct (map ln_id ns)" for ns
    using search_roots_iff [of "map (\<lambda>n. (ln_id n, remdups (local_refs n))) ns" "map ln_id ns"]
    by (auto simp: search_edges_refs [OF that] ref_rel_def)
  show ?thesis
  proof (cases "\<exists>p entries. policy_of pol = Some p \<and> nodes = Some entries \<and> None \<notin> set entries")
    case True
    then obtain p entries where e: "policy_of pol = Some p" "nodes = Some entries" "None \<notin> set entries" by blast
    define ns where "ns = map the entries"
    from e(3) all have ns: "entries = map Some ns" by (simp add: ns_def)
    have "make_expansion nodes pol = Inr ex \<longleftrightarrow>
        ns \<noteq> [] \<and> length ns \<le> max_count \<and> uniquely_sorted (map ln_id ns) \<and>
        (\<forall>n \<in> set ns. set (local_refs n) \<subseteq> ln_id ` set ns) \<and> acyclic (ref_rel ns) \<and>
        ex = \<lparr>ex_nodes = ns, ex_policy = p\<rparr>"
      using search [of ns] unfolding make_expansion_def e ns
      by (auto simp: Let_def and_then_Inr_iff comp_def list_all_iff uniquely_sorted_def)
    then show ?thesis
      by (cases ex) (auto simp: e(1,2) ns expansion_shape_def inj_map_eq_map)
  next
    case False
    have "None \<notin> set (map Some (ex_nodes ex))" by simp
    with False have "\<not> (policy_of pol = Some (ex_policy ex) \<and> nodes = Some (map Some (ex_nodes ex)))" by blast
    moreover have "make_expansion nodes pol \<noteq> Inr ex"
      using False by (auto simp: make_expansion_def split: option.splits if_splits)
    ultimately show ?thesis by blast
  qed
qed

lemma check_refs_Inr:
  "check_refs present ids ps = Inr u \<longleftrightarrow>
     (\<forall>(_, b) \<in> set ps. (\<forall>out. b = CurrentOutputRef out \<longrightarrow> out \<in> set present) \<and>
        (\<forall>n out. b = LocalOutputRef n out \<longrightarrow> n \<in> set ids))"
  by (induction present ids ps rule: check_refs.induct) auto

lemma validate_bindings_Inr:
  "validate_bindings arg ids = Inr ps \<longleftrightarrow>
     arg = TupleOf (str_pairs ps) \<and> pairs_ok ps \<and> list_all (is_output_binding \<circ> snd) ps \<and>
     bindings_resolve (set ids) ps"
  by (auto simp: validate_bindings_def and_then_Inr_iff check_pairs_False check_refs_Inr bindings_resolve_def
      split: if_splits)

lemma make_direct_Inr:
  "make_direct arg = Inr u \<longleftrightarrow>
     (\<exists>ps. u = DirectReturn ps \<and> arg = TupleOf (str_pairs ps) \<and> pairs_ok ps \<and>
        list_all (is_output_binding \<circ> snd) ps \<and> bindings_resolve {} ps \<and> (\<forall>(_, b) \<in> set ps. \<not> is_external b))"
proof -
  have "\<not> list_ex (is_external \<circ> snd) ps \<longleftrightarrow> (\<forall>(_, b) \<in> set ps. \<not> is_external b)" for ps :: "(string \<times> binding) list"
    by (auto simp: list_ex_iff)
  then show ?thesis
    by (auto simp: make_direct_def and_then_Inr_iff validate_bindings_Inr if_error_iff)
qed

lemma current_out_Some: "current_out b = Some out \<longleftrightarrow> b = CurrentOutputRef out"
  by (cases b) auto

lemma make_expanded_Inr:
  "make_expanded (Some ex) arg = Inr u \<longleftrightarrow>
     (\<exists>ps. u = ExpandedReturn ex ps \<and> arg = TupleOf (str_pairs ps) \<and> pairs_ok ps \<and>
        list_all (is_output_binding \<circ> snd) ps \<and> bindings_resolve (ln_id ` set (ex_nodes ex)) ps \<and>
        (\<forall>n \<in> set (ex_nodes ex). \<forall>(_, b) \<in> set (ln_inputs n).
           \<forall>out. b = CurrentOutputRef out \<longrightarrow> out \<in> set (present_ids ps)))"
proof -
  have "(case current_out b of None \<Rightarrow> True | Some out \<Rightarrow> out \<in> A) \<longleftrightarrow> (\<forall>out. b = CurrentOutputRef out \<longrightarrow> out \<in> A)"
    for b A by (cases b) auto
  then show ?thesis
    by (auto simp: make_expanded_def and_then_Inr_iff validate_bindings_Inr if_error_iff list_all_iff)
qed

section \<open>Parsing yields well-formed units\<close>

lemma case_Inr_iff:
  "(case v of PList xs \<Rightarrow> f xs | _ \<Rightarrow> Inl e) = Inr u \<longleftrightarrow> (\<exists>xs. v = PList xs \<and> f xs = Inr u)"
  "(case v of PDict kvs \<Rightarrow> g kvs | _ \<Rightarrow> Inl e) = Inr u \<longleftrightarrow> (\<exists>kvs. v = PDict kvs \<and> g kvs = Inr u)"
  "(case (v, w) of (PDict kvs, PDict kws) \<Rightarrow> h kvs kws | _ \<Rightarrow> Inl e) = Inr u \<longleftrightarrow>
     (\<exists>kvs kws. v = PDict kvs \<and> w = PDict kws \<and> h kvs kws = Inr u)"
  by (auto split: pyobj.splits)

lemma if_Inr_iff: "(if c then r else r') = Inr u \<longleftrightarrow> c \<and> r = Inr u \<or> \<not> c \<and> r' = Inr u"
  by simp

lemma collect_Inr: "collect rs = Inr xs \<longleftrightarrow> rs = map Inr xs"
proof (induction rs arbitrary: xs)
  case (Cons r rs)
  show ?case by (cases xs) (auto simp: and_then_Inr_iff Cons)
qed auto

fun is_ref :: "binding \<Rightarrow> bool" where
  "is_ref (CurrentOutputRef _) = True"
| "is_ref (LocalOutputRef _ _) = True"
| "is_ref (ExternalOutputRef _ _) = True"
| "is_ref _ = False"

lemma ref_binding: "is_ref b \<Longrightarrow> is_input_binding b \<and> is_output_binding b"
  by (cases b) auto

lemma ref_from_document_ok: "ref_from_document raw = Inr b \<Longrightarrow> is_ref b \<and> binding_ok b"
  by (auto simp: ref_from_document_def and_then_Inr_iff make_current_ref_Inr make_local_ref_Inr
      make_external_ref_Inr split: pyobj.splits if_splits)

lemma metadata_from_document_ok: "metadata_from_document raw = Inr m \<Longrightarrow> meta_ok m"
  by (auto simp: metadata_from_document_def and_then_Inr_iff make_external_node_def make_local_node_ref_def
      check_identifier_Inr split: pyobj.splits if_splits)

definition item_ok :: "(binding \<Rightarrow> bool) \<Rightarrow> binding pair_item \<Rightarrow> bool" where
  "item_ok P item \<longleftrightarrow> (case item of NotPair \<Rightarrow> False | KeyVal k b \<Rightarrow> P b \<and> binding_ok b)"

lemma binding_from_document_ok:
  assumes "binding_from_document decode t raw = Inr (item, t')"
  shows "item_ok is_output_binding item"
proof -
  from assms obtain k b where item: "item = KeyVal k b"
    and b: "(\<exists>x. b = PresentOutput x) \<or> (\<exists>m. make_blocked m = Inr b) \<or> (\<exists>r. ref_from_document r = Inr b)"
    unfolding binding_from_document_def and_then_Inr_iff case_Inr_iff if_Inr_iff
    by (fastforce simp: make_present_def and_then_Inr_iff)
  from b ref_from_document_ok ref_binding show ?thesis
    by (auto simp: item item_ok_def make_blocked_Inr)
qed

lemma bindings_from_document_ok:
  "bindings_from_document decode t raws = Inr (items, t') \<Longrightarrow> \<forall>item \<in> set items. item_ok is_output_binding item"
proof (induction raws arbitrary: t items)
  case (Cons raw raws)
  then show ?case by (auto simp: and_then_Inr_iff dest: binding_from_document_ok)
qed simp

lemma input_from_document_ok:
  assumes "input_from_document raw = Inr item"
  shows "item_ok is_input_binding item"
proof -
  from assms obtain k b where item: "item = KeyVal k b"
    and b: "(\<exists>v. make_literal_input v = Inr b) \<or> (\<exists>r. ref_from_document r = Inr b)"
    unfolding input_from_document_def and_then_Inr_iff Let_def
    by (auto simp: and_then_Inr_iff split: if_splits)
  from b ref_from_document_ok ref_binding show ?thesis
    by (auto simp: item item_ok_def make_literal_input_Inr)
qed

lemma str_pairs_items:
  "\<forall>item \<in> set (str_pairs ps). item_ok P item \<Longrightarrow> (k, b) \<in> set ps \<Longrightarrow> P b \<and> binding_ok b"
  by (force simp: item_ok_def)

lemma node_from_document_ok:
  assumes "node_from_document raw = Inr n"
  shows "local_node_ok n"
proof -
  from assms obtain raw_inputs inputs parent display ms vs i t
    where inputs: "collect (map input_from_document raw_inputs) = Inr inputs"
    and parent: "\<exists>r. metadata_from_document r = Inr parent" and display: "\<exists>r. metadata_from_document r = Inr display"
    and node: "make_local_node i t (TupleOf inputs) parent display ms vs = Inr n"
    unfolding node_from_document_def and_then_Inr_iff if_error_iff case_Inr_iff by blast
  from inputs have "\<forall>item \<in> set inputs. item_ok is_input_binding item"
    unfolding collect_Inr using input_from_document_ok by (metis in_set_conv_nth length_map nth_map)
  moreover from parent display metadata_from_document_ok have "meta_ok parent" "meta_ok display" by blast+
  moreover note node [unfolded make_local_node_Inr]
  ultimately show ?thesis
    using str_pairs_items [of "ln_inputs n" is_input_binding] by (fastforce simp: local_node_ok_def)
qed

lemma return_unit_from_document_ok:
  assumes "return_unit_from_document decode t raw = Inr u"
  shows "unit_ok u"
proof -
  consider (direct) raws items t' where
      "bindings_from_document decode t raws = Inr (items, t')" "make_direct (TupleOf items) = Inr u"
    | (expanded) raws items t' raw_nodes nodes p ex where
      "bindings_from_document decode t raws = Inr (items, t')"
      "collect (map node_from_document raw_nodes) = Inr nodes"
      "make_expansion (Some (map Some nodes)) p = Inr ex" "make_expanded (Some ex) (TupleOf items) = Inr u"
    using assms unfolding return_unit_from_document_def Let_def and_then_Inr_iff case_Inr_iff if_Inr_iff
    by (auto simp: and_then_Inr_iff case_Inr_iff if_Inr_iff)
  then show ?thesis
  proof cases
    case direct
    from direct(2) obtain ps where ps: "u = DirectReturn ps" "items = str_pairs ps" "pairs_ok ps"
      "bindings_resolve {} ps" "\<forall>(_, b) \<in> set ps. \<not> is_external b"
      unfolding make_direct_Inr by blast
    moreover from bindings_from_document_ok [OF direct(1)] have
      "\<forall>(_, b) \<in> set ps. is_output_binding b \<and> binding_ok b"
      unfolding ps(2) using str_pairs_items [of ps is_output_binding] by blast
    ultimately show ?thesis by (simp add: bindings_ok_def)
  next
    case expanded
    from expanded(3) have ex: "ex_nodes ex = nodes" "expansion_shape ex"
      by (auto simp: make_expansion_Inr inj_map_eq_map)
    from expanded(2) have "\<forall>n \<in> set nodes. local_node_ok n"
      unfolding collect_Inr using node_from_document_ok by (metis in_set_conv_nth length_map nth_map)
    moreover from expanded(4) obtain ps where ps: "u = ExpandedReturn ex ps" "items = str_pairs ps" "pairs_ok ps"
      "bindings_resolve (ln_id ` set (ex_nodes ex)) ps"
      "\<forall>n \<in> set (ex_nodes ex). \<forall>(_, b) \<in> set (ln_inputs n).
         \<forall>out. b = CurrentOutputRef out \<longrightarrow> out \<in> set (present_ids ps)"
      unfolding make_expanded_Inr by blast
    moreover from bindings_from_document_ok [OF expanded(1)] have
      "\<forall>(_, b) \<in> set ps. is_output_binding b \<and> binding_ok b"
      unfolding ps(2) using str_pairs_items [of ps is_output_binding] by blast
    ultimately show ?thesis using ex by (simp add: bindings_ok_def)
  qed
qed

section \<open>Round trips\<close>

lemma check_identifier_PStr [simp]: "id_re s \<Longrightarrow> check_identifier (PStr s) name = Inr s"
  by (simp add: check_identifier_Inr)

lemma check_out_id_obj [simp]: "out_id_ok out \<Longrightarrow> check_out_id (out_id_obj out) = Inr out"
  by (simp add: check_out_id_Inr)

lemmas doc_simps = exact_def item_get_def dict_get_default_def

lemma ref_round_trip: "is_ref b \<Longrightarrow> binding_ok b \<Longrightarrow> ref_from_document (ref_to_document b) = Inr b"
  by (cases b) (auto simp: ref_from_document_def doc_simps make_current_ref_def make_local_ref_def make_external_ref_def)

lemma metadata_round_trip: "meta_ok m \<Longrightarrow> metadata_from_document (metadata_to_document m) = Inr m"
  by (cases m rule: meta_ok.cases)
    (auto simp: metadata_from_document_def doc_simps make_external_node_def make_local_node_ref_def)

lemma sort_key_str_pairs:
  assumes "uniquely_sorted (map fst ps)"
  shows "sort_key (str_of \<circ> fst) (map (\<lambda>(k, v). (PStr k, f v)) ps) = map (\<lambda>(k, v). (PStr k, f v)) ps"
proof -
  have "map (str_of \<circ> fst) (map (\<lambda>(k, v). (PStr k, f v)) ps) = map fst ps" by auto
  moreover have "sorted (map fst ps)" using assms by (metis uniquely_sorted_def sorted_sort)
  ultimately show ?thesis by (intro sort_key_id_if_sorted) (simp only:)
qed

lemma json_round_trip:
  "lit_clean v \<Longrightarrow> lit_depth v \<le> max_literal_depth \<Longrightarrow> int (lit_items v) \<le> max_literal_items \<Longrightarrow>
     json_to_literal (literal_to_json v) = Inr v"
proof (induction v)
  case (LTuple vs)
  have "fold max (map (Suc \<circ> lit_depth) vs) 0 \<le> max_literal_depth" using LTuple.prems by simp
  then have d: "lit_depth v \<le> max_literal_depth" if "v \<in> set vs" for v
    using that by (force simp: fold_max_le list_all_iff)
  have i: "int (lit_items v) \<le> max_literal_items" if "v \<in> set vs" for v
    using member_le_sum_list [of "lit_items v" "map lit_items vs"] that LTuple.prems by force
  have "json_to_literal (literal_to_json v) = Inr v" if "v \<in> set vs" for v
    using LTuple.IH [OF that] LTuple.prems d [OF that] i [OF that] that by (simp add: list_all_iff)
  then have "map (json_to_literal \<circ> literal_to_json) vs = map Inr vs" by simp
  then have "collect (map json_to_literal (map literal_to_json vs)) = Inr vs" by (simp add: collect_Inr)
  then show ?case by simp
next
  case (LObject fs)
  have clean: "length fs \<le> max_count" "uniquely_sorted (map fst fs)" "list_all (lit_clean \<circ> snd) fs"
    using LObject.prems(1) by simp_all
  have sub: "lit_clean v \<and> lit_depth v \<le> max_literal_depth \<and> int (lit_items v) \<le> max_literal_items"
    if "(k, v) \<in> set fs" for k v
    using LObject.prems clean depth_field [OF that] items_field [OF that] that by (force simp: list_all_iff)
  have rt: "json_to_literal (literal_to_json v) = Inr v" if "(k, v) \<in> set fs" for k v
    using LObject.IH [of "(k, v)" v] sub [OF that] that by (simp add: prod_set_defs)
  have "map (\<lambda>p. (fst p, json_to_literal (snd p))) (map (\<lambda>p. (PStr (fst p), literal_to_json (snd p))) fs) =
      map (\<lambda>(k, v). (PStr k, Inr v)) fs"
    using rt by auto
  moreover have "collect (map (\<lambda>(k, r). and_then r (\<lambda>x. Inr (KeyVal k x))) (map (\<lambda>(k, v). (PStr k, Inr v)) fs)) =
      Inr (str_pairs fs)"
    unfolding collect_Inr by auto
  moreover have "make_json_object (TupleOf (str_pairs fs)) = Inr (LObject fs)"
    using clean sub
    by (auto simp: make_json_object_def and_then_Inr_iff check_pairs_Inr check_literals_iff list_all_iff)
  moreover have "list_all is_PStr (map fst (map (\<lambda>p. (PStr (fst p), literal_to_json (snd p))) fs))"
    by (simp add: list_all_iff)
  ultimately show ?case
    by (simp only: literal_to_json.simps json_to_literal.simps sort_key_str_pairs [OF clean(2)] if_P not_not
        and_then_simps) simp
qed auto

lemma item_round_trips:
  assumes "is_input_binding b" and "binding_ok b"
  shows "input_from_document (obj [(''id'', PStr k), (''value'', input_to_document b)]) = Inr (KeyVal (PStr k) b)"
proof (cases b)
  case (LiteralInput v)
  with assms(2) have c: "check_literal v = Inr v" by simp
  then have "json_to_literal (literal_to_json v) = Inr v"
    using json_round_trip [of v] by (simp add: check_literal_iff)
  moreover have "make_literal_input v = Inr (LiteralInput v)" using c by (simp add: make_literal_input_def)
  ultimately show ?thesis by (simp add: LiteralInput input_from_document_def doc_simps)
qed (use assms ref_round_trip [of b] in \<open>simp_all add: input_from_document_def doc_simps\<close>)

lemma exact_obj: "set (map fst kvs) = set flds \<Longrightarrow> exact (obj kvs) flds = Inr (map (\<lambda>(k, v). (PStr k, v)) kvs)"
proof -
  assume a: "set (map fst kvs) = set flds"
  have "set (map fst (map (\<lambda>(k, v). (PStr k, v)) kvs)) = PStr ` set (map fst kvs)"
    by (force simp: image_iff)
  with a show ?thesis by (simp add: exact_def)
qed

lemma item_get_obj: "item_get (map (\<lambda>(k, v). (PStr k, v)) kvs) k = dict_get_default kvs k PNone"
proof -
  have "map_of (map (\<lambda>(k, v). (PStr k, v)) kvs) (PStr k) = map_of kvs k" by (induction kvs) auto
  then show ?thesis by (simp add: item_get_def dict_get_default_def)
qed

lemma node_round_trip:
  assumes "local_node_ok n"
  shows "node_from_document (node_to_document n) = Inr n"
proof -
  from assms have ok: "id_re (ln_id n)" "id_re (ln_type n)" "pairs_ok (ln_inputs n)"
    "\<forall>(_, b) \<in> set (ln_inputs n). is_input_binding b \<and> binding_ok b"
    "meta_ok (ln_parent n)" "meta_ok (ln_display n)" "pairs_ok (ln_members n)"
    "\<forall>(_, ms) \<in> set (ln_members n). distinct ms \<and> list_all id_re ms" "pairs_ok (ln_variants n)"
    "\<forall>(_, v) \<in> set (ln_variants n). id_re v" by (simp_all add: local_node_ok_def)
  let ?ms = "map (\<lambda>(k, ms). (k, PList (map PStr ms))) (ln_members n)"
  let ?vs = "map (\<lambda>(k, v). (k, PStr v)) (ln_variants n)"
  have inputs: "collect (map input_from_document
      (map (\<lambda>(k, b). obj [(''id'', PStr k), (''value'', input_to_document b)]) (ln_inputs n))) =
    Inr (str_pairs (ln_inputs n))"
    unfolding collect_Inr using ok(4) item_round_trips by (auto simp: comp_def)
  have sorted: "sorted_items (map (\<lambda>(k, v). (PStr k, v)) (map (\<lambda>(k, v). (k, f v)) ps)) = Inr (map (\<lambda>(k, v). (PStr k, f v)) ps)"
    if "pairs_ok ps" for f :: "'x \<Rightarrow> pyobj" and ps
  proof -
    have m: "map (\<lambda>(k, v). (PStr k, v)) (map (\<lambda>(k, v). (k, f v)) ps) = map (\<lambda>(k, v). (PStr k, f v)) ps" by auto
    have "list_all (is_PStr \<circ> fst) (map (\<lambda>(k, v). (PStr k, f v)) ps)" by (auto simp: list_all_iff)
    moreover have "uniquely_sorted (map fst ps)" using that by (simp add: pairs_ok_def)
    ultimately show ?thesis unfolding m by (simp add: sorted_items_def sort_key_str_pairs)
  qed
  have node: "make_local_node (PStr (ln_id n)) (PStr (ln_type n)) (TupleOf (str_pairs (ln_inputs n)))
      (ln_parent n) (ln_display n)
      (TupleOf (map (\<lambda>(k, m). KeyVal k (as_tuple m)) (map (\<lambda>(k, ms). (PStr k, PList (map PStr ms))) (ln_members n))))
      (TupleOf (map (\<lambda>(k, v). KeyVal k v) (map (\<lambda>(k, v). (PStr k, PStr v)) (ln_variants n)))) = Inr n"
    unfolding make_local_node_Inr using ok by (auto simp: list_all_iff)
  have lists: "list_all (is_PList \<circ> snd) (map (\<lambda>(k, v). (PStr k, v)) ?ms)" by (auto simp: list_all_iff)
  show ?thesis
    unfolding node_from_document_def node_to_document_def
  proof (subst exact_obj, goal_cases)
    case 2
    show ?case
      unfolding and_then_simps item_get_obj
      by (simp add: inputs [simplified] metadata_round_trip ok lists [simplified] sorted [simplified]
          node [unfolded map_map])
  qed (force simp: node_fields_def)
qed

text \<open>
  What the two callbacks promise each other on a list of bindings: each present value is answered
  again under its index and binding.
\<close>

fun codec_ok :: "('s \<Rightarrow> val \<Rightarrow> int \<times> 's) \<Rightarrow> ('t \<Rightarrow> pyobj \<Rightarrow> pyobj \<Rightarrow> algebra_error + val \<times> 't) \<Rightarrow> 's \<Rightarrow> 't \<Rightarrow>
    (string \<times> binding) list \<Rightarrow> bool" where
  "codec_ok encode decode s t [] = True"
| "codec_ok encode decode s t ((k, PresentOutput v) # ps) =
     (case decode t (PInt (fst (encode s v))) (PStr k) of
        Inl _ \<Rightarrow> False
      | Inr (w, t') \<Rightarrow> w = v \<and> codec_ok encode decode (snd (encode s v)) t' ps)"
| "codec_ok encode decode s t ((k, b) # ps) = codec_ok encode decode s t ps"

lemma binding_round_trip:
  assumes "is_output_binding b" and "binding_ok b" and "\<nexists>v. b = PresentOutput v"
  shows "snd (binding_to_document encode s b) = s"
    and "binding_from_document decode t (obj [(''id'', PStr k), (''value'', fst (binding_to_document encode s b))]) =
      Inr (KeyVal (PStr k) b, t)"
proof -
  show "snd (binding_to_document encode s b) = s" using assms by (cases b) auto
  show "binding_from_document decode t (obj [(''id'', PStr k), (''value'', fst (binding_to_document encode s b))]) =
      Inr (KeyVal (PStr k) b, t)"
  proof (cases "is_ref b")
    case True
    then show ?thesis
      using ref_round_trip [OF True assms(2)] by (cases b) (simp_all add: binding_from_document_def doc_simps)
  next
    case False
    with assms obtain m where "b = BlockedOutput m" by (cases b) auto
    then show ?thesis
      by (cases m) (simp_all add: binding_from_document_def doc_simps make_blocked_def)
  qed
qed

lemma bindings_round_trip:
  assumes "codec_ok encode decode s t ps" and "\<forall>(_, b) \<in> set ps. is_output_binding b \<and> binding_ok b"
  shows "\<exists>t'. bindings_from_document decode t (fst (bindings_to_document encode s ps)) = Inr (str_pairs ps, t')"
  using assms
proof (induction ps arbitrary: s t)
  case (Cons p ps)
  obtain k b where p: "p = (k, b)" by fastforce
  show ?case
  proof (cases "\<exists>v. b = PresentOutput v")
    case True
    then obtain v where b: "b = PresentOutput v" by blast
    obtain i s' where e: "encode s v = (i, s')" by fastforce
    from Cons.prems(1) obtain t' where d: "decode t (PInt i) (PStr k) = Inr (v, t')" "codec_ok encode decode s' t' ps"
      by (auto simp: p b e split: sum.splits prod.splits)
    have "binding_from_document decode t (obj [(''id'', PStr k),
        (''value'', obj [(''kind'', PStr ''present''), (''valueIndex'', PInt i)])]) = Inr (KeyVal (PStr k) b, t')"
      by (simp add: binding_from_document_def doc_simps d(1) b make_present_def)
    with Cons.IH [OF d(2)] Cons.prems(2) show ?thesis
      by (auto simp: p b e case_prod_unfold Let_def)
  next
    case False
    with Cons.prems(2) binding_round_trip(1) [where b = b and encode = encode and s = s]
      binding_round_trip(2) [where b = b and encode = encode and s = s and decode = decode and t = t and k = k]
    have b: "snd (binding_to_document encode s b) = s"
      "binding_from_document decode t (obj [(''id'', PStr k), (''value'', fst (binding_to_document encode s b))]) =
        Inr (KeyVal (PStr k) b, t)" by (auto simp: p)
    have "codec_ok encode decode s t ps" using Cons.prems(1) False by (cases b) (auto simp: p)
    from Cons.IH [OF this] Cons.prems(2) b show ?thesis
      by (auto simp: p case_prod_unfold Let_def)
  qed
qed simp

lemma unit_round_trip:
  assumes "unit_ok u" and "codec_ok encode decode s t (case u of DirectReturn ps \<Rightarrow> ps | ExpandedReturn ex ps \<Rightarrow> ps)"
  shows "return_unit_from_document decode t (fst (return_unit_to_document encode s u)) = Inr u"
proof (cases u)
  case (DirectReturn ps)
  with assms have ok: "bindings_ok {} ps" "\<forall>(_, b) \<in> set ps. \<not> is_external b" "codec_ok encode decode s t ps"
    by simp_all
  then obtain t' where "bindings_from_document decode t (fst (bindings_to_document encode s ps)) = Inr (str_pairs ps, t')"
    using bindings_round_trip [of encode decode s t ps] by (auto simp: bindings_ok_def)
  moreover have "make_direct (TupleOf (str_pairs ps)) = Inr (DirectReturn ps)"
    using ok by (auto simp: make_direct_Inr bindings_ok_def list_all_iff)
  ultimately show ?thesis
    by (simp add: DirectReturn return_unit_from_document_def doc_simps case_prod_unfold Let_def)
next
  case (ExpandedReturn ex ps)
  let ?ns = "ex_nodes ex"
  from ExpandedReturn assms have ok: "expansion_shape ex" "\<forall>n \<in> set ?ns. local_node_ok n"
    "bindings_ok (ln_id ` set ?ns) ps" "codec_ok encode decode s t ps"
    "\<forall>n \<in> set ?ns. \<forall>(_, b) \<in> set (ln_inputs n). \<forall>out. b = CurrentOutputRef out \<longrightarrow> out \<in> set (present_ids ps)"
    by simp_all
  from ok(3,4) obtain t' where
    "bindings_from_document decode t (fst (bindings_to_document encode s ps)) = Inr (str_pairs ps, t')"
    using bindings_round_trip [of encode decode s t ps] by (auto simp: bindings_ok_def)
  moreover have "collect (map node_from_document (map node_to_document ?ns)) = Inr ?ns"
    unfolding collect_Inr using ok(2) node_round_trip by simp
  moreover have "make_expansion (Some (map Some ?ns)) (PStr (policy_name (ex_policy ex))) = Inr ex"
    using ok(1) by (simp add: make_expansion_Inr policy_of_name)
  moreover have "make_expanded (Some ex) (TupleOf (str_pairs ps)) = Inr (ExpandedReturn ex ps)"
    using ok(3,5) by (auto simp: make_expanded_Inr bindings_ok_def list_all_iff)
  ultimately show ?thesis
    by (simp add: ExpandedReturn return_unit_from_document_def doc_simps case_prod_unfold Let_def insert_commute)
qed

lemma cached_codec_ok:
  assumes "\<forall>(k, b) \<in> set ps. \<forall>v. b = PresentOutput v \<longrightarrow> map_of entry k = Some v"
    and "distinct (map fst ps)" and "set used \<inter> fst ` set ps = {}"
  shows "codec_ok cached_encode (cached_decode entry) (length used) used ps"
  using assms
proof (induction ps arbitrary: used)
  case (Cons p ps)
  obtain k b where p: "p = (k, b)" by fastforce
  show ?case
  proof (cases "\<exists>v. b = PresentOutput v")
    case True
    then obtain v where b: "b = PresentOutput v" by blast
    have "codec_ok cached_encode (cached_decode entry) (length (used @ [k])) (used @ [k]) ps"
      by (rule Cons.IH) (use Cons.prems in \<open>auto simp: p image_iff\<close>)
    moreover have "cached_decode entry used (PInt (int (length used))) (PStr k) = Inr (v, used @ [k])"
      using Cons.prems by (auto simp: p b cached_decode_def)
    moreover have "cached_encode (length used) v = (int (length used), Suc (length used))"
      by (simp add: cached_encode_def)
    ultimately show ?thesis by (simp add: p b)
  next
    case False
    have "codec_ok cached_encode (cached_decode entry) (length used) used ps"
      by (rule Cons.IH) (use Cons.prems in \<open>auto simp: p\<close>)
    with False show ?thesis by (cases b) (auto simp: p)
  qed
qed simp

section \<open>Properties\<close>

text \<open>An example: one added node that reads a present output and a literal.\<close>

definition example_value :: val where
  "example_value = Value ''core.int'' ''f'' [] 0 Opaque []"

definition example_node :: local_node where
  "example_node = \<lparr>ln_id = ''n'', ln_type = ''Add'',
     ln_inputs = [(''a'', CurrentOutputRef ''x''), (''b'', LiteralInput (LObject [(''k'', LTuple [LInt 1, LNull])]))],
     ln_parent = None, ln_display = Some CurrentNodeRef, ln_members = [(''m'', [''p'', ''q''])],
     ln_variants = []\<rparr>"

definition example_unit :: return_unit where
  "example_unit = ExpandedReturn \<lparr>ex_nodes = [example_node], ex_policy = ReusePolicy\<rparr>
     [(''out'', LocalOutputRef ''n'' (OutIndex 0)), (''x'', PresentOutput example_value)]"

definition example_document :: pyobj where
  "example_document = fst (return_unit_to_document cached_encode 0 example_unit)"

lemma example_parses:
  "return_unit_from_document (cached_decode [(''x'', example_value)]) [] example_document = Inr example_unit"
  by code_simp

text \<open>
  A literal is accepted exactly when it is JSON a message can carry - integers of 64 bits,
  finite floats, objects with at most 4096 unique sorted keys - with at most 16384 items in all and
  at most 32 levels of nesting; it is then kept as it is.
\<close>
theorem literals_accepted_exactly:
  "check_literal v = Inr v' \<longleftrightarrow>
     lit_clean v \<and> lit_depth v \<le> 32 \<and> lit_items v \<le> 16384 \<and> v' = v"
  using check_literal_iff [of v v'] by (auto simp: max_literal_depth_def max_literal_items_def)

text \<open>
  An expansion is accepted exactly when its cache policy is known and its nodes are a nonempty
  tuple of at most 4096, in the order of their unique ids, whose local references stay inside and
  form no cycle; the search for cycles always answers.
\<close>
theorem expansions_accepted_exactly:
  "make_expansion nodes pol = Inr ex \<longleftrightarrow>
     policy_of pol = Some (ex_policy ex) \<and> nodes = Some (map Some (ex_nodes ex)) \<and>
     ex_nodes ex \<noteq> [] \<and> length (ex_nodes ex) \<le> 4096 \<and> uniquely_sorted (map ln_id (ex_nodes ex)) \<and>
     (\<forall>n \<in> set (ex_nodes ex). set (local_refs n) \<subseteq> ln_id ` set (ex_nodes ex)) \<and>
     acyclic {(ln_id n, t) |n t. n \<in> set (ex_nodes ex) \<and> t \<in> set (local_refs n)}"
  using make_expansion_Inr [of nodes pol ex]
  by (simp add: expansion_shape_def max_count_def ref_rel_def)

theorem expansions_accepted_exactly_witness:
  "make_expansion (Some [Some example_node]) (PStr ''reuse'') =
     Inr \<lparr>ex_nodes = [example_node], ex_policy = ReusePolicy\<rparr>"
  by (subst expansions_accepted_exactly)
    (auto simp: policy_of_def example_node_def uniquely_sorted_def local_refs_def acyclic_def)

text \<open>
  C37: Whatever document is read, a return unit that comes out of it is well-formed: names and
  indexes are valid, bindings and inputs are of the right kind, its expansion is acyclic and closed,
  and every reference to a present or an added output names one that exists.
\<close>
theorem documents_parse_wellformed:
  assumes "return_unit_from_document decode t raw = Inr u"
  shows "unit_ok u"
  using return_unit_from_document_ok [OF assms] .

theorem documents_parse_wellformed_witness: "unit_ok example_unit"
  using documents_parse_wellformed [OF example_parses] .

text \<open>
  C36: The persistent cache reads back what it wrote. A well-formed return whose present outputs
  are the outputs of the cached entry is written as a document that reads as the same return.
\<close>
theorem return_units_round_trip:
  assumes "unit_ok (ExpandedReturn ex ps)"
    and "\<forall>(k, b) \<in> set ps. \<forall>v. b = PresentOutput v \<longrightarrow> map_of entry k = Some v"
  shows "return_unit_from_document (cached_decode entry) []
    (fst (return_unit_to_document cached_encode 0 (ExpandedReturn ex ps))) = Inr (ExpandedReturn ex ps)"
proof (rule unit_round_trip [OF assms(1)])
  have "distinct (map fst ps)" using assms(1) by (auto simp: bindings_ok_def pairs_ok_def uniquely_sorted_def)
  with cached_codec_ok [of ps entry "[]"] assms(2)
  show "codec_ok cached_encode (cached_decode entry) 0 []
      (case ExpandedReturn ex ps of DirectReturn ps \<Rightarrow> ps | ExpandedReturn ex ps \<Rightarrow> ps)" by simp
qed

theorem return_units_round_trip_witness:
  "return_unit_from_document (cached_decode [(''x'', example_value)]) [] example_document = Inr example_unit"
  unfolding example_document_def example_unit_def
proof (rule return_units_round_trip)
  show "unit_ok (ExpandedReturn \<lparr>ex_nodes = [example_node], ex_policy = ReusePolicy\<rparr>
      [(''out'', LocalOutputRef ''n'' (OutIndex 0)), (''x'', PresentOutput example_value)])"
    using return_unit_from_document_ok [OF example_parses] by (simp only: example_unit_def)
qed auto

end
