(* ===== verification/Streams.thy ===== *)
theory Streams
  imports Values
begin

text \<open>
  Media streams (\<^verbatim>\<open>dinkster_values/streams.py\<close>): leases over one source of frames or samples that
  reads ranges. The streams of a source are handles; closing runs as the sections of
  \<^verbatim>\<open>_release_source\<close> between its locks, and any number of closers may be under way at once.
\<close>

section \<open>Definitions\<close>

record media_chunk =
  mc_start :: int
  mc_stop :: int
  mc_total :: int

definition make_chunk :: "pyobj \<Rightarrow> pyobj \<Rightarrow> int \<Rightarrow> string + media_chunk" where
  "make_chunk start stop n =
     (case start of
        PInt a \<Rightarrow>
          (case stop of
             PInt b \<Rightarrow>
               if 0 \<le> a \<and> a < b \<and> b \<le> n then Inr \<lparr>mc_start = a, mc_stop = b, mc_total = n\<rparr>
               else Inl ''chunk range must be nonempty and within the declared total''
           | _ \<Rightarrow> Inl ''chunk ranges must be integers'')
      | _ \<Rightarrow> Inl ''chunk ranges must be integers'')"

text \<open>What does not change over a stream's life; \<open>sp_close\<close> says whether a close callback was given.\<close>

record stream_spec =
  sp_total :: int
  sp_chunk_size :: int
  sp_identity :: string
  sp_sample_rate :: "int option"
  sp_asset_refs :: "pyobj list"
  sp_close :: bool

record media_source =
  ms_read :: bool
  ms_close :: bool
  ms_owners :: int
  ms_callbacks :: "nat list"
  ms_released :: bool

record stream_handle =
  sh_type :: string
  sh_closed :: bool

datatype stream_exn = CloseFailed | CallbackFailed nat

text \<open>Where a running \<^verbatim>\<open>_release_source\<close> stands, with the errors it has collected.\<close>

datatype release_phase =
    Decrement
  | CleanUp
  | MarkReleased "stream_exn list"
  | RunCallbacks "nat list" "stream_exn list"

text \<open>The trace: callbacks registered and run, the source closed, ranges read, errors raised.\<close>

datatype stream_event = Registered nat | Ran nat | SourceClosed | RangeRead int int | Raised stream_exn

record streams =
  st_source :: media_source
  st_handles :: "stream_handle list"
  st_running :: "release_phase list"
  st_log :: "stream_event list"

fun atom_type :: "pyobj \<Rightarrow> string option" where
  "atom_type (PStr s) = (if s = [] \<or> CHR ''<'' \<in> set s \<or> CHR ''>'' \<in> set s then None else Some s)"
| "atom_type _ = None"

text \<open>The constructor; \<open>readable\<close> and \<open>closable\<close> say that the callbacks are callable.\<close>

definition new_stream :: "pyobj \<Rightarrow> pyobj \<Rightarrow> pyobj \<Rightarrow> bool \<Rightarrow> pyobj \<Rightarrow> pyobj \<Rightarrow> pyobj list \<Rightarrow> bool option \<Rightarrow>
    string + stream_spec \<times> streams" where
  "new_stream element_type tot chunk_size readable identity sample_rate asset_refs close =
     (case tot of
        PInt n \<Rightarrow>
          if n < 0 then Inl ''stream total must be a nonnegative integer''
          else (case chunk_size of
            PInt c \<Rightarrow>
              if c < 1 then Inl ''stream chunk_size must be a positive integer''
              else (case (atom_type element_type, identity) of
                (Some t, PStr i) \<Rightarrow>
                  if i = [] then Inl ''stream requires an atom type and source identity''
                  else if \<not> readable \<or> close = Some False then Inl ''stream source operations must be callable''
                  else
                    (let ok = (\<lambda>rate.
                       (\<lparr>sp_total = n, sp_chunk_size = c, sp_identity = i, sp_sample_rate = rate,
                         sp_asset_refs = asset_refs, sp_close = (close \<noteq> None)\<rparr>,
                        \<lparr>st_source = \<lparr>ms_read = True, ms_close = (close \<noteq> None), ms_owners = 1,
                           ms_callbacks = [], ms_released = False\<rparr>,
                         st_handles = [\<lparr>sh_type = t, sh_closed = False\<rparr>], st_running = [], st_log = []\<rparr>))
                     in case sample_rate of
                       PNone \<Rightarrow> Inr (ok None)
                     | PInt r \<Rightarrow>
                         if r < 1 then Inl ''sample_rate must be a positive integer'' else Inr (ok (Some r))
                     | _ \<Rightarrow> Inl ''sample_rate must be a positive integer'')
              | _ \<Rightarrow> Inl ''stream requires an atom type and source identity'')
          | _ \<Rightarrow> Inl ''stream chunk_size must be a positive integer'')
      | _ \<Rightarrow> Inl ''stream total must be a nonnegative integer'')"

text \<open>Operations on the handle \<open>h\<close>.\<close>

definition retain_stream :: "nat \<Rightarrow> pyobj \<Rightarrow> streams \<Rightarrow> streams \<times> (string + nat)" where
  "retain_stream h element_type s =
     (let hd = st_handles s ! h in
      case (if element_type = PNone then atom_type (PStr (sh_type hd)) else atom_type element_type) of
        None \<Rightarrow> (s, Inl ''retained stream requires an atom type'')
      | Some t \<Rightarrow>
          if sh_closed hd then (s, Inl ''stream is closed'')
          else
            (s\<lparr>st_source := (st_source s)\<lparr>ms_owners := ms_owners (st_source s) + 1\<rparr>,
               st_handles := st_handles s @ [\<lparr>sh_type = t, sh_closed = False\<rparr>]\<rparr>,
             Inr (length (st_handles s))))"

definition read_stream :: "stream_spec \<Rightarrow> nat \<Rightarrow> pyobj \<Rightarrow> pyobj \<Rightarrow> streams \<Rightarrow> streams \<times> (string + media_chunk)" where
  "read_stream sp h start stop s =
     attempt s (make_chunk start stop (sp_total sp)) (\<lambda>chunk.
       if sp_chunk_size sp < mc_stop chunk - mc_start chunk then (s, Inl ''range exceeds stream chunk_size'')
       else if sh_closed (st_handles s ! h) then (s, Inl ''stream is closed'')
       else if \<not> ms_read (st_source s) then (s, Inl ''stream is closed'')
       else (s\<lparr>st_log := st_log s @ [RangeRead (mc_start chunk) (mc_stop chunk)]\<rparr>, Inr chunk))"

text \<open>\<open>range(start, end, step)\<close> with the ranges read at its offsets.\<close>

function chunk_ranges :: "int \<Rightarrow> int \<Rightarrow> int \<Rightarrow> (int \<times> int) list" where
  "chunk_ranges step offset stop =
     (if offset < stop \<and> 0 < step
      then (offset, min (offset + step) stop) # chunk_ranges step (offset + step) stop else [])"
  by pat_completeness auto
termination by (relation "measure (\<lambda>(_, offset, stop). nat (stop - offset))") auto

declare chunk_ranges.simps [simp del]

fun read_ranges :: "stream_spec \<Rightarrow> nat \<Rightarrow> (int \<times> int) list \<Rightarrow> streams \<Rightarrow> streams \<times> (string + media_chunk list)" where
  "read_ranges sp h [] s = (s, Inr [])"
| "read_ranges sp h ((a, b) # ranges) s =
     (case read_stream sp h (PInt a) (PInt b) s of
        (s', Inl e) \<Rightarrow> (s', Inl e)
      | (s', Inr chunk) \<Rightarrow>
          (case read_ranges sp h ranges s' of
             (s'', Inl e) \<Rightarrow> (s'', Inl e)
           | (s'', Inr chunks) \<Rightarrow> (s'', Inr (chunk # chunks))))"

definition iter_chunks :: "stream_spec \<Rightarrow> nat \<Rightarrow> pyobj \<Rightarrow> pyobj \<Rightarrow> streams \<Rightarrow>
    streams \<times> (string + media_chunk list)" where
  "iter_chunks sp h start stop s =
     (case (start, if stop = PNone then PInt (sp_total sp) else stop) of
        (PInt a, PInt b) \<Rightarrow>
          if 0 \<le> a \<and> a \<le> b \<and> b \<le> sp_total sp then read_ranges sp h (chunk_ranges (sp_chunk_size sp) a b) s
          else (s, Inl ''iteration range is outside the declared total'')
      | _ \<Rightarrow> (s, Inl ''iteration range is outside the declared total''))"

definition on_close :: "nat \<Rightarrow> streams \<Rightarrow> streams" where
  "on_close cb s =
     (if \<not> ms_released (st_source s) then
        s\<lparr>st_source := (st_source s)\<lparr>ms_callbacks := ms_callbacks (st_source s) @ [cb]\<rparr>,
          st_log := st_log s @ [Registered cb]\<rparr>
      else s\<lparr>st_log := st_log s @ [Registered cb, Ran cb]\<rparr>)"

definition begin_close :: "nat \<Rightarrow> streams \<Rightarrow> streams" where
  "begin_close h s =
     (if sh_closed (st_handles s ! h) then s
      else s\<lparr>st_handles := (st_handles s)[h := (st_handles s ! h)\<lparr>sh_closed := True\<rparr>],
             st_running := st_running s @ [Decrement]\<rparr>)"

text \<open>
  One section of \<^verbatim>\<open>_release_source\<close>: the source, the events and the next phase. \<open>fails\<close> says
  which of the callbacks raise.
\<close>

fun advance_release :: "(stream_exn \<Rightarrow> bool) \<Rightarrow> media_source \<Rightarrow> release_phase \<Rightarrow>
    media_source \<times> stream_event list \<times> release_phase option" where
  "advance_release fails src Decrement =
     (let src' = src\<lparr>ms_owners := ms_owners src - 1\<rparr> in
      if ms_owners src' \<noteq> 0 then (src', [], None) else (src', [], Some CleanUp))"
| "advance_release fails src CleanUp =
     (src\<lparr>ms_read := False, ms_close := False\<rparr>,
      if ms_close src then [SourceClosed] else [],
      Some (MarkReleased (if ms_close src \<and> fails CloseFailed then [CloseFailed] else [])))"
| "advance_release fails src (MarkReleased errors) =
     (src\<lparr>ms_released := True, ms_callbacks := []\<rparr>, [], Some (RunCallbacks (ms_callbacks src) errors))"
| "advance_release fails src (RunCallbacks (cb # cbs) errors) =
     (src, [Ran cb],
      Some (RunCallbacks cbs (if fails (CallbackFailed cb) then errors @ [CallbackFailed cb] else errors)))"
| "advance_release fails src (RunCallbacks [] errors) =
     (src, case errors of [] \<Rightarrow> [] | e # _ \<Rightarrow> [Raised e], None)"

text \<open>Everything the holders of handles may do, in any order.\<close>

inductive stream_step :: "(stream_exn \<Rightarrow> bool) \<Rightarrow> stream_spec \<Rightarrow> streams \<Rightarrow> streams \<Rightarrow> bool"
  for fails sp where
  Retain: "h < length (st_handles s) \<Longrightarrow> stream_step fails sp s (fst (retain_stream h t s))"
| Read: "h < length (st_handles s) \<Longrightarrow> stream_step fails sp s (fst (read_stream sp h a b s))"
| OnClose: "stream_step fails sp s (on_close cb s)"
| BeginClose: "h < length (st_handles s) \<Longrightarrow> stream_step fails sp s (begin_close h s)"
| Advance: "st_running s = before @ p # after \<Longrightarrow>
    advance_release fails (st_source s) p = (src, events, next_phase) \<Longrightarrow>
    stream_step fails sp s
      (s\<lparr>st_source := src, st_log := st_log s @ events,
         st_running := before @ (case next_phase of None \<Rightarrow> [] | Some q \<Rightarrow> [q]) @ after\<rparr>)"

inductive stream_reachable :: "(stream_exn \<Rightarrow> bool) \<Rightarrow> stream_spec \<Rightarrow> streams \<Rightarrow> bool" for fails sp where
  Start: "new_stream t tot chunk_size readable identity rate refs close = Inr (sp, s) \<Longrightarrow>
    stream_reachable fails sp s"
| Step: "stream_reachable fails sp s \<Longrightarrow> stream_step fails sp s s' \<Longrightarrow> stream_reachable fails sp s'"

text \<open>The envelope of a stream.\<close>

definition optional_int :: "int option \<Rightarrow> pyobj" where
  "optional_int r = (case r of None \<Rightarrow> PNone | Some i \<Rightarrow> PInt i)"

definition make_stream_value :: "(string list \<Rightarrow> string) \<Rightarrow> (int \<Rightarrow> string) \<Rightarrow> nat \<Rightarrow> stream_spec \<Rightarrow> nat \<Rightarrow> pyobj \<Rightarrow>
    streams \<Rightarrow> streams \<times> (string + val)" where
  "make_stream_value hash str fresh sp h element_type s =
     (let (s', r) = (if element_type = PNone then (s, Inr h) else retain_stream h element_type s) in
      attempt s' r (\<lambda>k.
        (let t = sh_type (st_handles s' ! k);
             meta = [(''total'', PInt (sp_total sp)), (''chunk_size'', PInt (sp_chunk_size sp)),
                     (''sample_rate'', optional_int (sp_sample_rate sp)), (''identity'', PStr (sp_identity sp))] @
                    (if sp_asset_refs sp \<noteq> [] then [(''asset_refs'', PList (sp_asset_refs sp))] else []) in
         (s', Inr (Value (stream_type_id t)
                (hash [t, sp_identity sp, str (sp_total sp),
                       case sp_sample_rate sp of None \<Rightarrow> ''None'' | Some i \<Rightarrow> str i])
                meta fresh Opaque [])))))"

section \<open>Ranges\<close>

lemma chunk_ranges_cover:
  assumes "0 < step" and "a \<le> b"
  shows "concat (map (\<lambda>(x, y). [x..y - 1]) (chunk_ranges step a b)) = [a..b - 1]"
    and "(x, y) \<in> set (chunk_ranges step a b) \<Longrightarrow> a \<le> x \<and> x < y \<and> y - x \<le> step \<and> y \<le> b"
proof -
  have "concat (map (\<lambda>(x, y). [x..y - 1]) (chunk_ranges step a b)) = [a..b - 1] \<and>
      (\<forall>(x, y) \<in> set (chunk_ranges step a b). a \<le> x \<and> x < y \<and> y - x \<le> step \<and> y \<le> b)"
    using assms
  proof (induction step a b rule: chunk_ranges.induct)
    case (1 step a b)
    show ?case
    proof (cases "a < b")
      case False
      with 1 show ?thesis by (simp add: chunk_ranges.simps)
    next
      case True
      show ?thesis
      proof (cases "a + step \<le> b")
        case le: True
        from 1(1) [OF conjI [OF True 1(2)] 1(2) le] have
          IH: "concat (map (\<lambda>(x, y). [x..y - 1]) (chunk_ranges step (a + step) b)) = [a + step..b - 1]"
          "\<forall>(x, y) \<in> set (chunk_ranges step (a + step) b). a + step \<le> x \<and> x < y \<and> y - x \<le> step \<and> y \<le> b"
          by simp_all
        have "[a..b - 1] = [a..a + step - 1] @ [a + step..b - 1]"
          using upto_split2 [of a "a + step - 1" "b - 1"] le 1(2) by simp
        with IH show ?thesis
          using True 1(2) le by (subst (1 2) chunk_ranges.simps) fastforce
      next
        case False
        then have "chunk_ranges step (a + step) b = []" by (simp add: chunk_ranges.simps)
        with False show ?thesis
          using True 1(2) by (subst (1 2) chunk_ranges.simps) simp
      qed
    qed
  qed
  then show "concat (map (\<lambda>(x, y). [x..y - 1]) (chunk_ranges step a b)) = [a..b - 1]"
    and "(x, y) \<in> set (chunk_ranges step a b) \<Longrightarrow> a \<le> x \<and> x < y \<and> y - x \<le> step \<and> y \<le> b" by auto
qed

section \<open>The invariant\<close>

definition open_handles :: "streams \<Rightarrow> stream_handle list" where
  "open_handles s = filter (Not \<circ> sh_closed) (st_handles s)"

definition tails :: "release_phase list \<Rightarrow> release_phase list" where
  "tails ps = filter (\<lambda>p. p \<noteq> Decrement) ps"

definition decrements :: "release_phase list \<Rightarrow> nat" where
  "decrements ps = length (filter (\<lambda>p. p = Decrement) ps)"

definition source_fresh :: "stream_spec \<Rightarrow> media_source \<Rightarrow> stream_event list \<Rightarrow> bool" where
  "source_fresh sp src tr \<longleftrightarrow> ms_read src \<and> ms_close src = sp_close sp \<and> \<not> ms_released src \<and>
     SourceClosed \<notin> set tr"

definition source_gone :: "stream_spec \<Rightarrow> media_source \<Rightarrow> stream_event list \<Rightarrow> bool" where
  "source_gone sp src tr \<longleftrightarrow> \<not> ms_read src \<and> \<not> ms_close src \<and>
     count_list tr SourceClosed = (if sp_close sp then 1 else 0)"

text \<open>At most one closer is past the decrement, and the source is as its phase says.\<close>

fun stage :: "stream_spec \<Rightarrow> media_source \<Rightarrow> stream_event list \<Rightarrow> release_phase list \<Rightarrow> bool" where
  "stage sp src tr [] \<longleftrightarrow>
     0 < ms_owners src \<and> source_fresh sp src tr \<or>
     ms_owners src = 0 \<and> source_gone sp src tr \<and> ms_released src \<and> ms_callbacks src = []"
| "stage sp src tr [CleanUp] \<longleftrightarrow> ms_owners src = 0 \<and> source_fresh sp src tr"
| "stage sp src tr [MarkReleased _] \<longleftrightarrow> ms_owners src = 0 \<and> source_gone sp src tr \<and> \<not> ms_released src"
| "stage sp src tr [RunCallbacks _ _] \<longleftrightarrow>
     ms_owners src = 0 \<and> source_gone sp src tr \<and> ms_released src \<and> ms_callbacks src = []"
| "stage sp src tr _ \<longleftrightarrow> False"

fun phase_callbacks :: "release_phase \<Rightarrow> nat list" where
  "phase_callbacks (RunCallbacks cbs _) = cbs"
| "phase_callbacks _ = []"

definition callbacks_ok :: "streams \<Rightarrow> bool" where
  "callbacks_ok s \<longleftrightarrow> (\<forall>c. count_list (st_log s) (Registered c) =
     count_list (ms_callbacks (st_source s)) c + count_list (concat (map phase_callbacks (st_running s))) c +
     count_list (st_log s) (Ran c))"

fun is_read :: "stream_event \<Rightarrow> bool" where
  "is_read (RangeRead _ _) = True"
| "is_read _ = False"

definition no_late_read :: "streams \<Rightarrow> bool" where
  "no_late_read s \<longleftrightarrow> sorted_wrt (\<lambda>e f. e = SourceClosed \<longrightarrow> \<not> is_read f) (st_log s)"

definition streams_ok :: "stream_spec \<Rightarrow> streams \<Rightarrow> bool" where
  "streams_ok sp s \<longleftrightarrow>
     ms_owners (st_source s) = int (length (open_handles s)) + int (decrements (st_running s)) \<and>
     stage sp (st_source s) (st_log s) (tails (st_running s)) \<and> callbacks_ok s \<and> no_late_read s \<and> 0 < sp_chunk_size sp"

lemma tails_append: "tails (ps @ qs) = tails ps @ tails qs"
  by (simp add: tails_def)

lemma decrements_append: "decrements (ps @ qs) = decrements ps + decrements qs"
  by (simp add: decrements_def)

lemma tails_single: "p \<noteq> Decrement \<Longrightarrow> tails [p] = [p] \<and> decrements [p] = 0"
  by (simp add: tails_def decrements_def)

lemma tails_Decrement: "tails [Decrement] = [] \<and> decrements [Decrement] = 1"
  by (simp add: tails_def decrements_def)

lemma count_list_append: "count_list (xs @ ys) a = count_list xs a + count_list ys a"
  by (induction xs) auto

lemma new_stream_ok:
  assumes "new_stream t tot chunk_size readable identity rate refs close = Inr (sp, s)"
  shows "streams_ok sp s"
  using assms
  by (auto simp: new_stream_def streams_ok_def source_fresh_def callbacks_ok_def no_late_read_def
      open_handles_def tails_def decrements_def split: pyobj.splits if_splits option.splits)

lemma stage_owner:
  assumes "stage sp src tr ps" and "0 < ms_owners src"
  shows "ps = [] \<and> source_fresh sp src tr"
  using assms by (cases "(sp, src, tr, ps)" rule: stage.cases) auto

lemma stage_read:
  assumes "stage sp src tr ps" and "ms_read src"
  shows "source_fresh sp src tr"
  using assms by (cases "(sp, src, tr, ps)" rule: stage.cases) (auto simp: source_gone_def)

lemma stage_single:
  assumes "stage sp src tr (ps @ [p] @ qs)"
  shows "ps = [] \<and> qs = []"
  using assms by (cases "(sp, src, tr, ps @ [p] @ qs)" rule: stage.cases)
    (auto simp: append_eq_Cons_conv Cons_eq_append_conv)

text \<open>Events other than the closing of the source do not matter to the stage.\<close>

lemma stage_log:
  assumes "SourceClosed \<notin> set es"
  shows "stage sp src (tr @ es) ps \<longleftrightarrow> stage sp src tr ps"
proof -
  have "count_list es SourceClosed = 0" using assms by (simp add: count_list_0_iff)
  with assms have "source_fresh sp src (tr @ es) = source_fresh sp src tr"
    "source_gone sp src (tr @ es) = source_gone sp src tr"
    by (auto simp: source_fresh_def source_gone_def count_list_append)
  then show ?thesis by (cases "(sp, src, tr, ps)" rule: stage.cases) auto
qed

lemma open_owner:
  assumes "streams_ok sp s" and "h < length (st_handles s)" and "\<not> sh_closed (st_handles s ! h)"
  shows "0 < ms_owners (st_source s)"
proof -
  have "st_handles s ! h \<in> set (open_handles s)" using assms(2,3) by (simp add: open_handles_def)
  then have "0 < length (open_handles s)" by (rule length_pos_if_in_set)
  moreover have "ms_owners (st_source s) = int (length (open_handles s)) + int (decrements (st_running s))"
    using assms(1) by (simp add: streams_ok_def)
  ultimately show ?thesis by linarith
qed

subsection \<open>Every step keeps it\<close>

lemma retain_ok:
  assumes "streams_ok sp s" and "h < length (st_handles s)"
  shows "streams_ok sp (fst (retain_stream h t s))"
proof (cases "fst (retain_stream h t s) = s")
  case False
  then obtain u where open_: "\<not> sh_closed (st_handles s ! h)"
    and r: "fst (retain_stream h t s) = s\<lparr>st_source := (st_source s)\<lparr>ms_owners := ms_owners (st_source s) + 1\<rparr>,
      st_handles := st_handles s @ [\<lparr>sh_type = u, sh_closed = False\<rparr>]\<rparr>"
    by (auto simp: retain_stream_def Let_def split: option.splits if_splits)
  have pos: "0 < ms_owners (st_source s)" using open_owner [OF assms open_] .
  from assms(1) have "stage sp (st_source s) (st_log s) (tails (st_running s))" by (simp add: streams_ok_def)
  from stage_owner [OF this pos] pos assms(1) show ?thesis
    unfolding r streams_ok_def
    by (simp add: source_fresh_def callbacks_ok_def no_late_read_def open_handles_def)
qed (use assms in simp)

lemma read_stream_cases:
  obtains "fst (read_stream sp h a b s) = s"
  | c where "read_stream sp h a b s = (s\<lparr>st_log := st_log s @ [RangeRead (mc_start c) (mc_stop c)]\<rparr>, Inr c)"
    "ms_read (st_source s)"
proof (cases "make_chunk a b (sp_total sp)")
  case (Inl e)
  then show ?thesis using that(1) by (simp add: read_stream_def)
next
  case (Inr c)
  show ?thesis
  proof (cases "sp_chunk_size sp < mc_stop c - mc_start c \<or> sh_closed (st_handles s ! h) \<or> \<not> ms_read (st_source s)")
    case True
    with Inr that(1) show ?thesis by (auto simp: read_stream_def)
  next
    case False
    with Inr that(2) [of c] show ?thesis by (simp add: read_stream_def)
  qed
qed

lemma read_ok:
  assumes "streams_ok sp s"
  shows "streams_ok sp (fst (read_stream sp h a b s))"
proof (cases rule: read_stream_cases [of sp h a b s])
  case (2 c)
  have fresh: "source_fresh sp (st_source s) (st_log s)"
    using assms 2(2) stage_read by (auto simp: streams_ok_def)
  have log: "no_late_read (s\<lparr>st_log := st_log s @ [RangeRead (mc_start c) (mc_stop c)]\<rparr>)"
    using assms fresh by (auto simp: streams_ok_def no_late_read_def sorted_wrt_append source_fresh_def)
  show ?thesis
    using assms log unfolding 2(1) streams_ok_def
    by (simp add: stage_log callbacks_ok_def open_handles_def count_list_append)
qed (use assms in simp)

lemma on_close_ok:
  assumes "streams_ok sp s"
  shows "streams_ok sp (on_close cb s)"
proof -
  have "no_late_read (on_close cb s)"
    using assms by (auto simp: streams_ok_def no_late_read_def on_close_def sorted_wrt_append)
  moreover have "callbacks_ok (on_close cb s)"
    using assms by (auto simp: streams_ok_def callbacks_ok_def on_close_def count_list_append)
  moreover have "stage sp (st_source (on_close cb s)) (st_log (on_close cb s)) (tails (st_running (on_close cb s)))"
  proof -
    have upd: "\<not> ms_released src \<Longrightarrow> stage sp (src\<lparr>ms_callbacks := cbs\<rparr>) tr ps \<longleftrightarrow> stage sp src tr ps" for src cbs tr ps
      by (cases "(sp, src, tr, ps)" rule: stage.cases) (auto simp: source_fresh_def source_gone_def)
    show ?thesis using assms by (simp add: streams_ok_def on_close_def stage_log upd)
  qed
  ultimately show ?thesis
    using assms unfolding streams_ok_def by (simp add: on_close_def open_handles_def)
qed

lemma closing_handle:
  assumes "h < length hs" and "\<not> sh_closed (hs ! h)"
  shows "Suc (length (filter (Not \<circ> sh_closed) (hs[h := (hs ! h)\<lparr>sh_closed := True\<rparr>]))) =
    length (filter (Not \<circ> sh_closed) hs)"
  using assms
proof (induction hs arbitrary: h)
  case (Cons a hs)
  then show ?case by (cases h) auto
qed simp

lemma begin_close_ok:
  assumes "streams_ok sp s" and "h < length (st_handles s)"
  shows "streams_ok sp (begin_close h s)"
proof (cases "sh_closed (st_handles s ! h)")
  case False
  with assms(1) closing_handle [OF assms(2)] show ?thesis
    by (simp add: streams_ok_def begin_close_def open_handles_def decrements_append tails_Decrement
        tails_append callbacks_ok_def no_late_read_def)
qed (use assms in \<open>simp add: begin_close_def\<close>)

lemma advance_ok:
  assumes ok: "streams_ok sp s" and run: "st_running s = before @ p # after"
    and adv: "advance_release fails (st_source s) p = (src, events, next_phase)"
  shows "streams_ok sp (s\<lparr>st_source := src, st_log := st_log s @ events,
    st_running := before @ (case next_phase of None \<Rightarrow> [] | Some q \<Rightarrow> [q]) @ after\<rparr>)"
proof (cases "p = Decrement")
  case True
  have dec: "decrements (st_running s) = Suc (decrements before + decrements after)"
    and t: "tails (st_running s) = tails before @ tails after"
    using True by (simp_all add: run decrements_def tails_def)
  from ok dec have pos: "0 < ms_owners (st_source s)"
    and st: "stage sp (st_source s) (st_log s) (tails before @ tails after)"
    and own: "ms_owners (st_source s) = int (length (open_handles s)) + 1 + int (decrements before) + int (decrements after)"
    and cb: "callbacks_ok s" "no_late_read s" "0 < sp_chunk_size sp"
    by (simp_all add: streams_ok_def t)
  from stage_owner [OF st pos] have f: "tails before = []" "tails after = []"
    "source_fresh sp (st_source s) (st_log s)" by simp_all
  show ?thesis
  proof (cases "ms_owners (st_source s) = 1")
    case one: True
    with adv True have a: "src = (st_source s)\<lparr>ms_owners := 0\<rparr>" "events = []" "next_phase = Some CleanUp"
      by (simp_all add: Let_def split: if_splits)
    show ?thesis
      using f own one cb unfolding a streams_ok_def
      by (simp add: tails_append decrements_append tails_single [of CleanUp] callbacks_ok_def run True
          open_handles_def source_fresh_def tails_def decrements_def no_late_read_def)
  next
    case more: False
    with adv True have a: "src = (st_source s)\<lparr>ms_owners := ms_owners (st_source s) - 1\<rparr>" "events = []" "next_phase = None"
      by (simp_all add: Let_def split: if_splits)
    show ?thesis
      using f own more pos cb unfolding a streams_ok_def
      by (simp add: tails_append decrements_append callbacks_ok_def run True open_handles_def source_fresh_def
          no_late_read_def)
  qed
next
  case False
  have "tails (st_running s) = tails before @ [p] @ tails after"
    using False by (simp add: run tails_def)
  with ok have st: "stage sp (st_source s) (st_log s) (tails before @ [p] @ tails after)"
    by (simp add: streams_ok_def)
  from stage_single [OF this] have one: "tails before = []" "tails after = []" by simp_all
  with st have st: "stage sp (st_source s) (st_log s) [p]" by simp
  have dec: "decrements (st_running s) = decrements before + decrements after"
    using False by (simp add: run decrements_def)
  from ok have rest: "ms_owners (st_source s) = int (length (open_handles s)) + int (decrements before) + int (decrements after)"
    "callbacks_ok s" "no_late_read s" "0 < sp_chunk_size sp" by (simp_all add: streams_ok_def dec)
  note defs = streams_ok_def source_fresh_def source_gone_def callbacks_ok_def no_late_read_def
    open_handles_def run decrements_append tails_append tails_single count_list_append sorted_wrt_append
  show ?thesis
  proof (cases p)
    case (RunCallbacks cbs errs)
    with adv st one rest show ?thesis
      by (cases cbs) (auto simp: defs split: list.splits)
  qed (use adv st one rest False in \<open>auto simp: defs\<close>)
qed

lemma step_ok: "stream_step fails sp s s' \<Longrightarrow> streams_ok sp s \<Longrightarrow> streams_ok sp s'"
  by (induction rule: stream_step.induct)
    (auto intro: retain_ok read_ok on_close_ok begin_close_ok advance_ok)

lemma reachable_ok: "stream_reachable fails sp s \<Longrightarrow> streams_ok sp s"
  by (induction rule: stream_reachable.induct) (auto intro: new_stream_ok step_ok)

lemma read_ranges_open:
  assumes "ms_read (st_source s)" and "\<not> sh_closed (st_handles s ! h)"
    and "\<forall>(x, y) \<in> set rs. 0 \<le> x \<and> x < y \<and> y \<le> sp_total sp \<and> y - x \<le> sp_chunk_size sp"
  shows "read_ranges sp h rs s =
    (s\<lparr>st_log := st_log s @ map (\<lambda>(x, y). RangeRead x y) rs\<rparr>,
     Inr (map (\<lambda>(x, y). \<lparr>mc_start = x, mc_stop = y, mc_total = sp_total sp\<rparr>) rs))"
  using assms
proof (induction rs arbitrary: s)
  case (Cons p rs)
  obtain x y where p: "p = (x, y)" by fastforce
  have "read_stream sp h (PInt x) (PInt y) s =
      (s\<lparr>st_log := st_log s @ [RangeRead x y]\<rparr>, Inr \<lparr>mc_start = x, mc_stop = y, mc_total = sp_total sp\<rparr>)"
    using Cons.prems by (simp add: read_stream_def make_chunk_def p)
  with Cons.IH [of "s\<lparr>st_log := st_log s @ [RangeRead x y]\<rparr>"] Cons.prems show ?case by (simp add: p)
qed simp

section \<open>Properties\<close>

text \<open>An example: a second lease, both closed, and a callback.\<close>

definition example_stream :: "string + stream_spec \<times> streams" where
  "example_stream = new_stream (PStr ''video'') (PInt 10) (PInt 4) True (PStr ''clip'') PNone [] (Some True)"

definition example_spec :: stream_spec where
  "example_spec = (case example_stream of Inr (sp, s) \<Rightarrow> sp)"

definition example_start :: streams where
  "example_start = (case example_stream of Inr (sp, s) \<Rightarrow> s)"

lemma example_reachable: "stream_reachable fails example_spec example_start"
proof -
  have "new_stream (PStr ''video'') (PInt 10) (PInt 4) True (PStr ''clip'') PNone [] (Some True) =
      Inr (example_spec, example_start)"
    by (simp add: example_spec_def example_start_def example_stream_def new_stream_def)
  then show ?thesis by (rule Start)
qed

definition advance_first :: "(stream_exn \<Rightarrow> bool) \<Rightarrow> streams \<Rightarrow> streams" where
  "advance_first fails s =
     (case st_running s of
        [] \<Rightarrow> s
      | p # rest \<Rightarrow>
          (let (src, events, next_phase) = advance_release fails (st_source s) p in
           s\<lparr>st_source := src, st_log := st_log s @ events,
             st_running := [] @ (case next_phase of None \<Rightarrow> [] | Some q \<Rightarrow> [q]) @ rest\<rparr>))"

lemma advance_first_reachable:
  assumes "stream_reachable fails sp s"
  shows "stream_reachable fails sp (advance_first fails s)"
proof (cases "st_running s")
  case (Cons p rest)
  obtain src events next_phase where a: "advance_release fails (st_source s) p = (src, events, next_phase)"
    by (metis prod_cases3)
  have "st_running s = [] @ p # rest" using Cons by simp
  from Step [OF assms Advance [OF this a]] show ?thesis by (simp add: advance_first_def Cons a)
qed (simp add: advance_first_def assms)

definition example_end :: streams where
  "example_end = (advance_first (\<lambda>_. True) ^^ 6) (begin_close 0 (on_close 7 example_start))"

lemma example_end_reachable: "stream_reachable (\<lambda>_. True) example_spec example_end"
proof -
  have "stream_reachable (\<lambda>_. True) example_spec (begin_close 0 (on_close 7 example_start))"
    by (rule Step [OF Step [OF example_reachable OnClose] BeginClose]) code_simp
  moreover have "stream_reachable (\<lambda>_. True) example_spec ((advance_first (\<lambda>_. True) ^^ n) s)"
    if "stream_reachable (\<lambda>_. True) example_spec s" for n s
    using that by (induction n) (simp_all add: advance_first_reachable)
  ultimately show ?thesis by (simp only: example_end_def)
qed

text \<open>
  C38: A source outlives its leases and is closed once. However reads, new leases, callbacks and
  closings interleave: while a lease is open the source can be read and is not closed; it is closed
  at most once; nothing is read from it afterwards; and no callback runs more often than it was
  registered.
\<close>
theorem source_is_closed_once:
  assumes "stream_reachable fails sp s"
  shows "((\<exists>h < length (st_handles s). \<not> sh_closed (st_handles s ! h)) \<longrightarrow>
       ms_read (st_source s) \<and> SourceClosed \<notin> set (st_log s)) \<and>
    count_list (st_log s) SourceClosed \<le> 1 \<and>
    sorted_wrt (\<lambda>e f. e = SourceClosed \<longrightarrow> \<not> is_read f) (st_log s) \<and>
    (\<forall>c. count_list (st_log s) (Ran c) \<le> count_list (st_log s) (Registered c))"
proof -
  have ok: "streams_ok sp s" using reachable_ok [OF assms] .
  then have st: "stage sp (st_source s) (st_log s) (tails (st_running s))"
    and cb: "callbacks_ok s" "no_late_read s" by (simp_all add: streams_ok_def)
  have "ms_read (st_source s) \<and> SourceClosed \<notin> set (st_log s)"
    if "h < length (st_handles s)" "\<not> sh_closed (st_handles s ! h)" for h
    using stage_owner [OF st open_owner [OF ok that]] by (simp add: source_fresh_def)
  moreover have "count_list (st_log s) SourceClosed \<le> 1"
    using st by (cases "(sp, st_source s, st_log s, tails (st_running s))" rule: stage.cases)
      (auto simp: source_fresh_def source_gone_def)
  ultimately show ?thesis using cb by (auto simp: callbacks_ok_def no_late_read_def)
qed

theorem source_is_closed_once_witness:
  "ms_read (st_source example_start) \<and> SourceClosed \<notin> set (st_log example_start)"
proof -
  have "0 < length (st_handles example_start)" "\<not> sh_closed (st_handles example_start ! 0)" by code_simp+
  with source_is_closed_once [OF example_reachable [of "\<lambda>_. False"]] show ?thesis by blast
qed

text \<open>
  The last lease cleans up. Once every lease is closed and no closing is still under way, the
  source has been closed - exactly once if it can be - whichever callbacks raised, and every
  registered callback has run exactly as often as it was registered.
\<close>
theorem last_lease_cleans_up:
  assumes "stream_reachable fails sp s" and "st_running s = []"
    and "\<forall>h < length (st_handles s). sh_closed (st_handles s ! h)"
  shows "ms_released (st_source s) \<and> \<not> ms_read (st_source s) \<and>
    count_list (st_log s) SourceClosed = (if sp_close sp then 1 else 0) \<and>
    (\<forall>c. count_list (st_log s) (Ran c) = count_list (st_log s) (Registered c))"
proof -
  have ok: "streams_ok sp s" using reachable_ok [OF assms(1)] .
  have "open_handles s = []"
    using assms(3) by (auto simp: open_handles_def filter_empty_conv in_set_conv_nth)
  with ok assms(2) have "ms_owners (st_source s) = 0" by (simp add: streams_ok_def decrements_def)
  with ok assms(2) show ?thesis by (auto simp: streams_ok_def tails_def source_gone_def callbacks_ok_def)
qed

theorem last_lease_cleans_up_witness:
  "count_list (st_log example_end) SourceClosed = (if sp_close example_spec then 1 else 0) \<and>
     (\<forall>c. count_list (st_log example_end) (Ran c) = count_list (st_log example_end) (Registered c)) \<and>
     st_log example_end = [Registered 7, SourceClosed, Ran 7, Raised CloseFailed]"
proof -
  have "st_running example_end = []" "\<forall>h < length (st_handles example_end). sh_closed (st_handles example_end ! h)"
    "st_log example_end = [Registered 7, SourceClosed, Ran 7, Raised CloseFailed]" by code_simp+
  with last_lease_cleans_up [OF example_end_reachable this(1,2)] show ?thesis by blast
qed

text \<open>
  Iterating reads everything once, in order. From an open lease, iteration over any range within
  the total succeeds; its chunks are as long as the chunk size allows at most, and their positions,
  one chunk after the other, are exactly those of the range.
\<close>
theorem iteration_covers_the_range:
  assumes "stream_reachable fails sp s" and "h < length (st_handles s)" and "\<not> sh_closed (st_handles s ! h)"
    and "0 \<le> a" and "a \<le> b" and "b \<le> sp_total sp"
  shows "\<exists>s' chunks. iter_chunks sp h (PInt a) (PInt b) s = (s', Inr chunks) \<and>
    concat (map (\<lambda>c. [mc_start c..mc_stop c - 1]) chunks) = [a..b - 1] \<and>
    (\<forall>c \<in> set chunks. mc_start c < mc_stop c \<and> mc_stop c - mc_start c \<le> sp_chunk_size sp) \<and>
    st_source s' = st_source s \<and> st_handles s' = st_handles s"
proof -
  have ok: "streams_ok sp s" using reachable_ok [OF assms(1)] .
  then have st: "stage sp (st_source s) (st_log s) (tails (st_running s))" and size: "0 < sp_chunk_size sp"
    by (simp_all add: streams_ok_def)
  have "ms_read (st_source s)"
    using stage_owner [OF st open_owner [OF ok assms(2,3)]] by (simp add: source_fresh_def)
  let ?rs = "chunk_ranges (sp_chunk_size sp) a b"
  note cover = chunk_ranges_cover [OF size assms(5)]
  have "\<forall>(x, y) \<in> set ?rs. 0 \<le> x \<and> x < y \<and> y \<le> sp_total sp \<and> y - x \<le> sp_chunk_size sp"
    using cover(2) assms(4,6) by fastforce
  from read_ranges_open [OF \<open>ms_read (st_source s)\<close> assms(3) this] cover assms(4-6) show ?thesis
    by (fastforce simp: iter_chunks_def comp_def case_prod_unfold)
qed

theorem iteration_covers_the_range_witness:
  "\<exists>s' chunks. iter_chunks example_spec 0 (PInt 1) (PInt 10) example_start = (s', Inr chunks) \<and>
     concat (map (\<lambda>c. [mc_start c..mc_stop c - 1]) chunks) = [1..9]"
proof -
  have "0 < length (st_handles example_start)" "\<not> sh_closed (st_handles example_start ! 0)"
    "(10 :: int) \<le> sp_total example_spec" by code_simp+
  from iteration_covers_the_range [OF example_reachable [of "\<lambda>_. False"] this(1,2) _ _ this(3), of 1]
  show ?thesis by auto
qed

end
