(* ===== verification/Blob_Store.thy ===== *)
theory Blob_Store
  imports Prelude "HOL-Library.Product_Lexorder"
begin

text \<open>
  Content-addressed blobs on disk (\<^verbatim>\<open>dinkster_caches/cas.py\<close>, with the digests of
  \<^verbatim>\<open>dinkster_assets/identity.py\<close>): files named by the hash of their bytes, and the store with a
  byte budget that evicts the least recently used. The hash \<open>h\<close> of the \<^verbatim>\<open>blake3\<close> package and the
  failures of the file system are parameters; a blob's path is its hexadecimal digest, since the
  shard directory is a prefix of it.
\<close>

section \<open>Digests\<close>

definition digest_prefix :: string where "digest_prefix = ''blake3:''"

definition hex_char :: "char \<Rightarrow> bool" where
  "hex_char c \<longleftrightarrow> c \<in> set ''0123456789abcdef''"

text \<open>The pattern ends in \<^verbatim>\<open>$\<close> and is used with \<^verbatim>\<open>match\<close>, which lets a final line feed pass.\<close>

definition is_digest :: "string \<Rightarrow> bool" where
  "is_digest s \<longleftrightarrow>
     (let body = drop 7 s; hex = (if length body = 65 \<and> last body = CHR 0x0A then butlast body else body) in
      take 7 s = digest_prefix \<and> length hex = 64 \<and> list_all hex_char hex)"

datatype cas_error = AssetError string | CASError string | OSFailure

text \<open>A digest with a line feed behind it passes for canonical.\<close>

lemma digest_with_line_feed: "is_digest (digest_prefix @ replicate 64 (CHR ''a'') @ [CHR 0x0A])"
  by code_simp

definition require_digest :: "string \<Rightarrow> cas_error + string" where
  "require_digest s = (if is_digest s then Inr s else Inl (AssetError s))"

text \<open>\<open>split(":", 1)[1]\<close> of a digest.\<close>

definition blob_path :: "string \<Rightarrow> cas_error + string" where
  "blob_path digest = and_then (require_digest digest) (\<lambda>s. Inr (tl (dropWhile (\<lambda>c. c \<noteq> CHR '':'') s)))"

text \<open>The hash function yields digests: \<^verbatim>\<open>digest_bytes\<close> is its hexadecimal form behind the prefix.\<close>

definition digest_bytes :: "(string \<Rightarrow> string) \<Rightarrow> string \<Rightarrow> string" where
  "digest_bytes h data = digest_prefix @ h data"

section \<open>The plain store\<close>

record blob =
  bl_data :: string
  bl_mtime :: int

type_synonym blobs = "(string, blob) dict"

text \<open>
  What the file system does to one operation: which files can be read, removed, and examined or touched,
  whether writing and renaming work, and what eight looks at the target after a failed renaming
  find, where another process may have put the same blob.
\<close>

datatype look = LookMissing | LookFailed | LookHolds string int

record disk_io =
  io_read :: "string \<Rightarrow> bool"
  io_unlink :: "string \<Rightarrow> bool"
  io_stat :: "string \<Rightarrow> bool"
  io_write :: bool
  io_replace :: bool
  io_looks :: "look list"
  io_drop :: bool

definition cas_has :: "string \<Rightarrow> blobs \<Rightarrow> cas_error + bool" where
  "cas_has digest bs = and_then (blob_path digest) (\<lambda>p. Inr (dict_mem p bs))"

text \<open>Whether the file at the path can be read and has the digest.\<close>

definition holds_digest :: "(string \<Rightarrow> string) \<Rightarrow> disk_io \<Rightarrow> string \<Rightarrow> string \<Rightarrow> blobs \<Rightarrow> bool" where
  "holds_digest h io p digest bs =
     (case map_of bs p of
        None \<Rightarrow> False
      | Some b \<Rightarrow> io_read io p \<and> digest_bytes h (bl_data b) = digest)"

fun settle :: "(string \<Rightarrow> string) \<Rightarrow> string \<Rightarrow> look list \<Rightarrow> blob option" where
  "settle h digest [] = None"
| "settle h digest (LookMissing # looks) = settle h digest looks"
| "settle h digest (LookFailed # looks) = settle h digest looks"
| "settle h digest (LookHolds data mtime # looks) =
     (if digest_bytes h data = digest then Some \<lparr>bl_data = data, bl_mtime = mtime\<rparr> else None)"

definition replace_candidate :: "(string \<Rightarrow> string) \<Rightarrow> disk_io \<Rightarrow> blob \<Rightarrow> string \<Rightarrow> string \<Rightarrow> blobs \<Rightarrow>
    blobs \<times> (cas_error + unit)" where
  "replace_candidate h io candidate p digest bs =
     (if io_replace io then (dict_set p candidate bs, Inr ())
      else (case settle h digest (take 8 (io_looks io)) of
        Some b \<Rightarrow> (dict_set p b bs, Inr ())
      | None \<Rightarrow> (bs, Inl (CASError digest))))"

definition cas_put :: "(string \<Rightarrow> string) \<Rightarrow> disk_io \<Rightarrow> int \<Rightarrow> string \<Rightarrow> blobs \<Rightarrow> blobs \<times> (cas_error + string)" where
  "cas_put h io now data bs =
     (let digest = digest_bytes h data in
      attempt bs (blob_path digest) (\<lambda>p.
        if holds_digest h io p digest bs then (bs, Inr digest)
        else if \<not> io_write io then (bs, Inl (CASError digest))
        else (case replace_candidate h io \<lparr>bl_data = data, bl_mtime = now\<rparr> p digest bs of
          (bs', Inl e) \<Rightarrow> (bs', Inl e)
        | (bs', Inr _) \<Rightarrow> (bs', Inr digest))))"

definition cas_get :: "(string \<Rightarrow> string) \<Rightarrow> disk_io \<Rightarrow> string \<Rightarrow> blobs \<Rightarrow> blobs \<times> (cas_error + string option)" where
  "cas_get h io digest bs =
     attempt bs (blob_path digest) (\<lambda>p.
       (case map_of bs p of
          None \<Rightarrow> (bs, Inr None)
        | Some b \<Rightarrow>
            if \<not> io_read io p then (bs, Inr None)
            else if digest_bytes h (bl_data b) \<noteq> digest then
              (if io_unlink io p then dict_del p bs else bs, Inr None)
            else (bs, Inr (Some (bl_data b)))))"

text \<open>
  The candidate of \<^verbatim>\<open>adopt_file\<close>: a file elsewhere, or the file at the target already; it is
  deleted on failure, which does not touch the store unless it is the target.
\<close>

definition cas_adopt :: "(string \<Rightarrow> string) \<Rightarrow> disk_io \<Rightarrow> blob option \<Rightarrow> bool \<Rightarrow> string \<Rightarrow> blobs \<Rightarrow>
    blobs \<times> (cas_error + unit)" where
  "cas_adopt h io candidate at_target digest bs =
     attempt bs (and_then (require_digest digest) (\<lambda>_. blob_path digest)) (\<lambda>p.
       (let bs0 = (if at_target \<and> io_drop io then dict_del p bs else bs) in
        case candidate of
          None \<Rightarrow> (bs0, Inl (CASError digest))
        | Some c \<Rightarrow>
            if digest_bytes h (bl_data c) \<noteq> digest then (bs0, Inl (CASError digest))
            else if at_target then (bs, Inr ())
            else if holds_digest h io p digest bs then
              (bs, if io_drop io then Inr () else Inl (CASError digest))
            else replace_candidate h io c p digest bs))"

definition cas_delete :: "disk_io \<Rightarrow> string \<Rightarrow> blobs \<Rightarrow> blobs \<times> (cas_error + bool)" where
  "cas_delete io digest bs =
     attempt bs (blob_path digest) (\<lambda>p.
       if \<not> dict_mem p bs then (bs, Inr False)
       else if io_unlink io p then (dict_del p bs, Inr True) else (bs, Inl OSFailure))"

definition cas_digests :: "blobs \<Rightarrow> string list" where
  "cas_digests bs = map (\<lambda>(p, _). digest_prefix @ p) bs"

definition blob_size :: "blob \<Rightarrow> int" where
  "blob_size b = int (length (bl_data b))"

definition cas_total_bytes :: "disk_io \<Rightarrow> blobs \<Rightarrow> int" where
  "cas_total_bytes io bs = sum_list (map (\<lambda>(_, b). blob_size b) (filter (\<lambda>(p, _). io_stat io p) bs))"

section \<open>The store with a budget\<close>

record cas =
  cs_blobs :: blobs
  cs_max_bytes :: int
  cs_pins :: "(nat, string list) dict"

definition new_cas :: "int \<Rightarrow> blobs \<Rightarrow> cas option" where
  "new_cas max_bytes bs =
     (if max_bytes < 1 then None else Some \<lparr>cs_blobs = bs, cs_max_bytes = max_bytes, cs_pins = []\<rparr>)"

text \<open>Entries are the modification time, the size and the path of a blob.\<close>

definition trim_entries :: "disk_io \<Rightarrow> blobs \<Rightarrow> (int \<times> int \<times> string) list" where
  "trim_entries io bs =
     sort (map (\<lambda>(p, b). (bl_mtime b, blob_size b, p)) (filter (\<lambda>(p, _). io_stat io p) bs))"

text \<open>
  The loop over the victims. Pins can change while it runs, under their lock: \<open>pinned i\<close> are the
  paths pinned when the entry number \<open>i\<close> is examined.
\<close>

fun trim_loop :: "disk_io \<Rightarrow> int \<Rightarrow> string list \<Rightarrow> (nat \<Rightarrow> string \<Rightarrow> bool) \<Rightarrow> nat \<Rightarrow> int \<Rightarrow>
    (int \<times> int \<times> string) list \<Rightarrow> blobs \<Rightarrow> blobs" where
  "trim_loop io max_bytes protected pinned i n [] bs = bs"
| "trim_loop io max_bytes protected pinned i n ((_, sz, p) # entries) bs =
     (if p \<in> set protected \<or> pinned i p \<or> \<not> io_unlink io p
      then trim_loop io max_bytes protected pinned (Suc i) n entries bs
      else
        (let bs' = dict_del p bs; n' = n - sz in
         if n' \<le> max_bytes then bs' else trim_loop io max_bytes protected pinned (Suc i) n' entries bs'))"

definition trim_blobs :: "disk_io \<Rightarrow> int \<Rightarrow> string list \<Rightarrow> (nat \<Rightarrow> string \<Rightarrow> bool) \<Rightarrow> blobs \<Rightarrow> blobs" where
  "trim_blobs io max_bytes protected pinned bs =
     (let entries = trim_entries io bs; n = sum_list (map (\<lambda>(_, sz, _). sz) entries) in
      if n \<le> max_bytes then bs else trim_loop io max_bytes protected pinned 0 n entries bs)"

fun blob_paths :: "string list \<Rightarrow> cas_error + string list" where
  "blob_paths [] = Inr []"
| "blob_paths (d # ds) = and_then (blob_path d) (\<lambda>p. and_then (blob_paths ds) (\<lambda>ps. Inr (p # ps)))"

definition is_pinned :: "cas \<Rightarrow> string \<Rightarrow> bool" where
  "is_pinned s p \<longleftrightarrow> list_ex (\<lambda>(_, ps). p \<in> set ps) (cs_pins s)"

definition touch_blob :: "disk_io \<Rightarrow> int \<Rightarrow> string \<Rightarrow> blobs \<Rightarrow> blobs" where
  "touch_blob io now p bs =
     (case map_of bs p of
        None \<Rightarrow> bs
      | Some b \<Rightarrow> if io_stat io p then dict_set p (b\<lparr>bl_mtime := now\<rparr>) bs else bs)"

definition touch :: "disk_io \<Rightarrow> int \<Rightarrow> string \<Rightarrow> cas \<Rightarrow> cas" where
  "touch io now digest s =
     (case blob_path digest of
        Inl _ \<Rightarrow> s
      | Inr p \<Rightarrow> s\<lparr>cs_blobs := touch_blob io now p (cs_blobs s)\<rparr>)"

definition budget_has :: "disk_io \<Rightarrow> int \<Rightarrow> string \<Rightarrow> cas \<Rightarrow> cas \<times> (cas_error + bool)" where
  "budget_has io now digest s =
     attempt s (cas_has digest (cs_blobs s)) (\<lambda>hit. (if hit then touch io now digest s else s, Inr hit))"

definition budget_get :: "(string \<Rightarrow> string) \<Rightarrow> disk_io \<Rightarrow> int \<Rightarrow> string \<Rightarrow> cas \<Rightarrow> cas \<times> (cas_error + string option)" where
  "budget_get h io now digest s =
     (let (bs, r) = cas_get h io digest (cs_blobs s); s' = s\<lparr>cs_blobs := bs\<rparr> in
      attempt s' r (\<lambda>data. (if data \<noteq> None then touch io now digest s' else s', Inr data)))"

text \<open>\<open>pinned\<close> as in \<open>trim_loop\<close>; the paths of the protected digests are computed before it starts.\<close>

definition trim :: "disk_io \<Rightarrow> string list \<Rightarrow> (nat \<Rightarrow> string \<Rightarrow> bool) \<Rightarrow> cas \<Rightarrow> cas \<times> (cas_error + unit)" where
  "trim io protect pinned s =
     attempt s (blob_paths protect) (\<lambda>protected.
       (s\<lparr>cs_blobs := trim_blobs io (cs_max_bytes s) protected pinned (cs_blobs s)\<rparr>, Inr ()))"

definition budget_put :: "(string \<Rightarrow> string) \<Rightarrow> disk_io \<Rightarrow> int \<Rightarrow> string \<Rightarrow> string list \<Rightarrow> (nat \<Rightarrow> string \<Rightarrow> bool) \<Rightarrow> cas \<Rightarrow>
    cas \<times> (cas_error + string)" where
  "budget_put h io now data protect pinned s =
     (let (bs, r) = cas_put h io now data (cs_blobs s); s1 = s\<lparr>cs_blobs := bs\<rparr> in
      attempt s1 r (\<lambda>digest.
        (case trim io (digest # protect) pinned (touch io now digest s1) of
           (s2, Inl e) \<Rightarrow> (s2, Inl e)
         | (s2, Inr _) \<Rightarrow> (s2, Inr digest))))"

definition budget_adopt :: "(string \<Rightarrow> string) \<Rightarrow> disk_io \<Rightarrow> blob option \<Rightarrow> bool \<Rightarrow> string \<Rightarrow> string list \<Rightarrow>
    (nat \<Rightarrow> string \<Rightarrow> bool) \<Rightarrow> cas \<Rightarrow> cas \<times> (cas_error + unit)" where
  "budget_adopt h io candidate at_target digest protect pinned s =
     (let (bs, r) = cas_adopt h io candidate at_target digest (cs_blobs s); s1 = s\<lparr>cs_blobs := bs\<rparr> in
      attempt s1 r (\<lambda>_. trim io (digest # protect) pinned s1))"

definition pin_blobs :: "nat \<Rightarrow> string list \<Rightarrow> cas \<Rightarrow> cas \<times> (cas_error + unit)" where
  "pin_blobs owner digests s =
     attempt s (blob_paths digests) (\<lambda>ps.
       (s\<lparr>cs_pins := (if ps \<noteq> [] then dict_set owner ps (cs_pins s) else dict_del owner (cs_pins s))\<rparr>, Inr ()))"

definition unpin_blobs :: "nat \<Rightarrow> cas \<Rightarrow> cas" where
  "unpin_blobs owner s = s\<lparr>cs_pins := dict_del owner (cs_pins s)\<rparr>"

section \<open>Eviction\<close>

text \<open>The entries the loop may evict, in its order, and what they weigh.\<close>

definition evictable :: "disk_io \<Rightarrow> string list \<Rightarrow> (nat \<Rightarrow> string \<Rightarrow> bool) \<Rightarrow> nat \<Rightarrow> (int \<times> int \<times> string) list \<Rightarrow>
    (int \<times> int \<times> string) list" where
  "evictable io protected pinned i entries =
     map snd (filter (\<lambda>(j, _, _, p). p \<notin> set protected \<and> \<not> pinned j p \<and> io_unlink io p) (enumerate i entries))"

definition weight :: "(int \<times> int \<times> string) list \<Rightarrow> int" where
  "weight es = sum_list (map (\<lambda>(_, sz, _). sz) es)"

definition paths_of :: "(int \<times> int \<times> string) list \<Rightarrow> string set" where
  "paths_of es = (\<lambda>(_, _, p). p) ` set es"

definition without :: "string set \<Rightarrow> blobs \<Rightarrow> blobs" where
  "without ps bs = filter (\<lambda>(p, _). p \<notin> ps) bs"

lemma without_del: "without ps (dict_del p bs) = without (insert p ps) bs"
  by (auto simp: without_def dict_del_filter case_prod_unfold intro!: filter_cong)

lemma trim_loop_exact:
  assumes "max_bytes < n"
  shows "\<exists>k \<le> length (evictable io protected pinned i entries).
    trim_loop io max_bytes protected pinned i n entries bs =
      without (paths_of (take k (evictable io protected pinned i entries))) bs \<and>
    (\<forall>m < k. max_bytes < n - weight (take m (evictable io protected pinned i entries))) \<and>
    (k < length (evictable io protected pinned i entries) \<longrightarrow>
       n - weight (take k (evictable io protected pinned i entries)) \<le> max_bytes)"
  using assms
proof (induction entries arbitrary: i n bs)
  case Nil
  then show ?case by (simp add: evictable_def without_def paths_of_def)
next
  case (Cons e entries)
  obtain mt sz p where e: "e = (mt, sz, p)" by (metis prod_cases3)
  let ?ev = "evictable io protected pinned (Suc i) entries"
  show ?case
  proof (cases "p \<in> set protected \<or> pinned i p \<or> \<not> io_unlink io p")
    case True
    then have "evictable io protected pinned i (e # entries) = ?ev" by (auto simp: evictable_def e)
    with True Cons.IH [OF Cons.prems, of "Suc i" bs] show ?thesis by (simp add: e)
  next
    case False
    then have ev: "evictable io protected pinned i (e # entries) = e # ?ev" by (auto simp: evictable_def e)
    show ?thesis
    proof (cases "n - sz \<le> max_bytes")
      case True
      have "dict_del p bs = without (paths_of [e]) bs"
        using without_del [of "{}" p bs] by (simp add: without_def paths_of_def e)
      with False True Cons.prems show ?thesis
        unfolding ev by (intro exI [of _ 1]) (simp add: e weight_def)
    next
      case more: False
      then have "max_bytes < n - sz" by simp
      from Cons.IH [OF this, of "Suc i" "dict_del p bs"] obtain k where k: "k \<le> length ?ev"
        "trim_loop io max_bytes protected pinned (Suc i) (n - sz) entries (dict_del p bs) =
           without (paths_of (take k ?ev)) (dict_del p bs)"
        "\<forall>m < k. max_bytes < n - sz - weight (take m ?ev)"
        "k < length ?ev \<longrightarrow> n - sz - weight (take k ?ev) \<le> max_bytes" by auto
      have "insert p (paths_of es) = paths_of (e # es)" for es by (auto simp: paths_of_def e)
      moreover have "weight (e # es) = sz + weight es" for es by (simp add: weight_def e)
      moreover have "max_bytes < n - weight (take m (e # ?ev))" if "m < Suc k" for m
        using that k(3) Cons.prems by (cases m) (auto simp: weight_def e)
      ultimately show ?thesis
        using False more k(1,2,4) unfolding ev
        by (intro exI [of _ "Suc k"]) (auto simp: e without_del)
    qed
  qed
qed

lemma paths_of_evictable:
  "p \<in> paths_of (take k (evictable io protected pinned i entries)) \<Longrightarrow>
     p \<notin> set protected \<and> (\<exists>j. \<not> pinned j p) \<and> io_unlink io p"
proof -
  assume a: "p \<in> paths_of (take k (evictable io protected pinned i entries))"
  then obtain mt sz where "(mt, sz, p) \<in> set (evictable io protected pinned i entries)"
    by (auto simp: paths_of_def dest: in_set_takeD)
  then show ?thesis by (auto simp: evictable_def)
qed

lemma map_of_without: "map_of (without ps bs) p = (if p \<in> ps then None else map_of bs p)"
  by (induction bs) (auto simp: without_def)

lemma trim_keeps:
  assumes "p \<in> set protected \<or> (\<forall>j. pinned j p)"
  shows "map_of (trim_blobs io max_bytes protected pinned bs) p = map_of bs p"
proof (cases "max_bytes < weight (trim_entries io bs)")
  case True
  then obtain k where "trim_blobs io max_bytes protected pinned bs =
      without (paths_of (take k (evictable io protected pinned 0 (trim_entries io bs)))) bs"
    using trim_loop_exact [OF True, of io protected pinned 0 "trim_entries io bs" bs]
    by (auto simp: trim_blobs_def weight_def Let_def)
  with assms paths_of_evictable [of p k io protected pinned 0 "trim_entries io bs"] show ?thesis
    by (auto simp: map_of_without)
next
  case False
  then show ?thesis by (simp add: trim_blobs_def weight_def Let_def)
qed

section \<open>Reading and writing\<close>

definition hash_shape :: "(string \<Rightarrow> string) \<Rightarrow> bool" where
  "hash_shape h \<longleftrightarrow> (\<forall>d. length (h d) = 64 \<and> list_all hex_char (h d))"

lemma blob_path_digest:
  assumes "hash_shape h"
  shows "blob_path (digest_bytes h d) = Inr (h d)"
proof -
  have "length (h d) = 64" "list_all hex_char (h d)" using assms by (simp_all add: hash_shape_def)
  then have "is_digest (digest_bytes h d)"
    by (simp add: is_digest_def digest_bytes_def digest_prefix_def)
  moreover have "tl (dropWhile (\<lambda>c. c \<noteq> CHR '':'') (digest_bytes h d)) = h d"
    by (simp add: digest_bytes_def digest_prefix_def)
  ultimately show ?thesis by (simp add: blob_path_def require_digest_def)
qed

lemma settle_digest: "settle h digest looks = Some b \<Longrightarrow> digest_bytes h (bl_data b) = digest"
  by (induction h digest looks rule: settle.induct) (auto split: if_splits)

lemma cas_put_stored:
  assumes "hash_shape h" and "cas_put h io now data bs = (bs', Inr digest)"
  shows "digest = digest_bytes h data \<and> (\<exists>b. map_of bs' (h data) = Some b \<and> digest_bytes h (bl_data b) = digest)"
  using assms settle_digest [of h "digest_bytes h data" "take 8 (io_looks io)"]
  by (auto simp: cas_put_def Let_def blob_path_digest holds_digest_def replace_candidate_def
      split: if_splits option.splits)

lemma touch_blob_data: "map_option bl_data (map_of (touch_blob io now p bs) q) = map_option bl_data (map_of bs q)"
  by (auto simp: touch_blob_def split: option.splits)

lemma touch_data: "map_option bl_data (map_of (cs_blobs (touch io now digest s)) q) = map_option bl_data (map_of (cs_blobs s) q)"
  by (auto simp: touch_def touch_blob_data split: sum.splits)

lemma touch_fields [simp]: "cs_max_bytes (touch io now digest s) = cs_max_bytes s" "cs_pins (touch io now digest s) = cs_pins s"
  by (simp_all add: touch_def split: sum.splits)

lemma budget_put_cases:
  assumes "hash_shape h" and "budget_put h io now data protect pinned s = (s', Inr digest)"
  obtains bs protected where "cas_put h io now data (cs_blobs s) = (bs, Inr digest)"
    and "blob_paths protect = Inr protected" and "digest = digest_bytes h data"
    and "s' = (touch io now digest (s\<lparr>cs_blobs := bs\<rparr>))\<lparr>cs_blobs := trim_blobs io (cs_max_bytes s) (h data # protected) pinned
      (cs_blobs (touch io now digest (s\<lparr>cs_blobs := bs\<rparr>)))\<rparr>"
proof -
  obtain bs r where c: "cas_put h io now data (cs_blobs s) = (bs, r)" by fastforce
  with assms(2) obtain d where r: "r = Inr d" by (cases r) (auto simp: budget_put_def)
  with c cas_put_stored [OF assms(1)] have d: "d = digest_bytes h data" by blast
  obtain protected where prot: "blob_paths protect = Inr protected"
    using assms(2) c by (cases "blob_paths protect")
      (auto simp: budget_put_def r trim_def d blob_path_digest [OF assms(1)])
  have res: "budget_put h io now data protect pinned s =
      ((touch io now d (s\<lparr>cs_blobs := bs\<rparr>))\<lparr>cs_blobs := trim_blobs io (cs_max_bytes s) (h data # protected) pinned
        (cs_blobs (touch io now d (s\<lparr>cs_blobs := bs\<rparr>)))\<rparr>, Inr d)"
    by (simp add: budget_put_def Let_def c r trim_def d blob_path_digest [OF assms(1)] prot)
  note eq = assms(2) [unfolded res prod.inject sum.inject]
  have dd: "d = digest" by (rule conjunct2 [OF eq])
  note s' = conjunct1 [OF eq, unfolded dd, symmetric]
  show ?thesis
  proof (rule that)
    show "cas_put h io now data (cs_blobs s) = (bs, Inr digest)" using c r dd by simp
    show "digest = digest_bytes h data" using d dd by simp
    show "blob_paths protect = Inr protected" by (rule prot)
  qed (rule s')
qed

section \<open>Properties\<close>

text \<open>An example: a hash that tells one text from the others, and a store of at most four bytes.\<close>

definition example_hash :: "string \<Rightarrow> string" where
  "example_hash d = (if d = ''abcdef'' then replicate 64 (CHR ''a'') else replicate 64 (CHR ''b''))"

definition fair_disk :: disk_io where
  "fair_disk = \<lparr>io_read = (\<lambda>_. True), io_unlink = (\<lambda>_. True), io_stat = (\<lambda>_. True), io_write = True,
     io_replace = True, io_looks = [], io_drop = True\<rparr>"

definition example_cas :: cas where
  "example_cas = \<lparr>cs_blobs = [(replicate 64 (CHR ''b''), \<lparr>bl_data = ''xy'', bl_mtime = 1\<rparr>)], cs_max_bytes = 4,
     cs_pins = []\<rparr>"

lemma example_hash_shape: "hash_shape example_hash"
  by (simp add: hash_shape_def example_hash_def hex_char_def list_all_iff)

text \<open>
  C39: What was stored can be read. Once bytes are put into a budgeted store - whatever their size,
  and whatever is evicted for them - reading their digest gives them back, if no other bytes have
  the same hash and the file can be read.
\<close>
theorem stored_blobs_are_read_back:
  assumes "hash_shape h" and "\<forall>d. h d = h data \<longrightarrow> d = data"
    and "budget_put h io now data protect pinned s = (s', Inr digest)" and "io_read io' (h data)"
  shows "\<exists>s''. budget_get h io' now' digest s' = (s'', Inr (Some data))"
proof -
  obtain bs protected where p: "cas_put h io now data (cs_blobs s) = (bs, Inr digest)"
    "digest = digest_bytes h data"
    "s' = (touch io now digest (s\<lparr>cs_blobs := bs\<rparr>))\<lparr>cs_blobs := trim_blobs io (cs_max_bytes s) (h data # protected) pinned
      (cs_blobs (touch io now digest (s\<lparr>cs_blobs := bs\<rparr>)))\<rparr>"
    using budget_put_cases [OF assms(1,3)] by metis
  from cas_put_stored [OF assms(1) p(1)] obtain b where b: "map_of bs (h data) = Some b"
    "digest_bytes h (bl_data b) = digest" by blast
  then have "bl_data b = data" using assms(2) p(2) by (simp add: digest_bytes_def)
  with b(1) have "map_option bl_data (map_of (cs_blobs s') (h data)) = Some data"
    using touch_data [of io now digest "s\<lparr>cs_blobs := bs\<rparr>" "h data"]
      trim_keeps [of "h data" "h data # protected" pinned io "cs_max_bytes s"] by (simp add: p(3))
  then obtain b' where "map_of (cs_blobs s') (h data) = Some b'" "bl_data b' = data" by auto
  with assms(4) show ?thesis
    by (simp add: budget_get_def cas_get_def p(2) blob_path_digest [OF assms(1)])
qed

theorem stored_blobs_are_read_back_witness:
  "\<exists>s' s''. budget_put example_hash fair_disk 5 ''abcdef'' [] (\<lambda>_ _. False) example_cas =
       (s', Inr (digest_bytes example_hash ''abcdef'')) \<and>
     budget_get example_hash fair_disk 6 (digest_bytes example_hash ''abcdef'') s' = (s'', Inr (Some ''abcdef''))"
proof -
  let ?r = "budget_put example_hash fair_disk 5 ''abcdef'' [] (\<lambda>_ _. False) example_cas"
  have "snd ?r = Inr (digest_bytes example_hash ''abcdef'')" by code_simp
  then have r: "?r = (fst ?r, Inr (digest_bytes example_hash ''abcdef''))" by (metis prod.collapse)
  have "\<forall>d. example_hash d = example_hash ''abcdef'' \<longrightarrow> d = ''abcdef''"
  proof (intro allI impI)
    fix d assume a: "example_hash d = example_hash ''abcdef''"
    show "d = ''abcdef''"
    proof (rule ccontr)
      assume "d \<noteq> ''abcdef''"
      with a have "replicate 64 (CHR ''b'') = replicate 64 (CHR ''a'')" by (simp add: example_hash_def)
      then show False by (simp add: replicate_eq_replicate)
    qed
  qed
  from stored_blobs_are_read_back [OF example_hash_shape this r, of fair_disk 6] r show ?thesis
    by (auto simp: fair_disk_def)
qed

text \<open>
  Reads are verified. Bytes that a read returns always hash to the digest asked for, however
  the files were written or damaged, and a read that finds other bytes under that name deletes them
  if it can.
\<close>
theorem reads_are_verified:
  assumes "budget_get h io now digest s = (s', r)" and "blob_path digest = Inr p"
  shows "(\<forall>data. r = Inr (Some data) \<longrightarrow> digest_bytes h data = digest) \<and>
    (\<forall>b. map_of (cs_blobs s) p = Some b \<longrightarrow> io_read io p \<longrightarrow> digest_bytes h (bl_data b) \<noteq> digest \<longrightarrow>
       io_unlink io p \<longrightarrow> r = Inr None \<and> map_of (cs_blobs s') p = None)"
  using assms by (auto simp: budget_get_def cas_get_def Let_def split: option.splits if_splits)

theorem reads_are_verified_witness:
  "\<exists>s'. budget_get example_hash fair_disk 5 (digest_bytes example_hash ''abcdef'')
       (example_cas\<lparr>cs_blobs := [(example_hash ''abcdef'', \<lparr>bl_data = ''rot'', bl_mtime = 1\<rparr>)]\<rparr>) = (s', Inr None) \<and>
     map_of (cs_blobs s') (example_hash ''abcdef'') = None"
proof -
  let ?s = "example_cas\<lparr>cs_blobs := [(example_hash ''abcdef'', \<lparr>bl_data = ''rot'', bl_mtime = 1\<rparr>)]\<rparr>"
  obtain s' r where g: "budget_get example_hash fair_disk 5 (digest_bytes example_hash ''abcdef'') ?s = (s', r)"
    by fastforce
  have "digest_bytes example_hash ''rot'' \<noteq> digest_bytes example_hash ''abcdef''" by code_simp
  with reads_are_verified [OF g blob_path_digest [OF example_hash_shape]] g show ?thesis
    by (auto simp: fair_disk_def)
qed

text \<open>
  C40: Eviction is least recently used and no more than needed. A trim over the budget removes, in
  the order of modification time, a shortest prefix of the blobs that are neither protected nor
  pinned and can be removed: before each removal the rest was still over the budget, and it stops
  within the budget unless nothing is left to remove. Within the budget it removes nothing.
\<close>
theorem eviction_is_least_recently_used:
  "\<exists>k \<le> length (evictable io protected pinned 0 (trim_entries io bs)).
     trim_blobs io max_bytes protected pinned bs =
       without (paths_of (take k (evictable io protected pinned 0 (trim_entries io bs)))) bs \<and>
     (\<forall>m < k. max_bytes < weight (trim_entries io bs) -
        weight (take m (evictable io protected pinned 0 (trim_entries io bs)))) \<and>
     (k < length (evictable io protected pinned 0 (trim_entries io bs)) \<longrightarrow>
        weight (trim_entries io bs) - weight (take k (evictable io protected pinned 0 (trim_entries io bs)))
          \<le> max_bytes) \<and>
     sorted (evictable io protected pinned 0 (trim_entries io bs))"
proof -
  have "sorted (evictable io protected pinned i es)" if "sorted es" for i es
    using that
  proof (induction es arbitrary: i)
    case (Cons e es)
    have "set (evictable io protected pinned (Suc i) es) \<subseteq> set es"
      by (auto simp: evictable_def enumerate_eq_zip dest: set_zip_rightD)
    with Cons show ?case by (cases e) (fastforce simp: evictable_def)
  qed (simp add: evictable_def)
  then have sorted: "sorted (evictable io protected pinned 0 (trim_entries io bs))"
    by (simp add: trim_entries_def)
  show ?thesis
  proof (cases "max_bytes < weight (trim_entries io bs)")
    case True
    with trim_loop_exact [OF True, of io protected pinned 0 "trim_entries io bs" bs] sorted show ?thesis
      by (simp add: trim_blobs_def weight_def Let_def)
  next
    case False
    then have "trim_blobs io max_bytes protected pinned bs = without (paths_of (take 0 [])) bs"
      by (simp add: trim_blobs_def weight_def Let_def without_def paths_of_def)
    with False sorted show ?thesis by (intro exI [of _ 0]) (simp add: weight_def paths_of_def)
  qed
qed

theorem eviction_is_least_recently_used_witness:
  "trim_blobs fair_disk 3 [''c''] (\<lambda>_ p. p = ''a'')
     [(''a'', \<lparr>bl_data = ''11'', bl_mtime = 1\<rparr>), (''d'', \<lparr>bl_data = ''4'', bl_mtime = 4\<rparr>),
      (''b'', \<lparr>bl_data = ''22'', bl_mtime = 2\<rparr>), (''c'', \<lparr>bl_data = '''', bl_mtime = 0\<rparr>)] =
     [(''a'', \<lparr>bl_data = ''11'', bl_mtime = 1\<rparr>), (''d'', \<lparr>bl_data = ''4'', bl_mtime = 4\<rparr>),
      (''c'', \<lparr>bl_data = '''', bl_mtime = 0\<rparr>)]"
proof -
  let ?bs = "[(''a'', \<lparr>bl_data = ''11'', bl_mtime = 1\<rparr>), (''d'', \<lparr>bl_data = ''4'', bl_mtime = 4\<rparr>),
      (''b'', \<lparr>bl_data = ''22'', bl_mtime = 2\<rparr>), (''c'', \<lparr>bl_data = '''', bl_mtime = 0\<rparr>)]"
  have ev: "evictable fair_disk [''c''] (\<lambda>_ p. p = ''a'') 0 (trim_entries fair_disk ?bs) = [(2, 2, ''b''), (4, 1, ''d'')]"
    by code_simp
  have w: "weight (trim_entries fair_disk ?bs) = 5" by code_simp
  note exact = eviction_is_least_recently_used [of fair_disk "[''c'']" "\<lambda>_ p. p = ''a''" ?bs 3, unfolded ev w]
  then obtain k where k: "k \<le> length [(2 :: int, 2 :: int, ''b''), (4, 1, ''d'')]"
    "trim_blobs fair_disk 3 [''c''] (\<lambda>_ p. p = ''a'') ?bs =
      without (paths_of (take k [(2, 2, ''b''), (4, 1, ''d'')])) ?bs"
    "\<forall>m < k. 3 < 5 - weight (take m [(2, 2, ''b''), (4, 1, ''d'')])"
    "k < length [(2 :: int, 2 :: int, ''b''), (4, 1, ''d'')] \<longrightarrow> 5 - weight (take k [(2, 2, ''b''), (4, 1, ''d'')]) \<le> 3"
    by (elim exE conjE)
  have "k = 1"
  proof (cases k)
    case (Suc m)
    with k(1,3) show ?thesis by (cases m) (auto simp: weight_def dest: spec [of _ 1])
  qed (use k(4) in \<open>simp add: weight_def\<close>)
  with k(2) show ?thesis by (simp add: without_def paths_of_def)
qed

end
