(* ===== verification/Ready_Set.thy ===== *)
theory Ready_Set
  imports Prelude
begin

text \<open>
  The ready-set scheduler of one graph level (\<^verbatim>\<open>_execute_static_dag\<close> and \<^verbatim>\<open>_ProducedReferences\<close> of
  \<^verbatim>\<open>dinkster_engine/engine.py\<close>) as a step relation over every interleaving of its tasks. What the
  task of a node ends with is a parameter: a relation between the node, the inputs it read and the
  result.
\<close>

section \<open>References to outputs\<close>

text \<open>Sets of nodes are lists without repetitions; nothing below depends on their order.\<close>

type_synonym deps = "(string, string list) dict"

record refs =
  rf_deps :: deps
  rf_targets :: "string list"
  rf_uses :: "(string, int) dict"

definition count_uses :: "deps \<Rightarrow> (string, int) dict" where
  "count_uses D =
     fold (\<lambda>(_, ds) u. fold (\<lambda>d u. dict_set d (dict_get_default u d 0 + 1) u) ds u) D (map (\<lambda>(n, _). (n, 0)) D)"

definition new_refs :: "deps \<Rightarrow> string list \<Rightarrow> refs" where
  "new_refs D targets = \<lparr>rf_deps = D, rf_targets = targets, rf_uses = count_uses D\<rparr>"

text \<open>The stack of retired nodes has its top first.\<close>

fun drop_uses :: "string list \<Rightarrow> (string, int) dict \<Rightarrow> string list \<Rightarrow> string list \<Rightarrow> (string, int) dict \<times> string list" where
  "drop_uses targets uses [] stack = (uses, stack)"
| "drop_uses targets uses (d # ds) stack =
     (let k = dict_get_default uses d 0 - 1 in
      drop_uses targets (dict_set d k uses) ds (if k = 0 \<and> d \<notin> set targets then d # stack else stack))"

lemma length_drop_uses: "length (snd (drop_uses targets uses ds stack)) \<le> length ds + length stack"
  by (induction targets uses ds stack rule: drop_uses.induct) (auto simp: Let_def)

lemma size_dict_del:
  "sum_list (map (length \<circ> snd) (dict_del k D)) + length (dict_get_default D k []) \<le> sum_list (map (length \<circ> snd) D)"
  by (induction D) (auto simp: dict_del_filter)

function retire :: "refs \<Rightarrow> (string, 'v) dict \<Rightarrow> string list \<Rightarrow> refs \<times> (string, 'v) dict" where
  "retire r produced [] = (r, produced)"
| "retire r produced (n # stack) =
     (let produced' = (if dict_get_default (rf_uses r) n 0 = 0 \<and> n \<notin> set (rf_targets r)
                       then dict_del n produced else produced);
          dropped = drop_uses (rf_targets r) (rf_uses r) (dict_get_default (rf_deps r) n []) stack in
      retire (r\<lparr>rf_deps := dict_del n (rf_deps r), rf_uses := fst dropped\<rparr>) produced' (snd dropped))"
  by pat_completeness auto
termination
proof (relation "measure (\<lambda>(r, _, stack). sum_list (map (length \<circ> snd) (rf_deps r)) + length stack)", goal_cases)
  case (2 r produced n stack x y)
  have "length (snd (drop_uses (rf_targets r) (rf_uses r) (dict_get_default (rf_deps r) n []) stack)) \<le>
      length (dict_get_default (rf_deps r) n []) + length stack" by (rule length_drop_uses)
  with size_dict_del [of n "rf_deps r"] show ?case by (simp add: 2)
qed simp

definition ref_finished :: "string \<Rightarrow> refs \<Rightarrow> (string, 'v) dict \<Rightarrow> refs \<times> (string, 'v) dict" where
  "ref_finished n r produced = retire r produced [n]"

section \<open>The scheduler\<close>

text \<open>
  How a task can end badly: the error of the node, which is an \<open>ExecutionError\<close>, any other
  exception, an output that is not there, a new task refused by a group that shuts down, or a
  \<open>CancelledError\<close> that the node itself raises.
\<close>

datatype 'e task_error = NodeFailed 'e | OtherError 'e | MissingInput string | ShuttingDown | SelfCancelled

text \<open>
  Tasks in flight carry the inputs they read, once they did; \<open>sc_created\<close>, \<open>sc_finished\<close> and
  \<open>sc_stopped\<close> record the tasks created, those that returned and those that ended as cancelled on
  their own, in order.
\<close>

record ('v, 'e) sched =
  sc_remaining :: "(string, int) dict"
  sc_tasks :: "(string, (string \<times> 'v) list option) dict"
  sc_produced :: "(string, 'v) dict"
  sc_refs :: refs
  sc_created :: "string list"
  sc_finished :: "string list"
  sc_stopped :: "string list"
  sc_errors :: "'e task_error list"
  sc_aborting :: bool
  sc_cancelled :: bool

definition deps_of :: "deps \<Rightarrow> string \<Rightarrow> string list" where
  "deps_of D n = dict_get_default D n []"

definition dependents :: "deps \<Rightarrow> string \<Rightarrow> string list" where
  "dependents D n = map fst (filter (\<lambda>(_, ds). n \<in> set ds) D)"

definition create_task :: "string \<Rightarrow> ('v, 'e) sched \<Rightarrow> ('v, 'e) sched" where
  "create_task n s = s\<lparr>sc_tasks := dict_set n None (sc_tasks s), sc_created := sc_created s @ [n]\<rparr>"

definition start_dag :: "deps \<Rightarrow> string list \<Rightarrow> string list \<Rightarrow> (string, 'v) dict \<Rightarrow> ('v, 'e) sched" where
  "start_dag D order targets produced =
     (let remaining = map (\<lambda>(n, ds). (n, int (length ds))) D in
      fold create_task (filter (\<lambda>n. dict_get_default remaining n 0 = 0) order)
        \<lparr>sc_remaining = remaining, sc_tasks = [], sc_produced = produced, sc_refs = new_refs D targets,
         sc_created = [], sc_finished = [], sc_stopped = [], sc_errors = [], sc_aborting = False, sc_cancelled = False\<rparr>)"

fun read_inputs :: "(string, 'v) dict \<Rightarrow> string list \<Rightarrow> string + (string \<times> 'v) list" where
  "read_inputs produced [] = Inr []"
| "read_inputs produced (d # ds) =
     (case map_of produced d of
        None \<Rightarrow> Inl d
      | Some v \<Rightarrow> and_then (read_inputs produced ds) (\<lambda>vs. Inr ((d, v) # vs)))"

definition end_task :: "string \<Rightarrow> ('v, 'e) sched \<Rightarrow> ('v, 'e) sched" where
  "end_task n s = s\<lparr>sc_tasks := dict_del n (sc_tasks s)\<rparr>"

definition fail_task :: "'e task_error \<Rightarrow> ('v, 'e) sched \<Rightarrow> ('v, 'e) sched" where
  "fail_task e s = s\<lparr>sc_errors := sc_errors s @ [e], sc_aborting := True\<rparr>"

text \<open>
  The group forgets a child that ends as cancelled: it is no error, and nothing is released
  (\<^verbatim>\<open>asyncio.TaskGroup._on_task_done\<close> returns first when the task is cancelled).
\<close>

definition stop_task :: "string \<Rightarrow> ('v, 'e) sched \<Rightarrow> ('v, 'e) sched" where
  "stop_task n s = end_task n s\<lparr>sc_stopped := sc_stopped s @ [n]\<rparr>"

text \<open>The loop over the dependents; a group that is aborting refuses the first new task.\<close>

fun release_dependents :: "string list \<Rightarrow> ('v, 'e) sched \<Rightarrow> ('v, 'e) sched" where
  "release_dependents [] s = s"
| "release_dependents (m # ms) s =
     (let k = dict_get_default (sc_remaining s) m 0 - 1;
          s' = s\<lparr>sc_remaining := dict_set m k (sc_remaining s)\<rparr> in
      if k \<noteq> 0 then release_dependents ms s'
      else if sc_aborting s then fail_task ShuttingDown s'
      else release_dependents ms (create_task m s'))"

definition return_node :: "deps \<Rightarrow> string \<Rightarrow> 'v \<Rightarrow> ('v, 'e) sched \<Rightarrow> ('v, 'e) sched" where
  "return_node D n v s =
     (case ref_finished n (sc_refs s) (dict_set n v (sc_produced s)) of
        (refs, produced) \<Rightarrow>
          release_dependents (dependents D n)
            (end_task n s\<lparr>sc_refs := refs, sc_produced := produced, sc_finished := sc_finished s @ [n]\<rparr>))"

text \<open>
  A task that has not read its inputs yet can fail too, in what it prepares before: then it shows
  \<open>may\<close> no inputs.
\<close>

definition inputs_read :: "(string \<times> 'v) list option \<Rightarrow> (string \<times> 'v) list" where
  "inputs_read t = (case t of None \<Rightarrow> [] | Some ins \<Rightarrow> ins)"

inductive sched_step ::
    "deps \<Rightarrow> (string \<Rightarrow> (string \<times> 'v) list \<Rightarrow> 'e task_error + 'v \<Rightarrow> bool) \<Rightarrow> ('v, 'e) sched \<Rightarrow> ('v, 'e) sched \<Rightarrow> bool"
  for D may where
  read: "map_of (sc_tasks s) n = Some None \<Longrightarrow> read_inputs (sc_produced s) (deps_of D n) = Inr ins \<Longrightarrow>
    sched_step D may s (s\<lparr>sc_tasks := dict_set n (Some ins) (sc_tasks s)\<rparr>)"
| missing: "map_of (sc_tasks s) n = Some None \<Longrightarrow> read_inputs (sc_produced s) (deps_of D n) = Inl d \<Longrightarrow>
    sched_step D may s (fail_task (MissingInput d) (end_task n s))"
| return: "map_of (sc_tasks s) n = Some (Some ins) \<Longrightarrow> may n ins (Inr v) \<Longrightarrow>
    sched_step D may s (return_node D n v s)"
| raise: "map_of (sc_tasks s) n = Some t \<Longrightarrow> may n (inputs_read t) (Inl e) \<Longrightarrow> e \<noteq> SelfCancelled \<Longrightarrow>
    sched_step D may s (fail_task e (end_task n s))"
| stop: "map_of (sc_tasks s) n = Some t \<Longrightarrow> may n (inputs_read t) (Inl SelfCancelled) \<Longrightarrow>
    sched_step D may s (stop_task n s)"
| cancelled: "sc_aborting s \<Longrightarrow> dict_mem n (sc_tasks s) \<Longrightarrow> sched_step D may s (end_task n s)"
| cancel: "sc_tasks s \<noteq> [] \<Longrightarrow> \<not> sc_cancelled s \<Longrightarrow>
    sched_step D may s (s\<lparr>sc_aborting := True, sc_cancelled := True\<rparr>)"

text \<open>What the level ends with once no task is left.\<close>

datatype 'e dag_result = DagOk | DagRaises 'e | DagGroup "'e task_error list" | DagCancelled

fun is_node_failure :: "'e task_error \<Rightarrow> bool" where
  "is_node_failure (NodeFailed _) = True"
| "is_node_failure _ = False"

definition dag_result :: "('v, 'e) sched \<Rightarrow> 'e dag_result" where
  "dag_result s =
     (case sc_errors s of
        [] \<Rightarrow> if sc_cancelled s then DagCancelled else DagOk
      | NodeFailed e # es \<Rightarrow> if list_all is_node_failure es then DagRaises e else DagGroup (NodeFailed e # es)
      | es \<Rightarrow> DagGroup es)"

definition end_dag :: "('v, 'e) sched \<Rightarrow> (string, 'v) dict \<times> 'e dag_result" where
  "end_dag s = (if dag_result s = DagOk then sc_produced s else [], dag_result s)"

section \<open>References are exact\<close>

definition users :: "deps \<Rightarrow> string \<Rightarrow> int" where
  "users D d = int (length (filter (\<lambda>(_, ds). d \<in> set ds) D))"

definition deps_ok :: "deps \<Rightarrow> bool" where
  "deps_ok D \<longleftrightarrow> dict_ok D \<and> (\<forall>(n, ds) \<in> set D. distinct ds \<and> set ds \<subseteq> fst ` set D)"

definition open_deps :: "deps \<Rightarrow> string list \<Rightarrow> deps" where
  "open_deps D finished = filter (\<lambda>(n, _). n \<notin> set finished) D"

lemma users_pos: "0 < users D d \<longleftrightarrow> (\<exists>n ds. (n, ds) \<in> set D \<and> d \<in> set ds)"
  by (auto simp: users_def filter_empty_conv)

lemma users_nonneg: "0 \<le> users D d"
  by (simp add: users_def)

lemma dict_del_absent: "k \<notin> fst ` set D \<Longrightarrow> dict_del k D = D"
  by (auto simp: dict_del_filter intro!: filter_True)

lemma users_del: "dict_ok D \<Longrightarrow>
    users (dict_del n D) d = users D d - (if d \<in> set (dict_get_default D n []) then 1 else 0)"
proof (induction D)
  case (Cons p D)
  then show ?case
    by (cases p) (auto simp: users_def dict_del_filter dict_del_absent [unfolded dict_del_filter])
qed (simp add: users_def)

lemma drop_uses_exact:
  "distinct ds \<Longrightarrow> drop_uses targets u ds stack = (u', stack') \<Longrightarrow>
     (\<forall>d. dict_get_default u' d 0 = dict_get_default u d 0 - (if d \<in> set ds then 1 else 0)) \<and>
     set stack' = {d \<in> set ds. dict_get_default u d 0 = 1 \<and> d \<notin> set targets} \<union> set stack"
proof (induction targets u ds stack arbitrary: u' stack' rule: drop_uses.induct)
  case (2 targets u d ds stack)
  let ?k = "dict_get_default u d 0 - 1"
  let ?stack = "if ?k = 0 \<and> d \<notin> set targets then d # stack else stack"
  from 2(3) have "drop_uses targets (dict_set d ?k u) ds ?stack = (u', stack')" by (simp add: Let_def)
  from 2(1) [OF refl _ this] 2(2) have IH:
    "\<forall>x. dict_get_default u' x 0 = dict_get_default (dict_set d ?k u) x 0 - (if x \<in> set ds then 1 else 0)"
    "set stack' = {x \<in> set ds. dict_get_default (dict_set d ?k u) x 0 = 1 \<and> x \<notin> set targets} \<union> set ?stack"
    by simp_all
  have "d \<notin> set ds" using 2(2) by simp
  with IH(1) show ?case unfolding IH(2) by (intro conjI allI) auto
qed simp

lemma fold_count: "distinct ds \<Longrightarrow>
    dict_get_default (fold (\<lambda>d u. dict_set d (dict_get_default u d 0 + 1) u) ds u) d 0 =
      dict_get_default u d 0 + (if d \<in> set ds then 1 else 0 :: int)"
  by (induction ds arbitrary: u) auto

lemma count_uses_exact:
  assumes "\<forall>(n, ds) \<in> set D. distinct ds"
  shows "dict_get_default (count_uses D) d 0 = users D d"
proof -
  have "dict_get_default (fold (\<lambda>(_, ds) u. fold (\<lambda>d u. dict_set d (dict_get_default u d 0 + 1) u) ds u) E u) d 0 =
      dict_get_default u d 0 + users E d" if "\<forall>(n, ds) \<in> set E. distinct ds" for E :: deps and u
    using that by (induction E arbitrary: u) (auto simp: fold_count users_def)
  moreover have "dict_get_default (map (\<lambda>(n, _). (n, 0)) D) d 0 = (0 :: int)" by (induction D) auto
  ultimately show ?thesis using assms by (simp add: count_uses_def)
qed

text \<open>Nodes that have no dependencies left to give up are only checked.\<close>

lemma retire_idle:
  "\<forall>c \<in> set stack. c \<notin> fst ` set (rf_deps r) \<Longrightarrow>
     retire r p stack = (r, fold (\<lambda>c p. if dict_get_default (rf_uses r) c 0 = 0 \<and> c \<notin> set (rf_targets r)
                                    then dict_del c p else p) stack p)"
proof (induction stack arbitrary: p)
  case (Cons c stack)
  then have "map_of (rf_deps r) c = None" by (simp add: map_of_eq_None_iff)
  with Cons show ?case by (simp add: dict_get_default_def dict_del_absent)
qed simp

lemma map_of_fold_del: "map_of (fold (\<lambda>c p. if P c then dict_del c p else p) cs p) d =
    (if d \<in> set cs \<and> P d then None else map_of p d)"
  by (induction cs arbitrary: p) auto

lemma open_deps_snoc: "dict_del n (open_deps D F) = open_deps D (F @ [n])"
  by (auto simp: dict_del_filter open_deps_def intro!: filter_cong)

lemma get_open: "dict_get_default (open_deps D F) n [] = (if n \<in> set F then [] else deps_of D n)"
  by (induction D) (auto simp: open_deps_def deps_of_def split: if_splits)

lemma ok_open: "deps_ok D \<Longrightarrow> dict_ok (open_deps D F)"
  by (auto simp: deps_ok_def open_deps_def dict_ok_def intro: distinct_map_filter)

lemma deps_of_D: "deps_ok D \<Longrightarrow> distinct (deps_of D n) \<and> set (deps_of D n) \<subseteq> fst ` set D"
  by (auto simp: deps_ok_def deps_of_def dict_get_default_def split: option.splits dest!: map_of_SomeD)

lemma ref_finished_exact:
  assumes D: "deps_ok D" and r: "rf_deps r = open_deps D F" "\<forall>d. dict_get_default (rf_uses r) d 0 = users (open_deps D F) d"
    and n: "n \<in> fst ` set D" "n \<notin> set F" "set (deps_of D n) \<subseteq> set F"
    and fin: "ref_finished n r p = (r', p')"
  shows "rf_deps r' = open_deps D (F @ [n])" "rf_targets r' = rf_targets r"
    "\<forall>d. dict_get_default (rf_uses r') d 0 = users (open_deps D (F @ [n])) d"
    "map_of p' d = (if d \<notin> set (rf_targets r) \<and> (d = n \<or> d \<in> set (deps_of D n)) \<and> users (open_deps D (F @ [n])) d = 0
                    then None else map_of p d)"
proof -
  let ?O = "open_deps D (F @ [n])"
  have ds: "dict_get_default (rf_deps r) n [] = deps_of D n" using n(2) by (simp add: r(1) get_open)
  obtain u st where dr: "drop_uses (rf_targets r) (rf_uses r) (deps_of D n) [] = (u, st)" by fastforce
  note du = drop_uses_exact [OF conjunct1 [OF deps_of_D [OF D]] dr]
  have us: "users ?O d = users (open_deps D F) d - (if d \<in> set (deps_of D n) then 1 else 0)" for d
    using users_del [OF ok_open [OF D], of n F d] n(2) by (simp add: open_deps_snoc get_open)
  have u: "dict_get_default u d 0 = users ?O d" for d using du r(2) us by simp
  have st: "set st = {d \<in> set (deps_of D n). users ?O d = 0 \<and> d \<notin> set (rf_targets r)}"
    using du r(2) us by auto
  let ?r = "r\<lparr>rf_deps := ?O, rf_uses := u\<rparr>"
  let ?p = "if users (open_deps D F) n = 0 \<and> n \<notin> set (rf_targets r) then dict_del n p else p"
  have f: "ref_finished n r p = retire ?r ?p st"
    using r ds dr by (simp add: ref_finished_def open_deps_snoc)
  have "\<forall>c \<in> set st. c \<notin> fst ` set (rf_deps ?r)" using st n(3) by (auto simp: open_deps_def)
  from retire_idle [OF this, of ?p] fin f
  have res: "r' = ?r" "p' = fold (\<lambda>c p. if dict_get_default u c 0 = 0 \<and> c \<notin> set (rf_targets r) then dict_del c p else p) st ?p"
    by simp_all
  have nn: "n \<notin> set (deps_of D n)" using n(2,3) by auto
  show "rf_deps r' = ?O" "rf_targets r' = rf_targets r" "\<forall>d. dict_get_default (rf_uses r') d 0 = users ?O d"
    using res u by simp_all
  show "map_of p' d = (if d \<notin> set (rf_targets r) \<and> (d = n \<or> d \<in> set (deps_of D n)) \<and> users ?O d = 0
      then None else map_of p d)"
    unfolding res(2) map_of_fold_del using st u us [of n] nn by auto
qed

section \<open>The invariant\<close>

definition task_ids :: "('v, 'e) sched \<Rightarrow> string set" where
  "task_ids s = fst ` set (sc_tasks s)"

definition open_count :: "deps \<Rightarrow> string list \<Rightarrow> string \<Rightarrow> int" where
  "open_count D finished n = int (length (filter (\<lambda>d. d \<notin> set finished) (deps_of D n)))"

text \<open>Every task was created once, after its dependencies returned; a level that is going created all it could.\<close>

definition tasks_ok :: "deps \<Rightarrow> ('v, 'e) sched \<Rightarrow> bool" where
  "tasks_ok D s \<longleftrightarrow>
     dict_ok (sc_tasks s) \<and> distinct (sc_created s) \<and> distinct (sc_finished s) \<and>
     set (sc_created s) \<subseteq> fst ` set D \<and> set (sc_finished s) \<union> task_ids s \<subseteq> set (sc_created s) \<and>
     set (sc_finished s) \<inter> task_ids s = {} \<and>
     set (sc_stopped s) \<subseteq> set (sc_created s) \<and> set (sc_stopped s) \<inter> (set (sc_finished s) \<union> task_ids s) = {} \<and>
     (\<forall>n \<in> set (sc_created s). set (deps_of D n) \<subseteq> set (sc_finished s)) \<and>
     (\<not> sc_aborting s \<longleftrightarrow> sc_errors s = [] \<and> \<not> sc_cancelled s) \<and>
     (\<not> sc_aborting s \<longrightarrow>
        (\<forall>n \<in> fst ` set D. dict_get_default (sc_remaining s) n 0 = open_count D (sc_finished s) n) \<and>
        (\<forall>n \<in> fst ` set D. set (deps_of D n) \<subseteq> set (sc_finished s) \<longrightarrow> n \<in> set (sc_created s)) \<and>
        set (sc_created s) = set (sc_finished s) \<union> set (sc_stopped s) \<union> task_ids s)"

definition refs_ok :: "deps \<Rightarrow> string list \<Rightarrow> ('v, 'e) sched \<Rightarrow> bool" where
  "refs_ok D targets s \<longleftrightarrow>
     rf_targets (sc_refs s) = targets \<and> rf_deps (sc_refs s) = open_deps D (sc_finished s) \<and>
     (\<forall>d. dict_get_default (rf_uses (sc_refs s)) d 0 = users (open_deps D (sc_finished s)) d)"

text \<open>
  The outputs kept are those of returned nodes that are targets or have a consumer that did not
  return; \<open>val\<close> is what each node returned.
\<close>

definition held :: "deps \<Rightarrow> string list \<Rightarrow> string list \<Rightarrow> string \<Rightarrow> bool" where
  "held D targets finished d \<longleftrightarrow> d \<in> set targets \<or> 0 < users (open_deps D finished) d"

definition inputs_of :: "deps \<Rightarrow> (string \<Rightarrow> 'v) \<Rightarrow> string \<Rightarrow> (string \<times> 'v) list" where
  "inputs_of D val n = map (\<lambda>d. (d, val d)) (deps_of D n)"

definition values_ok :: "deps \<Rightarrow> string list \<Rightarrow> (string, 'v) dict \<Rightarrow>
    (string \<Rightarrow> (string \<times> 'v) list \<Rightarrow> 'e task_error + 'v \<Rightarrow> bool) \<Rightarrow> (string \<Rightarrow> 'v) \<Rightarrow> ('v, 'e) sched \<Rightarrow> bool" where
  "values_ok D targets produced0 may val s \<longleftrightarrow>
     (\<forall>d. map_of (sc_produced s) d =
        (if d \<in> set (sc_finished s) then if held D targets (sc_finished s) d then Some (val d) else None
         else map_of produced0 d)) \<and>
     (\<forall>n \<in> set (sc_finished s). may n (inputs_of D val n) (Inr (val n))) \<and>
     (\<forall>n ins. map_of (sc_tasks s) n = Some (Some ins) \<longrightarrow> ins = inputs_of D val n)"

definition sched_ok where
  "sched_ok D targets produced0 may s \<longleftrightarrow>
     tasks_ok D s \<and> refs_ok D targets s \<and> (\<exists>val. values_ok D targets produced0 may val s)"

lemma task_ids_map_of: "n \<in> task_ids s \<longleftrightarrow> map_of (sc_tasks s) n \<noteq> None"
  by (simp add: task_ids_def map_of_eq_None_iff)

lemma fold_create: "fold create_task ns s =
    s\<lparr>sc_tasks := fold (\<lambda>n. dict_set n None) ns (sc_tasks s), sc_created := sc_created s @ ns\<rparr>"
  by (induction ns arbitrary: s) (simp_all add: create_task_def)

lemma map_of_fold_set: "map_of (fold (\<lambda>n. dict_set n None) ns d) x =
    (if x \<in> set ns then Some None else map_of d x)"
  by (induction ns arbitrary: d) auto

lemma keys_fold_set: "fst ` set (fold (\<lambda>n. dict_set n None) ns d) = set ns \<union> fst ` set d"
  by (induction ns arbitrary: d) auto

lemma dict_ok_fold_set: "dict_ok d \<Longrightarrow> dict_ok (fold (\<lambda>n. dict_set n None) ns d)"
  by (induction ns arbitrary: d) auto

lemma release_going:
  "distinct ms \<Longrightarrow> \<not> sc_aborting s \<Longrightarrow> \<exists>rem.
     release_dependents ms s =
       fold create_task (filter (\<lambda>m. dict_get_default (sc_remaining s) m 0 = 1) ms) (s\<lparr>sc_remaining := rem\<rparr>) \<and>
     (\<forall>m. dict_get_default rem m 0 = dict_get_default (sc_remaining s) m 0 - (if m \<in> set ms then 1 else 0))"
proof (induction ms arbitrary: s)
  case Nil
  then show ?case by (intro exI [of _ "sc_remaining s"]) simp
next
  case (Cons m ms)
  let ?k = "dict_get_default (sc_remaining s) m 0 - 1"
  let ?s = "s\<lparr>sc_remaining := dict_set m ?k (sc_remaining s)\<rparr>"
  let ?t = "if ?k = 0 then create_task m ?s else ?s"
  have m: "m \<notin> set ms" "distinct ms" using Cons.prems by simp_all
  have rem: "sc_remaining ?t = dict_set m ?k (sc_remaining s)" "\<not> sc_aborting ?t"
    using Cons.prems by (simp_all add: create_task_def)
  have new: "filter (\<lambda>x. dict_get_default (sc_remaining ?t) x 0 = 1) ms =
      filter (\<lambda>x. dict_get_default (sc_remaining s) x 0 = 1) ms"
    unfolding rem(1) using m by (auto intro!: filter_cong)
  obtain r where r: "release_dependents ms ?t =
      fold create_task (filter (\<lambda>x. dict_get_default (sc_remaining s) x 0 = 1) ms) (?t\<lparr>sc_remaining := r\<rparr>)"
    "\<forall>x. dict_get_default r x 0 = dict_get_default (sc_remaining ?t) x 0 - (if x \<in> set ms then 1 else 0)"
    using Cons.IH [OF m(2) rem(2)] unfolding new by blast
  have "release_dependents (m # ms) s = release_dependents ms ?t"
    using Cons.prems by (simp add: Let_def)
  also have "\<dots> = fold create_task (filter (\<lambda>x. dict_get_default (sc_remaining s) x 0 = 1) (m # ms))
      (s\<lparr>sc_remaining := r\<rparr>)"
    unfolding r(1) by (cases "?k = 0") (simp_all add: create_task_def fold_create)
  finally show ?case using r(2) m unfolding rem(1) by (intro exI [of _ r]) auto
qed

lemma release_aborting:
  "sc_aborting s \<Longrightarrow> \<exists>rem es. release_dependents ms s = s\<lparr>sc_remaining := rem, sc_errors := es\<rparr> \<and>
     (sc_errors s \<noteq> [] \<longrightarrow> es \<noteq> [])"
proof (induction ms arbitrary: s)
  case Nil
  then show ?case by (intro exI [of _ "sc_remaining s"] exI [of _ "sc_errors s"]) simp
next
  case (Cons m ms)
  let ?k = "dict_get_default (sc_remaining s) m 0 - 1"
  let ?s = "s\<lparr>sc_remaining := dict_set m ?k (sc_remaining s)\<rparr>"
  show ?case
  proof (cases "?k = 0")
    case True
    with Cons.prems show ?thesis
      by (intro exI [of _ "sc_remaining ?s"] exI [of _ "sc_errors s @ [ShuttingDown]"])
         (simp add: fail_task_def Let_def)
  next
    case False
    obtain rem es where "release_dependents ms ?s = ?s\<lparr>sc_remaining := rem, sc_errors := es\<rparr>"
      "sc_errors s \<noteq> [] \<longrightarrow> es \<noteq> []"
      using Cons.IH [of ?s] Cons.prems by auto
    with False show ?thesis by (intro exI [of _ rem] exI [of _ es]) (simp add: Let_def)
  qed
qed

lemma dependents_iff: "dict_ok D \<Longrightarrow> m \<in> set (dependents D n) \<longleftrightarrow> n \<in> set (deps_of D m)"
proof -
  assume "dict_ok D"
  then have "distinct (map fst D)" by (simp add: dict_ok_def)
  then have "m \<in> set (dependents D n) \<longleftrightarrow> (\<exists>ds. map_of D m = Some ds \<and> n \<in> set ds)"
    by (force simp: dependents_def)
  then show ?thesis by (auto simp: deps_of_def dict_get_default_def split: option.splits)
qed

lemma distinct_dependents: "dict_ok D \<Longrightarrow> distinct (dependents D n)"
  by (simp add: dependents_def dict_ok_def distinct_map_filter)

lemma open_count_snoc: "deps_ok D \<Longrightarrow> n \<notin> set F \<Longrightarrow>
    open_count D (F @ [n]) m = open_count D F m - (if n \<in> set (deps_of D m) then 1 else 0)"
proof -
  assume D: "deps_ok D" and n: "n \<notin> set F"
  have "int (length (filter (\<lambda>d. d \<notin> set (F @ [n])) ds)) =
      int (length (filter (\<lambda>d. d \<notin> set F) ds)) - (if n \<in> set ds then 1 else 0)" if "distinct ds" for ds
    using that n by (induction ds) auto
  then show ?thesis using deps_of_D [OF D] by (simp add: open_count_def)
qed

lemma open_count_0: "open_count D F n = 0 \<longleftrightarrow> set (deps_of D n) \<subseteq> set F"
  by (auto simp: open_count_def filter_empty_conv)

lemma start_ok:
  assumes D: "deps_ok D" and order: "distinct order" "set order = fst ` set D"
  shows "sched_ok D targets produced may (start_dag D order targets produced)"
proof -
  let ?rem = "map (\<lambda>(n, ds). (n, int (length ds))) D"
  have rem: "dict_get_default ?rem n 0 = open_count D [] n" for n
    by (induction D) (auto simp: open_count_def deps_of_def split: if_splits)
  have uses: "dict_get_default (count_uses D) d 0 = users (open_deps D []) d" for d
    using count_uses_exact [of D d] D by (auto simp: deps_ok_def open_deps_def)
  let ?s = "start_dag D order targets produced"
  have s: "?s = \<lparr>sc_remaining = ?rem,
      sc_tasks = fold (\<lambda>n. dict_set n None) (filter (\<lambda>n. open_count D [] n = 0) order) [],
      sc_produced = produced, sc_refs = new_refs D targets,
      sc_created = filter (\<lambda>n. open_count D [] n = 0) order, sc_finished = [], sc_stopped = [], sc_errors = [],
      sc_aborting = False, sc_cancelled = False\<rparr>"
    by (simp add: start_dag_def fold_create rem)
  have "tasks_ok D ?s"
    using order by (auto simp: s tasks_ok_def task_ids_def keys_fold_set open_count_0 rem dict_ok_fold_set)
  moreover have "refs_ok D targets ?s"
    using uses by (simp add: refs_ok_def s new_refs_def) (simp add: open_deps_def)
  moreover have "values_ok D targets produced may undefined ?s"
    by (auto simp: values_ok_def s map_of_fold_set split: if_splits)
  ultimately show ?thesis by (auto simp: sched_ok_def)
qed

text \<open>Steps that only touch a task.\<close>

lemma end_task_ok: "tasks_ok D s \<Longrightarrow> sc_aborting s \<Longrightarrow> tasks_ok D (end_task n s)"
  by (auto simp: tasks_ok_def end_task_def task_ids_def)

lemma stop_task_ok: "tasks_ok D s \<Longrightarrow> map_of (sc_tasks s) n \<noteq> None \<Longrightarrow> tasks_ok D (stop_task n s)"
  using task_ids_map_of [of n s] by (auto simp: tasks_ok_def stop_task_def end_task_def task_ids_def)

lemma stop_task_refs: "refs_ok D targets (stop_task n s) = refs_ok D targets s"
  by (simp add: refs_ok_def stop_task_def end_task_def)

lemma stop_task_values: "values_ok D targets p0 may val s \<Longrightarrow> values_ok D targets p0 may val (stop_task n s)"
  by (simp add: values_ok_def stop_task_def end_task_def)

lemma end_task_refs: "refs_ok D targets (end_task n s) = refs_ok D targets s"
  by (simp add: refs_ok_def end_task_def)

lemma end_task_values: "values_ok D targets p0 may val s \<Longrightarrow> values_ok D targets p0 may val (end_task n s)"
  by (simp add: values_ok_def end_task_def)

lemma fail_task_ok: "tasks_ok D s \<Longrightarrow> tasks_ok D (fail_task e (end_task n s))"
  by (auto simp: tasks_ok_def fail_task_def end_task_def task_ids_def)

lemma fail_task_refs: "refs_ok D targets (fail_task e s) = refs_ok D targets s"
  by (simp add: refs_ok_def fail_task_def)

lemma fail_task_values: "values_ok D targets p0 may val (fail_task e s) = values_ok D targets p0 may val s"
  by (simp add: values_ok_def fail_task_def)

lemma task_facts:
  assumes "tasks_ok D s" and "map_of (sc_tasks s) n \<noteq> None"
  shows "n \<in> task_ids s" "n \<in> fst ` set D" "n \<notin> set (sc_finished s)" "set (deps_of D n) \<subseteq> set (sc_finished s)"
proof -
  show "n \<in> task_ids s" using assms(2) by (simp add: task_ids_map_of)
  then show "n \<in> fst ` set D" "n \<notin> set (sc_finished s)" "set (deps_of D n) \<subseteq> set (sc_finished s)"
    using assms(1) by (auto simp: tasks_ok_def)
qed

text \<open>A task in flight finds the outputs of its dependencies.\<close>

lemma held_by_task:
  assumes "deps_ok D" and "n \<in> fst ` set D" "n \<notin> set F" and "d \<in> set (deps_of D n)"
  shows "held D targets F d"
proof -
  have "map_of D n \<noteq> None" using assms(2) by (simp add: map_of_eq_None_iff)
  then obtain ds where ds: "map_of D n = Some ds" by blast
  then have "(n, ds) \<in> set (open_deps D F)" "d \<in> set ds"
    using assms(3,4) by (auto simp: open_deps_def deps_of_def dict_get_default_def dest: map_of_SomeD)
  then show ?thesis by (auto simp: held_def users_pos)
qed

lemma read_inputs_held:
  "\<forall>d \<in> set ds. map_of p d = Some (val d) \<Longrightarrow> read_inputs p ds = Inr (map (\<lambda>d. (d, val d)) ds)"
  by (induction ds) simp_all

lemma task_inputs:
  assumes "deps_ok D" and "tasks_ok D s" and "values_ok D targets p0 may val s" and "map_of (sc_tasks s) n \<noteq> None"
  shows "read_inputs (sc_produced s) (deps_of D n) = Inr (inputs_of D val n)"
  unfolding inputs_of_def
proof (rule read_inputs_held, rule ballI)
  fix d assume d: "d \<in> set (deps_of D n)"
  note t = task_facts [OF assms(2,4)]
  from held_by_task [OF assms(1) t(2,3) d] t(4) d assms(3)
  show "map_of (sc_produced s) d = Some (val d)" by (auto simp: values_ok_def)
qed

lemma tasks_read_ok: "tasks_ok D s \<Longrightarrow> map_of (sc_tasks s) n = Some t \<Longrightarrow>
    tasks_ok D (s\<lparr>sc_tasks := dict_set n t' (sc_tasks s)\<rparr>)"
proof -
  assume t: "tasks_ok D s" "map_of (sc_tasks s) n = Some t"
  then have "task_ids (s\<lparr>sc_tasks := dict_set n t' (sc_tasks s)\<rparr>) = task_ids s"
    using task_facts(1) [OF t(1), of n] by (auto simp: task_ids_def)
  with t(1) show ?thesis
    unfolding tasks_ok_def by auto
qed

text \<open>What a returning node leaves.\<close>

lemma return_node_fields:
  fixes s :: "('v, 'e) sched"
  assumes D: "deps_ok D" and T: "tasks_ok D s" and R: "refs_ok D targets s" and n: "map_of (sc_tasks s) n \<noteq> None"
  obtains new rem es where
    "return_node D n v s = s\<lparr>sc_remaining := rem, sc_tasks := fold (\<lambda>n. dict_set n None) new (dict_del n (sc_tasks s)),
       sc_produced := snd (ref_finished n (sc_refs s) (dict_set n v (sc_produced s))),
       sc_refs := fst (ref_finished n (sc_refs s) (dict_set n v (sc_produced s))),
       sc_created := sc_created s @ new, sc_finished := sc_finished s @ [n], sc_errors := es\<rparr>"
    "sc_aborting s \<longrightarrow> new = [] \<and> (sc_errors s \<noteq> [] \<longrightarrow> es \<noteq> [])"
    "\<not> sc_aborting s \<longrightarrow> es = [] \<and> distinct new \<and>
       set new = {m \<in> fst ` set D. n \<in> set (deps_of D m) \<and> set (deps_of D m) \<subseteq> insert n (set (sc_finished s))} \<and>
       (\<forall>m \<in> fst ` set D. dict_get_default rem m 0 = open_count D (sc_finished s @ [n]) m)"
proof -
  note t = task_facts [OF T n]
  have ok: "dict_ok D" using D by (simp add: deps_ok_def)
  obtain refs p where fin: "ref_finished n (sc_refs s) (dict_set n v (sc_produced s)) = (refs, p)" by fastforce
  let ?s = "end_task n s\<lparr>sc_refs := refs, sc_produced := p, sc_finished := sc_finished s @ [n]\<rparr>"
  have ret: "return_node D n v s = release_dependents (dependents D n) ?s"
    by (simp add: return_node_def fin)
  show thesis
  proof (cases "sc_aborting s")
    case True
    then have "sc_aborting ?s" by (simp add: end_task_def)
    from release_aborting [OF this, of "dependents D n"] obtain rem es where
      "release_dependents (dependents D n) ?s = ?s\<lparr>sc_remaining := rem, sc_errors := es\<rparr>"
      "sc_errors ?s \<noteq> [] \<longrightarrow> es \<noteq> []" by blast
    then show thesis
      using True by (intro that [of es "[]" rem]) (simp_all add: ret fin end_task_def)
  next
    case False
    then have na: "\<not> sc_aborting ?s" by (simp add: end_task_def)
    let ?new = "filter (\<lambda>m. dict_get_default (sc_remaining s) m 0 = 1) (dependents D n)"
    obtain rem where rem: "release_dependents (dependents D n) ?s = fold create_task ?new (?s\<lparr>sc_remaining := rem\<rparr>)"
      "\<forall>m. dict_get_default rem m 0 = dict_get_default (sc_remaining s) m 0 - (if m \<in> set (dependents D n) then 1 else 0)"
      using release_going [OF distinct_dependents [OF ok, of n] na] by (auto simp: end_task_def)
    have cnt: "dict_get_default (sc_remaining s) m 0 = open_count D (sc_finished s) m" if "m \<in> fst ` set D" for m
      using T False that by (auto simp: tasks_ok_def)
    have dep: "m \<in> fst ` set D" if "m \<in> set (dependents D n)" for m
      using that by (auto simp: dependents_def)
    have rem': "dict_get_default rem m 0 = open_count D (sc_finished s @ [n]) m" if "m \<in> fst ` set D" for m
      using rem(2) cnt [OF that] dependents_iff [OF ok, of m n] open_count_snoc [OF D t(3), of m] by simp
    have "m \<in> set ?new \<longleftrightarrow> m \<in> fst ` set D \<and> n \<in> set (deps_of D m) \<and> set (deps_of D m) \<subseteq> insert n (set (sc_finished s))" for m
    proof (cases "m \<in> set (dependents D n)")
      case True
      then have "dict_get_default (sc_remaining s) m 0 = 1 \<longleftrightarrow> open_count D (sc_finished s @ [n]) m = 0"
        using cnt [OF dep [OF True]] open_count_snoc [OF D t(3), of m] dependents_iff [OF ok, of m n] by simp
      then show ?thesis using True dep [OF True] dependents_iff [OF ok, of m n] by (simp add: open_count_0)
    next
      case False
      then show ?thesis using dependents_iff [OF ok, of m n] by simp
    qed
    then have new: "set ?new = {m \<in> fst ` set D. n \<in> set (deps_of D m) \<and> set (deps_of D m) \<subseteq> insert n (set (sc_finished s))}"
      by blast
    have er: "sc_errors s = []" using T False by (auto simp: tasks_ok_def)
    show thesis
    proof (rule that [of "sc_errors s" ?new rem])
      show "return_node D n v s = s\<lparr>sc_remaining := rem, sc_tasks := fold (\<lambda>n. dict_set n None) ?new (dict_del n (sc_tasks s)),
         sc_produced := snd (ref_finished n (sc_refs s) (dict_set n v (sc_produced s))),
         sc_refs := fst (ref_finished n (sc_refs s) (dict_set n v (sc_produced s))),
         sc_created := sc_created s @ ?new, sc_finished := sc_finished s @ [n], sc_errors := sc_errors s\<rparr>"
        unfolding ret rem(1) fold_create by (simp add: fin end_task_def)
    qed (use False er new rem' distinct_dependents [OF ok, of n] in auto)
  qed
qed

lemma return_tasks_ok:
  assumes D: "deps_ok D" and T: "tasks_ok D s" and R: "refs_ok D targets s" and n: "map_of (sc_tasks s) n \<noteq> None"
  shows "tasks_ok D (return_node D n v s)"
proof -
  note t = task_facts [OF T n]
  obtain new rem es where f: "return_node D n v s = s\<lparr>sc_remaining := rem, sc_tasks := fold (\<lambda>n. dict_set n None) new (dict_del n (sc_tasks s)),
       sc_produced := snd (ref_finished n (sc_refs s) (dict_set n v (sc_produced s))),
       sc_refs := fst (ref_finished n (sc_refs s) (dict_set n v (sc_produced s))),
       sc_created := sc_created s @ new, sc_finished := sc_finished s @ [n], sc_errors := es\<rparr>"
    and ab: "sc_aborting s \<longrightarrow> new = [] \<and> (sc_errors s \<noteq> [] \<longrightarrow> es \<noteq> [])"
    and go: "\<not> sc_aborting s \<longrightarrow> es = [] \<and> distinct new \<and>
       set new = {m \<in> fst ` set D. n \<in> set (deps_of D m) \<and> set (deps_of D m) \<subseteq> insert n (set (sc_finished s))} \<and>
       (\<forall>m \<in> fst ` set D. dict_get_default rem m 0 = open_count D (sc_finished s @ [n]) m)"
    by (rule return_node_fields [where v = v, OF D T R n]) (rule that)
  have ids: "task_ids (return_node D n v s) = set new \<union> (task_ids s - {n})"
    by (simp add: f task_ids_def keys_fold_set)
  have base: "dict_ok (sc_tasks s)" "distinct (sc_created s)" "distinct (sc_finished s)"
    "set (sc_created s) \<subseteq> fst ` set D" "set (sc_finished s) \<union> task_ids s \<subseteq> set (sc_created s)"
    "set (sc_finished s) \<inter> task_ids s = {}"
    "\<forall>m \<in> set (sc_created s). set (deps_of D m) \<subseteq> set (sc_finished s)"
    "\<not> sc_aborting s \<longleftrightarrow> sc_errors s = [] \<and> \<not> sc_cancelled s"
    "set (sc_stopped s) \<subseteq> set (sc_created s)" "set (sc_stopped s) \<inter> (set (sc_finished s) \<union> task_ids s) = {}"
    using T by (simp_all add: tasks_ok_def)
  have new: "distinct new" "set new \<inter> set (sc_created s) = {}" "set new \<subseteq> fst ` set D"
    "\<forall>m \<in> set new. set (deps_of D m) \<subseteq> insert n (set (sc_finished s))"
    using ab go base(7) t(3) by (cases "sc_aborting s"; fastforce)+
  have nc: "n \<in> set (sc_created s)" using base(5) t(1) by blast
  show ?thesis
  proof (cases "sc_aborting s")
    case True
    then show ?thesis
      unfolding tasks_ok_def ids using base t ab nc by (auto simp: f)
  next
    case False
    have all: "set (deps_of D m) \<subseteq> insert n (set (sc_finished s)) \<longrightarrow> m \<in> set (sc_created s) \<union> set new"
      if "m \<in> fst ` set D" for m
      using T False mp [OF go False] that unfolding tasks_ok_def by (cases "n \<in> set (deps_of D m)") auto
    have cr: "set (sc_created s) = set (sc_finished s) \<union> set (sc_stopped s) \<union> task_ids s" using T False by (simp add: tasks_ok_def)
    have errs: "sc_errors s = []" "\<not> sc_cancelled s" using base(8) False by simp_all
    have g: "es = []" "\<forall>m \<in> fst ` set D. dict_get_default rem m 0 = open_count D (sc_finished s @ [n]) m"
      using mp [OF go False] by simp_all
    have nn: "n \<notin> set new" using new(2) nc by blast
    have fields: "sc_aborting (return_node D n v s) = False" "sc_errors (return_node D n v s) = []"
      "sc_cancelled (return_node D n v s) = False" "sc_created (return_node D n v s) = sc_created s @ new"
      "sc_finished (return_node D n v s) = sc_finished s @ [n]" "sc_stopped (return_node D n v s) = sc_stopped s" "sc_remaining (return_node D n v s) = rem"
      "sc_tasks (return_node D n v s) = fold (\<lambda>n. dict_set n None) new (dict_del n (sc_tasks s))"
      using False errs g by (simp_all add: f)
    have "set (sc_created s) \<union> set new = insert n (set (sc_finished s)) \<union> set (sc_stopped s) \<union> (set new \<union> (task_ids s - {n}))"
      using cr t(1) nn by auto
    moreover have "dict_ok (fold (\<lambda>n. dict_set n None) new (dict_del n (sc_tasks s)))"
      using base(1) by (simp add: dict_ok_fold_set)
    ultimately show ?thesis
      unfolding tasks_ok_def ids fields
    proof (intro conjI impI)
      show "distinct (sc_created s @ new)" using base(2) new(1,2) by auto
      show "distinct (sc_finished s @ [n])" using base(3) t(3) by simp
      show "set (sc_created s @ new) \<subseteq> fst ` set D" using base(4) new(3) by auto
      show "set (sc_finished s @ [n]) \<union> (set new \<union> (task_ids s - {n})) \<subseteq> set (sc_created s @ new)"
        using base(5) nc by auto
      show "set (sc_finished s @ [n]) \<inter> (set new \<union> (task_ids s - {n})) = {}"
        using base(5,6) new(2) nn by auto
      show "set (sc_stopped s) \<subseteq> set (sc_created s @ new)" using base(9) by auto
      show "set (sc_stopped s) \<inter> (set (sc_finished s @ [n]) \<union> (set new \<union> (task_ids s - {n}))) = {}"
        using base(9,10) new(2) t(1) by auto
      show "\<forall>m \<in> set (sc_created s @ new). set (deps_of D m) \<subseteq> set (sc_finished s @ [n])"
        using base(7) new(4) by fastforce
      show "\<forall>m \<in> fst ` set D. set (deps_of D m) \<subseteq> set (sc_finished s @ [n]) \<longrightarrow> m \<in> set (sc_created s @ new)"
        using all by simp
    qed (use g in simp_all)
  qed
qed

lemma return_refs_ok:
  assumes D: "deps_ok D" and T: "tasks_ok D s" and R: "refs_ok D targets s" and n: "map_of (sc_tasks s) n \<noteq> None"
  shows "refs_ok D targets (return_node D n v s)"
    and "map_of (sc_produced (return_node D n v s)) d =
      (if d \<notin> set targets \<and> (d = n \<or> d \<in> set (deps_of D n)) \<and> users (open_deps D (sc_finished s @ [n])) d = 0
       then None else map_of (dict_set n v (sc_produced s)) d)"
proof -
  note t = task_facts [OF T n]
  obtain new rem es where f: "return_node D n v s = s\<lparr>sc_remaining := rem, sc_tasks := fold (\<lambda>n. dict_set n None) new (dict_del n (sc_tasks s)),
       sc_produced := snd (ref_finished n (sc_refs s) (dict_set n v (sc_produced s))),
       sc_refs := fst (ref_finished n (sc_refs s) (dict_set n v (sc_produced s))),
       sc_created := sc_created s @ new, sc_finished := sc_finished s @ [n], sc_errors := es\<rparr>"
    by (rule return_node_fields [where v = v, OF D T R n]) (rule that)
  have r: "rf_targets (sc_refs s) = targets" "rf_deps (sc_refs s) = open_deps D (sc_finished s)"
    "\<forall>d. dict_get_default (rf_uses (sc_refs s)) d 0 = users (open_deps D (sc_finished s)) d"
    using R by (simp_all add: refs_ok_def)
  note ex = ref_finished_exact [OF D r(2,3) t(2,3,4) prod.collapse [symmetric], of "dict_set n v (sc_produced s)"]
  show "refs_ok D targets (return_node D n v s)" using ex(1-3) r(1) by (simp add: f refs_ok_def)
  show "map_of (sc_produced (return_node D n v s)) d =
      (if d \<notin> set targets \<and> (d = n \<or> d \<in> set (deps_of D n)) \<and> users (open_deps D (sc_finished s @ [n])) d = 0
       then None else map_of (dict_set n v (sc_produced s)) d)"
    using ex(4) [of d] by (simp add: f r(1))
qed

lemma return_values_ok:
  assumes D: "deps_ok D" and T: "tasks_ok D s" and R: "refs_ok D targets s"
    and V: "values_ok D targets p0 may val s" and n: "map_of (sc_tasks s) n = Some (Some ins)" and m: "may n ins (Inr v)"
  shows "values_ok D targets p0 may (val(n := v)) (return_node D n v s)"
proof -
  have n': "map_of (sc_tasks s) n \<noteq> None" using n by simp
  note t = task_facts [OF T n'] and R' = return_refs_ok [where v = v, OF D T R n']
  let ?F = "sc_finished s" and ?t = "return_node D n v s"
  obtain new rem es where f: "?t = s\<lparr>sc_remaining := rem, sc_tasks := fold (\<lambda>n. dict_set n None) new (dict_del n (sc_tasks s)),
       sc_produced := snd (ref_finished n (sc_refs s) (dict_set n v (sc_produced s))),
       sc_refs := fst (ref_finished n (sc_refs s) (dict_set n v (sc_produced s))),
       sc_created := sc_created s @ new, sc_finished := ?F @ [n], sc_errors := es\<rparr>"
    by (rule return_node_fields [where v = v, OF D T R n']) (rule that)
  have closed: "n \<notin> set (deps_of D k)" if "k \<in> set (sc_created s)" for k
    using T that t(3) by (auto simp: tasks_ok_def)
  have same: "inputs_of D (val(n := v)) k = inputs_of D val k" if "k \<in> set (sc_created s)" for k
    using closed [OF that] by (auto simp: inputs_of_def)
  have created: "set ?F \<union> task_ids s \<subseteq> set (sc_created s)" using T by (simp add: tasks_ok_def)
  have us: "users (open_deps D (?F @ [n])) d = users (open_deps D ?F) d - (if d \<in> set (deps_of D n) then 1 else 0)" for d
    using users_del [OF ok_open [OF D], of n ?F d] t(3) by (simp add: open_deps_snoc get_open)
  have P: "map_of (sc_produced s) d = (if d \<in> set ?F then if held D targets ?F d then Some (val d) else None else map_of p0 d)" for d
    using V by (simp add: values_ok_def)
  have "map_of (sc_produced ?t) d =
      (if d \<in> set (?F @ [n]) then if held D targets (?F @ [n]) d then Some ((val(n := v)) d) else None
       else map_of p0 d)" for d
  proof (cases "d = n")
    case True
    then show ?thesis
      using R'(2) [of n] users_nonneg [of "open_deps D (?F @ [n])" n] by (auto simp: held_def)
  next
    case False
    show ?thesis
    proof (cases "d \<in> set (deps_of D n)")
      case True
      then have "held D targets ?F d" "d \<in> set ?F" using held_by_task [OF D t(2,3)] t(4) by auto
      then show ?thesis
        using R'(2) [of d] False True P [of d] users_nonneg [of "open_deps D (?F @ [n])" d] by (auto simp: held_def)
    next
      case nd: False
      then have "held D targets (?F @ [n]) d = held D targets ?F d" using us [of d] by (simp add: held_def)
      then show ?thesis using R'(2) [of d] False nd P [of d] by simp
    qed
  qed
  moreover have "may k (inputs_of D (val(n := v)) k) (Inr ((val(n := v)) k))" if "k \<in> set (sc_finished ?t)" for k
  proof (cases "k = n")
    case True
    have "ins = inputs_of D val n" using V n by (simp add: values_ok_def)
    then show ?thesis using m same [of n] created t(1) True by auto
  next
    case False
    then have "k \<in> set ?F" using that by (simp add: f)
    then show ?thesis using V same [of k] created False by (auto simp: values_ok_def)
  qed
  moreover have "ins' = inputs_of D (val(n := v)) k" if "map_of (sc_tasks ?t) k = Some (Some ins')" for k ins'
  proof -
    have k: "map_of (sc_tasks s) k = Some (Some ins')"
      using that by (simp add: f map_of_fold_set split: if_splits)
    then have "k \<in> task_ids s" by (simp add: task_ids_map_of)
    then have "k \<in> set (sc_created s)" using created by blast
    then show ?thesis using same [of k] V k by (simp add: values_ok_def)
  qed
  ultimately show ?thesis unfolding values_ok_def by (simp add: f)
qed

section \<open>Every step keeps the invariant\<close>

lemma failed_ok: "sched_ok D targets p0 may s \<Longrightarrow> sched_ok D targets p0 may (fail_task e (end_task n s))"
  unfolding sched_ok_def fail_task_refs end_task_refs fail_task_values
  using fail_task_ok end_task_values by blast

lemma ended_ok: "sched_ok D targets p0 may s \<Longrightarrow> sc_aborting s \<Longrightarrow> sched_ok D targets p0 may (end_task n s)"
  unfolding sched_ok_def end_task_refs using end_task_ok end_task_values by blast

theorem sched_step_ok:
  assumes "sched_step D may s s'" and D: "deps_ok D" and "sched_ok D targets p0 may s"
  shows "sched_ok D targets p0 may s'"
proof -
  obtain val where ok: "tasks_ok D s" "refs_ok D targets s" "values_ok D targets p0 may val s"
    using assms(3) by (auto simp: sched_ok_def)
  show ?thesis using assms(1)
  proof cases
    case (read n ins)
    then have "ins = inputs_of D val n" using task_inputs [OF D ok(1,3), of n] by simp
    then have "values_ok D targets p0 may val s'" using ok(3) read(1) by (auto simp: values_ok_def)
    moreover have "refs_ok D targets s'" using ok(2) read(1) by (simp add: refs_ok_def)
    ultimately show ?thesis using tasks_read_ok [OF ok(1) read(2)] read(1) by (auto simp: sched_ok_def)
  next
    case (missing n d)
    then show ?thesis using failed_ok [OF assms(3)] by simp
  next
    case (return n ins v)
    then have n: "map_of (sc_tasks s) n \<noteq> None" by simp
    from return show ?thesis
      using return_tasks_ok [OF D ok(1,2) n] return_refs_ok(1) [OF D ok(1,2) n] return_values_ok [OF D ok return(2,3)]
      by (auto simp: sched_ok_def)
  next
    case (raise n t e)
    then show ?thesis using failed_ok [OF assms(3)] by simp
  next
    case (stop n t)
    then have "map_of (sc_tasks s) n \<noteq> None" by simp
    then show ?thesis using stop_task_ok [OF ok(1)] stop_task_values [OF ok(3)] ok(2) stop(1)
      by (auto simp: sched_ok_def stop_task_refs)
  next
    case (cancelled n)
    then show ?thesis using ended_ok [OF assms(3)] by simp
  next
    case cancel
    then have "tasks_ok D s'" using ok(1) by (auto simp: tasks_ok_def task_ids_def)
    then show ?thesis using ok cancel(1) by (auto simp: sched_ok_def refs_ok_def values_ok_def)
  qed
qed

definition dag_run :: "deps \<Rightarrow> string list \<Rightarrow> string list \<Rightarrow> (string, 'v) dict \<Rightarrow>
    (string \<Rightarrow> (string \<times> 'v) list \<Rightarrow> 'e task_error + 'v \<Rightarrow> bool) \<Rightarrow> ('v, 'e) sched \<Rightarrow> bool" where
  "dag_run D order targets produced may s \<longleftrightarrow> (sched_step D may)\<^sup>*\<^sup>* (start_dag D order targets produced) s"

definition plan_ok :: "deps \<Rightarrow> string list \<Rightarrow> bool" where
  "plan_ok D order \<longleftrightarrow> deps_ok D \<and> distinct order \<and> set order = fst ` set D \<and>
     (\<forall>i < length order. set (deps_of D (order ! i)) \<subseteq> set (take i order))"

lemma run_ok:
  assumes "plan_ok D order" and "dag_run D order targets p0 may s"
  shows "sched_ok D targets p0 may s"
  using assms(2) unfolding dag_run_def
proof (induction rule: rtranclp_induct)
  case base
  show ?case using assms(1) by (intro start_ok) (simp_all add: plan_ok_def)
next
  case (step y z)
  then show ?case using sched_step_ok assms(1) by (auto simp: plan_ok_def)
qed

section \<open>Every schedule ends\<close>

definition task_weight :: "string \<times> (string \<times> 'v) list option \<Rightarrow> int" where
  "task_weight t = (if snd t = None then 2 else 1)"

definition sched_weight :: "deps \<Rightarrow> ('v, 'e) sched \<Rightarrow> int" where
  "sched_weight D s = 3 * (int (length D) - int (length (sc_created s))) +
     sum_list (map task_weight (sc_tasks s)) + (if sc_cancelled s then 0 else 1)"

lemma weight_fold_new: "distinct ns \<Longrightarrow> \<forall>n \<in> set ns. map_of d n = None \<Longrightarrow>
    sum_list (map task_weight (fold (\<lambda>n. dict_set n None) ns d)) = sum_list (map task_weight d) + 2 * int (length ns)"
proof (induction ns arbitrary: d)
  case (Cons a ns)
  then have "\<forall>n \<in> set ns. map_of (dict_set a None d) n = None" by auto
  with Cons show ?case by (simp add: sum_list_dict_set_new task_weight_def)
qed simp

lemma weight_set: "dict_ok d \<Longrightarrow> map_of d n = Some t \<Longrightarrow>
    sum_list (map task_weight (dict_set n u d)) = sum_list (map task_weight d) - task_weight (n, t) + task_weight (n, u)"
proof (induction d)
  case (Cons p d)
  then show ?case by (cases p) (auto simp: map_of_eq_None_iff [symmetric])
qed simp

lemma weight_end: "dict_ok (sc_tasks s) \<Longrightarrow> map_of (sc_tasks s) n = Some t \<Longrightarrow>
    sched_weight D (fail_task e (end_task n s)) = sched_weight D s - task_weight (n, t) \<and>
    sched_weight D (end_task n s) = sched_weight D s - task_weight (n, t) \<and>
    sched_weight D (stop_task n s) = sched_weight D s - task_weight (n, t)"
  by (simp add: sched_weight_def fail_task_def end_task_def stop_task_def sum_list_dict_del [where f = task_weight])

lemma task_weight_pos: "0 < task_weight t"
  by (simp add: task_weight_def)

lemma step_weight:
  assumes "sched_step D may s s'" and D: "deps_ok D" and ok: "sched_ok D targets p0 may s"
  shows "sched_weight D s' < sched_weight D s"
proof -
  have T: "tasks_ok D s" and R: "refs_ok D targets s" using ok by (simp_all add: sched_ok_def)
  then have dict: "dict_ok (sc_tasks s)" by (simp add: tasks_ok_def)
  show ?thesis using assms(1)
  proof cases
    case (read n ins)
    then show ?thesis using weight_set [OF dict read(2), of "Some ins"] by (simp add: sched_weight_def task_weight_def)
  next
    case (missing n d)
    then show ?thesis using weight_end [OF dict missing(2), of D "MissingInput d"] by (simp add: task_weight_def)
  next
    case (return n ins v)
    then have n: "map_of (sc_tasks s) n \<noteq> None" by simp
    obtain new rem es where f: "return_node D n v s = s\<lparr>sc_remaining := rem, sc_tasks := fold (\<lambda>n. dict_set n None) new (dict_del n (sc_tasks s)),
         sc_produced := snd (ref_finished n (sc_refs s) (dict_set n v (sc_produced s))),
         sc_refs := fst (ref_finished n (sc_refs s) (dict_set n v (sc_produced s))),
         sc_created := sc_created s @ new, sc_finished := sc_finished s @ [n], sc_errors := es\<rparr>"
      and ab: "sc_aborting s \<longrightarrow> new = [] \<and> (sc_errors s \<noteq> [] \<longrightarrow> es \<noteq> [])"
      and go: "\<not> sc_aborting s \<longrightarrow> es = [] \<and> distinct new \<and>
         set new = {m \<in> fst ` set D. n \<in> set (deps_of D m) \<and> set (deps_of D m) \<subseteq> insert n (set (sc_finished s))} \<and>
         (\<forall>m \<in> fst ` set D. dict_get_default rem m 0 = open_count D (sc_finished s @ [n]) m)"
      by (rule return_node_fields [where v = v, OF D T R n]) (rule that)
    have "distinct (sc_created s @ new)"
      using return_tasks_ok [where v = v, OF D T R n] by (simp add: tasks_ok_def f)
    then have new: "distinct new" "set new \<inter> set (sc_created s) = {}" by auto
    have "task_ids s \<subseteq> set (sc_created s)" using T by (simp add: tasks_ok_def)
    then have "\<forall>m \<in> set new. map_of (dict_del n (sc_tasks s)) m = None"
      using new(2) by (auto simp: task_ids_map_of [symmetric]) (metis disjoint_iff not_Some_eq subsetD task_ids_map_of)
    from weight_fold_new [OF new(1) this] show ?thesis
      using sum_list_dict_del [where f = task_weight, OF dict return(2)] return(1)
      by (simp add: sched_weight_def f task_weight_def)
  next
    case (raise n t e)
    then show ?thesis using weight_end [OF dict raise(2), of D e] task_weight_pos [of "(n, t)"] by simp
  next
    case (stop n t)
    then show ?thesis using weight_end [OF dict stop(2), of D] task_weight_pos [of "(n, t)"] by simp
  next
    case (cancelled n)
    then have "map_of (sc_tasks s) n \<noteq> None" by (simp add: dict_mem_iff map_of_eq_None_iff)
    then obtain t where "map_of (sc_tasks s) n = Some t" by blast
    then show ?thesis using weight_end [OF dict, of n t D] task_weight_pos [of "(n, t)"] cancelled(1) by simp
  next
    case cancel
    then show ?thesis by (simp add: sched_weight_def)
  qed
qed

lemma weight_nonneg: "tasks_ok D s \<Longrightarrow> 0 \<le> sched_weight D s"
proof -
  assume T: "tasks_ok D s"
  then have "card (set (sc_created s)) \<le> card (fst ` set D)" by (auto simp: tasks_ok_def intro: card_mono)
  also have "\<dots> \<le> length D" using card_image_le [of "set D" fst] card_length [of D] by simp
  finally have "length (sc_created s) \<le> length D"
    using T distinct_card [of "sc_created s"] by (simp add: tasks_ok_def)
  moreover have "0 \<le> sum_list (map task_weight (sc_tasks s))"
    by (rule sum_list_nonneg) (auto simp: less_imp_le [OF task_weight_pos])
  ultimately show ?thesis by (simp add: sched_weight_def)
qed

lemma start_weight: "distinct order \<Longrightarrow> sched_weight D (start_dag D order targets p0) \<le> 3 * int (length D) + 1"
  by (simp add: start_dag_def fold_create sched_weight_def weight_fold_new Let_def)

lemma run_weight:
  "(sched_step D may ^^ k) s s' \<Longrightarrow> deps_ok D \<Longrightarrow> sched_ok D targets p0 may s \<Longrightarrow>
     sched_ok D targets p0 may s' \<and> sched_weight D s' + int k \<le> sched_weight D s"
proof (induction k arbitrary: s')
  case (Suc k)
  then obtain y where y: "(sched_step D may ^^ k) s y" "sched_step D may y s'" by auto
  with Suc have "sched_ok D targets p0 may y" "sched_weight D y + int k \<le> sched_weight D s" by auto
  then show ?case using sched_step_ok [OF y(2) Suc.prems(2)] step_weight [OF y(2) Suc.prems(2)] by fastforce
qed simp

section \<open>What a stopped task holds up\<close>

text \<open>Nodes that ended as cancelled on their own, and what depends on them.\<close>

inductive blocked :: "deps \<Rightarrow> string set \<Rightarrow> string \<Rightarrow> bool" for D stopped where
  self: "n \<in> stopped \<Longrightarrow> blocked D stopped n"
| dep: "d \<in> set (deps_of D n) \<Longrightarrow> blocked D stopped d \<Longrightarrow> blocked D stopped n"

lemma blocked_none [simp]: "\<not> blocked D {} n"
proof
  assume "blocked D {} n"
  then show False by (induction rule: blocked.induct) simp_all
qed

text \<open>A level that is going and has no task left ran all nodes but those.\<close>

lemma finished_iff:
  assumes "plan_ok D order" and T: "tasks_ok D s" and "\<not> sc_aborting s" and "sc_tasks s = []"
  shows "set (sc_finished s) = {n \<in> fst ` set D. \<not> blocked D (set (sc_stopped s)) n}"
proof -
  have cr: "set (sc_created s) = set (sc_finished s) \<union> set (sc_stopped s)"
    using assms(2-4) by (auto simp: tasks_ok_def task_ids_def)
  have no: "n \<notin> set (sc_finished s)" if "blocked D (set (sc_stopped s)) n" for n
    using that
  proof (induction rule: blocked.induct)
    case (self n)
    then show ?case using T by (auto simp: tasks_ok_def)
  next
    case (dep d n)
    then show ?case using T cr by (auto simp: tasks_ok_def)
  qed
  have "\<forall>n \<in> set (take i order). n \<in> set (sc_finished s) \<or> blocked D (set (sc_stopped s)) n" if "i \<le> length order" for i
    using that
  proof (induction i)
    case (Suc i)
    let ?n = "order ! i"
    have n: "set (deps_of D ?n) \<subseteq> set (take i order)" "?n \<in> fst ` set D"
      using assms(1) Suc.prems nth_mem [of i order] by (auto simp: plan_ok_def)
    have IH: "\<forall>n \<in> set (take i order). n \<in> set (sc_finished s) \<or> blocked D (set (sc_stopped s)) n" using Suc by simp
    have "?n \<in> set (sc_finished s) \<or> blocked D (set (sc_stopped s)) ?n"
    proof (cases "set (deps_of D ?n) \<subseteq> set (sc_finished s)")
      case True
      then have "?n \<in> set (sc_created s)" using T assms(3) n(2) unfolding tasks_ok_def by blast
      then show ?thesis using cr by (auto intro: blocked.self)
    next
      case False
      then show ?thesis using IH n(1) by (auto intro: blocked.dep)
    qed
    then show ?case using IH Suc.prems by (auto simp: take_Suc_conv_app_nth)
  qed simp
  from this [of "length order"] have "\<forall>n \<in> fst ` set D. n \<in> set (sc_finished s) \<or> blocked D (set (sc_stopped s)) n"
    using assms(1) by (simp add: plan_ok_def)
  moreover have "set (sc_finished s) \<subseteq> fst ` set D" using T by (auto simp: tasks_ok_def)
  ultimately show ?thesis using no by blast
qed

section \<open>Sequential evaluation\<close>

definition eval_node :: "(string \<Rightarrow> (string \<times> 'v) list \<Rightarrow> 'v) \<Rightarrow> deps \<Rightarrow> string \<Rightarrow> (string, 'v) dict \<Rightarrow> (string, 'v) dict" where
  "eval_node f D n p = dict_set n (f n (map (\<lambda>d. (d, the (map_of p d))) (deps_of D n))) p"

definition eval_nodes :: "(string \<Rightarrow> (string \<times> 'v) list \<Rightarrow> 'v) \<Rightarrow> deps \<Rightarrow> string list \<Rightarrow> (string, 'v) dict" where
  "eval_nodes f D order = fold (eval_node f D) order []"

lemma eval_nodes_val:
  assumes P: "plan_ok D order" and val: "\<forall>n \<in> F. val n = f n (inputs_of D val n)"
    and F: "\<forall>n \<in> F. set (deps_of D n) \<subseteq> F" and "i \<le> length order"
  shows "\<forall>n \<in> F. map_of (fold (eval_node f D) (take i order) []) n = (if n \<in> set (take i order) then Some (val n) else None)"
  using assms(4)
proof (induction i)
  case (Suc i)
  let ?p = "fold (eval_node f D) (take i order) []" and ?n = "order ! i"
  have IH: "\<forall>n \<in> F. map_of ?p n = (if n \<in> set (take i order) then Some (val n) else None)" using Suc by simp
  have fold: "fold (eval_node f D) (take (Suc i) order) [] = eval_node f D ?n ?p" "set (take (Suc i) order) = insert ?n (set (take i order))"
    using Suc.prems by (simp_all add: take_Suc_conv_app_nth)
  have "map_of (eval_node f D ?n ?p) ?n = Some (val ?n)" if "?n \<in> F"
  proof -
    have "set (deps_of D ?n) \<subseteq> set (take i order)"
      using P Suc.prems nth_mem [of i order] by (auto simp: plan_ok_def)
    moreover have "set (deps_of D ?n) \<subseteq> F" using F that by blast
    ultimately have "\<forall>d \<in> set (deps_of D ?n). map_of ?p d = Some (val d)" using IH by (auto dest!: subsetD)
    then have "map (\<lambda>d. (d, the (map_of ?p d))) (deps_of D ?n) = inputs_of D val ?n"
      by (simp add: inputs_of_def)
    then show ?thesis using val that by (simp add: eval_node_def)
  qed
  then show ?case unfolding fold using IH by (auto simp: eval_node_def)
qed simp

lemma run_steps: "dag_run D order targets p0 may s \<longleftrightarrow> (\<exists>k. (sched_step D may ^^ k) (start_dag D order targets p0) s)"
  by (simp add: dag_run_def rtranclp_power)

lemma held_iff: "held D targets F d \<longleftrightarrow>
    d \<in> set targets \<or> (\<exists>n ds. (n, ds) \<in> set D \<and> n \<notin> set F \<and> d \<in> set ds)"
  unfolding held_def users_pos by (auto simp: open_deps_def)

lemma dag_ok_iff: "dag_result s = DagOk \<longleftrightarrow> sc_errors s = [] \<and> \<not> sc_cancelled s"
  by (auto simp: dag_result_def split: list.splits task_error.splits)

section \<open>Properties\<close>

text \<open>An example: \<open>b\<close> and \<open>c\<close> use \<open>a\<close>, and \<open>c\<close> is the target with \<open>b\<close>; a node returns the sum of its inputs and one.\<close>

definition ex_deps :: deps where
  "ex_deps = [(''a'', []), (''b'', [''a''])]"

definition ex_may :: "string \<Rightarrow> (string \<times> nat) list \<Rightarrow> nat task_error + nat \<Rightarrow> bool" where
  "ex_may n ins r \<longleftrightarrow> r = Inr (Suc (sum_list (map snd ins)))"

definition ex0 :: "(nat, nat) sched" where "ex0 = start_dag ex_deps [''a'', ''b''] [''b''] []"
definition ex1 :: "(nat, nat) sched" where "ex1 = ex0\<lparr>sc_tasks := dict_set ''a'' (Some []) (sc_tasks ex0)\<rparr>"
definition ex2 :: "(nat, nat) sched" where "ex2 = return_node ex_deps ''a'' 1 ex1"
definition ex3 :: "(nat, nat) sched" where
  "ex3 = ex2\<lparr>sc_tasks := dict_set ''b'' (Some [(''a'', 1)]) (sc_tasks ex2)\<rparr>"
definition ex4 :: "(nat, nat) sched" where "ex4 = return_node ex_deps ''b'' 2 ex3"

lemma ex_plan: "plan_ok ex_deps [''a'', ''b'']"
  by (auto simp: plan_ok_def deps_ok_def ex_deps_def deps_of_def less_Suc_eq)

lemma ex_run:
  "sched_step ex_deps ex_may ex0 ex1" "sched_step ex_deps ex_may ex1 ex2"
  "sched_step ex_deps ex_may ex2 ex3" "sched_step ex_deps ex_may ex3 ex4"
proof -
  show "sched_step ex_deps ex_may ex0 ex1"
    unfolding ex1_def by (rule sched_step.read) code_simp+
  show "sched_step ex_deps ex_may ex1 ex2"
    unfolding ex2_def by (rule sched_step.return [where ins = "[]"]) code_simp+
  show "sched_step ex_deps ex_may ex2 ex3"
    unfolding ex3_def by (rule sched_step.read) code_simp+
  show "sched_step ex_deps ex_may ex3 ex4"
    unfolding ex4_def by (rule sched_step.return [where ins = "[(''a'', 1)]"]) code_simp+
qed

lemma ex_dag_run: "dag_run ex_deps [''a'', ''b''] [''b''] [] ex_may ex2" "dag_run ex_deps [''a'', ''b''] [''b''] [] ex_may ex4"
  unfolding dag_run_def ex0_def [symmetric] using ex_run
  by (meson rtranclp.rtrancl_into_rtrancl rtranclp.rtrancl_refl)+

text \<open>
  A node that raises \<open>CancelledError\<close> by itself: the level of the example ends well, without an error,
  without the output of its target, and \<open>b\<close> was never started.
\<close>

lemma self_cancelled_level_ends_well:
  "dag_run ex_deps [''a'', ''b''] [''b''] [] (\<lambda>n _ r. n = ''a'' \<and> r = Inl SelfCancelled) (stop_task ''a'' ex0) \<and>
   end_dag (stop_task ''a'' ex0) = ([], DagOk) \<and> sc_tasks (stop_task ''a'' ex0) = [] \<and> sc_created (stop_task ''a'' ex0) = [''a'']"
proof -
  have "sched_step ex_deps (\<lambda>n _ r. n = ''a'' \<and> r = Inl SelfCancelled) ex0 (stop_task ''a'' ex0)"
    by (rule sched_step.stop [where t = None]) (code_simp, simp)
  then have "dag_run ex_deps [''a'', ''b''] [''b''] [] (\<lambda>n _ r. n = ''a'' \<and> r = Inl SelfCancelled) (stop_task ''a'' ex0)"
    unfolding dag_run_def ex0_def [symmetric] by (rule r_into_rtranclp)
  moreover have "end_dag (stop_task ''a'' ex0) = ([], DagOk)" "sc_tasks (stop_task ''a'' ex0) = []"
    "sc_created (stop_task ''a'' ex0) = [''a'']" by code_simp+
  ultimately show ?thesis by blast
qed

text \<open>
  C12: Whatever order the tasks run in, every node is started at most once and only after all of its
  dependencies returned, and their outputs are there for as long as its task is in flight. The
  outputs kept are exactly those of returned nodes that are targets or that a node which has not
  returned depends on.
\<close>
theorem outputs_live_while_needed:
  assumes "plan_ok D order" and "dag_run D order targets p0 may s"
  shows "distinct (sc_created s) \<and>
    (\<forall>n. map_of (sc_tasks s) n \<noteq> None \<longrightarrow>
       (\<forall>d \<in> set (deps_of D n). d \<in> set (sc_finished s) \<and> map_of (sc_produced s) d \<noteq> None)) \<and>
    (\<forall>d \<in> set (sc_finished s). map_of (sc_produced s) d \<noteq> None \<longleftrightarrow>
       d \<in> set targets \<or> (\<exists>n ds. (n, ds) \<in> set D \<and> n \<notin> set (sc_finished s) \<and> d \<in> set ds))"
proof -
  have D: "deps_ok D" using assms(1) by (simp add: plan_ok_def)
  obtain val where ok: "tasks_ok D s" "values_ok D targets p0 may val s"
    using run_ok [OF assms] by (auto simp: sched_ok_def)
  have P: "map_of (sc_produced s) d = (if held D targets (sc_finished s) d then Some (val d) else None)"
    if "d \<in> set (sc_finished s)" for d using ok(2) that by (simp add: values_ok_def)
  have "d \<in> set (sc_finished s) \<and> map_of (sc_produced s) d \<noteq> None"
    if "map_of (sc_tasks s) n \<noteq> None" "d \<in> set (deps_of D n)" for n d
    using task_facts [OF ok(1) that(1)] held_by_task [OF D _ _ that(2)] that(2) P by (auto split: if_splits)
  moreover have "distinct (sc_created s)" using ok(1) by (simp add: tasks_ok_def)
  moreover have "map_of (sc_produced s) d \<noteq> None \<longleftrightarrow> held D targets (sc_finished s) d"
    if "d \<in> set (sc_finished s)" for d using P [OF that] by simp
  ultimately show ?thesis unfolding held_iff [symmetric] by blast
qed

theorem outputs_live_while_needed_witness:
  "map_of (sc_tasks ex2) ''b'' \<noteq> None \<and> map_of (sc_produced ex2) ''a'' \<noteq> None \<and> map_of (sc_produced ex4) ''a'' = None"
proof -
  have b: "map_of (sc_tasks ex2) ''b'' \<noteq> None" "''a'' \<in> set (deps_of ex_deps ''b'')" by code_simp+
  have f: "''a'' \<in> set (sc_finished ex4)" "set (sc_finished ex4) = {''a'', ''b''}" by code_simp+
  from outputs_live_while_needed [OF ex_plan ex_dag_run(1)]
  have "\<forall>n. map_of (sc_tasks ex2) n \<noteq> None \<longrightarrow> (\<forall>d \<in> set (deps_of ex_deps n).
      d \<in> set (sc_finished ex2) \<and> map_of (sc_produced ex2) d \<noteq> None)" by (elim conjE)
  with b have a: "map_of (sc_produced ex2) ''a'' \<noteq> None" by blast
  from outputs_live_while_needed [OF ex_plan ex_dag_run(2)]
  have "\<forall>d \<in> set (sc_finished ex4). map_of (sc_produced ex4) d \<noteq> None \<longleftrightarrow> d \<in> set [''b''] \<or>
      (\<exists>n ds. (n, ds) \<in> set ex_deps \<and> n \<notin> set (sc_finished ex4) \<and> d \<in> set ds)" by (elim conjE)
  moreover have "\<not> (''a'' \<in> set [''b''] \<or> (\<exists>n ds. (n, ds) \<in> set ex_deps \<and> n \<notin> set (sc_finished ex4) \<and> ''a'' \<in> set ds))"
    unfolding f(2) by (auto simp: ex_deps_def)
  ultimately have "map_of (sc_produced ex4) ''a'' = None" using f(1) by blast
  then show ?thesis using a b by blast
qed

text \<open>
  C13: The outputs of a level do not depend on the schedule. If what a node returns is a function of
  the inputs it reads, every run that ends well ends with exactly the outputs of the targets, and
  they are those of evaluating the nodes one after the other in the order of the plan. Nodes whose
  task ended as cancelled on its own, and all that depend on them, have no output; outputs that such
  a node would have read are kept too. A run that ends badly leaves no outputs.
\<close>
theorem schedules_agree:
  assumes "plan_ok D order" and "dag_run D order targets p0 may s" and "sc_tasks s = []"
    and "\<forall>n ins v. may n ins (Inr v) \<longrightarrow> v = f n ins" and "fst ` set p0 \<inter> fst ` set D = {}"
  shows "if dag_result s = DagOk
    then \<forall>n. map_of (fst (end_dag s)) n =
      (if n \<notin> fst ` set D then map_of p0 n
       else if blocked D (set (sc_stopped s)) n then None
       else if n \<in> set targets \<or> (\<exists>m ds. (m, ds) \<in> set D \<and> blocked D (set (sc_stopped s)) m \<and> n \<in> set ds)
       then map_of (eval_nodes f D order) n else None)
    else fst (end_dag s) = []"
proof (cases "dag_result s = DagOk")
  case True
  obtain val where ok: "tasks_ok D s" "values_ok D targets p0 may val s"
    using run_ok [OF assms(1,2)] by (auto simp: sched_ok_def)
  have going: "\<not> sc_aborting s" using ok(1) True by (simp add: tasks_ok_def dag_ok_iff)
  let ?F = "set (sc_finished s)" and ?B = "blocked D (set (sc_stopped s))"
  note fin = finished_iff [OF assms(1) ok(1) going assms(3)]
  have held: "held D targets (sc_finished s) d \<longleftrightarrow> d \<in> set targets \<or> (\<exists>m ds. (m, ds) \<in> set D \<and> ?B m \<and> d \<in> set ds)" for d
    unfolding held_iff fin by force
  have "\<forall>n \<in> ?F. val n = f n (inputs_of D val n)" using ok(2) assms(4) by (auto simp: values_ok_def)
  moreover have "\<forall>n \<in> ?F. set (deps_of D n) \<subseteq> ?F" using ok(1) by (auto simp: tasks_ok_def)
  ultimately have ev: "map_of (eval_nodes f D order) n = Some (val n)" if "n \<in> ?F" for n
    using eval_nodes_val [of D order ?F val f "length order"] assms(1) that fin by (auto simp: eval_nodes_def plan_ok_def)
  have pr: "map_of (sc_produced s) n = (if n \<in> ?F then if held D targets (sc_finished s) n then Some (val n) else None
      else map_of p0 n)" for n using ok(2) by (simp add: values_ok_def)
  have p0: "map_of p0 n = None" if "n \<in> fst ` set D" for n using assms(5) that by (auto simp: map_of_eq_None_iff)
  have "map_of (sc_produced s) n =
      (if n \<notin> fst ` set D then map_of p0 n else if ?B n then None
       else if n \<in> set targets \<or> (\<exists>m ds. (m, ds) \<in> set D \<and> ?B m \<and> n \<in> set ds)
       then map_of (eval_nodes f D order) n else None)" for n
    using pr [of n] ev [of n] p0 [of n] held [of n] fin by (cases "n \<in> ?F") auto
  then show ?thesis using True by (simp add: end_dag_def)
qed (simp add: end_dag_def)

theorem schedules_agree_witness: "fst (end_dag ex4) = [(''b'', 2)] \<and>
    map_of (eval_nodes (\<lambda>_ ins. Suc (sum_list (map snd ins))) ex_deps [''a'', ''b'']) ''b'' = Some (2 :: nat)"
proof -
  have e: "sc_tasks ex4 = []" "dag_result ex4 = DagOk" by code_simp+
  have stopped: "set (sc_stopped ex4) = {}" by code_simp
  have f: "\<forall>n ins v. ex_may n ins (Inr v) \<longrightarrow> v = Suc (sum_list (map snd ins))" by (simp add: ex_may_def)
  have "map_of (fst (end_dag ex4)) ''b'' = map_of (eval_nodes (\<lambda>_ ins. Suc (sum_list (map snd ins))) ex_deps [''a'', ''b'']) ''b''"
    using schedules_agree [OF ex_plan ex_dag_run(2) e(1) f] e(2) stopped by (simp add: ex_deps_def blocked_none)
  moreover have "fst (end_dag ex4) = [(''b'', 2)]" by code_simp
  ultimately show ?thesis by simp
qed

text \<open>
  C14: Every schedule ends. A level takes at most three steps per node and one more; as long as a
  task is in flight some step can be taken, if nodes always end somehow; and when none is left and
  nothing failed, every node of the plan has returned exactly once, except the nodes whose task ended
  as cancelled on its own and those that depend on one: without such a task, every node.
\<close>
theorem levels_end:
  fixes may :: "string \<Rightarrow> (string \<times> 'v) list \<Rightarrow> 'e task_error + 'v \<Rightarrow> bool"
  assumes "plan_ok D order" and "(sched_step D may ^^ k) (start_dag D order targets p0) s"
  shows "k \<le> 3 * length D + 1 \<and>
    (sc_tasks s \<noteq> [] \<longrightarrow> (\<forall>n ins. \<exists>r. may n ins r) \<longrightarrow> (\<exists>s'. sched_step D may s s')) \<and>
    (sc_tasks s = [] \<longrightarrow> dag_result s = DagOk \<longrightarrow> distinct (sc_finished s) \<and>
       set (sc_finished s) = {n \<in> fst ` set D. \<not> blocked D (set (sc_stopped s)) n} \<and>
       (sc_stopped s = [] \<longrightarrow> set (sc_finished s) = fst ` set D))"
proof -
  have D: "deps_ok D" and order: "distinct order" "set order = fst ` set D" using assms(1) by (simp_all add: plan_ok_def)
  note run = run_weight [OF assms(2) D start_ok [OF D order]]
  have T: "tasks_ok D s" using run by (auto simp: sched_ok_def)
  have "sched_weight D (start_dag D order targets p0 :: ('v, 'e) sched) \<le> 3 * int (length D) + 1"
    by (rule start_weight [OF order(1)])
  then have "int k \<le> 3 * int (length D) + 1" using run weight_nonneg [OF T] by auto
  moreover have "\<exists>s'. sched_step D may s s'" if t: "sc_tasks s \<noteq> []" and tot: "\<forall>n ins. \<exists>r. may n ins r"
  proof -
    have "map_of (sc_tasks s) (fst (hd (sc_tasks s))) \<noteq> None" using t by (simp add: map_of_eq_None_iff)
    then obtain n t where n: "map_of (sc_tasks s) n = Some t" by blast
    show ?thesis
    proof (cases t)
      case None
      then show ?thesis using n
        by (cases "read_inputs (sc_produced s) (deps_of D n)") (blast intro: sched_step.intros)+
    next
      case (Some ins)
      obtain r where r: "may n (inputs_read t) r" using tot by blast
      show ?thesis
      proof (cases r)
        case (Inl e)
        then show ?thesis using n r by (cases "e = SelfCancelled") (blast intro: sched_step.intros)+
      next
        case (Inr v)
        then show ?thesis using n r Some by (auto simp: inputs_read_def intro: sched_step.intros)
      qed
    qed
  qed
  moreover have "distinct (sc_finished s) \<and> set (sc_finished s) = {n \<in> fst ` set D. \<not> blocked D (set (sc_stopped s)) n} \<and>
      (sc_stopped s = [] \<longrightarrow> set (sc_finished s) = fst ` set D)"
    if "sc_tasks s = []" "dag_result s = DagOk"
  proof -
    have going: "distinct (sc_finished s)" "\<not> sc_aborting s" using T that(2) by (simp_all add: tasks_ok_def dag_ok_iff)
    show ?thesis using finished_iff [OF assms(1) T going(2) that(1)] going(1) by (auto simp: blocked_none)
  qed
  ultimately show ?thesis by simp
qed

theorem levels_end_witness: "set (sc_finished ex4) = {''a'', ''b''} \<and> (4 :: nat) \<le> 7"
proof -
  have "(sched_step ex_deps ex_may ^^ 4) ex0 ex4"
    using ex_run by (auto simp: numeral_eq_Suc)
  moreover have "sc_tasks ex4 = []" "dag_result ex4 = DagOk" "sc_stopped ex4 = []" by code_simp+
  ultimately show ?thesis
    using levels_end [OF ex_plan, where may = ex_may and k = 4 and targets = "[''b'']" and ?p0.0 = "[]" and s = ex4]
    by (auto simp: ex0_def ex_deps_def)
qed

end
