(* ===== verification/Scheduler.thy ===== *)
theory Scheduler
  imports Graph_Plan Ready_Set
begin

text \<open>
  The plan of one graph level (\<^verbatim>\<open>_strong_plan\<close> of \<^verbatim>\<open>dinkster_engine/engine.py\<close>): the closure of
  the targets and its order, with the links of lazy inputs deferred. It is the documented plan of
  the graph without those links, and what the ready-set scheduler relies on.
\<close>

section \<open>The plan\<close>

text \<open>Of an effective schema, the inputs and whether they are lazy.\<close>

type_synonym effective = "(string, (string \<times> bool) list) dict"

definition lazy_ids :: "effective \<Rightarrow> string \<Rightarrow> string list" where
  "lazy_ids eff i = map fst (filter snd (dict_get_default eff i []))"

fun deferred :: "effective \<Rightarrow> string \<Rightarrow> any_node \<Rightarrow> string \<Rightarrow> bool" where
  "deferred eff i (Plain _) name \<longleftrightarrow> name \<in> set (lazy_ids eff i)"
| "deferred eff i (Region _ _) name \<longleftrightarrow> False"

definition strong_dependencies :: "effective \<Rightarrow> graph \<Rightarrow> string \<Rightarrow> string list" where
  "strong_dependencies eff g i =
     (case map_of g i of
        None \<Rightarrow> []
      | Some n \<Rightarrow>
          remdups (filter (\<lambda>j. dict_mem j g)
            (List.map_filter (\<lambda>(_, v). map_option lk_node (link_of v))
              (filter (\<lambda>(name, _). \<not> deferred eff i n name) (node_inputs n)))))"

lemma strong_dependencies_in_graph: "set (strong_dependencies eff g i) \<subseteq> fst ` set g"
  by (auto simp: strong_dependencies_def dict_mem_iff split: option.splits)

function strong_loop :: "effective \<Rightarrow> graph \<Rightarrow> string list \<Rightarrow> string list \<Rightarrow> string list" where
  "strong_loop eff g needed [] = needed"
| "strong_loop eff g needed (i # stack) =
     (if i \<in> set needed then strong_loop eff g needed stack
      else strong_loop eff g (needed @ [i]) (rev (strong_dependencies eff g i) @ stack))"
  by pat_completeness auto
termination
proof (relation "measures [\<lambda>(eff, g, needed, stack). card (fst ` set g \<union> set stack - set needed),
    \<lambda>(eff, g, needed, stack). length stack]", goal_cases)
  case (2 eff g needed i stack)
  have "fst ` set g \<union> set stack - set needed \<subseteq> fst ` set g \<union> set (i # stack) - set needed" by auto
  then have "card (fst ` set g \<union> set stack - set needed) \<le> card (fst ` set g \<union> set (i # stack) - set needed)"
    by (rule card_mono [rotated]) simp
  then show ?case by auto
next
  case (3 eff g needed i stack)
  have less: "fst ` set g \<union> set (rev (strong_dependencies eff g i) @ stack) - set (needed @ [i])
      \<subset> fst ` set g \<union> set (i # stack) - set needed"
    using 3 strong_dependencies_in_graph [of eff g i] by auto
  show ?case using psubset_card_mono [OF _ less] by simp
qed simp

text \<open>The nodes without unplaced dependencies, of which the least is placed next.\<close>

definition unblocked :: "(string, string list) dict \<Rightarrow> string list \<Rightarrow> string list" where
  "unblocked remaining order = sort (map fst (filter (\<lambda>(n, ds). ds = [] \<and> n \<notin> set order) remaining))"

function strong_order :: "(string, string list) dict \<Rightarrow> string list \<Rightarrow> string list" where
  "strong_order remaining order =
     (case unblocked remaining order of
        [] \<Rightarrow> order
      | n # _ \<Rightarrow> strong_order (strike n remaining) (order @ [n]))"
  by pat_completeness auto
termination
proof (relation "measure (\<lambda>(remaining, order). card (fst ` set remaining - set order))", goal_cases)
  case (2 remaining order n ready)
  then have "n \<in> set (unblocked remaining order)" by simp
  then have "n \<in> fst ` set remaining" "n \<notin> set order" by (force simp: unblocked_def)+
  moreover have "fst ` set (strike n remaining) = fst ` set remaining" by (force simp: strike_def)
  ultimately have "fst ` set (strike n remaining) - set (order @ [n]) \<subset> fst ` set remaining - set order" by auto
  then show ?case by (simp add: psubset_card_mono)
qed simp

declare strong_order.simps [simp del]

definition strong_plan :: "graph \<Rightarrow> string list \<Rightarrow> effective \<Rightarrow> string list \<times> (string, string list) dict" where
  "strong_plan g targets eff =
     (let needed = strong_loop eff g [] (rev targets);
          deps = map (\<lambda>n. (n, filter (\<lambda>d. d \<in> set needed) (strong_dependencies eff g n))) needed in
      (strong_order deps [], deps))"

subsection \<open>The plan of the graph without its deferred links\<close>

fun strip_node :: "effective \<Rightarrow> string \<Rightarrow> any_node \<Rightarrow> any_node" where
  "strip_node eff i (Plain n) = Plain (n\<lparr>gn_inputs := filter (\<lambda>(name, _). name \<notin> set (lazy_ids eff i)) (gn_inputs n)\<rparr>)"
| "strip_node eff i (Region r body) = Region r body"

definition strip_lazy :: "effective \<Rightarrow> graph \<Rightarrow> graph" where
  "strip_lazy eff g = map (\<lambda>(i, n). (i, strip_node eff i n)) g"

lemma map_of_strip: "map_of (strip_lazy eff g) i = map_option (strip_node eff i) (map_of g i)"
  by (induction g) (auto simp: strip_lazy_def)

lemma mem_strip: "dict_mem i (strip_lazy eff g) = dict_mem i g"
  by (force simp: dict_mem_iff strip_lazy_def)

lemma inputs_strip: "node_inputs (strip_node eff i n) = filter (\<lambda>(name, _). \<not> deferred eff i n name) (node_inputs n)"
  by (cases n) simp_all

lemma strong_dependencies_strip: "strong_dependencies eff g i = dependencies (strip_lazy eff g) i"
  by (simp add: strong_dependencies_def dependencies_def map_of_strip mem_strip inputs_strip split: option.splits)

lemma strong_loop_strip: "strong_loop eff g needed stack = reach_loop (strip_lazy eff g) needed stack"
  by (induction eff g needed stack rule: strong_loop.induct) (simp_all add: strong_dependencies_strip)

lemma unblocked_ready: "unblocked (left_over D ns order) order = ready_nodes D ns order"
  by (auto simp: unblocked_def left_over_def ready_nodes_def filter_map comp_def filter_empty_conv
      intro!: arg_cong [where f = sort] filter_cong)

lemma strong_order_kahn:
  assumes "distinct ns"
  shows "rem = left_over D ns order \<Longrightarrow> strong_order rem order = kahn rem order (ready_nodes D ns order)"
proof (induction rem order rule: strong_order.induct)
  case (1 rem order)
  show ?case
  proof (cases "ready_nodes D ns order")
    case Nil
    then show ?thesis by (simp add: strong_order.simps [of "left_over D ns order"] 1(2) unblocked_ready)
  next
    case (Cons n ready)
    have "strong_order (strike n rem) (order @ [n]) = kahn (strike n rem) (order @ [n]) (ready_nodes D ns (order @ [n]))"
      by (rule 1(1)) (simp_all add: 1(2) unblocked_ready Cons strike_left_over)
    then show ?thesis
      by (simp add: strong_order.simps [of "left_over D ns order"] 1(2) unblocked_ready Cons ready_step [OF Cons assms])
  qed
qed

lemma strong_plan_kahn:
  assumes "\<forall>t \<in> set targets. dict_mem t g"
  shows "strong_plan g targets eff =
    (let needed = reachable_from (strip_lazy eff g) targets;
         remaining = dependency_map (strip_lazy eff g) targets in
     (kahn remaining [] (sort (map fst (filter (\<lambda>(_, ds). ds = []) remaining))), remaining))"
proof -
  let ?g = "strip_lazy eff g"
  have "filter (\<lambda>t. dict_mem t ?g) targets = targets" using assms by (simp add: mem_strip)
  then have n: "strong_loop eff g [] (rev targets) = reachable_from ?g targets"
    by (simp add: strong_loop_strip reachable_from_def)
  let ?ns = "reachable_from ?g targets"
  let ?D = "\<lambda>n. filter (\<lambda>d. d \<in> set ?ns) (dependencies ?g n)"
  have m: "dependency_map ?g targets = left_over ?D ?ns []" by (simp add: dependency_map_def left_over_def Let_def)
  have "sort (map fst (filter (\<lambda>(_, ds). ds = []) (left_over ?D ?ns []))) = ready_nodes ?D ?ns []"
    by (auto simp: left_over_def ready_nodes_def filter_map comp_def filter_empty_conv
        intro!: arg_cong [where f = sort] filter_cong)
  then have k: "strong_order (dependency_map ?g targets) [] =
      kahn (dependency_map ?g targets) [] (sort (map fst (filter (\<lambda>(_, ds). ds = []) (dependency_map ?g targets))))"
    using strong_order_kahn [OF distinct_reachable_from, of _ ?D ?g targets "[]", OF refl] by (simp add: m)
  have d: "map (\<lambda>n. (n, filter (\<lambda>d. d \<in> set ?ns) (dependencies ?g n))) ?ns = dependency_map ?g targets"
    by (simp add: dependency_map_def Let_def)
  show ?thesis
    by (simp only: strong_plan_def n strong_dependencies_strip d k Let_def)
qed

text \<open>The plan is what the scheduler expects.\<close>

lemma deps_of_map: "n \<in> set (reachable_from g targets) \<Longrightarrow>
    deps_of (dependency_map g targets) n = filter (\<lambda>d. d \<in> set (reachable_from g targets)) (dependencies g n)"
  by (simp add: deps_of_def dict_get_default_def dependency_map_def Let_def map_of_map_restrict)

lemma dependency_map_ok: "deps_ok (dependency_map g targets)"
  by (auto simp: deps_ok_def dict_ok_def dependency_map_def Let_def distinct_reachable_from comp_def
      dependencies_def image_image split: option.splits)

lemma dependency_map_plan_ok:
  assumes "least_topological g (needed_set g targets) order"
  shows "plan_ok (dependency_map g targets) order"
proof -
  have keys: "fst ` set (dependency_map g targets) = needed_set g targets"
    by (simp add: dependency_map_def Let_def image_image set_reachable_from)
  have "set (deps_of (dependency_map g targets) (order ! i)) \<subseteq> set (take i order)" if "i < length order" for i
    using assms that deps_of_map [of "order ! i" g targets] nth_mem [OF that]
    by (auto simp: least_topological_def set_reachable_from)
  then show ?thesis using assms dependency_map_ok [of g targets] by (simp add: plan_ok_def keys least_topological_def)
qed

section \<open>Property\<close>

text \<open>
  C15: Apart from the links of lazy inputs, which are deferred, the engine plans a level the way the
  documented planner does: on a graph whose remaining links are acyclic it computes the plan and
  the dependency map of the graph without the deferred links, and they meet what the scheduler
  requires; otherwise the order misses nodes of the closure.
\<close>
theorem strong_plan_is_plan:
  assumes "\<forall>t \<in> set targets. dict_mem t g"
  shows "case plan (strip_lazy eff g) targets of
      Inr order \<Rightarrow> strong_plan g targets eff = (order, dependency_map (strip_lazy eff g) targets) \<and>
        plan_ok (dependency_map (strip_lazy eff g) targets) order
    | Inl _ \<Rightarrow> length (fst (strong_plan g targets eff)) \<noteq> length (snd (strong_plan g targets eff))"
proof (cases "plan (strip_lazy eff g) targets")
  case (Inl e)
  then show ?thesis
    by (auto simp: strong_plan_kahn [OF assms] plan_def Let_def dependency_map_def split: if_splits)
next
  case (Inr order)
  then have "plan_ok (dependency_map (strip_lazy eff g) targets) order"
    using plan_cases [of "strip_lazy eff g" targets] dependency_map_plan_ok by simp
  with Inr show ?thesis
    by (auto simp: strong_plan_kahn [OF assms] plan_def Let_def dependency_map_def split: if_splits)
qed

text \<open>A switch that reads one of its branches lazily, and the branch.\<close>

definition lazy_graph :: graph where
  "lazy_graph =
     [(''a'', Plain \<lparr>gn_type = ''t.a'', gn_inputs = [], gn_output_members = [], gn_slot_variants = []\<rparr>),
      (''b'', Plain \<lparr>gn_type = ''t.a'', gn_inputs = [], gn_output_members = [], gn_slot_variants = []\<rparr>),
      (''s'', Plain \<lparr>gn_type = ''t.s'',
        gn_inputs = [(''no'', VLink \<lparr>lk_node = ''a'', lk_output = ''out''\<rparr>), (''on'', VLink \<lparr>lk_node = ''b'', lk_output = ''out''\<rparr>)],
        gn_output_members = [], gn_slot_variants = []\<rparr>)]"

definition lazy_effective :: effective where
  "lazy_effective = [(''a'', []), (''b'', []), (''s'', [(''no'', True), (''on'', False)])]"

theorem strong_plan_is_plan_witness:
  "strong_plan lazy_graph [''s''] lazy_effective = ([''b'', ''s''], [(''s'', [''b'']), (''b'', [])])"
proof -
  have "\<forall>t \<in> set [''s'']. dict_mem t lazy_graph" by (simp add: lazy_graph_def dict_mem_iff)
  from strong_plan_is_plan [OF this, of lazy_effective]
  have "strong_plan lazy_graph [''s''] lazy_effective =
      ([''b'', ''s''], dependency_map (strip_lazy lazy_effective lazy_graph) [''s''])"
    if "plan (strip_lazy lazy_effective lazy_graph) [''s''] = Inr [''b'', ''s'']" using that by simp
  moreover have "plan (strip_lazy lazy_effective lazy_graph) [''s''] = Inr [''b'', ''s'']" by code_simp
  moreover have "dependency_map (strip_lazy lazy_effective lazy_graph) [''s''] = [(''s'', [''b'']), (''b'', [])]" by code_simp
  ultimately show ?thesis by simp
qed

end
