(* ===== verification/Regions.thy ===== *)
theory Regions
  imports Graph_Model Values
begin

text \<open>
  Regions (\<^verbatim>\<open>Engine._run_region\<close> of \<^verbatim>\<open>dinkster_engine/engine.py\<close>, with the absent values of
  \<^verbatim>\<open>dinkster_values/absent.py\<close>): the one primitive of repetition, as map, fold and while. Running the
  body once is a parameter, given the index of the iteration and the values of the ports; so is the
  order in which the concurrent iterations of a map complete. Events are left out.
\<close>

section \<open>Absence\<close>

definition core_absent :: string where "core_absent = ''core.absent''"
definition absent_origin_key :: string where "absent_origin_key = ''absent.origin''"
definition absent_reason_key :: string where "absent_reason_key = ''absent.reason''"
definition absent_stands_for_key :: string where "absent_stands_for_key = ''absent.standsFor''"

lemmas absent_keys = absent_origin_key_def absent_reason_key_def absent_stands_for_key_def

definition is_absent :: "val \<Rightarrow> bool" where
  "is_absent v \<longleftrightarrow> v_type v = core_absent"

definition make_absent_value :: "(string list \<Rightarrow> string) \<Rightarrow> nat \<Rightarrow> string \<Rightarrow> string \<Rightarrow> string option \<Rightarrow> val" where
  "make_absent_value hash fresh origin reason stands_for =
     (let stands = (case stands_for of None \<Rightarrow> [] | Some s \<Rightarrow> s) in
      Value core_absent (hash [core_absent, origin, reason, stands])
        [(absent_origin_key, PStr origin), (absent_reason_key, PStr reason), (absent_stands_for_key, PStr stands)]
        fresh Opaque [])"

text \<open>The metadata as text, the empty string if it is missing. Absent values are built by
  \<open>make_absent_value\<close> only, so their entries are strings.\<close>

definition meta_str :: "val \<Rightarrow> string \<Rightarrow> string" where
  "meta_str v k = (case map_of (v_meta v) k of Some (PStr s) \<Rightarrow> s | _ \<Rightarrow> [])"

definition absent_origin :: "val \<Rightarrow> string" where
  "absent_origin v = meta_str v absent_origin_key"

definition absent_reason :: "val \<Rightarrow> string" where
  "absent_reason v = meta_str v absent_reason_key"

section \<open>The engine around a region\<close>

text \<open>
  \<open>re_wrap\<close> is the registry's wrapping of a literal, \<open>re_interface\<close> the declared type of an output
  (\<^verbatim>\<open>region_interface\<close>), \<open>re_load\<close> what resolving a value gives, \<open>re_hash\<close> the hash of fingerprints,
  \<open>re_fresh\<close> the identity of the new object of an output or of the index, and \<open>re_body\<close> what the nodes
  of the body produce.
\<close>

type_synonym ports = "(string, val) dict"
type_synonym produced = "(string, ports) dict"

record 'e region_env =
  re_label :: string
  re_wrap :: "string \<Rightarrow> gval \<Rightarrow> val option"
  re_interface :: "string \<Rightarrow> type_expr option"
  re_load :: "val \<Rightarrow> pyobj"
  re_hash :: "string list \<Rightarrow> string"
  re_fresh :: "string \<Rightarrow> nat"
  re_body :: "nat \<Rightarrow> ports \<Rightarrow> 'e + produced"

datatype 'e region_failure =
    BodyFailed 'e
  | NoOutput link
  | NoLiteralType string
  | BadLiteral string
  | NoPort string
  | NotAList string
  | UnequalLengths "(string \<times> nat) list"
  | EmptyPorts "string list"
  | TooManyBindings nat
  | AbsentContinue
  | ContinueNotBool
  | LoopGuard
  | Unfinished
  | NoListType string
  | NoListValue string
  | WrongChild string

definition opt_or :: "'e \<Rightarrow> 'a option \<Rightarrow> 'e + 'a" where
  "opt_or e x = (case x of None \<Rightarrow> Inl e | Some y \<Rightarrow> Inr y)"

text \<open>The same computation on each element, up to the first failure.\<close>

fun each :: "('a \<Rightarrow> 'e + 'b) \<Rightarrow> 'a list \<Rightarrow> 'e + 'b list" where
  "each f [] = Inr []"
| "each f (x # xs) = and_then (f x) (\<lambda>y. and_then (each f xs) (\<lambda>ys. Inr (y # ys)))"

definition dict_update :: "('k, 'v) dict \<Rightarrow> ('k, 'v) dict \<Rightarrow> ('k, 'v) dict" where
  "dict_update d e = fold (\<lambda>(k, v). dict_set k v) e d"

section \<open>Inputs and bindings\<close>

definition source_value :: "produced \<Rightarrow> link \<Rightarrow> 'e region_failure + val" where
  "source_value p l =
     opt_or (NoOutput l) (Option.bind (map_of p (lk_node l)) (\<lambda>outs. map_of outs (lk_output l)))"

fun region_input :: "'e region_env \<Rightarrow> region \<Rightarrow> produced \<Rightarrow> string \<times> gval \<Rightarrow> 'e region_failure + string \<times> val" where
  "region_input env rn p (i, VLink l) = and_then (source_value p l) (\<lambda>v. Inr (i, v))"
| "region_input env rn p (i, VTyped t x) = and_then (opt_or (BadLiteral i) (re_wrap env t x)) (\<lambda>v. Inr (i, v))"
| "region_input env rn p (i, raw) =
     and_then (opt_or (NoPort i) (map_of (rn_ports rn) i)) (\<lambda>port.
     and_then (opt_or (NoLiteralType i) (runtime_type_id (if i \<in> set (rn_element_ports rn) then ListOf port else port))) (\<lambda>t.
     and_then (opt_or (BadLiteral i) (re_wrap env t raw)) (\<lambda>v. Inr (i, v))))"

definition region_inputs :: "'e region_env \<Rightarrow> region \<Rightarrow> produced \<Rightarrow> 'e region_failure + ports" where
  "region_inputs env rn p = each (region_input env rn p) (rn_inputs rn)"

definition absent_input :: "ports \<Rightarrow> (string \<times> val) option" where
  "absent_input inputs =
     map_option (\<lambda>i. (i, the (map_of inputs i)))
       (find (\<lambda>i. is_absent (the (map_of inputs i))) (sort (map fst inputs)))"

text \<open>The element lists by port; a port that is listed twice has one entry.\<close>

definition port_elements :: "ports \<Rightarrow> string \<Rightarrow> 'e region_failure + string \<times> val list" where
  "port_elements inputs port =
     and_then (opt_or (NoPort port) (map_of inputs port)) (\<lambda>v.
     and_then (opt_or (NotAList port) (list_children v)) (\<lambda>cs. Inr (port, cs)))"

definition binding_of :: "(string \<times> 'a) list \<Rightarrow> (string, 'a) dict" where
  "binding_of ps = dict_update [] ps"

fun product_of :: "'a list list \<Rightarrow> 'a list list" where
  "product_of [] = [[]]"
| "product_of (xs # xss) = concat (map (\<lambda>x. map ((#) x) (product_of xss)) xs)"

definition zip_bindings :: "string list \<Rightarrow> (string, val list) dict \<Rightarrow> 'e region_failure + ports list" where
  "zip_bindings eports els =
     (let lengths = map (\<lambda>(p, cs). (p, length cs)) els in
      if card (set (map snd lengths)) > 1 then Inl (UnequalLengths lengths)
      else Inr (map (\<lambda>i. binding_of (map (\<lambda>p. (p, the (map_of els p) ! i)) eports)) [0..<snd (hd lengths)]))"

definition cross_bindings :: "string list \<Rightarrow> (string, val list) dict \<Rightarrow> ports list" where
  "cross_bindings eports els =
     map (\<lambda>combo. binding_of (zip eports combo)) (product_of (map (\<lambda>p. the (map_of els p)) eports))"

definition broadcast_bindings :: "string list \<Rightarrow> (string, val list) dict \<Rightarrow> 'e region_failure + ports list" where
  "broadcast_bindings eports els =
     (let lengths = map (\<lambda>(p, cs). (p, length cs)) els; count = Max (set (map snd lengths));
          empty_ports = map fst (filter (\<lambda>(p, n). n = 0) lengths) in
      if empty_ports \<noteq> [] \<and> count \<noteq> 0 then Inl (EmptyPorts empty_ports)
      else Inr (map (\<lambda>i. binding_of (map (\<lambda>p.
        (p, the (map_of els p) ! min i (length (the (map_of els p)) - 1))) eports)) [0..<count]))"

definition region_bindings :: "region \<Rightarrow> ports \<Rightarrow> 'e region_failure + ports list" where
  "region_bindings rn inputs =
     (if rn_element_ports rn = [] then Inr []
      else and_then (each (port_elements inputs) (rn_element_ports rn)) (\<lambda>found.
        let els = binding_of found in
        and_then
          (case rn_binding rn of
             Zip \<Rightarrow> zip_bindings (rn_element_ports rn) els
           | Cross \<Rightarrow> Inr (cross_bindings (rn_element_ports rn) els)
           | Broadcast \<Rightarrow> broadcast_bindings (rn_element_ports rn) els)
        (\<lambda>bs.
          case rn_max_iterations rn of
            None \<Rightarrow> Inr bs
          | Some m \<Rightarrow> if m < int (length bs) then Inl (TooManyBindings (length bs)) else Inr bs)))"

section \<open>Iterations\<close>

definition region_index_port :: string where "region_index_port = ''index''"
definition core_int :: string where "core_int = ''INT''"

definition body_ports :: "'e region_env \<Rightarrow> region \<Rightarrow> ports \<Rightarrow> nat \<Rightarrow> ports \<Rightarrow> ports \<Rightarrow> 'e region_failure + ports" where
  "body_ports env rn bc i binding state =
     (let ps = dict_update (dict_update bc binding) state in
      if dict_mem region_index_port (rn_ports rn) then Inr ps
      else and_then (opt_or (BadLiteral region_index_port) (re_wrap env core_int (VInt (int i)))) (\<lambda>v.
        Inr (dict_set region_index_port v ps)))"

definition run_iteration :: "'e region_env \<Rightarrow> region \<Rightarrow> ports \<Rightarrow> nat \<Rightarrow> ports \<Rightarrow> ports \<Rightarrow> 'e region_failure + produced" where
  "run_iteration env rn bc i binding state =
     and_then (body_ports env rn bc i binding state) (\<lambda>ps.
       case re_body env i ps of
         Inl e \<Rightarrow> Inl (BodyFailed e)
       | Inr p \<Rightarrow> Inr (dict_update [(ports_node_id, ps)] p))"

record collected =
  co_gathered :: "(string, val list) dict"
  co_last :: ports
  co_state :: ports

definition collects :: "output_mode \<Rightarrow> bool" where
  "collects m \<longleftrightarrow> m \<in> {Gather, Compact, Flatten}"

definition sources_of :: "(output_mode \<Rightarrow> bool) \<Rightarrow> region \<Rightarrow> produced \<Rightarrow> 'e region_failure + (string \<times> output_mode \<times> val) list" where
  "sources_of P rn p =
     each (\<lambda>(k, out). and_then (source_value p (ro_source out)) (\<lambda>v. Inr (k, ro_mode out, v)))
       (filter (\<lambda>(k, out). P (ro_mode out)) (rn_outputs rn))"

fun put_output :: "string \<times> output_mode \<times> val \<Rightarrow> collected \<Rightarrow> collected" where
  "put_output (k, m, v) acc =
     (case m of
        StateOutput \<Rightarrow> acc\<lparr>co_state := dict_set k v (co_state acc)\<rparr>
      | Last \<Rightarrow> acc\<lparr>co_last := dict_set k v (co_last acc)\<rparr>
      | _ \<Rightarrow> acc\<lparr>co_gathered := dict_set k (the (map_of (co_gathered acc) k) @ [v]) (co_gathered acc)\<rparr>)"

definition collect_outputs :: "region \<Rightarrow> produced \<Rightarrow> collected \<Rightarrow> 'e region_failure + collected" where
  "collect_outputs rn p acc = and_then (sources_of (\<lambda>m. m \<noteq> StateOutput) rn p) (\<lambda>vs. Inr (fold put_output vs acc))"

definition advance_state :: "region \<Rightarrow> produced \<Rightarrow> collected \<Rightarrow> 'e region_failure + collected" where
  "advance_state rn p acc = and_then (sources_of (\<lambda>m. m = StateOutput) rn p) (\<lambda>vs. Inr (fold put_output vs acc))"

definition start_collecting :: "region \<Rightarrow> ports \<Rightarrow> 'e region_failure + collected" where
  "start_collecting rn inputs =
     and_then (each (\<lambda>p. and_then (opt_or (NoPort p) (map_of inputs p)) (\<lambda>v. Inr (p, v))) (rn_state_ports rn)) (\<lambda>st.
       Inr \<lparr>co_gathered = map (\<lambda>(k, out). (k, [])) (filter (\<lambda>(k, out). collects (ro_mode out)) (rn_outputs rn)),
            co_last = [], co_state = binding_of st\<rparr>)"

text \<open>A map: the iterations complete in some order, the first that fails cancels the others.\<close>

fun map_loop :: "'e region_env \<Rightarrow> region \<Rightarrow> ports \<Rightarrow> ports list \<Rightarrow> nat list \<Rightarrow> produced option list \<Rightarrow>
    'e region_failure + produced option list" where
  "map_loop env rn bc bs [] results = Inr results"
| "map_loop env rn bc bs (i # order) results =
     and_then (run_iteration env rn bc i (bs ! i) []) (\<lambda>p. map_loop env rn bc bs order (results[i := Some p]))"

fun collect_all :: "region \<Rightarrow> produced option list \<Rightarrow> collected \<Rightarrow> 'e region_failure + collected" where
  "collect_all rn [] acc = Inr acc"
| "collect_all rn (None # rs) acc = Inl Unfinished"
| "collect_all rn (Some p # rs) acc = and_then (collect_outputs rn p acc) (collect_all rn rs)"

fun fold_loop :: "'e region_env \<Rightarrow> region \<Rightarrow> ports \<Rightarrow> nat \<Rightarrow> ports list \<Rightarrow> collected \<Rightarrow> 'e region_failure + collected" where
  "fold_loop env rn bc i [] acc = Inr acc"
| "fold_loop env rn bc i (b # bs) acc =
     and_then (run_iteration env rn bc i b (co_state acc)) (\<lambda>p.
     and_then (collect_outputs rn p acc) (\<lambda>acc1.
     and_then (advance_state rn p acc1) (fold_loop env rn bc (Suc i) bs)))"

definition while_step :: "'e region_env \<Rightarrow> region \<Rightarrow> ports \<Rightarrow> link \<Rightarrow> nat \<Rightarrow> collected \<Rightarrow> 'e region_failure + bool \<times> collected" where
  "while_step env rn bc cont i acc =
     and_then (run_iteration env rn bc i [] (co_state acc)) (\<lambda>p.
     and_then (source_value p cont) (\<lambda>v.
       if is_absent v then Inl AbsentContinue
       else case re_load env v of
         PBool b \<Rightarrow> and_then (collect_outputs rn p acc) (\<lambda>acc1. and_then (advance_state rn p acc1) (\<lambda>acc2. Inr (b, acc2)))
       | _ \<Rightarrow> Inl ContinueNotBool))"

function while_loop :: "'e region_env \<Rightarrow> region \<Rightarrow> ports \<Rightarrow> link \<Rightarrow> int \<Rightarrow> nat \<Rightarrow> collected \<Rightarrow> 'e region_failure + nat \<times> collected" where
  "while_loop env rn bc cont m i acc =
     and_then (while_step env rn bc cont i acc) (\<lambda>(b, acc1).
       if \<not> b then Inr (Suc i, acc1)
       else if m \<le> int (Suc i) then Inl LoopGuard
       else while_loop env rn bc cont m (Suc i) acc1)"
  by pat_completeness auto
termination by (relation "measure (\<lambda>(_, _, _, _, m, i, _). nat (m - int i))") auto

declare while_loop.simps [simp del]

section \<open>Outputs\<close>

definition list_output :: "'e region_env \<Rightarrow> string \<Rightarrow> output_mode \<Rightarrow> string \<Rightarrow> val list \<Rightarrow> 'e region_failure + val" where
  "list_output env k mode list_runtime vs =
     and_then (opt_or (NoListType k) (parse_list_type_id list_runtime)) (\<lambda>t.
       case find is_absent vs of
         Some c \<Rightarrow>
           if mode \<noteq> Compact
           then Inr (make_absent_value (re_hash env) (re_fresh env k) (absent_origin c) (absent_reason c) (Some list_runtime))
           else map_sum WrongChild id (make_list_value (re_hash env) (re_fresh env k) t (filter (\<lambda>v. \<not> is_absent v) vs))
       | None \<Rightarrow>
           and_then (if mode = Flatten then each (\<lambda>v. opt_or (NoListValue k) (list_children v)) vs else Inr [vs]) (\<lambda>vss.
             map_sum WrongChild id (make_list_value (re_hash env) (re_fresh env k) t (concat vss))))"

definition region_output_value :: "'e region_env \<Rightarrow> collected \<Rightarrow> string \<times> region_output \<Rightarrow> 'e region_failure + string \<times> val" where
  "region_output_value env acc = (\<lambda>(k, out).
     and_then
       (case ro_mode out of
          StateOutput \<Rightarrow> opt_or (NoPort k) (map_of (co_state acc) k)
        | Last \<Rightarrow> Inr (case map_of (co_last acc) k of
              Some v \<Rightarrow> v
            | None \<Rightarrow> make_absent_value (re_hash env) (re_fresh env k) (re_label env @ ''/'' @ k)
                ''region completed zero iterations'' (Option.bind (re_interface env k) runtime_type_id))
        | mode \<Rightarrow>
            and_then (opt_or (NoListType k) (Option.bind (re_interface env k) runtime_type_id)) (\<lambda>t.
              list_output env k mode t (the (map_of (co_gathered acc) k))))
     (\<lambda>v. Inr (k, v)))"

datatype region_end = Skipped string string string | Ran nat

definition skipped_outputs :: "'e region_env \<Rightarrow> region \<Rightarrow> val \<Rightarrow> ports" where
  "skipped_outputs env rn v =
     map (\<lambda>(k, out). (k, make_absent_value (re_hash env) (re_fresh env k) (absent_origin v) (absent_reason v)
       (Option.bind (re_interface env k) runtime_type_id))) (rn_outputs rn)"

definition run_kind :: "'e region_env \<Rightarrow> nat list \<Rightarrow> region \<Rightarrow> ports \<Rightarrow> ports list \<Rightarrow> collected \<Rightarrow> 'e region_failure + nat \<times> collected" where
  "run_kind env order rn bc bs acc =
     (case rn_kind rn of
        MapRegion \<Rightarrow>
          and_then (map_loop env rn bc bs order (replicate (length bs) None)) (\<lambda>results.
          and_then (collect_all rn results acc) (\<lambda>acc1. Inr (length bs, acc1)))
      | FoldRegion \<Rightarrow> and_then (fold_loop env rn bc 0 bs acc) (\<lambda>acc1. Inr (length bs, acc1))
      | WhileRegion \<Rightarrow>
          (case (rn_continue_source rn, rn_max_iterations rn) of
             (Some cont, Some m) \<Rightarrow> while_loop env rn bc cont m 0 acc
           | _ \<Rightarrow> Inl Unfinished))"

definition broadcast_ports :: "region \<Rightarrow> ports \<Rightarrow> ports" where
  "broadcast_ports rn inputs =
     filter (\<lambda>(i, v). i \<notin> set (rn_element_ports rn) \<and> i \<notin> set (rn_state_ports rn)) inputs"

definition run_region :: "'e region_env \<Rightarrow> nat list \<Rightarrow> region \<Rightarrow> produced \<Rightarrow> 'e region_failure + region_end \<times> ports" where
  "run_region env order rn p =
     and_then (region_inputs env rn p) (\<lambda>inputs.
       case absent_input inputs of
         Some (i, v) \<Rightarrow> Inr (Skipped i (absent_origin v) (absent_reason v), skipped_outputs env rn v)
       | None \<Rightarrow>
           and_then (start_collecting rn inputs) (\<lambda>acc.
           and_then (region_bindings rn inputs) (\<lambda>bs.
           and_then (run_kind env order rn (broadcast_ports rn inputs) bs acc) (\<lambda>(n, acc1).
           and_then (each (region_output_value env acc1) (rn_outputs rn)) (\<lambda>outs. Inr (Ran n, outs))))))"


section \<open>Sequences of computations\<close>

lemma opt_or_Inr [simp]: "opt_or e x = Inr y \<longleftrightarrow> x = Some y"
  by (cases x) (simp_all add: opt_or_def)

lemma opt_or_Some [simp]: "opt_or e (Some x) = Inr x"
  by (simp add: opt_or_def)

lemma each_Inr: "each f xs = Inr ys \<longleftrightarrow> length ys = length xs \<and> (\<forall>i < length xs. f (xs ! i) = Inr (ys ! i))"
proof (induction xs arbitrary: ys)
  case (Cons x xs)
  show ?case
  proof (cases ys)
    case Nil
    then show ?thesis by (auto simp: and_then_Inr_iff)
  next
    case (Cons y zs)
    have "(\<forall>i < length (x # xs). f ((x # xs) ! i) = Inr ((y # zs) ! i)) \<longleftrightarrow>
        f x = Inr y \<and> (\<forall>i < length xs. f (xs ! i) = Inr (zs ! i))"
      by (simp add: All_less_Suc2)
    then show ?thesis using Cons.IH [of zs] by (auto simp: Cons and_then_Inr_iff)
  qed
qed auto

lemma each_eq: "each f xs = Inr ys \<Longrightarrow> (\<And>x y. f x = Inr y \<Longrightarrow> y = g x) \<Longrightarrow> ys = map g xs"
  by (induction xs arbitrary: ys) (auto simp: and_then_Inr_iff)

lemma each_mem: "each f xs = Inr ys \<Longrightarrow> x \<in> set xs \<Longrightarrow> \<exists>y. f x = Inr y"
  by (induction xs arbitrary: ys) (auto simp: and_then_Inr_iff)

lemma each_cong: "xs = ys \<Longrightarrow> (\<And>x. x \<in> set ys \<Longrightarrow> f x = g x) \<Longrightarrow> each f xs = each g ys"
  by (induction xs arbitrary: ys) (auto simp: fun_eq_iff)

lemma each_all: "(\<And>x. x \<in> set xs \<Longrightarrow> f x = Inr (g x)) \<Longrightarrow> each f xs = Inr (map g xs)"
  by (induction xs) simp_all

lemma dict_update_map_of [simp]: "map_of (dict_update d e) k = (case map_of (rev e) k of None \<Rightarrow> map_of d k | Some v \<Rightarrow> Some v)"
proof (induction e arbitrary: d)
  case (Cons p e)
  then show ?case by (cases p) (simp add: dict_update_def map_of_append map_add_def split: option.splits)
qed (simp add: dict_update_def)

lemma dict_update_fresh: "distinct (map fst e) \<Longrightarrow> fst ` set e \<inter> fst ` set d = {} \<Longrightarrow> dict_update d e = d @ e"
proof (induction e arbitrary: d)
  case (Cons p e)
  obtain k v where p: "p = (k, v)" by (cases p)
  have "map_of d k = None" using Cons.prems(2) p by (auto simp: map_of_eq_None_iff)
  then have "dict_update d (p # e) = dict_update (d @ [(k, v)]) e" by (simp add: dict_update_def p dict_set_append)
  also have "\<dots> = (d @ [(k, v)]) @ e" using Cons.prems p by (intro Cons.IH) auto
  finally show ?case using p by simp
qed (simp add: dict_update_def)

lemma binding_of_id: "distinct (map fst ps) \<Longrightarrow> binding_of ps = ps"
  by (simp add: binding_of_def dict_update_fresh)

section \<open>Bindings\<close>

lemma product_of_map: "product_of (map (map f) xss) = map (map f) (product_of xss)"
  by (induction xss) (simp_all add: map_concat comp_def)

lemma product_of_set: "set (product_of xss) = {ys. length ys = length xss \<and> (\<forall>j < length xss. ys ! j \<in> set (xss ! j))}"
proof (induction xss)
  case (Cons xs xss)
  have "ys \<in> set (product_of (xs # xss)) \<longleftrightarrow> length ys = length (xs # xss) \<and> (\<forall>j < length (xs # xss). ys ! j \<in> set ((xs # xss) ! j))" for ys
    using Cons by (cases ys) (auto simp: All_less_Suc2)
  then show ?case by blast
qed auto

lemma sorted_concat_cons:
  fixes xs :: "('a :: linorder) list"
  assumes "sorted_wrt (<) xs" and "sorted_wrt (<) yss"
  shows "sorted_wrt (<) (concat (map (\<lambda>x. map ((#) x) yss) xs))"
  using assms(1)
proof (induction xs)
  case (Cons x xs)
  have "sorted_wrt (<) (map ((#) x) yss)"
    using assms(2) by (simp add: sorted_wrt_map)
  with Cons show ?case by (auto simp: sorted_wrt_append)
qed simp

lemma product_of_sorted: "(\<And>xs. xs \<in> set xss \<Longrightarrow> sorted_wrt (<) xs) \<Longrightarrow> sorted_wrt (<) (product_of xss)"
  for xss :: "('a :: linorder) list list"
  by (induction xss) (auto intro!: sorted_concat_cons)

lemma map_nth_product: "product_of xss = map (\<lambda>is. map2 (!) xss is) (product_of (map (\<lambda>xs. [0..<length xs]) xss))"
proof (induction xss)
  case (Cons xs xss)
  have e: "map h xs = map (\<lambda>i. h (xs ! i)) [0..<length xs]" for h :: "'a \<Rightarrow> 'a list list" by (rule nth_equalityI) simp_all
  show ?case
    using Cons e [of "\<lambda>x. map (\<lambda>is. x # map2 (!) xss is) (product_of (map (\<lambda>xs. [0..<length xs]) xss))"]
    by (simp add: map_concat comp_def)
qed simp


text \<open>The elements of a port.\<close>

definition elements_of :: "ports \<Rightarrow> string \<Rightarrow> val list" where
  "elements_of inputs port = the (list_children (the (map_of inputs port)))"

lemma port_elements_Inr: "port_elements inputs port = Inr x \<longleftrightarrow>
    x = (port, elements_of inputs port) \<and> (\<exists>v cs. map_of inputs port = Some v \<and> list_children v = Some cs)"
  by (auto simp: port_elements_def and_then_Inr_iff elements_of_def)

lemma found_elements:
  assumes "each (port_elements inputs) eports = Inr found"
  shows "found = map (\<lambda>p. (p, elements_of inputs p)) eports"
    and "distinct eports \<Longrightarrow> binding_of found = map (\<lambda>p. (p, elements_of inputs p)) eports"
proof -
  show f: "found = map (\<lambda>p. (p, elements_of inputs p)) eports"
    using assms by (auto simp: each_Inr port_elements_Inr intro!: nth_equalityI)
  show "binding_of found = map (\<lambda>p. (p, elements_of inputs p)) eports" if "distinct eports"
    using that by (simp add: f comp_def binding_of_id)
qed

lemma map_of_elements: "p \<in> set eports \<Longrightarrow> map_of (map (\<lambda>p. (p, f p)) eports) p = Some (f p)"
  by (induction eports) auto

text \<open>What the bindings are, by mode.\<close>

definition zip_reference :: "string list \<Rightarrow> (string \<Rightarrow> val list) \<Rightarrow> ports list" where
  "zip_reference eports E = map (\<lambda>i. map (\<lambda>p. (p, E p ! i)) eports) [0..<length (E (hd eports))]"

definition broadcast_reference :: "string list \<Rightarrow> (string \<Rightarrow> val list) \<Rightarrow> ports list" where
  "broadcast_reference eports E =
     map (\<lambda>i. map (\<lambda>p. (p, E p ! min i (length (E p) - 1))) eports) [0..<Max ((\<lambda>p. length (E p)) ` set eports)]"

definition cross_choices :: "string list \<Rightarrow> (string \<Rightarrow> val list) \<Rightarrow> nat list list" where
  "cross_choices eports E = product_of (map (\<lambda>p. [0..<length (E p)]) eports)"

definition cross_reference :: "string list \<Rightarrow> (string \<Rightarrow> val list) \<Rightarrow> ports list" where
  "cross_reference eports E = map (\<lambda>is. map2 (\<lambda>p i. (p, E p ! i)) eports is) (cross_choices eports E)"

lemma cross_choices_facts:
  "sorted_wrt (<) (cross_choices eports E)"
  "set (cross_choices eports E) = {is. length is = length eports \<and> (\<forall>j < length eports. is ! j < length (E (eports ! j)))}"
  by (auto simp: cross_choices_def product_of_set intro!: product_of_sorted)

lemma bindings_cases:
  assumes d: "distinct eports" and ne: "eports \<noteq> []" and els: "els = map (\<lambda>p. (p, E p)) eports"
  shows "zip_bindings eports els = Inr bs \<longleftrightarrow> (\<forall>p \<in> set eports. length (E p) = length (E (hd eports))) \<and> bs = zip_reference eports E"
    and "cross_bindings eports els = cross_reference eports E"
    and "broadcast_bindings eports els = Inr bs \<longleftrightarrow>
      ((\<forall>p \<in> set eports. E p = []) \<or> (\<forall>p \<in> set eports. E p \<noteq> [])) \<and> bs = broadcast_reference eports E"
proof -
  have E: "the (map_of els p) = E p" if "p \<in> set eports" for p using map_of_elements [OF that, of E] by (simp add: els)
  have b: "binding_of (map (\<lambda>p. (p, f p)) eports) = map (\<lambda>p. (p, f p)) eports" for f :: "string \<Rightarrow> val"
    using d by (simp add: binding_of_id comp_def)
  have len: "map snd (map (\<lambda>(p, cs). (p, length cs)) els) = map (\<lambda>p. length (E p)) eports" by (simp add: els comp_def)
  have hd: "snd (hd (map (\<lambda>(p, cs). (p, length cs)) els)) = length (E (hd eports))" using ne by (cases eports) (simp_all add: els)
  have S: "set (map snd (map (\<lambda>(p, cs). (p, length cs)) els)) = (\<lambda>p. length (E p)) ` set eports" by (simp only: len set_map)
  have one: "card ((\<lambda>p. length (E p)) ` set eports) \<le> 1 \<longleftrightarrow> (\<forall>p \<in> set eports. length (E p) = length (E (hd eports)))"
  proof -
    have h: "hd eports \<in> set eports" using ne by simp
    have "card S \<le> 1 \<longleftrightarrow> (\<forall>x \<in> S. \<forall>y \<in> S. x = y)" if "finite S" for S :: "nat set"
      unfolding One_nat_def card_le_Suc0_iff_eq [OF that] ..
    then show ?thesis using h by (simp only: finite_imageI finite_set ball_simps) metis
  qed
  have m: "binding_of (map (\<lambda>p. (p, the (map_of els p) ! i)) eports) = map (\<lambda>p. (p, E p ! i)) eports" for i
    unfolding b using E by simp
  have "zip_bindings eports els = (if 1 < card ((\<lambda>p. length (E p)) ` set eports)
      then Inl (UnequalLengths (map (\<lambda>(p, cs). (p, length cs)) els)) else Inr (zip_reference eports E))"
    by (simp only: zip_bindings_def Let_def S hd m zip_reference_def)
  then show "zip_bindings eports els = Inr bs \<longleftrightarrow> (\<forall>p \<in> set eports. length (E p) = length (E (hd eports))) \<and> bs = zip_reference eports E"
    unfolding one [symmetric] by (auto split: if_splits)
  have Em: "map (\<lambda>p. the (map_of els p)) eports = map E eports" using E by simp
  have "binding_of (zip eports (map2 (!) (map E eports) is)) = map2 (\<lambda>p i. (p, E p ! i)) eports is"
    if "is \<in> set (cross_choices eports E)" for "is"
  proof -
    have l: "length is = length eports" using that by (simp add: cross_choices_facts(2))
    then have "zip eports (map2 (!) (map E eports) is) = map2 (\<lambda>p i. (p, E p ! i)) eports is" by (intro nth_equalityI) simp_all
    moreover have "binding_of (zip eports (map2 (!) (map E eports) is)) = zip eports (map2 (!) (map E eports) is)"
      using d l by (intro binding_of_id) simp
    ultimately show ?thesis by simp
  qed
  then show "cross_bindings eports els = cross_reference eports E"
    unfolding cross_bindings_def cross_reference_def Em map_nth_product [of "map E eports"] map_map comp_def
      cross_choices_def [symmetric] by (intro map_cong refl)
  have e: "map fst (filter (\<lambda>(p, n). n = 0) (map (\<lambda>(p, cs). (p, length cs)) els)) = filter (\<lambda>p. E p = []) eports"
    unfolding els by (induction eports) simp_all
  have z: "Max ((\<lambda>p. length (E p)) ` set eports) = 0 \<longleftrightarrow> (\<forall>p \<in> set eports. E p = [])"
    using ne by (subst Max_eq_iff) (auto simp: image_constant_conv)
  have mb: "binding_of (map (\<lambda>p. (p, the (map_of els p) ! min i (length (the (map_of els p)) - 1))) eports) =
      map (\<lambda>p. (p, E p ! min i (length (E p) - 1))) eports" for i
    unfolding b using E by simp
  have "broadcast_bindings eports els =
      (if filter (\<lambda>p. E p = []) eports \<noteq> [] \<and> Max ((\<lambda>p. length (E p)) ` set eports) \<noteq> 0
       then Inl (EmptyPorts (filter (\<lambda>p. E p = []) eports)) else Inr (broadcast_reference eports E))"
    by (simp only: broadcast_bindings_def Let_def S e mb broadcast_reference_def)
  then show "broadcast_bindings eports els = Inr bs \<longleftrightarrow>
      ((\<forall>p \<in> set eports. E p = []) \<or> (\<forall>p \<in> set eports. E p \<noteq> [])) \<and> bs = broadcast_reference eports E"
    unfolding z filter_empty_conv by (auto split: if_splits)
qed


section \<open>Iterations\<close>

text \<open>The value that an output reads from an iteration, if there is one.\<close>

definition produces :: "produced \<Rightarrow> link \<Rightarrow> bool" where
  "produces p l \<longleftrightarrow> Option.bind (map_of p (lk_node l)) (\<lambda>outs. map_of outs (lk_output l)) \<noteq> None"

definition reads :: "produced \<Rightarrow> link \<Rightarrow> val" where
  "reads p l = the (Option.bind (map_of p (lk_node l)) (\<lambda>outs. map_of outs (lk_output l)))"

lemma source_value_Inr: "source_value p l = Inr v \<longleftrightarrow> produces p l \<and> v = reads p l"
  by (auto simp: source_value_def produces_def reads_def)

definition chosen :: "(output_mode \<Rightarrow> bool) \<Rightarrow> region \<Rightarrow> produced \<Rightarrow> (string \<times> output_mode \<times> val) list" where
  "chosen P rn p = map (\<lambda>(k, out). (k, ro_mode out, reads p (ro_source out))) (filter (\<lambda>(k, out). P (ro_mode out)) (rn_outputs rn))"

definition readable :: "(output_mode \<Rightarrow> bool) \<Rightarrow> region \<Rightarrow> produced \<Rightarrow> bool" where
  "readable P rn p \<longleftrightarrow> (\<forall>(k, out) \<in> set (rn_outputs rn). P (ro_mode out) \<longrightarrow> produces p (ro_source out))"

lemma sources_of_Inr: "(sources_of P rn p :: 'e region_failure + _) = Inr vs \<longleftrightarrow> readable P rn p \<and> vs = chosen P rn p"
proof -
  let ?f = "\<lambda>(k, out). and_then (source_value p (ro_source out) :: 'e region_failure + val) (\<lambda>v. Inr (k, ro_mode out, v))"
    and ?g = "\<lambda>(k, out). (k, ro_mode out, reads p (ro_source out))"
    and ?xs = "filter (\<lambda>(k, out). P (ro_mode out)) (rn_outputs rn)"
  have f: "?f x = Inr y \<longleftrightarrow> produces p (ro_source (snd x)) \<and> y = ?g x" for x y
    by (cases x) (auto simp: and_then_Inr_iff source_value_Inr)
  have "each ?f ?xs = Inr vs \<Longrightarrow> vs = map ?g ?xs" by (rule each_eq) (use f in blast)+
  moreover have "each ?f ?xs = Inr vs \<Longrightarrow> readable P rn p" for vs
    using each_mem [of ?f ?xs vs] unfolding f readable_def by fastforce
  moreover have "readable P rn p \<Longrightarrow> each ?f ?xs = Inr (map ?g ?xs)"
    by (rule each_all) (auto simp: f readable_def)
  ultimately show ?thesis unfolding sources_of_def chosen_def by blast
qed

lemma collect_outputs_Inr: "collect_outputs rn p acc = Inr acc' \<longleftrightarrow>
    readable (\<lambda>m. m \<noteq> StateOutput) rn p \<and> acc' = fold put_output (chosen (\<lambda>m. m \<noteq> StateOutput) rn p) acc"
  by (auto simp: collect_outputs_def and_then_Inr_iff sources_of_Inr)

lemma advance_Inr: "advance_state rn p acc = Inr acc' \<longleftrightarrow>
    readable (\<lambda>m. m = StateOutput) rn p \<and> acc' = fold put_output (chosen (\<lambda>m. m = StateOutput) rn p) acc"
  by (auto simp: advance_state_def and_then_Inr_iff sources_of_Inr)

text \<open>What one iteration does to what is collected.\<close>

definition taken :: "region \<Rightarrow> produced \<Rightarrow> collected \<Rightarrow> collected" where
  "taken rn p acc = fold put_output (chosen (\<lambda>m. m = StateOutput) rn p) (fold put_output (chosen (\<lambda>m. m \<noteq> StateOutput) rn p) acc)"

definition all_readable :: "region \<Rightarrow> produced \<Rightarrow> bool" where
  "all_readable rn p \<longleftrightarrow> readable (\<lambda>m. m \<noteq> StateOutput) rn p \<and> readable (\<lambda>m. m = StateOutput) rn p"

lemma all_readable_iff: "all_readable rn p \<longleftrightarrow> (\<forall>(k, out) \<in> set (rn_outputs rn). produces p (ro_source out))"
  by (auto simp: all_readable_def readable_def)

lemma take_in:
  "and_then (collect_outputs rn p acc) (\<lambda>acc1. and_then (advance_state rn p acc1) k) = Inr r \<longleftrightarrow>
     all_readable rn p \<and> k (taken rn p acc) = Inr r"
  by (auto simp: and_then_Inr_iff collect_outputs_Inr advance_Inr all_readable_def taken_def)

text \<open>The effect on one output.\<close>

lemma put_other:
  "k \<notin> fst ` set vs \<Longrightarrow> map_of (co_gathered (fold put_output vs acc)) k = map_of (co_gathered acc) k"
  "k \<notin> fst ` set vs \<Longrightarrow> map_of (co_last (fold put_output vs acc)) k = map_of (co_last acc) k"
  "k \<notin> fst ` set vs \<Longrightarrow> map_of (co_state (fold put_output vs acc)) k = map_of (co_state acc) k"
proof (induction vs arbitrary: acc)
  case (Cons x vs)
  { case 1 then show ?case using Cons(1) by (cases x) (auto split: output_mode.split) }
  { case 2 then show ?case using Cons(2) by (cases x) (auto split: output_mode.split) }
  { case 3 then show ?case using Cons(3) by (cases x) (auto split: output_mode.split) }
qed simp_all

definition gathers :: "output_mode \<Rightarrow> bool" where
  "gathers m \<longleftrightarrow> m \<noteq> StateOutput \<and> m \<noteq> Last"

lemma put_member:
  assumes "distinct (map fst vs)" and "(k, m, v) \<in> set vs"
  shows "map_of (co_gathered (fold put_output vs acc)) k =
      (if gathers m then Some (the (map_of (co_gathered acc) k) @ [v]) else map_of (co_gathered acc) k)"
    and "map_of (co_last (fold put_output vs acc)) k = (if m = Last then Some v else map_of (co_last acc) k)"
    and "map_of (co_state (fold put_output vs acc)) k = (if m = StateOutput then Some v else map_of (co_state acc) k)"
proof -
  obtain as bs where vs: "vs = as @ (k, m, v) # bs" using split_list [OF assms(2)] by blast
  then have out: "k \<notin> fst ` set as" "k \<notin> fst ` set bs" using assms(1) by auto
  let ?a = "fold put_output as acc"
  have "fold put_output vs acc = fold put_output bs (put_output (k, m, v) ?a)" by (simp add: vs)
  then show "map_of (co_gathered (fold put_output vs acc)) k =
      (if gathers m then Some (the (map_of (co_gathered acc) k) @ [v]) else map_of (co_gathered acc) k)"
    and "map_of (co_last (fold put_output vs acc)) k = (if m = Last then Some v else map_of (co_last acc) k)"
    and "map_of (co_state (fold put_output vs acc)) k = (if m = StateOutput then Some v else map_of (co_state acc) k)"
    using put_other [OF out(2), of "put_output (k, m, v) ?a"] put_other [OF out(1), of acc]
    by (auto simp: gathers_def split: output_mode.splits)
qed

lemma taken_output:
  assumes d: "dict_ok (rn_outputs rn)" and k: "(k, out) \<in> set (rn_outputs rn)"
  shows "map_of (co_gathered (taken rn p acc)) k =
      (if gathers (ro_mode out) then Some (the (map_of (co_gathered acc) k) @ [reads p (ro_source out)]) else map_of (co_gathered acc) k)"
    and "map_of (co_last (taken rn p acc)) k = (if ro_mode out = Last then Some (reads p (ro_source out)) else map_of (co_last acc) k)"
    and "map_of (co_state (taken rn p acc)) k = (if ro_mode out = StateOutput then Some (reads p (ro_source out)) else map_of (co_state acc) k)"
proof -
  have dc: "distinct (map fst (chosen P rn p))" for P
  proof -
    have "map fst (chosen P rn p) = map fst (filter (\<lambda>(k, out). P (ro_mode out)) (rn_outputs rn))"
      by (simp add: chosen_def case_prod_beta comp_def)
    then show ?thesis using d by (simp add: dict_ok_def distinct_map_filter)
  qed
  have mem: "(k, ro_mode out, reads p (ro_source out)) \<in> set (chosen P rn p)" if "P (ro_mode out)" for P
    using k that by (force simp: chosen_def)
  have out: "k \<notin> fst ` set (chosen P rn p)" if "\<not> P (ro_mode out)" for P
  proof
    assume "k \<in> fst ` set (chosen P rn p)"
    then obtain out' where "(k, out') \<in> set (rn_outputs rn)" "P (ro_mode out')" by (auto simp: chosen_def)
    with that k d show False by (metis map_of_Some_set option.inject)
  qed
  let ?c = "chosen (\<lambda>m. m \<noteq> StateOutput) rn p" and ?s = "chosen (\<lambda>m. m = StateOutput) rn p"
  show "map_of (co_gathered (taken rn p acc)) k =
      (if gathers (ro_mode out) then Some (the (map_of (co_gathered acc) k) @ [reads p (ro_source out)]) else map_of (co_gathered acc) k)"
    and "map_of (co_last (taken rn p acc)) k = (if ro_mode out = Last then Some (reads p (ro_source out)) else map_of (co_last acc) k)"
    and "map_of (co_state (taken rn p acc)) k = (if ro_mode out = StateOutput then Some (reads p (ro_source out)) else map_of (co_state acc) k)"
    using put_member [OF dc mem, of "\<lambda>m. m \<noteq> StateOutput"] put_member [OF dc mem, of "\<lambda>m. m = StateOutput"]
      put_other [OF out, of "\<lambda>m. m \<noteq> StateOutput"] put_other [OF out, of "\<lambda>m. m = StateOutput"]
    by (cases "ro_mode out = StateOutput"; simp add: taken_def gathers_def)+
qed


section \<open>Runs of the loops\<close>

text \<open>
  The iterations of a run: each is given its binding and the state that the ones before it left.
\<close>

definition state_before :: "region \<Rightarrow> collected \<Rightarrow> produced list \<Rightarrow> nat \<Rightarrow> ports" where
  "state_before rn acc ps j = co_state (fold (taken rn) (take j ps) acc)"

definition iterates :: "'e region_env \<Rightarrow> region \<Rightarrow> ports \<Rightarrow> (nat \<Rightarrow> ports) \<Rightarrow> nat \<Rightarrow> collected \<Rightarrow> produced list \<Rightarrow> bool" where
  "iterates env rn bc bind i acc ps \<longleftrightarrow> (\<forall>j < length ps.
     run_iteration env rn bc (i + j) (bind j) (state_before rn acc ps j) = Inr (ps ! j) \<and> all_readable rn (ps ! j))"

lemma iterates_Nil [simp]: "iterates env rn bc bind i acc []"
  by (simp add: iterates_def)

lemma iterates_Cons: "iterates env rn bc bind i acc (p # ps) \<longleftrightarrow>
    run_iteration env rn bc i (bind 0) (co_state acc) = Inr p \<and> all_readable rn p \<and>
    iterates env rn bc (\<lambda>j. bind (Suc j)) (Suc i) (taken rn p acc) ps"
  by (auto simp: iterates_def All_less_Suc2 state_before_def)

lemma fold_loop_Inr: "fold_loop env rn bc i bs acc = Inr acc' \<longleftrightarrow>
    (\<exists>ps. length ps = length bs \<and> iterates env rn bc ((!) bs) i acc ps \<and> acc' = fold (taken rn) ps acc)"
proof (induction bs arbitrary: i acc)
  case (Cons b bs)
  have "fold_loop env rn bc i (b # bs) acc = Inr acc' \<longleftrightarrow>
      (\<exists>p ps. run_iteration env rn bc i b (co_state acc) = Inr p \<and> all_readable rn p \<and>
        length ps = length bs \<and> iterates env rn bc ((!) bs) (Suc i) (taken rn p acc) ps \<and> acc' = fold (taken rn) ps (taken rn p acc))"
    by (simp add: and_then_Inr_iff [of "run_iteration env rn bc i b (co_state acc)"] take_in Cons)
  also have "\<dots> \<longleftrightarrow> (\<exists>ps. length ps = length (b # bs) \<and> iterates env rn bc ((!) (b # bs)) i acc ps \<and> acc' = fold (taken rn) ps acc)"
    (is "?L \<longleftrightarrow> ?R")
  proof
    assume ?L
    then obtain p ps where "run_iteration env rn bc i b (co_state acc) = Inr p" "all_readable rn p"
      "length ps = length bs" "iterates env rn bc ((!) bs) (Suc i) (taken rn p acc) ps" "acc' = fold (taken rn) ps (taken rn p acc)"
      by blast
    then have "length (p # ps) = length (b # bs) \<and> iterates env rn bc ((!) (b # bs)) i acc (p # ps) \<and> acc' = fold (taken rn) (p # ps) acc"
      by (simp add: iterates_Cons)
    then show ?R by blast
  next
    assume ?R
    then obtain qs where q: "length qs = length (b # bs)" "iterates env rn bc ((!) (b # bs)) i acc qs" "acc' = fold (taken rn) qs acc" by blast
    then obtain p ps where "qs = p # ps" by (cases qs) auto
    with q have "run_iteration env rn bc i b (co_state acc) = Inr p \<and> all_readable rn p \<and>
      length ps = length bs \<and> iterates env rn bc ((!) bs) (Suc i) (taken rn p acc) ps \<and> acc' = fold (taken rn) ps (taken rn p acc)"
      by (simp add: iterates_Cons)
    then show ?L by blast
  qed
  finally show ?case .
qed (auto simp: iterates_def)

text \<open>A while loop goes on after every iteration but the last.\<close>

definition tells :: "'e region_env \<Rightarrow> link \<Rightarrow> produced \<Rightarrow> bool \<Rightarrow> bool" where
  "tells env cont p b \<longleftrightarrow> produces p cont \<and> \<not> is_absent (reads p cont) \<and> re_load env (reads p cont) = PBool b"

lemma while_step_Inr: "while_step env rn bc cont i acc = Inr (b, acc') \<longleftrightarrow>
    (\<exists>p. run_iteration env rn bc i [] (co_state acc) = Inr p \<and> all_readable rn p \<and> tells env cont p b \<and> acc' = taken rn p acc)"
  for env :: "'e region_env"
proof -
  have K: "(if is_absent v then Inl (AbsentContinue :: 'e region_failure)
       else case re_load env v of
         PBool c \<Rightarrow> and_then (collect_outputs rn p acc) (\<lambda>acc1. and_then (advance_state rn p acc1) (\<lambda>acc2. Inr (c, acc2)))
       | _ \<Rightarrow> Inl ContinueNotBool) = Inr (b, acc') \<longleftrightarrow>
      \<not> is_absent v \<and> re_load env v = PBool b \<and> all_readable rn p \<and> acc' = taken rn p acc" for v p
    by (cases "re_load env v") (auto simp: take_in)
  show ?thesis
    unfolding while_step_def and_then_Inr_iff [of "run_iteration env rn bc i [] (co_state acc)"]
      and_then_Inr_iff [of "source_value p cont" for p] K source_value_Inr tells_def by blast
qed

lemma while_step_InrI:
  "run_iteration env rn bc i [] (co_state acc) = Inr p \<Longrightarrow> all_readable rn p \<Longrightarrow> tells env cont p b \<Longrightarrow>
     while_step env rn bc cont i acc = Inr (b, taken rn p acc)"
  unfolding while_step_Inr by blast

lemma while_loop_Inr:
  "while_loop env rn bc cont m i acc = Inr (n, acc') \<longleftrightarrow>
     (\<exists>ps. ps \<noteq> [] \<and> n = i + length ps \<and> iterates env rn bc (\<lambda>_. []) i acc ps \<and> acc' = fold (taken rn) ps acc \<and>
       (\<forall>j < length ps. tells env cont (ps ! j) (Suc j \<noteq> length ps)) \<and> (length ps = 1 \<or> int n \<le> m))"
proof (induction env rn bc cont m i acc rule: while_loop.induct)
  case (1 env rn bc cont m i acc)
  let ?W = "\<lambda>i acc. while_loop env rn bc cont m i acc" and ?step = "while_step env rn bc cont i acc"
    and ?run = "\<lambda>i acc ps. ps \<noteq> [] \<and> n = i + length ps \<and> iterates env rn bc (\<lambda>_. []) i acc ps \<and> acc' = fold (taken rn) ps acc \<and>
       (\<forall>j < length ps. tells env cont (ps ! j) (Suc j \<noteq> length ps)) \<and> (length ps = 1 \<or> int n \<le> m)"
  have run: "(\<exists>ps. ?run i acc ps) \<longleftrightarrow>
      (\<exists>acc1. ?step = Inr (False, acc1) \<and> n = Suc i \<and> acc' = acc1) \<or>
      (\<exists>acc1. ?step = Inr (True, acc1) \<and> int (Suc i) < m \<and> (\<exists>ps. ?run (Suc i) acc1 ps))" (is "?L \<longleftrightarrow> ?R")
  proof
    assume ?L
    then obtain p ps where r: "?run i acc (p # ps)" by (metis list.exhaust)
    show ?R
    proof (cases ps)
      case Nil
      then have "?step = Inr (False, taken rn p acc)" using r by (intro while_step_InrI) (auto simp: iterates_Cons)
      then show ?thesis using r Nil by simp
    next
      case (Cons p' ps')
      then have "?step = Inr (True, taken rn p acc)"
        using r by (intro while_step_InrI) (auto simp: iterates_Cons All_less_Suc2)
      moreover have "?run (Suc i) (taken rn p acc) ps" "int (Suc i) < m"
        using r Cons by (auto simp: iterates_Cons All_less_Suc2)
      ultimately show ?thesis by blast
    qed
  next
    assume ?R
    then consider (stop) acc1 where "?step = Inr (False, acc1)" "n = Suc i" "acc' = acc1"
      | (go) acc1 ps where "?step = Inr (True, acc1)" "int (Suc i) < m" "?run (Suc i) acc1 ps" by blast
    then show ?L
    proof cases
      case stop
      then obtain p where "?run i acc [p]" by (auto simp: while_step_Inr iterates_Cons)
      then show ?thesis by blast
    next
      case go
      obtain p where "run_iteration env rn bc i [] (co_state acc) = Inr p" "all_readable rn p" "tells env cont p True" "acc1 = taken rn p acc"
        using go(1) by (auto simp: while_step_Inr)
      then have "?run i acc (p # ps)" using go(2,3) by (auto simp: iterates_Cons All_less_Suc2)
      then show ?thesis by blast
    qed
  qed
  have "?W i acc = Inr (n, acc') \<longleftrightarrow>
      (\<exists>acc1. ?step = Inr (False, acc1) \<and> n = Suc i \<and> acc' = acc1) \<or>
      (\<exists>acc1. ?step = Inr (True, acc1) \<and> int (Suc i) < m \<and> ?W (Suc i) acc1 = Inr (n, acc'))"
    by (subst while_loop.simps) (auto simp: and_then_Inr_iff split: if_splits)
  moreover have "?W (Suc i) acc1 = Inr (n, acc') \<longleftrightarrow> (\<exists>ps. ?run (Suc i) acc1 ps)"
    if "?step = Inr (True, acc1)" "int (Suc i) < m" for acc1
    by (rule 1) (use that in auto)
  ultimately show ?case unfolding run by blast
qed


text \<open>A region without state: what a map is.\<close>

definition stateless :: "region \<Rightarrow> bool" where
  "stateless rn \<longleftrightarrow> rn_state_ports rn = [] \<and> (\<forall>(k, out) \<in> set (rn_outputs rn). ro_mode out \<noteq> StateOutput)"

lemma stateless_chosen:
  assumes "stateless rn"
  shows "chosen (\<lambda>m. m = StateOutput) rn p = []" "readable (\<lambda>m. m = StateOutput) rn p"
  using assms by (auto simp: stateless_def chosen_def readable_def filter_empty_conv)

lemma put_stateless: "\<forall>(k, m, v) \<in> set vs. m \<noteq> StateOutput \<Longrightarrow> co_state (fold put_output vs acc) = co_state acc"
proof (induction vs arbitrary: acc)
  case (Cons x vs)
  then show ?case by (cases x) (auto split: output_mode.split)
qed simp

lemma taken_stateless:
  assumes "stateless rn"
  shows "taken rn p = fold put_output (chosen (\<lambda>m. m \<noteq> StateOutput) rn p)" "co_state (taken rn p acc) = co_state acc"
proof -
  show t: "taken rn p = fold put_output (chosen (\<lambda>m. m \<noteq> StateOutput) rn p)"
    using stateless_chosen(1) [OF assms] by (simp add: fun_eq_iff taken_def)
  show "co_state (taken rn p acc) = co_state acc" unfolding t by (rule put_stateless) (auto simp: chosen_def)
qed

lemma state_before_stateless: "stateless rn \<Longrightarrow> state_before rn acc ps j = co_state acc"
proof -
  assume s: "stateless rn"
  have "co_state (fold (taken rn) qs acc) = co_state acc" for qs
    by (induction qs arbitrary: acc) (simp_all add: taken_stateless(2) [OF s])
  then show ?thesis by (simp add: state_before_def)
qed

lemma map_loop_ok: "(\<And>i. i \<in> set order \<Longrightarrow> run_iteration env rn bc i (bs ! i) [] = Inr (f i)) \<Longrightarrow>
    map_loop env rn bc bs order results = Inr (fold (\<lambda>i rs. rs[i := Some (f i)]) order results)"
  by (induction order arbitrary: results) simp_all

lemma map_loop_runs: "map_loop env rn bc bs order results = Inr rs \<Longrightarrow> i \<in> set order \<Longrightarrow>
    \<exists>p. run_iteration env rn bc i (bs ! i) [] = Inr p"
  by (induction order arbitrary: results) (auto simp: and_then_Inr_iff)

lemma fold_updates: "length (fold (\<lambda>i rs. rs[i := Some (f i)]) order results) = length results \<and>
    (\<forall>j < length results. fold (\<lambda>i rs. rs[i := Some (f i)]) order results ! j = (if j \<in> set order then Some (f j) else results ! j))"
  by (induction order arbitrary: results) (auto simp: nth_list_update)

lemma all_results: "set order = {..<n} \<Longrightarrow> length ps = n \<Longrightarrow>
    fold (\<lambda>i rs. rs[i := Some (ps ! i)]) order (replicate n None) = map Some ps"
  using fold_updates [of "(!) ps" order "replicate n None"] by (intro nth_equalityI) auto

lemma collect_all_Some: "collect_all rn (map Some ps) acc = Inr acc' \<longleftrightarrow>
    (\<forall>p \<in> set ps. readable (\<lambda>m. m \<noteq> StateOutput) rn p) \<and>
    acc' = fold (\<lambda>p. fold put_output (chosen (\<lambda>m. m \<noteq> StateOutput) rn p)) ps acc"
  by (induction ps arbitrary: acc) (auto simp: and_then_Inr_iff collect_outputs_Inr)

lemma map_run:
  fixes env :: "'e region_env"
  assumes s: "stateless rn" "co_state acc = []" and order: "set order = {..<length bs}"
  shows "and_then (map_loop env rn bc bs order (replicate (length bs) None)) (\<lambda>rs. collect_all rn rs acc) = Inr acc' \<longleftrightarrow>
    (\<exists>ps. length ps = length bs \<and> iterates env rn bc ((!) bs) 0 acc ps \<and> acc' = fold (taken rn) ps acc)" (is "?L \<longleftrightarrow> ?R")
proof -
  have it: "iterates env rn bc ((!) bs) 0 acc ps \<longleftrightarrow>
      (\<forall>i < length ps. run_iteration env rn bc i (bs ! i) [] = Inr (ps ! i)) \<and> (\<forall>p \<in> set ps. readable (\<lambda>m. m \<noteq> StateOutput) rn p)" for ps
    using stateless_chosen(2) [OF s(1)] s(2)
    by (auto simp: iterates_def state_before_stateless [OF s(1)] all_readable_def all_set_conv_all_nth)
  have run: "map_loop env rn bc bs order (replicate (length bs) None) = Inr (map Some ps)"
    if "length ps = length bs" "\<forall>i < length ps. run_iteration env rn bc i (bs ! i) [] = Inr (ps ! i)" for ps
    using map_loop_ok [of order env rn bc bs "(!) ps"] all_results [OF order that(1)] that order by auto
  have tk: "taken rn = (\<lambda>p. fold put_output (chosen (\<lambda>m. m \<noteq> StateOutput) rn p))"
    using taken_stateless(1) [OF s(1)] by (rule ext)
  show ?thesis
  proof
    assume ?L
    then obtain rs where rs: "map_loop env rn bc bs order (replicate (length bs) None) = Inr rs" "collect_all rn rs acc = (Inr acc' :: 'e region_failure + collected)"
      by (auto simp: and_then_Inr_iff)
    have "\<forall>i. \<exists>p. i < length bs \<longrightarrow> run_iteration env rn bc i (bs ! i) [] = Inr p"
      using map_loop_runs [OF rs(1)] order by blast
    from choice [OF this] obtain f where f: "\<And>i. i < length bs \<Longrightarrow> run_iteration env rn bc i (bs ! i) [] = Inr (f i)" by blast
    define ps where "ps = map f [0..<length bs]"
    have ps: "length ps = length bs" "\<forall>i < length ps. run_iteration env rn bc i (bs ! i) [] = Inr (ps ! i)"
      using f by (simp_all add: ps_def)
    then have "rs = map Some ps" using run rs(1) by simp
    then have c: "(\<forall>p \<in> set ps. readable (\<lambda>m. m \<noteq> StateOutput) rn p) \<and> acc' = fold (taken rn) ps acc"
      using rs(2) unfolding tk by (simp add: collect_all_Some)
    then have "iterates env rn bc ((!) bs) 0 acc ps" using ps(2) by (simp only: it) simp
    then show ?R using c ps(1) by blast
  next
    assume ?R
    then obtain ps where ps: "length ps = length bs" "iterates env rn bc ((!) bs) 0 acc ps" "acc' = fold (taken rn) ps acc" by blast
    then have r: "\<forall>i < length ps. run_iteration env rn bc i (bs ! i) [] = Inr (ps ! i)" "\<forall>p \<in> set ps. readable (\<lambda>m. m \<noteq> StateOutput) rn p"
      unfolding it by blast+
    have "collect_all rn (map Some ps) acc = (Inr acc' :: 'e region_failure + collected)"
      unfolding collect_all_Some using r(2) ps(3) by (simp add: tk)
    then show ?L unfolding run [OF ps(1) r(1)] by simp
  qed
qed

section \<open>What is collected\<close>

lemma collected_outputs:
  assumes d: "dict_ok (rn_outputs rn)" and k: "(k, out) \<in> set (rn_outputs rn)" and st: "start_collecting rn inputs = Inr acc"
  shows "gathers (ro_mode out) \<Longrightarrow> map_of (co_gathered (fold (taken rn) ps acc)) k = Some (map (\<lambda>p. reads p (ro_source out)) ps)"
    and "ro_mode out = Last \<Longrightarrow> map_of (co_last (fold (taken rn) ps acc)) k = (if ps = [] then None else Some (reads (last ps) (ro_source out)))"
    and "ro_mode out = StateOutput \<Longrightarrow> map_of (co_state (fold (taken rn) ps acc)) k =
      (if ps = [] then map_of (co_state acc) k else Some (reads (last ps) (ro_source out)))"
proof -
  have acc: "co_gathered acc = map (\<lambda>(k, out). (k, [])) (filter (\<lambda>(k, out). collects (ro_mode out)) (rn_outputs rn))" "co_last acc = []"
    using st by (auto simp: start_collecting_def and_then_Inr_iff)
  have g0: "map_of (co_gathered acc) k = Some []" if "gathers (ro_mode out)"
  proof -
    have "dict_ok (co_gathered acc)" using d
      by (simp add: acc(1) dict_ok_def case_prod_beta comp_def distinct_map_filter)
    moreover have "(k, []) \<in> set (co_gathered acc)" using k that
      by (cases "ro_mode out") (force simp: acc(1) gathers_def collects_def)+
    ultimately show ?thesis by (rule map_of_Some_set)
  qed
  note t = taken_output [OF d k]
  show "gathers (ro_mode out) \<Longrightarrow> map_of (co_gathered (fold (taken rn) ps acc)) k = Some (map (\<lambda>p. reads p (ro_source out)) ps)"
    by (induction ps rule: rev_induct) (simp_all add: g0 t)
  show "ro_mode out = Last \<Longrightarrow> map_of (co_last (fold (taken rn) ps acc)) k = (if ps = [] then None else Some (reads (last ps) (ro_source out)))"
    by (induction ps rule: rev_induct) (simp_all add: acc(2) t)
  show "ro_mode out = StateOutput \<Longrightarrow> map_of (co_state (fold (taken rn) ps acc)) k =
      (if ps = [] then map_of (co_state acc) k else Some (reads (last ps) (ro_source out)))"
    by (induction ps rule: rev_induct) (simp_all add: t)
qed


section \<open>Whole regions\<close>

lemma kind_irrelevant [simp]:
  "region_inputs env (rn\<lparr>rn_kind := x\<rparr>) = region_inputs env rn"
  "start_collecting (rn\<lparr>rn_kind := x\<rparr>) = start_collecting rn"
  "region_bindings (rn\<lparr>rn_kind := x\<rparr>) = region_bindings rn"
  "broadcast_ports (rn\<lparr>rn_kind := x\<rparr>) = broadcast_ports rn"
  "run_iteration env (rn\<lparr>rn_kind := x\<rparr>) = run_iteration env rn"
  "all_readable (rn\<lparr>rn_kind := x\<rparr>) = all_readable rn"
  "taken (rn\<lparr>rn_kind := x\<rparr>) = taken rn"
  "skipped_outputs env (rn\<lparr>rn_kind := x\<rparr>) = skipped_outputs env rn"
proof -
  have "region_input env (rn\<lparr>rn_kind := x\<rparr>) p iv = region_input env rn p iv" for p iv
    by (cases "(env, rn, p, iv)" rule: region_input.cases) simp_all
  then show "region_inputs env (rn\<lparr>rn_kind := x\<rparr>) = region_inputs env rn"
    by (simp add: fun_eq_iff region_inputs_def cong: each_cong)
  show "region_bindings (rn\<lparr>rn_kind := x\<rparr>) = region_bindings rn"
    by (cases "rn_binding rn") (simp_all add: fun_eq_iff region_bindings_def)
qed (simp_all add: fun_eq_iff start_collecting_def broadcast_ports_def run_iteration_def body_ports_def
    all_readable_def readable_def taken_def chosen_def skipped_outputs_def)

lemma run_fold: "rn_kind rn = FoldRegion \<Longrightarrow> run_kind env order rn bc bs acc = Inr (n, acc') \<longleftrightarrow>
    n = length bs \<and> (\<exists>ps. length ps = length bs \<and> iterates env rn bc ((!) bs) 0 acc ps \<and> acc' = fold (taken rn) ps acc)"
  by (auto simp: run_kind_def and_then_Inr_iff fold_loop_Inr)

lemma iterates_kind [simp]: "iterates env (rn\<lparr>rn_kind := x\<rparr>) = iterates env rn"
  by (simp add: fun_eq_iff iterates_def state_before_def)

lemma run_map:
  assumes "rn_kind rn = MapRegion" and s: "stateless rn" "co_state acc = []" and order: "set order = {..<length bs}"
  shows "run_kind env order rn bc bs acc = Inr r \<longleftrightarrow> run_kind env any (rn\<lparr>rn_kind := FoldRegion\<rparr>) bc bs acc = Inr r"
proof -
  obtain n acc' where r: "r = (n, acc')" by (cases r)
  have "run_kind env order rn bc bs acc = and_then (and_then (map_loop env rn bc bs order (replicate (length bs) None))
      (\<lambda>rs. collect_all rn rs acc)) (\<lambda>acc1. Inr (length bs, acc1))"
    using assms(1) by (simp add: run_kind_def and_then_def split: sum.split)
  then have "run_kind env order rn bc bs acc = Inr (n, acc') \<longleftrightarrow> n = length bs \<and>
      and_then (map_loop env rn bc bs order (replicate (length bs) None)) (\<lambda>rs. collect_all rn rs acc) = Inr acc'"
    by (auto simp: and_then_Inr_iff [of "and_then (map_loop env rn bc bs order (replicate (length bs) None)) (\<lambda>rs. collect_all rn rs acc)"])
  then show ?thesis unfolding r map_run [OF s order]
    using run_fold [of "rn\<lparr>rn_kind := FoldRegion\<rparr>" env any bc bs acc n acc'] by simp
qed

lemma run_while: "rn_kind rn = WhileRegion \<Longrightarrow> rn_continue_source rn = Some cont \<Longrightarrow> rn_max_iterations rn = Some m \<Longrightarrow>
    run_kind env order rn bc bs acc = Inr (n, acc') \<longleftrightarrow>
    (\<exists>ps. ps \<noteq> [] \<and> n = length ps \<and> iterates env rn bc (\<lambda>_. []) 0 acc ps \<and> acc' = fold (taken rn) ps acc \<and>
       (\<forall>j < length ps. tells env cont (ps ! j) (Suc j \<noteq> length ps)) \<and> (length ps = 1 \<or> int n \<le> m))"
  by (simp add: run_kind_def while_loop_Inr)

text \<open>Running, once the inputs are known.\<close>

definition run_present :: "'e region_env \<Rightarrow> nat list \<Rightarrow> region \<Rightarrow> ports \<Rightarrow> collected \<Rightarrow> ports list \<Rightarrow> nat \<Rightarrow> collected \<Rightarrow> bool" where
  "run_present env order rn inputs acc bs n acc' \<longleftrightarrow>
     start_collecting rn inputs = (Inr acc :: 'e region_failure + collected) \<and>
     region_bindings rn inputs = (Inr bs :: 'e region_failure + ports list) \<and>
     run_kind env order rn (broadcast_ports rn inputs) bs acc = Inr (n, acc')"

lemma run_region_Ran: "run_region env order rn p = Inr (Ran n, outs) \<longleftrightarrow>
    (\<exists>inputs acc bs acc'. region_inputs env rn p = Inr inputs \<and> absent_input inputs = None \<and>
       run_present env order rn inputs acc bs n acc' \<and> each (region_output_value env acc') (rn_outputs rn) = Inr outs)"
  for env :: "'e region_env"
proof -
  have "run_region env order rn p = Inr (Ran n, outs) \<longleftrightarrow>
    (\<exists>inputs. region_inputs env rn p = Inr inputs \<and> absent_input inputs = None \<and>
      and_then (start_collecting rn inputs) (\<lambda>acc.
           and_then (region_bindings rn inputs) (\<lambda>bs.
           and_then (run_kind env order rn (broadcast_ports rn inputs) bs acc) (\<lambda>(n, acc1).
           and_then (each (region_output_value env acc1) (rn_outputs rn)) (\<lambda>outs. Inr (Ran n, outs))))) = Inr (Ran n, outs))"
    unfolding run_region_def and_then_Inr_iff [of "region_inputs env rn p"]
    by (intro ex_cong1 conj_cong refl) (simp split: option.split prod.split)
  then show ?thesis by (auto simp: and_then_Inr_iff run_present_def)
qed

lemma run_region_skipped: "region_inputs env rn p = Inr inputs \<Longrightarrow> absent_input inputs = Some (i, v) \<Longrightarrow>
    run_region env order rn p = Inr (Skipped i (absent_origin v) (absent_reason v), skipped_outputs env rn v)"
  by (simp add: run_region_def)

lemma run_region_end: "run_region env order rn p = Inr (how, outs) \<Longrightarrow>
    (\<exists>n. how = Ran n) \<or> (\<exists>inputs i v. region_inputs env rn p = Inr inputs \<and> absent_input inputs = Some (i, v))"
proof -
  assume r: "run_region env order rn p = Inr (how, outs)"
  then obtain inputs where i: "region_inputs env rn p = Inr inputs" by (auto simp: run_region_def and_then_Inr_iff)
  then show ?thesis using r
    by (cases "absent_input inputs") (auto simp: run_region_def and_then_Inr_iff)
qed


section \<open>Output values\<close>

lemma make_absent [simp]:
  "is_absent (make_absent_value h f og re st)" "absent_origin (make_absent_value h f og re st) = og"
  "absent_reason (make_absent_value h f og re st) = re"
  by (simp_all add: make_absent_value_def Let_def is_absent_def absent_origin_def absent_reason_def meta_str_def absent_keys)

lemma make_list_Inr: "make_list_value h f t vs = Inr v \<Longrightarrow>
    list_children v = Some vs \<and> \<not> is_absent v \<and> v_type v = list_type_id t"
  by (auto simp: make_list_value_def list_children_def is_absent_def core_absent_def list_type_id_def split: option.splits)

text \<open>
  What the value of an output must be, given what the iterations produced and the state at the
  start.
\<close>

definition output_fits :: "'e region_env \<Rightarrow> ports \<Rightarrow> produced list \<Rightarrow> string \<Rightarrow> region_output \<Rightarrow> val \<Rightarrow> bool" where
  "output_fits env st ps k out v \<longleftrightarrow>
     (let vs = map (\<lambda>p. reads p (ro_source out)) ps in
      case ro_mode out of
        StateOutput \<Rightarrow> if ps = [] then map_of st k = Some v else v = last vs
      | Last \<Rightarrow>
          if ps = [] then is_absent v \<and> absent_origin v = re_label env @ ''/'' @ k \<and> absent_reason v = ''region completed zero iterations''
          else v = last vs
      | Compact \<Rightarrow> \<not> is_absent v \<and> list_children v = Some (filter (\<lambda>v. \<not> is_absent v) vs)
      | mode \<Rightarrow>
          (case find is_absent vs of
             Some c \<Rightarrow> is_absent v \<and> absent_origin v = absent_origin c \<and> absent_reason v = absent_reason c
           | None \<Rightarrow> \<not> is_absent v \<and>
               list_children v = Some (if mode = Flatten then concat (map (\<lambda>v. the (list_children v)) vs) else vs)))"

lemma list_output_fits:
  fixes env :: "'e region_env"
  assumes "list_output env k mode t vs = Inr v"
  shows "mode = Compact \<Longrightarrow> \<not> is_absent v \<and> list_children v = Some (filter (\<lambda>v. \<not> is_absent v) vs)"
    and "mode \<noteq> Compact \<Longrightarrow> find is_absent vs = Some c \<Longrightarrow>
      is_absent v \<and> absent_origin v = absent_origin c \<and> absent_reason v = absent_reason c"
    and "find is_absent vs = None \<Longrightarrow> \<not> is_absent v \<and>
      list_children v = Some (if mode = Flatten then concat (map (\<lambda>v. the (list_children v)) vs) else vs)"
proof -
  have ms: "map_sum (f :: string \<Rightarrow> 'e region_failure) id (make_list_value h fr t xs) = Inr v \<Longrightarrow> list_children v = Some xs \<and> \<not> is_absent v" for f h fr t xs
    by (cases "make_list_value h fr t xs") (auto dest: make_list_Inr)
  show none: "\<not> is_absent v \<and> list_children v = Some (if mode = Flatten then concat (map (\<lambda>v. the (list_children v)) vs) else vs)"
    if n: "find is_absent vs = None"
  proof -
    obtain vss where vss: "(if mode = Flatten then each (\<lambda>v. opt_or (NoListValue k) (list_children v)) vs else Inr [vs]) = (Inr vss :: 'e region_failure + val list list)"
      "\<exists>t. map_sum WrongChild id (make_list_value (re_hash env) (re_fresh env k) t (concat vss)) = (Inr v :: 'e region_failure + val)"
      using assms n by (auto simp: list_output_def and_then_Inr_iff)
    have "vss = (if mode = Flatten then map (\<lambda>v. the (list_children v)) vs else [vs])"
      using vss(1) by (auto intro: each_eq split: if_splits)
    then show ?thesis using vss(2) by (auto dest!: ms)
  qed
  show "is_absent v \<and> absent_origin v = absent_origin c \<and> absent_reason v = absent_reason c"
    if "mode \<noteq> Compact" "find is_absent vs = Some c"
    using assms that by (auto simp: list_output_def and_then_Inr_iff)
  show "\<not> is_absent v \<and> list_children v = Some (filter (\<lambda>v. \<not> is_absent v) vs)" if "mode = Compact"
  proof (cases "find is_absent vs")
    case None
    moreover from None have "filter (\<lambda>v. \<not> is_absent v) vs = vs" by (simp add: find_None_iff filter_id_conv)
    ultimately show ?thesis using none that by simp
  next
    case (Some c)
    then show ?thesis using assms that by (auto simp: list_output_def and_then_Inr_iff dest!: ms)
  qed
qed

lemma region_output_fits:
  assumes d: "dict_ok (rn_outputs rn)" and k: "(k, out) \<in> set (rn_outputs rn)" and st: "start_collecting rn inputs = Inr acc"
    and v: "region_output_value env (fold (taken rn) ps acc) (k, out) = Inr (k', v)"
  shows "k' = k \<and> output_fits env (co_state acc) ps k out v"
proof -
  note c = collected_outputs [OF d k st, of ps]
  show ?thesis
  proof (cases "ro_mode out")
    case Last
    then show ?thesis using c(2) v by (auto simp: region_output_value_def output_fits_def Let_def last_map)
  next
    case StateOutput
    then show ?thesis using c(3) v by (auto simp: region_output_value_def and_then_Inr_iff output_fits_def Let_def last_map)
  next
    case Compact
    then show ?thesis using c(1) v
      by (auto simp: region_output_value_def and_then_Inr_iff output_fits_def Let_def gathers_def dest!: list_output_fits(1))
  next
    case Gather
    then show ?thesis using c(1) v
      by (auto simp: region_output_value_def and_then_Inr_iff output_fits_def Let_def gathers_def
          dest: list_output_fits(2,3) split: option.split)
  next
    case Flatten
    then show ?thesis using c(1) v
      by (auto simp: region_output_value_def and_then_Inr_iff output_fits_def Let_def gathers_def
          dest: list_output_fits(2,3) split: option.split)
  qed
qed

end
