(* ===== verification/Region_Theorems.thy ===== *)
theory Region_Theorems
  imports Regions
begin

text \<open>
  What regions promise: exact bindings, maps that do not show their concurrency, outputs determined
  by the iterations, loops that end, and absence that passes through.
\<close>

section \<open>Properties\<close>

text \<open>
  An example: a body that yields its port, over a list of two values, gathered, counted and
  remembered.
\<close>

definition some_val :: "string \<Rightarrow> val" where
  "some_val name = Value ''INT'' name [] 0 Opaque []"

definition two_vals :: val where
  "two_vals = Value (list_type_id ''INT'') ''two'' [] 0 ListPayload [some_val ''1'', some_val ''2'']"

definition body_link :: link where "body_link = \<lparr>lk_node = ''n'', lk_output = ''out''\<rparr>"

definition some_env :: "unit region_env" where
  "some_env = \<lparr>re_label = ''r'', re_wrap = (\<lambda>t x. Some (some_val t)), re_interface = (\<lambda>_. Some (ListOf (Concrete ''INT''))),
     re_load = (\<lambda>v. PBool (v_fingerprint v = ''1'')), re_hash = concat, re_fresh = (\<lambda>_. 0),
     re_body = (\<lambda>i ps. Inr [(''n'', [(''out'', the (map_of ps ''x''))])])\<rparr>"

definition some_region :: "region_kind \<Rightarrow> region" where
  "some_region kind = \<lparr>rn_kind = kind, rn_ports = [(''x'', Concrete ''INT'')],
     rn_inputs = [(''x'', VLink \<lparr>lk_node = ''src'', lk_output = ''list''\<rparr>)], rn_element_ports = [''x''], rn_state_ports = [],
     rn_outputs = [(''all'', \<lparr>ro_source = body_link, ro_mode = Gather\<rparr>), (''end'', \<lparr>ro_source = body_link, ro_mode = Last\<rparr>)],
     rn_binding = Zip, rn_cache_policy = Reuse, rn_max_iterations = None, rn_continue_source = None\<rparr>"

definition some_inputs :: produced where "some_inputs = [(''src'', [(''list'', two_vals)])]"
definition no_inputs :: produced where
  "no_inputs = [(''src'', [(''list'', make_absent_value concat 0 ''load/vae'' ''no VAE'' None)])]"

text \<open>
  C19: Element bindings are what the mode says: zip takes the lists in step and needs equal lengths;
  cross takes every combination exactly once, the last port varying fastest; broadcast runs to the
  longest list and repeats the last element of the shorter ones, none of which may be empty. There
  are never more bindings than the declared maximum.
\<close>
theorem bindings_are_exact:
  assumes "region_bindings rn inputs = Inr bs" and "distinct (rn_element_ports rn)" and "rn_element_ports rn \<noteq> []"
  shows "(\<forall>m. rn_max_iterations rn = Some m \<longrightarrow> int (length bs) \<le> m) \<and>
    (case rn_binding rn of
       Zip \<Rightarrow> (\<forall>p \<in> set (rn_element_ports rn). length (elements_of inputs p) = length bs) \<and>
         bs = map (\<lambda>i. map (\<lambda>p. (p, elements_of inputs p ! i)) (rn_element_ports rn)) [0..<length bs]
     | Cross \<Rightarrow> (\<exists>choices. sorted_wrt (<) choices \<and>
         set choices = {is. length is = length (rn_element_ports rn) \<and>
           (\<forall>j < length (rn_element_ports rn). is ! j < length (elements_of inputs (rn_element_ports rn ! j)))} \<and>
         bs = map (\<lambda>is. map2 (\<lambda>p i. (p, elements_of inputs p ! i)) (rn_element_ports rn) is) choices)
     | Broadcast \<Rightarrow> length bs = Max ((\<lambda>p. length (elements_of inputs p)) ` set (rn_element_ports rn)) \<and>
         (bs \<noteq> [] \<longrightarrow> (\<forall>p \<in> set (rn_element_ports rn). elements_of inputs p \<noteq> [])) \<and>
         bs = map (\<lambda>i. map (\<lambda>p. (p, elements_of inputs p ! min i (length (elements_of inputs p) - 1))) (rn_element_ports rn))
           [0..<length bs])"
proof -
  let ?ps = "rn_element_ports rn" and ?E = "elements_of inputs"
  obtain found where f: "each (port_elements inputs) ?ps = (Inr found :: 'a region_failure + _)"
    using assms(1,3) by (auto simp: region_bindings_def and_then_Inr_iff)
  let ?els = "binding_of found"
  note els = found_elements(2) [OF f assms(2)] and b = bindings_cases [OF assms(2,3) found_elements(2) [OF f assms(2)]]
  have r: "(case rn_binding rn of Zip \<Rightarrow> zip_bindings ?ps ?els | Cross \<Rightarrow> Inr (cross_bindings ?ps ?els)
      | Broadcast \<Rightarrow> broadcast_bindings ?ps ?els) = (Inr bs :: 'a region_failure + _)"
    and m: "\<forall>m. rn_max_iterations rn = Some m \<longrightarrow> int (length bs) \<le> m"
    using assms(1,3) f by (auto simp: region_bindings_def and_then_Inr_iff Let_def split: option.splits if_splits)
  show ?thesis
  proof (cases "rn_binding rn")
    case Zip
    then have z: "\<forall>p \<in> set ?ps. length (?E p) = length (?E (hd ?ps))" "bs = zip_reference ?ps ?E" using r b(1) by auto
    then have "length bs = length (?E (hd ?ps))" by (simp add: zip_reference_def)
    with z m Zip show ?thesis by (simp add: zip_reference_def)
  next
    case Cross
    then have "bs = cross_reference ?ps ?E" using r b(2) by simp
    with m Cross cross_choices_facts [of ?ps ?E] show ?thesis unfolding cross_reference_def by auto
  next
    case Broadcast
    then have c: "(\<forall>p \<in> set ?ps. ?E p = []) \<or> (\<forall>p \<in> set ?ps. ?E p \<noteq> [])" "bs = broadcast_reference ?ps ?E" using r b(3) by auto
    then have l: "length bs = Max ((\<lambda>p. length (?E p)) ` set ?ps)" by (simp add: broadcast_reference_def)
    have "Max ((\<lambda>p. length (?E p)) ` set ?ps) = 0" if "\<forall>p \<in> set ?ps. ?E p = []"
      using that assms(3) by (subst Max_eq_iff) (auto simp: image_constant_conv)
    with c l m Broadcast show ?thesis by (auto simp: broadcast_reference_def)
  qed
qed

theorem bindings_are_exact_witness:
  "\<exists>bs. region_bindings (some_region MapRegion) [(''x'', two_vals)] = (Inr bs :: unit region_failure + _) \<and> length bs = 2"
proof -
  have r: "region_bindings (some_region MapRegion) [(''x'', two_vals)] =
      (Inr [[(''x'', some_val ''1'')], [(''x'', some_val ''2'')]] :: unit region_failure + _)" by code_simp
  have "rn_binding (some_region MapRegion) = Zip" "rn_element_ports (some_region MapRegion) = [''x'']"
    "elements_of [(''x'', two_vals)] ''x'' = [some_val ''1'', some_val ''2'']"
    by (simp_all add: some_region_def elements_of_def list_children_def two_vals_def)
  with bindings_are_exact [OF r] r show ?thesis by auto
qed

text \<open>
  C16: Concurrency does not show: a map region, in whatever order its iterations complete, gives the
  result that running them one after the other as a fold gives, and gives one exactly when the fold
  does.
\<close>
theorem map_is_fold:
  assumes "rn_kind rn = MapRegion" and "stateless rn"
    and "\<And>inputs bs. region_inputs env rn p = Inr inputs \<Longrightarrow> region_bindings rn inputs = (Inr bs :: 'e region_failure + _) \<Longrightarrow>
      distinct order \<and> set order = {..<length bs}"
  shows "run_region (env :: 'e region_env) order rn p = Inr r \<longleftrightarrow> run_region env [] (rn\<lparr>rn_kind := FoldRegion\<rparr>) p = Inr r"
proof (cases "region_inputs env rn p")
  case (Inl e)
  then show ?thesis by (simp add: run_region_def)
next
  case (Inr inputs)
  show ?thesis
  proof (cases "absent_input inputs")
    case None
    have "run_kind env order rn (broadcast_ports rn inputs) bs acc = Inr x \<longleftrightarrow>
        run_kind env [] (rn\<lparr>rn_kind := FoldRegion\<rparr>) (broadcast_ports rn inputs) bs acc = Inr x"
      if "region_bindings rn inputs = (Inr bs :: 'e region_failure + _)" "start_collecting rn inputs = (Inr acc :: 'e region_failure + _)" for bs acc x
    proof (rule run_map [OF assms(1,2)])
      show "co_state acc = []" using that(2) assms(2) by (auto simp: start_collecting_def stateless_def binding_of_def dict_update_def)
      show "set order = {..<length bs}" using assms(3) [OF Inr that(1)] by blast
    qed
    then show ?thesis using Inr None by (auto simp: run_region_def and_then_Inr_iff)
  next
    case (Some iv)
    then show ?thesis using Inr by (cases iv) (simp add: run_region_def)
  qed
qed

theorem map_is_fold_witness:
  "run_region some_env [1, 0] (some_region MapRegion) some_inputs = run_region some_env [] (some_region FoldRegion) some_inputs"
proof -
  have i: "region_inputs some_env (some_region MapRegion) some_inputs = Inr [(''x'', two_vals)]" by code_simp
  have b: "region_bindings (some_region MapRegion) [(''x'', two_vals)] =
      (Inr [[(''x'', some_val ''1'')], [(''x'', some_val ''2'')]] :: unit region_failure + _)" by code_simp
  have s: "rn_kind (some_region MapRegion) = MapRegion" "stateless (some_region MapRegion)"
    by (simp_all add: some_region_def stateless_def)
  have f: "some_region MapRegion\<lparr>rn_kind := FoldRegion\<rparr> = some_region FoldRegion" by (simp add: some_region_def)
  have perm: "distinct [1, 0 :: nat] \<and> set [1, 0 :: nat] = {..<length bs}"
    if "region_inputs some_env (some_region MapRegion) some_inputs = Inr inputs"
      "region_bindings (some_region MapRegion) inputs = (Inr bs :: unit region_failure + _)" for inputs bs
    using that i b by auto
  have m: "run_region some_env [1, 0] (some_region MapRegion) some_inputs = Inr r \<longleftrightarrow>
      run_region some_env [] (some_region MapRegion\<lparr>rn_kind := FoldRegion\<rparr>) some_inputs = Inr r" for r
    by (rule map_is_fold [OF s]) (rule perm)
  have "\<exists>r. run_region some_env [] (some_region FoldRegion) some_inputs = Inr r" by (rule exI, code_simp)
  then show ?thesis using m unfolding f by metis
qed


text \<open>
  C17: What a fold or a while that ran gives for each output is determined by its iterations, each of
  which was given its binding and the state that the ones before it left: the collected values in
  order, the concatenation of their elements, those that are present, the last one, or the final
  state. A gathered or flattened collection with an absent member is absent, with the origin and
  reason of the first such member (the loop documentation says that gather retains absent values; the
  code and its comment do not), and a last output without an iteration is absent with itself as the origin. The iterations
  of a while are told to go on, except the last.
\<close>
theorem region_outputs_are_exact:
  fixes env :: "'e region_env"
  assumes "run_region env order rn p = Inr (Ran n, outs)" and "dict_ok (rn_outputs rn)" and "rn_kind rn \<noteq> MapRegion"
  shows "\<exists>inputs bs acc ps. region_inputs env rn p = Inr inputs \<and>
    region_bindings rn inputs = (Inr bs :: 'e region_failure + _) \<and>
    start_collecting rn inputs = (Inr acc :: 'e region_failure + _) \<and> length ps = n \<and>
    iterates env rn (broadcast_ports rn inputs) (if rn_kind rn = FoldRegion then (!) bs else (\<lambda>_. [])) 0 acc ps \<and>
    (if rn_kind rn = FoldRegion then n = length bs
     else 1 \<le> n \<and> (n = 1 \<or> int n \<le> the (rn_max_iterations rn)) \<and>
       (\<forall>j < n. tells env (the (rn_continue_source rn)) (ps ! j) (Suc j \<noteq> n))) \<and>
    map fst outs = map fst (rn_outputs rn) \<and>
    (\<forall>(k, out) \<in> set (rn_outputs rn). \<exists>v. map_of outs k = Some v \<and> output_fits env (co_state acc) ps k out v)"
proof -
  obtain inputs acc bs acc' where r: "region_inputs env rn p = Inr inputs" "run_present env order rn inputs acc bs n acc'"
    "each (region_output_value env acc') (rn_outputs rn) = Inr outs"
    using assms(1) by (auto simp: run_region_Ran)
  note pr = r(2) [unfolded run_present_def]
  let ?bind = "if rn_kind rn = FoldRegion then (!) bs else (\<lambda>_. [])" and ?bc = "broadcast_ports rn inputs"
  obtain ps where ps: "length ps = n" "iterates env rn ?bc ?bind 0 acc ps" "acc' = fold (taken rn) ps acc"
    "if rn_kind rn = FoldRegion then n = length bs
     else 1 \<le> n \<and> (n = 1 \<or> int n \<le> the (rn_max_iterations rn)) \<and>
       (\<forall>j < n. tells env (the (rn_continue_source rn)) (ps ! j) (Suc j \<noteq> n))"
  proof (cases "rn_kind rn")
    case FoldRegion
    then show thesis using that pr run_fold [of rn env order ?bc bs acc n acc'] by auto
  next
    case WhileRegion
    then obtain cont m where cm: "rn_continue_source rn = Some cont" "rn_max_iterations rn = Some m"
      using pr by (auto simp: run_kind_def split: option.splits)
    from pr run_while [OF WhileRegion cm, of env order ?bc bs acc n acc']
    obtain ps where "ps \<noteq> []" "n = length ps" "iterates env rn ?bc (\<lambda>_. []) 0 acc ps" "acc' = fold (taken rn) ps acc"
      "\<forall>j < length ps. tells env cont (ps ! j) (Suc j \<noteq> length ps)" "length ps = 1 \<or> int n \<le> m" by blast
    then show thesis using that [of ps] WhileRegion cm by (simp add: Suc_le_eq)
  qed (use assms(3) in simp)
  have e: "length outs = length (rn_outputs rn)" "\<forall>i < length (rn_outputs rn). region_output_value env acc' (rn_outputs rn ! i) = Inr (outs ! i)"
    using r(3) by (simp_all add: each_Inr)
  have fits: "fst (outs ! i) = fst (rn_outputs rn ! i) \<and>
      output_fits env (co_state acc) ps (fst (rn_outputs rn ! i)) (snd (rn_outputs rn ! i)) (snd (outs ! i))"
    if "i < length (rn_outputs rn)" for i
  proof -
    have mem: "(fst (rn_outputs rn ! i), snd (rn_outputs rn ! i)) \<in> set (rn_outputs rn)" using that by simp
    have st: "start_collecting rn inputs = (Inr acc :: 'e region_failure + _)" using pr by simp
    show ?thesis using region_output_fits [OF assms(2) mem st, of env ps "fst (outs ! i)" "snd (outs ! i)"] e(2) that ps(3) by simp
  qed
  have names: "map fst outs = map fst (rn_outputs rn)" using fits e(1) by (intro nth_equalityI) simp_all
  have "\<exists>v. map_of outs k = Some v \<and> output_fits env (co_state acc) ps k out v" if "(k, out) \<in> set (rn_outputs rn)" for k out
  proof -
    obtain i where i: "i < length (rn_outputs rn)" "rn_outputs rn ! i = (k, out)" using \<open>(k, out) \<in> set (rn_outputs rn)\<close> by (auto simp: in_set_conv_nth)
    have "dict_ok outs" using assms(2) names by (simp add: dict_ok_def)
    moreover have "(k, snd (outs ! i)) \<in> set outs" using fits [OF i(1)] i e(1) by (metis fst_conv nth_mem prod.collapse)
    ultimately show ?thesis using map_of_Some_set fits [OF i(1)] i(2) by fastforce
  qed
  then show ?thesis using r(1) pr ps names by blast
qed

theorem region_outputs_are_exact_witness:
  "\<exists>outs v. run_region some_env [] (some_region FoldRegion) some_inputs = Inr (Ran 2, outs) \<and> map_of outs ''all'' = Some v"
proof -
  have r: "\<exists>outs. run_region some_env [] (some_region FoldRegion) some_inputs = Inr (Ran 2, outs)" by (rule exI, code_simp)
  then obtain outs where o: "run_region some_env [] (some_region FoldRegion) some_inputs = Inr (Ran 2, outs)" by blast
  have "dict_ok (rn_outputs (some_region FoldRegion))" "rn_kind (some_region FoldRegion) \<noteq> MapRegion"
    "(''all'', \<lparr>ro_source = body_link, ro_mode = Gather\<rparr>) \<in> set (rn_outputs (some_region FoldRegion))"
    by (simp_all add: some_region_def)
  with region_outputs_are_exact [OF o] o show ?thesis by fastforce
qed

text \<open>
  C18: A while region ends. If its body always runs and tells whether to go on, then after at most as
  many iterations as declared - one at least - it has stopped at the first that says so, or fails
  with the guard against endless loops when all of them wanted to go on.
\<close>
theorem while_regions_end:
  fixes env :: "'e region_env"
  assumes "rn_kind rn = WhileRegion" and "rn_continue_source rn = Some cont" and "rn_max_iterations rn = Some m"
    and "\<And>i st. \<exists>q b. run_iteration env rn bc i [] st = Inr q \<and> all_readable rn q \<and> tells env cont q b"
  shows "(\<exists>ps. iterates env rn bc (\<lambda>_. []) 0 acc ps \<and> 1 \<le> length ps \<and> int (length ps) \<le> max 1 m \<and>
      (\<forall>j < length ps. tells env cont (ps ! j) (Suc j \<noteq> length ps)) \<and>
      run_kind env order rn bc bs acc = Inr (length ps, fold (taken rn) ps acc)) \<or>
    (\<exists>ps. iterates env rn bc (\<lambda>_. []) 0 acc ps \<and> int (length ps) = max 1 m \<and>
      (\<forall>j < length ps. tells env cont (ps ! j) True) \<and> run_kind env order rn bc bs acc = Inl LoopGuard)"
proof -
  have go: "(\<exists>n acc'. while_loop env rn bc cont m i acc = Inr (n, acc')) \<or>
      (\<exists>ps. iterates env rn bc (\<lambda>_. []) i acc ps \<and> int (length ps) = max 1 (m - int i) \<and>
        (\<forall>j < length ps. tells env cont (ps ! j) True) \<and> while_loop env rn bc cont m i acc = Inl LoopGuard)" for i acc
  proof (induction "nat (m - int i)" arbitrary: i acc rule: less_induct)
    case less
    obtain q b where q: "run_iteration env rn bc i [] (co_state acc) = Inr q" "all_readable rn q" "tells env cont q b"
      using assms(4) by blast
    then have s: "while_step env rn bc cont i acc = Inr (b, taken rn q acc)" by (rule while_step_InrI)
    consider "\<not> b" | "b" "m \<le> int (Suc i)" | "b" "int (Suc i) < m" by linarith
    then show ?case
    proof cases
      case 1
      then show ?thesis using s by (simp add: while_loop.simps [of env rn bc cont m i])
    next
      case 2
      then have "iterates env rn bc (\<lambda>_. []) i acc [q] \<and> while_loop env rn bc cont m i acc = Inl LoopGuard"
        using s q by (simp add: while_loop.simps [of env rn bc cont m i] iterates_Cons)
      then show ?thesis using 2 q(3) by (intro disjI2 exI [of _ "[q]"]) auto
    next
      case 3
      then have w: "while_loop env rn bc cont m i acc = while_loop env rn bc cont m (Suc i) (taken rn q acc)"
        using s by (simp add: while_loop.simps [of env rn bc cont m i])
      have "nat (m - int (Suc i)) < nat (m - int i)" using 3 by linarith
      from less [OF this, of "taken rn q acc"] show ?thesis
      proof (elim disjE exE conjE)
        fix ps assume ps: "iterates env rn bc (\<lambda>_. []) (Suc i) (taken rn q acc) ps" "int (length ps) = max 1 (m - int (Suc i))"
          "\<forall>j < length ps. tells env cont (ps ! j) True" "while_loop env rn bc cont m (Suc i) (taken rn q acc) = Inl LoopGuard"
        have "iterates env rn bc (\<lambda>_. []) i acc (q # ps)" "int (length (q # ps)) = max 1 (m - int i)"
          "\<forall>j < length (q # ps). tells env cont ((q # ps) ! j) True"
          using q 3 ps by (auto simp: iterates_Cons All_less_Suc2)
        then show ?thesis using w ps(4) by auto
      qed (use w in auto)
    qed
  qed
  have k: "run_kind env order rn bc bs acc = while_loop env rn bc cont m 0 acc" using assms(1-3) by (simp add: run_kind_def)
  from go [of 0 acc] show ?thesis
  proof (elim disjE exE)
    fix n acc' assume "while_loop env rn bc cont m 0 acc = Inr (n, acc')"
    then obtain ps where "ps \<noteq> []" "n = length ps" "iterates env rn bc (\<lambda>_. []) 0 acc ps" "acc' = fold (taken rn) ps acc"
      "\<forall>j < length ps. tells env cont (ps ! j) (Suc j \<noteq> length ps)" "length ps = 1 \<or> int n \<le> m"
      "run_kind env order rn bc bs acc = Inr (n, acc')"
      unfolding while_loop_Inr k by auto
    then show ?thesis by (intro disjI1 exI [of _ ps]) (auto simp: Suc_le_eq)
  next
    fix ps assume "iterates env rn bc (\<lambda>_. []) 0 acc ps \<and> int (length ps) = max 1 (m - int 0) \<and>
      (\<forall>j < length ps. tells env cont (ps ! j) True) \<and> while_loop env rn bc cont m 0 acc = Inl LoopGuard"
    then show ?thesis using k by (intro disjI2 exI [of _ ps]) simp
  qed
qed


definition loop_env :: "unit region_env" where
  "loop_env = some_env\<lparr>re_body := (\<lambda>i ps. Inr [(''n'', [(''out'', some_val (if i < 2 then ''1'' else ''0''))])])\<rparr>"

definition loop_region :: region where
  "loop_region = (some_region WhileRegion)\<lparr>rn_element_ports := [], rn_inputs := [],
     rn_outputs := [(''end'', \<lparr>ro_source = body_link, ro_mode = Last\<rparr>)], rn_max_iterations := Some 5,
     rn_continue_source := Some body_link\<rparr>"

theorem while_regions_end_witness:
  "\<exists>acc'. run_kind loop_env [] loop_region [] [] \<lparr>co_gathered = [], co_last = [], co_state = []\<rparr> = Inr (3, acc')"
proof -
  have "rn_kind loop_region = WhileRegion" "rn_continue_source loop_region = Some body_link" "rn_max_iterations loop_region = Some 5"
    by (simp_all add: loop_region_def some_region_def)
  moreover have "\<exists>q b. run_iteration loop_env loop_region [] i [] st = Inr q \<and> all_readable loop_region q \<and> tells loop_env body_link q b" for i st
    by (auto simp: run_iteration_def body_ports_def loop_env_def some_env_def loop_region_def some_region_def all_readable_iff
        produces_def tells_def reads_def body_link_def ports_node_id_def dict_mem_def region_index_port_def dict_update_def
        is_absent_def some_val_def core_absent_def)
  ultimately have "\<exists>n acc'. run_kind loop_env [] loop_region [] [] \<lparr>co_gathered = [], co_last = [], co_state = []\<rparr> = Inr (n, acc') \<or>
      run_kind loop_env [] loop_region [] [] \<lparr>co_gathered = [], co_last = [], co_state = []\<rparr> = Inl LoopGuard"
    using while_regions_end [of loop_region body_link 5 loop_env "[]"] by blast
  moreover have "\<exists>acc'. run_kind loop_env [] loop_region [] [] \<lparr>co_gathered = [], co_last = [], co_state = []\<rparr> = Inr (3, acc')"
    by (rule exI, simp add: run_kind_def while_loop.simps, code_simp)
  ultimately show ?thesis by simp
qed

lemma find_least: "sorted xs \<Longrightarrow> find P xs = Some k \<Longrightarrow> P k \<and> k \<in> set xs \<and> (\<forall>j \<in> set xs. P j \<longrightarrow> k \<le> j)"
  for xs :: "('a :: linorder) list"
  by (induction xs) (auto split: if_splits)

lemma body_irrelevant: "region_inputs (env\<lparr>re_body := b\<rparr>) rn p = region_inputs env rn p"
  "skipped_outputs (env\<lparr>re_body := b\<rparr>) rn v = skipped_outputs env rn v"
proof -
  have "region_input (env\<lparr>re_body := b\<rparr>) rn p iv = region_input env rn p iv" for iv
    by (cases "(env, rn, p, iv)" rule: region_input.cases) simp_all
  then show "region_inputs (env\<lparr>re_body := b\<rparr>) rn p = region_inputs env rn p"
    unfolding region_inputs_def by (intro each_cong refl)
qed (simp add: skipped_outputs_def)

text \<open>
  C20: An absent input skips the whole region: no iteration runs, whatever the body would do, and
  every output is absent, with the origin and the reason of the first absent input unchanged.
\<close>
theorem absence_skips_the_region:
  assumes "region_inputs env rn p = Inr inputs" and "i \<in> fst ` set inputs" and "is_absent (the (map_of inputs i))"
  shows "\<exists>k v outs. k \<in> fst ` set inputs \<and> map_of inputs k = Some v \<and> is_absent v \<and>
    (\<forall>j \<in> fst ` set inputs. is_absent (the (map_of inputs j)) \<longrightarrow> k \<le> j) \<and>
    (\<forall>body. run_region (env\<lparr>re_body := body\<rparr>) order rn p = Inr (Skipped k (absent_origin v) (absent_reason v), outs)) \<and>
    map fst outs = map fst (rn_outputs rn) \<and>
    (\<forall>(n, w) \<in> set outs. is_absent w \<and> absent_origin w = absent_origin v \<and> absent_reason w = absent_reason v)"
proof -
  let ?P = "\<lambda>i. is_absent (the (map_of inputs i))"
  have "find ?P (sort (map fst inputs)) \<noteq> None" using assms(2,3) by (auto simp: find_None_iff)
  then obtain k where k: "find ?P (sort (map fst inputs)) = Some k" by blast
  note l = find_least [OF sorted_sort k]
  then obtain v where v: "map_of inputs k = Some v" by (cases "map_of inputs k") (auto simp: map_of_eq_None_iff)
  have "absent_input inputs = Some (k, v)" using k v by (simp add: absent_input_def)
  then have "run_region (env\<lparr>re_body := body\<rparr>) order rn p = Inr (Skipped k (absent_origin v) (absent_reason v), skipped_outputs env rn v)" for body
    using run_region_skipped [of "env\<lparr>re_body := body\<rparr>" rn p inputs k v order] assms(1) by (simp add: body_irrelevant)
  moreover have "map fst (skipped_outputs env rn v) = map fst (rn_outputs rn)" by (simp add: skipped_outputs_def case_prod_beta comp_def)
  moreover have "\<forall>(n, w) \<in> set (skipped_outputs env rn v). is_absent w \<and> absent_origin w = absent_origin v \<and> absent_reason w = absent_reason v"
    by (auto simp: skipped_outputs_def)
  ultimately show ?thesis using l v by (intro exI [of _ k] exI [of _ v] exI [of _ "skipped_outputs env rn v"]) auto
qed

theorem absence_skips_the_region_witness:
  "\<exists>outs. run_region some_env [] (some_region FoldRegion) no_inputs = Inr (Skipped ''x'' ''load/vae'' ''no VAE'', outs)"
proof -
  let ?v = "make_absent_value concat 0 ''load/vae'' ''no VAE'' None"
  have i: "region_inputs some_env (some_region FoldRegion) no_inputs = Inr [(''x'', ?v)]" by code_simp
  have e: "some_env\<lparr>re_body := re_body some_env\<rparr> = some_env" by simp
  from absence_skips_the_region [OF i, of "''x''" "[]"] obtain outs where
    "\<forall>body. run_region (some_env\<lparr>re_body := body\<rparr>) [] (some_region FoldRegion) no_inputs =
      Inr (Skipped ''x'' (absent_origin ?v) (absent_reason ?v), outs)" by auto
  then have "run_region some_env [] (some_region FoldRegion) no_inputs = Inr (Skipped ''x'' ''load/vae'' ''no VAE'', outs)"
    using spec [of _ "re_body some_env"] e by (metis make_absent(2,3))
  then show ?thesis by blast
qed

end
