(* ===== verification/Job_Queue.thy ===== *)
theory Job_Queue
  imports Prelude "HOL-Library.Product_Lexorder"
begin

text \<open>
  The job queue (\<^verbatim>\<open>dinkster_server/queue.py\<close>): admission, priorities, dispatch, cancellation, the
  bounded history of finished jobs and the durable record of accepted work. Job objects are shared
  and mutable; their run id, which is unique, stands for their identity. The store is a parameter,
  and so is whether each of its writes succeeds.
\<close>

section \<open>Jobs\<close>

datatype job_key = JobKey (client_id: string) (job_id: string)

datatype job_state = Queued | Running | Completed | Failed | Cancelled

definition terminal_state :: "job_state \<Rightarrow> bool" where
  "terminal_state st \<longleftrightarrow> st \<in> {Completed, Failed, Cancelled}"

text \<open>
  The task of a job, with whether its cancellation was requested: it was created but did not run
  yet, it runs, it ended, or it was cancelled before its first step. The coroutine of a task
  cancelled before its first step is closed without entering its body.
\<close>

datatype job_task = TaskNew bool | TaskActive bool | TaskEnded | TaskDropped

text \<open>The facts of a submission that the queue only carries along, and the summary of a result.\<close>

record job_facts =
  jf_scope :: string
  jf_principal :: string
  jf_principal_kind :: string
  jf_source :: string
  jf_execution :: string

record job_result =
  rs_executed :: nat
  rs_cached :: nat
  rs_skipped :: nat
  rs_digests :: "string list"

record job =
  jb_key :: job_key
  jb_run :: string
  jb_priority :: int
  jb_facts :: job_facts
  jb_fingerprint :: string
  jb_state :: job_state
  jb_submitted :: int
  jb_started :: "int option"
  jb_finished :: "int option"
  jb_result :: "job_result option"
  jb_error :: "string option"
  jb_receipts :: "(string, string) dict"
  jb_task :: "job_task option"

text \<open>The three methods of the store; \<open>None\<close> is a raise.\<close>

record 'st queue_store =
  qs_accepted :: "job \<Rightarrow> 'st \<Rightarrow> 'st option"
  qs_started :: "job \<Rightarrow> 'st \<Rightarrow> 'st option"
  qs_terminal :: "job \<Rightarrow> 'st \<Rightarrow> 'st option"

record 'st queue =
  jq_heap :: "(string, job) dict"
  jq_jobs :: "(job_key, string) dict"
  jq_pending :: "string list"
  jq_seq :: nat
  jq_order :: "(job_key, nat) dict"
  jq_by_run :: "(string, job_key) dict"
  jq_history :: "string list"
  jq_running :: "job_key list"
  jq_max :: nat
  jq_limit :: nat
  jq_paused :: bool
  jq_maintenance :: bool
  jq_wakeup :: bool
  jq_closed :: bool
  jq_events :: "(string \<times> job_state) list"
  jq_store :: 'st

definition new_queue :: "int \<Rightarrow> int \<Rightarrow> 'st \<Rightarrow> 'st queue option" where
  "new_queue max_running limit st =
     (if max_running < 1 \<or> limit < 1 then None
      else Some \<lparr>jq_heap = [], jq_jobs = [], jq_pending = [], jq_seq = 0, jq_order = [], jq_by_run = [],
        jq_history = [], jq_running = [], jq_max = nat max_running, jq_limit = nat limit, jq_paused = False,
        jq_maintenance = False, jq_wakeup = False, jq_closed = False, jq_events = [], jq_store = st\<rparr>)"

definition job_of :: "'st queue \<Rightarrow> string \<Rightarrow> job" where
  "job_of q r = the (map_of (jq_heap q) r)"

definition set_job :: "job \<Rightarrow> 'st queue \<Rightarrow> 'st queue" where
  "set_job j q = q\<lparr>jq_heap := dict_set (jb_run j) j (jq_heap q)\<rparr>"

definition emit_job :: "string \<Rightarrow> 'st queue \<Rightarrow> 'st queue" where
  "emit_job r q = q\<lparr>jq_events := jq_events q @ [(r, jb_state (job_of q r))]\<rparr>"

text \<open>A write of a store that takes it, if the disk does.\<close>

definition write_store :: "bool \<Rightarrow> ('st \<Rightarrow> 'st option) \<Rightarrow> 'st queue \<Rightarrow> 'st queue option" where
  "write_store ok write q =
     (if \<not> ok then None
      else map_option (\<lambda>st. q\<lparr>jq_store := st\<rparr>) (write (jq_store q)))"

text \<open>A write whose failure is only logged.\<close>

definition try_store :: "bool \<Rightarrow> ('st \<Rightarrow> 'st option) \<Rightarrow> 'st queue \<Rightarrow> 'st queue" where
  "try_store ok write q = (case write_store ok write q of None \<Rightarrow> q | Some q' \<Rightarrow> q')"

section \<open>Finishing a job\<close>

definition evict_one :: "'st queue \<Rightarrow> 'st queue" where
  "evict_one q =
     (let r = hd (jq_history q); k = jb_key (job_of q r);
          q1 = q\<lparr>jq_history := tl (jq_history q)\<rparr>;
          q2 = (if map_of (jq_jobs q1) k = Some r
                then q1\<lparr>jq_jobs := dict_del k (jq_jobs q1), jq_order := dict_del k (jq_order q1)\<rparr> else q1) in
      q2\<lparr>jq_by_run := dict_del r (jq_by_run q2)\<rparr>)"

definition evict_history :: "'st queue \<Rightarrow> 'st queue" where
  "evict_history q = (evict_one ^^ (length (jq_history q) - jq_limit q)) q"

definition finish_job :: "'st queue_store \<Rightarrow> (string \<Rightarrow> bool) \<Rightarrow> int \<Rightarrow> string \<Rightarrow> job_state \<Rightarrow> string option \<Rightarrow>
    'st queue \<Rightarrow> 'st queue" where
  "finish_job api ok now r st err q =
     (let j = (job_of q r)\<lparr>jb_state := st, jb_error := err, jb_finished := Some now\<rparr>;
          q1 = try_store (ok r) (qs_terminal api j) (set_job j q) in
      emit_job r (evict_history (q1\<lparr>jq_history := jq_history q1 @ [r]\<rparr>)))"

section \<open>Calls\<close>

text \<open>
  A submission: its content in canonical form, the fingerprint the client sent if any, and whether
  the graph is already lowered.
\<close>

record request =
  rq_key :: job_key
  rq_priority :: int
  rq_facts :: job_facts
  rq_fingerprint :: string
  rq_content :: string
  rq_lowered :: bool

datatype queue_error = QueueClosed | NotAdmitted | KeyInUse job_key | StoreFailed | MaintenanceActive | BadLimit

definition fingerprint_of :: "(string \<Rightarrow> string) \<Rightarrow> request \<Rightarrow> string" where
  "fingerprint_of h rq = (if rq_fingerprint rq \<noteq> [] then rq_fingerprint rq else h (rq_content rq))"

definition new_job :: "string \<Rightarrow> int \<Rightarrow> request \<Rightarrow> string \<Rightarrow> job" where
  "new_job fp now rq r = \<lparr>jb_key = rq_key rq, jb_run = r, jb_priority = rq_priority rq, jb_facts = rq_facts rq,
     jb_fingerprint = fp, jb_state = Queued, jb_submitted = now, jb_started = None, jb_finished = None,
     jb_result = None, jb_error = None, jb_receipts = [], jb_task = None\<rparr>"

text \<open>The terminal predecessor of a resubmitted key goes completely.\<close>

definition forget_job :: "string option \<Rightarrow> 'st queue \<Rightarrow> 'st queue" where
  "forget_job old q =
     (case old of
        None \<Rightarrow> q
      | Some e \<Rightarrow> q\<lparr>jq_by_run := dict_del e (jq_by_run q), jq_history := remove1 e (jq_history q)\<rparr>)"

definition enqueue_job :: "job \<Rightarrow> 'st queue \<Rightarrow> 'st queue" where
  "enqueue_job j q =
     (let q1 = (set_job j q)\<lparr>jq_jobs := dict_set (jb_key j) (jb_run j) (jq_jobs q),
            jq_order := dict_set (jb_key j) (jq_seq q) (jq_order q), jq_seq := Suc (jq_seq q),
            jq_by_run := dict_set (jb_run j) (jb_key j) (jq_by_run q), jq_pending := jq_pending q @ [jb_run j]\<rparr> in
      (emit_job (jb_run j) q1)\<lparr>jq_wakeup := True\<rparr>)"

definition submit_job :: "(string \<Rightarrow> string) \<Rightarrow> 'st queue_store \<Rightarrow> bool \<Rightarrow> int \<Rightarrow> string \<Rightarrow> request \<Rightarrow> 'st queue \<Rightarrow>
    'st queue \<times> (queue_error + string)" where
  "submit_job h api ok now r rq q =
     (if jq_closed q then (q, Inl QueueClosed)
      else if \<not> rq_lowered rq then (q, Inl NotAdmitted)
      else
        (let fp = fingerprint_of h rq; old = map_of (jq_jobs q) (rq_key rq); j = new_job fp now rq r in
         if old \<noteq> None \<and> \<not> terminal_state (jb_state (job_of q (the old))) then
           (q, if jb_fingerprint (job_of q (the old)) = fp then Inr (the old) else Inl (KeyInUse (rq_key rq)))
         else
           (case write_store ok (qs_accepted api j) q of
              None \<Rightarrow> (q, Inl StoreFailed)
            | Some q1 \<Rightarrow> (enqueue_job j (forget_job old q1), Inr r))))"

definition get_job :: "job_key \<Rightarrow> 'st queue \<Rightarrow> string option" where
  "get_job k q = map_of (jq_jobs q) k"

definition job_for_run :: "string \<Rightarrow> 'st queue \<Rightarrow> string option" where
  "job_for_run r q =
     (case map_of (jq_by_run q) r of None \<Rightarrow> None | Some k \<Rightarrow> map_of (jq_jobs q) k)"

definition order_of :: "'st queue \<Rightarrow> string \<Rightarrow> nat" where
  "order_of q r = the (map_of (jq_order q) (jb_key (job_of q r)))"

definition all_jobs :: "string option \<Rightarrow> 'st queue \<Rightarrow> string list" where
  "all_jobs client q =
     (let rs = sort_key (order_of q) (map snd (jq_jobs q)) in
      (case client of None \<Rightarrow> rs | Some c \<Rightarrow> filter (\<lambda>r. client_id (jb_key (job_of q r)) = c) rs))"

definition dispatch_key :: "'st queue \<Rightarrow> string \<Rightarrow> int \<times> nat" where
  "dispatch_key q r = (- jb_priority (job_of q r), order_of q r)"

definition pending_jobs :: "'st queue \<Rightarrow> string list" where
  "pending_jobs q = sort_key (dispatch_key q) (jq_pending q)"

definition running_jobs :: "'st queue \<Rightarrow> string list" where
  "running_jobs q = sort_key (order_of q) (map (\<lambda>k. the (map_of (jq_jobs q) k)) (jq_running q))"

definition pause :: "'st queue \<Rightarrow> 'st queue" where
  "pause q = q\<lparr>jq_paused := True\<rparr>"

definition resume :: "'st queue \<Rightarrow> 'st queue \<times> (queue_error + unit)" where
  "resume q =
     (if jq_maintenance q then (q, Inl MaintenanceActive)
      else (q\<lparr>jq_paused := False, jq_wakeup := True\<rparr>, Inr ()))"

definition begin_maintenance :: "'st queue \<Rightarrow> 'st queue \<times> string option" where
  "begin_maintenance q =
     (if jq_maintenance q then (q, Some ''queue maintenance is already active'')
      else if \<not> jq_paused q then (q, Some ''queue must be paused before memory maintenance'')
      else if jq_running q \<noteq> [] then (q, Some ''queue must be idle before memory maintenance'')
      else (q\<lparr>jq_maintenance := True\<rparr>, None))"

definition end_maintenance :: "'st queue \<Rightarrow> 'st queue" where
  "end_maintenance q = q\<lparr>jq_maintenance := False\<rparr>"

definition set_max_running :: "int \<Rightarrow> 'st queue \<Rightarrow> 'st queue \<times> (queue_error + unit)" where
  "set_max_running n q =
     (if n < 1 then (q, Inl BadLimit)
      else (q\<lparr>jq_max := nat n, jq_wakeup := jq_wakeup q \<or> jq_max q < nat n\<rparr>, Inr ()))"

definition cancel_pending :: "'st queue_store \<Rightarrow> (string \<Rightarrow> bool) \<Rightarrow> int \<Rightarrow> string \<Rightarrow> 'st queue \<Rightarrow> 'st queue" where
  "cancel_pending api ok now r q =
     finish_job api ok now r Cancelled None (q\<lparr>jq_pending := remove1 r (jq_pending q)\<rparr>)"

definition clear_jobs :: "'st queue_store \<Rightarrow> (string \<Rightarrow> bool) \<Rightarrow> int \<Rightarrow> string option \<Rightarrow> 'st queue \<Rightarrow> 'st queue \<times> string list" where
  "clear_jobs api ok now client q =
     (let victims = filter (\<lambda>r. client = None \<or> Some (client_id (jb_key (job_of q r))) = client) (pending_jobs q) in
      (fold (cancel_pending api ok now) victims q, victims))"

fun request_cancel :: "job_task \<Rightarrow> job_task" where
  "request_cancel (TaskNew _) = TaskNew True"
| "request_cancel (TaskActive _) = TaskActive True"
| "request_cancel t = t"

definition cancel_task :: "string \<Rightarrow> 'st queue \<Rightarrow> 'st queue" where
  "cancel_task r q =
     (let j = job_of q r in set_job (j\<lparr>jb_task := map_option request_cancel (jb_task j)\<rparr>) q)"

definition cancel_job :: "'st queue_store \<Rightarrow> (string \<Rightarrow> bool) \<Rightarrow> int \<Rightarrow> job_key \<Rightarrow> 'st queue \<Rightarrow> 'st queue \<times> string option" where
  "cancel_job api ok now k q =
     (case map_of (jq_jobs q) k of
        None \<Rightarrow> (q, None)
      | Some r \<Rightarrow>
          if terminal_state (jb_state (job_of q r)) then (q, Some r)
          else if jb_state (job_of q r) = Queued then (cancel_pending api ok now r q, Some r)
          else (cancel_task r q, Some r))"

section \<open>Dispatch and execution\<close>

definition start_job :: "'st queue_store \<Rightarrow> (string \<Rightarrow> bool) \<Rightarrow> int \<Rightarrow> 'st queue \<Rightarrow> 'st queue" where
  "start_job api ok now q =
     (let r = hd (pending_jobs q);
          j = (job_of q r)\<lparr>jb_state := Running, jb_started := Some now\<rparr>;
          q1 = try_store (ok r) (qs_started api j) (set_job j (q\<lparr>jq_pending := tl (pending_jobs q)\<rparr>));
          q2 = q1\<lparr>jq_running := List.insert (jb_key j) (jq_running q1)\<rparr> in
      emit_job r (set_job (j\<lparr>jb_task := Some (TaskNew False)\<rparr>) q2))"

definition can_dispatch :: "'st queue \<Rightarrow> bool" where
  "can_dispatch q \<longleftrightarrow> \<not> jq_paused q \<and> \<not> jq_maintenance q \<and> jq_pending q \<noteq> [] \<and> length (jq_running q) < jq_max q"

text \<open>The inner loop of the dispatcher takes a job from the pending ones in each round.\<close>

lemma start_job_pending: "jq_pending (start_job api ok now q) = tl (pending_jobs q)"
  by (simp add: start_job_def Let_def emit_job_def set_job_def try_store_def write_store_def split: option.splits)

function dispatch_jobs :: "'st queue_store \<Rightarrow> (string \<Rightarrow> bool) \<Rightarrow> int \<Rightarrow> 'st queue \<Rightarrow> 'st queue" where
  "dispatch_jobs api ok now q =
     (if can_dispatch q then dispatch_jobs api ok now (start_job api ok now q) else q)"
  by pat_completeness auto
termination
  by (relation "measure (\<lambda>(_, _, _, q). length (jq_pending q))")
     (auto simp: start_job_pending pending_jobs_def can_dispatch_def)

declare dispatch_jobs.simps [simp del]

text \<open>One turn of the dispatcher, once it was woken.\<close>

definition wake_dispatcher :: "'st queue_store \<Rightarrow> (string \<Rightarrow> bool) \<Rightarrow> int \<Rightarrow> 'st queue \<Rightarrow> 'st queue" where
  "wake_dispatcher api ok now q =
     (let q1 = q\<lparr>jq_wakeup := False\<rparr> in if jq_closed q then q1 else dispatch_jobs api ok now q1)"

text \<open>The first step of a job's task enters \<^verbatim>\<open>_run_job\<close>, unless it was cancelled before.\<close>

definition begin_task :: "string \<Rightarrow> 'st queue \<Rightarrow> 'st queue" where
  "begin_task r q =
     (let j = job_of q r in
      set_job (j\<lparr>jb_task := (if jb_task j = Some (TaskNew True) then Some TaskDropped else Some (TaskActive False))\<rparr>) q)"

text \<open>\<open>_run_job\<close> ends: whatever happened is the outcome, then the job is finished and its slot freed.\<close>

datatype job_outcome = RanToEnd job_result | RanCancelled | RanFailed string

fun outcome_state :: "job_outcome \<Rightarrow> job_state" where
  "outcome_state (RanToEnd _) = Completed"
| "outcome_state RanCancelled = Cancelled"
| "outcome_state (RanFailed _) = Failed"

fun outcome_error :: "job_outcome \<Rightarrow> string option" where
  "outcome_error (RanFailed kind) = Some kind"
| "outcome_error _ = None"

fun outcome_result :: "job_outcome \<Rightarrow> job_result option" where
  "outcome_result (RanToEnd res) = Some res"
| "outcome_result _ = None"

definition end_job :: "'st queue_store \<Rightarrow> (string \<Rightarrow> bool) \<Rightarrow> int \<Rightarrow> string \<Rightarrow> job_outcome \<Rightarrow> 'st queue \<Rightarrow> 'st queue" where
  "end_job api ok now r out q =
     (let q1 = finish_job api ok now r (outcome_state out) (outcome_error out)
                 (set_job ((job_of q r)\<lparr>jb_task := Some TaskEnded, jb_result := outcome_result out\<rparr>) q) in
      q1\<lparr>jq_running := remove1 (jb_key (job_of q1 r)) (jq_running q1), jq_wakeup := True\<rparr>)"

text \<open>The application notes on a job what became of a node.\<close>

definition note_receipt :: "string \<Rightarrow> string \<Rightarrow> string \<Rightarrow> 'st queue \<Rightarrow> 'st queue" where
  "note_receipt r node disposition q =
     (let j = job_of q r in set_job (j\<lparr>jb_receipts := dict_set node disposition (jb_receipts j)\<rparr>) q)"

text \<open>The part of \<^verbatim>\<open>close\<close> before it waits for the tasks.\<close>

definition close_queue :: "'st queue_store \<Rightarrow> (string \<Rightarrow> bool) \<Rightarrow> int \<Rightarrow> 'st queue \<Rightarrow> 'st queue" where
  "close_queue api ok now q =
     (let q1 = q\<lparr>jq_closed := True, jq_wakeup := True\<rparr>;
          q2 = fold (\<lambda>r. finish_job api ok now r Cancelled (Some ''server shutting down'')) (jq_pending q1) q1;
          q3 = q2\<lparr>jq_pending := []\<rparr> in
      fold (\<lambda>k. cancel_task (the (map_of (jq_jobs q3) k))) (jq_running q3) q3)"

section \<open>The steps of the event loop\<close>

definition fresh_run :: "string \<Rightarrow> 'st queue \<Rightarrow> bool" where
  "fresh_run r q \<longleftrightarrow> map_of (jq_heap q) r = None"

definition task_of :: "'st queue \<Rightarrow> string \<Rightarrow> job_task option" where
  "task_of q r = (case map_of (jq_heap q) r of None \<Rightarrow> None | Some j \<Rightarrow> jb_task j)"

inductive queue_step :: "(string \<Rightarrow> string) \<Rightarrow> 'st queue_store \<Rightarrow> 'st queue \<Rightarrow> 'st queue \<Rightarrow> bool"
  for h :: "string \<Rightarrow> string" and api :: "'st queue_store" where
  submit: "fresh_run r q \<Longrightarrow> queue_step h api q (fst (submit_job h api ok now r rq q))"
| cancel: "queue_step h api q (fst (cancel_job api oks now k q))"
| clear: "queue_step h api q (fst (clear_jobs api oks now client q))"
| pause: "queue_step h api q (pause q)"
| resume: "queue_step h api q (fst (resume q))"
| maintain: "queue_step h api q (fst (begin_maintenance q))"
| maintained: "queue_step h api q (end_maintenance q)"
| limit: "queue_step h api q (fst (set_max_running n q))"
| wake: "jq_wakeup q \<Longrightarrow> queue_step h api q (wake_dispatcher api oks now q)"
| begins: "task_of q r = Some (TaskNew c) \<Longrightarrow> queue_step h api q (begin_task r q)"
| ends: "task_of q r = Some (TaskActive c) \<Longrightarrow> queue_step h api q (end_job api oks now r out q)"
| receipt: "task_of q r = Some (TaskActive c) \<Longrightarrow> queue_step h api q (note_receipt r node disposition q)"
| close: "queue_step h api q (close_queue api oks now q)"

definition queue_run :: "(string \<Rightarrow> string) \<Rightarrow> 'st queue_store \<Rightarrow> 'st queue \<Rightarrow> 'st queue \<Rightarrow> bool" where
  "queue_run h api q0 q \<longleftrightarrow> (queue_step h api)\<^sup>*\<^sup>* q0 q"

section \<open>The invariant\<close>

definition known :: "'st queue \<Rightarrow> string \<Rightarrow> bool" where
  "known q r \<longleftrightarrow> map_of (jq_jobs q) (jb_key (job_of q r)) = Some r"

definition job_index_ok :: "'st queue \<Rightarrow> bool" where
  "job_index_ok q \<longleftrightarrow>
     (\<forall>r j. map_of (jq_heap q) r = Some j \<longrightarrow> jb_run j = r) \<and>
     (\<forall>k r. map_of (jq_jobs q) k = Some r \<longrightarrow> map_of (jq_heap q) r \<noteq> None \<and> jb_key (job_of q r) = k) \<and>
     dict_ok (jq_jobs q) \<and>
     (\<forall>k. map_of (jq_order q) k = None \<longleftrightarrow> map_of (jq_jobs q) k = None) \<and>
     (\<forall>k n. map_of (jq_order q) k = Some n \<longrightarrow> n < jq_seq q) \<and>
     (\<forall>k k' n. map_of (jq_order q) k = Some n \<longrightarrow> map_of (jq_order q) k' = Some n \<longrightarrow> k = k') \<and>
     (\<forall>r k. map_of (jq_by_run q) r = Some k \<longleftrightarrow> map_of (jq_jobs q) k = Some r)"

definition task_fits :: "job \<Rightarrow> bool" where
  "task_fits j \<longleftrightarrow>
     (jb_state j = Queued \<longrightarrow> jb_task j = None) \<and>
     (jb_state j = Running \<longrightarrow> (\<exists>c. jb_task j \<in> {Some (TaskNew c), Some (TaskActive c), Some TaskDropped})) \<and>
     (terminal_state (jb_state j) \<longrightarrow> jb_task j \<in> {None, Some TaskEnded})"

text \<open>The lists hold the known jobs of each state, except for jobs in transit.\<close>

definition lists_ok :: "string set \<Rightarrow> 'st queue \<Rightarrow> bool" where
  "lists_ok transit q \<longleftrightarrow>
     distinct (jq_pending q) \<and> distinct (jq_running q) \<and> distinct (jq_history q) \<and>
     (\<forall>r. r \<in> set (jq_pending q) \<longleftrightarrow> r \<notin> transit \<and> known q r \<and> jb_state (job_of q r) = Queued) \<and>
     (\<forall>k. k \<in> set (jq_running q) \<longleftrightarrow> (\<exists>r. r \<notin> transit \<and> map_of (jq_jobs q) k = Some r \<and> jb_state (job_of q r) = Running)) \<and>
     (\<forall>r. r \<in> set (jq_history q) \<longleftrightarrow> r \<notin> transit \<and> known q r \<and> terminal_state (jb_state (job_of q r))) \<and>
     (\<forall>r. known q r \<longrightarrow> r \<notin> transit \<longrightarrow> task_fits (job_of q r))"

text \<open>A job that is no longer known came to its end.\<close>

definition gone_ok :: "'st queue \<Rightarrow> bool" where
  "gone_ok q \<longleftrightarrow> (\<forall>r. map_of (jq_heap q) r \<noteq> None \<longrightarrow> \<not> known q r \<longrightarrow>
     terminal_state (jb_state (job_of q r)) \<and> jb_task (job_of q r) \<in> {None, Some TaskEnded})"

definition queue_ok :: "'st queue \<Rightarrow> bool" where
  "queue_ok q \<longleftrightarrow> job_index_ok q \<and> lists_ok {} q \<and> gone_ok q \<and> length (jq_history q) \<le> jq_limit q \<and> 0 < jq_limit q \<and> 0 < jq_max q"

lemma terminal_simps [simp]: "terminal_state Completed" "terminal_state Failed" "terminal_state Cancelled"
  "\<not> terminal_state Queued" "\<not> terminal_state Running"
  by (simp_all add: terminal_state_def)

lemma terminal_iff: "terminal_state st \<longleftrightarrow> st \<noteq> Queued \<and> st \<noteq> Running"
  by (cases st) simp_all

lemma job_of_set [simp]: "job_of (set_job j q) r = (if r = jb_run j then j else job_of q r)"
  by (simp add: job_of_def set_job_def)

lemma heap_set: "map_of (jq_heap (set_job j q)) r = (if r = jb_run j then Some j else map_of (jq_heap q) r)"
  by (simp add: set_job_def)

lemma set_job_fields [simp]:
  "jq_jobs (set_job j q) = jq_jobs q" "jq_pending (set_job j q) = jq_pending q" "jq_seq (set_job j q) = jq_seq q"
  "jq_order (set_job j q) = jq_order q" "jq_by_run (set_job j q) = jq_by_run q" "jq_history (set_job j q) = jq_history q"
  "jq_running (set_job j q) = jq_running q" "jq_max (set_job j q) = jq_max q" "jq_limit (set_job j q) = jq_limit q"
  "jq_paused (set_job j q) = jq_paused q" "jq_maintenance (set_job j q) = jq_maintenance q"
  "jq_wakeup (set_job j q) = jq_wakeup q" "jq_closed (set_job j q) = jq_closed q" "jq_store (set_job j q) = jq_store q"
  by (simp_all add: set_job_def)

lemma job_index_okD:
  assumes "job_index_ok q"
  shows "map_of (jq_heap q) r = Some j \<Longrightarrow> jb_run j = r"
    "map_of (jq_jobs q) k = Some r \<Longrightarrow> map_of (jq_heap q) r \<noteq> None"
    "map_of (jq_jobs q) k = Some r \<Longrightarrow> jb_key (job_of q r) = k"
    "dict_ok (jq_jobs q)"
    "map_of (jq_order q) k = None \<longleftrightarrow> map_of (jq_jobs q) k = None"
    "map_of (jq_order q) k = Some n \<Longrightarrow> n < jq_seq q"
    "map_of (jq_order q) k = Some n \<Longrightarrow> map_of (jq_order q) k' = Some n \<Longrightarrow> k = k'"
    "map_of (jq_by_run q) r = Some k \<longleftrightarrow> map_of (jq_jobs q) k = Some r"
  using assms unfolding job_index_ok_def by blast+

lemma job_index_okI:
  assumes "\<And>r j. map_of (jq_heap q) r = Some j \<Longrightarrow> jb_run j = r"
    "\<And>k r. map_of (jq_jobs q) k = Some r \<Longrightarrow> map_of (jq_heap q) r \<noteq> None \<and> jb_key (job_of q r) = k"
    "dict_ok (jq_jobs q)"
    "\<And>k. map_of (jq_order q) k = None \<longleftrightarrow> map_of (jq_jobs q) k = None"
    "\<And>k n. map_of (jq_order q) k = Some n \<Longrightarrow> n < jq_seq q"
    "\<And>k k' n. map_of (jq_order q) k = Some n \<Longrightarrow> map_of (jq_order q) k' = Some n \<Longrightarrow> k = k'"
    "\<And>r k. map_of (jq_by_run q) r = Some k \<longleftrightarrow> map_of (jq_jobs q) k = Some r"
  shows "job_index_ok q"
  using assms unfolding job_index_ok_def by blast

lemma lists_okD:
  assumes "lists_ok L q"
  shows "distinct (jq_pending q)" "distinct (jq_running q)" "distinct (jq_history q)"
    "r \<in> set (jq_pending q) \<longleftrightarrow> r \<notin> L \<and> known q r \<and> jb_state (job_of q r) = Queued"
    "k \<in> set (jq_running q) \<longleftrightarrow> (\<exists>r. r \<notin> L \<and> map_of (jq_jobs q) k = Some r \<and> jb_state (job_of q r) = Running)"
    "r \<in> set (jq_history q) \<longleftrightarrow> r \<notin> L \<and> known q r \<and> terminal_state (jb_state (job_of q r))"
    "known q r \<Longrightarrow> r \<notin> L \<Longrightarrow> task_fits (job_of q r)"
  using assms unfolding lists_ok_def by blast+

lemma lists_okI:
  assumes "distinct (jq_pending q)" "distinct (jq_running q)" "distinct (jq_history q)"
    "\<And>r. r \<in> set (jq_pending q) \<longleftrightarrow> r \<notin> L \<and> known q r \<and> jb_state (job_of q r) = Queued"
    "\<And>k. k \<in> set (jq_running q) \<longleftrightarrow> (\<exists>r. r \<notin> L \<and> map_of (jq_jobs q) k = Some r \<and> jb_state (job_of q r) = Running)"
    "\<And>r. r \<in> set (jq_history q) \<longleftrightarrow> r \<notin> L \<and> known q r \<and> terminal_state (jb_state (job_of q r))"
    "\<And>r. known q r \<Longrightarrow> r \<notin> L \<Longrightarrow> task_fits (job_of q r)"
  shows "lists_ok L q"
  using assms unfolding lists_ok_def by blast

lemma known_key: "job_index_ok q \<Longrightarrow> map_of (jq_jobs q) k = Some r \<Longrightarrow> known q r"
  by (simp add: known_def job_index_okD(3))

text \<open>What the invariant does not read.\<close>

lemma job_of_cong: "jq_heap q' = jq_heap q \<Longrightarrow> job_of q' = job_of q"
  by (simp add: job_of_def fun_eq_iff)

definition same_lists :: "'st queue \<Rightarrow> 'st queue \<Rightarrow> bool" where
  "same_lists q q' \<longleftrightarrow> jq_heap q' = jq_heap q \<and> jq_jobs q' = jq_jobs q \<and> jq_pending q' = jq_pending q \<and>
     jq_seq q' = jq_seq q \<and> jq_order q' = jq_order q \<and> jq_by_run q' = jq_by_run q \<and>
     jq_history q' = jq_history q \<and> jq_running q' = jq_running q \<and> jq_limit q' = jq_limit q"

lemma same_lists_ok:
  assumes "same_lists q q'"
  shows "job_index_ok q' = job_index_ok q" "lists_ok L q' = lists_ok L q" "known q' = known q" "job_of q' = job_of q"
proof -
  show j: "job_of q' = job_of q" using assms by (intro job_of_cong) (simp add: same_lists_def)
  show k: "known q' = known q" using assms by (simp add: known_def j same_lists_def fun_eq_iff)
  show "job_index_ok q' = job_index_ok q" "lists_ok L q' = lists_ok L q"
    using assms by (simp_all add: job_index_ok_def lists_ok_def j k same_lists_def)
qed

lemma try_store_same: "same_lists q (try_store ok w q)" "jq_max (try_store ok w q) = jq_max q"
  "jq_paused (try_store ok w q) = jq_paused q" "jq_maintenance (try_store ok w q) = jq_maintenance q"
  "jq_closed (try_store ok w q) = jq_closed q" "jq_wakeup (try_store ok w q) = jq_wakeup q"
  "jq_events (try_store ok w q) = jq_events q"
  by (auto simp: same_lists_def try_store_def write_store_def split: option.splits)

lemma emit_same: "same_lists q (emit_job r q)" "jq_max (emit_job r q) = jq_max q"
  "jq_paused (emit_job r q) = jq_paused q" "jq_maintenance (emit_job r q) = jq_maintenance q"
  "jq_closed (emit_job r q) = jq_closed q" "jq_wakeup (emit_job r q) = jq_wakeup q" "jq_store (emit_job r q) = jq_store q"
  by (simp_all add: same_lists_def emit_job_def)

lemma same_lists_refl: "same_lists q q" by (simp add: same_lists_def)

lemma same_lists_fields: "same_lists q q' \<Longrightarrow> jq_history q' = jq_history q \<and> jq_limit q' = jq_limit q \<and>
    jq_pending q' = jq_pending q \<and> jq_running q' = jq_running q \<and> jq_jobs q' = jq_jobs q \<and> jq_heap q' = jq_heap q"
  by (simp add: same_lists_def)

subsection \<open>Eviction and finishing\<close>

lemma evict_one_ok:
  assumes I: "job_index_ok q" and L: "lists_ok {} q" and h: "jq_history q = e # hist"
  shows "job_index_ok (evict_one q)" "lists_ok {} (evict_one q)" "jq_history (evict_one q) = hist"
    "known (evict_one q) r \<longleftrightarrow> known q r \<and> r \<noteq> e" "job_of (evict_one q) = job_of q"
proof -
  let ?k = "jb_key (job_of q e)"
  have e: "map_of (jq_jobs q) ?k = Some e" "terminal_state (jb_state (job_of q e))"
    using L h by (auto simp: lists_ok_def known_def)
  have ev: "evict_one q = q\<lparr>jq_history := hist, jq_jobs := dict_del ?k (jq_jobs q),
      jq_order := dict_del ?k (jq_order q), jq_by_run := dict_del e (jq_by_run q)\<rparr>"
    using e(1) by (simp add: evict_one_def Let_def h job_of_def)
  show j: "job_of (evict_one q) = job_of q" by (rule job_of_cong) (simp add: ev)
  have uniq: "r = e" if "map_of (jq_jobs q) ?k = Some r" for r using that e(1) by simp
  have key: "jb_key (job_of q r) = k" if "map_of (jq_jobs q) k = Some r" for r k using I that by (simp add: job_index_ok_def)
  have jobs: "jq_jobs (evict_one q) = dict_del ?k (jq_jobs q)" by (simp add: ev)
  show k: "known (evict_one q) r \<longleftrightarrow> known q r \<and> r \<noteq> e" for r
    unfolding known_def j jobs using e(1) by (auto split: if_splits)
  note I' = job_index_okD [OF I] and L' = lists_okD [OF L]
  show "job_index_ok (evict_one q)"
  proof (rule job_index_okI, unfold j, goal_cases)
    case (1 r j)
    then show ?case using I'(1) [of r j] by (simp add: ev)
  next
    case (2 k r)
    then show ?case using I'(2,3) [of k r] by (simp add: ev split: if_splits)
  next
    case 3
    then show ?case using I'(4) by (simp add: ev)
  next
    case (4 k)
    then show ?case using I'(5) [of k] by (simp add: ev)
  next
    case (5 k n)
    then show ?case using I'(6) [of k n] by (simp add: ev split: if_splits)
  next
    case (6 k k' n)
    then show ?case using I'(7) [of k n k'] by (simp add: ev split: if_splits)
  next
    case (7 r k)
    show ?case
    proof (cases "r = e")
      case True
      then show ?thesis using key [of k e] e(1) by (auto simp: ev)
    next
      case False
      then show ?thesis using I'(8) [of r k] uniq [of r] by (auto simp: ev)
    qed
  qed
  show "lists_ok {} (evict_one q)"
  proof (rule lists_okI, unfold j k, goal_cases)
    case (4 r)
    then show ?case using L'(4) [of r] e(2) by (auto simp: ev)
  next
    case (5 k)
    have "jq_running (evict_one q) = jq_running q" by (simp add: ev)
    then show ?case
    proof (cases "k = ?k")
      case True
      then show ?thesis using L'(5) [of k] e by (simp add: ev) (metis terminal_simps(5))
    next
      case False
      then show ?thesis using L'(5) [of k] by (simp add: ev)
    qed
  next
    case (6 r)
    then show ?case using L'(3) L'(6) [of r] by (auto simp: ev h)
  next
    case (7 r)
    then show ?case using L'(7) [of r] by simp
  qed (use L'(1-3) h in \<open>simp_all add: ev\<close>)
  show "jq_history (evict_one q) = hist" by (simp add: ev)
qed

lemma evict_one_fields [simp]:
  "jq_limit (evict_one q) = jq_limit q" "jq_max (evict_one q) = jq_max q" "jq_pending (evict_one q) = jq_pending q"
  "jq_running (evict_one q) = jq_running q" "jq_paused (evict_one q) = jq_paused q"
  "jq_maintenance (evict_one q) = jq_maintenance q" "jq_closed (evict_one q) = jq_closed q"
  "jq_wakeup (evict_one q) = jq_wakeup q" "jq_store (evict_one q) = jq_store q" "jq_heap (evict_one q) = jq_heap q"
  "jq_events (evict_one q) = jq_events q"
  by (simp_all add: evict_one_def Let_def)

lemma evict_fields [simp]:
  "jq_limit ((evict_one ^^ n) q) = jq_limit q" "jq_max ((evict_one ^^ n) q) = jq_max q"
  "jq_pending ((evict_one ^^ n) q) = jq_pending q"
  "jq_running ((evict_one ^^ n) q) = jq_running q" "jq_paused ((evict_one ^^ n) q) = jq_paused q"
  "jq_maintenance ((evict_one ^^ n) q) = jq_maintenance q" "jq_closed ((evict_one ^^ n) q) = jq_closed q"
  "jq_wakeup ((evict_one ^^ n) q) = jq_wakeup q" "jq_store ((evict_one ^^ n) q) = jq_store q"
  "jq_heap ((evict_one ^^ n) q) = jq_heap q" "jq_events ((evict_one ^^ n) q) = jq_events q"
  by (induction n) simp_all

lemma evict_ok:
  "job_index_ok q \<Longrightarrow> lists_ok {} q \<Longrightarrow> n \<le> length (jq_history q) \<Longrightarrow>
     job_index_ok ((evict_one ^^ n) q) \<and> lists_ok {} ((evict_one ^^ n) q) \<and>
     jq_history ((evict_one ^^ n) q) = drop n (jq_history q) \<and>
     (\<forall>r. known ((evict_one ^^ n) q) r \<longleftrightarrow> known q r \<and> r \<notin> set (take n (jq_history q))) \<and>
     job_of ((evict_one ^^ n) q) = job_of q"
proof (induction n)
  case (Suc n)
  let ?q = "(evict_one ^^ n) q"
  have IH: "job_index_ok ?q" "lists_ok {} ?q" "jq_history ?q = drop n (jq_history q)"
    "\<forall>r. known ?q r \<longleftrightarrow> known q r \<and> r \<notin> set (take n (jq_history q))" "job_of ?q = job_of q"
    using Suc by simp_all
  have h: "jq_history ?q = jq_history q ! n # drop (Suc n) (jq_history q)"
    using IH(3) Suc.prems(3) by (simp add: Cons_nth_drop_Suc)
  from evict_one_ok [OF IH(1,2) h] IH(4,5) Suc.prems(3) show ?case
    by (auto simp: take_Suc_conv_app_nth)
qed simp

text \<open>A job in transit is finished.\<close>

lemma finish_job_fields [simp]:
  "jq_limit (finish_job api ok now r st err q) = jq_limit q" "jq_max (finish_job api ok now r st err q) = jq_max q"
  "jq_pending (finish_job api ok now r st err q) = jq_pending q"
  "jq_running (finish_job api ok now r st err q) = jq_running q"
  "jq_paused (finish_job api ok now r st err q) = jq_paused q"
  "jq_maintenance (finish_job api ok now r st err q) = jq_maintenance q"
  "jq_closed (finish_job api ok now r st err q) = jq_closed q"
  "jq_wakeup (finish_job api ok now r st err q) = jq_wakeup q"
  by (auto simp: finish_job_def Let_def evict_history_def emit_same try_store_def write_store_def emit_job_def
      split: option.splits)

lemma finish_job_job_of:
  "job_of (finish_job api ok now r st err q) x =
     (if x = jb_run (job_of q r) then (job_of q r)\<lparr>jb_state := st, jb_error := err, jb_finished := Some now\<rparr>
      else job_of q x)"
proof -
  let ?j = "(job_of q r)\<lparr>jb_state := st, jb_error := err, jb_finished := Some now\<rparr>"
  have "jq_heap (finish_job api ok now r st err q) = jq_heap (set_job ?j q)"
    by (auto simp: finish_job_def Let_def evict_history_def emit_job_def try_store_def write_store_def
        split: option.splits)
  then have "job_of (finish_job api ok now r st err q) = job_of (set_job ?j q)" by (rule job_of_cong)
  then show ?thesis by simp
qed

lemma run_of: "job_index_ok q \<Longrightarrow> known q r \<Longrightarrow> jb_run (job_of q r) = r"
proof -
  assume q: "job_index_ok q" "known q r"
  then have "map_of (jq_heap q) r \<noteq> None" unfolding known_def by (rule job_index_okD(2))
  then obtain j where j: "map_of (jq_heap q) r = Some j" by blast
  with job_index_okD(1) [OF q(1) j] show ?thesis by (simp add: job_of_def)
qed

lemma job_index_ok_set:
  assumes "job_index_ok q" and "jb_run j = r" and "jb_key j = jb_key (job_of q r)"
  shows "job_index_ok (set_job j q)"
proof (rule job_index_okI, goal_cases)
  case (1 x y)
  then show ?case using job_index_okD(1) [OF assms(1), of x y] by (auto simp: heap_set split: if_splits)
next
  case (2 k x)
  then show ?case using job_index_okD(2,3) [OF assms(1), of k x] assms(2,3) by (auto simp: heap_set)
next
  case 3
  then show ?case using job_index_okD(4) [OF assms(1)] by simp
next
  case (4 k)
  then show ?case using job_index_okD(5) [OF assms(1), of k] by simp
next
  case (5 k n)
  then show ?case using job_index_okD(6) [OF assms(1), of k n] by simp
next
  case (6 k k' n)
  then show ?case using job_index_okD(7) [OF assms(1), of k n k'] by simp
next
  case (7 x k)
  then show ?case using job_index_okD(8) [OF assms(1), of x k] by simp
qed

lemma known_set: "jb_key j = jb_key (job_of q (jb_run j)) \<Longrightarrow> known (set_job j q) x = known q x"
  by (simp add: known_def)

text \<open>Changes of the lists alone.\<close>

lemma job_index_ok_lists:
  "job_index_ok (q\<lparr>jq_pending := p, jq_history := hist, jq_running := run\<rparr>) = job_index_ok q"
  by (simp add: job_index_ok_def job_of_def)

lemma finish_job_ok:
  assumes I: "job_index_ok q" and L: "lists_ok {r} q" and b: "length (jq_history q) \<le> jq_limit q" "0 < jq_limit q"
    and r: "known q r" and st: "terminal_state st" and t: "jb_task (job_of q r) \<in> {None, Some TaskEnded}"
  shows "job_index_ok (finish_job api ok now r st err q)" "lists_ok {} (finish_job api ok now r st err q)"
    "length (jq_history (finish_job api ok now r st err q)) \<le> jq_limit q"
    "known (finish_job api ok now r st err q) r" "known (finish_job api ok now r st err q) x \<Longrightarrow> known q x"
    "\<not> terminal_state (jb_state (job_of q x)) \<Longrightarrow> known q x \<Longrightarrow> known (finish_job api ok now r st err q) x"
    "gone_ok q \<Longrightarrow> gone_ok (finish_job api ok now r st err q)"
proof -
  let ?j = "(job_of q r)\<lparr>jb_state := st, jb_error := err, jb_finished := Some now\<rparr>"
  have jr: "jb_run ?j = r" using run_of [OF I r] by simp
  define q1 where "q1 = try_store (ok r) (qs_terminal api ?j) (set_job ?j q)"
  define q2 where "q2 = q1\<lparr>jq_history := jq_history q1 @ [r]\<rparr>"
  have f: "finish_job api ok now r st err q = emit_job r ((evict_one ^^ (length (jq_history q2) - jq_limit q2)) q2)"
    by (simp add: finish_job_def Let_def evict_history_def q1_def q2_def)
  have sl: "same_lists (set_job ?j q) q1" unfolding q1_def by (rule try_store_same(1))
  note same = same_lists_ok [OF sl]
  have k1: "known q1 x = known q x" for x unfolding same(3) by (rule known_set) (simp add: jr [simplified])
  have j1: "job_of q1 x = (if x = r then ?j else job_of q x)" for x unfolding same(4) using jr by simp
  have j12: "job_of q2 = job_of q1" unfolding q2_def by (rule job_of_cong) simp
  have j2: "job_of q2 x = (if x = r then ?j else job_of q x)" for x unfolding j12 by (rule j1)
  have k2: "known q2 x = known q x" for x using k1 [of x] unfolding known_def j12 by (simp add: q2_def)
  have I1: "job_index_ok q1" unfolding same(1) by (rule job_index_ok_set [OF I jr]) simp
  have I2: "job_index_ok q2" using I1 unfolding job_index_ok_def j12 by (simp add: q2_def)
  have fs: "jq_pending q2 = jq_pending q" "jq_running q2 = jq_running q" "jq_jobs q2 = jq_jobs q"
    "jq_history q2 = jq_history q @ [r]" "jq_limit q2 = jq_limit q"
    using sl by (simp_all add: q2_def same_lists_def)
  note L' = lists_okD [OF L]
  have h: "r \<notin> set (jq_history q)" using L'(6) by simp
  have st': "jb_state (job_of q2 x) = (if x = r then st else jb_state (job_of q x))" for x by (simp add: j2)
  have L2: "lists_ok {} q2"
  proof (rule lists_okI, goal_cases)
    case 1 then show ?case using L'(1) fs by simp
  next
    case 2 then show ?case using L'(2) fs by simp
  next
    case 3 then show ?case using L'(3) h fs by simp
  next
    case (4 x)
    then show ?case using L'(4) [of x] st fs by (auto simp: k2 st')
  next
    case (5 k)
    have "k \<in> set (jq_running q2) \<longleftrightarrow> (\<exists>x. x \<notin> {r} \<and> map_of (jq_jobs q) k = Some x \<and> jb_state (job_of q x) = Running)"
      using L'(5) [of k] fs by simp
    also have "\<dots> \<longleftrightarrow> (\<exists>x. x \<notin> {} \<and> map_of (jq_jobs q2) k = Some x \<and> jb_state (job_of q2 x) = Running)"
      using st fs unfolding st' by (auto simp: terminal_iff)
    finally show ?case .
  next
    case (6 x)
    then show ?case using L'(6) [of x] st r fs by (auto simp: k2 st')
  next
    case (7 x)
    then show ?case using L'(7) [of x] st t by (auto simp: k2 j2 task_fits_def terminal_iff)
  qed
  let ?n = "length (jq_history q2) - jq_limit q2"
  note lim = fs(5) and hist = fs(4)
  have n: "?n \<le> length (jq_history q2)" by simp
  note ev = evict_ok [OF I2 L2 n]
  note sf = same_lists_ok [OF emit_same(1) [of "(evict_one ^^ ?n) q2" r]]
  show "job_index_ok (finish_job api ok now r st err q)" "lists_ok {} (finish_job api ok now r st err q)"
    unfolding f sf using ev by blast+
  show "length (jq_history (finish_job api ok now r st err q)) \<le> jq_limit q"
    unfolding f using ev b lim hist by (simp add: emit_job_def)
  have kf: "known (finish_job api ok now r st err q) x \<longleftrightarrow> known q x \<and> x \<notin> set (take ?n (jq_history q2))" for x
    unfolding f sf using ev k2 by blast
  have sub: "set (take ?n (jq_history q2)) \<subseteq> set (jq_history q)"
    using b unfolding hist lim by (auto dest: in_set_takeD)
  show "known (finish_job api ok now r st err q) r" using kf [of r] sub h r by blast
  show "known (finish_job api ok now r st err q) x \<Longrightarrow> known q x" using kf by blast
  show "\<not> terminal_state (jb_state (job_of q x)) \<Longrightarrow> known q x \<Longrightarrow> known (finish_job api ok now r st err q) x"
    using kf [of x] sub L'(6) [of x] by blast
  assume G: "gone_ok q"
  have hp: "map_of (jq_heap (finish_job api ok now r st err q)) x \<noteq> None \<Longrightarrow> x \<noteq> r \<Longrightarrow> map_of (jq_heap q) x \<noteq> None" for x
    using sl jr unfolding f by (simp add: emit_job_def q2_def same_lists_def heap_set)
  show "gone_ok (finish_job api ok now r st err q)"
    unfolding gone_ok_def
  proof (intro allI impI)
    fix x assume x: "map_of (jq_heap (finish_job api ok now r st err q)) x \<noteq> None" "\<not> known (finish_job api ok now r st err q) x"
    have xr: "x \<noteq> r" using x(2) kf [of r] sub h r by blast
    then have j: "job_of (finish_job api ok now r st err q) x = job_of q x"
      using run_of [OF I r] by (simp add: finish_job_job_of)
    show "terminal_state (jb_state (job_of (finish_job api ok now r st err q) x)) \<and>
        jb_task (job_of (finish_job api ok now r st err q) x) \<in> {None, Some TaskEnded}"
    proof (cases "known q x")
      case True
      then have "x \<in> set (jq_history q)" using x(2) kf [of x] sub by blast
      then show ?thesis using L'(6) [of x] L'(7) [of x] by (simp add: j task_fits_def)
    next
      case False
      then show ?thesis using G hp [OF x(1) xr] by (simp add: gone_ok_def j)
    qed
  qed
qed

subsection \<open>Calls keep the invariant\<close>

lemma queue_okD:
  assumes "queue_ok q"
  shows "job_index_ok q" "lists_ok {} q" "gone_ok q" "length (jq_history q) \<le> jq_limit q" "0 < jq_limit q" "0 < jq_max q"
  using assms by (simp_all add: queue_ok_def)

lemma same_gone: "same_lists q q' \<Longrightarrow> gone_ok q' = gone_ok q"
  unfolding gone_ok_def same_lists_ok(3,4) by (simp add: same_lists_def)

lemma queue_ok_same: "same_lists q q' \<Longrightarrow> 0 < jq_max q' \<Longrightarrow> queue_ok q \<Longrightarrow> queue_ok q'"
  unfolding queue_ok_def same_gone same_lists_ok(1,2) by (simp add: same_lists_def)

lemma job_of_lists [simp]: "job_of (q\<lparr>jq_pending := p\<rparr>) = job_of q" "job_of (q\<lparr>jq_running := u\<rparr>) = job_of q"
  by (simp_all add: job_of_def fun_eq_iff)

lemma known_lists [simp]: "known (q\<lparr>jq_pending := p\<rparr>) = known q" "known (q\<lparr>jq_running := u\<rparr>) = known q"
  by (simp_all add: known_def fun_eq_iff)

lemma index_lists [simp]: "job_index_ok (q\<lparr>jq_pending := p\<rparr>) = job_index_ok q" "job_index_ok (q\<lparr>jq_running := u\<rparr>) = job_index_ok q"
  by (simp_all add: job_index_ok_def)

lemma gone_lists [simp]: "gone_ok (q\<lparr>jq_pending := p\<rparr>) = gone_ok q" "gone_ok (q\<lparr>jq_running := u\<rparr>) = gone_ok q"
  by (simp_all add: gone_ok_def)

lemma pending_transit:
  assumes L: "lists_ok {} q" and r: "r \<in> set (jq_pending q)" and p: "distinct p" "set p = set (jq_pending q) - {r}"
  shows "lists_ok {r} (q\<lparr>jq_pending := p\<rparr>)"
proof -
  note L' = lists_okD [OF L]
  have q: "jb_state (job_of q r) = Queued" using L'(4) [of r] r by simp
  show ?thesis
  proof (rule lists_okI, goal_cases)
    case (4 x)
    then show ?case using L'(4) [of x] p(2) by auto
  next
    case (5 k)
    then show ?case using L'(5) [of k] q by (simp, metis job_state.distinct(1))
  next
    case (6 x)
    then show ?case using L'(6) [of x] q by auto
  next
    case (7 x)
    then show ?case using L'(7) [of x] by simp
  qed (use L'(2,3) p(1) in simp_all)
qed

lemma running_transit:
  assumes I: "job_index_ok q" and L: "lists_ok {} q" and r: "known q r" "jb_state (job_of q r) = Running"
  shows "lists_ok {r} (q\<lparr>jq_running := remove1 (jb_key (job_of q r)) (jq_running q)\<rparr>)"
proof -
  note L' = lists_okD [OF L]
  let ?k = "jb_key (job_of q r)"
  have one: "map_of (jq_jobs q) ?k = Some r" using r(1) by (simp add: known_def)
  show ?thesis
  proof (rule lists_okI, goal_cases)
    case (4 x)
    then show ?case using L'(4) [of x] r(2) by auto
  next
    case (5 k)
    have "k \<in> set (remove1 ?k (jq_running q)) \<longleftrightarrow> k \<noteq> ?k \<and> k \<in> set (jq_running q)" using L'(2) by auto
    moreover have "k = ?k" if "map_of (jq_jobs q) k = Some r" using job_index_okD(3) [OF I that] by simp
    ultimately show ?case using L'(5) [of k] one by auto
  next
    case (6 x)
    then show ?case using L'(6) [of x] r(2) by auto
  next
    case (7 x)
    then show ?case using L'(7) [of x] by simp
  qed (use L'(1-3) in simp_all)
qed

lemma pending_facts:
  assumes "queue_ok q" and "r \<in> set (jq_pending q)"
  shows "known q r" "jb_state (job_of q r) = Queued" "jb_task (job_of q r) = None"
  using lists_okD(4,7) [OF queue_okD(2) [OF assms(1)], of r] assms(2) by (auto simp: task_fits_def)

definition drop_pending :: "'st queue_store \<Rightarrow> (string \<Rightarrow> bool) \<Rightarrow> int \<Rightarrow> string option \<Rightarrow> string \<Rightarrow> 'st queue \<Rightarrow> 'st queue" where
  "drop_pending api ok now err r q = finish_job api ok now r Cancelled err (q\<lparr>jq_pending := remove1 r (jq_pending q)\<rparr>)"

lemma drop_pending_ok:
  assumes q: "queue_ok q" and r: "r \<in> set (jq_pending q)"
  shows "queue_ok (drop_pending api ok now err r q)"
    "jq_pending (drop_pending api ok now err r q) = remove1 r (jq_pending q)"
proof -
  note Q = queue_okD [OF q] and f = pending_facts [OF q r]
  let ?q = "q\<lparr>jq_pending := remove1 r (jq_pending q)\<rparr>"
  have L: "lists_ok {r} ?q" using lists_okD(1) [OF Q(2)] by (intro pending_transit [OF Q(2) r]) auto
  note fin = finish_job_ok [of ?q r Cancelled, where api = api and ok = ok and now = now and err = err]
  show "queue_ok (drop_pending api ok now err r q)"
    unfolding drop_pending_def queue_ok_def using fin(1-3,7) Q L f by simp
  show "jq_pending (drop_pending api ok now err r q) = remove1 r (jq_pending q)" by (simp add: drop_pending_def)
qed

lemma fold_drop_pending:
  "queue_ok q \<Longrightarrow> distinct rs \<Longrightarrow> set rs \<subseteq> set (jq_pending q) \<Longrightarrow>
     queue_ok (fold (drop_pending api ok now err) rs q) \<and>
     jq_pending (fold (drop_pending api ok now err) rs q) = filter (\<lambda>r. r \<notin> set rs) (jq_pending q)"
proof (induction rs arbitrary: q)
  case (Cons r rs)
  note d = drop_pending_ok [OF Cons.prems(1), of r api ok now err]
  have dist: "distinct (jq_pending q)" using lists_okD(1) [OF queue_okD(2) [OF Cons.prems(1)]] .
  then have rm: "remove1 r (jq_pending q) = filter (\<lambda>x. x \<noteq> r) (jq_pending q)" by (auto simp: distinct_remove1_removeAll removeAll_filter_not_eq intro: filter_cong)
  have "set rs \<subseteq> set (jq_pending (drop_pending api ok now err r q))"
    using Cons.prems d(2) by (auto simp: rm)
  with Cons d show ?case by (auto simp: rm intro: filter_cong)
qed simp

lemma cancel_pending_drop: "cancel_pending api ok now = drop_pending api ok now None"
  by (simp add: fun_eq_iff cancel_pending_def drop_pending_def)

lemma clear_ok:
  assumes q: "queue_ok q"
  shows "queue_ok (fst (clear_jobs api ok now client q))"
proof -
  have "distinct (jq_pending q)" using lists_okD(1) [OF queue_okD(2) [OF q]] .
  then show ?thesis
    unfolding clear_jobs_def Let_def cancel_pending_drop
    by (auto intro!: fold_drop_pending [OF q, THEN conjunct1] simp: pending_jobs_def)
qed

lemma set_job_ok:
  assumes q: "queue_ok q" and r: "known q r" and j: "jb_run j = r" "jb_key j = jb_key (job_of q r)"
    "jb_state j = jb_state (job_of q r)" "task_fits j"
  shows "queue_ok (set_job j q)"
proof -
  note Q = queue_okD [OF q] and L' = lists_okD [OF queue_okD(2) [OF q]]
  have k: "known (set_job j q) x = known q x" for x by (rule known_set) (simp add: j)
  have st: "jb_state (job_of (set_job j q) x) = jb_state (job_of q x)" for x using j by simp
  have L: "lists_ok {} (set_job j q)"
  proof (rule lists_okI, goal_cases)
    case (4 x)
    show ?case using L'(4) [of x] by (simp only: k st set_job_fields)
  next
    case (5 x)
    show ?case using L'(5) [of x] by (simp only: k st set_job_fields)
  next
    case (6 x)
    show ?case using L'(6) [of x] by (simp only: k st set_job_fields)
  next
    case (7 x)
    then show ?case using L'(7) [of x] j by (simp add: k)
  qed (use L'(1-3) in simp_all)
  have "gone_ok (set_job j q)"
    using Q(3) r j(1) by (auto simp: gone_ok_def k heap_set)
  then show ?thesis using job_index_ok_set [OF Q(1) j(1,2)] L Q by (simp add: queue_ok_def)
qed

lemma running_facts:
  assumes q: "queue_ok q" and t: "task_of q r = Some t" "t \<noteq> TaskEnded"
  shows "known q r" "jb_state (job_of q r) = Running" "jb_task (job_of q r) = Some t" "jb_run (job_of q r) = r"
    "jb_key (job_of q r) \<in> set (jq_running q)"
proof -
  note Q = queue_okD [OF q]
  obtain j where j: "map_of (jq_heap q) r = Some j" "jb_task j = Some t" using t(1) by (auto simp: task_of_def split: option.splits)
  then have jo: "job_of q r = j" by (simp add: job_of_def)
  show k: "known q r" using Q(3) j t(2) by (auto simp: gone_ok_def jo)
  have "task_fits j" using lists_okD(7) [OF Q(2) k] by (simp add: jo)
  then show st: "jb_state (job_of q r) = Running" using j(2) t(2) by (auto simp: jo task_fits_def terminal_iff)
  show "jb_task (job_of q r) = Some t" using j(2) jo by simp
  show "jb_run (job_of q r) = r" by (rule run_of [OF Q(1) k])
  show "jb_key (job_of q r) \<in> set (jq_running q)"
    using lists_okD(5) [OF Q(2)] k st by (auto simp: known_def)
qed

lemma begin_task_ok:
  assumes q: "queue_ok q" and t: "task_of q r = Some (TaskNew c)"
  shows "queue_ok (begin_task r q)"
proof -
  note f = running_facts [OF q t, simplified]
  show ?thesis unfolding begin_task_def Let_def
    by (rule set_job_ok [OF q f(1)]) (use f in \<open>auto simp: task_fits_def\<close>)
qed

lemma cancel_task_ok:
  assumes q: "queue_ok q" and r: "known q r" "jb_state (job_of q r) = Running"
  shows "queue_ok (cancel_task r q)"
proof -
  have "task_fits (job_of q r)" using lists_okD(7) [OF queue_okD(2) [OF q] r(1)] by simp
  then obtain c where "jb_task (job_of q r) \<in> {Some (TaskNew c), Some (TaskActive c), Some TaskDropped}"
    using r(2) by (auto simp: task_fits_def)
  then show ?thesis unfolding cancel_task_def Let_def
    using run_of [OF queue_okD(1) [OF q] r(1)] r
    by (intro set_job_ok [OF q r(1)]) (auto simp: task_fits_def)
qed

lemma cancel_ok: "queue_ok q \<Longrightarrow> queue_ok (fst (cancel_job api ok now k q))"
proof (cases "map_of (jq_jobs q) k")
  case (Some r)
  assume q: "queue_ok q"
  have k: "known q r" using known_key [OF queue_okD(1) [OF q] Some] .
  have "r \<in> set (jq_pending q)" if "jb_state (job_of q r) = Queued"
    using lists_okD(4) [OF queue_okD(2) [OF q], of r] k that by simp
  then show ?thesis
    using Some q drop_pending_ok(1) [OF q, of r] cancel_task_ok [OF q k]
    by (auto simp: cancel_job_def cancel_pending_drop terminal_iff)
qed (simp add: cancel_job_def)

text \<open>A finished job does not read the queues it was taken from.\<close>

lemma evict_one_lists:
  "evict_one (q\<lparr>jq_pending := p\<rparr>) = (evict_one q)\<lparr>jq_pending := p\<rparr>"
  "evict_one (q\<lparr>jq_running := u\<rparr>) = (evict_one q)\<lparr>jq_running := u\<rparr>"
  by (simp_all add: evict_one_def Let_def job_of_def)

lemma evict_lists:
  "(evict_one ^^ n) (q\<lparr>jq_pending := p\<rparr>) = ((evict_one ^^ n) q)\<lparr>jq_pending := p\<rparr>"
  "(evict_one ^^ n) (q\<lparr>jq_running := u\<rparr>) = ((evict_one ^^ n) q)\<lparr>jq_running := u\<rparr>"
  by (induction n) (simp_all add: evict_one_lists)

lemma finish_job_lists:
  "finish_job api ok now r st err (q\<lparr>jq_pending := p\<rparr>) = (finish_job api ok now r st err q)\<lparr>jq_pending := p\<rparr>"
  "finish_job api ok now r st err (q\<lparr>jq_running := u\<rparr>) = (finish_job api ok now r st err q)\<lparr>jq_running := u\<rparr>"
proof -
  have p: "q\<lparr>jq_pending := p, jq_store := x, jq_history := y\<rparr> = (q\<lparr>jq_store := x, jq_history := y\<rparr>)\<lparr>jq_pending := p\<rparr>" for q :: "'a queue" and x y
    by simp
  let ?j = "(job_of q r)\<lparr>jb_state := st, jb_error := err, jb_finished := Some now\<rparr>"
  let ?q = "\<lambda>q. (let q1 = try_store (ok r) (qs_terminal api ?j) (set_job ?j q) in q1\<lparr>jq_history := jq_history q1 @ [r]\<rparr>)"
  have f: "finish_job api ok now r st err q' = emit_job r (evict_history (?q q'))" if "job_of q' r = job_of q r" for q'
    by (simp add: finish_job_def Let_def that)
  have qp: "?q (q\<lparr>jq_pending := p\<rparr>) = (?q q)\<lparr>jq_pending := p\<rparr>" "?q (q\<lparr>jq_running := u\<rparr>) = (?q q)\<lparr>jq_running := u\<rparr>"
    by (simp_all add: try_store_def write_store_def set_job_def Let_def split: option.splits)
  have e: "emit_job r (evict_history (x\<lparr>jq_pending := p\<rparr>)) = (emit_job r (evict_history x))\<lparr>jq_pending := p\<rparr>"
    "emit_job r (evict_history (x\<lparr>jq_running := u\<rparr>)) = (emit_job r (evict_history x))\<lparr>jq_running := u\<rparr>" for x
    by (simp_all add: evict_history_def evict_lists emit_job_def)
  show "finish_job api ok now r st err (q\<lparr>jq_pending := p\<rparr>) = (finish_job api ok now r st err q)\<lparr>jq_pending := p\<rparr>"
    by (simp only: f job_of_lists qp e)
  show "finish_job api ok now r st err (q\<lparr>jq_running := u\<rparr>) = (finish_job api ok now r st err q)\<lparr>jq_running := u\<rparr>"
    by (simp only: f job_of_lists qp e)
qed

lemma end_job_ok:
  assumes q: "queue_ok q" and t: "task_of q r = Some (TaskActive c)"
  shows "queue_ok (end_job api ok now r out q)"
proof -
  note Q = queue_okD [OF q] and f = running_facts [OF q t, simplified]
  let ?k = "jb_key (job_of q r)"
  let ?j = "(job_of q r)\<lparr>jb_task := Some TaskEnded, jb_result := outcome_result out\<rparr>"
  let ?q = "(set_job ?j q)\<lparr>jq_running := remove1 ?k (jq_running q)\<rparr>"
  have k: "known (set_job ?j q) x = known q x" for x by (rule known_set) (simp add: f)
  have jo: "job_of (set_job ?j q) x = (if x = r then ?j else job_of q x)" for x using f(4) by simp
  have I: "job_index_ok (set_job ?j q)" by (rule job_index_ok_set [OF Q(1), of _ r]) (simp_all add: f)
  have G: "gone_ok (set_job ?j q)" using Q(3) f(1,4) by (auto simp: gone_ok_def k jo heap_set)
  have tr: "lists_ok {r} (q\<lparr>jq_running := remove1 ?k (jq_running q)\<rparr>)" by (rule running_transit [OF Q(1,2) f(1,2)])
  have L: "lists_ok {r} ?q"
  proof (rule lists_okI, goal_cases)
    case (4 x)
    show ?case using lists_okD(4) [OF tr, of x] by (simp add: k jo f(4))
  next
    case (5 x)
    have "(\<exists>y. y \<notin> {r} \<and> map_of (jq_jobs q) x = Some y \<and> jb_state (job_of q y) = Running) \<longleftrightarrow>
        (\<exists>y. y \<notin> {r} \<and> map_of (jq_jobs q) x = Some y \<and> jb_state (job_of (set_job ?j q) y) = Running)"
      unfolding jo by auto
    then show ?case using lists_okD(5) [OF tr, of x] by simp
  next
    case (6 x)
    show ?case using lists_okD(6) [OF tr, of x] by (simp add: k jo f(4))
  next
    case (7 x)
    then show ?case using lists_okD(7) [OF tr, of x] by (simp add: k jo f(4))
  qed (use lists_okD(1-3) [OF tr] in simp_all)
  have fin: "job_index_ok (finish_job api ok now r (outcome_state out) (outcome_error out) ?q)"
    "lists_ok {} (finish_job api ok now r (outcome_state out) (outcome_error out) ?q)"
    "length (jq_history (finish_job api ok now r (outcome_state out) (outcome_error out) ?q)) \<le> jq_limit ?q"
    "gone_ok (finish_job api ok now r (outcome_state out) (outcome_error out) ?q)"
    by (rule finish_job_ok; use I L G Q f k jo in \<open>cases out; simp\<close>)+
  have key: "jb_key (job_of (finish_job api ok now r st err q') r) = jb_key (job_of q' r)" if "jb_run (job_of q' r) = r" for st err q'
    using that by (simp add: finish_job_job_of)
  have "end_job api ok now r out q =
      (finish_job api ok now r (outcome_state out) (outcome_error out) ?q)\<lparr>jq_wakeup := True\<rparr>"
    using f(4) by (simp add: end_job_def Let_def key finish_job_lists)
  moreover have "queue_ok (finish_job api ok now r (outcome_state out) (outcome_error out) ?q)"
    using fin Q by (simp add: queue_ok_def)
  ultimately show ?thesis by (auto intro: queue_ok_same [rotated 2] simp: same_lists_def Q(6))
qed

text \<open>Dispatching.\<close>

lemma pending_sorted: "set (pending_jobs q) = set (jq_pending q)" "length (pending_jobs q) = length (jq_pending q)"
  "distinct (pending_jobs q) = distinct (jq_pending q)"
  by (simp_all add: pending_jobs_def)

lemma start_job_ok:
  assumes q: "queue_ok q" and p: "jq_pending q \<noteq> []"
  shows "queue_ok (start_job api ok now q)"
proof -
  note Q = queue_okD [OF q]
  define r where "r = hd (pending_jobs q)"
  have ne: "pending_jobs q \<noteq> []" using p pending_sorted(2) [of q] by (auto simp: length_greater_0_conv [symmetric] simp del: length_greater_0_conv)
  then have sp: "pending_jobs q = r # tl (pending_jobs q)" by (simp add: r_def)
  have r: "r \<in> set (jq_pending q)" using ne by (simp add: r_def pending_sorted(1) [symmetric])
  have dist: "distinct (pending_jobs q)" using lists_okD(1) [OF Q(2)] by (simp add: pending_sorted)
  have tl: "distinct (tl (pending_jobs q))" "set (tl (pending_jobs q)) = set (jq_pending q) - {r}"
    using dist sp pending_sorted(1) [of q] by (simp add: distinct_tl, metis Diff_insert_absorb distinct.simps(2) list.simps(15))
  note tr = pending_transit [OF Q(2) r tl] and f = pending_facts [OF q r]
  have jr: "jb_run (job_of q r) = r" by (rule run_of [OF Q(1) f(1)])
  let ?k = "jb_key (job_of q r)"
  let ?j = "(job_of q r)\<lparr>jb_state := Running, jb_started := Some now\<rparr>"
  let ?t = "?j\<lparr>jb_task := Some (TaskNew False)\<rparr>"
  have sj: "same_lists (set_job ?t (q\<lparr>jq_pending := tl (pending_jobs q), jq_running := List.insert ?k (jq_running q)\<rparr>))
      (start_job api ok now q)"
    by (simp add: start_job_def Let_def r_def [symmetric] same_lists_def emit_job_def try_store_def write_store_def set_job_def
        split: option.splits)
       (simp add: dict_set_def jr)
  define q' where "q' = set_job ?t (q\<lparr>jq_pending := tl (pending_jobs q), jq_running := List.insert ?k (jq_running q)\<rparr>)"
  have fields: "jq_pending q' = tl (pending_jobs q)" "jq_running q' = List.insert ?k (jq_running q)" "jq_jobs q' = jq_jobs q"
    "jq_history q' = jq_history q" "jq_limit q' = jq_limit q" "jq_max q' = jq_max q"
    by (simp_all add: q'_def)
  have heap: "jq_heap q' = jq_heap (set_job ?t q)" by (simp add: q'_def set_job_def)
  have jo: "job_of q' x = (if x = r then ?t else job_of q x)" for x
    using job_of_cong [OF heap] jr by simp
  have k: "known q' x = known q x" for x unfolding known_def jo fields by simp
  have I: "job_index_ok q'"
  proof -
    have "job_index_ok (set_job ?t q)" by (rule job_index_ok_set [OF Q(1), of _ r]) (simp_all add: jr)
    moreover have "job_index_ok q' = job_index_ok (set_job ?t q)"
      unfolding job_index_ok_def job_of_cong [OF heap] heap by (simp add: q'_def)
    ultimately show ?thesis by simp
  qed
  have notrun: "?k \<notin> set (jq_running q)" using lists_okD(5) [OF Q(2), of ?k] f by (auto simp: known_def)
  have L: "lists_ok {} q'"
  proof (rule lists_okI, goal_cases)
    case 1 then show ?case using tl(1) by (simp add: fields)
  next
    case 2 then show ?case using lists_okD(2) [OF Q(2)] by (simp add: fields)
  next
    case 3 then show ?case using lists_okD(3) [OF Q(2)] by (simp add: fields)
  next
    case (4 x)
    show ?case using lists_okD(4) [OF tr, of x] by (simp add: k jo fields)
  next
    case (5 x)
    have "x \<in> set (jq_running q) \<longleftrightarrow> (\<exists>y. y \<notin> {r} \<and> map_of (jq_jobs q) x = Some y \<and> jb_state (job_of q y) = Running)"
      using lists_okD(5) [OF tr, of x] by simp
    moreover have "map_of (jq_jobs q) x = Some r \<longleftrightarrow> x = ?k"
      using f(1) job_index_okD(3) [OF Q(1), of x r] by (auto simp: known_def)
    ultimately show ?case unfolding fields jo by auto
  next
    case (6 x)
    show ?case using lists_okD(6) [OF tr, of x] by (simp add: k jo fields)
  next
    case (7 x)
    then show ?case using lists_okD(7) [OF tr, of x] by (simp add: k jo) (auto simp: task_fits_def)
  qed
  have "gone_ok q'" using Q(3) f(1) by (auto simp: gone_ok_def k jo heap heap_set jr)
  then have "queue_ok q'" using I L Q by (simp add: queue_ok_def fields)
  then show ?thesis using sj Q(6) unfolding q'_def [symmetric]
    by (intro queue_ok_same [OF sj [folded q'_def]]) (simp_all add: start_job_def Let_def emit_same try_store_same)
qed

lemma start_job_fields:
  "jq_max (start_job api ok now q) = jq_max q" "jq_limit (start_job api ok now q) = jq_limit q"
  "jq_paused (start_job api ok now q) = jq_paused q" "jq_maintenance (start_job api ok now q) = jq_maintenance q"
  "jq_closed (start_job api ok now q) = jq_closed q" "jq_jobs (start_job api ok now q) = jq_jobs q"
  "jq_order (start_job api ok now q) = jq_order q" "jq_history (start_job api ok now q) = jq_history q"
  by (auto simp: start_job_def Let_def emit_job_def try_store_def write_store_def split: option.splits)

lemma dispatch_ok: "queue_ok q \<Longrightarrow> queue_ok (dispatch_jobs api ok now q)"
proof (induction api ok now q rule: dispatch_jobs.induct)
  case (1 api ok now q)
  then show ?case
    using start_job_ok [OF 1(2)] by (simp add: dispatch_jobs.simps [of api ok now q] can_dispatch_def)
qed

lemma flags_ok:
  assumes "queue_ok q"
  shows "queue_ok (q\<lparr>jq_wakeup := b\<rparr>)" "queue_ok (q\<lparr>jq_paused := b\<rparr>)"
    "queue_ok (q\<lparr>jq_maintenance := b\<rparr>)" "queue_ok (q\<lparr>jq_closed := b\<rparr>)"
  by (rule queue_ok_same [OF _ _ assms]; simp add: same_lists_def queue_okD(6) [OF assms])+

lemma submit_ok:
  assumes q: "queue_ok q" and fresh: "fresh_run r q"
  shows "queue_ok (fst (submit_job h api ok now r rq q))"
proof -
  note Q = queue_okD [OF q]
  let ?k = "rq_key rq"
  define old where "old = map_of (jq_jobs q) ?k"
  define j where "j = new_job (fingerprint_of h rq) now rq r"
  show ?thesis
  proof (cases "jq_closed q \<or> \<not> rq_lowered rq \<or> (old \<noteq> None \<and> \<not> terminal_state (jb_state (job_of q (the old)))) \<or>
      write_store ok (qs_accepted api j) q = None")
    case True
    then show ?thesis using q by (auto simp: submit_job_def Let_def old_def j_def)
  next
    case False
    then have ended: "terminal_state (jb_state (job_of q e))" if "old = Some e" for e using that by auto
    from False obtain q1 where q1: "write_store ok (qs_accepted api j) q = Some q1" by blast
    then obtain st where st: "q1 = q\<lparr>jq_store := st\<rparr>" by (auto simp: write_store_def split: if_splits)
    define q' where "q' = (set_job j (q\<lparr>jq_jobs := dict_set ?k r (jq_jobs q), jq_order := dict_set ?k (jq_seq q) (jq_order q),
        jq_seq := Suc (jq_seq q), jq_pending := jq_pending q @ [r],
        jq_by_run := dict_set r ?k (case old of None \<Rightarrow> jq_by_run q | Some e \<Rightarrow> dict_del e (jq_by_run q)),
        jq_history := (case old of None \<Rightarrow> jq_history q | Some e \<Rightarrow> remove1 e (jq_history q))\<rparr>))"
    have "fst (submit_job h api ok now r rq q) = enqueue_job j (forget_job old q1)"
      using False q1 by (auto simp: submit_job_def Let_def old_def j_def split: if_splits)
    then have same: "same_lists q' (fst (submit_job h api ok now r rq q))" "jq_max (fst (submit_job h api ok now r rq q)) = jq_max q"
      by (auto simp: same_lists_def q'_def enqueue_job_def forget_job_def Let_def emit_job_def set_job_def st j_def new_job_def
          split: option.splits)
    have jr: "jb_run j = r" "jb_key j = ?k" "jb_state j = Queued" "jb_task j = None" by (simp_all add: j_def new_job_def)
    have F: "jq_jobs q' = dict_set ?k r (jq_jobs q)" "jq_order q' = dict_set ?k (jq_seq q) (jq_order q)" "jq_seq q' = Suc (jq_seq q)"
      "jq_pending q' = jq_pending q @ [r]" "jq_running q' = jq_running q" "jq_limit q' = jq_limit q" "jq_max q' = jq_max q"
      "jq_history q' = (case old of None \<Rightarrow> jq_history q | Some e \<Rightarrow> remove1 e (jq_history q))"
      "jq_by_run q' = dict_set r ?k (case old of None \<Rightarrow> jq_by_run q | Some e \<Rightarrow> dict_del e (jq_by_run q))"
      by (simp_all add: q'_def)
    have heap: "map_of (jq_heap q') x = (if x = r then Some j else map_of (jq_heap q) x)" for x by (simp add: q'_def heap_set jr)
    have jo: "job_of q' x = (if x = r then j else job_of q x)" for x by (simp add: job_of_def heap)
    have rn: "map_of (jq_jobs q) k \<noteq> Some r" for k
      using job_index_okD(2) [OF Q(1), of k r] fresh by (auto simp: fresh_run_def)
    have key: "jb_key (job_of q x) = k" if "map_of (jq_jobs q) k = Some x" for k x by (rule job_index_okD(3) [OF Q(1) that])
    have k: "known q' x \<longleftrightarrow> x = r \<or> (known q x \<and> old \<noteq> Some x)" for x
      unfolding known_def F(1) jo using rn key jr by (auto simp: old_def)
    have nr: "\<not> known q r" using rn by (simp add: known_def)
    have H: "x \<in> set (jq_history q') \<longleftrightarrow> x \<in> set (jq_history q) \<and> old \<noteq> Some x" for x
      using lists_okD(3) [OF Q(2)] by (auto simp: F split: option.splits)
    have I: "job_index_ok q'"
    proof (rule job_index_okI, goal_cases)
      case (1 x y)
      then show ?case using job_index_okD(1) [OF Q(1), of x y] jr by (auto simp: heap split: if_splits)
    next
      case (2 k x)
      then show ?case using job_index_okD(2,3) [OF Q(1), of k x] rn jr by (auto simp: F heap jo split: if_splits)
    next
      case 3
      then show ?case using job_index_okD(4) [OF Q(1)] by (simp add: F)
    next
      case (4 k)
      then show ?case using job_index_okD(5) [OF Q(1), of k] by (simp add: F)
    next
      case (5 k n)
      then show ?case using job_index_okD(6) [OF Q(1), of k n] by (auto simp: F split: if_splits)
    next
      case (6 k k' n)
      then show ?case
        using job_index_okD(7) [OF Q(1), of k n k'] job_index_okD(6) [OF Q(1), of k n] job_index_okD(6) [OF Q(1), of k' n]
        by (auto simp: F split: if_splits)
    next
      case (7 x k)
      have B: "map_of (jq_by_run q) x = Some k \<longleftrightarrow> map_of (jq_jobs q) k = Some x" by (rule job_index_okD(8) [OF Q(1)])
      have "map_of (jq_by_run q') x = Some k \<longleftrightarrow> (if x = r then k = ?k else old \<noteq> Some x \<and> map_of (jq_jobs q) k = Some x)"
        using B by (auto simp: F split: option.splits)
      moreover have "old \<noteq> Some x \<longleftrightarrow> k \<noteq> ?k" if "map_of (jq_jobs q) k = Some x"
        using that key [of k x] key [of ?k x] by (auto simp: old_def)
      ultimately show ?case using rn [of k] by (auto simp: F)
    qed
    have L: "lists_ok {} q'"
    proof (rule lists_okI, goal_cases)
      case 1
      then show ?case using lists_okD(1,4) [OF Q(2)] nr by (simp add: F)
    next
      case 2
      then show ?case using lists_okD(2) [OF Q(2)] by (simp add: F)
    next
      case 3
      then show ?case using lists_okD(3) [OF Q(2)] by (auto simp: F split: option.splits)
    next
      case (4 x)
      then show ?case using lists_okD(4) [OF Q(2), of x] jr ended [of x] by (auto simp: F k jo)
    next
      case (5 k')
      have "k' \<in> set (jq_running q) \<longleftrightarrow> (\<exists>y. map_of (jq_jobs q) k' = Some y \<and> jb_state (job_of q y) = Running)"
        using lists_okD(5) [OF Q(2), of k'] by simp
      also have "\<dots> \<longleftrightarrow> (\<exists>y. map_of (jq_jobs q') k' = Some y \<and> jb_state (job_of q' y) = Running)"
      proof (cases "k' = ?k")
        case True
        then show ?thesis using ended jr by (cases "map_of (jq_jobs q) ?k") (auto simp: F jo old_def terminal_iff)
      next
        case False
        then show ?thesis using rn [of k'] by (cases "map_of (jq_jobs q) k'") (auto simp: F jo)
      qed
      finally show ?case by (simp add: F)
    next
      case (6 x)
      then show ?case using lists_okD(6) [OF Q(2), of x] H [of x] nr jr by (auto simp: k jo)
    next
      case (7 x)
      then show ?case using lists_okD(7) [OF Q(2), of x] jr by (auto simp: k jo task_fits_def)
    qed
    have G: "gone_ok q'"
      unfolding gone_ok_def
    proof (intro allI impI)
      fix x assume x: "map_of (jq_heap q') x \<noteq> None" "\<not> known q' x"
      then have xr: "x \<noteq> r" "known q x \<longrightarrow> old = Some x" "map_of (jq_heap q) x \<noteq> None" by (auto simp: k heap split: if_splits)
      show "terminal_state (jb_state (job_of q' x)) \<and> jb_task (job_of q' x) \<in> {None, Some TaskEnded}"
      proof (cases "known q x")
        case True
        then show ?thesis using xr ended [of x] lists_okD(7) [OF Q(2) True] by (simp add: jo task_fits_def)
      next
        case False
        then show ?thesis using Q(3) xr by (simp add: gone_ok_def jo)
      qed
    qed
    have "length (jq_history q') \<le> length (jq_history q)" by (auto simp: F length_remove1 split: option.splits)
    then have "queue_ok q'" using I L G Q by (simp add: queue_ok_def F)
    then show ?thesis by (rule queue_ok_same [OF same(1), rotated]) (simp add: same(2) Q(6))
  qed
qed

lemma fold_finish_drop:
  "(fold (\<lambda>r. finish_job api ok now r Cancelled err) rs q)\<lparr>jq_pending := p\<rparr> =
     (fold (drop_pending api ok now err) rs q)\<lparr>jq_pending := p\<rparr>"
proof (induction rs arbitrary: q)
  case (Cons r rs)
  let ?f = "\<lambda>r. finish_job api ok now r Cancelled err"
  have comm: "(fold ?f rs (q\<lparr>jq_pending := p'\<rparr>))\<lparr>jq_pending := p\<rparr> = (fold ?f rs q)\<lparr>jq_pending := p\<rparr>" for q :: "'a queue" and p'
    by (induction rs arbitrary: q p') (simp_all add: finish_job_lists)
  have "(fold ?f (r # rs) q)\<lparr>jq_pending := p\<rparr> = (fold ?f rs (drop_pending api ok now err r q))\<lparr>jq_pending := p\<rparr>"
    by (simp add: drop_pending_def finish_job_lists comm)
  then show ?case by (simp add: Cons)
qed simp

lemma cancel_task_known [simp]: "known (cancel_task r q) = known q" "jb_state (job_of (cancel_task r q) x) = jb_state (job_of q x)"
  if "jb_run (job_of q r) = r"
  using that by (auto simp: fun_eq_iff known_def cancel_task_def Let_def)

lemma fold_cancel_ok:
  "queue_ok q \<Longrightarrow> \<forall>r \<in> set rs. known q r \<and> jb_state (job_of q r) = Running \<Longrightarrow> queue_ok (fold cancel_task rs q)"
proof (induction rs arbitrary: q)
  case (Cons r rs)
  have r: "jb_run (job_of q r) = r" using run_of [OF queue_okD(1) [OF Cons.prems(1)]] Cons.prems(2) by simp
  have "queue_ok (cancel_task r q)" using cancel_task_ok [OF Cons.prems(1)] Cons.prems(2) by simp
  moreover have "\<forall>x \<in> set rs. known (cancel_task r q) x \<and> jb_state (job_of (cancel_task r q) x) = Running"
    using Cons.prems(2) by (simp add: cancel_task_known [OF r])
  ultimately show ?case using Cons.IH by simp
qed simp

text \<open>Closing finishes the pending jobs and then asks the running tasks to stop.\<close>

lemma close_parts:
  assumes q: "queue_ok q"
  obtains q3 rs where "queue_ok q3" "close_queue api ok now q = fold cancel_task rs q3"
    "\<forall>r \<in> set rs. known q3 r \<and> jb_state (job_of q3 r) = Running"
    "q3 = fold (drop_pending api ok now (Some ''server shutting down'')) (jq_pending q)
       (q\<lparr>jq_closed := True, jq_wakeup := True\<rparr>)"
proof -
  let ?q1 = "q\<lparr>jq_closed := True, jq_wakeup := True\<rparr>" and ?err = "Some ''server shutting down''"
  have q1: "queue_ok ?q1" using flags_ok(1) [OF flags_ok(4) [OF q]] by simp
  define q3 where "q3 = (fold (\<lambda>r. finish_job api ok now r Cancelled ?err) (jq_pending ?q1) ?q1)\<lparr>jq_pending := []\<rparr>"
  note d = fold_drop_pending [OF q1 lists_okD(1) [OF queue_okD(2) [OF q1]] order.refl, of api ok now ?err]
  have "(fold (drop_pending api ok now ?err) (jq_pending ?q1) ?q1)\<lparr>jq_pending := []\<rparr> =
      fold (drop_pending api ok now ?err) (jq_pending ?q1) ?q1"
    using d by (intro queue.equality) simp_all
  then have eq: "q3 = fold (drop_pending api ok now ?err) (jq_pending ?q1) ?q1" unfolding q3_def fold_finish_drop .
  have q3: "queue_ok q3" unfolding eq using d by blast
  have run: "known q3 (the (map_of (jq_jobs q3) k)) \<and> jb_state (job_of q3 (the (map_of (jq_jobs q3) k))) = Running"
    if "k \<in> set (jq_running q3)" for k
    using lists_okD(5) [OF queue_okD(2) [OF q3], of k] that known_key [OF queue_okD(1) [OF q3], of k] by auto
  show thesis
  proof (rule that [OF q3])
    show "close_queue api ok now q = fold cancel_task (map (\<lambda>k. the (map_of (jq_jobs q3) k)) (jq_running q3)) q3"
      by (simp add: close_queue_def Let_def q3_def fold_map comp_def)
  qed (use run eq in auto)
qed

lemma close_ok: "queue_ok q \<Longrightarrow> queue_ok (close_queue api ok now q)"
  by (erule close_parts [of q api ok now]) (simp add: fold_cancel_ok)

lemma new_queue_ok: "new_queue m l st = Some q \<Longrightarrow> queue_ok q"
  by (auto simp: new_queue_def queue_ok_def job_index_ok_def lists_ok_def gone_ok_def known_def job_of_def split: if_splits)

lemma note_receipt_ok: "queue_ok q \<Longrightarrow> task_of q r = Some (TaskActive c) \<Longrightarrow> queue_ok (note_receipt r node d q)"
proof -
  assume q: "queue_ok q" and t: "task_of q r = Some (TaskActive c)"
  note f = running_facts [OF q t, simplified]
  show ?thesis unfolding note_receipt_def Let_def
    by (rule set_job_ok [OF q f(1)]) (use f in \<open>auto simp: task_fits_def\<close>)
qed

lemma queue_step_ok: "queue_step h api q q' \<Longrightarrow> queue_ok q \<Longrightarrow> queue_ok q'"
proof (induction rule: queue_step.induct)
  case (limit q n)
  then show ?case
    by (auto simp: set_max_running_def intro: queue_ok_same [rotated 2] simp: same_lists_def)
next
  case (wake q oks now)
  then show ?case by (auto simp: wake_dispatcher_def Let_def intro: dispatch_ok flags_ok)
qed (auto simp: pause_def resume_def begin_maintenance_def end_maintenance_def
    intro: submit_ok cancel_ok note_receipt_ok clear_ok flags_ok begin_task_ok end_job_ok close_ok flags_ok(1) [OF flags_ok(2), simplified])

lemma queue_run_ok: "queue_run h api q0 q \<Longrightarrow> queue_ok q0 \<Longrightarrow> queue_ok q"
  unfolding queue_run_def by (induction rule: rtranclp_induct) (auto intro: queue_step_ok)

end
