(* ===== verification/Queue_Theorems.thy ===== *)
theory Queue_Theorems
  imports Job_Queue
begin

text \<open>
  What the job queue promises: its lists and indexes stay consistent, dispatch follows priorities,
  keys are idempotency keys, and what becomes of a job whose task is cancelled before its first step.
\<close>

section \<open>Dispatch order\<close>

lemma sort_key_id: "sorted (map f xs) \<Longrightarrow> sort_key f xs = xs"
  by (induction xs) (auto intro: insort_is_Cons)

lemma start_job_exact:
  assumes q: "queue_ok q" and p: "jq_pending q \<noteq> []"
  defines "r \<equiv> hd (pending_jobs q)"
  shows "r \<in> set (jq_pending q)"
    "job_of (start_job api ok now q) x =
      (if x = r then (job_of q r)\<lparr>jb_state := Running, jb_started := Some now, jb_task := Some (TaskNew False)\<rparr> else job_of q x)"
    "pending_jobs (start_job api ok now q) = tl (pending_jobs q)"
    "jq_running (start_job api ok now q) = jb_key (job_of q r) # jq_running q"
    "x \<noteq> r \<Longrightarrow> map_of (jq_heap (start_job api ok now q)) x = map_of (jq_heap q) x"
proof -
  note Q = queue_okD [OF q]
  have ne: "pending_jobs q \<noteq> []" using p pending_sorted(2) [of q] by auto
  then have sp: "pending_jobs q = r # tl (pending_jobs q)" by (simp add: r_def)
  show r: "r \<in> set (jq_pending q)" using ne by (simp add: r_def pending_sorted(1) [symmetric])
  note f = pending_facts [OF q r]
  have jr: "jb_run (job_of q r) = r" by (rule run_of [OF Q(1) f(1)])
  let ?j = "(job_of q r)\<lparr>jb_state := Running, jb_started := Some now, jb_task := Some (TaskNew False)\<rparr>"
  have hp: "map_of (jq_heap (start_job api ok now q)) = map_of (jq_heap (set_job ?j q))"
    by (auto simp: start_job_def Let_def r_def [symmetric] emit_job_def try_store_def write_store_def set_job_def jr
        split: option.splits)
  then show "x \<noteq> r \<Longrightarrow> map_of (jq_heap (start_job api ok now q)) x = map_of (jq_heap q) x" by (simp add: heap_set jr)
  from hp have "job_of (start_job api ok now q) = job_of (set_job ?j q)" by (simp add: job_of_def fun_eq_iff)
  then show j: "job_of (start_job api ok now q) x = (if x = r then ?j else job_of q x)" for x by (simp add: jr)
  have dist: "distinct (pending_jobs q)" using lists_okD(1) [OF Q(2)] by (simp add: pending_sorted)
  then have nt: "r \<notin> set (tl (pending_jobs q))" using sp by (metis distinct.simps(2))
  have ord: "jq_order (start_job api ok now q) = jq_order q" by (rule start_job_fields)
  have "sorted (map (dispatch_key q) (pending_jobs q))" by (simp add: pending_jobs_def)
  then have "sorted (map (dispatch_key q) (tl (pending_jobs q)))" by (simp only: map_tl sorted_tl)
  moreover have "map (dispatch_key (start_job api ok now q)) (tl (pending_jobs q)) = map (dispatch_key q) (tl (pending_jobs q))"
    using nt by (auto simp: dispatch_key_def order_of_def j ord)
  ultimately have "sorted (map (dispatch_key (start_job api ok now q)) (tl (pending_jobs q)))" by (simp only:)
  then have "sort_key (dispatch_key (start_job api ok now q)) (tl (pending_jobs q)) = tl (pending_jobs q)"
    by (rule sort_key_id)
  then show "pending_jobs (start_job api ok now q) = tl (pending_jobs q)"
    by (simp only: pending_jobs_def [of "start_job api ok now q"] start_job_pending)
  have "jb_key (job_of q r) \<notin> set (jq_running q)"
    using lists_okD(5) [OF Q(2), of "jb_key (job_of q r)"] f by (auto simp: known_def)
  then show "jq_running (start_job api ok now q) = jb_key (job_of q r) # jq_running q"
    by (auto simp: start_job_def Let_def r_def [symmetric] emit_job_def try_store_def write_store_def split: option.splits)
qed

lemma dispatch_exact:
  "queue_ok q \<Longrightarrow> \<not> jq_paused q \<Longrightarrow> \<not> jq_maintenance q \<Longrightarrow>
     n = min (length (jq_pending q)) (jq_max q - length (jq_running q)) \<Longrightarrow>
     pending_jobs (dispatch_jobs api ok now q) = drop n (pending_jobs q) \<and>
     jq_running (dispatch_jobs api ok now q) = rev (map (jb_key \<circ> job_of q) (take n (pending_jobs q))) @ jq_running q \<and>
     (\<forall>r. job_of (dispatch_jobs api ok now q) r =
        (if r \<in> set (take n (pending_jobs q))
         then (job_of q r)\<lparr>jb_state := Running, jb_started := Some now, jb_task := Some (TaskNew False)\<rparr> else job_of q r))"
proof (induction api ok now q arbitrary: n rule: dispatch_jobs.induct)
  case (1 api ok now q)
  show ?case
  proof (cases "can_dispatch q")
    case False
    then have "n = 0" using 1(3-5) by (auto simp: can_dispatch_def)
    then show ?thesis using False by (simp add: dispatch_jobs.simps [of api ok now q])
  next
    case True
    then have p: "jq_pending q \<noteq> []" "length (jq_running q) < jq_max q" by (simp_all add: can_dispatch_def)
    let ?s = "start_job api ok now q" and ?P = "pending_jobs q" and ?r = "hd (pending_jobs q)"
    note ex = start_job_exact [OF 1(2) p(1)]
    have ne: "?P = ?r # tl ?P" using p(1) pending_sorted(2) [of q] by (cases ?P) auto
    have "0 < n" using 1(5) p by simp
    then obtain m where n: "n = Suc m" by (cases n) auto
    have m: "m = min (length (jq_pending ?s)) (jq_max ?s - length (jq_running ?s))"
    proof -
      have "length (jq_pending ?s) = length (jq_pending q) - 1" "length (jq_running ?s) = Suc (length (jq_running q))"
        using ex(4) pending_sorted(2) [of q] by (simp_all add: start_job_pending)
      then show ?thesis using 1(5) n p by (simp add: start_job_fields)
    qed
    have dist: "distinct ?P" using lists_okD(1) [OF queue_okD(2) [OF 1(2)]] by (simp add: pending_sorted)
    then have nt: "?r \<notin> set (tl ?P)" using ne by (metis distinct.simps(2))
    have IH: "pending_jobs (dispatch_jobs api ok now ?s) = drop m (pending_jobs ?s) \<and>
       jq_running (dispatch_jobs api ok now ?s) = rev (map (jb_key \<circ> job_of ?s) (take m (pending_jobs ?s))) @ jq_running ?s \<and>
       (\<forall>r. job_of (dispatch_jobs api ok now ?s) r =
          (if r \<in> set (take m (pending_jobs ?s))
           then (job_of ?s r)\<lparr>jb_state := Running, jb_started := Some now, jb_task := Some (TaskNew False)\<rparr> else job_of ?s r))"
      using 1(1) [OF True start_job_ok [OF 1(2) p(1)] _ _ m] 1(3,4) by (simp add: start_job_fields)
    have tk: "take n ?P = ?r # take m (tl ?P)" "drop n ?P = drop m (tl ?P)" using n ne by (metis take_Suc_Cons, metis drop_Suc_Cons)
    have sub: "set (take m (tl ?P)) \<subseteq> set (tl ?P)" by (rule set_take_subset)
    have same: "map (jb_key \<circ> job_of ?s) (take m (tl ?P)) = map (jb_key \<circ> job_of q) (take m (tl ?P))"
      using nt sub by (auto simp: ex(2))
    have d: "dispatch_jobs api ok now q = dispatch_jobs api ok now ?s"
      using True by (simp add: dispatch_jobs.simps [of api ok now q])
    show ?thesis unfolding d tk using IH same nt sub by (auto simp: ex)
  qed
qed

section \<open>A task cancelled before its first step\<close>

lemma task_of_cong: "map_of (jq_heap q') r = map_of (jq_heap q) r \<Longrightarrow> task_of q' r = task_of q r"
  by (simp add: task_of_def)

lemma heap_finish: "jb_run (job_of q r) = r \<Longrightarrow> x \<noteq> r \<Longrightarrow>
    map_of (jq_heap (finish_job api ok now r st err q)) x = map_of (jq_heap q) x"
  by (auto simp: finish_job_def Let_def evict_history_def emit_job_def try_store_def write_store_def set_job_def
      split: option.splits)

lemma heap_drop_pending:
  assumes q: "queue_ok q" and r: "r \<in> set (jq_pending q)" "x \<noteq> r"
  shows "map_of (jq_heap (drop_pending api ok now err r q)) x = map_of (jq_heap q) x"
proof -
  have "jb_run (job_of q r) = r" using run_of [OF queue_okD(1) [OF q]] pending_facts(1) [OF q r(1)] by simp
  then show ?thesis using r(2) by (simp add: drop_pending_def heap_finish)
qed

lemma heap_fold_drop:
  "queue_ok q \<Longrightarrow> distinct rs \<Longrightarrow> set rs \<subseteq> set (jq_pending q) \<Longrightarrow> x \<notin> set rs \<Longrightarrow>
     map_of (jq_heap (fold (drop_pending api ok now err) rs q)) x = map_of (jq_heap q) x"
proof (induction rs arbitrary: q)
  case (Cons r rs)
  note d = drop_pending_ok [OF Cons.prems(1), of r]
  have "distinct (jq_pending q)" using lists_okD(1) [OF queue_okD(2) [OF Cons.prems(1)]] .
  then have "set rs \<subseteq> set (jq_pending (drop_pending api ok now err r q))" using Cons.prems d(2) by auto
  with Cons d heap_drop_pending [OF Cons.prems(1), of r x] show ?case by simp
qed simp

lemma heap_cancel_task: "jb_run (job_of q r) = r \<Longrightarrow> jb_task (job_of q r) = Some TaskDropped \<Longrightarrow> task_of (cancel_task r q) r = Some TaskDropped"
  "jb_run (job_of q r) = r \<Longrightarrow> x \<noteq> r \<Longrightarrow> map_of (jq_heap (cancel_task r q)) x = map_of (jq_heap q) x"
  by (simp_all add: cancel_task_def Let_def task_of_def heap_set)

lemma dropped_cancel:
  assumes q: "queue_ok q" and d: "task_of q x = Some TaskDropped" and r: "known q r" "jb_state (job_of q r) = Running"
  shows "task_of (cancel_task r q) x = Some TaskDropped"
proof -
  have jr: "jb_run (job_of q r) = r" by (rule run_of [OF queue_okD(1) [OF q] r(1)])
  show ?thesis
    using heap_cancel_task(1) [OF jr] heap_cancel_task(2) [OF jr, of x] running_facts(3) [OF q d] d
    by (cases "x = r") (simp, metis task_of_cong)
qed

lemma dropped_fold_cancel:
  "queue_ok q \<Longrightarrow> task_of q x = Some TaskDropped \<Longrightarrow> \<forall>r \<in> set rs. known q r \<and> jb_state (job_of q r) = Running \<Longrightarrow>
     task_of (fold cancel_task rs q) x = Some TaskDropped"
proof (induction rs arbitrary: q)
  case (Cons r rs)
  have r: "jb_run (job_of q r) = r" using run_of [OF queue_okD(1) [OF Cons.prems(1)]] Cons.prems(3) by simp
  have "queue_ok (cancel_task r q)" using cancel_task_ok [OF Cons.prems(1)] Cons.prems(3) by simp
  moreover have "task_of (cancel_task r q) x = Some TaskDropped" using dropped_cancel [OF Cons.prems(1,2)] Cons.prems(3) by simp
  moreover have "\<forall>y \<in> set rs. known (cancel_task r q) y \<and> jb_state (job_of (cancel_task r q) y) = Running"
    using Cons.prems(3) by (simp add: cancel_task_known [OF r])
  ultimately show ?case using Cons.IH by simp
qed simp

lemma dropped_start:
  assumes q: "queue_ok q" and d: "task_of q x = Some TaskDropped" and p: "jq_pending q \<noteq> []"
  shows "task_of (start_job api ok now q) x = Some TaskDropped"
proof -
  let ?r = "hd (pending_jobs q)"
  have r: "?r \<in> set (jq_pending q)" by (rule start_job_exact(1) [OF q p])
  have "x \<noteq> ?r" using pending_facts(3) [OF q r] running_facts(3) [OF q d] by auto
  from start_job_exact(5) [OF q p this] show ?thesis using d task_of_cong by metis
qed

lemma dropped_dispatch:
  "queue_ok q \<Longrightarrow> task_of q x = Some TaskDropped \<Longrightarrow> task_of (dispatch_jobs api ok now q) x = Some TaskDropped"
proof (induction api ok now q rule: dispatch_jobs.induct)
  case (1 api ok now q)
  then show ?case
    using start_job_ok [OF 1(2)] dropped_start [OF 1(2,3)]
    by (simp add: dispatch_jobs.simps [of api ok now q] can_dispatch_def)
qed

lemma dropped_not_pending: "queue_ok q \<Longrightarrow> task_of q x = Some TaskDropped \<Longrightarrow> x \<notin> set (jq_pending q)"
  using pending_facts(3) [of q x] running_facts(3) [of q x TaskDropped] by auto

lemma heap_submit: "x \<noteq> r \<Longrightarrow> map_of (jq_heap (fst (submit_job h api ok now r rq q))) x = map_of (jq_heap q) x"
  by (simp add: submit_job_def Let_def enqueue_job_def forget_job_def emit_job_def write_store_def heap_set new_job_def
      split: option.split)

lemma dropped_step:
  assumes "queue_step h api q q'" and q: "queue_ok q" and d: "task_of q x = Some TaskDropped"
  shows "task_of q' x = Some TaskDropped"
  using assms(1)
proof cases
  case (submit r ok now rq)
  then have "x \<noteq> r" using d by (auto simp: fresh_run_def task_of_def)
  then show ?thesis using submit(1) heap_submit [of x r] d task_of_cong by metis
next
  case (cancel oks now k)
  show ?thesis
  proof (cases "map_of (jq_jobs q) k")
    case None
    then show ?thesis using cancel d by (simp add: cancel_job_def)
  next
    case (Some r)
    have k: "known q r" by (rule known_key [OF queue_okD(1) [OF q] Some])
    have p: "r \<in> set (jq_pending q)" if "jb_state (job_of q r) = Queued"
      using lists_okD(4) [OF queue_okD(2) [OF q], of r] k that by simp
    then have "task_of (drop_pending api oks now None r q) x = Some TaskDropped" if "jb_state (job_of q r) = Queued"
      using that heap_drop_pending [OF q p [OF that], of x] dropped_not_pending [OF q d] d by (metis task_of_cong)
    then show ?thesis using cancel Some d dropped_cancel [OF q d k]
      by (auto simp: cancel_job_def cancel_pending_drop terminal_iff)
  qed
next
  case (clear oks now client)
  have dist: "distinct (jq_pending q)" using lists_okD(1) [OF queue_okD(2) [OF q]] .
  let ?v = "filter (\<lambda>r. client = None \<or> Some (client_id (jb_key (job_of q r))) = client) (pending_jobs q)"
  have "map_of (jq_heap (fold (drop_pending api oks now None) ?v q)) x = map_of (jq_heap q) x"
    using dist dropped_not_pending [OF q d] by (intro heap_fold_drop [OF q]) (auto simp: pending_jobs_def)
  then show ?thesis using clear d by (simp add: clear_jobs_def Let_def cancel_pending_drop task_of_def)
next
  case (wake oks now)
  then show ?thesis
    using dropped_dispatch [OF flags_ok(1) [OF q, of False], of x] d
    by (simp add: wake_dispatcher_def Let_def task_of_def)
next
  case (begins r c)
  note f = running_facts(4) [OF q begins(2)]
  have "x \<noteq> r" using begins d by auto
  then show ?thesis using begins(1) d f by (simp add: begin_task_def Let_def task_of_def heap_set)
next
  case (ends r c oks now out)
  note f = running_facts(4) [OF q ends(2)]
  let ?j = "(job_of q r)\<lparr>jb_task := Some TaskEnded, jb_result := outcome_result out\<rparr>"
  have xr: "x \<noteq> r" using ends d by auto
  have "map_of (jq_heap q') x = map_of (jq_heap (set_job ?j q)) x"
    using heap_finish [of "set_job ?j q" r x] xr f ends(1) by (simp add: end_job_def Let_def)
  then show ?thesis using d xr f by (simp add: task_of_def heap_set)
next
  case (receipt r c node disposition)
  note f = running_facts(4) [OF q receipt(2)]
  have "x \<noteq> r" using receipt d by auto
  then show ?thesis using receipt(1) d f by (simp add: note_receipt_def Let_def task_of_def heap_set)
next
  case (close oks now)
  let ?q1 = "q\<lparr>jq_closed := True, jq_wakeup := True\<rparr>"
  have q1: "queue_ok ?q1" using flags_ok(1) [OF flags_ok(4) [OF q]] by simp
  obtain q3 rs where c: "queue_ok q3" "close_queue api oks now q = fold cancel_task rs q3"
    "\<forall>r \<in> set rs. known q3 r \<and> jb_state (job_of q3 r) = Running"
    "q3 = fold (drop_pending api oks now (Some ''server shutting down'')) (jq_pending q) ?q1"
    by (rule close_parts [OF q])
  have "map_of (jq_heap q3) x = map_of (jq_heap ?q1) x"
    unfolding c(4) using lists_okD(1) [OF queue_okD(2) [OF q]] dropped_not_pending [OF q d]
    by (intro heap_fold_drop [OF q1]) simp_all
  then have "task_of q3 x = Some TaskDropped" using d by (simp add: task_of_def)
  then show ?thesis using dropped_fold_cancel [OF c(1) _ c(3)] close c(2) by simp
qed (use d in \<open>simp_all add: pause_def resume_def begin_maintenance_def end_maintenance_def set_max_running_def task_of_def\<close>)

section \<open>Properties\<close>

text \<open>An example: a queue of one slot over a store that takes everything, and two requests.\<close>

definition take_all :: "nat queue_store" where
  "take_all = \<lparr>qs_accepted = (\<lambda>_ n. Some (Suc n)), qs_started = (\<lambda>_. Some), qs_terminal = (\<lambda>_. Some)\<rparr>"

definition some_facts :: job_facts where
  "some_facts = \<lparr>jf_scope = ''local'', jf_principal = ''local'', jf_principal_kind = ''human'', jf_source = [], jf_execution = []\<rparr>"

definition some_request :: "string \<Rightarrow> int \<Rightarrow> request" where
  "some_request name priority = \<lparr>rq_key = JobKey ''c'' name, rq_priority = priority, rq_facts = some_facts,
     rq_fingerprint = [], rq_content = name, rq_lowered = True\<rparr>"

definition jq0 :: "nat queue" where "jq0 = the (new_queue 1 2 0)"
definition jq1 :: "nat queue" where "jq1 = fst (submit_job id take_all True 1 ''r1'' (some_request ''a'' 0) jq0)"
definition jq2 :: "nat queue" where "jq2 = fst (submit_job id take_all True 2 ''r2'' (some_request ''b'' 5) jq1)"
definition jq3 :: "nat queue" where "jq3 = wake_dispatcher take_all (\<lambda>_. True) 3 jq2"
definition jq4 :: "nat queue" where "jq4 = fst (cancel_job take_all (\<lambda>_. True) 4 (JobKey ''c'' ''b'') jq3)"
definition jq5 :: "nat queue" where "jq5 = begin_task ''r2'' jq4"

lemma jq0_new: "new_queue 1 2 0 = Some jq0"
  by (simp add: jq0_def new_queue_def)

lemma jq_runs: "queue_run id take_all jq0 jq2" "queue_run id take_all jq0 jq3" "queue_run id take_all jq0 jq5"
proof -
  have s: "queue_step id take_all jq0 jq1" "queue_step id take_all jq1 jq2" "queue_step id take_all jq2 jq3"
    "queue_step id take_all jq3 jq4" "queue_step id take_all jq4 jq5"
  proof -
    show "queue_step id take_all jq0 jq1" unfolding jq1_def by (rule queue_step.submit) code_simp
    show "queue_step id take_all jq1 jq2" unfolding jq2_def by (rule queue_step.submit) code_simp
    show "queue_step id take_all jq2 jq3" unfolding jq3_def by (rule queue_step.wake) code_simp
    show "queue_step id take_all jq3 jq4" unfolding jq4_def by (rule queue_step.cancel)
    show "queue_step id take_all jq4 jq5" unfolding jq5_def by (rule queue_step.begins [where c = True]) code_simp
  qed
  show "queue_run id take_all jq0 jq2" "queue_run id take_all jq0 jq3" "queue_run id take_all jq0 jq5"
    unfolding queue_run_def using s by (meson rtranclp.rtrancl_into_rtrancl rtranclp.rtrancl_refl)+
qed

lemma reached: "new_queue m l st = Some q0 \<Longrightarrow> queue_run h api q0 q \<Longrightarrow> queue_ok q"
  by (rule queue_run_ok [OF _ new_queue_ok])

text \<open>
  C6: Whatever is submitted, cancelled, cleared, paused, closed, dispatched and run, in any order and
  with any writes of the store failing, each known job is in exactly the list of its state - queued
  ones are pending, running ones hold a slot, ended ones are in the history - and no list holds
  anything else; the history keeps to its limit, and a run id leads to its job.
\<close>
theorem queue_stays_consistent:
  assumes "new_queue m l st = Some q0" and "queue_run h api q0 q"
  shows "(\<forall>k r. get_job k q = Some r \<longrightarrow>
      jb_key (job_of q r) = k \<and> job_for_run r q = Some r \<and>
      (r \<in> set (jq_pending q) \<longleftrightarrow> jb_state (job_of q r) = Queued) \<and>
      (k \<in> set (jq_running q) \<longleftrightarrow> jb_state (job_of q r) = Running) \<and>
      (r \<in> set (jq_history q) \<longleftrightarrow> terminal_state (jb_state (job_of q r)))) \<and>
    distinct (jq_pending q) \<and> distinct (jq_running q) \<and> distinct (jq_history q) \<and>
    (\<forall>r \<in> set (jq_pending q) \<union> set (jq_history q). \<exists>k. get_job k q = Some r) \<and>
    (\<forall>k \<in> set (jq_running q). \<exists>r. get_job k q = Some r) \<and>
    length (jq_history q) \<le> jq_limit q"
proof -
  have q: "queue_ok q" by (rule reached [OF assms])
  note Q = queue_okD [OF q] and L' = lists_okD [OF queue_okD(2) [OF q]] and I' = job_index_okD [OF queue_okD(1) [OF q]]
  have "jb_key (job_of q r) = k \<and> job_for_run r q = Some r \<and>
      (r \<in> set (jq_pending q) \<longleftrightarrow> jb_state (job_of q r) = Queued) \<and>
      (k \<in> set (jq_running q) \<longleftrightarrow> jb_state (job_of q r) = Running) \<and>
      (r \<in> set (jq_history q) \<longleftrightarrow> terminal_state (jb_state (job_of q r)))" if "map_of (jq_jobs q) k = Some r" for k r
    using I'(3) [OF that] I'(8) [of r k] L'(4) [of r] L'(5) [of k] L'(6) [of r] known_key [OF Q(1) that] that
    by (simp add: job_for_run_def)
  moreover have "\<exists>k. map_of (jq_jobs q) k = Some r" if "r \<in> set (jq_pending q) \<union> set (jq_history q)" for r
    using that L'(4,6) [of r] by (auto simp: known_def)
  moreover have "\<exists>r. map_of (jq_jobs q) k = Some r" if "k \<in> set (jq_running q)" for k using that L'(5) [of k] by auto
  ultimately show ?thesis using L'(1-3) Q(4) by (simp add: get_job_def)
qed

theorem queue_stays_consistent_witness:
  "get_job (JobKey ''c'' ''b'') jq3 = Some ''r2'' \<and> JobKey ''c'' ''b'' \<in> set (jq_running jq3) \<and> jb_state (job_of jq3 ''r2'') = Running"
proof -
  have g: "get_job (JobKey ''c'' ''b'') jq3 = Some ''r2''" "jb_state (job_of jq3 ''r2'') = Running" by code_simp+
  from queue_stays_consistent [OF jq0_new jq_runs(2)]
  have "\<forall>k r. get_job k jq3 = Some r \<longrightarrow>
      jb_key (job_of jq3 r) = k \<and> job_for_run r jq3 = Some r \<and>
      (r \<in> set (jq_pending jq3) \<longleftrightarrow> jb_state (job_of jq3 r) = Queued) \<and>
      (k \<in> set (jq_running jq3) \<longleftrightarrow> jb_state (job_of jq3 r) = Running) \<and>
      (r \<in> set (jq_history jq3) \<longleftrightarrow> terminal_state (jb_state (job_of jq3 r)))" by (elim conjE)
  with g show ?thesis by blast
qed

text \<open>
  C7: Dispatch is by priority, first come first served within one, and fills the free slots: a turn
  of the dispatcher starts the first of the pending jobs in that order, as many as there are free
  slots, and leaves the others pending in their order; a paused queue, one under maintenance and a
  closed one start nothing.
\<close>
theorem dispatch_is_by_priority:
  assumes "new_queue m l st = Some q0" and "queue_run h api q0 q"
    and "n = (if jq_paused q \<or> jq_maintenance q \<or> jq_closed q then 0
              else min (length (jq_pending q)) (jq_max q - length (jq_running q)))"
  shows "sorted (map (\<lambda>r. (- jb_priority (job_of q r), order_of q r)) (pending_jobs q)) \<and>
    pending_jobs (wake_dispatcher api ok now q) = drop n (pending_jobs q) \<and>
    jq_running (wake_dispatcher api ok now q) = rev (map (jb_key \<circ> job_of q) (take n (pending_jobs q))) @ jq_running q \<and>
    (\<forall>r. jb_state (job_of (wake_dispatcher api ok now q) r) =
      (if r \<in> set (take n (pending_jobs q)) then Running else jb_state (job_of q r)))"
proof -
  have q: "queue_ok q" by (rule reached [OF assms(1,2)])
  let ?q = "q\<lparr>jq_wakeup := False\<rparr>"
  have jo: "job_of ?q = job_of q" by (rule job_of_cong) simp
  have "dispatch_key ?q = dispatch_key q" by (simp add: fun_eq_iff dispatch_key_def order_of_def jo)
  then have p: "pending_jobs ?q = pending_jobs q" by (simp add: pending_jobs_def)
  have "sorted (map (\<lambda>r. (- jb_priority (job_of q r), order_of q r)) (pending_jobs q))"
    using sorted_sort_key [of "dispatch_key q" "jq_pending q"] by (simp add: pending_jobs_def dispatch_key_def [abs_def])
  moreover have "pending_jobs (wake_dispatcher api ok now q) = drop n (pending_jobs q) \<and>
    jq_running (wake_dispatcher api ok now q) = rev (map (jb_key \<circ> job_of q) (take n (pending_jobs q))) @ jq_running q \<and>
    (\<forall>r. jb_state (job_of (wake_dispatcher api ok now q) r) =
      (if r \<in> set (take n (pending_jobs q)) then Running else jb_state (job_of q r)))"
  proof (cases "jq_paused q \<or> jq_maintenance q \<or> jq_closed q")
    case True
    then have "wake_dispatcher api ok now q = ?q" "n = 0"
      using assms(3) by (auto simp: wake_dispatcher_def Let_def dispatch_jobs.simps [of api ok now ?q] can_dispatch_def)
    then show ?thesis by (simp add: p jo)
  next
    case False
    then have "n = min (length (jq_pending ?q)) (jq_max ?q - length (jq_running ?q))" using assms(3) by simp
    from dispatch_exact [OF flags_ok(1) [OF q, of False] _ _ this, of api ok now] False show ?thesis
      by (simp add: wake_dispatcher_def Let_def p jo)
  qed
  ultimately show ?thesis by blast
qed

theorem dispatch_is_by_priority_witness: "pending_jobs jq2 = [''r2'', ''r1''] \<and> jq_running jq3 = [JobKey ''c'' ''b'']"
proof -
  have p: "pending_jobs jq2 = [''r2'', ''r1'']" "jb_key (job_of jq2 ''r2'') = JobKey ''c'' ''b''" by code_simp+
  have n: "1 = (if jq_paused jq2 \<or> jq_maintenance jq2 \<or> jq_closed jq2 then 0
      else min (length (jq_pending jq2)) (jq_max jq2 - length (jq_running jq2)))" "jq_running jq2 = []" by code_simp+
  from dispatch_is_by_priority [OF jq0_new jq_runs(1) n(1), of "\<lambda>_. True" 3] n(2) p show ?thesis
    by (simp add: jq3_def)
qed

text \<open>
  C8: A key is an idempotency key while its job is active: submitting the same content again returns
  that job and different content is refused, both without any change. Once the job has ended, a
  submission that the store takes starts a new job and forgets the old one completely, touching no
  other job.
\<close>
theorem resubmission_is_idempotent:
  assumes "new_queue m l st = Some q0" and "queue_run h api q0 q" and "get_job (rq_key rq) q = Some e"
    and "\<not> jq_closed q" and "rq_lowered rq" and "fresh_run r q"
  shows "if \<not> terminal_state (jb_state (job_of q e))
    then submit_job h api ok now r rq q =
      (q, if jb_fingerprint (job_of q e) = fingerprint_of h rq then Inr e else Inl (KeyInUse (rq_key rq)))
    else (case submit_job h api ok now r rq q of
      (q', Inl err) \<Rightarrow> q' = q \<and> err = StoreFailed
    | (q', Inr r') \<Rightarrow> r' = r \<and> get_job (rq_key rq) q' = Some r \<and> jb_state (job_of q' r) = Queued \<and>
        job_for_run e q' = None \<and> e \<notin> set (jq_history q') \<and>
        (\<forall>k. k \<noteq> rq_key rq \<longrightarrow> get_job k q' = get_job k q))"
proof -
  have q: "queue_ok q" by (rule reached [OF assms(1,2)])
  note Q = queue_okD [OF q]
  have e: "map_of (jq_jobs q) (rq_key rq) = Some e" using assms(3) by (simp add: get_job_def)
  show ?thesis
  proof (cases "terminal_state (jb_state (job_of q e))")
    case False
    then show ?thesis using assms(4,5) e by (simp add: submit_job_def Let_def)
  next
    case True
    let ?j = "new_job (fingerprint_of h rq) now rq r"
    show ?thesis
    proof (cases "write_store ok (qs_accepted api ?j) q")
      case None
      then show ?thesis using True assms(4,5) e by (simp add: submit_job_def Let_def)
    next
      case (Some q1)
      then have q1: "jq_jobs q1 = jq_jobs q" "jq_history q1 = jq_history q" "jq_by_run q1 = jq_by_run q"
        by (auto simp: write_store_def split: if_splits)
      let ?q = "enqueue_job ?j (forget_job (Some e) q1)"
      have s: "submit_job h api ok now r rq q = (?q, Inr r)" using True assms(4,5) e Some by (simp add: submit_job_def Let_def)
      have er: "e \<noteq> r" using job_index_okD(2) [OF Q(1) e] assms(6) by (auto simp: fresh_run_def)
      have "jq_jobs ?q = dict_set (rq_key rq) r (jq_jobs q)" "jq_history ?q = remove1 e (jq_history q)"
        "jq_by_run ?q = dict_set r (rq_key rq) (dict_del e (jq_by_run q))" "job_of ?q r = ?j"
        using q1 by (simp_all add: enqueue_job_def forget_job_def Let_def emit_job_def new_job_def job_of_def set_job_def)
      then show ?thesis
        unfolding s using True er lists_okD(3) [OF Q(2)]
        by (auto simp: get_job_def job_for_run_def new_job_def)
    qed
  qed
qed

theorem resubmission_is_idempotent_witness:
  "submit_job id take_all True 9 ''r9'' (some_request ''a'' 0) jq2 = (jq2, Inr ''r1'')"
proof -
  have g: "get_job (rq_key (some_request ''a'' 0)) jq2 = Some ''r1''" "\<not> jq_closed jq2" "rq_lowered (some_request ''a'' 0)"
    "fresh_run ''r9'' jq2" "\<not> terminal_state (jb_state (job_of jq2 ''r1''))"
    "jb_fingerprint (job_of jq2 ''r1'') = fingerprint_of id (some_request ''a'' 0)" by code_simp+
  from resubmission_is_idempotent [OF jq0_new jq_runs(1) g(1-4), of True 9] g(5,6) show ?thesis by simp
qed

text \<open>
  C10: A job that is cancelled after its dispatch but before the first step of its task is never
  finished: its coroutine is closed unentered, so it stays running and keeps its slot through
  everything that follows, and a queue of one slot never dispatches again.
\<close>
theorem cancelled_before_start_keeps_its_slot:
  assumes "new_queue m l st = Some q0" and "queue_run h api q0 q" and "task_of q r = Some TaskDropped"
    and "queue_run h api q q'"
  shows "jb_state (job_of q' r) = Running \<and> jb_key (job_of q' r) \<in> set (jq_running q') \<and>
    (jq_max q' = 1 \<longrightarrow> \<not> can_dispatch q')"
proof -
  have "queue_ok q' \<and> task_of q' r = Some TaskDropped"
    using assms(4) unfolding queue_run_def
  proof (induction rule: rtranclp_induct)
    case base
    then show ?case using reached [OF assms(1,2)] assms(3) by simp
  next
    case (step y z)
    then show ?case using queue_step_ok [OF step(2)] dropped_step [OF step(2)] by simp
  qed
  then have f: "jb_state (job_of q' r) = Running" "jb_key (job_of q' r) \<in> set (jq_running q')"
    using running_facts [of q' r TaskDropped] by auto
  then have "1 \<le> length (jq_running q')" by (cases "jq_running q'") auto
  then show ?thesis using f by (auto simp: can_dispatch_def)
qed

theorem cancelled_before_start_keeps_its_slot_witness:
  "jq_pending jq5 = [''r1''] \<and> \<not> can_dispatch jq5 \<and> jb_state (job_of jq5 ''r2'') = Running"
proof -
  have d: "task_of jq5 ''r2'' = Some TaskDropped" "jq_max jq5 = 1" "jq_pending jq5 = [''r1'']" by code_simp+
  have "queue_run id take_all jq5 jq5" by (simp add: queue_run_def)
  from cancelled_before_start_keeps_its_slot [OF jq0_new jq_runs(3) d(1) this] d(2,3) show ?thesis by simp
qed

end
