(* ===== verification/Queue_Store.thy ===== *)
theory Queue_Store
  imports Queue_Theorems
begin

text \<open>
  What the queue makes of its store. The locale states what the three writes promise, in terms of
  what is recorded of a run: whether it is noted as accepted, and the state in which it ended.
\<close>

fun state_name :: "job_state \<Rightarrow> string" where
  "state_name Queued = ''queued''"
| "state_name Running = ''running''"
| "state_name Completed = ''completed''"
| "state_name Failed = ''failed''"
| "state_name Cancelled = ''cancelled''"

type_synonym run_record = "bool \<times> string option"

definition settled :: "job \<Rightarrow> run_record \<Rightarrow> bool" where
  "settled j p \<longleftrightarrow> p = (True, None) \<or> terminal_state (jb_state j) \<and> p = (False, Some (state_name (jb_state j)))"

definition run_fits :: "job option \<Rightarrow> run_record \<Rightarrow> bool" where
  "run_fits jo p = (case jo of None \<Rightarrow> p = (False, None) | Some j \<Rightarrow> settled j p)"

text \<open>A change of a job that keeps its state keeps what fits.\<close>

lemma settled_cong: "jb_state j' = jb_state j \<Longrightarrow> settled j' p = settled j p"
  by (simp add: settled_def)

lemma settled_open: "\<not> terminal_state (jb_state j) \<Longrightarrow> settled j p \<longleftrightarrow> p = (True, None)"
  by (simp add: settled_def)

locale job_store =
  fixes api :: "'st queue_store" and recorded :: "'st \<Rightarrow> string \<Rightarrow> run_record" and store_ok :: "'st \<Rightarrow> bool"
  assumes accepted: "qs_accepted api j st = Some st' \<Longrightarrow>
      recorded st' = (recorded st)(jb_run j := (True, snd (recorded st (jb_run j))))"
    and started: "qs_started api j st = Some st' \<Longrightarrow> recorded st' = recorded st"
    and terminated: "qs_terminal api j st = Some st' \<Longrightarrow>
      recorded st' = (recorded st)(jb_run j := (False,
        case snd (recorded st (jb_run j)) of None \<Rightarrow> Some (state_name (jb_state j)) | Some s \<Rightarrow> Some s))"
    and terminated_state: "qs_terminal api j st = Some st' \<Longrightarrow> terminal_state (jb_state j)"
    and accepted_ok: "qs_accepted api j st = Some st' \<Longrightarrow> store_ok st \<Longrightarrow> store_ok st'"
    and started_ok: "qs_started api j st = Some st' \<Longrightarrow> store_ok st \<Longrightarrow> store_ok st'"
    and terminated_ok: "qs_terminal api j st = Some st' \<Longrightarrow> store_ok st \<Longrightarrow> store_ok st'"
begin

definition durable :: "string set \<Rightarrow> 'st queue \<Rightarrow> bool" where
  "durable C q \<longleftrightarrow> store_ok (jq_store q) \<and> (\<forall>r \<in> C. run_fits (map_of (jq_heap q) r) (recorded (jq_store q) r))"

lemma durable_cong: "jq_heap q' = jq_heap q \<Longrightarrow> jq_store q' = jq_store q \<Longrightarrow> durable C q' = durable C q"
  by (simp add: durable_def)

lemma durable_set:
  assumes "durable C q" and "map_of (jq_heap q) (jb_run j) = Some i" and "jb_state j = jb_state i"
  shows "durable C (set_job j q)"
proof -
  have "run_fits (map_of (jq_heap (set_job j q)) r) p = run_fits (map_of (jq_heap q) r) p" for r p
    using assms(2) settled_cong [OF assms(3)] by (simp add: heap_set run_fits_def)
  then show ?thesis using assms(1) by (simp add: durable_def)
qed

text \<open>A write that changes the record of one run.\<close>

lemma durable_write:
  assumes "store_ok st" and "\<forall>x \<in> C. x \<noteq> r \<longrightarrow> run_fits (map_of H x) (recorded st0 x)"
    and "recorded st = (recorded st0)(r := p)" and "r \<in> C \<Longrightarrow> run_fits (Some j) p"
    and "jq_heap q = dict_set r j H" and "jq_store q = st"
  shows "durable C q"
  using assms by (auto simp: durable_def)

lemma finish_heap_store:
  assumes "jb_run (job_of q r) = r"
  shows "jq_heap (finish_job api ok now r st err q) =
      dict_set r ((job_of q r)\<lparr>jb_state := st, jb_error := err, jb_finished := Some now\<rparr>) (jq_heap q)"
    and "jq_store (finish_job api ok now r st err q) =
      (case write_store (ok r) (qs_terminal api ((job_of q r)\<lparr>jb_state := st, jb_error := err, jb_finished := Some now\<rparr>)) q of
         None \<Rightarrow> jq_store q | Some q' \<Rightarrow> jq_store q')"
  using assms by (auto simp: finish_job_def Let_def evict_history_def emit_job_def try_store_def write_store_def set_job_def
      split: option.splits)

lemma durable_finish:
  assumes d: "durable C q" and r: "map_of (jq_heap q) r = Some i" "jb_run i = r" "\<not> terminal_state (jb_state i)"
  shows "durable C (finish_job api ok now r st err q)"
proof -
  let ?j = "i\<lparr>jb_state := st, jb_error := err, jb_finished := Some now\<rparr>"
  have jo: "job_of q r = i" using r(1) by (simp add: job_of_def)
  note f = finish_heap_store [of q r, unfolded jo, OF r(2), of ok now st err]
  have open_r: "recorded (jq_store q) r = (True, None)" if "r \<in> C"
    using d that r(1,3) by (auto simp: durable_def run_fits_def settled_open)
  have others: "\<forall>x \<in> C. x \<noteq> r \<longrightarrow> run_fits (map_of (jq_heap q) x) (recorded (jq_store q) x)" and ok: "store_ok (jq_store q)"
    using d by (simp_all add: durable_def)
  show ?thesis
  proof (cases "write_store (ok r) (qs_terminal api ?j) q")
    case None
    have "run_fits (Some ?j) (recorded (jq_store q) r)" if "r \<in> C"
      using open_r [OF that] by (simp add: run_fits_def settled_def)
    then show ?thesis using f None by (intro durable_write [OF ok others _ _ f(1)]) auto
  next
    case (Some q')
    then obtain w where w: "qs_terminal api ?j (jq_store q) = Some w" "jq_store q' = w"
      by (auto simp: write_store_def split: if_splits)
    have "terminal_state st" using terminated_state [OF w(1)] by simp
    then show ?thesis using open_r terminated [OF w(1)] r(2) f(2) Some w(2)
      by (intro durable_write [OF terminated_ok [OF w(1) ok] others _ _ f(1)]) (auto simp: run_fits_def settled_def)
  qed
qed

lemma queued_facts:
  assumes q: "queue_ok q" and r: "r \<in> set (jq_pending q)"
  obtains i where "map_of (jq_heap q) r = Some i" "jb_run i = r" "jb_state i = Queued" "job_of q r = i"
proof -
  note f = pending_facts [OF q r] and I = queue_okD(1) [OF q]
  obtain i where "map_of (jq_heap q) r = Some i" using job_index_okD(2) [OF I] f(1) by (auto simp: known_def)
  then show thesis using that [of i] f(2) run_of [OF I f(1)] by (simp add: job_of_def)
qed

lemma durable_drop_pending:
  assumes q: "queue_ok q" and d: "durable C q" and r: "r \<in> set (jq_pending q)"
  shows "durable C (drop_pending api ok now err r q)"
proof -
  obtain i where i: "map_of (jq_heap q) r = Some i" "jb_run i = r" "jb_state i = Queued" by (rule queued_facts [OF q r])
  have "durable C (q\<lparr>jq_pending := remove1 r (jq_pending q)\<rparr>)" using d by (subst durable_cong [of _ q]) simp_all
  then show ?thesis unfolding drop_pending_def using i by (intro durable_finish [of C _ r i]) simp_all
qed

lemma durable_fold_drop:
  "queue_ok q \<Longrightarrow> durable C q \<Longrightarrow> distinct rs \<Longrightarrow> set rs \<subseteq> set (jq_pending q) \<Longrightarrow>
     durable C (fold (drop_pending api ok now err) rs q)"
proof (induction rs arbitrary: q)
  case (Cons r rs)
  note d = drop_pending_ok [OF Cons.prems(1), of r api ok now err]
  have "distinct (jq_pending q)" using lists_okD(1) [OF queue_okD(2) [OF Cons.prems(1)]] .
  then have "set rs \<subseteq> set (jq_pending (drop_pending api ok now err r q))" using Cons.prems d(2) by auto
  with Cons d durable_drop_pending [OF Cons.prems(1,2), of r] show ?case by simp
qed simp

lemma durable_running:
  assumes q: "queue_ok q" and d: "durable C q" and r: "known q r" and j: "jb_run j = r" "jb_state j = jb_state (job_of q r)"
  shows "durable C (set_job j q)"
proof -
  obtain i where "map_of (jq_heap q) r = Some i" using job_index_okD(2) [OF queue_okD(1) [OF q]] r by (auto simp: known_def)
  then show ?thesis using j by (intro durable_set [OF d, of j i]) (simp_all add: job_of_def)
qed

lemma durable_cancel_task:
  assumes q: "queue_ok q" and d: "durable C q" and r: "known q r"
  shows "durable C (cancel_task r q)"
  unfolding cancel_task_def Let_def
  using run_of [OF queue_okD(1) [OF q] r] by (intro durable_running [OF q d r]) simp_all

lemma durable_fold_cancel:
  "queue_ok q \<Longrightarrow> durable C q \<Longrightarrow> \<forall>r \<in> set rs. known q r \<and> jb_state (job_of q r) = Running \<Longrightarrow>
     durable C (fold cancel_task rs q)"
proof (induction rs arbitrary: q)
  case (Cons r rs)
  have r: "jb_run (job_of q r) = r" using run_of [OF queue_okD(1) [OF Cons.prems(1)]] Cons.prems(3) by simp
  have "queue_ok (cancel_task r q)" using cancel_task_ok [OF Cons.prems(1)] Cons.prems(3) by simp
  moreover have "durable C (cancel_task r q)" using durable_cancel_task [OF Cons.prems(1,2)] Cons.prems(3) by simp
  moreover have "\<forall>y \<in> set rs. known (cancel_task r q) y \<and> jb_state (job_of (cancel_task r q) y) = Running"
    using Cons.prems(3) by (simp add: cancel_task_known [OF r])
  ultimately show ?case using Cons.IH by simp
qed simp

lemma durable_start:
  assumes q: "queue_ok q" and d: "durable C q" and p: "jq_pending q \<noteq> []"
  shows "durable C (start_job api ok now q)"
proof -
  let ?r = "hd (pending_jobs q)"
  have r: "?r \<in> set (jq_pending q)" by (rule start_job_exact(1) [OF q p])
  obtain i where i: "map_of (jq_heap q) ?r = Some i" "jb_run i = ?r" "jb_state i = Queued" "job_of q ?r = i"
    by (rule queued_facts [OF q r])
  let ?j = "i\<lparr>jb_state := Running, jb_started := Some now\<rparr>"
  let ?j' = "?j\<lparr>jb_task := Some (TaskNew False)\<rparr>"
  have rec: "recorded (jq_store q) ?r = (True, None)" if "?r \<in> C"
    using d that i(1,3) by (auto simp: durable_def run_fits_def settled_open)
  let ?w = "try_store (ok ?r) (qs_started api ?j) q"
  have w: "recorded (jq_store ?w) = recorded (jq_store q)" "store_ok (jq_store ?w)"
    using d started [of ?j "jq_store q"] started_ok [of ?j "jq_store q"]
    by (auto simp: try_store_def write_store_def durable_def split: option.splits)
  have "map_of (jq_heap (start_job api ok now q)) = (map_of (jq_heap q))(?r \<mapsto> ?j')" "jq_store (start_job api ok now q) = jq_store ?w"
    using i(2,4) by (auto simp: start_job_def Let_def emit_job_def try_store_def write_store_def set_job_def split: option.splits)
  then show ?thesis using d w rec by (auto simp: durable_def run_fits_def settled_def)
qed

lemma durable_dispatch: "queue_ok q \<Longrightarrow> durable C q \<Longrightarrow> durable C (dispatch_jobs api ok now q)"
proof (induction "length (jq_pending q)" arbitrary: q rule: less_induct)
  case less
  show ?case
  proof (cases "can_dispatch q")
    case True
    then have p: "jq_pending q \<noteq> []" by (simp add: can_dispatch_def)
    have "length (jq_pending (start_job api ok now q)) < length (jq_pending q)"
      using p by (simp add: start_job_pending pending_jobs_def)
    from less(1) [OF this start_job_ok [OF less(2) p] durable_start [OF less(2,3) p]] True show ?thesis
      by (simp add: dispatch_jobs.simps [of api ok now q])
  qed (use less in \<open>simp add: dispatch_jobs.simps [of api ok now q]\<close>)
qed

lemma durable_submit:
  assumes d: "durable C q" and f: "fresh_run r q"
  shows "durable C (fst (submit_job h api ok now r rq q))"
proof (cases "fst (submit_job h api ok now r rq q) = q")
  case False
  let ?j = "new_job (fingerprint_of h rq) now rq r"
  obtain q1 where q1: "write_store ok (qs_accepted api ?j) q = Some q1"
    "fst (submit_job h api ok now r rq q) = enqueue_job ?j (forget_job (map_of (jq_jobs q) (rq_key rq)) q1)"
    using False by (auto simp: submit_job_def Let_def split: if_splits option.splits)
  then obtain w where w: "qs_accepted api ?j (jq_store q) = Some w" "q1 = q\<lparr>jq_store := w\<rparr>"
    by (auto simp: write_store_def split: if_splits)
  have jr: "jb_run ?j = r" by (simp add: new_job_def)
  have "jq_heap (enqueue_job ?j (forget_job e q1)) = dict_set r ?j (jq_heap q)"
    "jq_store (enqueue_job ?j (forget_job e q1)) = w" for e
    using jr w(2) by (simp_all add: enqueue_job_def Let_def emit_job_def set_job_def forget_job_def split: option.split)
  moreover have "recorded (jq_store q) r = (False, None)" if "r \<in> C"
    using d that f by (auto simp: durable_def run_fits_def fresh_run_def)
  ultimately show ?thesis
    unfolding q1(2) using d accepted [OF w(1)] accepted_ok [OF w(1)] jr
    by (intro durable_write [of w C r "jq_heap q" "jq_store q" _ ?j]) (auto simp: durable_def run_fits_def settled_def)
qed (use d in simp)

lemma durable_step: "queue_step h api q q' \<Longrightarrow> queue_ok q \<Longrightarrow> durable C q \<Longrightarrow> durable C q'"
proof (induction rule: queue_step.induct)
  case (submit r q ok now rq)
  then show ?case by (intro durable_submit)
next
  case (cancel q oks now k)
  show ?case
  proof (cases "map_of (jq_jobs q) k")
    case (Some r)
    have k: "known q r" by (rule known_key [OF queue_okD(1) [OF cancel(1)] Some])
    have "r \<in> set (jq_pending q)" if "jb_state (job_of q r) = Queued"
      using lists_okD(4) [OF queue_okD(2) [OF cancel(1)], of r] k that by simp
    then show ?thesis using Some cancel durable_cancel_task [OF cancel k] durable_drop_pending [OF cancel, of r]
      by (auto simp: cancel_job_def cancel_pending_drop terminal_iff)
  qed (use cancel in \<open>simp add: cancel_job_def\<close>)
next
  case (clear q oks now client)
  have "distinct (jq_pending q)" using lists_okD(1) [OF queue_okD(2) [OF clear(1)]] .
  then show ?case unfolding clear_jobs_def Let_def cancel_pending_drop
    by (auto intro!: durable_fold_drop [OF clear] simp: pending_jobs_def)
next
  case (wake q oks now)
  have "durable C (q\<lparr>jq_wakeup := False\<rparr>)" using wake(3) by (subst durable_cong [of _ q]) simp_all
  then show ?case using durable_dispatch [OF flags_ok(1) [OF wake(2), of False]] by (simp add: wake_dispatcher_def Let_def)
next
  case (begins q r c)
  note f = running_facts [OF begins(2,1), simplified]
  show ?case unfolding begin_task_def Let_def by (rule durable_running [OF begins(2,3) f(1)]) (use f in simp_all)
next
  case (receipt q r c node disposition)
  note f = running_facts [OF receipt(2,1), simplified]
  show ?case unfolding note_receipt_def Let_def by (rule durable_running [OF receipt(2,3) f(1)]) (use f in simp_all)
next
  case (ends q r c oks now out)
  note f = running_facts [OF ends(2,1), simplified]
  let ?j = "(job_of q r)\<lparr>jb_task := Some TaskEnded, jb_result := outcome_result out\<rparr>"
  have "durable C (set_job ?j q)" by (rule durable_running [OF ends(2,3) f(1)]) (use f in simp_all)
  then have "durable C (finish_job api oks now r (outcome_state out) (outcome_error out) (set_job ?j q))"
    using f by (intro durable_finish [of C _ r ?j]) (simp_all add: heap_set)
  then show ?case unfolding end_job_def Let_def
    by (subst durable_cong [of _ "finish_job api oks now r (outcome_state out) (outcome_error out) (set_job ?j q)"]) simp_all
next
  case (close q oks now)
  let ?q1 = "q\<lparr>jq_closed := True, jq_wakeup := True\<rparr>"
  have q1: "queue_ok ?q1" using flags_ok(1) [OF flags_ok(4) [OF close(1)]] by simp
  have d1: "durable C ?q1" using close(2) by (subst durable_cong [of _ q]) simp_all
  obtain q3 rs where c: "queue_ok q3" "close_queue api oks now q = fold cancel_task rs q3"
    "\<forall>r \<in> set rs. known q3 r \<and> jb_state (job_of q3 r) = Running"
    "q3 = fold (drop_pending api oks now (Some ''server shutting down'')) (jq_pending q) ?q1"
    by (rule close_parts [OF close(1)])
  have "durable C q3" unfolding c(4)
    using lists_okD(1) [OF queue_okD(2) [OF close(1)]] by (intro durable_fold_drop [OF q1 d1]) simp_all
  then show ?case unfolding c(2) by (rule durable_fold_cancel [OF c(1) _ c(3)])
qed (auto simp: pause_def resume_def begin_maintenance_def end_maintenance_def set_max_running_def durable_def)

theorem durable_run:
  assumes "new_queue m l st0 = Some q0" and "store_ok st0" and "queue_run h api q0 q"
  shows "durable {r. recorded st0 r = (False, None)} q"
proof -
  have d0: "durable {r. recorded st0 r = (False, None)} q0"
    using assms(1,2) by (auto simp: new_queue_def durable_def run_fits_def split: if_splits)
  have "queue_ok q \<and> durable {r. recorded st0 r = (False, None)} q"
    using assms(3) unfolding queue_run_def
  proof (induction rule: rtranclp_induct)
    case base
    then show ?case using d0 new_queue_ok [OF assms(1)] by simp
  next
    case (step y z)
    then show ?case using queue_step_ok [OF step(2)] durable_step [OF step(2)] by simp
  qed
  then show ?thesis by simp
qed

end

end
