(* ===== verification/Job_History.thy ===== *)
theory Job_History
  imports Queue_Store Blob_Store
begin

text \<open>
  The durable record of jobs (\<^verbatim>\<open>dinkster_server/history.py\<close> with the cursors of \<^verbatim>\<open>paging.py\<close>): a table
  of accepted jobs, a table of terminal ones, the sweep of what a dead process left behind, and paged
  listing. Every operation is one transaction under the lock of the store. Times are integers, and
  the attempt, which is always the first, is left out; JSON columns hold their values.
\<close>

section \<open>Tables\<close>

datatype record_error = JobFailure string | Interruption bool string "string option"

record history_record =
  hr_run :: string
  hr_scope :: string
  hr_principal :: string
  hr_principal_kind :: string
  hr_client :: string
  hr_job :: string
  hr_state :: string
  hr_priority :: int
  hr_submitted :: int
  hr_started :: "int option"
  hr_finished :: int
  hr_source :: string
  hr_error :: "record_error option"
  hr_executed :: nat
  hr_cached :: nat
  hr_skipped :: nat
  hr_receipts :: "(string \<times> string) list"
  hr_digests :: "string list option"

record accepted_row =
  ar_run :: string
  ar_facts :: job_facts
  ar_key :: job_key
  ar_running :: bool
  ar_priority :: int
  ar_submitted :: int
  ar_started :: "int option"
  ar_fingerprint :: string

record history_db =
  hd_history :: "history_record list"
  hd_accepted :: "accepted_row list"

definition asset_digests :: "string list \<Rightarrow> string list option" where
  "asset_digests raw = (if list_all is_digest raw then Some (remdups (sort raw)) else None)"

definition ended_receipts :: "(string, string) dict \<Rightarrow> (string \<times> string) list" where
  "ended_receipts rs =
     map (\<lambda>n. (n, if map_of rs n = Some ''running'' then ''interrupted'' else the (map_of rs n))) (sort (map fst rs))"

definition record_from_job :: "job \<Rightarrow> history_record option" where
  "record_from_job j =
     (if \<not> terminal_state (jb_state j) then None
      else map_option (\<lambda>ds. \<lparr>hr_run = jb_run j, hr_scope = jf_scope (jb_facts j), hr_principal = jf_principal (jb_facts j),
        hr_principal_kind = jf_principal_kind (jb_facts j), hr_client = client_id (jb_key j), hr_job = job_id (jb_key j),
        hr_state = state_name (jb_state j), hr_priority = jb_priority j, hr_submitted = jb_submitted j,
        hr_started = jb_started j, hr_finished = (case jb_finished j of None \<Rightarrow> 0 | Some t \<Rightarrow> t),
        hr_source = jf_source (jb_facts j), hr_error = map_option JobFailure (jb_error j),
        hr_executed = (case jb_result j of None \<Rightarrow> 0 | Some res \<Rightarrow> rs_executed res),
        hr_cached = (case jb_result j of None \<Rightarrow> 0 | Some res \<Rightarrow> rs_cached res),
        hr_skipped = (case jb_result j of None \<Rightarrow> 0 | Some res \<Rightarrow> rs_skipped res),
        hr_receipts = ended_receipts (jb_receipts j), hr_digests = Some ds\<rparr>)
        (asset_digests (case jb_result j of None \<Rightarrow> [] | Some res \<Rightarrow> rs_digests res)))"

section \<open>Writes\<close>

text \<open>The insertion leaves an existing row in place; \<open>None\<close> is a raise, which rolls back.\<close>

definition put_locked :: "history_record \<Rightarrow> history_db \<Rightarrow> (history_db \<times> bool) option" where
  "put_locked r db =
     (if hr_digests r \<noteq> None \<and> asset_digests (the (hr_digests r)) = None then None
      else if list_ex (\<lambda>x. hr_run x = hr_run r) (hd_history db) then Some (db, False)
      else Some (db\<lparr>hd_history := hd_history db @ [r\<lparr>hr_digests := Option.bind (hr_digests r) asset_digests\<rparr>]\<rparr>, True))"

datatype history_error = EmptyScope | BadAssetReference

definition put_record :: "history_record \<Rightarrow> history_db \<Rightarrow> history_db \<times> (history_error + unit)" where
  "put_record r db =
     (if py_strip (hr_scope r) = [] then (db, Inl EmptyScope)
      else (case put_locked r db of None \<Rightarrow> (db, Inl BadAssetReference) | Some (db', _) \<Rightarrow> (db', Inr ())))"

definition job_accepted :: "job \<Rightarrow> history_db \<Rightarrow> history_db option" where
  "job_accepted j db =
     (if list_ex (\<lambda>a. ar_run a = jb_run j) (hd_accepted db) then None
      else Some (db\<lparr>hd_accepted := hd_accepted db @ [\<lparr>ar_run = jb_run j, ar_facts = jb_facts j, ar_key = jb_key j,
        ar_running = False, ar_priority = jb_priority j, ar_submitted = jb_submitted j, ar_started = None,
        ar_fingerprint = jb_fingerprint j\<rparr>]\<rparr>))"

definition job_started :: "job \<Rightarrow> history_db \<Rightarrow> history_db option" where
  "job_started j db =
     Some (db\<lparr>hd_accepted := map (\<lambda>a. if ar_run a = jb_run j then a\<lparr>ar_running := True, ar_started := jb_started j\<rparr> else a)
       (hd_accepted db)\<rparr>)"

definition drop_accepted :: "string \<Rightarrow> history_db \<Rightarrow> history_db" where
  "drop_accepted r db = db\<lparr>hd_accepted := filter (\<lambda>a. ar_run a \<noteq> r) (hd_accepted db)\<rparr>"

definition job_terminal :: "job \<Rightarrow> history_db \<Rightarrow> history_db option" where
  "job_terminal j db =
     Option.bind (record_from_job j) (\<lambda>r.
       map_option (\<lambda>(db', _). drop_accepted (hr_run r) db') (put_locked r db))"

definition history_api :: "history_db queue_store" where
  "history_api = \<lparr>qs_accepted = job_accepted, qs_started = job_started, qs_terminal = job_terminal\<rparr>"

definition interrupted_record :: "int \<Rightarrow> accepted_row \<Rightarrow> history_record" where
  "interrupted_record now a = \<lparr>hr_run = ar_run a, hr_scope = jf_scope (ar_facts a), hr_principal = jf_principal (ar_facts a),
     hr_principal_kind = jf_principal_kind (ar_facts a), hr_client = client_id (ar_key a), hr_job = job_id (ar_key a),
     hr_state = ''interrupted'', hr_priority = ar_priority a, hr_submitted = ar_submitted a, hr_started = ar_started a,
     hr_finished = now, hr_source = jf_source (ar_facts a),
     hr_error = Some (Interruption (ar_running a) (ar_fingerprint a)
       (if jf_execution (ar_facts a) = [] then None else Some (jf_execution (ar_facts a)))),
     hr_executed = 0, hr_cached = 0, hr_skipped = 0, hr_receipts = [], hr_digests = None\<rparr>"

definition recover_one :: "int \<Rightarrow> accepted_row \<Rightarrow> history_db \<times> history_record list \<Rightarrow> history_db \<times> history_record list" where
  "recover_one now a = (\<lambda>(db, rs).
     (case put_locked (interrupted_record now a) db of
        Some (db', True) \<Rightarrow> (db', rs @ [interrupted_record now a])
      | _ \<Rightarrow> (db, rs)))"

definition recover_interrupted :: "int \<Rightarrow> history_db \<Rightarrow> history_db \<times> history_record list" where
  "recover_interrupted now db =
     (let (db', rs) = fold (recover_one now) (sort_key ar_submitted (hd_accepted db)) (db, []) in
      (db'\<lparr>hd_accepted := []\<rparr>, rs))"

section \<open>Reads and deletion\<close>

definition get_record :: "string \<Rightarrow> string \<Rightarrow> history_db \<Rightarrow> history_record option" where
  "get_record scope run db = find (\<lambda>r. hr_run r = run \<and> hr_scope r = scope) (hd_history db)"

definition delete_record :: "string \<Rightarrow> string \<Rightarrow> history_db \<Rightarrow> history_db \<times> bool" where
  "delete_record scope run db =
     (let keep = filter (\<lambda>r. \<not> (hr_run r = run \<and> hr_scope r = scope)) (hd_history db) in
      (db\<lparr>hd_history := keep\<rparr>, length keep < length (hd_history db)))"

record history_filter =
  hf_client :: string
  hf_source :: string
  hf_state :: string

definition filter_clauses :: "string \<Rightarrow> history_filter \<Rightarrow> history_record \<Rightarrow> bool" where
  "filter_clauses scope f r \<longleftrightarrow> hr_scope r = scope \<and> (hf_client f = [] \<or> hr_client r = hf_client f) \<and>
     (hf_source f = [] \<or> hr_source r = hf_source f) \<and> (hf_state f = [] \<or> hr_state r = hf_state f)"

definition delete_where :: "string \<Rightarrow> history_filter \<Rightarrow> int option \<Rightarrow> history_db \<Rightarrow> history_db \<times> (history_error + nat)" where
  "delete_where scope f before db =
     (if py_strip scope = [] then (db, Inl EmptyScope)
      else
        (let hit = (\<lambda>r. filter_clauses scope f r \<and> (case before of None \<Rightarrow> True | Some t \<Rightarrow> hr_finished r < t)) in
         (db\<lparr>hd_history := filter (\<lambda>r. \<not> hit r) (hd_history db)\<rparr>, Inr (length (filter hit (hd_history db))))))"

definition record_pos :: "history_record \<Rightarrow> int \<times> string" where
  "record_pos r = (hr_finished r, hr_run r)"

definition after_clause :: "(int \<times> string) option \<Rightarrow> history_record \<Rightarrow> bool" where
  "after_clause after r =
     (case after of
        None \<Rightarrow> True
      | Some (t, i) \<Rightarrow> hr_finished r < t \<or> hr_finished r = t \<and> hr_run r < i)"

definition query_history :: "string \<Rightarrow> history_filter \<Rightarrow> int \<Rightarrow> (int \<times> string) option \<Rightarrow> history_db \<Rightarrow> history_record list" where
  "query_history scope f limit after db =
     take (nat (max 1 limit))
       (rev (sort_key record_pos (filter (\<lambda>r. filter_clauses scope f r \<and> after_clause after r) (hd_history db))))"

text \<open>
  A cursor carries the query that it continues and a position; a text that is no cursor is \<open>None\<close>.
\<close>

type_synonym cursor = "(string \<times> history_filter) \<times> (int \<times> string)"

datatype page_error = MalformedCursor | OtherQuery

definition decode_cursor :: "cursor option \<Rightarrow> string \<times> history_filter \<Rightarrow> page_error + int \<times> string" where
  "decode_cursor cur bound =
     (case cur of
        None \<Rightarrow> Inl MalformedCursor
      | Some (b, after) \<Rightarrow> if b = bound then Inr after else Inl OtherQuery)"

text \<open>One page: the scope is one the principal may read, and no cursor means the first page.\<close>

definition list_page :: "bool \<Rightarrow> string \<Rightarrow> history_filter \<Rightarrow> int \<Rightarrow> cursor option option \<Rightarrow> history_db \<Rightarrow>
    page_error + (history_record list \<times> cursor option)" where
  "list_page allowed scope f raw_limit cur db =
     (let limit = min 200 (max 1 raw_limit); bound = (scope, f) in
      and_then (case cur of None \<Rightarrow> Inr None | Some c \<Rightarrow> and_then (decode_cursor c bound) (\<lambda>a. Inr (Some a))) (\<lambda>after.
        let rs = (if allowed then query_history scope f (limit + 1) after db else []) in
        Inr (take (nat limit) rs,
          if nat limit < length rs then Some (bound, record_pos (rs ! (nat limit - 1))) else None)))"

text \<open>The references that hold assets: every row must say which it names.\<close>

definition hold_asset_references :: "history_db \<Rightarrow> string set option" where
  "hold_asset_references db =
     (let sources = filter (\<lambda>s. s \<noteq> []) (map hr_source (hd_history db) @ map (jf_source \<circ> ar_facts) (hd_accepted db)) in
      if \<not> list_all is_digest sources \<or> list_ex (\<lambda>r. Option.bind (hr_digests r) asset_digests = None) (hd_history db) then None
      else Some (set sources \<union> (\<Union>r \<in> set (hd_history db). set (the (hr_digests r)))))"


section \<open>What the tables record of a run\<close>

definition accepted_run :: "history_db \<Rightarrow> string \<Rightarrow> bool" where
  "accepted_run db r = list_ex (\<lambda>a. ar_run a = r) (hd_accepted db)"

definition ended_state :: "history_db \<Rightarrow> string \<Rightarrow> string option" where
  "ended_state db r = map_option hr_state (find (\<lambda>x. hr_run x = r) (hd_history db))"

definition recorded_in :: "history_db \<Rightarrow> string \<Rightarrow> bool \<times> string option" where
  "recorded_in db r = (accepted_run db r, ended_state db r)"

definition db_ok :: "history_db \<Rightarrow> bool" where
  "db_ok db \<longleftrightarrow> distinct (map hr_run (hd_history db)) \<and> distinct (map ar_run (hd_accepted db)) \<and>
     (\<forall>r \<in> set (hd_history db). hr_digests r \<noteq> None \<longrightarrow> asset_digests (the (hr_digests r)) = hr_digests r)"

lemma ended_state_None: "ended_state db r = None \<longleftrightarrow> r \<notin> hr_run ` set (hd_history db)"
  by (auto simp: ended_state_def find_None_iff image_iff)

lemma accepted_run_map: "accepted_run db r \<longleftrightarrow> r \<in> set (map ar_run (hd_accepted db))"
  by (auto simp: accepted_run_def list_ex_iff image_iff)

lemma accepted_run_iff: "accepted_run db r \<longleftrightarrow> r \<in> ar_run ` set (hd_accepted db)"
  by (auto simp: accepted_run_def list_ex_iff image_iff)

lemma asset_digests_idem: "asset_digests ds = Some es \<Longrightarrow> asset_digests es = Some es"
  by (auto simp: asset_digests_def list_all_iff split: if_splits intro: distinct_remdups_id
      simp: sorted_remdups sort_key_id_if_sorted)

lemma put_locked_facts:
  assumes "put_locked r db = Some (db', new)"
  shows "hd_accepted db' = hd_accepted db" and "new \<longleftrightarrow> hr_run r \<notin> hr_run ` set (hd_history db)"
    and "ended_state db' = (ended_state db)(hr_run r := (case ended_state db (hr_run r) of None \<Rightarrow> Some (hr_state r) | Some s \<Rightarrow> Some s))"
    and "db_ok db \<Longrightarrow> db_ok db'"
    and "hd_history db' = hd_history db @ (if new then [r\<lparr>hr_digests := Option.bind (hr_digests r) asset_digests\<rparr>] else [])"
proof -
  let ?r = "r\<lparr>hr_digests := Option.bind (hr_digests r) asset_digests\<rparr>"
  have ex: "list_ex (\<lambda>x. hr_run x = hr_run r) (hd_history db) \<longleftrightarrow> hr_run r \<in> hr_run ` set (hd_history db)"
    unfolding list_ex_iff image_iff by metis
  have d: "hr_digests r \<noteq> None \<longrightarrow> asset_digests (the (hr_digests r)) \<noteq> None" using assms by (auto simp: put_locked_def split: if_splits)
  show a: "hd_accepted db' = hd_accepted db" and n: "new \<longleftrightarrow> hr_run r \<notin> hr_run ` set (hd_history db)"
    and h: "hd_history db' = hd_history db @ (if new then [?r] else [])"
    using assms ex by (auto simp: put_locked_def split: if_splits)
  show "ended_state db' = (ended_state db)(hr_run r := (case ended_state db (hr_run r) of None \<Rightarrow> Some (hr_state r) | Some s \<Rightarrow> Some s))"
  proof
    fix x
    show "ended_state db' x = ((ended_state db)(hr_run r := (case ended_state db (hr_run r) of None \<Rightarrow> Some (hr_state r) | Some s \<Rightarrow> Some s))) x"
      using ended_state_None [of db "hr_run r"] n
      by (auto simp: ended_state_def h find_append split: option.splits)
  qed
  have "hr_digests ?r \<noteq> None \<longrightarrow> asset_digests (the (hr_digests ?r)) = hr_digests ?r"
    using d asset_digests_idem by (cases "hr_digests r") auto
  then show "db_ok db \<Longrightarrow> db_ok db'" using n by (auto simp: db_ok_def a h)
qed

lemma record_from_job_facts:
  assumes "record_from_job j = Some r"
  shows "terminal_state (jb_state j)" "hr_run r = jb_run j" "hr_state r = state_name (jb_state j)"
  using assms by (auto simp: record_from_job_def split: if_splits)

lemma started_runs [simp]:
  "map ar_run (map (\<lambda>a. if ar_run a = x then a\<lparr>ar_running := True, ar_started := y\<rparr> else a) as) = map ar_run as"
  by (induction as) simp_all

lemma accepted_run_started: "accepted_run (db\<lparr>hd_accepted :=
    map (\<lambda>a. if ar_run a = x then a\<lparr>ar_running := True, ar_started := y\<rparr> else a) (hd_accepted db)\<rparr>) = accepted_run db"
proof
  fix r
  have "accepted_run (db\<lparr>hd_accepted := as\<rparr>) r \<longleftrightarrow> r \<in> set (map ar_run as)" for as by (simp add: accepted_run_iff)
  then show "accepted_run (db\<lparr>hd_accepted := map (\<lambda>a. if ar_run a = x then a\<lparr>ar_running := True, ar_started := y\<rparr> else a)
      (hd_accepted db)\<rparr>) r = accepted_run db r" by (simp only: started_runs accepted_run_map)
qed

lemma db_ok_accepted: "map ar_run as = map ar_run (hd_accepted db) \<Longrightarrow> db_ok (db\<lparr>hd_accepted := as\<rparr>) = db_ok db"
  by (simp add: db_ok_def)

interpretation hist: job_store history_api recorded_in db_ok
proof (unfold_locales, goal_cases)
  case (1 j db db')
  then show ?case
    by (auto simp: history_api_def job_accepted_def recorded_in_def accepted_run_def ended_state_def fun_eq_iff split: if_splits)
next
  case (2 j db db')
  then show ?case
    by (auto simp: history_api_def job_started_def recorded_in_def accepted_run_started ended_state_def)
next
  case (3 j db db')
  then obtain r db1 new where p: "record_from_job j = Some r" "put_locked r db = Some (db1, new)" "db' = drop_accepted (hr_run r) db1"
    by (auto simp: history_api_def job_terminal_def bind_eq_Some_conv)
  note f = put_locked_facts [OF p(2)] and g = record_from_job_facts [OF p(1)]
  have "ended_state db' = ended_state db1" by (simp add: p(3) drop_accepted_def ended_state_def fun_eq_iff)
  moreover have "accepted_run db' x \<longleftrightarrow> x \<noteq> jb_run j \<and> accepted_run db x" for x
    by (auto simp: p(3) drop_accepted_def accepted_run_iff f(1) g(2) image_iff)
  ultimately show ?case using f(3) g(2,3) by (simp add: recorded_in_def fun_eq_iff split: option.split)
next
  case (4 j db db')
  then show ?case using record_from_job_facts(1) [of j] by (auto simp: history_api_def job_terminal_def bind_eq_Some_conv)
next
  case (5 j db db')
  then show ?case by (auto simp: history_api_def job_accepted_def db_ok_def list_ex_iff split: if_splits) blast
next
  case (6 j db db')
  then have "db' = db\<lparr>hd_accepted := map (\<lambda>a. if ar_run a = jb_run j then a\<lparr>ar_running := True, ar_started := jb_started j\<rparr> else a)
      (hd_accepted db)\<rparr>" by (simp add: history_api_def job_started_def)
  then show ?case using db_ok_accepted [OF started_runs] 6(2) by blast
next
  case (7 j db db')
  then obtain r db1 new where p: "put_locked r db = Some (db1, new)" "db' = drop_accepted (hr_run r) db1"
    by (auto simp: history_api_def job_terminal_def bind_eq_Some_conv)
  have "db_ok db1" by (rule put_locked_facts(4) [OF p(1) 7(2)])
  then show ?case by (auto simp: p(2) drop_accepted_def db_ok_def intro: distinct_filter simp: distinct_map_filter)
qed


section \<open>Recovery\<close>

lemma distinct_map_sort: "distinct (map f (sort_key k xs)) = distinct (map f xs)"
  by (simp add: distinct_map)

lemma put_interrupted:
  "put_locked (interrupted_record now a) db =
     (if ended_state db (ar_run a) = None
      then Some (db\<lparr>hd_history := hd_history db @ [interrupted_record now a]\<rparr>, True) else Some (db, False))"
proof -
  have "list_ex (\<lambda>x. hr_run x = ar_run a) (hd_history db) \<longleftrightarrow> ended_state db (ar_run a) \<noteq> None"
    unfolding list_ex_iff ended_state_None image_iff by (metis (full_types))
  then show ?thesis by (simp add: put_locked_def interrupted_record_def)
qed

lemma recover_fold:
  assumes "distinct (map ar_run as)"
  shows "fold (recover_one now) as (db, rs) =
    (db\<lparr>hd_history := hd_history db @ map (interrupted_record now) (filter (\<lambda>a. ended_state db (ar_run a) = None) as)\<rparr>,
     rs @ map (interrupted_record now) (filter (\<lambda>a. ended_state db (ar_run a) = None) as))"
  using assms
proof (induction as arbitrary: db rs)
  case (Cons a as)
  show ?case
  proof (cases "ended_state db (ar_run a)")
    case None
    let ?db = "db\<lparr>hd_history := hd_history db @ [interrupted_record now a]\<rparr>"
    have "ended_state ?db (ar_run b) = None \<longleftrightarrow> ended_state db (ar_run b) = None" if "b \<in> set as" for b
      using Cons.prems that by (auto simp: ended_state_def find_append interrupted_record_def split: option.split)
    then have "filter (\<lambda>b. ended_state ?db (ar_run b) = None) as = filter (\<lambda>b. ended_state db (ar_run b) = None) as"
      by (intro filter_cong) simp_all
    with None Cons.IH [of ?db "rs @ [interrupted_record now a]"] Cons.prems show ?thesis
      by (simp add: recover_one_def put_interrupted)
  next
    case (Some s)
    with Cons.IH [of db rs] Cons.prems show ?thesis by (simp add: recover_one_def put_interrupted)
  qed
qed simp

text \<open>The sweep in one expression.\<close>

definition left_behind :: "history_db \<Rightarrow> accepted_row list" where
  "left_behind db = filter (\<lambda>a. ended_state db (ar_run a) = None) (sort_key ar_submitted (hd_accepted db))"

lemma recover_eq:
  assumes "distinct (map ar_run (hd_accepted db))"
  shows "recover_interrupted now db =
    (db\<lparr>hd_history := hd_history db @ map (interrupted_record now) (left_behind db), hd_accepted := []\<rparr>,
     map (interrupted_record now) (left_behind db))"
proof -
  have "distinct (map ar_run (sort_key ar_submitted (hd_accepted db)))"
    using assms by (simp only: distinct_map_sort)
  from recover_fold [OF this] show ?thesis by (simp add: recover_interrupted_def left_behind_def)
qed

lemma left_behind_run: "r \<in> ar_run ` set (left_behind db) \<longleftrightarrow> accepted_run db r \<and> ended_state db r = None"
  by (auto simp: left_behind_def accepted_run_iff)

lemma recover_recorded:
  assumes "db_ok db"
  shows "recorded_in (fst (recover_interrupted now db)) r =
    (False, case ended_state db r of Some s \<Rightarrow> Some s | None \<Rightarrow> if accepted_run db r then Some ''interrupted'' else None)"
proof -
  have d: "distinct (map ar_run (hd_accepted db))" using assms by (simp add: db_ok_def)
  have "find (\<lambda>x. hr_run x = r) (map (interrupted_record now) as) =
      (if r \<in> ar_run ` set as then Some (interrupted_record now (the (find (\<lambda>a. ar_run a = r) as))) else None)" for as
    by (induction as) (auto simp: interrupted_record_def)
  then show ?thesis
    using left_behind_run [of r db]
    by (auto simp: recover_eq [OF d] recorded_in_def accepted_run_iff ended_state_def find_append interrupted_record_def split: option.split)
qed

lemma recover_ok:
  assumes "db_ok db"
  shows "db_ok (fst (recover_interrupted now db))"
proof -
  have d: "distinct (map ar_run (hd_accepted db))" using assms by (simp add: db_ok_def)
  have m: "map hr_run (map (interrupted_record now) as) = map ar_run as" for as by (induction as) (simp_all add: interrupted_record_def)
  have "distinct (map ar_run (left_behind db))"
    unfolding left_behind_def using d by (intro distinct_map_filter) (simp only: distinct_map_sort)
  moreover have "set (map hr_run (hd_history db)) \<inter> ar_run ` set (left_behind db) = {}"
    using left_behind_run [of _ db] ended_state_None [of db] by auto
  moreover have "hr_digests (interrupted_record now a) = None" for a by (simp add: interrupted_record_def)
  ultimately show ?thesis using assms by (auto simp: recover_eq [OF d] db_ok_def m simp del: map_map)
qed


section \<open>Paging\<close>

definition matching :: "string \<Rightarrow> history_filter \<Rightarrow> history_db \<Rightarrow> history_record list" where
  "matching scope f db = rev (sort_key record_pos (filter (filter_clauses scope f) (hd_history db)))"

lemma matching_set [simp]: "set (matching scope f db) = {r \<in> set (hd_history db). filter_clauses scope f r}"
  by (auto simp: matching_def)

lemma length_matching: "length (matching scope f db) = length (filter (filter_clauses scope f) (hd_history db))"
  by (simp add: matching_def)

lemma matching_desc:
  assumes "db_ok db"
  shows "sorted_wrt (\<lambda>a b. record_pos b < record_pos a) (matching scope f db)" "distinct (matching scope f db)"
proof -
  let ?xs = "filter (filter_clauses scope f) (hd_history db)"
  have "distinct (map hr_run ?xs)" using assms by (auto simp: db_ok_def intro: distinct_map_filter)
  then have "distinct (map record_pos (sort_key record_pos ?xs))"
    unfolding distinct_map_sort by (auto simp: distinct_map inj_on_def record_pos_def)
  then have d: "sorted_wrt (<) (map record_pos (sort_key record_pos ?xs))" by (simp add: strict_sorted_iff)
  then show "sorted_wrt (\<lambda>a b. record_pos b < record_pos a) (matching scope f db)"
    by (simp add: matching_def sorted_wrt_rev sorted_wrt_map)
  have "distinct (hd_history db)" using assms by (simp add: db_ok_def distinct_map)
  then show "distinct (matching scope f db)" by (simp add: matching_def)
qed

lemma after_clause_pos: "after_clause (Some p) = (\<lambda>r. record_pos r < p)"
  by (cases p) (auto simp: after_clause_def record_pos_def less_prod_def fun_eq_iff)

lemma filter_below:
  "sorted_wrt (\<lambda>a b. f b < f a) xs \<Longrightarrow> k < length xs \<Longrightarrow> filter (\<lambda>x. f x < f (xs ! k)) xs = drop (Suc k) xs"
  for f :: "'a \<Rightarrow> 'b :: linorder"
proof (induction xs arbitrary: k)
  case (Cons x xs)
  show ?case
  proof (cases k)
    case 0
    then show ?thesis using Cons.prems by (auto simp: filter_id_conv)
  next
    case (Suc l)
    have l: "l < length xs" using Cons.prems(2) Suc by simp
    then have "f (xs ! l) < f x" using Cons.prems(1) nth_mem [OF l] by simp
    then have x: "\<not> f x < f (xs ! l)" by (simp only: not_less order.strict_implies_order)
    have "sorted_wrt (\<lambda>a b. f b < f a) xs" using Cons.prems(1) by simp
    then have "filter (\<lambda>y. f y < f (xs ! l)) xs = drop (Suc l) xs" using l by (rule Cons.IH)
    with x show ?thesis by (simp only: Suc nth_Cons_Suc filter.simps if_False drop_Suc_Cons)
  qed
qed simp

text \<open>The position behind the first records of the listing.\<close>

definition cursor_at :: "string \<Rightarrow> history_filter \<Rightarrow> history_db \<Rightarrow> nat \<Rightarrow> cursor option option" where
  "cursor_at scope f db k =
     (if k = 0 then None else Some (Some ((scope, f), record_pos (matching scope f db ! (k - 1)))))"

lemma query_after:
  assumes "db_ok db" and "k \<le> length (matching scope f db)" and "0 < limit"
    and "after = (if k = 0 then None else Some (record_pos (matching scope f db ! (k - 1))))"
  shows "query_history scope f limit after db = take (nat limit) (drop k (matching scope f db))"
proof -
  have "query_history scope f limit after db =
      take (nat limit) (filter (after_clause after) (matching scope f db))"
    using assms(3) by (simp add: query_history_def matching_def rev_filter [symmetric] filter_sort conj_commute)
  moreover have "filter (after_clause after) (matching scope f db) = drop k (matching scope f db)"
  proof (cases k)
    case 0
    then show ?thesis using assms(4) by (simp add: after_clause_def)
  next
    case (Suc l)
    then show ?thesis
      using filter_below [OF matching_desc(1) [OF assms(1)], of l scope f] assms(2,4)
      by (simp add: after_clause_pos)
  qed
  ultimately show ?thesis by simp
qed

lemma page_at:
  fixes db :: history_db
  assumes ok: "db_ok db" and k: "k \<le> length (matching scope f db)" and L: "L = nat (min 200 (max 1 raw))"
  shows "list_page True scope f raw (cursor_at scope f db k) db =
    Inr (take L (drop k (matching scope f db)),
      if k + L < length (matching scope f db) then the (cursor_at scope f db (k + L)) else None)"
proof -
  let ?S = "matching scope f db" and ?after = "if k = 0 then None else Some (record_pos (matching scope f db ! (k - 1)))"
  let ?rs = "take (Suc L) (drop k ?S)"
  have L1: "0 < L" "nat (min 200 (max 1 raw) + 1) = Suc L" using L by auto
  have q: "query_history scope f (min 200 (max 1 raw) + 1) ?after db = ?rs"
    using query_after [OF ok k _ refl, of "min 200 (max 1 raw) + 1"] L1 by (simp add: max_def min_def)
  have a: "(case cursor_at scope f db k of None \<Rightarrow> Inr None
      | Some c \<Rightarrow> and_then (decode_cursor c (scope, f)) (\<lambda>a. Inr (Some a))) = Inr ?after"
    by (simp add: cursor_at_def decode_cursor_def)
  have n: "L < length ?rs \<longleftrightarrow> k + L < length ?S" using k by auto
  have "?rs ! (L - 1) = ?S ! (k + L - 1)" if "k + L < length ?S" using that L1(1) by (simp add: add_diff_assoc2)
  then have c: "(if L < length ?rs then Some ((scope, f), record_pos (?rs ! (L - 1))) else None) =
      (if k + L < length ?S then the (cursor_at scope f db (k + L)) else None)"
    using n L1(1) by (auto simp: cursor_at_def)
  have t: "take L ?rs = take L (drop k ?S)" by (simp add: min_def)
  show ?thesis unfolding list_page_def Let_def a and_then_simps q if_True L [symmetric] c t ..
qed

text \<open>A client that follows the cursors.\<close>

fun read_pages :: "nat \<Rightarrow> (cursor option option \<Rightarrow> page_error + (history_record list \<times> cursor option)) \<Rightarrow>
    cursor option option \<Rightarrow> history_record list option" where
  "read_pages 0 page cur = None"
| "read_pages (Suc n) page cur =
     (case page cur of
        Inl _ \<Rightarrow> None
      | Inr (rs, None) \<Rightarrow> Some rs
      | Inr (rs, Some c) \<Rightarrow> map_option ((@) rs) (read_pages n page (Some (Some c))))"

lemma read_pages_at:
  assumes ok: "db_ok db"
  shows "k \<le> length (matching scope f db) \<Longrightarrow> length (matching scope f db) - k < n \<Longrightarrow>
    read_pages n (\<lambda>cur. list_page True scope f raw cur db) (cursor_at scope f db k) = Some (drop k (matching scope f db))"
proof (induction n arbitrary: k)
  case (Suc n)
  let ?S = "matching scope f db"
  define L where "L = nat (min 200 (max 1 raw))"
  have L: "0 < L" by (simp add: L_def)
  note p = page_at [OF ok Suc.prems(1) L_def]
  show ?case
  proof (cases "k + L < length ?S")
    case True
    then obtain c where c: "cursor_at scope f db (k + L) = Some (Some c)" using L by (simp add: cursor_at_def)
    have "read_pages n (\<lambda>cur. list_page True scope f raw cur db) (cursor_at scope f db (k + L)) = Some (drop (k + L) ?S)"
      using Suc True L by simp
    moreover have "take L (drop k ?S) @ drop (k + L) ?S = drop k ?S"
      by (metis append_take_drop_id drop_drop add.commute)
    ultimately show ?thesis using p True c by simp
  qed (use p in simp)
qed simp

section \<open>Properties\<close>

lemma one_of_distinct: "r \<in> set (map f xs) \<Longrightarrow> distinct (map f xs) \<Longrightarrow> length (filter (\<lambda>x. f x = r) xs) = 1"
  by (induction xs) (auto simp: filter_empty_conv rev_image_eqI)

text \<open>
  C9: Accepted work is durable, and nothing is executed twice: in every reachable state of a queue
  over this store, each run that was acknowledged is noted as accepted, or has ended and is recorded
  with the state in which it ended. Should the process die here, the sweep leaves exactly one record
  of the run, interrupted if it was still noted as accepted, and no run is accepted any more.
\<close>
theorem accepted_work_is_durable:
  assumes "new_queue m l db0 = Some q0" and "db_ok db0" and "queue_run h history_api q0 q"
    and "map_of (jq_heap q) r = Some j" and "recorded_in db0 r = (False, None)"
  shows "(recorded_in (jq_store q) r = (True, None) \<or>
      terminal_state (jb_state j) \<and> recorded_in (jq_store q) r = (False, Some (state_name (jb_state j)))) \<and>
    recorded_in (fst (recover_interrupted now (jq_store q))) r =
      (False, Some (if fst (recorded_in (jq_store q) r) then ''interrupted'' else state_name (jb_state j))) \<and>
    length (filter (\<lambda>x. hr_run x = r) (hd_history (fst (recover_interrupted now (jq_store q))))) = 1 \<and>
    hd_accepted (fst (recover_interrupted now (jq_store q))) = []"
proof -
  let ?db = "jq_store q" and ?db' = "fst (recover_interrupted now (jq_store q))"
  have d: "db_ok ?db" "settled j (recorded_in ?db r)"
    using hist.durable_run [OF assms(1-3)] assms(4,5) by (auto simp: hist.durable_def run_fits_def)
  note rec = recover_recorded [OF d(1), of now r]
  have s: "recorded_in ?db r = (True, None) \<or>
      terminal_state (jb_state j) \<and> recorded_in ?db r = (False, Some (state_name (jb_state j)))"
    using d(2) by (simp add: settled_def)
  then have rec': "recorded_in ?db' r = (False, Some (if fst (recorded_in ?db r) then ''interrupted'' else state_name (jb_state j)))"
    using rec by (auto simp: recorded_in_def split: option.splits)
  then have "r \<in> set (map hr_run (hd_history ?db'))" using ended_state_None [of ?db' r] by (auto simp: recorded_in_def)
  moreover have "distinct (map hr_run (hd_history ?db'))" using recover_ok [OF d(1)] by (simp add: db_ok_def)
  ultimately have "length (filter (\<lambda>x. hr_run x = r) (hd_history ?db')) = 1" by (rule one_of_distinct)
  moreover have "hd_accepted ?db' = []" using recover_eq [of ?db now] d(1) by (simp add: db_ok_def)
  ultimately show ?thesis using s rec' by blast
qed

text \<open>
  C11: Listing follows the cursors to the end without an error and yields each record of the scope
  that passes the filters exactly once, the last finished first; clearing with the same filters
  deletes just these records and counts them.
\<close>
theorem listing_is_exact:
  assumes "db_ok db" and "py_strip scope \<noteq> []"
  shows "\<exists>rs. read_pages (Suc (length (hd_history db))) (\<lambda>cur. list_page True scope f limit cur db) None = Some rs \<and>
    distinct rs \<and> set rs = {r \<in> set (hd_history db). filter_clauses scope f r} \<and>
    sorted_wrt (\<lambda>a b. hr_finished b < hr_finished a \<or> hr_finished b = hr_finished a \<and> hr_run b < hr_run a) rs \<and>
    delete_where scope f None db = (db\<lparr>hd_history := filter (\<lambda>r. r \<notin> set rs) (hd_history db)\<rparr>, Inr (length rs))"
proof (intro exI conjI)
  let ?S = "matching scope f db"
  have "length ?S \<le> length (hd_history db)" by (simp add: length_matching)
  then show "read_pages (Suc (length (hd_history db))) (\<lambda>cur. list_page True scope f limit cur db) None = Some ?S"
    using read_pages_at [OF assms(1), of 0 scope f "Suc (length (hd_history db))" limit] by (simp add: cursor_at_def)
  show "distinct ?S" by (rule matching_desc(2) [OF assms(1)])
  show "sorted_wrt (\<lambda>a b. hr_finished b < hr_finished a \<or> hr_finished b = hr_finished a \<and> hr_run b < hr_run a) ?S"
    by (rule sorted_wrt_mono_rel [OF _ matching_desc(1) [OF assms(1)]]) (auto simp: record_pos_def less_prod_def)
  show "delete_where scope f None db = (db\<lparr>hd_history := filter (\<lambda>r. r \<notin> set ?S) (hd_history db)\<rparr>, Inr (length ?S))"
    using assms(2) by (auto simp: delete_where_def Let_def length_matching cong: filter_cong)
qed simp


text \<open>An example: a queue over an empty store, with one accepted job; and two records to list.\<close>

definition no_rows :: history_db where "no_rows = \<lparr>hd_history = [], hd_accepted = []\<rparr>"
definition hq0 :: "history_db queue" where "hq0 = the (new_queue 1 2 no_rows)"
definition hq1 :: "history_db queue" where "hq1 = fst (submit_job id history_api True 1 ''r1'' (some_request ''a'' 0) hq0)"

theorem accepted_work_is_durable_witness:
  "recorded_in (fst (recover_interrupted 9 (jq_store hq1))) ''r1'' = (False, Some ''interrupted'')"
proof -
  have n: "new_queue 1 2 no_rows = Some hq0" by (simp add: hq0_def new_queue_def)
  have ok: "db_ok no_rows" by (simp add: db_ok_def no_rows_def)
  have "queue_step id history_api hq0 hq1" unfolding hq1_def by (rule queue_step.submit) code_simp
  then have r: "queue_run id history_api hq0 hq1" by (simp add: queue_run_def)
  have c: "recorded_in no_rows ''r1'' = (False, None)" "fst (recorded_in (jq_store hq1) ''r1'')"
    "map_of (jq_heap hq1) ''r1'' = Some (job_of hq1 ''r1'')" by code_simp+
  from accepted_work_is_durable [OF n ok r c(3,1), of 9] c(2) show ?thesis by simp
qed

definition two_records :: history_db where
  "two_records = fst (recover_interrupted 7 (the (job_accepted
     (new_job ''fp'' 2 (some_request ''b'' 0) ''r2'') (the (job_accepted (new_job ''fp'' 1 (some_request ''a'' 0) ''r1'') no_rows)))))"

theorem listing_is_exact_witness:
  "\<exists>rs. read_pages 3 (\<lambda>cur. list_page True ''local'' \<lparr>hf_client = ''c'', hf_source = [], hf_state = []\<rparr> 1 cur two_records) None = Some rs \<and>
     set rs = set (hd_history two_records)"
proof -
  let ?f = "\<lparr>hf_client = ''c'', hf_source = [], hf_state = []\<rparr>"
  have d: "map hr_run (hd_history two_records) = [''r1'', ''r2'']" "hd_accepted two_records = []"
    "map hr_digests (hd_history two_records) = [None, None]" by code_simp+
  have l: "length (hd_history two_records) = 2" using arg_cong [OF d(1), of length] by simp
  have "\<forall>x \<in> set (map hr_digests (hd_history two_records)). x = None" by (simp only: d) simp
  then have ok: "db_ok two_records" using d by (auto simp: db_ok_def)
  have "list_all (filter_clauses ''local'' ?f) (hd_history two_records)" "py_strip ''local'' \<noteq> []" by code_simp+
  with listing_is_exact [OF ok this(2), of ?f 1] show ?thesis by (auto simp: l list_all_iff numeral_3_eq_3)
qed

end
