(* ===== verification/Memory_Cache.thy ===== *)
theory Memory_Cache
  imports Values Governor
begin

text \<open>
  The in-memory LRU cache (\<^verbatim>\<open>dinkster_caches/memory.py\<close>). Its mutation lock is held across the
  calls of the persistence handler; what may run while such a call is suspended (lookups,
  invalidation, clearing) and how the call ends are given by \<open>mc_calls\<close>, one item per call.
\<close>

section \<open>Costs\<close>

definition declared_cost :: "string \<Rightarrow> val \<Rightarrow> int" where
  "declared_cost device v =
     (if meta_get v resource_id_key \<noteq> PNone then 0
      else case meta_get v cost_key of
        PDict costs \<Rightarrow>
          (case map_of costs (PStr device) of
             Some (PInt n) \<Rightarrow> if 0 < n then n else 0
           | _ \<Rightarrow> 0)
      | _ \<Rightarrow> 0)"

definition add_cost :: "string \<Rightarrow> val \<Rightarrow> (nat, int) dict \<Rightarrow> (nat, int) dict" where
  "add_cost device v costs =
     (let n = declared_cost device v in
      if 0 < n then dict_set (v_payload v) (max (dict_get_default costs (v_payload v) 0) n) costs
      else costs)"

definition values_cost :: "val list \<Rightarrow> string \<Rightarrow> int" where
  "values_cost vs device =
     sum_list (map snd (fold (add_cost device) (concat (map iter_value_tree vs)) []))"

text \<open>The outputs of an entry; \<open>en_id\<close> is its identity as an object.\<close>

record entry =
  en_id :: nat
  en_outputs :: "(string, val) dict"

definition entry_cost :: "entry \<Rightarrow> string \<Rightarrow> int" where
  "entry_cost e device = values_cost (map snd (en_outputs e)) device"

definition references :: "entry \<Rightarrow> string \<Rightarrow> bool" where
  "references e resource \<longleftrightarrow> list_ex (\<lambda>v. resource \<in> set (value_resource_ids v)) (map snd (en_outputs e))"

section \<open>State\<close>

datatype cache_event = Lookup string | Drop_referencing string | Clear_cache

text \<open>A call of the handler: what runs meanwhile, and its answer, \<open>None\<close> when it raises.\<close>

record handler_call =
  hc_events :: "cache_event list"
  hc_result :: "bool option"

record mem_cache =
  mc_max_entries :: nat
  mc_max_bytes :: int
  mc_entries :: "(string, entry) dict"
  mc_clean :: "string set"
  mc_persists :: bool
  mc_calls :: "handler_call list"
  mc_generation :: nat
  mc_hits :: nat
  mc_misses :: nat

datatype cache_error = BadMaxEntries | BadMaxBytes | AlreadySpilling | HandlerFailed | NoEntry | NoVictim

text \<open>\<open>system_bytes\<close> is the effective memory of the machine.\<close>

definition new_cache :: "int \<Rightarrow> int option \<Rightarrow> int \<Rightarrow> cache_error + mem_cache" where
  "new_cache max_entries max_bytes system_bytes =
     (if max_entries < 1 then Inl BadMaxEntries
      else let bytes = (case max_bytes of None \<Rightarrow> system_bytes div 8 | Some b \<Rightarrow> b) in
        if bytes < 0 then Inl BadMaxBytes
        else Inr \<lparr>mc_max_entries = nat max_entries, mc_max_bytes = bytes, mc_entries = [], mc_clean = {},
                  mc_persists = False, mc_calls = [], mc_generation = 0, mc_hits = 0, mc_misses = 0\<rparr>)"

definition set_persistence_handler :: "mem_cache \<Rightarrow> handler_call list \<Rightarrow> cache_error + mem_cache" where
  "set_persistence_handler c calls =
     (if mc_persists c then Inl AlreadySpilling else Inr (c\<lparr>mc_persists := True, mc_calls := calls\<rparr>))"

section \<open>Operations without suspension\<close>

definition to_end :: "'k \<Rightarrow> ('k, 'v) dict \<Rightarrow> ('k, 'v) dict" where
  "to_end k d = (case map_of d k of None \<Rightarrow> d | Some v \<Rightarrow> dict_del k d @ [(k, v)])"

definition cache_get :: "mem_cache \<Rightarrow> string \<Rightarrow> mem_cache \<times> entry option" where
  "cache_get c key =
     (case map_of (mc_entries c) key of
        None \<Rightarrow> (c\<lparr>mc_misses := mc_misses c + 1\<rparr>, None)
      | Some e \<Rightarrow> (c\<lparr>mc_entries := to_end key (mc_entries c), mc_hits := mc_hits c + 1\<rparr>, Some e))"

definition cache_footprint :: "mem_cache \<Rightarrow> string \<Rightarrow> int" where
  "cache_footprint c device =
     values_cost (concat (map (\<lambda>(_, e). map snd (en_outputs e)) (mc_entries c))) device"

definition remove_entry :: "mem_cache \<Rightarrow> string \<Rightarrow> mem_cache" where
  "remove_entry c key = c\<lparr>mc_entries := dict_del key (mc_entries c), mc_clean := mc_clean c - {key}\<rparr>"

definition clear_cache :: "mem_cache \<Rightarrow> mem_cache \<times> nat" where
  "clear_cache c =
     (c\<lparr>mc_generation := mc_generation c + 1, mc_entries := [], mc_clean := {}\<rparr>, length (mc_entries c))"

definition drop_referencing :: "mem_cache \<Rightarrow> string \<Rightarrow> mem_cache \<times> nat" where
  "drop_referencing c resource =
     (let keys = map fst (filter (\<lambda>(_, e). references e resource) (mc_entries c)) in
      (fold (\<lambda>k c'. remove_entry c' k) keys (c\<lparr>mc_generation := mc_generation c + 1\<rparr>), length keys))"

fun run_event :: "cache_event \<Rightarrow> mem_cache \<Rightarrow> mem_cache" where
  "run_event (Lookup k) c = fst (cache_get c k)"
| "run_event (Drop_referencing r) c = fst (drop_referencing c r)"
| "run_event Clear_cache c = fst (clear_cache c)"

text \<open>Awaiting the handler; a call beyond the given ones succeeds at once.\<close>

definition call_handler :: "mem_cache \<Rightarrow> mem_cache \<times> bool option" where
  "call_handler c =
     (case mc_calls c of
        [] \<Rightarrow> (c, Some True)
      | call # calls \<Rightarrow> (fold run_event (hc_events call) (c\<lparr>mc_calls := calls\<rparr>), hc_result call))"

section \<open>Eviction and admission\<close>

definition holds :: "mem_cache \<Rightarrow> string \<Rightarrow> entry \<Rightarrow> bool" where
  "holds c key e \<longleftrightarrow> (case map_of (mc_entries c) key of None \<Rightarrow> False | Some e' \<Rightarrow> en_id e' = en_id e)"

text \<open>The part of \<^verbatim>\<open>_evict\<close> after the handler has answered.\<close>

definition drop_victim :: "mem_cache \<Rightarrow> string \<Rightarrow> entry \<Rightarrow> string \<Rightarrow> mem_cache \<times> int" where
  "drop_victim c key e device =
     (if \<not> holds c key e then (c, 0)
      else let c' = remove_entry c key in (c', cache_footprint c device - cache_footprint c' device))"

definition evict :: "mem_cache \<Rightarrow> string \<Rightarrow> string \<Rightarrow> mem_cache \<times> (cache_error + int)" where
  "evict c key device =
     (case map_of (mc_entries c) key of
        None \<Rightarrow> (c, Inl NoEntry)
      | Some e \<Rightarrow>
          if key \<notin> mc_clean c \<and> mc_persists c
          then (case call_handler c of (c', answer) \<Rightarrow>
                  case answer of
                    None \<Rightarrow> (c', Inl HandlerFailed)
                  | Some _ \<Rightarrow> (fst (drop_victim c' key e device), Inr (snd (drop_victim c' key e device))))
          else (fst (drop_victim c key e device), Inr (snd (drop_victim c key e device))))"

definition costed_victim :: "mem_cache \<Rightarrow> string option" where
  "costed_victim c = map_option fst (find (\<lambda>(_, e). 0 < entry_cost e ''ram'') (mc_entries c))"

subsection \<open>The entries only shrink\<close>

lemma map_of_to_end [simp]: "map_of (to_end k d) = map_of d"
  by (auto simp: to_end_def map_add_def split: option.split)

text \<open>\<open>shrinks c' c\<close>: nothing but removals of entries, moves and a growing generation lead from \<open>c\<close> to \<open>c'\<close>.\<close>

definition shrinks :: "mem_cache \<Rightarrow> mem_cache \<Rightarrow> bool" where
  "shrinks c' c \<longleftrightarrow>
     map_of (mc_entries c') \<subseteq>\<^sub>m map_of (mc_entries c) \<and>
     (dict_ok (mc_entries c) \<longrightarrow> dict_ok (mc_entries c')) \<and>
     mc_max_entries c' = mc_max_entries c \<and> mc_max_bytes c' = mc_max_bytes c \<and>
     mc_persists c' = mc_persists c \<and> mc_generation c \<le> mc_generation c'"

named_theorems shrinks_intros

lemma shrinks_refl [simp, shrinks_intros]: "shrinks c c"
  by (simp add: shrinks_def)

lemma shrinks_trans: "shrinks c'' c' \<Longrightarrow> shrinks c' c \<Longrightarrow> shrinks c'' c"
  by (auto simp: shrinks_def intro: map_le_trans)

lemma shrinks_entries: "shrinks c' c \<Longrightarrow> map_of (mc_entries c') \<subseteq>\<^sub>m map_of (mc_entries c)"
  by (simp add: shrinks_def)

lemma dict_ok_to_end [simp]: "dict_ok d \<Longrightarrow> dict_ok (to_end k d)"
  by (auto simp: to_end_def dict_ok_def dict_del_filter distinct_map_filter split: option.split)

lemma shrinks_remove: "shrinks (remove_entry c k) c"
  by (simp add: shrinks_def remove_entry_def map_le_def)

lemma shrinks_remove_each: "shrinks (fold (\<lambda>k c'. remove_entry c' k) ks c) c"
  by (induction ks arbitrary: c) (auto intro: shrinks_trans [OF _ shrinks_remove])

lemma shrinks_get: "shrinks (fst (cache_get c k)) c"
  by (auto simp: cache_get_def shrinks_def split: option.split)

lemma shrinks_clear: "shrinks (fst (clear_cache c)) c"
  by (simp add: clear_cache_def shrinks_def)

lemma shrinks_drop: "shrinks (fst (drop_referencing c r)) c"
proof -
  have "shrinks (c\<lparr>mc_generation := mc_generation c + 1\<rparr>) c" by (simp add: shrinks_def)
  then show ?thesis
    by (auto simp: drop_referencing_def Let_def intro: shrinks_trans [OF shrinks_remove_each])
qed

lemma shrinks_event: "shrinks (run_event ev c) c"
  by (cases ev) (simp_all add: shrinks_get shrinks_drop shrinks_clear)

lemma shrinks_events: "shrinks (fold run_event evs c) c"
  by (induction evs arbitrary: c) (auto intro: shrinks_trans [OF _ shrinks_event])

lemma shrinks_call: "shrinks (fst (call_handler c)) c"
proof -
  have "shrinks (c\<lparr>mc_calls := calls\<rparr>) c" for calls by (simp add: shrinks_def)
  then show ?thesis
    by (auto simp: call_handler_def intro: shrinks_trans [OF shrinks_events] split: list.split)
qed

lemma shrinks_victim: "shrinks (fst (drop_victim c k e d)) c"
  by (simp add: drop_victim_def Let_def shrinks_remove)

lemma shrinks_evict: "shrinks (fst (evict c k d)) c"
  using shrinks_call [of c] shrinks_trans [OF shrinks_victim shrinks_call, of c k _ d]
  by (auto simp: evict_def shrinks_victim split: option.split prod.split)

lemma drop_victim_gone:
  assumes "map_of (mc_entries c') \<subseteq>\<^sub>m map_of (mc_entries c)" and "map_of (mc_entries c) k = Some e"
  shows "map_of (mc_entries (fst (drop_victim c' k e d))) k = None"
  using assms(1) [unfolded map_le_def, rule_format, of k] assms(2)
  by (auto simp: drop_victim_def holds_def Let_def remove_entry_def dom_def split: option.splits)

lemma evict_gone: "evict c k d = (c', Inr n) \<Longrightarrow> map_of (mc_entries c') k = None"
  using drop_victim_gone [OF shrinks_entries [OF shrinks_call], of c k _ d] drop_victim_gone [OF map_le_refl, of c k _ d]
  by (auto simp: evict_def split: option.splits if_splits prod.splits)

lemma evict_found: "evict c k d = (c', Inr n) \<Longrightarrow> map_of (mc_entries c) k \<noteq> None"
  by (auto simp: evict_def split: option.splits)

definition held_keys :: "mem_cache \<Rightarrow> nat" where
  "held_keys c = card (dom (map_of (mc_entries c)))"

lemma held_keys_less: "evict c k d = (c', Inr n) \<Longrightarrow> held_keys c' < held_keys c"
  using evict_gone [of c k d c' n] evict_found [of c k d c' n] shrinks_entries [OF shrinks_evict, of c k d]
  unfolding held_keys_def
  by (intro psubset_card_mono) (auto simp: finite_dom_map_of dest!: map_le_implies_dom_le)

subsection \<open>The loops of admission\<close>

function shrink_bytes :: "mem_cache \<Rightarrow> mem_cache \<times> (cache_error + unit)" where
  "shrink_bytes c =
     (if cache_footprint c ''ram'' \<le> mc_max_bytes c then (c, Inr ())
      else case costed_victim c of
        None \<Rightarrow> (c, Inl NoVictim)
      | Some k \<Rightarrow>
          (case evict c k ''ram'' of (c', r) \<Rightarrow>
             case r of Inl err \<Rightarrow> (c', Inl err) | Inr _ \<Rightarrow> shrink_bytes c'))"
  by auto

termination
  by (relation "measure held_keys") (auto intro: held_keys_less [OF sym])

function shrink_entries :: "mem_cache \<Rightarrow> mem_cache \<times> (cache_error + unit)" where
  "shrink_entries c =
     (if length (mc_entries c) \<le> mc_max_entries c then (c, Inr ())
      else case mc_entries c of
        [] \<Rightarrow> (c, Inl NoVictim)
      | (k, _) # _ \<Rightarrow>
          (case evict c k ''ram'' of (c', r) \<Rightarrow>
             case r of Inl err \<Rightarrow> (c', Inl err) | Inr _ \<Rightarrow> shrink_entries c'))"
  by auto

termination
  by (relation "measure held_keys") (auto intro: held_keys_less [OF sym])

declare shrink_bytes.simps [simp del] shrink_entries.simps [simp del]

definition shrink :: "mem_cache \<Rightarrow> mem_cache \<times> (cache_error + unit)" where
  "shrink c = (case shrink_bytes c of (c', r) \<Rightarrow> case r of Inl err \<Rightarrow> (c', Inl err) | Inr _ \<Rightarrow> shrink_entries c')"

definition undo_admission :: "mem_cache \<Rightarrow> nat \<Rightarrow> string \<Rightarrow> entry \<Rightarrow> entry option \<Rightarrow> mem_cache" where
  "undo_admission c generation key e previous =
     (if \<not> holds c key e then c
      else let c' = remove_entry c key in
        case previous of
          None \<Rightarrow> c'
        | Some p \<Rightarrow> if generation = mc_generation c' then c'\<lparr>mc_entries := dict_set key p (mc_entries c')\<rparr> else c')"

definition admit :: "mem_cache \<Rightarrow> nat \<Rightarrow> string \<Rightarrow> entry \<Rightarrow> bool \<Rightarrow> mem_cache \<times> (cache_error + unit)" where
  "admit c generation key e persisted =
     (let previous = map_of (mc_entries c) key;
          c1 = c\<lparr>mc_entries := to_end key (dict_set key e (mc_entries c)),
                 mc_clean := (if persisted then insert key (mc_clean c - {key}) else mc_clean c - {key})\<rparr>
      in case shrink c1 of (c2, r) \<Rightarrow>
           case r of
             Inr _ \<Rightarrow> (c2, Inr ())
           | Inl err \<Rightarrow> (undo_admission c2 generation key e previous, Inl err))"

text \<open>
  \<open>generation\<close> was read before the caller waited for the mutation lock: it may be older than the
  cache's.
\<close>

definition cache_put :: "mem_cache \<Rightarrow> nat \<Rightarrow> string \<Rightarrow> entry \<Rightarrow> bool \<Rightarrow> mem_cache \<times> (cache_error + unit)" where
  "cache_put c generation key e persisted =
     (if generation \<noteq> mc_generation c then (c, Inr ())
      else if \<not> persisted \<and> mc_persists c
      then (case call_handler (c\<lparr>mc_clean := mc_clean c - {key}\<rparr>) of (c', answer) \<Rightarrow>
              case answer of
                None \<Rightarrow> (c', Inl HandlerFailed)
              | Some wrote \<Rightarrow>
                  if generation \<noteq> mc_generation c' then (c', Inr ())
                  else admit c' generation key e wrote)
      else admit c generation key e persisted)"

section \<open>Shedding\<close>

fun shed_keys :: "mem_cache \<Rightarrow> int \<Rightarrow> int \<Rightarrow> string \<Rightarrow> string list \<Rightarrow> mem_cache \<times> (cache_error + int)" where
  "shed_keys c freed needed device [] = (c, Inr freed)"
| "shed_keys c freed needed device (k # ks) =
     (if needed \<le> freed then (c, Inr freed)
      else case map_of (mc_entries c) k of
        None \<Rightarrow> shed_keys c freed needed device ks
      | Some e \<Rightarrow>
          if 0 < entry_cost e device
          then (case evict c k device of (c', r) \<Rightarrow>
                  case r of
                    Inl err \<Rightarrow> (c', Inl err)
                  | Inr n \<Rightarrow> shed_keys c' (freed + n) needed device ks)
          else shed_keys c freed needed device ks)"

definition shed_cache :: "mem_cache \<Rightarrow> string \<Rightarrow> int \<Rightarrow> mem_cache \<times> (cache_error + int)" where
  "shed_cache c device needed = shed_keys c 0 needed device (map fst (mc_entries c))"

section \<open>Costs of sets of envelopes\<close>

definition nodes :: "val list \<Rightarrow> val set" where
  "nodes vs = \<Union> (set ` iter_value_tree ` set vs)"

definition payload_cost :: "string \<Rightarrow> val set \<Rightarrow> nat \<Rightarrow> int" where
  "payload_cost d N p = Max (insert 0 (declared_cost d ` {v \<in> N. v_payload v = p}))"

lemma declared_cost_nonneg [simp]: "0 \<le> declared_cost d v"
  by (auto simp: declared_cost_def split: pyobj.split option.split)

lemma payload_cost_insert:
  "finite N \<Longrightarrow> payload_cost d (insert v N) p =
     (if v_payload v = p then max (payload_cost d N p) (declared_cost d v) else payload_cost d N p)"
proof -
  assume N: "finite N"
  have "{w \<in> insert v N. v_payload w = p} =
      (if v_payload v = p then insert v {w \<in> N. v_payload w = p} else {w \<in> N. v_payload w = p})"
    by auto
  with N show ?thesis
    by (simp add: payload_cost_def insert_commute [of 0] max.commute)
qed

lemma payload_cost_nonneg: "finite N \<Longrightarrow> 0 \<le> payload_cost d N p"
  by (simp add: payload_cost_def)

lemma payload_cost_mono: "finite N \<Longrightarrow> M \<subseteq> N \<Longrightarrow> payload_cost d M p \<le> payload_cost d N p"
  unfolding payload_cost_def by (intro Max_mono) auto

lemma payload_cost_le: "finite N \<Longrightarrow> v \<in> N \<Longrightarrow> declared_cost d v \<le> payload_cost d N (v_payload v)"
  unfolding payload_cost_def by (intro Max_ge) auto

lemma add_cost_step:
  assumes "dict_ok costs" and "\<And>q. dict_get_default costs q 0 = payload_cost d N q" and "finite N"
  shows "dict_ok (add_cost d v costs)"
    and "dict_get_default (add_cost d v costs) p 0 = payload_cost d (insert v N) p"
    and "fst ` set (add_cost d v costs) \<subseteq> insert (v_payload v) (fst ` set costs)"
  using assms payload_cost_nonneg [OF assms(3), of d p] declared_cost_nonneg [of d v]
  by (auto simp: add_cost_def Let_def payload_cost_insert max_def)

lemma add_costs:
  "dict_ok (fold (add_cost d) ns []) \<and>
   dict_get_default (fold (add_cost d) ns []) p 0 = payload_cost d (set ns) p \<and>
   fst ` set (fold (add_cost d) ns []) \<subseteq> v_payload ` set ns"
proof (induction ns arbitrary: p rule: rev_induct)
  case Nil
  then show ?case by (simp add: payload_cost_def)
next
  case (snoc v ns)
  let ?costs = "fold (add_cost d) ns []"
  have ok: "dict_ok ?costs" and get: "dict_get_default ?costs q 0 = payload_cost d (set ns) q"
    and keys: "fst ` set ?costs \<subseteq> v_payload ` set ns" for q
    using snoc by auto
  note step = add_cost_step [OF ok get finite_set, of v]
  show ?case using step(1,2) subset_trans [OF step(3) insert_mono [OF keys]] by simp
qed

lemma sum_list_costs:
  assumes "dict_ok costs" and "finite P" and "fst ` set costs \<subseteq> P"
  shows "sum_list (map snd costs) = (\<Sum>p \<in> P. dict_get_default costs p (0::int))"
  using assms
proof (induction costs arbitrary: P)
  case (Cons a costs)
  obtain k n where a: "a = (k, n)" by fastforce
  have out: "dict_get_default costs k 0 = 0"
    using Cons.prems(1) map_of_eq_None_iff [of costs k] by (simp add: a dict_get_default_def)
  have k: "k \<in> P" and costs: "fst ` set costs \<subseteq> P" using Cons.prems(3) by (auto simp: a)
  have "(\<Sum>p \<in> P. dict_get_default (a # costs) p 0) = n + (\<Sum>p \<in> P - {k}. dict_get_default costs p 0)"
    using Cons.prems(2) k by (simp add: a sum.remove)
  also have "\<dots> = n + (\<Sum>p \<in> P. dict_get_default costs p 0)"
    using Cons.prems(2) k by (simp add: sum.remove [of P k] out)
  finally show ?case using Cons.IH [of P] Cons.prems costs by (simp add: a)
qed simp

lemma set_nodes: "set (concat (map iter_value_tree vs)) = nodes vs"
  by (auto simp: nodes_def)

lemma finite_nodes [simp]: "finite (nodes vs)"
  by (simp flip: set_nodes)

lemma values_cost_sum: "values_cost vs d = (\<Sum>p \<in> v_payload ` nodes vs. payload_cost d (nodes vs) p)"
proof -
  let ?costs = "fold (add_cost d) (concat (map iter_value_tree vs)) []"
  have costs: "dict_ok ?costs" "fst ` set ?costs \<subseteq> v_payload ` nodes vs"
    and get: "dict_get_default ?costs p 0 = payload_cost d (nodes vs) p" for p
    using add_costs [of d "concat (map iter_value_tree vs)"] by (simp_all only: set_nodes)
  show ?thesis unfolding values_cost_def by (simp add: sum_list_costs [OF costs(1) _ costs(2)] get)
qed

lemma values_cost_nonneg: "0 \<le> values_cost vs d"
  by (simp add: values_cost_sum sum_nonneg payload_cost_nonneg)

text \<open>Only the envelopes that declare a cost matter.\<close>

lemma payload_cost_pos: "finite N \<Longrightarrow> payload_cost d {v \<in> N. 0 < declared_cost d v} p = payload_cost d N p"
proof (induction N rule: finite_induct)
  case (insert v N)
  have "{w \<in> insert v N. 0 < declared_cost d w} =
      (if 0 < declared_cost d v then insert v {w \<in> N. 0 < declared_cost d w} else {w \<in> N. 0 < declared_cost d w})"
    by auto
  moreover have "max (payload_cost d N p) (declared_cost d v) = payload_cost d N p" if "\<not> 0 < declared_cost d v"
    using that declared_cost_nonneg [of d v] payload_cost_nonneg [OF insert.hyps(1), of d p] by linarith
  ultimately show ?case using insert by (simp add: payload_cost_insert)
qed simp

lemma values_cost_mono:
  assumes "{v \<in> nodes vs. 0 < declared_cost d v} \<subseteq> nodes ws"
  shows "values_cost vs d \<le> values_cost ws d"
proof -
  let ?P = "{v \<in> nodes vs. 0 < declared_cost d v}"
  have zero: "payload_cost d (nodes vs) p = 0" if "p \<notin> v_payload ` ?P" for p
  proof -
    have "{v \<in> ?P. v_payload v = p} = {}" using that by auto
    then have "payload_cost d ?P p = 0" unfolding payload_cost_def by (simp only:) simp
    then show ?thesis by (simp add: payload_cost_pos)
  qed
  have "values_cost vs d = (\<Sum>p \<in> v_payload ` ?P. payload_cost d (nodes vs) p)"
    unfolding values_cost_sum by (rule sum.mono_neutral_right) (auto intro: zero)
  also have "\<dots> \<le> (\<Sum>p \<in> v_payload ` ?P. payload_cost d (nodes ws) p)"
    using payload_cost_mono [of "nodes ws" ?P d] assms
    by (intro sum_mono) (metis finite_nodes payload_cost_pos)
  also have "\<dots> \<le> values_cost ws d"
    unfolding values_cost_sum using assms by (intro sum_mono2 payload_cost_nonneg) auto
  finally show ?thesis .
qed

lemma values_cost_pos: "0 < values_cost vs d \<longleftrightarrow> (\<exists>v \<in> nodes vs. 0 < declared_cost d v)"
proof
  assume "0 < values_cost vs d"
  then obtain p where "0 < payload_cost d (nodes vs) p"
    unfolding values_cost_sum by (meson not_less sum_nonpos)
  then show "\<exists>v \<in> nodes vs. 0 < declared_cost d v"
    by (auto simp: payload_cost_def Max_gr_iff)
next
  assume "\<exists>v \<in> nodes vs. 0 < declared_cost d v"
  then obtain v where v: "v \<in> nodes vs" "0 < declared_cost d v" by blast
  then have "0 < payload_cost d (nodes vs) (v_payload v)"
    using payload_cost_le [of "nodes vs" v d] by simp
  also have "\<dots> \<le> values_cost vs d"
    unfolding values_cost_sum using v by (intro member_le_sum payload_cost_nonneg) auto
  finally show "0 < values_cost vs d" .
qed

subsection \<open>Footprints\<close>

definition entry_nodes :: "entry \<Rightarrow> val set" where
  "entry_nodes e = nodes (map snd (en_outputs e))"

definition cache_nodes :: "mem_cache \<Rightarrow> val set" where
  "cache_nodes c = \<Union> (entry_nodes ` snd ` set (mc_entries c))"

lemma footprint_nodes:
  "nodes (concat (map (\<lambda>(_, e). map snd (en_outputs e)) (mc_entries c))) = cache_nodes c"
  by (auto simp: nodes_def cache_nodes_def entry_nodes_def split_beta)

lemma footprint_nonneg [simp]: "0 \<le> cache_footprint c d"
  by (simp add: cache_footprint_def values_cost_nonneg)

lemma footprint_mono: "cache_nodes c' \<subseteq> cache_nodes c \<Longrightarrow> cache_footprint c' d \<le> cache_footprint c d"
  unfolding cache_footprint_def by (rule values_cost_mono) (auto simp: footprint_nodes)

lemma footprint_pos: "0 < cache_footprint c d \<longleftrightarrow> (\<exists>(k, e) \<in> set (mc_entries c). 0 < entry_cost e d)"
proof -
  have "0 < entry_cost e d \<longleftrightarrow> (\<exists>v \<in> entry_nodes e. 0 < declared_cost d v)" for e
    by (simp add: entry_cost_def entry_nodes_def values_cost_pos)
  then show ?thesis
    by (auto simp: cache_footprint_def values_cost_pos footprint_nodes cache_nodes_def) fastforce+
qed

lemma set_graph: "dict_ok d \<Longrightarrow> set d = {(k, v). map_of d k = Some v}"
  by (auto dest: map_of_SomeD simp: map_of_Some_set)

lemma map_le_set: "dict_ok d \<Longrightarrow> dict_ok d' \<Longrightarrow> map_of d' \<subseteq>\<^sub>m map_of d \<Longrightarrow> set d' \<subseteq> set d"
  by (force simp: set_graph map_le_def dom_def)

lemma length_dom: "dict_ok d \<Longrightarrow> length d = card (dom (map_of d))"
  by (simp add: dom_map_of_conv_image_fst dict_ok_def) (metis distinct_card length_map set_map)

lemma map_le_footprint:
  assumes "dict_ok (mc_entries c)" "dict_ok (mc_entries c')" "map_of (mc_entries c') \<subseteq>\<^sub>m map_of (mc_entries c)"
  shows "cache_footprint c' dv \<le> cache_footprint c dv" "length (mc_entries c') \<le> length (mc_entries c)"
proof -
  have "cache_nodes c' \<subseteq> cache_nodes c"
    using map_le_set [OF assms] by (auto simp: cache_nodes_def)
  then show "cache_footprint c' dv \<le> cache_footprint c dv" by (rule footprint_mono)
  show "length (mc_entries c') \<le> length (mc_entries c)"
    using assms(1,2) map_le_implies_dom_le [OF assms(3)]
    by (simp add: length_dom card_mono finite_dom_map_of)
qed

text \<open>The bounds of the cache.\<close>

definition cache_ok :: "mem_cache \<Rightarrow> bool" where
  "cache_ok c \<longleftrightarrow> dict_ok (mc_entries c) \<and> 0 \<le> mc_max_bytes c \<and> 1 \<le> mc_max_entries c \<and>
     cache_footprint c ''ram'' \<le> mc_max_bytes c \<and> length (mc_entries c) \<le> mc_max_entries c"

lemma cache_ok_shrinks: "cache_ok c \<Longrightarrow> shrinks c' c \<Longrightarrow> cache_ok c'"
  using map_le_footprint(1) [of c c' "''ram''"] map_le_footprint(2) [of c c'] by (auto simp: cache_ok_def shrinks_def)

lemma footprint_shrinks:
  "dict_ok (mc_entries c) \<Longrightarrow> shrinks c' c \<Longrightarrow> cache_footprint c' d \<le> cache_footprint c d"
  using map_le_footprint(1) [of c c' d] by (auto simp: shrinks_def)

lemma dict_ok_shrinks: "dict_ok (mc_entries c) \<Longrightarrow> shrinks c' c \<Longrightarrow> dict_ok (mc_entries c')"
  by (simp add: shrinks_def)

section \<open>Admission keeps the bounds\<close>

lemma costed_victim_exists:
  assumes "0 \<le> mc_max_bytes c" and "mc_max_bytes c < cache_footprint c ''ram''"
  shows "\<exists>k. costed_victim c = Some k \<and> map_of (mc_entries c) k \<noteq> None"
proof -
  obtain k e where "(k, e) \<in> set (mc_entries c)" "0 < entry_cost e ''ram''"
    using assms footprint_pos [of c "''ram''"] by auto
  then obtain p where p: "find (\<lambda>(_, e). 0 < entry_cost e ''ram'') (mc_entries c) = Some p"
    by (cases "find (\<lambda>(_, e). 0 < entry_cost e ''ram'') (mc_entries c)") (auto simp: find_None_iff)
  then have "p \<in> set (mc_entries c)" unfolding find_Some_iff by (metis nth_mem)
  then show ?thesis
    using p by (auto simp: costed_victim_def map_of_eq_None_iff intro!: exI [of _ "fst p"])
qed

text \<open>One turn of each loop.\<close>

lemma shrink_bytes_turn:
  "cache_footprint c ''ram'' \<le> mc_max_bytes c \<Longrightarrow> shrink_bytes c = (c, Inr ())"
  "mc_max_bytes c < cache_footprint c ''ram'' \<Longrightarrow> costed_victim c = None \<Longrightarrow> shrink_bytes c = (c, Inl NoVictim)"
  "mc_max_bytes c < cache_footprint c ''ram'' \<Longrightarrow> costed_victim c = Some k \<Longrightarrow>
     evict c k ''ram'' = (c', Inl err) \<Longrightarrow> shrink_bytes c = (c', Inl err)"
  "mc_max_bytes c < cache_footprint c ''ram'' \<Longrightarrow> costed_victim c = Some k \<Longrightarrow>
     evict c k ''ram'' = (c', Inr n) \<Longrightarrow> shrink_bytes c = shrink_bytes c'"
  by (subst shrink_bytes.simps, simp)+

lemma shrink_entries_turn:
  "length (mc_entries c) \<le> mc_max_entries c \<Longrightarrow> shrink_entries c = (c, Inr ())"
  "mc_max_entries c < length (mc_entries c) \<Longrightarrow> mc_entries c = (k, e) # es \<Longrightarrow>
     evict c k ''ram'' = (c', Inl err) \<Longrightarrow> shrink_entries c = (c', Inl err)"
  "mc_max_entries c < length (mc_entries c) \<Longrightarrow> mc_entries c = (k, e) # es \<Longrightarrow>
     evict c k ''ram'' = (c', Inr n) \<Longrightarrow> shrink_entries c = shrink_entries c'"
  by (subst shrink_entries.simps, simp)+

lemma evict_error: "map_of (mc_entries c) k \<noteq> None \<Longrightarrow> evict c k d = (c', Inl err) \<Longrightarrow> err = HandlerFailed"
  by (auto simp: evict_def split: option.splits if_splits prod.splits)

lemma shrink_bytes_outcome:
  "0 \<le> mc_max_bytes c \<Longrightarrow> shrink_bytes c = (c', r) \<Longrightarrow>
     shrinks c' c \<and> (r = Inr () \<longrightarrow> cache_footprint c' ''ram'' \<le> mc_max_bytes c') \<and> r \<in> {Inr (), Inl HandlerFailed}"
proof (induction "held_keys c" arbitrary: c rule: less_induct)
  case less
  show ?case
  proof (cases "cache_footprint c ''ram'' \<le> mc_max_bytes c")
    case True
    then show ?thesis using less.prems by (auto simp: shrink_bytes_turn(1))
  next
    case False
    then have over: "mc_max_bytes c < cache_footprint c ''ram''" by simp
    obtain k where k: "costed_victim c = Some k" and there: "map_of (mc_entries c) k \<noteq> None"
      using costed_victim_exists [OF less.prems(1) over] by blast
    obtain c1 x where x: "evict c k ''ram'' = (c1, x)" by fastforce
    have c1: "shrinks c1 c" using shrinks_evict [of c k "''ram''"] x by simp
    show ?thesis
    proof (cases x)
      case (Inl err)
      with c1 x less.prems(2) shrink_bytes_turn(3) [OF over k] evict_error [OF there] show ?thesis
        by auto
    next
      case (Inr n)
      note x = x [unfolded Inr]
      have "shrink_bytes c1 = (c', r)" using shrink_bytes_turn(4) [OF over k x] less.prems(2) by simp
      moreover have "0 \<le> mc_max_bytes c1" using c1 less.prems(1) by (simp add: shrinks_def)
      ultimately show ?thesis using less.hyps [OF held_keys_less [OF x]] c1 by (auto intro: shrinks_trans)
    qed
  qed
qed

lemma shrink_entries_outcome:
  "shrink_entries c = (c', r) \<Longrightarrow>
     shrinks c' c \<and> (r = Inr () \<longrightarrow> length (mc_entries c') \<le> mc_max_entries c') \<and> r \<in> {Inr (), Inl HandlerFailed}"
proof (induction "held_keys c" arbitrary: c rule: less_induct)
  case less
  show ?case
  proof (cases "length (mc_entries c) \<le> mc_max_entries c")
    case True
    then show ?thesis using less.prems by (auto simp: shrink_entries_turn(1))
  next
    case False
    then have over: "mc_max_entries c < length (mc_entries c)" by simp
    then obtain k e es where k: "mc_entries c = (k, e) # es" by (cases "mc_entries c") auto
    obtain c1 x where x: "evict c k ''ram'' = (c1, x)" by fastforce
    have c1: "shrinks c1 c" using shrinks_evict [of c k "''ram''"] x by simp
    show ?thesis
    proof (cases x)
      case (Inl err)
      with c1 x less.prems shrink_entries_turn(2) [OF over k] evict_error [of c k "''ram''" c' err] show ?thesis
        by (auto simp: k)
    next
      case (Inr n)
      note x = x [unfolded Inr]
      have "shrink_entries c1 = (c', r)" using shrink_entries_turn(3) [OF over k x] less.prems by simp
      then show ?thesis using less.hyps [OF held_keys_less [OF x]] c1 by (auto intro: shrinks_trans)
    qed
  qed
qed

lemma shrink_outcome:
  assumes "0 \<le> mc_max_bytes c" and "dict_ok (mc_entries c)" and "shrink c = (c', r)"
  shows "shrinks c' c \<and> r \<in> {Inr (), Inl HandlerFailed} \<and>
    (r = Inr () \<longrightarrow> cache_footprint c' ''ram'' \<le> mc_max_bytes c' \<and> length (mc_entries c') \<le> mc_max_entries c')"
proof -
  obtain c1 x where x: "shrink_bytes c = (c1, x)" by fastforce
  note c1 = shrink_bytes_outcome [OF assms(1) x]
  show ?thesis
  proof (cases x)
    case (Inl err)
    with c1 x assms(3) show ?thesis by (auto simp: shrink_def)
  next
    case (Inr u)
    then have c': "shrink_entries c1 = (c', r)" using x assms(3) by (simp add: shrink_def)
    note c'' = shrink_entries_outcome [OF c']
    have "cache_footprint c' ''ram'' \<le> cache_footprint c1 ''ram''"
      using c1 c'' dict_ok_shrinks [OF assms(2)] by (intro footprint_shrinks) auto
    with c1 c'' Inr show ?thesis by (auto simp: shrinks_def intro: map_le_trans)
  qed
qed

lemma undo_admission_le:
  assumes "map_of (mc_entries c) \<subseteq>\<^sub>m m(k \<mapsto> e)"
  shows "map_of (mc_entries (undo_admission c g k e (m k))) \<subseteq>\<^sub>m m"
proof (cases "map_of (mc_entries c) k")
  case None
  then show ?thesis
    using assms by (simp add: undo_admission_def holds_def map_le_def) (metis domI domIff)
next
  case (Some f)
  then have "f = e" using assms by (auto simp: map_le_def dom_def split: if_splits)
  with Some assms show ?thesis
    by (auto simp: undo_admission_def holds_def Let_def remove_entry_def map_le_def dom_def split: option.split)
qed

lemma undo_admission_ok: "dict_ok (mc_entries c) \<Longrightarrow> dict_ok (mc_entries (undo_admission c g k e p))"
  by (auto simp: undo_admission_def Let_def remove_entry_def split: option.split)

lemma undo_admission_bounds [simp]:
  "mc_max_bytes (undo_admission c g k e p) = mc_max_bytes c"
  "mc_max_entries (undo_admission c g k e p) = mc_max_entries c"
  "mc_generation (undo_admission c g k e p) = mc_generation c"
  by (simp_all add: undo_admission_def Let_def remove_entry_def split: option.split)

lemma admit_outcome:
  assumes c: "cache_ok c" and admit: "admit c g k e p = (c', r)"
  shows "cache_ok c' \<and> r \<in> {Inr (), Inl HandlerFailed} \<and>
    map_of (mc_entries c') \<subseteq>\<^sub>m (if r = Inr () then (map_of (mc_entries c))(k \<mapsto> e) else map_of (mc_entries c)) \<and>
    mc_generation c \<le> mc_generation c'"
proof -
  define c1 where "c1 = c\<lparr>mc_entries := to_end k (dict_set k e (mc_entries c)),
    mc_clean := (if p then insert k (mc_clean c - {k}) else mc_clean c - {k})\<rparr>"
  obtain c2 x where x: "shrink c1 = (c2, x)" by fastforce
  have c1: "dict_ok (mc_entries c1)" "0 \<le> mc_max_bytes c1" "mc_max_bytes c1 = mc_max_bytes c"
      "mc_max_entries c1 = mc_max_entries c" "map_of (mc_entries c1) = (map_of (mc_entries c))(k \<mapsto> e)"
      "mc_generation c1 = mc_generation c"
    using c by (simp_all add: cache_ok_def c1_def)
  note c2 = shrink_outcome [OF c1(2,1) x]
  have result: "r = x" "c' = (if x = Inr () then c2 else undo_admission c2 g k e (map_of (mc_entries c) k))"
    using admit c2 x by (auto simp: admit_def c1_def [symmetric] Let_def split: sum.splits)
  show ?thesis
  proof (cases "x = Inr ()")
    case True
    with c2 c1 c result show ?thesis by (auto simp: cache_ok_def shrinks_def)
  next
    case False
    have le: "map_of (mc_entries c') \<subseteq>\<^sub>m map_of (mc_entries c)"
      using undo_admission_le [of c2 "map_of (mc_entries c)"] c2 c1(5) False result by (simp add: shrinks_def)
    have ok: "dict_ok (mc_entries c')"
      using undo_admission_ok dict_ok_shrinks [OF c1(1)] c2 False result by simp
    have "dict_ok (mc_entries c)" using c by (simp add: cache_ok_def)
    note bounds = map_le_footprint [OF this ok le]
    have "cache_ok c'"
      using c bounds(1) [of "''ram''"] bounds(2) ok c2 c1 False result
      by (auto simp: cache_ok_def shrinks_def)
    with c2 c1 False result le show ?thesis by (auto simp: shrinks_def)
  qed
qed

lemma map_leD: "m \<subseteq>\<^sub>m m' \<Longrightarrow> m k = Some v \<Longrightarrow> m' k = Some v"
  by (auto simp: map_le_def dom_def)

lemma admit_held:
  assumes "cache_ok c" and "admit c g k e p = (c', r)" and "map_of (mc_entries c') k' = Some e'"
  shows "map_of (mc_entries c) k' = Some e' \<or> k' = k \<and> e' = e"
proof (cases "r = Inr ()")
  case True
  then have "map_of (mc_entries c') \<subseteq>\<^sub>m (map_of (mc_entries c))(k \<mapsto> e)"
    using admit_outcome [OF assms(1,2)] by simp
  from map_leD [OF this assms(3)] show ?thesis by (auto split: if_splits)
next
  case False
  then have "map_of (mc_entries c') \<subseteq>\<^sub>m map_of (mc_entries c)"
    using admit_outcome [OF assms(1,2)] by simp
  from map_leD [OF this assms(3)] show ?thesis by simp
qed

lemma admit_failed:
  assumes "cache_ok c" and "admit c g k e p = (c', r)" and "r \<noteq> Inr ()"
  shows "map_of (mc_entries c') \<subseteq>\<^sub>m map_of (mc_entries c)"
  using admit_outcome [OF assms(1,2)] assms(3) by simp

lemma put_rule:
  assumes "g \<noteq> mc_generation c \<Longrightarrow> P (c, Inr ())"
    and "g = mc_generation c \<Longrightarrow> P (admit c g k e p)"
    and "\<And>c1. g = mc_generation c \<Longrightarrow> shrinks c1 c \<Longrightarrow> P (c1, Inl HandlerFailed)"
    and "\<And>c1. g = mc_generation c \<Longrightarrow> shrinks c1 c \<Longrightarrow> P (c1, Inr ())"
    and "\<And>c1 wrote. g = mc_generation c \<Longrightarrow> shrinks c1 c \<Longrightarrow> P (admit c1 g k e wrote)"
  shows "P (cache_put c g k e p)"
proof -
  obtain c1 x where x: "call_handler (c\<lparr>mc_clean := mc_clean c - {k}\<rparr>) = (c1, x)" by fastforce
  have clean: "shrinks (c\<lparr>mc_clean := mc_clean c - {k}\<rparr>) c" by (simp add: shrinks_def)
  have c1: "shrinks c1 c" using shrinks_trans [OF shrinks_call clean] x by (metis fst_conv)
  show ?thesis
  proof (cases "g = mc_generation c")
    case True
    show ?thesis
    proof (cases "\<not> p \<and> mc_persists c")
      case False
      then have "cache_put c g k e p = admit c g k e p" using True by (auto simp: cache_put_def)
      with assms(2) [OF True] show ?thesis by simp
    next
      case suspended: True
      consider "cache_put c g k e p = (c1, Inl HandlerFailed)" | "cache_put c g k e p = (c1, Inr ())"
        | wrote where "cache_put c g k e p = admit c1 g k e wrote"
        using True suspended x by (cases x; cases "g = mc_generation c1") (simp_all add: cache_put_def)
      then show ?thesis using assms(3-5) [OF True c1] by cases simp_all
    qed
  qed (use assms(1) in \<open>simp add: cache_put_def\<close>)
qed

definition admitted :: "mem_cache \<Rightarrow> nat \<Rightarrow> string \<Rightarrow> entry \<Rightarrow> mem_cache \<times> (cache_error + unit) \<Rightarrow> bool" where
  "admitted c g k e x \<longleftrightarrow>
     cache_ok (fst x) \<and> snd x \<in> {Inr (), Inl HandlerFailed} \<and>
     (snd x \<noteq> Inr () \<longrightarrow> map_of (mc_entries (fst x)) \<subseteq>\<^sub>m map_of (mc_entries c)) \<and>
     (\<forall>k' e'. map_of (mc_entries (fst x)) k' = Some e' \<longrightarrow>
       map_of (mc_entries c) k' = Some e' \<or> k' = k \<and> e' = e \<and> g = mc_generation c) \<and>
     mc_generation c \<le> mc_generation (fst x)"

lemma admitted_shrinks:
  assumes "cache_ok c" and "shrinks c' c" and "r \<in> {Inr (), Inl HandlerFailed}"
  shows "admitted c g k e (c', r)"
  using assms cache_ok_shrinks [OF assms(1,2)] map_leD [OF shrinks_entries [OF assms(2)]]
  by (auto simp: admitted_def shrinks_def)

lemma admitted_admit:
  assumes "cache_ok c" and "shrinks c1 c" and "g = mc_generation c"
  shows "admitted c g k e (admit c1 g k e p)"
proof -
  have ok: "cache_ok c1" by (rule cache_ok_shrinks [OF assms(1,2)])
  obtain c' r where r: "admit c1 g k e p = (c', r)" by fastforce
  note le = shrinks_entries [OF assms(2)]
  have "map_of (mc_entries c') \<subseteq>\<^sub>m map_of (mc_entries c)" if "r \<noteq> Inr ()"
    by (rule map_le_trans [OF admit_failed [OF ok r that] le])
  moreover have "map_of (mc_entries c) k' = Some e' \<or> k' = k \<and> e' = e"
    if "map_of (mc_entries c') k' = Some e'" for k' e'
    using admit_held [OF ok r that] map_leD [OF le] by blast
  moreover have "mc_generation c \<le> mc_generation c'"
    using admit_outcome [OF ok r] assms(2) by (simp add: shrinks_def)
  ultimately show ?thesis using admit_outcome [OF ok r] assms(3) unfolding admitted_def r by auto
qed

lemma put_admitted: "cache_ok c \<Longrightarrow> admitted c g k e (cache_put c g k e p)"
  by (rule put_rule) (simp_all add: admitted_shrinks admitted_admit)

section \<open>Shedding is honest and, without spilling, complete\<close>

lemma drop_victim_freed:
  "dict_ok (mc_entries c) \<Longrightarrow> snd (drop_victim c k e d) = cache_footprint c d - cache_footprint (fst (drop_victim c k e d)) d"
  by (simp add: drop_victim_def Let_def)

lemma evict_freed:
  assumes "dict_ok (mc_entries c)" and "evict c k d = (c', Inr n)"
  shows "0 \<le> n \<and> n \<le> cache_footprint c d - cache_footprint c' d \<and>
    (\<not> mc_persists c \<longrightarrow> n = cache_footprint c d - cache_footprint c' d)"
proof -
  obtain e where e: "map_of (mc_entries c) k = Some e"
    using evict_found [OF assms(2)] by blast
  define c1 where "c1 = (if k \<notin> mc_clean c \<and> mc_persists c then fst (call_handler c) else c)"
  have c1: "shrinks c1 c" by (simp add: c1_def shrinks_call)
  have c': "c' = fst (drop_victim c1 k e d)" "n = snd (drop_victim c1 k e d)"
    using assms(2) e by (auto simp: evict_def c1_def split: if_splits prod.splits option.splits)
  have ok: "dict_ok (mc_entries c1)" by (rule dict_ok_shrinks [OF assms(1) c1])
  have "n = cache_footprint c1 d - cache_footprint c' d"
    using drop_victim_freed [OF ok] c' by simp
  moreover have "cache_footprint c' d \<le> cache_footprint c1 d"
    unfolding c'(1) by (rule footprint_shrinks [OF ok shrinks_victim])
  moreover have "cache_footprint c1 d \<le> cache_footprint c d"
    by (rule footprint_shrinks [OF assms(1) c1])
  moreover have "c1 = c" if "\<not> mc_persists c" using that by (simp add: c1_def)
  ultimately show ?thesis by auto
qed

lemma shed_keys_outcome:
  assumes "dict_ok (mc_entries c)" and "shed_keys c freed needed d ks = (c', r)"
  shows "shrinks c' c \<and> r \<in> range Inr \<union> {Inl HandlerFailed} \<and>
    (\<forall>n. r = Inr n \<longrightarrow> freed \<le> n \<and> n - freed \<le> cache_footprint c d - cache_footprint c' d)"
  using assms
proof (induction ks arbitrary: c freed)
  case (Cons k ks)
  have "(needed \<le> freed \<and> (c', r) = (c, Inr freed)) \<or> shed_keys c freed needed d ks = (c', r) \<or>
      (map_of (mc_entries c) k \<noteq> None \<and>
       (case evict c k d of (c1, x) \<Rightarrow>
          case x of Inl err \<Rightarrow> (c1, Inl err) | Inr n \<Rightarrow> shed_keys c1 (freed + n) needed d ks) = (c', r))"
    using Cons.prems(2) by (simp split: if_splits option.splits)
  then consider (stop) "c' = c" "r = Inr freed" | (skip) "shed_keys c freed needed d ks = (c', r)"
    | (evict) c1 x where "map_of (mc_entries c) k \<noteq> None" "evict c k d = (c1, x)"
        "(case x of Inl err \<Rightarrow> (c1, Inl err) | Inr n \<Rightarrow> shed_keys c1 (freed + n) needed d ks) = (c', r)"
    by (cases "evict c k d") auto
  then show ?case
  proof cases
    case skip
    then show ?thesis using Cons.IH [OF Cons.prems(1)] by simp
  next
    case evict
    have c1: "shrinks c1 c" using shrinks_evict [of c k d] evict(2) by simp
    show ?thesis
    proof (cases x)
      case (Inl err)
      then show ?thesis using evict c1 evict_error [OF evict(1), of d c1 err] by auto
    next
      case (Inr n)
      have rec: "shed_keys c1 (freed + n) needed d ks = (c', r)" using evict(3) Inr by simp
      note n = evict_freed [OF Cons.prems(1) evict(2) [unfolded Inr]]
      from Cons.IH [OF dict_ok_shrinks [OF Cons.prems(1) c1] rec] n c1 show ?thesis
        by (auto intro: shrinks_trans)
    qed
  qed auto
qed auto

lemma shed_keys_complete:
  assumes "dict_ok (mc_entries c)" and "\<not> mc_persists c"
    and "\<And>k e. map_of (mc_entries c) k = Some e \<Longrightarrow> 0 < entry_cost e d \<Longrightarrow> k \<in> set ks"
  shows "\<exists>c' n. shed_keys c freed needed d ks = (c', Inr n) \<and>
    n - freed = cache_footprint c d - cache_footprint c' d \<and> (needed \<le> n \<or> cache_footprint c' d = 0)"
  using assms
proof (induction ks arbitrary: c freed)
  case Nil
  have "\<not> 0 < cache_footprint c d"
    using Nil.prems map_of_Some_set [OF Nil.prems(1)] by (auto simp: footprint_pos)
  then show ?case using footprint_nonneg [of c d] by (simp del: footprint_nonneg)
next
  case (Cons k ks)
  show ?case
  proof (cases "needed \<le> freed \<or> map_of (mc_entries c) k = None \<or>
      (\<exists>e. map_of (mc_entries c) k = Some e \<and> entry_cost e d \<le> 0)")
    case True
    show ?thesis
    proof (cases "needed \<le> freed")
      case False
      have "k' \<in> set ks" if "map_of (mc_entries c) k' = Some e" "0 < entry_cost e d" for k' e
        using Cons.prems(3) [OF that] True False that by auto
      then have "\<exists>c' n. shed_keys c freed needed d ks = (c', Inr n) \<and>
          n - freed = cache_footprint c d - cache_footprint c' d \<and> (needed \<le> n \<or> cache_footprint c' d = 0)"
        by (rule Cons.IH [OF Cons.prems(1,2)])
      then show ?thesis using True False by (auto split: option.split)
    qed simp
  next
    case False
    then obtain e where e: "map_of (mc_entries c) k = Some e" "0 < entry_cost e d" "freed < needed"
      by (cases "map_of (mc_entries c) k") auto
    obtain c1 n where evict: "evict c k d = (c1, Inr n)"
      using e(1) Cons.prems(2) by (simp add: evict_def)
    have c1: "shrinks c1 c" using shrinks_evict [of c k d] evict by simp
    have n: "n = cache_footprint c d - cache_footprint c1 d"
      using evict_freed [OF Cons.prems(1) evict] Cons.prems(2) by simp
    have "k' \<in> set ks" if "map_of (mc_entries c1) k' = Some f" "0 < entry_cost f d" for k' f
      using Cons.prems(3) [OF map_leD [OF shrinks_entries [OF c1] that(1)] that(2)] evict_gone [OF evict] that(1)
      by auto
    moreover have "\<not> mc_persists c1" using Cons.prems(2) c1 by (simp add: shrinks_def)
    ultimately obtain c' m where "shed_keys c1 (freed + n) needed d ks = (c', Inr m)"
        "m - (freed + n) = cache_footprint c1 d - cache_footprint c' d" "needed \<le> m \<or> cache_footprint c' d = 0"
      using Cons.IH [OF dict_ok_shrinks [OF Cons.prems(1) c1], of "freed + n"] by blast
    with e evict n show ?thesis by auto
  qed
qed

lemma shed_cache_outcome:
  assumes "cache_ok c" and "shed_cache c d needed = (c', r)"
  shows "cache_ok c' \<and> shrinks c' c \<and> r \<in> range Inr \<union> {Inl HandlerFailed} \<and>
    (\<forall>n. r = Inr n \<longrightarrow> 0 \<le> n \<and> n \<le> cache_footprint c d - cache_footprint c' d)"
proof -
  have "dict_ok (mc_entries c)" using assms(1) by (simp add: cache_ok_def)
  from shed_keys_outcome [OF this assms(2) [unfolded shed_cache_def]] cache_ok_shrinks [OF assms(1)]
  show ?thesis by auto
qed

lemma shed_cache_complete:
  assumes "cache_ok c" and "\<not> mc_persists c"
  shows "\<exists>c' n. shed_cache c d needed = (c', Inr n) \<and>
    n = cache_footprint c d - cache_footprint c' d \<and> (needed \<le> n \<or> cache_footprint c' d = 0)"
proof -
  have "dict_ok (mc_entries c)" using assms(1) by (simp add: cache_ok_def)
  moreover have "k \<in> set (map fst (mc_entries c))" if "map_of (mc_entries c) k = Some e" for k e
    using map_of_SomeD [OF that] by force
  ultimately have "\<exists>c' n. shed_cache c d needed = (c', Inr n) \<and>
      n - 0 = cache_footprint c d - cache_footprint c' d \<and> (needed \<le> n \<or> cache_footprint c' d = 0)"
    unfolding shed_cache_def using assms(2) by (intro shed_keys_complete)
  then show ?thesis by simp
qed

section \<open>Sequences of operations\<close>

text \<open>A promotion is an admission of an entry that is already persisted.\<close>

datatype cache_op =
    Put nat string entry bool
  | Shed string int
  | Run cache_event
  | Attach "handler_call list"

fun run_op :: "cache_op \<Rightarrow> mem_cache \<Rightarrow> mem_cache" where
  "run_op (Put g k e persisted) c = fst (cache_put c g k e persisted)"
| "run_op (Shed device needed) c = fst (shed_cache c device needed)"
| "run_op (Run ev) c = run_event ev c"
| "run_op (Attach calls) c = (case set_persistence_handler c calls of Inl _ \<Rightarrow> c | Inr c' \<Rightarrow> c')"

lemma shed_ok: "cache_ok c \<Longrightarrow> cache_ok (fst (shed_cache c d n)) \<and> shrinks (fst (shed_cache c d n)) c"
  using shed_cache_outcome [of c d n "fst (shed_cache c d n)" "snd (shed_cache c d n)"] by simp

lemma attach_same:
  "mc_entries (run_op (Attach calls) c) = mc_entries c"
  "mc_max_bytes (run_op (Attach calls) c) = mc_max_bytes c"
  "mc_max_entries (run_op (Attach calls) c) = mc_max_entries c"
  "mc_generation (run_op (Attach calls) c) = mc_generation c"
  by (simp_all add: set_persistence_handler_def)

lemma run_op_ok: "cache_ok c \<Longrightarrow> cache_ok (run_op p c)"
proof (cases p)
  case (Put g k e persisted)
  assume "cache_ok c"
  from put_admitted [OF this, of g k e persisted] Put show ?thesis by (simp add: admitted_def)
next
  case (Attach calls)
  assume "cache_ok c"
  then show ?thesis
    using attach_same [of calls c] unfolding Attach
    by (simp only: cache_ok_def cache_footprint_def)
qed (simp_all add: shed_ok cache_ok_shrinks [OF _ shrinks_event])

lemma run_ops_ok: "cache_ok c \<Longrightarrow> cache_ok (fold run_op ops c)"
  by (induction ops arbitrary: c) (simp_all add: run_op_ok)

lemma new_cache_ok: "new_cache m b system = Inr c \<Longrightarrow> cache_ok c"
  by (auto simp: new_cache_def cache_ok_def cache_footprint_def values_cost_def Let_def split: if_splits)

subsection \<open>Invalidation\<close>

definition free_of :: "string \<Rightarrow> mem_cache \<Rightarrow> bool" where
  "free_of r c \<longleftrightarrow> (\<forall>k e. map_of (mc_entries c) k = Some e \<longrightarrow> \<not> references e r)"

lemma free_of_shrinks: "free_of r c \<Longrightarrow> shrinks c' c \<Longrightarrow> free_of r c'"
  unfolding free_of_def using map_leD [OF shrinks_entries] by blast

lemma map_of_remove_each:
  "map_of (mc_entries (fold (\<lambda>k c'. remove_entry c' k) ks c)) = map_of (mc_entries c) |` (- set ks)"
  by (induction ks arbitrary: c) (auto simp: remove_entry_def restrict_map_def fun_eq_iff)

lemma drop_referencing_free: "free_of r (fst (drop_referencing c r))"
proof -
  have "k \<in> fst ` set (filter (\<lambda>(_, e). references e r) (mc_entries c))"
    if "map_of (mc_entries c) k = Some e" "references e r" for k e
    using map_of_SomeD [OF that(1)] that(2) by force
  then show ?thesis
    by (auto simp: free_of_def drop_referencing_def Let_def map_of_remove_each restrict_map_def split: if_splits)
qed

lemma remove_each_generation: "mc_generation (fold (\<lambda>k c'. remove_entry c' k) ks c) = mc_generation c"
  by (induction ks arbitrary: c) (simp_all add: remove_entry_def)

lemma drop_referencing_generation: "mc_generation (fst (drop_referencing c r)) = mc_generation c + 1"
  by (simp add: drop_referencing_def Let_def remove_each_generation)

text \<open>An admission that began after generation \<open>g\<close> does not bring a reference to \<open>r\<close>.\<close>

fun brings_back :: "string \<Rightarrow> nat \<Rightarrow> cache_op \<Rightarrow> bool" where
  "brings_back r g (Put g' k e persisted) \<longleftrightarrow> g < g' \<and> references e r"
| "brings_back r g _ \<longleftrightarrow> False"

lemma run_op_free:
  assumes "cache_ok c" and "free_of r c" and "g < mc_generation c" and "\<not> brings_back r g p"
  shows "free_of r (run_op p c) \<and> g < mc_generation (run_op p c)"
proof (cases p)
  case (Put g' k e persisted)
  then have new: "g' = mc_generation c \<Longrightarrow> \<not> references e r" using assms(3,4) by auto
  show ?thesis
    using put_admitted [OF assms(1), of g' k e persisted] assms(2,3) new Put
    unfolding admitted_def free_of_def by auto
next
  case (Attach calls)
  then show ?thesis using assms(2,3) attach_same(1,4) by (simp add: free_of_def)
next
  case (Shed d n)
  then show ?thesis
    using assms shed_ok [OF assms(1), of d n] free_of_shrinks by (auto simp: shrinks_def)
next
  case (Run ev)
  then show ?thesis
    using assms(2,3) free_of_shrinks [OF _ shrinks_event] shrinks_event [of ev c] by (auto simp: shrinks_def)
qed

lemma run_ops_free:
  "cache_ok c \<Longrightarrow> free_of r c \<Longrightarrow> g < mc_generation c \<Longrightarrow> list_all (\<lambda>p. \<not> brings_back r g p) ops \<Longrightarrow>
     free_of r (fold run_op ops c)"
  by (induction ops arbitrary: c) (use run_op_free run_op_ok in auto)

subsection \<open>What was just computed is kept\<close>

text \<open>Without a persistence handler, an entry that fits on its own survives its own admission.\<close>

lemma evict_quiet:
  assumes "\<not> mc_persists c" and "map_of (mc_entries c) k = Some f"
  shows "\<exists>n. evict c k d = (remove_entry c k, Inr n)"
  using assms by (simp add: evict_def drop_victim_def holds_def Let_def)

definition fresh_last :: "string \<Rightarrow> entry \<Rightarrow> mem_cache \<Rightarrow> bool" where
  "fresh_last k e c \<longleftrightarrow>
     (\<exists>xs. mc_entries c = xs @ [(k, e)]) \<and> dict_ok (mc_entries c) \<and> \<not> mc_persists c \<and>
     entry_cost e ''ram'' \<le> mc_max_bytes c \<and> 1 \<le> mc_max_entries c"

lemma fresh_last_evict:
  assumes "fresh_last k e c" and "k' \<noteq> k" and "k' \<in> fst ` set (mc_entries c)"
  shows "\<exists>c' n. evict c k' d = (c', Inr n) \<and> fresh_last k e c'"
proof -
  obtain xs where xs: "mc_entries c = xs @ [(k, e)]" using assms(1) by (auto simp: fresh_last_def)
  obtain f where "map_of (mc_entries c) k' = Some f"
    using assms(3) by (metis map_of_eq_None_iff not_None_eq)
  moreover have "\<not> mc_persists c" using assms(1) by (simp add: fresh_last_def)
  ultimately obtain n where "evict c k' d = (remove_entry c k', Inr n)"
    using evict_quiet by blast
  moreover have "mc_entries (remove_entry c k') = dict_del k' xs @ [(k, e)]"
    using xs assms(2) by (simp add: remove_entry_def dict_del_filter)
  moreover have "dict_ok (mc_entries (remove_entry c k'))"
    using assms(1) by (simp add: fresh_last_def remove_entry_def)
  ultimately show ?thesis using assms(1) by (auto simp: fresh_last_def remove_entry_def)
qed

lemma fresh_last_bytes: "fresh_last k e c \<Longrightarrow> \<exists>c'. shrink_bytes c = (c', Inr ()) \<and> fresh_last k e c'"
proof (induction "held_keys c" arbitrary: c rule: less_induct)
  case less
  obtain xs where xs: "mc_entries c = xs @ [(k, e)]" using less.prems by (auto simp: fresh_last_def)
  show ?case
  proof (cases "cache_footprint c ''ram'' \<le> mc_max_bytes c")
    case True
    with less.prems show ?thesis by (simp add: shrink_bytes_turn(1))
  next
    case False
    have "\<exists>(k', f) \<in> set xs. 0 < entry_cost f ''ram''"
    proof (rule ccontr)
      assume none: "\<not> ?thesis"
      have "cache_footprint c ''ram'' \<le> entry_cost e ''ram''"
        unfolding cache_footprint_def entry_cost_def
      proof (rule values_cost_mono, unfold footprint_nodes)
        show "{v \<in> cache_nodes c. 0 < declared_cost ''ram'' v} \<subseteq> nodes (map snd (en_outputs e))"
          using none values_cost_pos [of _ "''ram''"]
          by (fastforce simp: cache_nodes_def entry_nodes_def xs entry_cost_def)
      qed
      with less.prems False show False by (simp add: fresh_last_def)
    qed
    then obtain p where p: "find (\<lambda>(_, f). 0 < entry_cost f ''ram'') xs = Some p"
      by (cases "find (\<lambda>(_, f). 0 < entry_cost f ''ram'') xs") (auto simp: find_None_iff)
    then have "p \<in> set xs" unfolding find_Some_iff by (metis nth_mem)
    then have there: "fst p \<in> fst ` set (mc_entries c)" and other: "fst p \<noteq> k"
      using less.prems xs by (auto simp: fresh_last_def dict_ok_def)
    have victim: "costed_victim c = Some (fst p)" using p xs by (simp add: costed_victim_def find_append)
    obtain c' n where c': "evict c (fst p) ''ram'' = (c', Inr n)" "fresh_last k e c'"
      using fresh_last_evict [OF less.prems other there] by blast
    have "shrink_bytes c = shrink_bytes c'"
      using shrink_bytes_turn(4) [OF _ victim c'(1)] False by simp
    with less.hyps [OF held_keys_less [OF c'(1)] c'(2)] show ?thesis by simp
  qed
qed

lemma fresh_last_count: "fresh_last k e c \<Longrightarrow> \<exists>c'. shrink_entries c = (c', Inr ()) \<and> fresh_last k e c'"
proof (induction "held_keys c" arbitrary: c rule: less_induct)
  case less
  obtain xs where xs: "mc_entries c = xs @ [(k, e)]" using less.prems by (auto simp: fresh_last_def)
  show ?case
  proof (cases "length (mc_entries c) \<le> mc_max_entries c")
    case True
    with less.prems show ?thesis by (simp add: shrink_entries_turn(1))
  next
    case False
    then obtain k' f ys where ys: "xs = (k', f) # ys"
      using less.prems xs by (cases xs) (auto simp: fresh_last_def)
    have "k' \<noteq> k" using less.prems xs ys by (auto simp: fresh_last_def)
    then obtain c' n where c': "evict c k' ''ram'' = (c', Inr n)" "fresh_last k e c'"
      using fresh_last_evict [OF less.prems, of k' "''ram''"] xs ys by auto
    have "shrink_entries c = shrink_entries c'"
      using shrink_entries_turn(3) [of c k' f "ys @ [(k, e)]", OF _ _ c'(1)] False xs ys by simp
    with less.hyps [OF held_keys_less [OF c'(1)] c'(2)] show ?thesis by simp
  qed
qed

lemma put_fresh:
  assumes "cache_ok c" and "\<not> mc_persists c" and "entry_cost e ''ram'' \<le> mc_max_bytes c"
  shows "\<exists>c'. cache_put c (mc_generation c) k e p = (c', Inr ()) \<and> map_of (mc_entries c') k = Some e"
proof -
  define c1 where "c1 = c\<lparr>mc_entries := to_end k (dict_set k e (mc_entries c)),
    mc_clean := (if p then insert k (mc_clean c - {k}) else mc_clean c - {k})\<rparr>"
  have "fresh_last k e c1"
    using assms by (simp add: fresh_last_def c1_def cache_ok_def) (simp add: to_end_def)
  then obtain c2 c3 where "shrink_bytes c1 = (c2, Inr ())" "shrink_entries c2 = (c3, Inr ())" "fresh_last k e c3"
    using fresh_last_bytes fresh_last_count by metis
  moreover from this(3) have "map_of (mc_entries c3) k = Some e"
    unfolding fresh_last_def by (intro map_of_Some_set) auto
  ultimately have "cache_put c (mc_generation c) k e p = (c3, Inr ()) \<and> map_of (mc_entries c3) k = Some e"
    using assms(2) by (simp add: cache_put_def admit_def c1_def [symmetric] shrink_def Let_def)
  then show ?thesis by blast
qed

section \<open>Properties\<close>

text \<open>
  C30: From its construction on, whatever the sequence of admissions, promotions, sheds, lookups
  and invalidations, and whatever runs or fails while the persistence handler is suspended, the
  cache stays within its bytes and its entries.
\<close>
theorem cache_stays_within_bounds:
  assumes "new_cache m b system = Inr c" and "c' = fold run_op ops c"
  shows "cache_footprint c' ''ram'' \<le> mc_max_bytes c' \<and> length (mc_entries c') \<le> mc_max_entries c' \<and>
    distinct (map fst (mc_entries c'))"
  using run_ops_ok [OF new_cache_ok [OF assms(1)], of ops] by (simp add: cache_ok_def dict_ok_def assms(2))

definition sample_value :: "nat \<Rightarrow> int \<Rightarrow> val" where
  "sample_value p n = Value ''core.Tensor'' ''f'' [(cost_key, PDict [(PStr ''ram'', PInt n)])] p Opaque []"

definition sample_entry :: "nat \<Rightarrow> int \<Rightarrow> entry" where
  "sample_entry i n = \<lparr>en_id = i, en_outputs = [(''out'', sample_value i n)]\<rparr>"

definition sample_ops :: "cache_op list" where
  "sample_ops = [Put 0 ''a'' (sample_entry 1 60) False,
     Attach [\<lparr>hc_events = [Lookup ''a''], hc_result = Some True\<rparr>],
     Put 0 ''b'' (sample_entry 2 60) False, Shed ''ram'' 10]"

definition empty_cache :: mem_cache where
  "empty_cache = \<lparr>mc_max_entries = 2, mc_max_bytes = 100, mc_entries = [], mc_clean = {},
     mc_persists = False, mc_calls = [], mc_generation = 0, mc_hits = 0, mc_misses = 0\<rparr>"

theorem cache_stays_within_bounds_witness:
  "cache_footprint (fold run_op sample_ops empty_cache) ''ram''
     \<le> mc_max_bytes (fold run_op sample_ops empty_cache)"
  using cache_stays_within_bounds [of 2 "Some 100" 0 empty_cache _ sample_ops, OF _ refl]
  by (simp add: new_cache_def empty_cache_def)

text \<open>
  An admission either succeeds or reports the handler's failure. A failed one leaves only
  entries that were there before, and the rejected one is not among them; an admission whose
  generation is no longer the cache's changes nothing; no admission adds any other entry.
\<close>
theorem admission_is_all_or_nothing:
  assumes "cache_ok c" and "cache_put c g k e persisted = (c', r)"
  shows "r \<in> {Inr (), Inl HandlerFailed} \<and>
    (r = Inl HandlerFailed \<longrightarrow> map_of (mc_entries c') \<subseteq>\<^sub>m map_of (mc_entries c)) \<and>
    (g \<noteq> mc_generation c \<longrightarrow> c' = c \<and> r = Inr ()) \<and>
    (\<forall>k' e'. map_of (mc_entries c') k' = Some e' \<longrightarrow>
       map_of (mc_entries c) k' = Some e' \<or> (k', e') = (k, e) \<and> g = mc_generation c)"
proof -
  have "g \<noteq> mc_generation c \<Longrightarrow> c' = c \<and> r = Inr ()" using assms(2) by (simp add: cache_put_def)
  then show ?thesis
    using put_admitted [OF assms(1), of g k e persisted] assms(2) by (auto simp: admitted_def)
qed

text \<open>A cache that holds one entry it has not written, and whose handler raises.\<close>

definition failing_cache :: mem_cache where
  "failing_cache = empty_cache\<lparr>mc_entries := [(''a'', sample_entry 1 60)], mc_persists := True,
     mc_calls := [\<lparr>hc_events = [], hc_result = Some False\<rparr>, \<lparr>hc_events = [], hc_result = None\<rparr>]\<rparr>"

theorem admission_is_all_or_nothing_witness:
  "snd (cache_put failing_cache 0 ''b'' (sample_entry 2 60) False) \<in> {Inr (), Inl HandlerFailed}"
proof -
  have "cache_ok failing_cache"
    unfolding cache_ok_def by (intro conjI) code_simp+
  from admission_is_all_or_nothing [OF this surjective_pairing, of 0 "''b''" "sample_entry 2 60" False]
  show ?thesis by simp
qed

text \<open>
  After the invalidation of a resource no entry refers to it, and none comes back: an admission
  that began before the invalidation is dropped, however late it gets the lock.
\<close>
theorem invalidation_is_final:
  assumes "cache_ok c" and "list_all (\<lambda>p. \<not> brings_back r (mc_generation c) p) ops"
  shows "free_of r (fold run_op ops (fst (drop_referencing c r)))"
proof (rule run_ops_free [OF _ drop_referencing_free _ assms(2)])
  show "cache_ok (fst (drop_referencing c r))" by (rule cache_ok_shrinks [OF assms(1) shrinks_drop])
qed (simp add: drop_referencing_generation)

definition stub_entry :: entry where
  "stub_entry = \<lparr>en_id = 3, en_outputs = [(''out'',
     Value ''core.Model'' ''f'' [(resource_id_key, PStr ''r'')] 3 Opaque [])]\<rparr>"

theorem invalidation_is_final_witness:
  "free_of ''r'' (fold run_op [Put 0 ''a'' stub_entry False]
     (fst (drop_referencing (empty_cache\<lparr>mc_entries := [(''b'', stub_entry)]\<rparr>) ''r'')))"
proof (rule invalidation_is_final)
  show "cache_ok (empty_cache\<lparr>mc_entries := [(''b'', stub_entry)]\<rparr>)"
    unfolding cache_ok_def by (intro conjI) code_simp+
qed (simp add: empty_cache_def)

text \<open>
  A cache that does not spill keeps what was just computed: an entry that fits in the budget on
  its own is admitted, and the next lookup of its key answers it; older entries make room.
\<close>
theorem fresh_results_are_kept:
  assumes "cache_ok c" and "\<not> mc_persists c" and "entry_cost e ''ram'' \<le> mc_max_bytes c"
  shows "\<exists>c'. cache_put c (mc_generation c) k e persisted = (c', Inr ()) \<and> snd (cache_get c' k) = Some e"
  using put_fresh [OF assms, of k persisted] by (auto simp: cache_get_def)

theorem fresh_results_are_kept_witness:
  "\<exists>c'. cache_put (empty_cache\<lparr>mc_entries := [(''a'', sample_entry 1 60)]\<rparr>) 0 ''b'' (sample_entry 2 60) False
       = (c', Inr ()) \<and> snd (cache_get c' ''b'') = Some (sample_entry 2 60)"
proof -
  let ?c = "empty_cache\<lparr>mc_entries := [(''a'', sample_entry 1 60)]\<rparr>"
  have "cache_ok ?c" unfolding cache_ok_def by (intro conjI) code_simp+
  moreover have "\<not> mc_persists ?c" "entry_cost (sample_entry 2 60) ''ram'' \<le> mc_max_bytes ?c"
    by code_simp+
  ultimately show ?thesis
    using fresh_results_are_kept [of ?c "sample_entry 2 60" "''b''" False] by (simp add: empty_cache_def)
qed

end
