(* ===== verification/Consumers.thy ===== *)
theory Consumers
  imports Memory_Cache
begin

text \<open>
  The governor and the in-memory caches together: the caches are the consumers the governor
  sheds, and the laws it relies on are proved of them.
\<close>

section \<open>Reservations against consumers that can always free what they hold\<close>

context complete_shedders
begin

lemma granted_when_it_fits:
  assumes "map_of (gv_budgets g) d = Some b" and "fits api g w d n b" and "n \<le> b" and "a \<or> live \<le> 0"
  shows "\<exists>g' r. admit_alone (Suc (Suc k)) api g w d n (Checking a live) = Some (g', w, Holding r) \<and>
    rv_device r = d \<and> rv_nbytes r = n"
  using assms by (auto simp: admit_section_def Let_def record_reservation_def)

lemma granted_after_pressure:
  assumes w: "good w" and d: "distinct (map rg_shedder (gv_shedders g))"
    and b: "map_of (gv_budgets g) d = Some b" and room: "reserved g d + n \<le> b" "n \<le> b"
    and s: "footprint api g w d + (reserved g d + n - b) \<le> s"
  shows "\<exists>g' w' r. admit_alone (Suc (Suc (Suc k))) api g w d n (Shedding s True) = Some (g', w', Holding r) \<and>
    good w' \<and> rv_device r = d \<and> rv_nbytes r = n"
proof -
  obtain w' m where m: "governor_shed api g d s None None w = (w', Inr m)" "good w'"
      "footprint api g w' d \<le> max 0 (footprint api g w d - s)"
    using governor_shed_complete [OF w d, of d s] by blast
  have "fits api g w' d n b" using m(3) s room by (simp add: fits_def)
  from granted_when_it_fits [OF b this room(2), of True 0 k] m(1,2) show ?thesis
    by (auto simp: shed_pc_def)
qed

lemma granted_on_second_look:
  assumes w: "good w" and d: "distinct (map rg_shedder (gv_shedders g))"
    and b: "map_of (gv_budgets g) d = Some b" and room: "reserved g d + n \<le> b" "n \<le> b"
    and live: "live \<le> 0 \<or> \<not> fits api g w d n b"
  shows "\<exists>g' w' r. admit_alone (Suc (Suc (Suc (Suc k)))) api g w d n (Checking False live) =
      Some (g', w', Holding r) \<and> good w' \<and> rv_device r = d \<and> rv_nbytes r = n"
proof (cases "fits api g w d n b")
  case True
  with granted_when_it_fits [OF b True room(2), of False live "Suc (Suc k)"] live w show ?thesis by blast
next
  case False
  let ?s = "max (reserved g d + footprint api g w d + n - b) live"
  have "admit_alone (Suc (Suc (Suc (Suc k)))) api g w d n (Checking False live) =
      admit_alone (Suc (Suc (Suc k))) api g w d n (Shedding ?s True)"
    using False b room(2) by (simp add: admit_section_def Let_def)
  moreover have "footprint api g w d + (reserved g d + n - b) \<le> ?s" by simp
  ultimately show ?thesis using granted_after_pressure [OF w d b room] by metis
qed

text \<open>Whatever the live shortfall of the machine: a shed for it, then at most one for the budget.\<close>

lemma granted_in_the_end:
  assumes w: "good w" and d: "distinct (map rg_shedder (gv_shedders g))"
    and b: "map_of (gv_budgets g) d = Some b" and room: "reserved g d + n \<le> b" "n \<le> b"
  shows "\<exists>g' w' r. admit_alone 6 api g w d n (Checking False live) =
      Some (g', w', Holding r) \<and> good w' \<and> rv_device r = d \<and> rv_nbytes r = n"
proof -
  have six: "(6 :: nat) = Suc (Suc (Suc (Suc (Suc (Suc 0)))))" by simp
  show ?thesis
  proof (cases "live \<le> 0 \<or> \<not> fits api g w d n b")
    case True
    from granted_on_second_look [OF w d b room True] show ?thesis by (simp only: six)
  next
    case False
    obtain w' m where m: "governor_shed api g d (max 0 live) None None w = (w', Inr m)" "good w'"
      using governor_shed_complete [OF w d, of d "max 0 live"] by blast
    have "admit_alone (Suc (Suc (Suc (Suc (Suc (Suc 0)))))) api g w d n (Checking False live) =
        admit_alone (Suc (Suc (Suc (Suc 0)))) api g w' d n (Checking False 0)"
      using False b room(2) m(1) by (simp add: admit_section_def Let_def shed_pc_def)
    with granted_on_second_look [OF m(2) d b room, of 0 0] show ?thesis by (simp only: six) simp
  qed
qed

end

section \<open>Caches as consumers\<close>

text \<open>A world of caches; a consumer is the index of one.\<close>

type_synonym caches = "nat \<Rightarrow> mem_cache"

definition cache_api :: "(caches, nat) consumer_api" where
  "cache_api = \<lparr>
     ca_footprint = (\<lambda>w h d. cache_footprint (w h) d),
     ca_shed = (\<lambda>w h p. case shed_cache (w h) (ps_device p) (ps_needed p) of
        (c, r) \<Rightarrow> (w(h := c), case r of Inl _ \<Rightarrow> None | Inr n \<Rightarrow> Some n)),
     ca_detailed = (\<lambda>_. False)\<rparr>"

definition caches_ok :: "caches \<Rightarrow> bool" where
  "caches_ok w \<longleftrightarrow> (\<forall>h. cache_ok (w h))"

definition caches_quiet :: "caches \<Rightarrow> bool" where
  "caches_quiet w \<longleftrightarrow> (\<forall>h. cache_ok (w h) \<and> \<not> mc_persists (w h))"

lemma cache_api_shed:
  assumes "caches_ok w" and "ca_shed cache_api w h p = (w', r)"
  shows "w' = w(h := w' h) \<and> cache_ok (w' h) \<and> shrinks (w' h) (w h) \<and>
    (\<forall>n. r = Some n \<longrightarrow> 0 \<le> n \<and> n \<le> cache_footprint (w h) (ps_device p) - cache_footprint (w' h) (ps_device p))"
proof -
  obtain c x where x: "shed_cache (w h) (ps_device p) (ps_needed p) = (c, x)" by fastforce
  have "cache_ok (w h)" using assms(1) by (simp add: caches_ok_def)
  from shed_cache_outcome [OF this x] assms(2) x show ?thesis
    by (auto simp: cache_api_def split: sum.splits)
qed

interpretation cache_consumers: shedders cache_api caches_ok
proof
  fix w h d
  show "0 \<le> ca_footprint cache_api w h d" by (simp add: cache_api_def)
next
  fix w h p w' and r :: "int option"
  assume w: "caches_ok w" and shed: "ca_shed cache_api w h p = (w', r)"
  note c = cache_api_shed [OF w shed]
  then have w': "w' = w(h := w' h)" by simp
  show "caches_ok w'"
    using w c w' unfolding caches_ok_def by (metis fun_upd_apply)
  show "ca_footprint cache_api w' k d \<le> ca_footprint cache_api w k d" if "k \<noteq> h" for k d
    using that by (subst w') (simp add: cache_api_def)
next
  fix w h p w' n
  assume "caches_ok w" and "ca_shed cache_api w h p = (w', Some n)"
  from cache_api_shed [OF this] show "0 \<le> n \<and>
      n \<le> ca_footprint cache_api w h (ps_device p) - ca_footprint cache_api w' h (ps_device p)"
    by (simp add: cache_api_def)
qed

text \<open>Without persistence handlers nothing can keep a cache from freeing.\<close>

interpretation quiet_caches: complete_shedders cache_api caches_quiet
proof
  fix w h d
  show "0 \<le> ca_footprint cache_api w h d" by (simp add: cache_api_def)
next
  fix w h p w' and r :: "int option"
  assume w: "caches_quiet w" and shed: "ca_shed cache_api w h p = (w', r)"
  have ok: "caches_ok w" using w by (simp add: caches_quiet_def caches_ok_def)
  note c = cache_api_shed [OF ok shed]
  have quiet: "\<not> mc_persists (w' h)" using w c by (auto simp: caches_quiet_def shrinks_def)
  show "caches_quiet w'"
    using w c quiet unfolding caches_quiet_def by (metis fun_upd_apply)
  show "ca_footprint cache_api w' k d \<le> ca_footprint cache_api w k d" if "k \<noteq> h" for k d
    by (rule cache_consumers.shed_frame [OF ok shed that])
next
  fix w h p w' n
  assume "caches_quiet w" and shed: "ca_shed cache_api w h p = (w', Some n)"
  then have "caches_ok w" by (simp add: caches_quiet_def caches_ok_def)
  from cache_consumers.shed_freed [OF this shed] show "0 \<le> n \<and>
      n \<le> ca_footprint cache_api w h (ps_device p) - ca_footprint cache_api w' h (ps_device p)" .
next
  fix w h and p :: pressure
  assume "caches_quiet w"
  then have w: "cache_ok (w h)" "\<not> mc_persists (w h)" by (simp_all add: caches_quiet_def)
  obtain c n where c: "shed_cache (w h) (ps_device p) (ps_needed p) = (c, Inr n)"
      "n = cache_footprint (w h) (ps_device p) - cache_footprint c (ps_device p)"
      "ps_needed p \<le> n \<or> cache_footprint c (ps_device p) = 0"
    using shed_cache_complete [OF w] by blast
  then have "ca_shed cache_api w h p = (w(h := c), Some n)" by (simp add: cache_api_def)
  moreover have "min (ps_needed p) (ca_footprint cache_api w h (ps_device p)) \<le> n"
    using c(2,3) by (auto simp: cache_api_def)
  ultimately show "\<exists>w' n. ca_shed cache_api w h p = (w', Some n) \<and>
      min (ps_needed p) (ca_footprint cache_api w h (ps_device p)) \<le> n" by blast
qed

section \<open>Properties\<close>

definition two_caches :: "caches" where
  "two_caches = (\<lambda>h. if h = 0 then empty_cache\<lparr>mc_entries := [(''a'', sample_entry 1 60)]\<rparr>
     else empty_cache\<lparr>mc_entries := [(''b'', sample_entry 2 30)]\<rparr>)"

definition two_registered :: "nat governor" where
  "two_registered = \<lparr>gv_budgets = [(''ram'', 100)], gv_reserved = [(''ram'', 40)], gv_peaks = [],
     gv_reservations = [],
     gv_shedders = [\<lparr>rg_order = 0, rg_priority = 0, rg_name = ''a'', rg_shedder = 0\<rparr>,
       \<lparr>rg_order = 1, rg_priority = 1, rg_name = ''b'', rg_shedder = 1\<rparr>],
     gv_next_id = 1, gv_next_order = 2\<rparr>"

lemma two_caches_quiet: "cache_ok (two_caches h) \<and> \<not> mc_persists (two_caches h)"
proof -
  have "cache_ok (empty_cache\<lparr>mc_entries := [(''a'', sample_entry 1 60)]\<rparr>)"
    "cache_ok (empty_cache\<lparr>mc_entries := [(''b'', sample_entry 2 30)]\<rparr>)"
    unfolding cache_ok_def by (intro conjI; code_simp)+
  then show ?thesis by (simp add: two_caches_def) (simp add: empty_cache_def)
qed

lemma two_registered_distinct: "distinct (map rg_shedder (gv_shedders two_registered))"
  by (simp add: two_registered_def)

text \<open>
  A reservation that fits in the budget beside the other reservations is granted while nothing
  interferes with it, whatever the caches hold and however little memory the machine has left: the
  caches, when they do not spill, make room for it within two sheds.
\<close>
theorem fitting_reservations_are_granted:
  assumes "\<forall>h. cache_ok (w h) \<and> \<not> mc_persists (w h)" and "distinct (map rg_shedder (gv_shedders g))"
    and "map_of (gv_budgets g) d = Some b" and "reserved g d + n \<le> b" and "0 \<le> reserved g d"
  shows "\<exists>g' w' r. admit_alone 6 cache_api g w d n (Checking False live) = Some (g', w', Holding r) \<and>
    rv_device r = d \<and> rv_nbytes r = n \<and> (\<forall>h. cache_ok (w' h))"
proof -
  have "caches_quiet w" using assms(1) by (simp add: caches_quiet_def)
  from quiet_caches.granted_in_the_end [OF this assms(2-4)] assms(4,5) show ?thesis
    unfolding caches_quiet_def by fastforce
qed

theorem fitting_reservations_are_granted_witness:
  "\<exists>g' w' r. admit_alone 6 cache_api two_registered two_caches ''ram'' 60 (Checking False 5) =
     Some (g', w', Holding r) \<and> rv_device r = ''ram'' \<and> rv_nbytes r = 60 \<and> (\<forall>h. cache_ok (w' h))"
  by (rule fitting_reservations_are_granted [OF _ two_registered_distinct])
    (use two_caches_quiet in \<open>auto simp: two_registered_def reserved_def\<close>)

end
