(* ===== verification/Resident_Pool.thy ===== *)
theory Resident_Pool
  imports Values Pins Governor "HOL-Library.Product_Lexorder"
begin

text \<open>
  Process-resident values: the residency table (\<^verbatim>\<open>dinkster_values/resident.py\<close>) and the governed
  pool that extends it (\<^verbatim>\<open>dinkster_memory/resident.py\<close>). Live objects are their identities; what
  their attributes hold and what the backend callbacks do is given by an environment. The pool's
  reentrant lock makes each operation one step.
\<close>

section \<open>The residency table\<close>

record table =
  tb_objects :: "(string, nat) dict"
  tb_ids :: "(nat, string) dict"
  tb_next :: nat

text \<open>\<open>fresh\<close> enumerates the random ids that \<^verbatim>\<open>uuid4\<close> draws.\<close>

definition table_rid_for :: "(nat \<Rightarrow> string) \<Rightarrow> 'a table_scheme \<Rightarrow> nat \<Rightarrow> 'a table_scheme \<times> string" where
  "table_rid_for fresh t obj =
     (let new = fresh (tb_next t);
          t' = t\<lparr>tb_objects := dict_set new obj (tb_objects t), tb_ids := dict_set obj new (tb_ids t),
                 tb_next := tb_next t + 1\<rparr>
      in case map_of (tb_ids t) obj of
        None \<Rightarrow> (t', new)
      | Some rid \<Rightarrow> if map_of (tb_objects t) rid \<noteq> Some obj then (t', new) else (t, rid))"

definition table_get :: "'a table_scheme \<Rightarrow> string \<Rightarrow> nat option" where
  "table_get t rid = map_of (tb_objects t) rid"

definition table_remove :: "'a table_scheme \<Rightarrow> string \<Rightarrow> 'a table_scheme \<times> nat option" where
  "table_remove t rid =
     (case map_of (tb_objects t) rid of
        None \<Rightarrow> (t, None)
      | Some obj \<Rightarrow> (t\<lparr>tb_objects := dict_del rid (tb_objects t), tb_ids := dict_del obj (tb_ids t)\<rparr>, Some obj))"

definition resident_resource_id :: "string \<Rightarrow> string" where
  "resident_resource_id rid = ''resident:'' @ rid"

section \<open>Objects and callbacks\<close>

text \<open>The attribute that names an object's owner: absent, \<open>None\<close> or an object.\<close>

datatype owner_attr = NoOwner | NoneOwner | Owner nat

text \<open>
  \<open>pv_refs\<close> is \<open>None\<close> when the attribute is not a tuple. \<open>pv_cost\<close> is the cost entry of the
  metadata, \<open>None\<close> when reading it raises. A callback acts on the world outside the pool:
  invalidators and \<open>pv_unload\<close> answer whether they returned, \<open>pv_terminal\<close> what it returned,
  \<open>None\<close> when it raised.
\<close>

record 'w pool_env =
  pv_owner :: "nat \<Rightarrow> owner_attr"
  pv_refs :: "nat \<Rightarrow> nat option list option"
  pv_fresh :: "nat \<Rightarrow> string"
  pv_depth :: nat
  pv_cost :: "(nat \<Rightarrow> pyobj option) option"
  pv_invalidate :: "nat \<Rightarrow> string \<Rightarrow> 'w \<Rightarrow> 'w \<times> bool"
  pv_unload :: "(nat \<Rightarrow> 'w \<Rightarrow> 'w \<times> bool) option"
  pv_terminal :: "(nat \<Rightarrow> 'w \<Rightarrow> 'w \<times> bool option) option"

datatype pool_error =
    ResidentLookupError string
  | RefsNotTuple
  | OwnerIsNone
  | OwnersChanged
  | RecursionError
  | LoadFailed
  | BadRamCost

definition resident_owners :: "'w pool_env \<Rightarrow> nat \<Rightarrow> pool_error + nat list" where
  "resident_owners env obj =
     (let primary = (case pv_owner env obj of NoOwner \<Rightarrow> Some obj | NoneOwner \<Rightarrow> None | Owner o' \<Rightarrow> Some o') in
      case pv_refs env obj of
        None \<Rightarrow> Inl RefsNotTuple
      | Some refs \<Rightarrow>
          if None \<in> set (primary # refs) then Inl OwnerIsNone
          else Inr (first_seen (map the (primary # refs))))"

section \<open>The pool\<close>

fun positive_costs :: "(pyobj \<times> pyobj) list \<Rightarrow> (string, int) dict" where
  "positive_costs [] = []"
| "positive_costs ((PStr k, PInt n) # d) = (if 0 < n then (k, n) # positive_costs d else positive_costs d)"
| "positive_costs (_ # d) = positive_costs d"

fun declared_costs :: "pyobj \<Rightarrow> (string, int) dict" where
  "declared_costs (PDict d) = positive_costs d"
| "declared_costs _ = []"

record pool_entry =
  en_cost :: "(string, int) dict"
  en_name :: "string option"
  en_last_used :: nat
  en_loaded :: bool

text \<open>
  An invalidator is held strongly or by a weak reference to its bound object. A set of ids is a
  list without duplicates. \<open>pl_loading\<close> are the keys whose loading is in progress.
\<close>

datatype invalidator = Strong nat | Weak nat

record pool = table +
  pl_entries :: "(string, pool_entry) dict"
  pl_owners :: "(string, string list) dict"
  pl_dependents :: "(string, string list) dict"
  pl_clock :: nat
  pl_invalidators :: "invalidator list"
  pl_pins :: "nat list"
  pl_keyed :: "(string, string) dict"
  pl_loading :: "string list"

definition new_pool :: pool where
  "new_pool = \<lparr>tb_objects = [], tb_ids = [], tb_next = 0, pl_entries = [], pl_owners = [], pl_dependents = [],
     pl_clock = 1, pl_invalidators = [], pl_pins = [], pl_keyed = [], pl_loading = []\<rparr>"

definition read_cost :: "'w pool_env \<Rightarrow> nat \<Rightarrow> (string, int) dict" where
  "read_cost env obj =
     (case pv_cost env of
        None \<Rightarrow> []
      | Some cost_of \<Rightarrow> (case cost_of obj of None \<Rightarrow> [] | Some cost \<Rightarrow> declared_costs cost))"

definition set_add :: "'a \<Rightarrow> 'a list \<Rightarrow> 'a list" where
  "set_add x xs = (if x \<in> set xs then xs else xs @ [x])"

definition add_dependent :: "string \<Rightarrow> string \<Rightarrow> (string, string list) dict \<Rightarrow> (string, string list) dict" where
  "add_dependent rid owner d = dict_set owner (set_add rid (dict_get_default d owner [])) d"

definition record_owners :: "pool \<Rightarrow> string \<Rightarrow> string list \<Rightarrow> pool_error + pool" where
  "record_owners p rid owner_rids =
     (if owner_rids = [] then Inr p
      else if (case map_of (pl_owners p) rid of None \<Rightarrow> False | Some previous \<Rightarrow> set previous \<noteq> set owner_rids)
      then Inl OwnersChanged
      else Inr (p\<lparr>pl_owners := dict_set rid owner_rids (pl_owners p),
                  pl_dependents := fold (add_dependent rid) owner_rids (pl_dependents p)\<rparr>))"

definition touch_entry :: "'w pool_env \<Rightarrow> pool \<Rightarrow> string \<Rightarrow> nat \<Rightarrow> pool" where
  "touch_entry env p rid obj =
     (let e = (case map_of (pl_entries p) rid of
          Some e \<Rightarrow> e
        | None \<Rightarrow> \<lparr>en_cost = read_cost env obj, en_name = None, en_last_used = 0, en_loaded = True\<rparr>)
      in p\<lparr>pl_entries := dict_set rid (e\<lparr>en_last_used := pl_clock p\<rparr>) (pl_entries p),
           pl_clock := pl_clock p + 1\<rparr>)"

fun each_rid :: "(nat \<Rightarrow> pool \<Rightarrow> pool \<times> (pool_error + string)) \<Rightarrow> nat list \<Rightarrow> pool \<Rightarrow>
    pool \<times> (pool_error + string list)" where
  "each_rid f [] p = (p, Inr [])"
| "each_rid f (obj # objs) p =
     (case f obj p of
        (p', Inl err) \<Rightarrow> (p', Inl err)
      | (p', Inr rid) \<Rightarrow>
          (case each_rid f objs p' of
             (p'', Inl err) \<Rightarrow> (p'', Inl err)
           | (p'', Inr rids) \<Rightarrow> (p'', Inr (rid # rids))))"

text \<open>
  Owners are admitted recursively; \<open>depth\<close> is what is left of the interpreter's recursion limit,
  which a cycle of owners exhausts.
\<close>

fun rid_for_within :: "'w pool_env \<Rightarrow> nat \<Rightarrow> nat \<Rightarrow> pool \<Rightarrow> pool \<times> (pool_error + string)" where
  "rid_for_within env 0 obj p = (p, Inl RecursionError)"
| "rid_for_within env (Suc depth) obj p =
     (let (p1, rid) = table_rid_for (pv_fresh env) p obj in
      attempt p1 (resident_owners env obj) (\<lambda>owners.
        case each_rid (rid_for_within env depth) (filter (\<lambda>o'. o' \<noteq> obj) owners) p1 of
          (p2, Inl err) \<Rightarrow> (p2, Inl err)
        | (p2, Inr rids) \<Rightarrow>
            attempt p2 (record_owners p2 rid (first_seen rids)) (\<lambda>p3.
              (if hd owners \<noteq> obj then p3 else touch_entry env p3 rid obj, Inr rid))))"

definition rid_for :: "'w pool_env \<Rightarrow> nat \<Rightarrow> pool \<Rightarrow> pool \<times> (pool_error + string)" where
  "rid_for env obj p = rid_for_within env (pv_depth env) obj p"

definition pool_get :: "'w pool_env \<Rightarrow> string \<Rightarrow> pool \<Rightarrow> pool \<times> (pool_error + nat)" where
  "pool_get env rid p =
     (case table_get p rid of
        None \<Rightarrow> (p, Inl (ResidentLookupError rid))
      | Some obj \<Rightarrow>
          attempt p (resident_owners env obj) (\<lambda>owners.
            if hd owners \<noteq> obj
            then (case rid_for env (hd owners) p of
                    (p', Inl err) \<Rightarrow> (p', Inl err)
                  | (p', Inr _) \<Rightarrow> (p', Inr obj))
            else (case map_of (pl_entries p) rid of
                    None \<Rightarrow> (p, Inr obj)
                  | Some e \<Rightarrow>
                      (p\<lparr>pl_entries := dict_set rid (e\<lparr>en_last_used := pl_clock p, en_loaded := True\<rparr>) (pl_entries p),
                         pl_clock := pl_clock p + 1\<rparr>, Inr obj))))"

text \<open>The id under which an object is held, if it is.\<close>

definition held_rid :: "pool \<Rightarrow> nat \<Rightarrow> string option" where
  "held_rid p obj =
     (case map_of (tb_ids p) obj of
        None \<Rightarrow> None
      | Some rid \<Rightarrow> if map_of (tb_objects p) rid \<noteq> Some obj then None else Some rid)"

definition set_loaded :: "nat \<Rightarrow> bool \<Rightarrow> pool \<Rightarrow> pool" where
  "set_loaded obj loaded p =
     (case held_rid p obj of
        None \<Rightarrow> p
      | Some rid \<Rightarrow>
          (case map_of (pl_entries p) rid of
             None \<Rightarrow> p
           | Some e \<Rightarrow> p\<lparr>pl_entries := dict_set rid (e\<lparr>en_loaded := loaded\<rparr>) (pl_entries p)\<rparr>))"

text \<open>Naming an object that has no entry of its own raises a \<^verbatim>\<open>KeyError\<close>.\<close>

definition label :: "'w pool_env \<Rightarrow> nat \<Rightarrow> string \<Rightarrow> pool \<Rightarrow> pool \<times> (pool_error + string)" where
  "label env obj name p =
     (case rid_for env obj p of
        (p', Inl err) \<Rightarrow> (p', Inl err)
      | (p', Inr rid) \<Rightarrow>
          (case map_of (pl_entries p') rid of
             None \<Rightarrow> (p', Inl (ResidentLookupError rid))
           | Some e \<Rightarrow> (p'\<lparr>pl_entries := dict_set rid (e\<lparr>en_name := Some name\<rparr>) (pl_entries p')\<rparr>, Inr rid)))"

definition is_loaded :: "pool \<Rightarrow> string \<Rightarrow> bool option" where
  "is_loaded p resource =
     map_option (\<lambda>(_, e). en_loaded e) (find (\<lambda>(rid, _). resident_resource_id rid = resource) (pl_entries p))"

subsection \<open>Removal\<close>

definition drop_dependent :: "string \<Rightarrow> string \<Rightarrow> (string, string list) dict \<Rightarrow> (string, string list) dict" where
  "drop_dependent rid owner d =
     (case map_of d owner of
        None \<Rightarrow> d
      | Some rids \<Rightarrow>
          let rids' = filter (\<lambda>r. r \<noteq> rid) rids in
          if rids' = [] then dict_del owner d else dict_set owner rids' d)"

definition detach :: "string \<Rightarrow> pool \<Rightarrow> pool" where
  "detach rid p =
     p\<lparr>pl_owners := dict_del rid (pl_owners p),
       pl_dependents := fold (drop_dependent rid) (dict_get_default (pl_owners p) rid []) (pl_dependents p)\<rparr>"

definition drop_resident :: "string \<Rightarrow> pool \<Rightarrow> pool" where
  "drop_resident rid p =
     (fst (table_remove p rid))
       \<lparr>pl_entries := dict_del rid (pl_entries p), pl_keyed := filter (\<lambda>x. snd x \<noteq> rid) (pl_keyed p)\<rparr>"

text \<open>
  A resident goes with everything that depends on it. \<open>removing\<close> are the ids already visited.
  Each nested call has taken a key out of \<open>pl_dependents\<close>: more calls than it has keys do not nest.
\<close>

primrec remove_tree :: "nat \<Rightarrow> string \<Rightarrow> pool \<times> string set \<Rightarrow> pool \<times> string set" where
  "remove_tree 0 rid s = s"
| "remove_tree (Suc k) rid s =
     (if rid \<in> snd s then s
      else
        let p1 = detach rid (fst s);
            s' = fold (remove_tree k) (dict_get_default (pl_dependents p1) rid [])
                   (p1\<lparr>pl_dependents := dict_del rid (pl_dependents p1)\<rparr>, insert rid (snd s))
        in (drop_resident rid (fst s'), snd s'))"

definition remove_resident :: "string \<Rightarrow> pool \<Rightarrow> pool \<times> nat option" where
  "remove_resident rid p =
     (fst (remove_tree (Suc (length (pl_dependents p))) rid (p, {})), map_of (tb_objects p) rid)"

subsection \<open>Loading by key\<close>

text \<open>
  \<^verbatim>\<open>obtain\<close> looks under the lock, loads outside it, and admits under it again; \<open>Joins\<close> waits for
  the load that another thread has begun.
\<close>

datatype obtain_start = Found "pool_error + nat" | Joins | Loads

definition obtain_begin :: "'w pool_env \<Rightarrow> string \<Rightarrow> pool \<Rightarrow> pool \<times> obtain_start" where
  "obtain_begin env key p =
     (case map_of (pl_keyed p) key of
        Some rid \<Rightarrow> (case pool_get env rid p of (p', r) \<Rightarrow> (p', Found r))
      | None \<Rightarrow>
          if key \<in> set (pl_loading p) then (p, Joins)
          else (p\<lparr>pl_loading := pl_loading p @ [key]\<rparr>, Loads))"

text \<open>\<open>loaded\<close>: what the factory returned and what \<^verbatim>\<open>ram_bytes\<close> says of it, or \<open>None\<close>.\<close>

definition obtain_end :: "'w pool_env \<Rightarrow> string \<Rightarrow> (nat \<times> pyobj) option \<Rightarrow> pool \<Rightarrow> pool \<times> (pool_error + nat)" where
  "obtain_end env key loaded p =
     (let stop = (\<lambda>p'. p'\<lparr>pl_loading := filter (\<lambda>k. k \<noteq> key) (pl_loading p')\<rparr>) in
      case loaded of
        None \<Rightarrow> (stop p, Inl LoadFailed)
      | Some (obj, ram) \<Rightarrow>
          (case ram of
             PInt n \<Rightarrow>
               if n < 0 then (stop p, Inl BadRamCost)
               else
                 (case rid_for env obj p of
                    (p1, Inl err) \<Rightarrow> (stop p1, Inl err)
                  | (p1, Inr rid) \<Rightarrow>
                      attempt (stop p1) (resident_owners env obj) (\<lambda>owners.
                        case rid_for env (hd owners) p1 of
                          (p2, Inl err) \<Rightarrow> (stop p2, Inl err)
                        | (p2, Inr owner) \<Rightarrow>
                            (case map_of (pl_entries p2) owner of
                               None \<Rightarrow> (stop p2, Inl (ResidentLookupError owner))
                             | Some e \<Rightarrow>
                                 (stop (p2\<lparr>pl_entries := dict_set owner (e\<lparr>en_cost := dict_set ''ram'' n (en_cost e)\<rparr>)
                                      (pl_entries p2), pl_keyed := dict_set key rid (pl_keyed p2)\<rparr>), Inr obj))))
           | _ \<Rightarrow> (stop p, Inl BadRamCost)))"

section \<open>Consistency\<close>

definition table_ok :: "(nat \<Rightarrow> string) \<Rightarrow> 'a table_scheme \<Rightarrow> bool" where
  "table_ok fresh t \<longleftrightarrow> dict_ok (tb_objects t) \<and> dict_ok (tb_ids t) \<and>
     (\<forall>rid obj. map_of (tb_objects t) rid = Some obj \<longleftrightarrow> map_of (tb_ids t) obj = Some rid) \<and>
     dom (map_of (tb_objects t)) \<subseteq> fresh ` {..<tb_next t}"

definition held :: "'a table_scheme \<Rightarrow> string set" where
  "held t = dom (map_of (tb_objects t))"

lemma held_update [simp]:
  "held (p\<lparr>pl_entries := es\<rparr>) = held p" "held (p\<lparr>pl_clock := c\<rparr>) = held p"
  "held (p\<lparr>pl_keyed := ks\<rparr>) = held p" "held (p\<lparr>pl_loading := ls\<rparr>) = held p"
  "held (p\<lparr>pl_owners := os\<rparr>) = held p" "held (p\<lparr>pl_dependents := ds\<rparr>) = held p"
  "held (p\<lparr>pl_invalidators := is\<rparr>) = held p" "held (p\<lparr>pl_pins := hs\<rparr>) = held p"
  by (simp_all add: held_def)

definition owners_of :: "pool \<Rightarrow> string \<Rightarrow> string set" where
  "owners_of p rid = set (dict_get_default (pl_owners p) rid [])"

definition dependents_of :: "pool \<Rightarrow> string \<Rightarrow> string set" where
  "dependents_of p rid = set (dict_get_default (pl_dependents p) rid [])"

definition entry_ok :: "nat \<Rightarrow> pool_entry \<Rightarrow> bool" where
  "entry_ok clock e \<longleftrightarrow> en_last_used e < clock \<and> list_all (\<lambda>(_, n). 0 \<le> n) (en_cost e)"

text \<open>
  The two dependency maps are inverse to each other and stay among the held ids; entries and keys
  belong to held ids; the clock is ahead of every entry.
\<close>

definition pool_ok :: "(nat \<Rightarrow> string) \<Rightarrow> pool \<Rightarrow> bool" where
  "pool_ok fresh p \<longleftrightarrow> table_ok fresh p \<and> dict_ok (pl_entries p) \<and>
     (\<forall>rid e. map_of (pl_entries p) rid = Some e \<longrightarrow> rid \<in> held p \<and> entry_ok (pl_clock p) e) \<and>
     snd ` set (pl_keyed p) \<subseteq> held p \<and>
     (\<forall>rid owner. owner \<in> owners_of p rid \<longleftrightarrow> rid \<in> dependents_of p owner) \<and>
     (\<forall>rid owner. owner \<in> owners_of p rid \<longrightarrow> rid \<in> held p \<and> owner \<in> held p)"

lemma new_pool_ok: "pool_ok fresh new_pool"
  by (simp add: pool_ok_def new_pool_def table_ok_def owners_of_def dependents_of_def)

subsection \<open>The table\<close>

lemma table_rid_for_ok:
  assumes "inj fresh" and "table_ok fresh t" and "table_rid_for fresh t obj = (t', rid)"
  shows "table_ok fresh t'" and "map_of (tb_objects t') rid = Some obj"
    and "map_of (tb_objects t) \<subseteq>\<^sub>m map_of (tb_objects t')" and "table.more t' = table.more t"
    and "map_of (tb_ids t) obj = Some rid \<Longrightarrow> t' = t"
    and "map_of (tb_ids t) obj = None \<Longrightarrow> rid \<notin> held t \<and> rid = fresh (tb_next t)"
    and "tb_next t \<le> tb_next t'" and "held t' \<subseteq> held t \<union> fresh ` {tb_next t..}"
proof -
  have new: "map_of (tb_objects t) (fresh (tb_next t)) = None"
  proof (rule ccontr)
    assume "\<not> ?thesis"
    then have "fresh (tb_next t) \<in> fresh ` {..<tb_next t}" using assms(2) unfolding table_ok_def by (metis domIff subsetD)
    then show False using assms(1) by (auto simp: inj_def)
  qed
  have known: "map_of (tb_objects t) r = Some obj" if "map_of (tb_ids t) obj = Some r" for r
    using assms(2) that by (simp add: table_ok_def)
  note unfold = assms(3) [unfolded table_rid_for_def Let_def]
  show "table_ok fresh t'"
  proof (cases "map_of (tb_ids t) obj")
    case None
    then have t': "t' = t\<lparr>tb_objects := dict_set (fresh (tb_next t)) obj (tb_objects t),
        tb_ids := dict_set obj (fresh (tb_next t)) (tb_ids t), tb_next := tb_next t + 1\<rparr>"
      using unfold by auto
    have "map_of (tb_objects t) r \<noteq> Some obj" for r using assms(2) None by (simp add: table_ok_def)
    moreover have "map_of (tb_ids t) o' \<noteq> Some (fresh (tb_next t))" for o'
      using assms(2) new unfolding table_ok_def by (metis option.distinct(1))
    ultimately have "(map_of (tb_objects t') r = Some o') = (map_of (tb_ids t') o' = Some r)" for r o'
      using assms(2) by (simp add: t' table_ok_def)
    moreover have "dom (map_of (tb_objects t')) \<subseteq> fresh ` {..<tb_next t'}"
      using assms(2) by (simp add: t' table_ok_def lessThan_Suc) blast
    ultimately show ?thesis using assms(2) by (simp add: table_ok_def t')
  next
    case (Some r)
    with known unfold assms(2) show ?thesis by simp
  qed
  show "map_of (tb_objects t') rid = Some obj" "table.more t' = table.more t"
    "map_of (tb_objects t) \<subseteq>\<^sub>m map_of (tb_objects t')"
    using unfold known new by (auto simp: map_le_def dom_def split: option.splits if_splits)
  show "tb_next t \<le> tb_next t'" "held t' \<subseteq> held t \<union> fresh ` {tb_next t..}"
    using unfold known new by (auto simp: held_def split: option.splits if_splits)
  show "map_of (tb_ids t) obj = Some rid \<Longrightarrow> t' = t"
    "map_of (tb_ids t) obj = None \<Longrightarrow> rid \<notin> held t \<and> rid = fresh (tb_next t)"
    using unfold known new by (auto simp: held_def split: option.splits if_splits)
qed

lemma table_remove_ok:
  assumes "table_ok fresh t"
  shows "table_ok fresh (fst (table_remove t rid))"
    and "map_of (tb_objects (fst (table_remove t rid))) = (map_of (tb_objects t))(rid := None)"
    and "table.more (fst (table_remove t rid)) = table.more t"
proof -
  have "obj = obj'" if "map_of (tb_ids t) obj = Some rid" "map_of (tb_ids t) obj' = Some rid" for obj obj'
    using assms that unfolding table_ok_def by (metis option.inject)
  with assms show "table_ok fresh (fst (table_remove t rid))"
    by (auto simp: table_remove_def table_ok_def split: option.split)
qed (auto simp: table_remove_def fun_eq_iff split: option.split)

subsection \<open>Admission\<close>

text \<open>\<open>grows fresh p' p\<close>: every held id keeps its object, new ids are drawn afresh, the clock advances, keys and
  callbacks stay.\<close>

definition grows :: "(nat \<Rightarrow> string) \<Rightarrow> pool \<Rightarrow> pool \<Rightarrow> bool" where
  "grows fresh p' p \<longleftrightarrow> map_of (tb_objects p) \<subseteq>\<^sub>m map_of (tb_objects p') \<and> pl_clock p \<le> pl_clock p' \<and>
     pl_keyed p' = pl_keyed p \<and> pl_invalidators p' = pl_invalidators p \<and> pl_pins p' = pl_pins p \<and>
     pl_loading p' = pl_loading p \<and> tb_next p \<le> tb_next p' \<and>
     held p' \<subseteq> held p \<union> fresh ` {tb_next p..}"

lemma grows_refl [simp]: "grows fresh p p"
  by (simp add: grows_def)

lemma grows_trans: "grows fresh p'' p' \<Longrightarrow> grows fresh p' p \<Longrightarrow> grows fresh p'' p"
proof -
  assume 1: "grows fresh p'' p'" and 2: "grows fresh p' p"
  have "fresh ` {tb_next p'..} \<subseteq> fresh ` {tb_next p..}" using 2 by (auto simp: grows_def)
  with 1 2 show ?thesis unfolding grows_def by (auto intro: map_le_trans)
qed

lemma grows_held: "grows fresh p' p \<Longrightarrow> held p \<subseteq> held p'"
  by (auto simp: grows_def held_def dest: map_le_implies_dom_le)

lemma dependents_add:
  "set (dict_get_default (fold (add_dependent rid) os d) o' []) =
     set (dict_get_default d o' []) \<union> (if o' \<in> set os then {rid} else {})"
  by (induction os arbitrary: d) (auto simp: add_dependent_def set_add_def)

lemma record_owners_ok:
  assumes p: "pool_ok fresh p" and rid: "rid \<in> held p" and os: "set os \<subseteq> held p"
    and rec: "record_owners p rid os = Inr p'"
  shows "pool_ok fresh p' \<and> grows fresh p' p \<and> tb_objects p' = tb_objects p \<and> pl_entries p' = pl_entries p"
proof (cases "os = []")
  case True
  with rec p show ?thesis by (simp add: record_owners_def)
next
  case False
  have prev: "owners_of p rid \<subseteq> set os"
    using rec False by (auto simp: record_owners_def owners_of_def dict_get_default_def split: if_splits option.splits)
  have p': "p' = p\<lparr>pl_owners := dict_set rid os (pl_owners p),
      pl_dependents := fold (add_dependent rid) os (pl_dependents p)\<rparr>"
    using rec False by (simp add: record_owners_def split: if_splits)
  have own: "owners_of p' r = (if r = rid then set os else owners_of p r)" for r
    by (simp add: owners_of_def p')
  have dep: "dependents_of p' o' = dependents_of p o' \<union> (if o' \<in> set os then {rid} else {})" for o'
    by (simp add: dependents_of_def p' dependents_add)
  have "(o' \<in> owners_of p' r) = (r \<in> dependents_of p' o')" for r o'
    using p prev unfolding own dep pool_ok_def by auto
  moreover have "r \<in> held p \<and> o' \<in> held p" if "o' \<in> owners_of p' r" for r o'
    using p rid os that unfolding own pool_ok_def by (auto split: if_splits)
  ultimately show ?thesis
    using p by (simp add: pool_ok_def p' table_ok_def held_def grows_def)
qed

lemma declared_costs_nonneg: "list_all (\<lambda>(_, n). 0 \<le> n) (declared_costs c)"
proof -
  have "list_all (\<lambda>(_, n). 0 \<le> n) (positive_costs d)" for d
    by (induction d rule: positive_costs.induct) auto
  then show ?thesis by (cases c) auto
qed

lemma read_cost_nonneg: "list_all (\<lambda>(_, n). 0 \<le> n) (read_cost env obj)"
  by (simp add: read_cost_def declared_costs_nonneg split: option.split)

text \<open>Changes of entries, keys and clock leave the rest of the invariant alone.\<close>

lemma pool_ok_change:
  assumes "pool_ok fresh p" and "tb_objects p' = tb_objects p" "tb_ids p' = tb_ids p" "tb_next p' = tb_next p"
    and "pl_owners p' = pl_owners p" "pl_dependents p' = pl_dependents p" and "dict_ok (pl_entries p')"
    and "\<And>rid e. map_of (pl_entries p') rid = Some e \<Longrightarrow> rid \<in> held p \<and> entry_ok (pl_clock p') e"
    and "snd ` set (pl_keyed p') \<subseteq> held p"
  shows "pool_ok fresh p'"
  using assms(1,7-9) unfolding pool_ok_def table_ok_def held_def owners_of_def dependents_of_def assms(2-6)
  by blast

lemma pool_okD:
  assumes "pool_ok fresh p"
  shows "table_ok fresh p" "dict_ok (pl_entries p)" "snd ` set (pl_keyed p) \<subseteq> held p"
    and "map_of (pl_entries p) rid = Some e \<Longrightarrow> rid \<in> held p \<and> entry_ok (pl_clock p) e"
    and "owner \<in> owners_of p rid \<longleftrightarrow> rid \<in> dependents_of p owner"
    and "owner \<in> owners_of p rid \<Longrightarrow> rid \<in> held p \<and> owner \<in> held p"
  using assms by (simp_all add: pool_ok_def)

lemma entry_ok_later: "entry_ok c e \<Longrightarrow> c \<le> c' \<Longrightarrow> entry_ok c' e"
  by (simp add: entry_ok_def)

lemma entries_ok:
  assumes "pool_ok fresh p" and "rid \<in> held p" and "entry_ok c e" and "pl_clock p \<le> c"
  shows "pool_ok fresh (p\<lparr>pl_entries := dict_set rid e (pl_entries p), pl_clock := c\<rparr>)"
proof (rule pool_ok_change [OF assms(1)])
  fix r f
  assume "map_of (pl_entries (p\<lparr>pl_entries := dict_set rid e (pl_entries p), pl_clock := c\<rparr>)) r = Some f"
  then show "r \<in> held p \<and> entry_ok (pl_clock (p\<lparr>pl_entries := dict_set rid e (pl_entries p), pl_clock := c\<rparr>)) f"
    using assms pool_okD(4) [OF assms(1), of r f] entry_ok_later [of "pl_clock p" f c] by (auto split: if_splits)
qed (use pool_okD [OF assms(1)] in simp_all)

lemma touch_ok:
  assumes "pool_ok fresh p" and "rid \<in> held p"
  shows "pool_ok fresh (touch_entry env p rid obj) \<and> grows fresh (touch_entry env p rid obj) p"
proof -
  let ?e = "case map_of (pl_entries p) rid of Some e \<Rightarrow> e
    | None \<Rightarrow> \<lparr>en_cost = read_cost env obj, en_name = None, en_last_used = 0, en_loaded = True\<rparr>"
  have "entry_ok (pl_clock p + 1) (?e\<lparr>en_last_used := pl_clock p\<rparr>)"
    using assms(1) by (auto simp: entry_ok_def pool_ok_def read_cost_nonneg split: option.split)
  from entries_ok [OF assms this] show ?thesis by (simp add: touch_entry_def Let_def grows_def)
qed

definition admits :: "(nat \<Rightarrow> string) \<Rightarrow> (nat \<Rightarrow> pool \<Rightarrow> pool \<times> (pool_error + string)) \<Rightarrow> bool" where
  "admits fresh f \<longleftrightarrow> (\<forall>obj p p' r. pool_ok fresh p \<longrightarrow> f obj p = (p', r) \<longrightarrow>
     pool_ok fresh p' \<and> grows fresh p' p \<and> (\<forall>rid. r = Inr rid \<longrightarrow> map_of (tb_objects p') rid = Some obj))"

lemma admitsD:
  "admits fresh f \<Longrightarrow> pool_ok fresh p \<Longrightarrow> f obj p = (p', r) \<Longrightarrow>
     pool_ok fresh p' \<and> grows fresh p' p \<and> (\<forall>rid. r = Inr rid \<longrightarrow> map_of (tb_objects p') rid = Some obj)"
  unfolding admits_def by blast

lemma each_rid_ok:
  assumes "admits fresh f" and "pool_ok fresh p" and "each_rid f objs p = (p', r)"
  shows "pool_ok fresh p' \<and> grows fresh p' p \<and> (\<forall>rids. r = Inr rids \<longrightarrow> set rids \<subseteq> held p')"
  using assms(2,3)
proof (induction objs arbitrary: p r)
  case (Cons obj objs)
  obtain p1 x where x: "f obj p = (p1, x)" by fastforce
  note p1 = admitsD [OF assms(1) Cons.prems(1) x]
  show ?case
  proof (cases x)
    case (Inl err)
    with Cons.prems x p1 show ?thesis by auto
  next
    case (Inr rid)
    obtain p2 y where y: "each_rid f objs p1 = (p2, y)" by fastforce
    have p2: "pool_ok fresh p2 \<and> grows fresh p2 p1 \<and> (\<forall>rids. y = Inr rids \<longrightarrow> set rids \<subseteq> held p2)"
      using Cons.IH [of p1 y] p1 y Cons.prems(2) x Inr by (cases y) auto
    have "rid \<in> held p1" using p1 Inr by (auto simp: held_def)
    then have "rid \<in> held p2" using p2 grows_held by blast
    with p1 p2 Cons.prems(2) x y Inr show ?thesis
      by (cases y) (auto intro: grows_trans)
  qed
qed simp

lemma table_rid_for_pool:
  assumes "inj fresh" and p: "pool_ok fresh p" and t: "table_rid_for fresh p obj = (p', rid)"
  shows "pool_ok fresh p' \<and> grows fresh p' p \<and> map_of (tb_objects p') rid = Some obj"
proof -
  have ok: "table_ok fresh p" using p by (simp add: pool_ok_def)
  note t' = table_rid_for_ok [OF assms(1) ok t]
  have le: "held p \<subseteq> held p'" using map_le_implies_dom_le [OF t'(3)] by (simp add: held_def)
  have more: "pl_entries p' = pl_entries p" "pl_owners p' = pl_owners p" "pl_dependents p' = pl_dependents p"
      "pl_clock p' = pl_clock p" "pl_keyed p' = pl_keyed p" "pl_invalidators p' = pl_invalidators p"
      "pl_pins p' = pl_pins p" "pl_loading p' = pl_loading p"
    using t by (auto simp: table_rid_for_def Let_def split: option.splits if_splits)
  have "pool_ok fresh p'"
    using p le t'(1) unfolding pool_ok_def owners_of_def dependents_of_def more by blast
  then show ?thesis using t' more by (simp add: grows_def)
qed

lemma rid_for_within_ok:
  assumes "inj (pv_fresh env)"
  shows "admits (pv_fresh env) (rid_for_within env k)"
proof (induction k)
  case 0
  show ?case by (simp add: admits_def)
next
  case (Suc k)
  let ?fresh = "pv_fresh env"
  have "pool_ok ?fresh p' \<and> grows ?fresh p' p \<and> (\<forall>rid. r = Inr rid \<longrightarrow> map_of (tb_objects p') rid = Some obj)"
    if p: "pool_ok ?fresh p" and r: "rid_for_within env (Suc k) obj p = (p', r)" for obj p p' r
  proof -
    obtain p1 rid where t: "table_rid_for ?fresh p obj = (p1, rid)" by fastforce
    note p1 = table_rid_for_pool [OF assms p t]
    show ?thesis
    proof (cases "resident_owners env obj")
      case (Inl err)
      have "p' = p1" "r = Inl err" using r t Inl by simp_all
      then show ?thesis using p1 by blast
    next
      case (Inr owners)
      obtain p2 x where x: "each_rid (rid_for_within env k) (filter (\<lambda>o'. o' \<noteq> obj) owners) p1 = (p2, x)"
        by fastforce
      have p2: "pool_ok ?fresh p2 \<and> grows ?fresh p2 p1 \<and> (\<forall>rids. x = Inr rids \<longrightarrow> set rids \<subseteq> held p2)"
        using each_rid_ok [OF Suc] p1 x by blast
      have g2: "grows ?fresh p2 p" using p1 p2 grows_trans by blast
      have rid: "map_of (tb_objects p2) rid = Some obj"
        using p1 p2 unfolding grows_def map_le_def by (metis domI)
      then have held: "rid \<in> held p2" by (auto simp: held_def)
      show ?thesis
      proof (cases x)
        case err: (Inl err)
        have "p' = p2" "r = Inl err" using r t Inr x err by simp_all
        then show ?thesis using p2 g2 by blast
      next
        case rids: (Inr rids)
        show ?thesis
        proof (cases "record_owners p2 rid (first_seen rids)")
          case err: (Inl err)
          have "p' = p2" "r = Inl err" using r t Inr x rids err by simp_all
          then show ?thesis using p2 g2 by blast
        next
          case p3: (Inr p3)
          have "set (first_seen rids) \<subseteq> held p2" using p2 rids by simp
          note ok3 = record_owners_ok [OF conjunct1 [OF p2] held this p3]
          have p3ok: "pool_ok ?fresh p3" "grows ?fresh p3 p2" "tb_objects p3 = tb_objects p2"
            using ok3 by blast+
          have held3: "rid \<in> held p3" using held p3ok(3) by (simp add: held_def)
          note touched = touch_ok [OF p3ok(1) held3, of env obj]
          have res: "r = Inr rid" "p' = (if hd owners \<noteq> obj then p3 else touch_entry env p3 rid obj)"
            using r t Inr x rids p3 by simp_all
          have "tb_objects p' = tb_objects p2"
            using res p3ok(3) by (simp add: touch_entry_def Let_def)
          moreover have "pool_ok ?fresh p' \<and> grows ?fresh p' p3" using res p3ok touched by simp
          moreover have "grows ?fresh p' p" if "grows ?fresh p' p3" by (rule grows_trans [OF grows_trans [OF that p3ok(2)] g2])
          ultimately show ?thesis using res(1) rid by simp
        qed
      qed
    qed
  qed
  then show ?case unfolding admits_def by blast
qed

lemma rid_for_ok:
  assumes "inj (pv_fresh env)" and "pool_ok (pv_fresh env) p" and "rid_for env obj p = (p', r)"
  shows "pool_ok (pv_fresh env) p'" and "grows (pv_fresh env) p' p" and "r = Inr rid \<Longrightarrow> map_of (tb_objects p') rid = Some obj"
  using admitsD [OF rid_for_within_ok [OF assms(1)] assms(2), of "pv_depth env" obj p' r] assms(3)
  by (simp_all add: rid_for_def)

subsection \<open>Removal\<close>

lemma dependents_drop:
  "set (dict_get_default (fold (drop_dependent rid) os d) o' []) =
     set (dict_get_default d o' []) - (if o' \<in> set os then {rid} else {})"
proof (induction os arbitrary: d)
  case (Cons a os)
  have "set (dict_get_default (drop_dependent rid a d) o' []) =
      set (dict_get_default d o' []) - (if o' = a then {rid} else {})"
    by (auto simp: drop_dependent_def Let_def dict_get_default_def filter_empty_conv split: option.split)
  with Cons show ?case by auto
qed simp

lemma length_drop_dependent: "length (drop_dependent rid owner d) \<le> length d"
proof -
  have "length (dict_set owner x d) = length d" if "map_of d owner = Some y" for x y
    using that by (induction d) auto
  then show ?thesis
    by (auto simp: drop_dependent_def Let_def dict_del_filter split: option.split)
qed

lemma length_drop_dependents: "length (fold (drop_dependent rid) os d) \<le> length d"
  by (induction os arbitrary: d) (auto intro: le_trans [OF _ length_drop_dependent])

text \<open>
  During a removal \<open>R\<close> has been visited. A visited id has neither owners nor dependents any more, and the two maps are
  inverse to each other for the owners not yet visited.
\<close>

definition removing_ok :: "pool \<times> string set \<Rightarrow> bool" where
  "removing_ok s \<longleftrightarrow> (\<forall>r \<in> snd s. owners_of (fst s) r = {} \<and> dependents_of (fst s) r = {}) \<and>
     (\<forall>rid owner. owner \<notin> snd s \<longrightarrow> (owner \<in> owners_of (fst s) rid \<longleftrightarrow> rid \<in> dependents_of (fst s) owner))"

text \<open>The ids of \<open>D\<close> have gone from the table, the entries and the keys, and nothing else.\<close>

definition drops :: "string set \<Rightarrow> pool \<Rightarrow> pool \<Rightarrow> bool" where
  "drops D p' p \<longleftrightarrow> map_of (tb_objects p') = map_of (tb_objects p) |` (- D) \<and>
     pl_entries p' = filter (\<lambda>x. fst x \<notin> D) (pl_entries p) \<and>
     pl_keyed p' = filter (\<lambda>x. snd x \<notin> D) (pl_keyed p) \<and>
     pl_clock p' = pl_clock p \<and> pl_invalidators p' = pl_invalidators p \<and>
     pl_pins p' = pl_pins p \<and> pl_loading p' = pl_loading p \<and> tb_next p' = tb_next p"

lemma restrict_UNIV [simp]: "m |` UNIV = m"
  by (simp add: restrict_map_def)

lemma drops_refl: "drops {} p p"
  by (simp add: drops_def)

lemma drops_trans: "drops D' p'' p' \<Longrightarrow> drops D p' p \<Longrightarrow> drops (D \<union> D') p'' p"
  by (simp add: drops_def restrict_restrict Compl_Un)

definition removed :: "(nat \<Rightarrow> string) \<Rightarrow> pool \<times> string set \<Rightarrow> pool \<times> string set \<Rightarrow> bool" where
  "removed fresh s' s \<longleftrightarrow> removing_ok s' \<and> snd s \<subseteq> snd s' \<and> table_ok fresh (fst s') \<and>
     (\<forall>r. r \<notin> snd s' \<longrightarrow> owners_of (fst s') r = owners_of (fst s) r) \<and>
     (\<forall>owner \<in> snd s' - snd s. \<forall>r. owner \<notin> owners_of (fst s') r) \<and>
     drops (snd s' - snd s) (fst s') (fst s) \<and>
     length (pl_dependents (fst s')) \<le> length (pl_dependents (fst s))"

lemma removed_refl: "removing_ok s \<Longrightarrow> table_ok fresh (fst s) \<Longrightarrow> removed fresh s s"
  by (simp add: removed_def drops_refl)

lemma owners_shrink:
  assumes "removed fresh s' s" and "removing_ok s"
  shows "owners_of (fst s') r \<subseteq> owners_of (fst s) r"
  using assms by (cases "r \<in> snd s'") (auto simp: removed_def removing_ok_def)

lemma removed_trans:
  assumes 1: "removed fresh s'' s'" and 2: "removed fresh s' s"
  shows "removed fresh s'' s"
proof -
  have sub: "snd s'' - snd s = (snd s' - snd s) \<union> (snd s'' - snd s')"
    using assms by (auto simp: removed_def)
  have "drops (snd s'' - snd s) (fst s'') (fst s)"
    unfolding sub using assms by (auto simp: removed_def intro: drops_trans)
  moreover have "owner \<notin> owners_of (fst s'') r" if "owner \<in> snd s'' - snd s" for owner r
  proof
    assume in_r: "owner \<in> owners_of (fst s'') r"
    then have "owner \<notin> snd s'' - snd s'" using 1 by (auto simp: removed_def)
    then have "owner \<in> snd s' - snd s" using that sub by blast
    moreover have "owner \<in> owners_of (fst s') r"
      using owners_shrink [OF 1, of r] in_r 2 by (auto simp: removed_def)
    ultimately show False using 2 by (auto simp: removed_def)
  qed
  moreover have "owners_of (fst s'') r = owners_of (fst s) r" if "r \<notin> snd s''" for r
    using that 1 2 by (auto simp: removed_def)
  moreover have "removing_ok s''" "table_ok fresh (fst s'')" "snd s \<subseteq> snd s''"
      "length (pl_dependents (fst s'')) \<le> length (pl_dependents (fst s))"
    using 1 2 by (auto simp: removed_def)
  ultimately show ?thesis unfolding removed_def by blast
qed

text \<open>The first step of a visit: detaching, and taking the dependents out of the map.\<close>

definition visited :: "string \<Rightarrow> pool \<times> string set \<Rightarrow> pool \<times> string set" where
  "visited rid s = (let p1 = detach rid (fst s) in
     (p1\<lparr>pl_dependents := dict_del rid (pl_dependents p1)\<rparr>, insert rid (snd s)))"

lemma owners_detach: "owners_of (detach rid p) r = (if r = rid then {} else owners_of p r)"
  by (simp add: owners_of_def detach_def)

lemma dependents_detach:
  "dependents_of (detach rid p) o' = dependents_of p o' - (if o' \<in> owners_of p rid then {rid} else {})"
  by (simp add: dependents_of_def owners_of_def detach_def dependents_drop)

lemma visited_ok:
  assumes s: "removing_ok s" and "rid \<notin> snd s"
  shows "removing_ok (visited rid s)"
    and "\<And>r. r \<noteq> rid \<Longrightarrow> owners_of (fst (visited rid s)) r = owners_of (fst s) r"
    and "\<And>r. rid \<in> owners_of (fst (visited rid s)) r \<Longrightarrow> r \<in> dependents_of (detach rid (fst s)) rid"
    and "snd (visited rid s) = insert rid (snd s)"
proof -
  have own: "owners_of (fst (visited rid s)) r = (if r = rid then {} else owners_of (fst s) r)" for r
    using owners_detach [of rid "fst s" r] by (simp add: visited_def Let_def owners_of_def)
  have dep: "dependents_of (fst (visited rid s)) o' =
      (if o' = rid then {} else dependents_of (detach rid (fst s)) o')" for o'
    by (simp add: visited_def Let_def dependents_of_def)
  show "snd (visited rid s) = insert rid (snd s)" by (simp add: visited_def Let_def)
  then show "removing_ok (visited rid s)"
    using s unfolding removing_ok_def own dep dependents_detach by auto
  show "\<And>r. r \<noteq> rid \<Longrightarrow> owners_of (fst (visited rid s)) r = owners_of (fst s) r"
    unfolding own by simp
  show "\<And>r. rid \<in> owners_of (fst (visited rid s)) r \<Longrightarrow> r \<in> dependents_of (detach rid (fst s)) rid"
    using s assms(2) unfolding own dependents_detach removing_ok_def by (auto split: if_splits)
qed

lemma visited_rest:
  "tb_objects (fst (visited rid s)) = tb_objects (fst s)" "tb_ids (fst (visited rid s)) = tb_ids (fst s)"
  "tb_next (fst (visited rid s)) = tb_next (fst s)" "pl_entries (fst (visited rid s)) = pl_entries (fst s)"
  "pl_keyed (fst (visited rid s)) = pl_keyed (fst s)" "drops {} (fst (visited rid s)) (fst s)"
  by (simp_all add: visited_def Let_def detach_def drops_def)

lemma visited_length:
  "length (pl_dependents (fst (visited rid s))) \<le> length (pl_dependents (fst s))"
  "dict_get_default (pl_dependents (detach rid (fst s))) rid [] \<noteq> [] \<Longrightarrow>
     length (pl_dependents (fst (visited rid s))) < length (pl_dependents (fst s))"
proof -
  let ?d = "pl_dependents (detach rid (fst s))"
  have le: "length ?d \<le> length (pl_dependents (fst s))"
    by (simp add: detach_def length_drop_dependents)
  have del: "length (dict_del rid ?d) \<le> length ?d" by (simp add: dict_del_filter)
  from le del show "length (pl_dependents (fst (visited rid s))) \<le> length (pl_dependents (fst s))"
    by (simp add: visited_def Let_def)
  assume "dict_get_default ?d rid [] \<noteq> []"
  then have "\<exists>v. (rid, v) \<in> set ?d"
    by (auto simp: dict_get_default_def split: option.splits dest: map_of_SomeD)
  then have "length (dict_del rid ?d) < length ?d"
    unfolding dict_del_filter by (force intro: length_filter_less)
  with le show "length (pl_dependents (fst (visited rid s))) < length (pl_dependents (fst s))"
    by (simp add: visited_def Let_def)
qed

lemma drop_resident_rest:
  "owners_of (drop_resident rid p) = owners_of p" "dependents_of (drop_resident rid p) = dependents_of p"
  "pl_dependents (drop_resident rid p) = pl_dependents p"
  by (auto simp: drop_resident_def table_remove_def owners_of_def dependents_of_def fun_eq_iff split: option.split)

lemma drop_resident_drops:
  assumes "table_ok fresh p"
  shows "table_ok fresh (drop_resident rid p)" and "drops {rid} (drop_resident rid p) p"
proof -
  have "tb_objects (drop_resident rid p) = tb_objects (fst (table_remove p rid))"
    "tb_ids (drop_resident rid p) = tb_ids (fst (table_remove p rid))"
    "tb_next (drop_resident rid p) = tb_next (fst (table_remove p rid))"
    by (simp_all add: drop_resident_def)
  then show "table_ok fresh (drop_resident rid p)"
    using table_remove_ok(1) [OF assms, of rid] by (simp add: table_ok_def)
  have "map_of (tb_objects (drop_resident rid p)) = map_of (tb_objects p) |` (- {rid})"
    using table_remove_ok(2) [OF assms, of rid] by (simp add: drop_resident_def restrict_complement_singleton_eq)
  then show "drops {rid} (drop_resident rid p) p"
    by (auto simp: drops_def drop_resident_def table_remove_def dict_del_filter split_beta split: option.split)
qed

lemma remove_tree_step:
  "rid \<notin> snd s \<Longrightarrow> remove_tree (Suc k) rid s =
     (let s' = fold (remove_tree k) (dict_get_default (pl_dependents (detach rid (fst s))) rid []) (visited rid s)
      in (drop_resident rid (fst s'), snd s'))"
  by (simp add: visited_def Let_def)

lemma remove_tree_removed:
  "length (pl_dependents (fst s)) < k \<Longrightarrow> removing_ok s \<Longrightarrow> table_ok fresh (fst s) \<Longrightarrow>
     removed fresh (remove_tree k rid s) s \<and> rid \<in> snd (remove_tree k rid s)"
proof (induction k arbitrary: rid s)
  case (Suc k)
  show ?case
  proof (cases "rid \<in> snd s")
    case True
    with Suc.prems show ?thesis by (simp add: removed_refl)
  next
    case False
    let ?kids = "dict_get_default (pl_dependents (detach rid (fst s))) rid []"
    note v = visited_ok [OF Suc.prems(2) False]
    have each: "removed fresh (fold (remove_tree k) kids t) t \<and> set kids \<subseteq> snd (fold (remove_tree k) kids t)"
      if "kids = [] \<or> length (pl_dependents (fst t)) < k" "removing_ok t" "table_ok fresh (fst t)" for kids t
      using that
    proof (induction kids arbitrary: t)
      case (Cons kid kids)
      let ?t = "remove_tree k kid t"
      have t: "removed fresh ?t t" "kid \<in> snd ?t" using Suc.IH [of t kid] Cons.prems by auto
      then have "length (pl_dependents (fst ?t)) < k" "removing_ok ?t" "table_ok fresh (fst ?t)"
        using Cons.prems(1) by (auto simp: removed_def)
      with Cons.IH [of ?t] have rest: "removed fresh (fold (remove_tree k) kids ?t) ?t"
        "set kids \<subseteq> snd (fold (remove_tree k) kids ?t)" by auto
      moreover have "kid \<in> snd (fold (remove_tree k) kids ?t)" using rest(1) t(2) by (auto simp: removed_def)
      ultimately show ?case using removed_trans [OF rest(1) t(1)] by simp
    qed (simp add: removed_refl)
    define s' where "s' = fold (remove_tree k) ?kids (visited rid s)"
    have "?kids = [] \<or> length (pl_dependents (fst (visited rid s))) < k"
      using visited_length(2) [of rid s] Suc.prems(1) by linarith
    moreover have "table_ok fresh (fst (visited rid s))"
      using Suc.prems(3) by (simp add: table_ok_def visited_rest)
    ultimately have s': "removed fresh s' (visited rid s)" "set ?kids \<subseteq> snd s'"
      unfolding s'_def using each v(1) by blast+
    have "rid \<notin> owners_of (fst s') r" for r
    proof
      assume r: "rid \<in> owners_of (fst s') r"
      then have "r \<in> dependents_of (detach rid (fst s)) rid"
        using owners_shrink [OF s'(1) v(1), of r] v(3) by blast
      then have "r \<in> snd s'" using s'(2) by (auto simp: dependents_of_def)
      with r s'(1) show False by (auto simp: removed_def removing_ok_def)
    qed
    moreover have "rid \<in> snd s'" "snd s \<subseteq> snd s'" using s'(1) v(4) by (auto simp: removed_def)
    moreover have "snd s' - snd s = (snd s' - snd (visited rid s)) \<union> {rid}"
      using False v(4) calculation(2) by auto
    moreover have "drops ((snd s' - snd (visited rid s)) \<union> {rid}) (drop_resident rid (fst s')) (fst s)"
    proof -
      have "drops (snd s' - snd (visited rid s)) (fst s') (fst (visited rid s))" "table_ok fresh (fst s')"
        using s'(1) by (simp_all add: removed_def)
      from drops_trans [OF drop_resident_drops(2) [OF this(2), of rid] drops_trans [OF this(1) visited_rest(6)]]
      show ?thesis by simp
    qed
    moreover have "length (pl_dependents (fst s')) \<le> length (pl_dependents (fst s))"
      using s'(1) visited_length(1) [of rid s] by (simp add: removed_def)
    moreover have "owners_of (fst s') r = owners_of (fst s) r" if "r \<notin> snd s'" for r
      using that s'(1) v(2) [of r] calculation(2) by (auto simp: removed_def)
    moreover have "owner \<notin> owners_of (fst s') r" if "owner \<in> snd s' - snd s" for owner r
      using that calculation(1,4) s'(1) by (auto simp: removed_def)
    moreover have "removing_ok (drop_resident rid (fst s'), snd s')"
      using s'(1) by (simp add: removed_def removing_ok_def drop_resident_rest)
    moreover have "table_ok fresh (drop_resident rid (fst s'))"
      using s'(1) by (intro drop_resident_drops(1)) (simp add: removed_def)
    ultimately have "removed fresh (drop_resident rid (fst s'), snd s') s"
      by (simp add: removed_def drop_resident_rest)
    moreover have "remove_tree (Suc k) rid s = (drop_resident rid (fst s'), snd s')"
      by (subst remove_tree_step [OF False]) (simp only: Let_def s'_def)
    ultimately show ?thesis using \<open>rid \<in> snd s'\<close> by simp
  qed
qed simp

text \<open>What a removal does: it drops a set of ids that holds the id and everything depending on it.\<close>

lemma remove_resident_ok:
  assumes p: "pool_ok fresh p" and rem: "remove_resident rid p = (p', obj)"
  shows "pool_ok fresh p' \<and> (\<exists>D. rid \<in> D \<and> drops D p' p \<and>
    (\<forall>r owner. owner \<in> D \<longrightarrow> owner \<notin> owners_of p' r) \<and> (\<forall>r. r \<notin> D \<longrightarrow> owners_of p' r = owners_of p r) \<and>
    (\<forall>r \<in> D. owners_of p' r = {}))"
proof -
  let ?s = "(p, {})" let ?s' = "remove_tree (Suc (length (pl_dependents p))) rid ?s"
  have "removing_ok ?s" using pool_okD(5) [OF p] by (simp add: removing_ok_def)
  moreover have "table_ok fresh (fst ?s)" using pool_okD(1) [OF p] by simp
  ultimately have s': "removed fresh ?s' ?s" "rid \<in> snd ?s'"
    using remove_tree_removed [of ?s "Suc (length (pl_dependents p))" fresh rid] by simp_all
  have p': "p' = fst ?s'" using rem by (simp add: remove_resident_def)
  define D where "D = snd ?s'"
  have D: "drops D p' p" "rid \<in> D" "removing_ok (p', D)" "table_ok fresh p'"
    "\<And>r. r \<notin> D \<Longrightarrow> owners_of p' r = owners_of p r" "\<And>r owner. owner \<in> D \<Longrightarrow> owner \<notin> owners_of p' r"
    using s' by (simp_all add: D_def p' removed_def)
  have gone: "owners_of p' r = {}" if "r \<in> D" for r using D(3) that by (simp add: removing_ok_def)
  have held': "held p' = held p - D" using D(1) by (auto simp: drops_def held_def)
  have entries: "map_of (pl_entries p) r = Some e \<and> r \<notin> D" if "map_of (pl_entries p') r = Some e" for r e
    using map_of_SomeD [OF that] D(1) map_of_Some_set [OF pool_okD(2) [OF p]] by (auto simp: drops_def)
  have "(owner \<in> owners_of p' r) = (r \<in> dependents_of p' owner)" for r owner
    using D(3,6) by (cases "owner \<in> D") (auto simp: removing_ok_def)
  moreover have "r \<in> held p' \<and> owner \<in> held p'" if "owner \<in> owners_of p' r" for r owner
  proof -
    have "r \<notin> D" "owner \<notin> D" using that gone D(6) by auto
    with that show ?thesis using D(5) pool_okD(6) [OF p] unfolding held' by blast
  qed
  moreover have "r \<in> held p' \<and> entry_ok (pl_clock p') e" if "map_of (pl_entries p') r = Some e" for r e
    using entries [OF that] pool_okD(4) [OF p, of r e] D(1) unfolding held' by (simp add: drops_def)
  moreover have "snd ` set (pl_keyed p') \<subseteq> held p'"
    using pool_okD(3) [OF p] D(1) unfolding held' by (auto simp: drops_def)
  moreover have "dict_ok (pl_entries p')"
    using pool_okD(2) [OF p] D(1) by (simp add: drops_def dict_ok_def distinct_map_filter)
  ultimately have "pool_ok fresh p'" using D(4) unfolding pool_ok_def by blast
  then show ?thesis using D gone by (intro conjI exI [of _ D]) auto
qed

subsection \<open>The other operations\<close>

lemma entry_change_ok:
  assumes "pool_ok fresh p" and "map_of (pl_entries p) rid = Some e" and "entry_ok (pl_clock p) f"
  shows "pool_ok fresh (p\<lparr>pl_entries := dict_set rid f (pl_entries p)\<rparr>)"
proof -
  have "rid \<in> held p" using pool_okD(4) [OF assms(1,2)] by simp
  from entries_ok [OF assms(1) this assms(3) order_refl] show ?thesis by simp
qed

lemma pool_get_ok:
  assumes "inj (pv_fresh env)" and p: "pool_ok (pv_fresh env) p" and get: "pool_get env rid p = (p', r)"
  shows "pool_ok (pv_fresh env) p' \<and> grows (pv_fresh env) p' p \<and> (\<forall>obj. r = Inr obj \<longrightarrow> map_of (tb_objects p) rid = Some obj)"
proof (cases "table_get p rid")
  case None
  with get p show ?thesis by (auto simp: pool_get_def)
next
  case (Some obj)
  show ?thesis
  proof (cases "resident_owners env obj")
    case (Inl err)
    with get p Some show ?thesis by (auto simp: pool_get_def)
  next
    case (Inr owners)
    show ?thesis
    proof (cases "hd owners = obj")
      case False
      obtain q x where q: "rid_for env (hd owners) p = (q, x)" by fastforce
      have "p' = q" "\<forall>o'. r = Inr o' \<longrightarrow> o' = obj"
        using get Some Inr False q by (auto simp: pool_get_def split: sum.splits)
      with rid_for_ok(1,2) [OF assms(1) p q] Some show ?thesis by (auto simp: table_get_def)
    next
      case True
      show ?thesis
      proof (cases "map_of (pl_entries p) rid")
        case None
        with get p Some Inr True show ?thesis by (auto simp: pool_get_def table_get_def)
      next
        case e: (Some e)
        let ?e = "e\<lparr>en_last_used := pl_clock p, en_loaded := True\<rparr>"
        have "rid \<in> held p" "entry_ok (pl_clock p + 1) ?e"
          using pool_okD(4) [OF p e] by (auto simp: entry_ok_def)
        from entries_ok [OF p this] have
          "pool_ok (pv_fresh env) (p\<lparr>pl_entries := dict_set rid ?e (pl_entries p), pl_clock := pl_clock p + 1\<rparr>)"
          by simp
        with get Some Inr True e show ?thesis by (auto simp: pool_get_def table_get_def grows_def)
      qed
    qed
  qed
qed

lemma set_loaded_ok: "pool_ok fresh p \<Longrightarrow> pool_ok fresh (set_loaded obj b p)"
  unfolding set_loaded_def using pool_okD(4) [of fresh p]
  by (auto split: option.split intro!: entry_change_ok simp: entry_ok_def)

lemma label_ok:
  assumes "inj (pv_fresh env)" and p: "pool_ok (pv_fresh env) p" and "label env obj name p = (p', r)"
  shows "pool_ok (pv_fresh env) p' \<and> grows (pv_fresh env) p' p"
proof -
  obtain q x where q: "rid_for env obj p = (q, x)" by fastforce
  note ok = rid_for_ok(1,2) [OF assms(1) p q]
  have "p' = q \<or> (\<exists>rid e. map_of (pl_entries q) rid = Some e \<and>
      p' = q\<lparr>pl_entries := dict_set rid (e\<lparr>en_name := Some name\<rparr>) (pl_entries q)\<rparr>)"
    using assms(3) q by (auto simp: label_def split: sum.splits option.splits)
  then show ?thesis
  proof (elim disjE exE conjE)
    fix rid e
    assume e: "map_of (pl_entries q) rid = Some e"
      and p': "p' = q\<lparr>pl_entries := dict_set rid (e\<lparr>en_name := Some name\<rparr>) (pl_entries q)\<rparr>"
    have "entry_ok (pl_clock q) (e\<lparr>en_name := Some name\<rparr>)"
      using pool_okD(4) [OF ok(1) e] by (simp add: entry_ok_def)
    from entry_change_ok [OF ok(1) e this] ok(2) show ?thesis by (simp add: p' grows_def)
  qed (use ok in simp)
qed

lemma loading_ok: "pool_ok fresh p \<Longrightarrow> pool_ok fresh (p\<lparr>pl_loading := ks\<rparr>)"
  by (rule pool_ok_change) (auto dest: pool_okD)

lemma obtain_begin_ok:
  assumes "inj (pv_fresh env)" and p: "pool_ok (pv_fresh env) p" and "obtain_begin env key p = (p', r)"
  shows "pool_ok (pv_fresh env) p'"
  using assms(3) p pool_get_ok [OF assms(1) p] loading_ok [OF p]
  by (auto simp: obtain_begin_def split: option.splits if_splits prod.splits)

lemma ram_cost_ok:
  assumes "entry_ok c e" and "0 \<le> n"
  shows "entry_ok c (e\<lparr>en_cost := dict_set k n (en_cost e)\<rparr>)"
proof -
  have "list_all (\<lambda>(_, n). 0 \<le> n) (dict_set k n d)" if "list_all (\<lambda>(_, n). 0 \<le> n) d" for d
    using that assms(2) by (induction d) auto
  with assms(1) show ?thesis by (simp add: entry_ok_def)
qed

lemma obtain_end_cases:
  assumes "obtain_end env key loaded p = (p', r)"
  obtains "p' = p\<lparr>pl_loading := filter (\<lambda>k. k \<noteq> key) (pl_loading p)\<rparr>"
  | obj n p1 x where "loaded = Some (obj, PInt n)" "rid_for env obj p = (p1, x)"
      "p' = p1\<lparr>pl_loading := filter (\<lambda>k. k \<noteq> key) (pl_loading p1)\<rparr>"
  | obj n p1 rid owners p2 x where "loaded = Some (obj, PInt n)" "rid_for env obj p = (p1, Inr rid)"
      "resident_owners env obj = Inr owners" "rid_for env (hd owners) p1 = (p2, x)"
      "p' = p2\<lparr>pl_loading := filter (\<lambda>k. k \<noteq> key) (pl_loading p2)\<rparr>"
  | obj n p1 rid owners p2 owner e where "loaded = Some (obj, PInt n)" "0 \<le> n"
      "rid_for env obj p = (p1, Inr rid)"
      "resident_owners env obj = Inr owners" "rid_for env (hd owners) p1 = (p2, Inr owner)"
      "map_of (pl_entries p2) owner = Some e"
      "p' = p2\<lparr>pl_entries := dict_set owner (e\<lparr>en_cost := dict_set ''ram'' n (en_cost e)\<rparr>) (pl_entries p2),
         pl_keyed := dict_set key rid (pl_keyed p2),
         pl_loading := filter (\<lambda>k. k \<noteq> key) (pl_loading p2)\<rparr>"
      "r = Inr obj"
proof (cases "\<exists>obj n. loaded = Some (obj, PInt n) \<and> 0 \<le> n")
  case False
  have "p' = p\<lparr>pl_loading := filter (\<lambda>k. k \<noteq> key) (pl_loading p)\<rparr>"
  proof (cases loaded)
    case (Some l)
    then show ?thesis using assms False by (cases l; cases "snd l") (auto simp: obtain_end_def Let_def)
  qed (use assms in \<open>simp add: obtain_end_def Let_def\<close>)
  with that(1) show ?thesis by blast
next
  case True
  then obtain obj n where l: "loaded = Some (obj, PInt n)" "0 \<le> n" by blast
  obtain p1 x where x: "rid_for env obj p = (p1, x)" by fastforce
  show ?thesis
  proof (cases x)
    case (Inl err)
    then show ?thesis using assms l x by (intro that(2) [OF l(1) x]) (simp add: obtain_end_def Let_def)
  next
    case rid: (Inr rid)
    show ?thesis
    proof (cases "resident_owners env obj")
      case (Inl err)
      then show ?thesis using assms l x rid by (intro that(2) [OF l(1) x]) (simp add: obtain_end_def Let_def)
    next
      case (Inr owners)
      obtain p2 y where y: "rid_for env (hd owners) p1 = (p2, y)" by fastforce
      note known = that(3) [OF l(1) x [unfolded rid] Inr y]
      show ?thesis
      proof (cases y)
        case err: (Inl err)
        then show ?thesis using assms l x rid Inr y by (intro known) (simp add: obtain_end_def Let_def)
      next
        case owner: (Inr owner)
        show ?thesis
        proof (cases "map_of (pl_entries p2) owner")
          case None
          then show ?thesis using assms l x rid Inr y owner by (intro known) (simp add: obtain_end_def Let_def)
        next
          case (Some e)
          then show ?thesis
            using assms l x rid Inr y owner
            by (intro that(4) [OF l x [unfolded rid] Inr y [unfolded owner] Some]) (simp_all add: obtain_end_def Let_def)
        qed
      qed
    qed
  qed
qed

lemma obtain_end_ok:
  assumes inj: "inj (pv_fresh env)" and p: "pool_ok (pv_fresh env) p" and "obtain_end env key loaded p = (p', r)"
  shows "pool_ok (pv_fresh env) p'"
  using assms(3)
proof (cases rule: obtain_end_cases)
  case 1
  then show ?thesis using loading_ok [OF p] by simp
next
  case 2
  then show ?thesis using loading_ok [OF rid_for_ok(1) [OF inj p]] by blast
next
  case 3
  then show ?thesis using loading_ok [OF rid_for_ok(1) [OF inj rid_for_ok(1) [OF inj p]]] by blast
next
  case (4 obj n p1 rid owners p2 owner e)
  note p1 = rid_for_ok(1) [OF inj p 4(3)] and p2 = rid_for_ok(1,2) [OF inj rid_for_ok(1) [OF inj p 4(3)] 4(5)]
  have e: "owner \<in> held p2" "entry_ok (pl_clock p2) e" using pool_okD(4) [OF p2(1) 4(6)] by simp_all
  have "rid \<in> held p1" using rid_for_ok(3) [OF inj p 4(3)] by (auto simp: held_def)
  then have rid: "rid \<in> held p2" using grows_held [OF p2(2)] by blast
  have q: "pool_ok (pv_fresh env) (p2\<lparr>pl_entries := dict_set owner (e\<lparr>en_cost := dict_set ''ram'' n (en_cost e)\<rparr>) (pl_entries p2)\<rparr>)"
    (is "pool_ok _ ?q")
    by (rule entry_change_ok [OF p2(1) 4(6) ram_cost_ok [OF e(2) 4(2)]])
  have "snd ` set (dict_set key rid (pl_keyed p2)) \<subseteq> held ?q"
  proof -
    have "set (dict_set key rid d) \<subseteq> insert (key, rid) (set d)" for d by (induction d) (auto split: if_splits)
    with pool_okD(3) [OF q] rid show ?thesis by (force simp: held_def)
  qed
  then show ?thesis
    unfolding 4(7) by (intro pool_ok_change [OF q]) (use pool_okD [OF q] in simp_all)
qed

text \<open>Drawn ids that are no longer held are dead; growing and dropping keep them dead.\<close>

definition dead :: "(nat \<Rightarrow> string) \<Rightarrow> pool \<Rightarrow> string \<Rightarrow> bool" where
  "dead fresh p rid \<longleftrightarrow> rid \<notin> held p \<and> rid \<in> fresh ` {..<tb_next p}"

lemma dead_grows: "inj fresh \<Longrightarrow> grows fresh p' p \<Longrightarrow> dead fresh p rid \<Longrightarrow> dead fresh p' rid"
  by (fastforce simp: dead_def grows_def inj_def)

lemma dead_shrinks: "held p' \<subseteq> held p \<Longrightarrow> tb_next p' = tb_next p \<Longrightarrow> dead fresh p rid \<Longrightarrow> dead fresh p' rid"
  by (auto simp: dead_def)

lemma held_loading: "held (p\<lparr>pl_loading := ls\<rparr>) = held p" "tb_next (p\<lparr>pl_loading := ls\<rparr>) = tb_next p"
  by simp_all

lemma set_loaded_held: "held (set_loaded obj b p) = held p" "tb_next (set_loaded obj b p) = tb_next p"
    "pl_pins (set_loaded obj b p) = pl_pins p"
  by (simp_all add: set_loaded_def split: option.split)

lemma obtain_begin_dead:
  assumes "inj (pv_fresh env)" "pool_ok (pv_fresh env) p" "obtain_begin env key p = (p', r)"
    and "dead (pv_fresh env) p rid"
  shows "dead (pv_fresh env) p' rid" and "pl_pins p' = pl_pins p"
proof -
  have get: "grows (pv_fresh env) q p" if "pool_get env k p = (q, x)" for k q x
    using pool_get_ok [OF assms(1,2) that] by simp
  show "dead (pv_fresh env) p' rid" "pl_pins p' = pl_pins p"
    using assms(3,4) dead_grows [OF assms(1) get assms(4)] get
    by (auto simp: obtain_begin_def dead_def grows_def split: option.splits if_splits prod.splits)
qed

lemma obtain_end_grows:
  assumes inj: "inj (pv_fresh env)" and p: "pool_ok (pv_fresh env) p" and "obtain_end env key loaded p = (p', r)"
  shows "\<exists>q. grows (pv_fresh env) q p \<and> held p' = held q \<and> tb_next p' = tb_next q \<and> pl_pins p' = pl_pins q"
  using assms(3)
proof (cases rule: obtain_end_cases)
  case 1
  then show ?thesis by (intro exI [of _ p]) simp
next
  case (2 obj n p1 x)
  then show ?thesis using rid_for_ok(2) [OF inj p 2(2)] by (intro exI [of _ p1]) simp
next
  case (3 obj n p1 rid owners p2 x)
  note q = rid_for_ok(1,2) [OF inj p 3(2)]
  have "grows (pv_fresh env) p2 p" by (rule grows_trans [OF rid_for_ok(2) [OF inj q(1) 3(4)] q(2)])
  then show ?thesis using 3 by (intro exI [of _ p2]) simp
next
  case (4 obj n p1 rid owners p2 owner e)
  note q = rid_for_ok(1,2) [OF inj p 4(3)]
  have "grows (pv_fresh env) p2 p" by (rule grows_trans [OF rid_for_ok(2) [OF inj q(1) 4(5)] q(2)])
  then show ?thesis using 4(7) by (intro exI [of _ p2]) simp
qed

end
