(* ===== verification/Resident_Release.thy ===== *)
theory Resident_Release
  imports Resident_Pool
begin

text \<open>
  Shedding and releasing residents (\<^verbatim>\<open>dinkster_memory/resident.py\<close>): device memory is unloaded,
  host memory is released outright, after every cache has dropped its references and no running
  workflow holds one.
\<close>

section \<open>State\<close>

text \<open>
  What surrounds the pool: the pin registries of the engines, \<open>None\<close> once collected; the objects
  whose bound methods are invalidators; and the world the callbacks act on.
\<close>

record 'w outside =
  ou_pins :: "nat \<Rightarrow> pins option"
  ou_alive :: "nat \<Rightarrow> bool"
  ou_world :: 'w

text \<open>\<open>rl_failures\<close> is \<open>None\<close> where the caller collects none.\<close>

record 'w releasing =
  rl_pool :: pool
  rl_out :: "'w outside"
  rl_failures :: "string list option"

definition note_failure :: "string \<Rightarrow> string \<Rightarrow> 'w releasing \<Rightarrow> 'w releasing" where
  "note_failure rid what s =
     s\<lparr>rl_failures := map_option (\<lambda>fs. fs @ [''resident '' @ rid @ what]) (rl_failures s)\<rparr>"

definition register_invalidator :: "nat \<Rightarrow> bool \<Rightarrow> pool \<Rightarrow> pool" where
  "register_invalidator i weak p =
     p\<lparr>pl_invalidators := pl_invalidators p @ [if weak then Weak i else Strong i]\<rparr>"

definition register_pins :: "nat \<Rightarrow> pool \<Rightarrow> pool" where
  "register_pins h p = (if h \<in> set (pl_pins p) then p else p\<lparr>pl_pins := pl_pins p @ [h]\<rparr>)"

fun live_invalidator :: "'w outside \<Rightarrow> invalidator \<Rightarrow> bool" where
  "live_invalidator out (Strong i) = True"
| "live_invalidator out (Weak i) = ou_alive out i"

fun callback_of :: "invalidator \<Rightarrow> nat" where
  "callback_of (Strong i) = i"
| "callback_of (Weak i) = i"

definition live_invalidators :: "'w releasing \<Rightarrow> 'w releasing \<times> nat list" where
  "live_invalidators s =
     (let live = filter (live_invalidator (rl_out s)) (pl_invalidators (rl_pool s)) in
      (s\<lparr>rl_pool := (rl_pool s)\<lparr>pl_invalidators := live\<rparr>\<rparr>, map callback_of live))"

definition live_pins :: "'w releasing \<Rightarrow> 'w releasing \<times> nat list" where
  "live_pins s =
     (let live = filter (\<lambda>h. ou_pins (rl_out s) h \<noteq> None) (pl_pins (rl_pool s)) in
      (s\<lparr>rl_pool := (rl_pool s)\<lparr>pl_pins := live\<rparr>\<rparr>, live))"

fun invalidate_each :: "(nat \<Rightarrow> string \<Rightarrow> 'w \<Rightarrow> 'w \<times> bool) \<Rightarrow> nat list \<Rightarrow> string \<Rightarrow> 'w \<Rightarrow> 'w \<times> bool" where
  "invalidate_each call [] resource w = (w, True)"
| "invalidate_each call (i # is) resource w =
     (case call i resource w of
        (w', True) \<Rightarrow> invalidate_each call is resource w'
      | (w', False) \<Rightarrow> (w', False))"

definition set_world :: "'w \<Rightarrow> 'w releasing \<Rightarrow> 'w releasing" where
  "set_world w s = s\<lparr>rl_out := (rl_out s)\<lparr>ou_world := w\<rparr>\<rparr>"

definition set_pins :: "nat list \<Rightarrow> pins list \<Rightarrow> 'w releasing \<Rightarrow> 'w releasing" where
  "set_pins hs gs s =
     s\<lparr>rl_out := (rl_out s)\<lparr>ou_pins := (\<lambda>h. case map_of (zip hs gs) h of
        Some g \<Rightarrow> Some g | None \<Rightarrow> ou_pins (rl_out s) h)\<rparr>\<rparr>"

definition get_pins :: "nat list \<Rightarrow> 'w releasing \<Rightarrow> pins list" where
  "get_pins hs s = map (\<lambda>h. the (ou_pins (rl_out s) h)) hs"

definition absolve_all :: "nat list \<Rightarrow> string \<Rightarrow> 'w releasing \<Rightarrow> 'w releasing" where
  "absolve_all hs resource s = set_pins hs (map (\<lambda>g. absolve g resource) (get_pins hs s)) s"

section \<open>Unloading and releasing one resident\<close>

definition unload_entry :: "'w pool_env \<Rightarrow> string \<Rightarrow> string \<Rightarrow> 'w releasing \<Rightarrow> 'w releasing \<times> int" where
  "unload_entry env rid device s =
     (case map_of (pl_entries (rl_pool s)) rid of
        None \<Rightarrow> (s, 0)
      | Some e \<Rightarrow>
          if \<not> en_loaded e then (s, 0)
          else (case table_get (rl_pool s) rid of
            None \<Rightarrow> (s, 0)
          | Some obj \<Rightarrow>
              (let unloaded = (\<lambda>s'. (s'\<lparr>rl_pool := (rl_pool s')\<lparr>pl_entries :=
                     dict_set rid (e\<lparr>en_loaded := False\<rparr>) (pl_entries (rl_pool s'))\<rparr>\<rparr>,
                   dict_get_default (en_cost e) device 0)) in
               case pv_unload env of
                 None \<Rightarrow> unloaded s
               | Some unload \<Rightarrow>
                   (case unload obj (ou_world (rl_out s)) of
                      (w, ok) \<Rightarrow>
                        if ok then unloaded (set_world w s)
                        else (note_failure rid '' unload failed'' (set_world w s), 0)))))"

text \<open>The backend's part of a release, once the references are gone: \<open>False\<close> when it failed.\<close>

definition backend_release :: "'w pool_env \<Rightarrow> string \<Rightarrow> string \<Rightarrow> nat \<Rightarrow> pool_entry \<Rightarrow> 'w releasing \<Rightarrow>
    'w releasing \<times> bool" where
  "backend_release env rid device obj e s =
     (let unload = (\<lambda>s' handled.
            if en_loaded e \<and> \<not> handled
            then let s'' = fst (unload_entry env rid device s') in
              (s'', rl_failures s' = None \<or> length (the (rl_failures s'')) = length (the (rl_failures s')))
            else (s', True))
      in case pv_terminal env of
        None \<Rightarrow> unload s False
      | Some terminal \<Rightarrow>
          (case terminal obj (ou_world (rl_out s)) of
             (w, None) \<Rightarrow> (note_failure rid '' terminal release failed'' (set_world w s), False)
           | (w, Some handled) \<Rightarrow> unload (set_world w s) handled))"

text \<open>Every holder of references drops them, in turn, until one of them fails.\<close>

definition drop_references :: "'w pool_env \<Rightarrow> string \<Rightarrow> 'w releasing \<Rightarrow> 'w releasing \<times> bool" where
  "drop_references env resource s =
     (case live_invalidators s of
        (s', calls) \<Rightarrow>
          (case invalidate_each (pv_invalidate env) calls resource (ou_world (rl_out s')) of
             (w, dropped) \<Rightarrow> (set_world w s', dropped)))"

text \<open>Every engine condemns the resource, or none does; \<open>gates\<close> are the registries asked.\<close>

definition close_gates :: "bool \<Rightarrow> string \<Rightarrow> 'w releasing \<Rightarrow> 'w releasing \<times> nat list \<times> bool" where
  "close_gates honor_pins resource s =
     (case (if honor_pins then live_pins s else (s, [])) of
        (s', gates) \<Rightarrow>
          (case condemn_each condemn absolve resource [] (get_pins gates s') of
             (gs, ok) \<Rightarrow> (set_pins gates gs s', gates, ok)))"

definition release_entry :: "'w pool_env \<Rightarrow> string \<Rightarrow> string \<Rightarrow> bool \<Rightarrow> 'w releasing \<Rightarrow>
    'w releasing \<times> int option" where
  "release_entry env rid device honor_pins s =
     (case (map_of (pl_entries (rl_pool s)) rid, table_get (rl_pool s) rid) of
        (Some e, Some obj) \<Rightarrow>
          (case drop_references env (resident_resource_id rid) s of
             (s', False) \<Rightarrow> (note_failure rid '' cache invalidation failed'' s', None)
           | (s', True) \<Rightarrow>
               (case close_gates honor_pins (resident_resource_id rid) s' of
                  (s'', gates, False) \<Rightarrow> (s'', None)
                | (s'', gates, True) \<Rightarrow>
                    (case backend_release env rid device obj e s'' of
                       (s3, False) \<Rightarrow> (absolve_all gates (resident_resource_id rid) s3, None)
                     | (s3, True) \<Rightarrow>
                         (s3\<lparr>rl_pool := fst (remove_resident rid (rl_pool s3))\<rparr>,
                          Some (dict_get_default (en_cost e) device 0)))))
      | _ \<Rightarrow> (s, None))"

definition release_resident :: "'w pool_env \<Rightarrow> nat \<Rightarrow> bool \<Rightarrow> 'w releasing \<Rightarrow> 'w releasing \<times> bool" where
  "release_resident env obj honor_pins s =
     (case held_rid (rl_pool s) obj of
        None \<Rightarrow> (s, False)
      | Some rid \<Rightarrow>
          (case release_entry env rid ''ram'' honor_pins (s\<lparr>rl_failures := None\<rparr>) of
             (s', r) \<Rightarrow> (s', r \<noteq> None)))"

section \<open>Two-phase release\<close>

text \<open>The token is the reading of the use clock (the source prints it).\<close>

record candidate =
  cd_item :: string
  cd_resource :: string
  cd_nbytes :: int
  cd_token :: nat

definition is_vram :: "string \<Rightarrow> bool" where
  "is_vram device \<longleftrightarrow> take 5 device = ''vram:''"

definition candidate_of :: "string \<Rightarrow> string \<times> pool_entry \<Rightarrow> candidate" where
  "candidate_of device = (\<lambda>(rid, e). \<lparr>cd_item = rid, cd_resource = resident_resource_id rid,
     cd_nbytes = dict_get_default (en_cost e) device 0, cd_token = en_last_used e\<rparr>)"

text \<open>Residents that hold something on a lane, least recently used first.\<close>

definition costed_rids :: "string \<Rightarrow> (pool_entry \<Rightarrow> bool) \<Rightarrow> pool \<Rightarrow> string list" where
  "costed_rids device P p =
     map snd (sort (map (\<lambda>(rid, e). (en_last_used e, rid))
       (filter (\<lambda>(_, e). 0 < dict_get_default (en_cost e) device 0 \<and> P e) (pl_entries p))))"

fun claim_candidates :: "pool \<Rightarrow> string \<Rightarrow> int option \<Rightarrow> int \<Rightarrow> string list \<Rightarrow> candidate list" where
  "claim_candidates p device needed claimed [] = []"
| "claim_candidates p device needed claimed (rid # rids) =
     (if (case needed of None \<Rightarrow> False | Some n \<Rightarrow> n \<le> claimed) then []
      else case map_of (pl_entries p) rid of
        None \<Rightarrow> []
      | Some e \<Rightarrow>
          candidate_of device (rid, e)
            # claim_candidates p device needed (claimed + dict_get_default (en_cost e) device 0) rids)"

definition propose_release :: "pressure \<Rightarrow> pool \<Rightarrow> candidate list" where
  "propose_release pr p =
     (if is_vram (ps_device pr) then []
      else case ps_items pr of
        Some items \<Rightarrow> claim_candidates p (ps_device pr) None 0 (filter (\<lambda>rid. dict_mem rid (pl_entries p)) items)
      | None \<Rightarrow> claim_candidates p (ps_device pr) (Some (ps_needed pr)) 0 (costed_rids (ps_device pr) (\<lambda>_. True) p))"

definition propose_full_release :: "pool \<Rightarrow> candidate list" where
  "propose_full_release p = map (candidate_of ''ram'') (sort_key (\<lambda>(_, e). en_last_used e) (pl_entries p))"

fun release_each :: "'w pool_env \<Rightarrow> string \<Rightarrow> candidate list \<Rightarrow> (string, int) dict \<Rightarrow> 'w releasing \<Rightarrow>
    'w releasing \<times> (string, int) dict" where
  "release_each env device [] freed s = (s, freed)"
| "release_each env device (c # cs) freed s =
     (if (case map_of (pl_entries (rl_pool s)) (cd_item c) of
            None \<Rightarrow> True | Some e \<Rightarrow> en_last_used e \<noteq> cd_token c)
      then release_each env device cs freed s
      else case release_entry env (cd_item c) device True s of
        (s', None) \<Rightarrow> release_each env device cs freed s'
      | (s', Some n) \<Rightarrow> release_each env device cs (dict_set (cd_item c) n freed) s')"

definition release :: "'w pool_env \<Rightarrow> string \<Rightarrow> candidate list \<Rightarrow> 'w releasing \<Rightarrow>
    'w releasing \<times> (string, int) dict" where
  "release env device cs s = release_each env device cs [] (s\<lparr>rl_failures := None\<rparr>)"

datatype full_release = Complete | Busy | ReleaseError "string list"

definition release_full :: "'w pool_env \<Rightarrow> candidate list \<Rightarrow> 'w releasing \<Rightarrow>
    'w releasing \<times> (string, int) dict \<times> full_release" where
  "release_full env cs s =
     (case release_each env ''ram'' cs [] (s\<lparr>rl_failures := Some []\<rparr>) of
        (s', released) \<Rightarrow>
          (s', released,
           if the (rl_failures s') \<noteq> [] then ReleaseError (the (rl_failures s'))
           else if pl_entries (rl_pool s') \<noteq> [] then Busy
           else Complete))"

definition full_release :: "'w pool_env \<Rightarrow> 'w releasing \<Rightarrow> 'w releasing \<times> full_release" where
  "full_release env s =
     (case release_full env (propose_full_release (rl_pool s)) s of (s', _, result) \<Rightarrow> (s', result))"

section \<open>The governed consumer\<close>

definition pool_footprint :: "pool \<Rightarrow> string \<Rightarrow> int" where
  "pool_footprint p device =
     sum_list (map (\<lambda>(_, e). dict_get_default (en_cost e) device 0)
       (if is_vram device then filter (\<lambda>(_, e). en_loaded e) (pl_entries p) else pl_entries p))"

fun unload_each :: "'w pool_env \<Rightarrow> string \<Rightarrow> int option \<Rightarrow> string list \<Rightarrow> int \<Rightarrow> 'w releasing \<Rightarrow>
    'w releasing \<times> int" where
  "unload_each env device needed [] freed s = (s, freed)"
| "unload_each env device needed (rid # rids) freed s =
     (if (case needed of None \<Rightarrow> False | Some n \<Rightarrow> n \<le> freed) then (s, freed)
      else case unload_entry env rid device s of
        (s', n) \<Rightarrow> unload_each env device needed rids (freed + n) s')"

definition pool_shed :: "'w pool_env \<Rightarrow> pressure \<Rightarrow> 'w releasing \<Rightarrow> 'w releasing \<times> int" where
  "pool_shed env pr s =
     (if \<not> is_vram (ps_device pr)
      then (case release env (ps_device pr) (propose_release pr (rl_pool s)) s of
              (s', freed) \<Rightarrow> (s', sum_list (map snd freed)))
      else let s0 = s\<lparr>rl_failures := None\<rparr> in
        case ps_items pr of
          Some items \<Rightarrow>
            unload_each env (ps_device pr) None
              (filter (\<lambda>rid. dict_mem rid (pl_entries (rl_pool s))) items) 0 s0
        | None \<Rightarrow>
            unload_each env (ps_device pr) (Some (ps_needed pr))
              (costed_rids (ps_device pr) en_loaded (rl_pool s)) 0 s0)"

definition pool_details :: "pool \<Rightarrow> (string \<times> string \<times> (string, int) dict) list" where
  "pool_details p =
     map (\<lambda>(rid, e). (rid, (case en_name e of Some n \<Rightarrow> if n \<noteq> '''' then n else ''resident '' @ take 12 rid
                              | None \<Rightarrow> ''resident '' @ take 12 rid),
            if en_loaded e then en_cost e else filter (\<lambda>(lane, _). \<not> is_vram lane) (en_cost e)))
       (sort_key (\<lambda>(_, e). - int (en_last_used e)) (pl_entries p))"

section \<open>What unloading does\<close>

lemma set_world_simps [simp]:
  "rl_pool (set_world w s) = rl_pool s" "rl_failures (set_world w s) = rl_failures s"
  "ou_pins (rl_out (set_world w s)) = ou_pins (rl_out s)" "ou_world (rl_out (set_world w s)) = w"
  "ou_alive (rl_out (set_world w s)) = ou_alive (rl_out s)"
  by (simp_all add: set_world_def)

lemma note_failure_simps [simp]:
  "rl_pool (note_failure rid m s) = rl_pool s" "rl_out (note_failure rid m s) = rl_out s"
  by (simp_all add: note_failure_def)

lemma unload_cases:
  assumes "unload_entry env rid device s = (s', n)"
  obtains "rl_pool s' = rl_pool s" "n = 0" "ou_pins (rl_out s') = ou_pins (rl_out s)"
  | e where "map_of (pl_entries (rl_pool s)) rid = Some e" "en_loaded e"
      "rl_pool s' = (rl_pool s)\<lparr>pl_entries := dict_set rid (e\<lparr>en_loaded := False\<rparr>) (pl_entries (rl_pool s))\<rparr>"
      "n = dict_get_default (en_cost e) device 0" "ou_pins (rl_out s') = ou_pins (rl_out s)"
      "rl_failures s' = rl_failures s"
proof (cases "map_of (pl_entries (rl_pool s)) rid")
  case None
  with assms that(1) show ?thesis by (auto simp: unload_entry_def)
next
  case (Some e)
  show ?thesis
  proof (cases "en_loaded e \<and> table_get (rl_pool s) rid \<noteq> None")
    case False
    with assms Some that(1) show ?thesis by (auto simp: unload_entry_def split: if_splits option.splits)
  next
    case True
    then obtain obj where obj: "table_get (rl_pool s) rid = Some obj" by blast
    show ?thesis
    proof (cases "pv_unload env")
      case None
      with assms Some True obj that(2) show ?thesis by (auto simp: unload_entry_def Let_def)
    next
      case unload: (Some unload)
      obtain w ok where ok: "unload obj (ou_world (rl_out s)) = (w, ok)" by fastforce
      show ?thesis
      proof (cases ok)
        case True
        with assms Some \<open>en_loaded e \<and> _\<close> obj unload ok that(2) show ?thesis
          by (auto simp: unload_entry_def Let_def)
      next
        case False
        with assms Some True obj unload ok that(1) show ?thesis by (auto simp: unload_entry_def Let_def)
      qed
    qed
  qed
qed

lemma unload_ok:
  assumes "pool_ok fresh (rl_pool s)" and "unload_entry env rid device s = (s', n)"
  shows "pool_ok fresh (rl_pool s')" and "tb_objects (rl_pool s') = tb_objects (rl_pool s)"
    and "ou_pins (rl_out s') = ou_pins (rl_out s)" and "pl_pins (rl_pool s') = pl_pins (rl_pool s)"
    and "tb_next (rl_pool s') = tb_next (rl_pool s)"
    and "map_of (pl_entries (rl_pool s)) k = Some e \<Longrightarrow>
      \<exists>e'. map_of (pl_entries (rl_pool s')) k = Some e' \<and> en_cost e' = en_cost e"
proof -
  show "pool_ok fresh (rl_pool s')"
    using assms(2)
  proof (cases rule: unload_cases)
    case (2 e)
    have "entry_ok (pl_clock (rl_pool s)) (e\<lparr>en_loaded := False\<rparr>)"
      using pool_okD(4) [OF assms(1) 2(1)] by (simp add: entry_ok_def)
    from entry_change_ok [OF assms(1) 2(1) this] show ?thesis by (simp add: 2(3))
  qed (use assms(1) in simp)
  show "tb_objects (rl_pool s') = tb_objects (rl_pool s)" "ou_pins (rl_out s') = ou_pins (rl_out s)"
    "pl_pins (rl_pool s') = pl_pins (rl_pool s)" "tb_next (rl_pool s') = tb_next (rl_pool s)"
    using assms(2) by (cases rule: unload_cases; simp)+
  show "map_of (pl_entries (rl_pool s)) k = Some e \<Longrightarrow>
      \<exists>e'. map_of (pl_entries (rl_pool s')) k = Some e' \<and> en_cost e' = en_cost e"
    using assms(2) by (cases rule: unload_cases) auto
qed

subsection \<open>Footprints\<close>

definition entry_bytes :: "string \<Rightarrow> pool_entry \<Rightarrow> int" where
  "entry_bytes d e = (if is_vram d \<longrightarrow> en_loaded e then dict_get_default (en_cost e) d 0 else 0)"

lemma pool_footprint_sum: "pool_footprint p d = sum_list (map (\<lambda>x. entry_bytes d (snd x)) (pl_entries p))"
proof -
  have "sum_list (map (\<lambda>(_, e). dict_get_default (en_cost e) d 0) (filter (\<lambda>(_, e). en_loaded e) es)) =
      sum_list (map (\<lambda>x. if en_loaded (snd x) then dict_get_default (en_cost (snd x)) d 0 else 0) es)"
    for es :: "(string, pool_entry) dict"
    by (induction es) (auto simp: split_beta)
  then show ?thesis by (auto simp: pool_footprint_def entry_bytes_def split_beta cong: map_cong)
qed

lemma cost_nonneg: "entry_ok c e \<Longrightarrow> 0 \<le> dict_get_default (en_cost e) d 0"
  by (auto simp: entry_ok_def list_all_iff dict_get_default_def split: option.split dest!: map_of_SomeD)

lemma entry_bytes_nonneg:
  assumes "pool_ok fresh p" and "x \<in> set (pl_entries p)"
  shows "0 \<le> entry_bytes d (snd x)"
proof -
  have "map_of (pl_entries p) (fst x) = Some (snd x)"
    using assms(2) map_of_Some_set [OF pool_okD(2) [OF assms(1)]] by simp
  from pool_okD(4) [OF assms(1) this] cost_nonneg show ?thesis by (auto simp: entry_bytes_def)
qed

lemma pool_footprint_nonneg: "pool_ok fresh p \<Longrightarrow> 0 \<le> pool_footprint p d"
  unfolding pool_footprint_sum by (rule sum_list_nonneg) (auto dest: entry_bytes_nonneg)

lemma sum_list_dict_set:
  fixes f :: "'v \<Rightarrow> int"
  shows "dict_ok d \<Longrightarrow> map_of d k = Some v \<Longrightarrow>
    sum_list (map (\<lambda>x. f (snd x)) (dict_set k w d)) = sum_list (map (\<lambda>x. f (snd x)) d) - f v + f w"
proof (induction d)
  case (Cons a d)
  then show ?case by (cases a) (auto split: if_splits)
qed simp

lemma sum_list_filter_out:
  fixes f :: "'a \<Rightarrow> int"
  assumes "\<And>y. y \<in> set xs \<Longrightarrow> 0 \<le> f y" and "x \<in> set xs" and "\<not> P x"
  shows "sum_list (map f (filter P xs)) \<le> sum_list (map f xs) - f x"
  using assms
proof (induction xs)
  case (Cons a xs)
  have "sum_list (map f (filter P ys)) \<le> sum_list (map f ys)" if "set ys \<subseteq> set (a # xs)" for ys
    using that by (induction ys) (use Cons.prems(1) in \<open>auto intro: add_increasing add_mono\<close>)
  from this [of xs] have le: "sum_list (map f (filter P xs)) \<le> sum_list (map f xs)" by auto
  show ?case
  proof (cases "x \<in> set xs")
    case True
    have "0 \<le> f a" by (rule Cons.prems(1)) simp
    moreover have "sum_list (map f (filter P xs)) \<le> sum_list (map f xs) - f x"
      by (rule Cons.IH) (use Cons.prems True in auto)
    ultimately show ?thesis by simp
  next
    case False
    with Cons.prems le show ?thesis by auto
  qed
qed simp

lemma unload_footprint:
  assumes p: "pool_ok fresh (rl_pool s)" and "unload_entry env rid d' s = (s', n)"
  shows "pool_footprint (rl_pool s') d \<le> pool_footprint (rl_pool s) d \<and>
    (is_vram d' \<longrightarrow> n = pool_footprint (rl_pool s) d' - pool_footprint (rl_pool s') d')"
  using assms(2)
proof (cases rule: unload_cases)
  case (2 e)
  have drop: "pool_footprint (rl_pool s') k = pool_footprint (rl_pool s) k - entry_bytes k e
      + entry_bytes k (e\<lparr>en_loaded := False\<rparr>)" for k
    using sum_list_dict_set [OF pool_okD(2) [OF p] 2(1), of "entry_bytes k"] 2(3)
    by (simp add: pool_footprint_sum)
  have "0 \<le> dict_get_default (en_cost e) k 0" for k using pool_okD(4) [OF p 2(1)] cost_nonneg by blast
  then show ?thesis using drop [of d] drop [of d'] 2(2,4) by (simp add: entry_bytes_def)
qed simp

lemma drops_footprint:
  assumes p: "pool_ok fresh p" and "drops D p' p"
  shows "pool_footprint p' d \<le> pool_footprint p d"
    and "map_of (pl_entries p) rid = Some e \<Longrightarrow> rid \<in> D \<Longrightarrow> \<not> is_vram d \<Longrightarrow>
      dict_get_default (en_cost e) d 0 \<le> pool_footprint p d - pool_footprint p' d"
proof -
  have entries: "pl_entries p' = filter (\<lambda>x. fst x \<notin> D) (pl_entries p)"
    using assms(2) by (simp add: drops_def)
  show "pool_footprint p' d \<le> pool_footprint p d"
  proof (cases "\<exists>x \<in> set (pl_entries p). fst x \<in> D")
    case True
    then obtain x where x: "x \<in> set (pl_entries p)" "fst x \<in> D" by blast
    have "pool_footprint p' d \<le> pool_footprint p d - entry_bytes d (snd x)"
      unfolding pool_footprint_sum entries
      by (rule sum_list_filter_out) (use x entry_bytes_nonneg [OF p] in auto)
    with entry_bytes_nonneg [OF p x(1), of d] show ?thesis by linarith
  next
    case False
    then have "filter (\<lambda>x. fst x \<notin> D) (pl_entries p) = pl_entries p" by (intro filter_True) auto
    then show ?thesis by (simp add: pool_footprint_sum entries)
  qed
  assume e: "map_of (pl_entries p) rid = Some e" "rid \<in> D" "\<not> is_vram d"
  have "pool_footprint p' d \<le> pool_footprint p d - entry_bytes d (snd (rid, e))"
    unfolding pool_footprint_sum entries
    by (rule sum_list_filter_out) (use e entry_bytes_nonneg [OF p] map_of_SomeD [OF e(1)] in auto)
  with e(3) show "dict_get_default (en_cost e) d 0 \<le> pool_footprint p d - pool_footprint p' d"
    by (simp add: entry_bytes_def)
qed

section \<open>What releasing does\<close>

lemma set_pins_simps [simp]:
  "rl_pool (set_pins hs gs s) = rl_pool s" "rl_failures (set_pins hs gs s) = rl_failures s"
  "ou_world (rl_out (set_pins hs gs s)) = ou_world (rl_out s)"
  by (simp_all add: set_pins_def)

lemma absolve_all_simps [simp]:
  "rl_pool (absolve_all hs r s) = rl_pool s" "ou_world (rl_out (absolve_all hs r s)) = ou_world (rl_out s)"
  by (simp_all add: absolve_all_def)

lemma map_of_zip_map: "map_of (zip hs (map f hs)) h = (if h \<in> set hs then Some (f h) else None)"
  by (induction hs) auto

lemma set_get_pins:
  assumes "\<And>h. h \<in> set hs \<Longrightarrow> ou_pins (rl_out s) h \<noteq> None"
  shows "ou_pins (rl_out (set_pins hs (get_pins hs s) s)) = ou_pins (rl_out s)"
  using assms by (auto simp: set_pins_def get_pins_def map_of_zip_map fun_eq_iff split: option.split)

lemma set_pins_get:
  assumes "length gs = length hs" and "distinct hs" and "i < length hs"
  shows "ou_pins (rl_out (set_pins hs gs s)) (hs ! i) = Some (gs ! i)"
  using assms by (simp add: set_pins_def map_of_zip_nth)

text \<open>What unloading, and so the backend's part of a release, leaves alone.\<close>

definition only_unloads :: "(nat \<Rightarrow> string) \<Rightarrow> 'w releasing \<Rightarrow> 'w releasing \<Rightarrow> bool" where
  "only_unloads fresh s' s \<longleftrightarrow>
     pool_ok fresh (rl_pool s') \<and> tb_objects (rl_pool s') = tb_objects (rl_pool s) \<and>
     pl_pins (rl_pool s') = pl_pins (rl_pool s) \<and> ou_pins (rl_out s') = ou_pins (rl_out s) \<and>
     tb_next (rl_pool s') = tb_next (rl_pool s) \<and>
     (\<forall>d. pool_footprint (rl_pool s') d \<le> pool_footprint (rl_pool s) d) \<and>
     (\<forall>k e. map_of (pl_entries (rl_pool s)) k = Some e \<longrightarrow>
       (\<exists>e'. map_of (pl_entries (rl_pool s')) k = Some e' \<and> en_cost e' = en_cost e))"

lemma only_unloads_entry:
  assumes "pool_ok fresh (rl_pool s)"
  shows "only_unloads fresh (fst (unload_entry env rid device s)) s"
proof -
  obtain s' n where s': "unload_entry env rid device s = (s', n)" by fastforce
  show ?thesis
    unfolding only_unloads_def s' fst_conv
    using unload_ok [OF assms s'] unload_footprint [OF assms s'] by blast
qed

lemma backend_ok:
  assumes "pool_ok fresh (rl_pool s)" and "backend_release env rid device obj e s = (s', ok)"
  shows "only_unloads fresh s' s"
proof -
  have same: "only_unloads fresh t s" if "rl_pool t = rl_pool s" "ou_pins (rl_out t) = ou_pins (rl_out s)" for t
    using assms(1) that by (simp add: only_unloads_def)
  have unload: "only_unloads fresh (fst (unload_entry env rid device t)) s"
    if "rl_pool t = rl_pool s" "ou_pins (rl_out t) = ou_pins (rl_out s)" for t
    using only_unloads_entry [of fresh t env rid device] assms(1) that by (simp add: only_unloads_def)
  show ?thesis
  proof (cases "pv_terminal env")
    case None
    then show ?thesis
      using assms(2) same unload by (auto simp: backend_release_def Let_def split: if_splits)
  next
    case (Some terminal)
    obtain w h where h: "terminal obj (ou_world (rl_out s)) = (w, h)" by fastforce
    show ?thesis
      using assms(2) same unload Some h
      by (cases h) (auto simp: backend_release_def Let_def split: if_splits)
  qed
qed

text \<open>\<open>same_pool p' p\<close>: the pools differ in their registered callbacks only.\<close>

definition same_pool :: "pool \<Rightarrow> pool \<Rightarrow> bool" where
  "same_pool p' p \<longleftrightarrow> (\<exists>is hs. p' = p\<lparr>pl_invalidators := is, pl_pins := hs\<rparr> \<and> (distinct (pl_pins p) \<longrightarrow> distinct hs))"

lemma same_pool_refl: "same_pool p p"
  unfolding same_pool_def by (rule exI [of _ "pl_invalidators p"], rule exI [of _ "pl_pins p"]) simp

lemma same_pool_invalidators: "same_pool (p\<lparr>pl_invalidators := is\<rparr>) p"
  unfolding same_pool_def by (rule exI [of _ "is"], rule exI [of _ "pl_pins p"]) simp

lemma same_pool_pins: "distinct hs \<Longrightarrow> same_pool (p\<lparr>pl_pins := hs\<rparr>) p"
  unfolding same_pool_def by (rule exI [of _ "pl_invalidators p"], rule exI [of _ hs]) simp

lemma same_pool_trans: "same_pool q p' \<Longrightarrow> same_pool p' p \<Longrightarrow> same_pool q p"
  unfolding same_pool_def by fastforce

lemma same_pool_ok:
  assumes "same_pool p' p"
  shows "pool_ok fresh p \<Longrightarrow> pool_ok fresh p'" and "tb_objects p' = tb_objects p"
    and "pl_entries p' = pl_entries p" and "pool_footprint p' d = pool_footprint p d"
    and "distinct (pl_pins p) \<Longrightarrow> distinct (pl_pins p')" and "tb_next p' = tb_next p"
proof -
  obtain "is" hs where p': "p' = p\<lparr>pl_invalidators := is, pl_pins := hs\<rparr>"
      and "distinct (pl_pins p) \<longrightarrow> distinct hs"
    using assms by (auto simp: same_pool_def)
  then show "tb_objects p' = tb_objects p" "pl_entries p' = pl_entries p" "tb_next p' = tb_next p"
    "distinct (pl_pins p) \<Longrightarrow> distinct (pl_pins p')" "pool_footprint p' d = pool_footprint p d"
    by (simp_all add: pool_footprint_def)
  show "pool_ok fresh p \<Longrightarrow> pool_ok fresh p'"
    by (rule pool_ok_change [where p = p]) (auto simp: p' dest: pool_okD)
qed

lemma drop_references_ok:
  assumes "drop_references env r s = (s', ok)"
  shows "same_pool (rl_pool s') (rl_pool s)" and "ou_pins (rl_out s') = ou_pins (rl_out s)"
    and "pl_pins (rl_pool s') = pl_pins (rl_pool s)"
    and "(ou_world (rl_out s'), ok) = invalidate_each (pv_invalidate env)
      (map callback_of (filter (live_invalidator (rl_out s)) (pl_invalidators (rl_pool s)))) r (ou_world (rl_out s))"
proof -
  let ?live = "filter (live_invalidator (rl_out s)) (pl_invalidators (rl_pool s))"
  let ?t = "s\<lparr>rl_pool := (rl_pool s)\<lparr>pl_invalidators := ?live\<rparr>\<rparr>"
  obtain w ok' where w: "invalidate_each (pv_invalidate env) (map callback_of ?live) r (ou_world (rl_out s)) = (w, ok')"
    by fastforce
  then have s': "s' = set_world w ?t" "ok = ok'"
    using assms by (simp_all add: drop_references_def live_invalidators_def Let_def)
  show "same_pool (rl_pool s') (rl_pool s)" by (simp add: s' same_pool_invalidators)
  show "ou_pins (rl_out s') = ou_pins (rl_out s)" "pl_pins (rl_pool s') = pl_pins (rl_pool s)"
    by (simp_all add: s')
  show "(ou_world (rl_out s'), ok) = invalidate_each (pv_invalidate env) (map callback_of ?live) r (ou_world (rl_out s))"
    by (simp add: w s')
qed

definition gates_of :: "bool \<Rightarrow> 'w releasing \<Rightarrow> nat list" where
  "gates_of honor_pins s =
     (if honor_pins then filter (\<lambda>h. ou_pins (rl_out s) h \<noteq> None) (pl_pins (rl_pool s)) else [])"

lemma close_gates_ok:
  assumes "close_gates honor r s = (s', gates, ok)" and "distinct (pl_pins (rl_pool s))"
  shows "same_pool (rl_pool s') (rl_pool s)" and "gates = gates_of honor s"
    and "ou_world (rl_out s') = ou_world (rl_out s)"
    and "\<not> ok \<Longrightarrow> ou_pins (rl_out s') = ou_pins (rl_out s)"
    and "ok \<Longrightarrow> h \<in> set gates \<Longrightarrow> \<exists>g. ou_pins (rl_out s') h = Some g \<and> condemned g r \<and> \<not> pinned g r"
    and "ok \<Longrightarrow> ou_pins (rl_out (absolve_all gates r s')) = ou_pins (rl_out s)"
proof -
  define t where "t = (if honor then s\<lparr>rl_pool := (rl_pool s)\<lparr>pl_pins := gates_of True s\<rparr>\<rparr> else s)"
  obtain gs ok' where gs': "condemn_each condemn absolve r [] (get_pins (gates_of honor s) t) = (gs, ok')"
    by fastforce
  then have "close_gates honor r s = (set_pins (gates_of honor s) gs t, gates_of honor s, ok')"
    by (cases honor) (simp_all add: close_gates_def live_pins_def gates_of_def t_def Let_def)
  then have s': "s' = set_pins (gates_of honor s) gs t" and gates: "gates = gates_of honor s" and "ok' = ok"
    using assms(1) by simp_all
  then have gs: "condemn_each condemn absolve r [] (get_pins (gates_of honor s) t) = (gs, ok)"
    using gs' by simp
  have t: "rl_out t = rl_out s" by (simp add: t_def)
  have live: "ou_pins (rl_out t) k \<noteq> None" if "k \<in> set gates" for k
    using that by (auto simp: gates gates_of_def t split: if_splits)
  have dis: "distinct gates" using assms(2) by (simp add: gates gates_of_def)
  show "gates = gates_of honor s" by (rule gates)
  show "same_pool (rl_pool s') (rl_pool s)"
    using dis by (cases honor) (simp_all add: s' t_def gates_of_def gates same_pool_refl same_pool_pins)
  show "ou_world (rl_out s') = ou_world (rl_out s)" by (simp add: s' t)
  note gate = pin_gate.all_or_nothing [OF gs]
  show "ou_pins (rl_out s') = ou_pins (rl_out s)" if "\<not> ok"
    using gate that set_get_pins [of gates t] live by (simp add: s' t gates)
  assume ok
  then have gs_ok: "list_all (\<lambda>h. condemned h r \<and> \<not> pinned h r) gs"
    "map (\<lambda>h. absolve h r) gs = get_pins gates t"
    using gate by (simp_all add: gates)
  then have len: "length gs = length gates" by (metis get_pins_def length_map)
  have at: "ou_pins (rl_out s') (gates ! i) = Some (gs ! i)" if "i < length gates" for i
    using set_pins_get [OF len dis that] by (simp add: s' gates)
  show "\<exists>g. ou_pins (rl_out s') h = Some g \<and> condemned g r \<and> \<not> pinned g r" if "h \<in> set gates"
    using that at gs_ok(1) len by (auto simp: in_set_conv_nth list_all_length)
  have "get_pins gates s' = gs"
    by (rule nth_equalityI) (use at len in \<open>auto simp: get_pins_def\<close>)
  then have "absolve_all gates r s' = set_pins gates (get_pins gates t) s'"
    by (simp add: absolve_all_def gs_ok(2))
  moreover have "ou_pins (rl_out (set_pins gates (get_pins gates t) s')) = ou_pins (rl_out t)"
  proof
    fix k
    show "ou_pins (rl_out (set_pins gates (get_pins gates t) s')) k = ou_pins (rl_out t) k"
    proof (cases "k \<in> set gates")
      case True
      with live [OF True] show ?thesis by (auto simp: set_pins_def get_pins_def map_of_zip_map)
    next
      case False
      then have "map_of (zip gates gs) k = None" using len by (simp add: map_of_zip_is_None)
      with False show ?thesis
        by (simp add: set_pins_def get_pins_def map_of_zip_map s' flip: gates)
    qed
  qed
  ultimately show "ou_pins (rl_out (absolve_all gates r s')) = ou_pins (rl_out s)" by (simp add: t)
qed

text \<open>The ways out of a release, and what holds on each.\<close>

definition refused :: "(nat \<Rightarrow> string) \<Rightarrow> 'w releasing \<Rightarrow> 'w releasing \<Rightarrow> bool" where
  "refused fresh s' s \<longleftrightarrow>
     pool_ok fresh (rl_pool s') \<and> distinct (pl_pins (rl_pool s')) \<and>
     tb_objects (rl_pool s') = tb_objects (rl_pool s) \<and> ou_pins (rl_out s') = ou_pins (rl_out s) \<and>
     tb_next (rl_pool s') = tb_next (rl_pool s) \<and>
     (\<forall>d. pool_footprint (rl_pool s') d \<le> pool_footprint (rl_pool s) d)"

definition invalidated :: "'w pool_env \<Rightarrow> string \<Rightarrow> 'w releasing \<Rightarrow> bool" where
  "invalidated env resource s \<longleftrightarrow> snd (invalidate_each (pv_invalidate env)
      (map callback_of (filter (live_invalidator (rl_out s)) (pl_invalidators (rl_pool s)))) resource
      (ou_world (rl_out s)))"

definition released :: "(nat \<Rightarrow> string) \<Rightarrow> 'w pool_env \<Rightarrow> string \<Rightarrow> string \<Rightarrow> bool \<Rightarrow> 'w releasing \<Rightarrow>
    'w releasing \<Rightarrow> int \<Rightarrow> bool" where
  "released fresh env rid device honor_pins s' s n \<longleftrightarrow>
     pool_ok fresh (rl_pool s') \<and> distinct (pl_pins (rl_pool s')) \<and> rid \<notin> held (rl_pool s') \<and>
     held (rl_pool s') \<subseteq> held (rl_pool s) \<and> tb_next (rl_pool s') = tb_next (rl_pool s) \<and>
     (\<forall>h \<in> set (gates_of honor_pins s). \<exists>g. ou_pins (rl_out s') h = Some g \<and>
        condemned g (resident_resource_id rid) \<and> \<not> pinned g (resident_resource_id rid)) \<and>
     invalidated env (resident_resource_id rid) s \<and> 0 \<le> n \<and>
     (\<forall>d. pool_footprint (rl_pool s') d \<le> pool_footprint (rl_pool s) d) \<and>
     (\<not> is_vram device \<longrightarrow> n \<le> pool_footprint (rl_pool s) device - pool_footprint (rl_pool s') device)"

lemma refused_same:
  assumes "pool_ok fresh (rl_pool s)" "distinct (pl_pins (rl_pool s))" "same_pool (rl_pool s') (rl_pool s)"
    and "ou_pins (rl_out s') = ou_pins (rl_out s)"
  shows "refused fresh s' s"
  using assms(1,2,4) same_pool_ok [OF assms(3)] by (simp add: refused_def)

lemma release_entry_outcome:
  assumes p: "pool_ok fresh (rl_pool s)" and d: "distinct (pl_pins (rl_pool s))"
    and rel: "release_entry env rid device honor s = (s', r)"
  shows "case r of None \<Rightarrow> refused fresh s' s | Some n \<Rightarrow> released fresh env rid device honor s' s n"
proof (cases "map_of (pl_entries (rl_pool s)) rid = None \<or> table_get (rl_pool s) rid = None")
  case True
  then have "s' = s" "r = None" using rel by (auto simp: release_entry_def split: option.splits)
  then show ?thesis using refused_same [OF p d same_pool_refl] by simp
next
  case False
  then obtain e obj where e: "map_of (pl_entries (rl_pool s)) rid = Some e" "table_get (rl_pool s) rid = Some obj"
    by auto
  let ?res = "resident_resource_id rid"
  obtain s1 ok1 where s1: "drop_references env ?res s = (s1, ok1)" by fastforce
  note d1 = drop_references_ok [OF s1]
  have p1: "pool_ok fresh (rl_pool s1)" by (rule same_pool_ok(1) [OF d1(1) p])
  have dis1: "distinct (pl_pins (rl_pool s1))" using d d1(3) by simp
  show ?thesis
  proof (cases ok1)
    case False
    then have "s' = note_failure rid '' cache invalidation failed'' s1" "r = None"
      using rel e s1 by (simp_all add: release_entry_def)
    then show ?thesis using refused_same [OF p d, of s'] d1 by simp
  next
    case True
    obtain s2 gates ok2 where s2: "close_gates honor ?res s1 = (s2, gates, ok2)" by (metis prod_cases3)
    note g = close_gates_ok [OF s2 dis1]
    have same2: "same_pool (rl_pool s2) (rl_pool s)" by (rule same_pool_trans [OF g(1) d1(1)])
    have p2: "pool_ok fresh (rl_pool s2)" by (rule same_pool_ok(1) [OF same2 p])
    show ?thesis
    proof (cases ok2)
      case False
      then have "s' = s2" "r = None" using rel e s1 s2 \<open>ok1\<close> by (simp_all add: release_entry_def)
      then show ?thesis using refused_same [OF p d same2] g(4) [OF False] d1(2) by simp
    next
      case gate: True
      obtain s3 ok3 where s3: "backend_release env rid device obj e s2 = (s3, ok3)" by fastforce
      note b = backend_ok [OF p2 s3, unfolded only_unloads_def]
      show ?thesis
      proof (cases ok3)
        case False
        then have r: "s' = absolve_all gates ?res s3" "r = None"
          using rel e s1 s2 s3 \<open>ok1\<close> gate by (simp_all add: release_entry_def)
        have "ou_pins (rl_out (absolve_all gates ?res s3)) = ou_pins (rl_out (absolve_all gates ?res s2))"
        proof -
          have eq: "ou_pins (rl_out s3) = ou_pins (rl_out s2)" using b by blast
          show ?thesis unfolding absolve_all_def set_pins_def get_pins_def eq by simp
        qed
        then have "ou_pins (rl_out s') = ou_pins (rl_out s)" using g(6) [OF gate] d1(2) r(1) by simp
        then show ?thesis
          using r b same_pool_ok [OF same2] d by (simp add: refused_def)
      next
        case finished: True
        then have r: "s' = s3\<lparr>rl_pool := fst (remove_resident rid (rl_pool s3))\<rparr>"
            "r = Some (dict_get_default (en_cost e) device 0)"
          using rel e s1 s2 s3 \<open>ok1\<close> gate by (simp_all add: release_entry_def)
        have p3: "pool_ok fresh (rl_pool s3)" using b by blast
        obtain D where D: "pool_ok fresh (rl_pool s')" "rid \<in> D" "drops D (rl_pool s') (rl_pool s3)"
          using remove_resident_ok [OF p3, of rid "rl_pool s'" "snd (remove_resident rid (rl_pool s3))"] r(1)
          by auto
        obtain e' where e': "map_of (pl_entries (rl_pool s3)) rid = Some e'" "en_cost e' = en_cost e"
          using b e(1) same_pool_ok(3) [OF same2] by metis
        have foot: "pool_footprint (rl_pool s') k \<le> pool_footprint (rl_pool s) k" for k
          using drops_footprint(1) [OF p3 D(3), of k] b same_pool_ok(4) [OF same2, of k]
          by (metis order.trans)
        have freed: "dict_get_default (en_cost e) device 0 \<le>
            pool_footprint (rl_pool s) device - pool_footprint (rl_pool s') device" if "\<not> is_vram device"
          using drops_footprint(2) [OF p3 D(3) e'(1) D(2) that] b same_pool_ok(4) [OF same2, of device] e'(2)
          by (smt (verit))
        have "0 \<le> dict_get_default (en_cost e) device 0"
          using pool_okD(4) [OF p e(1)] cost_nonneg by blast
        moreover have "invalidated env ?res s"
          using d1(4) True by (metis invalidated_def snd_conv)
        moreover have "rid \<notin> held (rl_pool s')" using D(2,3) by (simp add: held_def drops_def)
        moreover have "held (rl_pool s') \<subseteq> held (rl_pool s)" "tb_next (rl_pool s') = tb_next (rl_pool s)"
          using D(3) b same_pool_ok(2,6) [OF same2] by (auto simp: held_def drops_def)
        moreover have "distinct (pl_pins (rl_pool s'))"
          using D(3) b same_pool_ok(5) [OF same2 d] by (simp add: drops_def)
        moreover have "gates = gates_of honor s"
          using g(2) d1(2,3) by (simp add: gates_of_def)
        moreover have "ou_pins (rl_out s') = ou_pins (rl_out s2)" using r(1) b by simp
        ultimately have "released fresh env rid device honor s' s (dict_get_default (en_cost e) device 0)"
          unfolding released_def using D(1) foot freed g(5) [OF gate] by simp
        then show ?thesis using r(2) by simp
      qed
    qed
  qed
qed

section \<open>Sheds and batches of releases\<close>

definition settled :: "(nat \<Rightarrow> string) \<Rightarrow> 'w releasing \<Rightarrow> bool" where
  "settled fresh s \<longleftrightarrow> pool_ok fresh (rl_pool s) \<and> distinct (pl_pins (rl_pool s))"

text \<open>\<open>frees fresh s' s n\<close>: ids and footprints only went away; \<open>n\<close> is covered by the loss on \<open>d\<close>.\<close>

definition frees :: "(nat \<Rightarrow> string) \<Rightarrow> string \<Rightarrow> 'w releasing \<Rightarrow> 'w releasing \<Rightarrow> int \<Rightarrow> bool" where
  "frees fresh d s' s n \<longleftrightarrow> settled fresh s' \<and> held (rl_pool s') \<subseteq> held (rl_pool s) \<and>
     tb_next (rl_pool s') = tb_next (rl_pool s) \<and> 0 \<le> n \<and>
     (\<forall>k. pool_footprint (rl_pool s') k \<le> pool_footprint (rl_pool s) k) \<and>
     n \<le> pool_footprint (rl_pool s) d - pool_footprint (rl_pool s') d"

lemma frees_refl: "settled fresh s \<Longrightarrow> frees fresh d s s 0"
  by (simp add: frees_def)

lemma frees_trans:
  assumes "frees fresh d s'' s' m" and "frees fresh d s' s n"
  shows "frees fresh d s'' s (n + m)"
proof -
  have "pool_footprint (rl_pool s'') k \<le> pool_footprint (rl_pool s) k" for k
    using assms unfolding frees_def by (meson order.trans)
  with assms show ?thesis by (auto simp: frees_def)
qed

lemma frees_release:
  assumes "settled fresh s" and "release_entry env rid d honor s = (s', r)" and "\<not> is_vram d"
  shows "frees fresh d s' s (case r of None \<Rightarrow> 0 | Some n \<Rightarrow> n)"
    and "r = Some n \<Longrightarrow> rid \<notin> held (rl_pool s')"
proof -
  have s: "pool_ok fresh (rl_pool s)" "distinct (pl_pins (rl_pool s))" using assms(1) by (simp_all add: settled_def)
  note r = release_entry_outcome [OF s assms(2)]
  show "frees fresh d s' s (case r of None \<Rightarrow> 0 | Some n \<Rightarrow> n)"
  proof (cases r)
    case None
    with r show ?thesis by (simp add: frees_def settled_def refused_def held_def)
  next
    case (Some n)
    with r assms(3) show ?thesis by (simp add: frees_def settled_def released_def)
  qed
  show "r = Some n \<Longrightarrow> rid \<notin> held (rl_pool s')" using r by (simp add: released_def)
qed

lemma release_each_frees:
  assumes "settled fresh s" and "release_each env d cs freed s = (s', out)" and "\<not> is_vram d"
    and "fst ` set freed \<inter> held (rl_pool s) = {}"
  shows "frees fresh d s' s (sum_list (map snd out) - sum_list (map snd freed))"
  using assms(1,2,4)
proof (induction cs arbitrary: s freed)
  case Nil
  then show ?case by (simp add: frees_refl)
next
  case (Cons c cs)
  show ?case
  proof (cases "case map_of (pl_entries (rl_pool s)) (cd_item c) of None \<Rightarrow> True | Some e \<Rightarrow> en_last_used e \<noteq> cd_token c")
    case True
    with Cons.prems(2) have "release_each env d cs freed s = (s', out)" by simp
    from Cons.IH [OF Cons.prems(1) this Cons.prems(3)] show ?thesis .
  next
    case False
    then obtain e where e: "map_of (pl_entries (rl_pool s)) (cd_item c) = Some e" by (auto split: option.splits)
    have "cd_item c \<in> held (rl_pool s)"
      using Cons.prems(1) pool_okD(4) [OF _ e] by (auto simp: settled_def)
    then have new: "map_of freed (cd_item c) = None" using Cons.prems(3) by (auto simp: map_of_eq_None_iff)
    obtain s1 r where r: "release_entry env (cd_item c) d True s = (s1, r)" by fastforce
    note f = frees_release [OF Cons.prems(1) r assms(3)]
    have s1: "settled fresh s1" "held (rl_pool s1) \<subseteq> held (rl_pool s)" using f(1) by (auto simp: frees_def)
    define freed' where "freed' = (case r of None \<Rightarrow> freed | Some n \<Rightarrow> dict_set (cd_item c) n freed)"
    have rest: "release_each env d cs freed' s1 = (s', out)"
      using Cons.prems(2) False r by (cases r) (simp_all add: freed'_def)
    have "fst ` set freed' \<inter> held (rl_pool s1) = {}"
      using Cons.prems(3) s1(2) f(2) by (cases r) (auto simp: freed'_def)
    from frees_trans [OF Cons.IH [OF s1(1) rest this] f(1)] have
      "frees fresh d s' s ((case r of None \<Rightarrow> 0 | Some n \<Rightarrow> n) + (sum_list (map snd out) - sum_list (map snd freed')))" .
    moreover have "sum_list (map snd freed') = sum_list (map snd freed) + (case r of None \<Rightarrow> 0 | Some n \<Rightarrow> n)"
      using sum_list_dict_set_new [OF new, of snd] by (cases r) (simp_all add: freed'_def)
    then have "(case r of None \<Rightarrow> 0 | Some n \<Rightarrow> n) + (sum_list (map snd out) - sum_list (map snd freed')) =
        sum_list (map snd out) - sum_list (map snd freed)" by linarith
    ultimately show ?thesis by simp
  qed
qed

lemma unload_each_frees:
  assumes "settled fresh s" and "unload_each env d needed rids freed s = (s', n)" and "is_vram d"
  shows "frees fresh d s' s (n - freed)"
  using assms(1,2)
proof (induction rids arbitrary: s freed)
  case Nil
  then show ?case by (simp add: frees_refl)
next
  case (Cons rid rids)
  show ?case
  proof (cases "case needed of None \<Rightarrow> False | Some n \<Rightarrow> n \<le> freed")
    case True
    with Cons.prems show ?thesis by (simp add: frees_refl)
  next
    case False
    obtain s1 m where m: "unload_entry env rid d s = (s1, m)" by fastforce
    have p: "pool_ok fresh (rl_pool s)" using Cons.prems(1) by (simp add: settled_def)
    have foot: "pool_footprint (rl_pool s1) k \<le> pool_footprint (rl_pool s) k" for k
      using unload_footprint [OF p m] by blast
    have "m = pool_footprint (rl_pool s) d - pool_footprint (rl_pool s1) d"
      using unload_footprint [OF p m] assms(3) by blast
    then have f: "frees fresh d s1 s m"
      using unload_ok [OF p m] foot [of d] Cons.prems(1) foot by (simp add: frees_def settled_def held_def)
    have "unload_each env d needed rids (freed + m) s1 = (s', n)" using Cons.prems(2) False m by simp
    from frees_trans [OF Cons.IH [OF _ this] f] f show ?thesis by (simp add: frees_def)
  qed
qed

lemma settled_failures: "settled fresh (s\<lparr>rl_failures := x\<rparr>) = settled fresh s"
    "frees fresh d s' (s\<lparr>rl_failures := x\<rparr>) n = frees fresh d s' s n"
  by (simp_all add: settled_def frees_def)

lemma pool_shed_frees:
  assumes "settled fresh s" and "pool_shed env pr s = (s', n)"
  shows "frees fresh (ps_device pr) s' s n"
proof (cases "is_vram (ps_device pr)")
  case True
  obtain rids needed where
    "unload_each env (ps_device pr) needed rids 0 (s\<lparr>rl_failures := None\<rparr>) = (s', n)"
    using assms(2) True by (cases "ps_items pr") (simp_all add: pool_shed_def Let_def)
  from unload_each_frees [OF _ this True] assms(1) show ?thesis by (simp add: settled_failures)
next
  case False
  obtain out where "release_each env (ps_device pr) (propose_release pr (rl_pool s)) [] (s\<lparr>rl_failures := None\<rparr>) = (s', out)"
    and n: "n = sum_list (map snd out)"
    using assms(2) False by (auto simp: pool_shed_def release_def split: prod.splits)
  from release_each_frees [OF _ this(1) False] assms(1) show ?thesis by (simp add: settled_failures n)
qed

section \<open>Histories of a pool\<close>

text \<open>
  Every operation, and \<open>Meanwhile\<close>: the engines pin and unpin, registries and caches come and go,
  and the backend changes, between any two of them.
\<close>

datatype 'w pool_op =
    Admit nat
  | Use string
  | Place nat bool
  | Name nat string
  | Begin_load string
  | End_load string "(nat \<times> pyobj) option"
  | Forget string
  | Release_resident nat bool
  | Release string "candidate list"
  | Release_full "candidate list"
  | Pool_shed pressure
  | Add_invalidator nat bool
  | Add_pins nat
  | Meanwhile "'w outside"

abbreviation on_pool :: "(pool \<Rightarrow> pool) \<Rightarrow> 'w releasing \<Rightarrow> 'w releasing" where
  "on_pool f s \<equiv> s\<lparr>rl_pool := f (rl_pool s)\<rparr>"

fun run_pool :: "'w pool_env \<Rightarrow> 'w pool_op \<Rightarrow> 'w releasing \<Rightarrow> 'w releasing" where
  "run_pool env (Admit obj) s = on_pool (\<lambda>p. fst (rid_for env obj p)) s"
| "run_pool env (Use rid) s = on_pool (\<lambda>p. fst (pool_get env rid p)) s"
| "run_pool env (Place obj b) s = on_pool (set_loaded obj b) s"
| "run_pool env (Name obj name) s = on_pool (\<lambda>p. fst (label env obj name p)) s"
| "run_pool env (Begin_load key) s = on_pool (\<lambda>p. fst (obtain_begin env key p)) s"
| "run_pool env (End_load key loaded) s = on_pool (\<lambda>p. fst (obtain_end env key loaded p)) s"
| "run_pool env (Forget rid) s = on_pool (\<lambda>p. fst (remove_resident rid p)) s"
| "run_pool env (Release_resident obj honor) s = fst (release_resident env obj honor s)"
| "run_pool env (Release d cs) s = fst (release env d cs s)"
| "run_pool env (Release_full cs) s = fst (release_full env cs s)"
| "run_pool env (Pool_shed pr) s = fst (pool_shed env pr s)"
| "run_pool env (Add_invalidator i weak) s = on_pool (register_invalidator i weak) s"
| "run_pool env (Add_pins h) s = on_pool (register_pins h) s"
| "run_pool env (Meanwhile out) s = s\<lparr>rl_out := out\<rparr>"

text \<open>A step keeps the pool consistent and never revives a dead id.\<close>

definition evolves :: "(nat \<Rightarrow> string) \<Rightarrow> 'w releasing \<Rightarrow> 'w releasing \<Rightarrow> bool" where
  "evolves fresh s' s \<longleftrightarrow> settled fresh s' \<and> tb_next (rl_pool s) \<le> tb_next (rl_pool s') \<and>
     (\<forall>rid. dead fresh (rl_pool s) rid \<longrightarrow> dead fresh (rl_pool s') rid)"

lemma evolves_frees: "frees fresh d s' s n \<Longrightarrow> evolves fresh s' s"
  by (auto simp: evolves_def frees_def intro: dead_shrinks)

lemma evolves_grows:
  assumes "settled fresh s" "inj fresh" "pool_ok fresh p'" "grows fresh p' (rl_pool s)"
  shows "evolves fresh (s\<lparr>rl_pool := p'\<rparr>) s"
  using assms dead_grows [OF assms(2,4)] by (auto simp: evolves_def settled_def grows_def)

lemma release_entry_evolves:
  assumes "settled fresh s" and "release_entry env rid d honor s = (s', r)"
  shows "evolves fresh s' s"
proof -
  have s: "pool_ok fresh (rl_pool s)" "distinct (pl_pins (rl_pool s))" using assms(1) by (simp_all add: settled_def)
  note r = release_entry_outcome [OF s assms(2)]
  have "settled fresh s' \<and> held (rl_pool s') \<subseteq> held (rl_pool s) \<and> tb_next (rl_pool s') = tb_next (rl_pool s)"
    using r by (cases r) (simp_all add: settled_def refused_def released_def held_def)
  then show ?thesis using dead_shrinks [of "rl_pool s'" "rl_pool s" fresh] by (simp add: evolves_def)
qed

lemma release_each_evolves:
  "settled fresh s \<Longrightarrow> release_each env d cs freed s = (s', out) \<Longrightarrow> evolves fresh s' s"
proof (induction cs arbitrary: s freed)
  case (Cons c cs)
  show ?case
  proof (cases "case map_of (pl_entries (rl_pool s)) (cd_item c) of None \<Rightarrow> True | Some e \<Rightarrow> en_last_used e \<noteq> cd_token c")
    case True
    then show ?thesis using Cons.IH [OF Cons.prems(1), of freed] Cons.prems(2) by simp
  next
    case False
    obtain s1 r where r: "release_entry env (cd_item c) d True s = (s1, r)" by fastforce
    have s1: "evolves fresh s1 s" by (rule release_entry_evolves [OF Cons.prems(1) r])
    obtain freed' where "release_each env d cs freed' s1 = (s', out)"
      using Cons.prems(2) False r by (cases r) simp_all
    from Cons.IH [OF _ this] s1 show ?thesis by (auto simp: evolves_def)
  qed
qed (simp add: evolves_def)

lemma run_pool_evolves:
  assumes inj: "inj (pv_fresh env)" and s: "settled (pv_fresh env) s"
  shows "evolves (pv_fresh env) (run_pool env op' s) s"
proof -
  let ?fresh = "pv_fresh env" and ?p = "rl_pool s"
  have p: "pool_ok ?fresh ?p" using s by (simp add: settled_def)
  note grown = evolves_grows [OF s inj]
  have part: "evolves ?fresh (s\<lparr>rl_pool := p'\<rparr>) s"
    if "pool_ok ?fresh p'" "\<And>rid. dead ?fresh ?p rid \<Longrightarrow> dead ?fresh p' rid" "distinct (pl_pins p')"
      "tb_next ?p \<le> tb_next p'" for p'
    using that by (simp add: evolves_def settled_def)
  have batch: "evolves ?fresh (fst (release_each env d cs [] (s\<lparr>rl_failures := x\<rparr>))) s" for d cs x
    using release_each_evolves [of ?fresh "s\<lparr>rl_failures := x\<rparr>" env d cs "[]"] s
    by (cases "release_each env d cs [] (s\<lparr>rl_failures := x\<rparr>)") (simp add: settled_failures evolves_def)
  show ?thesis
  proof (cases op')
    case (Admit obj)
    then show ?thesis using rid_for_ok [OF inj p, of obj] grown by (cases "rid_for env obj ?p") simp
  next
    case (Use rid)
    then show ?thesis using pool_get_ok [OF inj p, of rid] grown by (cases "pool_get env rid ?p") simp
  next
    case (Place obj b)
    then show ?thesis
      using s p set_loaded_ok [OF p] by (auto intro!: part simp: dead_def set_loaded_held settled_def)
  next
    case (Name obj name)
    then show ?thesis using label_ok [OF inj p, of obj name] grown by (cases "label env obj name ?p") simp
  next
    case (Begin_load key)
    obtain p' r where r: "obtain_begin env key ?p = (p', r)" by fastforce
    show ?thesis
      unfolding Begin_load run_pool.simps r fst_conv
    proof (rule part)
      show "pool_ok ?fresh p'" by (rule obtain_begin_ok [OF inj p r])
      show "dead ?fresh p' rid" if "dead ?fresh ?p rid" for rid by (rule obtain_begin_dead(1) [OF inj p r that])
      have "pl_pins p' = pl_pins ?p"
        using pool_get_ok [OF inj p]
        using r by (auto simp: obtain_begin_def grows_def split: option.splits if_splits prod.splits)
      then show "distinct (pl_pins p')" using s by (simp add: settled_def)
      show "tb_next ?p \<le> tb_next p'"
        using pool_get_ok [OF inj p]
        using r by (auto simp: obtain_begin_def grows_def split: option.splits if_splits prod.splits)
    qed
  next
    case (End_load key loaded)
    obtain p' r where r: "obtain_end env key loaded ?p = (p', r)" by fastforce
    obtain q where q: "grows ?fresh q ?p" "held p' = held q" "tb_next p' = tb_next q" "pl_pins p' = pl_pins q"
      using obtain_end_grows [OF inj p r] by blast
    have "dead ?fresh p' rid" if "dead ?fresh ?p rid" for rid
      using dead_grows [OF inj q(1) that] q(2,3) by (simp add: dead_def)
    moreover have "distinct (pl_pins p')" "tb_next ?p \<le> tb_next p'"
      using s q(1,3,4) by (simp_all add: settled_def grows_def)
    ultimately show ?thesis using End_load r obtain_end_ok [OF inj p r] part by simp
  next
    case (Forget rid)
    obtain p' obj where r: "remove_resident rid ?p = (p', obj)" by fastforce
    then obtain D where D: "pool_ok ?fresh p'" "drops D p' ?p" using remove_resident_ok [OF p] by blast
    have "held p' \<subseteq> held ?p" "tb_next p' = tb_next ?p" "pl_pins p' = pl_pins ?p"
      using D(2) by (auto simp: drops_def held_def)
    then show ?thesis
      using Forget r D(1) s by (auto intro!: part intro: dead_shrinks simp: settled_def)
  next
    case (Release_resident obj honor)
    show ?thesis
    proof (cases "held_rid ?p obj")
      case None
      then show ?thesis using Release_resident s by (simp add: release_resident_def evolves_def)
    next
      case (Some rid)
      obtain s' r where r: "release_entry env rid ''ram'' honor (s\<lparr>rl_failures := None\<rparr>) = (s', r)" by fastforce
      show ?thesis
        using Release_resident Some r release_entry_evolves [OF _ r] s
        by (simp add: release_resident_def settled_failures evolves_def)
    qed
  next
    case (Release d cs)
    then show ?thesis using batch by (simp add: release_def)
  next
    case (Release_full cs)
    then show ?thesis
      using batch [of "''ram''" cs "Some []"]
      by (cases "release_each env ''ram'' cs [] (s\<lparr>rl_failures := Some []\<rparr>)") (simp add: release_full_def)
  next
    case (Pool_shed pr)
    then show ?thesis
      using evolves_frees [OF pool_shed_frees [OF s]] by (cases "pool_shed env pr s") simp
  next
    case (Add_invalidator i weak)
    have "pool_ok ?fresh (register_invalidator i weak ?p)"
      using same_pool_ok(1) [OF same_pool_invalidators p] by (simp add: register_invalidator_def)
    moreover have "held (register_invalidator i weak ?p) = held ?p"
        "tb_next (register_invalidator i weak ?p) = tb_next ?p" "distinct (pl_pins (register_invalidator i weak ?p))"
      using s by (simp_all add: register_invalidator_def settled_def)
    ultimately show ?thesis using Add_invalidator by (auto intro!: part simp: dead_def)
  next
    case (Add_pins h)
    have dis: "distinct (pl_pins (register_pins h ?p))" using s by (simp add: register_pins_def settled_def)
    have "same_pool (register_pins h ?p) ?p"
      using dis by (cases "h \<in> set (pl_pins ?p)") (simp_all add: register_pins_def same_pool_refl same_pool_pins)
    note ok = same_pool_ok(1) [OF this p]
    have "held (register_pins h ?p) = held ?p" "tb_next (register_pins h ?p) = tb_next ?p"
      by (simp_all add: register_pins_def)
    then show ?thesis using Add_pins dis ok by (auto intro!: part simp: dead_def)
  next
    case (Meanwhile out)
    then show ?thesis using s by (simp add: evolves_def settled_def)
  qed
qed

lemma run_pools_evolve:
  assumes "inj (pv_fresh env)"
  shows "settled (pv_fresh env) s \<Longrightarrow> evolves (pv_fresh env) (fold (run_pool env) ops s) s"
proof (induction ops arbitrary: s)
  case (Cons p ops)
  note step = run_pool_evolves [OF assms Cons.prems, of p]
  then have "evolves (pv_fresh env) (fold (run_pool env) ops (run_pool env p s)) (run_pool env p s)"
    by (intro Cons.IH) (simp add: evolves_def)
  with step show ?case unfolding evolves_def by (auto intro: le_trans)
qed (simp add: evolves_def)

definition new_releasing :: "'w outside \<Rightarrow> 'w releasing" where
  "new_releasing out = \<lparr>rl_pool = new_pool, rl_out = out, rl_failures = None\<rparr>"

lemma new_releasing_settled: "settled fresh (new_releasing out)"
  by (simp add: new_releasing_def settled_def new_pool_ok) (simp add: new_pool_def)

section \<open>Properties\<close>

lemma history_settled:
  "inj (pv_fresh env) \<Longrightarrow> settled (pv_fresh env) (fold (run_pool env) ops (new_releasing out))"
  using run_pools_evolve [OF _ new_releasing_settled, of env ops out] by (simp add: evolves_def)

lemma held_rid_iff: "table_ok fresh p \<Longrightarrow> held_rid p obj = Some rid \<longleftrightarrow> table_get p rid = Some obj"
  by (auto simp: held_rid_def table_get_def table_ok_def split: option.splits)

text \<open>
  In every history of a pool each held object has exactly one id and each id one object; every
  entry, with costs that are not negative, belongs to a held object, and whatever depends on a
  resident is held together with it. Drawn ids are assumed to differ.
\<close>
theorem pool_stays_consistent:
  assumes "inj (pv_fresh env)" and "p = rl_pool (fold (run_pool env) ops (new_releasing out))"
  shows "(table_get p rid = Some obj \<longleftrightarrow> held_rid p obj = Some rid) \<and>
    (map_of (pl_entries p) rid = Some e \<longrightarrow> table_get p rid \<noteq> None \<and> list_all (\<lambda>(_, n). 0 \<le> n) (en_cost e)) \<and>
    (owner \<in> owners_of p rid \<longrightarrow> table_get p rid \<noteq> None \<and> table_get p owner \<noteq> None)"
proof -
  have p: "pool_ok (pv_fresh env) p" using history_settled [OF assms(1)] assms(2) by (simp add: settled_def)
  show ?thesis
    using held_rid_iff [OF pool_okD(1) [OF p]] pool_okD(4) [OF p, of rid e] pool_okD(6) [OF p, of owner rid]
    by (auto simp: table_get_def held_def entry_ok_def domIff)
qed

text \<open>Object 1 belongs to object 0; costs are declared; nothing calls back.\<close>

definition sample_env :: "nat pool_env" where
  "sample_env = \<lparr>pv_owner = (\<lambda>obj. if obj = 1 then Owner 0 else NoOwner), pv_refs = (\<lambda>_. Some []),
     pv_fresh = (\<lambda>n. replicate n CHR ''x''), pv_depth = 10,
     pv_cost = Some (\<lambda>_. Some (PDict [(PStr ''ram'', PInt 5)])),
     pv_invalidate = (\<lambda>_ _ w. (w, True)), pv_unload = None, pv_terminal = None\<rparr>"

definition sample_outside :: "nat outside" where
  "sample_outside = \<lparr>ou_pins = (\<lambda>_. Some no_pins), ou_alive = (\<lambda>_. True), ou_world = 0\<rparr>"

lemma sample_env_inj: "inj (pv_fresh sample_env)"
  by (auto simp: sample_env_def inj_def replicate_eq_replicate)

definition sample_history :: "nat releasing" where
  "sample_history = fold (run_pool sample_env) [Admit 1, Add_pins 0] (new_releasing sample_outside)"

theorem pool_stays_consistent_witness:
  "table_get (rl_pool sample_history) '''' = Some 1 \<longleftrightarrow> held_rid (rl_pool sample_history) 1 = Some ''''"
  using pool_stays_consistent [OF sample_env_inj, of "rl_pool sample_history"
      "[Admit 1, Add_pins 0]" sample_outside "''''" 1 _ "''''"]
  by (simp add: sample_history_def)

text \<open>
  Ids are never reused: once an id that was held is gone, no later history brings it back, and
  resolving a stub that names it raises.
\<close>
theorem removed_ids_stay_dead:
  assumes "inj (pv_fresh env)" and "s = fold (run_pool env) ops (new_releasing out)"
    and "table_get (rl_pool s) rid \<noteq> None"
    and "s' = fold (run_pool env) ops' s" and "table_get (rl_pool s') rid = None"
  shows "snd (pool_get env rid (rl_pool (fold (run_pool env) later s'))) = Inl (ResidentLookupError rid)"
proof -
  let ?fresh = "pv_fresh env"
  have s: "settled ?fresh s" using history_settled [OF assms(1)] assms(2) by simp
  have s': "evolves ?fresh s' s" using run_pools_evolve [OF assms(1) s] assms(4) by simp
  have "rid \<in> ?fresh ` {..<tb_next (rl_pool s)}"
    using s assms(3) unfolding settled_def pool_ok_def table_ok_def table_get_def by (metis domIff subsetD)
  then have "rid \<in> ?fresh ` {..<tb_next (rl_pool s')}" using s' by (auto simp: evolves_def)
  then have "dead ?fresh (rl_pool s') rid" using assms(5) by (auto simp: dead_def held_def table_get_def)
  moreover have "settled ?fresh s'" using s' by (simp add: evolves_def)
  ultimately have "dead ?fresh (rl_pool (fold (run_pool env) later s')) rid"
    using run_pools_evolve [OF assms(1), of s' later] by (auto simp: evolves_def)
  then show ?thesis by (auto simp: dead_def held_def pool_get_def table_get_def domIff)
qed

theorem removed_ids_stay_dead_witness:
  "snd (pool_get sample_env '''' (rl_pool (fold (run_pool sample_env) [Admit 1, Use ''x'']
      (fold (run_pool sample_env) [Forget ''x''] sample_history)))) = Inl (ResidentLookupError '''')"
proof (rule removed_ids_stay_dead [OF sample_env_inj sample_history_def _ refl])
  show "table_get (rl_pool sample_history) '''' \<noteq> None"
    by code_simp
  show "table_get (rl_pool (fold (run_pool sample_env) [Forget ''x''] sample_history)) '''' = None"
    by code_simp
qed

text \<open>
  C28: Releasing a resident is all or nothing. Either it is gone, every cache has been told to drop
  its references and none failed, and every engine has condemned it with none pinning it; or it is
  still held with its object, no id has gone, and every engine's pins are exactly as they were.
\<close>
theorem release_is_all_or_nothing:
  assumes "inj (pv_fresh env)" and "s = fold (run_pool env) ops (new_releasing out)"
    and "release_entry env rid device True s = (s', r)"
  shows "case r of
      Some n \<Rightarrow> table_get (rl_pool s') rid = None \<and> invalidated env (resident_resource_id rid) s \<and>
        (\<forall>h \<in> set (gates_of True s). \<exists>g. ou_pins (rl_out s') h = Some g \<and>
           condemned g (resident_resource_id rid) \<and> \<not> pinned g (resident_resource_id rid))
    | None \<Rightarrow> tb_objects (rl_pool s') = tb_objects (rl_pool s) \<and> ou_pins (rl_out s') = ou_pins (rl_out s)"
proof -
  have "settled (pv_fresh env) s" using history_settled [OF assms(1)] assms(2) by simp
  then have s: "pool_ok (pv_fresh env) (rl_pool s)" "distinct (pl_pins (rl_pool s))"
    by (simp_all add: settled_def)
  from release_entry_outcome [OF s assms(3)] show ?thesis
    by (cases r) (auto simp: refused_def released_def held_def table_get_def domIff)
qed

theorem release_is_all_or_nothing_witness:
  "table_get (rl_pool (fst (release_entry sample_env ''x'' ''ram'' True sample_history))) ''x'' = None"
proof -
  have some: "snd (release_entry sample_env ''x'' ''ram'' True sample_history) = Some 5" by code_simp
  from release_is_all_or_nothing [OF sample_env_inj sample_history_def surjective_pairing, of "''x''" "''ram''"]
  show ?thesis by (simp add: some)
qed

end
