(* ===== verification/Host.thy ===== *)
theory Host
  imports Consumers Resident_Release
begin

text \<open>
  One process with everything that holds memory: result caches, resident pools whose invalidators
  are those caches, and the engines' pins, under one governor.
\<close>

section \<open>What pool operations do to the world\<close>

text \<open>A relation that every callback respects is respected by every release and shed.\<close>

locale callbacks =
  fixes env :: "'w pool_env"
    and reach :: "'w \<Rightarrow> 'w \<Rightarrow> bool"
  assumes reach_refl: "reach w w"
    and reach_trans: "reach w w' \<Longrightarrow> reach w' w'' \<Longrightarrow> reach w w''"
    and reach_invalidate: "reach w (fst (pv_invalidate env i r w))"
    and reach_unload: "pv_unload env = Some u \<Longrightarrow> reach w (fst (u obj w))"
    and reach_terminal: "pv_terminal env = Some t \<Longrightarrow> reach w (fst (t obj w))"
begin

abbreviation world :: "'w releasing \<Rightarrow> 'w" where
  "world s \<equiv> ou_world (rl_out s)"

lemma invalidate_each_reach: "reach w (fst (invalidate_each (pv_invalidate env) is r w))"
proof (induction "is" arbitrary: w)
  case (Cons i "is")
  obtain w' ok where w': "pv_invalidate env i r w = (w', ok)" by fastforce
  then have "reach w w'" using reach_invalidate [of w i r] by simp
  with Cons [of w'] w' show ?case by (cases ok) (auto intro: reach_trans)
qed (simp add: reach_refl)

lemma unload_reach: "reach (world s) (world (fst (unload_entry env rid d s)))"
proof (cases "map_of (pl_entries (rl_pool s)) rid")
  case (Some e)
  show ?thesis
  proof (cases "en_loaded e \<and> table_get (rl_pool s) rid \<noteq> None \<and> pv_unload env \<noteq> None")
    case True
    then obtain obj u where u: "table_get (rl_pool s) rid = Some obj" "pv_unload env = Some u" by auto
    obtain w ok where w: "u obj (world s) = (w, ok)" by fastforce
    have "reach (world s) w" using reach_unload [OF u(2), of "world s" obj] w by simp
    then show ?thesis using True Some u w by (cases ok) (simp_all add: unload_entry_def Let_def)
  next
    case False
    then show ?thesis using Some
      by (auto simp: unload_entry_def Let_def reach_refl split: option.split)
  qed
qed (simp add: unload_entry_def reach_refl)

lemma backend_reach: "reach (world s) (world (fst (backend_release env rid d obj e s)))"
proof (cases "pv_terminal env")
  case None
  then show ?thesis
    using unload_reach [of s rid d] by (simp add: backend_release_def Let_def reach_refl)
next
  case (Some t)
  obtain w h where w: "t obj (world s) = (w, h)" by fastforce
  have "reach (world s) w" using reach_terminal [OF Some, of "world s" obj] w by simp
  then show ?thesis
    using Some w unload_reach [of "set_world w s" rid d]
    by (cases h) (auto simp: backend_release_def Let_def intro: reach_trans)
qed

text \<open>A release goes on from the world its invalidators leave.\<close>

lemma release_entry_reach:
  assumes "release_entry env rid d honor s = (s', r)" and "distinct (pl_pins (rl_pool s))"
  shows "reach (world s) (world s')"
    and "r \<noteq> None \<Longrightarrow> reach (fst (invalidate_each (pv_invalidate env)
      (map callback_of (filter (live_invalidator (rl_out s)) (pl_invalidators (rl_pool s))))
      (resident_resource_id rid) (world s))) (world s')"
proof -
  let ?res = "resident_resource_id rid"
  let ?calls = "map callback_of (filter (live_invalidator (rl_out s)) (pl_invalidators (rl_pool s)))"
  let ?w = "fst (invalidate_each (pv_invalidate env) ?calls ?res (world s))"
  have w: "reach (world s) ?w" by (rule invalidate_each_reach)
  have "(s' = s \<and> r = None) \<or> reach ?w (world s')"
  proof (cases "map_of (pl_entries (rl_pool s)) rid = None \<or> table_get (rl_pool s) rid = None")
    case True
    then show ?thesis using assms(1) by (auto simp: release_entry_def split: option.splits)
  next
    case False
    then obtain e obj where e: "map_of (pl_entries (rl_pool s)) rid = Some e" "table_get (rl_pool s) rid = Some obj"
      by auto
    obtain s1 ok1 where s1: "drop_references env ?res s = (s1, ok1)" by fastforce
    note d1 = drop_references_ok [OF s1]
    have w1: "world s1 = ?w" using d1(4) by (metis fst_conv)
    have dis: "distinct (pl_pins (rl_pool s1))" using assms(2) d1(3) by simp
    obtain s2 gates ok2 where s2: "close_gates honor ?res s1 = (s2, gates, ok2)" by (metis prod_cases3)
    have w2: "world s2 = ?w" using close_gates_ok(3) [OF s2 dis] w1 by simp
    obtain s3 ok3 where s3: "backend_release env rid d obj e s2 = (s3, ok3)" by fastforce
    have w3: "reach ?w (world s3)" using backend_reach [of s2 rid d obj e] s3 w2 by simp
    have "world s' = ?w \<or> world s' = world s3"
      using assms(1) e s1 s2 s3 w1 w2 by (cases ok1; cases ok2; cases ok3) (auto simp: release_entry_def)
    then show ?thesis using w3 reach_refl by metis
  qed
  then show "reach (world s) (world s')" "r \<noteq> None \<Longrightarrow> reach ?w (world s')"
    using w reach_refl reach_trans by blast+
qed

lemma release_each_reach:
  "settled fresh s \<Longrightarrow> release_each env d cs freed s = (s', out) \<Longrightarrow> reach (world s) (world s')"
proof (induction cs arbitrary: s freed)
  case (Cons c cs)
  show ?case
  proof (cases "case map_of (pl_entries (rl_pool s)) (cd_item c) of None \<Rightarrow> True | Some e \<Rightarrow> en_last_used e \<noteq> cd_token c")
    case True
    then show ?thesis using Cons.IH [OF Cons.prems(1), of freed] Cons.prems(2) by simp
  next
    case False
    obtain s1 r where r: "release_entry env (cd_item c) d True s = (s1, r)" by fastforce
    have "reach (world s) (world s1)"
      using release_entry_reach(1) [OF r] Cons.prems(1) by (simp add: settled_def)
    moreover obtain freed' where "release_each env d cs freed' s1 = (s', out)"
      using Cons.prems(2) False r by (cases r) simp_all
    moreover have "settled fresh s1"
      using release_entry_evolves [OF Cons.prems(1) r] by (simp add: evolves_def)
    ultimately show ?thesis using Cons.IH reach_trans by blast
  qed
qed (simp add: reach_refl)

lemma unload_each_reach: "unload_each env d needed rids freed s = (s', n) \<Longrightarrow> reach (world s) (world s')"
proof (induction rids arbitrary: s freed)
  case (Cons rid rids)
  show ?case
  proof (cases "case needed of None \<Rightarrow> False | Some n \<Rightarrow> n \<le> freed")
    case False
    obtain s1 m where m: "unload_entry env rid d s = (s1, m)" by fastforce
    have "reach (world s) (world s1)" using unload_reach [of s rid d] m by simp
    moreover have "unload_each env d needed rids (freed + m) s1 = (s', n)" using Cons.prems False m by simp
    ultimately show ?thesis using Cons.IH reach_trans by blast
  qed (use Cons.prems reach_refl in simp)
qed (simp add: reach_refl)

lemma pool_shed_reach:
  assumes "settled fresh s" and "pool_shed env pr s = (s', n)"
  shows "reach (world s) (world s')"
proof (cases "is_vram (ps_device pr)")
  case True
  obtain rids needed where
    "unload_each env (ps_device pr) needed rids 0 (s\<lparr>rl_failures := None\<rparr>) = (s', n)"
    using assms(2) True by (cases "ps_items pr") (simp_all add: pool_shed_def Let_def)
  from unload_each_reach [OF this] show ?thesis by simp
next
  case False
  obtain out where "release_each env (ps_device pr) (propose_release pr (rl_pool s)) [] (s\<lparr>rl_failures := None\<rparr>) = (s', out)"
    using assms(2) False by (auto simp: pool_shed_def release_def split: prod.splits)
  from release_each_reach [OF _ this, of fresh] assms(1) show ?thesis by (simp add: settled_failures)
qed

end

section \<open>The host\<close>

record host =
  ho_caches :: caches
  ho_pools :: "nat \<Rightarrow> pool"
  ho_pins :: "nat \<Rightarrow> pins option"
  ho_alive :: "nat \<Rightarrow> bool"

text \<open>
  A pool registers the invalidation of caches with its owner; \<open>b\<close> says what the backend does, as a
  function of the object alone.
\<close>

definition cache_invalidator :: "nat \<Rightarrow> string \<Rightarrow> caches \<Rightarrow> caches \<times> bool" where
  "cache_invalidator i resource w = (w(i := fst (drop_referencing (w i) resource)), True)"

definition host_env :: "unit pool_env \<Rightarrow> caches pool_env" where
  "host_env b = \<lparr>pv_owner = pv_owner b, pv_refs = pv_refs b, pv_fresh = pv_fresh b, pv_depth = pv_depth b,
     pv_cost = pv_cost b, pv_invalidate = cache_invalidator,
     pv_unload = map_option (\<lambda>u obj w. (w, snd (u obj ()))) (pv_unload b),
     pv_terminal = map_option (\<lambda>t obj w. (w, snd (t obj ()))) (pv_terminal b)\<rparr>"

definition releasing_of :: "host \<Rightarrow> nat \<Rightarrow> caches releasing" where
  "releasing_of w i = \<lparr>rl_pool = ho_pools w i,
     rl_out = \<lparr>ou_pins = ho_pins w, ou_alive = ho_alive w, ou_world = ho_caches w\<rparr>, rl_failures = None\<rparr>"

definition put_back :: "host \<Rightarrow> nat \<Rightarrow> caches releasing \<Rightarrow> host" where
  "put_back w i s = w\<lparr>ho_caches := ou_world (rl_out s), ho_pools := (ho_pools w)(i := rl_pool s),
     ho_pins := ou_pins (rl_out s)\<rparr>"

datatype consumer = Cache nat | Pool nat

definition host_api :: "(nat \<Rightarrow> unit pool_env) \<Rightarrow> (host, consumer) consumer_api" where
  "host_api b = \<lparr>
     ca_footprint = (\<lambda>w h d. case h of
        Cache i \<Rightarrow> cache_footprint (ho_caches w i) d
      | Pool i \<Rightarrow> pool_footprint (ho_pools w i) d),
     ca_shed = (\<lambda>w h p. case h of
        Cache i \<Rightarrow> (case shed_cache (ho_caches w i) (ps_device p) (ps_needed p) of
            (c, r) \<Rightarrow> (w\<lparr>ho_caches := (ho_caches w)(i := c)\<rparr>, case r of Inl _ \<Rightarrow> None | Inr n \<Rightarrow> Some n))
      | Pool i \<Rightarrow> (case pool_shed (host_env (b i)) p (releasing_of w i) of
            (s, n) \<Rightarrow> (put_back w i s, Some n))),
     ca_detailed = (\<lambda>h. case h of Cache _ \<Rightarrow> False | Pool _ \<Rightarrow> True)\<rparr>"

definition host_ok :: "host \<Rightarrow> bool" where
  "host_ok w \<longleftrightarrow> (\<forall>i. cache_ok (ho_caches w i)) \<and>
     (\<forall>i. \<exists>fresh. pool_ok fresh (ho_pools w i) \<and> distinct (pl_pins (ho_pools w i)))"

text \<open>What the callbacks do to the caches: entries go, and none comes.\<close>

definition all_shrink :: "caches \<Rightarrow> caches \<Rightarrow> bool" where
  "all_shrink w w' \<longleftrightarrow> (\<forall>i. shrinks (w' i) (w i))"

interpretation host_callbacks: callbacks "host_env b" all_shrink for b
proof
  fix w w' w'' and i obj :: nat and r u t
  show "all_shrink w w" by (simp add: all_shrink_def)
  show "all_shrink w w' \<Longrightarrow> all_shrink w' w'' \<Longrightarrow> all_shrink w w''"
    by (auto simp: all_shrink_def intro: shrinks_trans)
  show "all_shrink w (fst (pv_invalidate (host_env b) i r w))"
    by (simp add: host_env_def cache_invalidator_def all_shrink_def shrinks_drop)
  show "pv_unload (host_env b) = Some u \<Longrightarrow> all_shrink w (fst (u obj w))"
    by (auto simp: host_env_def all_shrink_def)
  show "pv_terminal (host_env b) = Some t \<Longrightarrow> all_shrink w (fst (t obj w))"
    by (auto simp: host_env_def all_shrink_def)
qed

lemma releasing_simps [simp]:
  "rl_pool (releasing_of w i) = ho_pools w i" "ou_world (rl_out (releasing_of w i)) = ho_caches w"
  "ou_pins (rl_out (releasing_of w i)) = ho_pins w" "ou_alive (rl_out (releasing_of w i)) = ho_alive w"
  by (simp_all add: releasing_of_def)

lemma put_back_simps [simp]:
  "ho_caches (put_back w i s) = ou_world (rl_out s)" "ho_pools (put_back w i s) = (ho_pools w)(i := rl_pool s)"
  "ho_pins (put_back w i s) = ou_pins (rl_out s)"
  by (simp_all add: put_back_def)

lemma cache_shed_host:
  assumes "host_ok w" and "shed_cache (ho_caches w i) d n = (c, r)"
  shows "host_ok (w\<lparr>ho_caches := (ho_caches w)(i := c)\<rparr>)" and "shrinks c (ho_caches w i)"
    and "r = Inr m \<Longrightarrow> 0 \<le> m \<and> m \<le> cache_footprint (ho_caches w i) d - cache_footprint c d"
proof -
  have "cache_ok (ho_caches w i)" using assms(1) by (simp add: host_ok_def)
  note c = shed_cache_outcome [OF this assms(2)]
  show "host_ok (w\<lparr>ho_caches := (ho_caches w)(i := c)\<rparr>)" using assms(1) c by (simp add: host_ok_def)
  show "shrinks c (ho_caches w i)"
    "r = Inr m \<Longrightarrow> 0 \<le> m \<and> m \<le> cache_footprint (ho_caches w i) d - cache_footprint c d" using c by simp_all
qed

lemma pool_shed_host:
  assumes w: "host_ok w" and shed: "pool_shed (host_env b) p (releasing_of w i) = (s, n)"
  shows "host_ok (put_back w i s)" and "all_shrink (ho_caches w) (ou_world (rl_out s))"
    and "0 \<le> n \<and> n \<le> pool_footprint (ho_pools w i) (ps_device p) - pool_footprint (rl_pool s) (ps_device p)"
proof -
  obtain fresh where fresh: "settled fresh (releasing_of w i)"
    using w by (auto simp: host_ok_def settled_def)
  note f = pool_shed_frees [OF fresh shed]
  show shrink: "all_shrink (ho_caches w) (ou_world (rl_out s))"
    using host_callbacks.pool_shed_reach [OF fresh shed] by simp
  have "cache_ok (ou_world (rl_out s) k)" for k
    using w shrink cache_ok_shrinks by (auto simp: host_ok_def all_shrink_def)
  then show "host_ok (put_back w i s)"
    using w f by (auto simp: host_ok_def frees_def settled_def)
  show "0 \<le> n \<and> n \<le> pool_footprint (ho_pools w i) (ps_device p) - pool_footprint (rl_pool s) (ps_device p)"
    using f by (simp add: frees_def)
qed

interpretation host_consumers: shedders "host_api b" host_ok for b
proof
  fix w h d
  assume w: "host_ok w"
  show "0 \<le> ca_footprint (host_api b) w h d"
    using w by (auto simp: host_api_def host_ok_def intro: pool_footprint_nonneg split: consumer.split)
next
  fix w h p w' and r :: "int option"
  assume w: "host_ok w" and shed: "ca_shed (host_api b) w h p = (w', r)"
  have cases: "(\<exists>i c x. h = Cache i \<and> shed_cache (ho_caches w i) (ps_device p) (ps_needed p) = (c, x) \<and>
        w' = w\<lparr>ho_caches := (ho_caches w)(i := c)\<rparr>) \<or>
      (\<exists>i s n. h = Pool i \<and> pool_shed (host_env (b i)) p (releasing_of w i) = (s, n) \<and> w' = put_back w i s)"
    using shed by (cases h) (auto simp: host_api_def split: prod.splits)
  then show "host_ok w'" using cache_shed_host(1) [OF w] pool_shed_host(1) [OF w] by blast
  have caches: "cache_footprint (ho_caches w' k) d \<le> cache_footprint (ho_caches w k) d" for k d
  proof -
    have "shrinks (ho_caches w' k) (ho_caches w k)"
      using cases cache_shed_host(2) [OF w] pool_shed_host(2) [OF w]
      by (auto simp: all_shrink_def)
    moreover have "dict_ok (mc_entries (ho_caches w k))" using w by (simp add: host_ok_def cache_ok_def)
    ultimately show ?thesis by (rule footprint_shrinks [rotated])
  qed
  fix k d
  assume "k \<noteq> h"
  with cases caches show "ca_footprint (host_api b) w' k d \<le> ca_footprint (host_api b) w k d"
    by (cases k; cases h) (auto simp: host_api_def split: if_splits)
next
  fix w h p w' n
  assume w: "host_ok w" and shed: "ca_shed (host_api b) w h p = (w', Some n)"
  show "0 \<le> n \<and> n \<le> ca_footprint (host_api b) w h (ps_device p) - ca_footprint (host_api b) w' h (ps_device p)"
  proof (cases h)
    case (Cache i)
    obtain c x where x: "shed_cache (ho_caches w i) (ps_device p) (ps_needed p) = (c, x)" by fastforce
    with shed Cache have "x = Inr n" "w' = w\<lparr>ho_caches := (ho_caches w)(i := c)\<rparr>"
      by (auto simp: host_api_def split: sum.splits)
    with cache_shed_host(3) [OF w x] Cache show ?thesis by (simp add: host_api_def)
  next
    case (Pool i)
    obtain s m where s: "pool_shed (host_env (b i)) p (releasing_of w i) = (s, m)" by fastforce
    with shed Pool have "n = m" "w' = put_back w i s" by (simp_all add: host_api_def)
    with pool_shed_host(3) [OF w s] Pool show ?thesis by (simp add: host_api_def)
  qed
qed

section \<open>Properties\<close>

text \<open>
  What the governor reports as freed has left the process: over caches and resident pools
  together, where releasing a resident also drops cache entries, a shed never claims more than the
  sum by which the footprints fell.
\<close>
theorem host_sheds_are_honest:
  assumes "host_ok w" and "distinct (map rg_shedder (gv_shedders g))"
    and "governor_shed (host_api b) g d n consumers items w = (w', Inr m)"
  shows "host_ok w' \<and> 0 \<le> m \<and> m \<le> footprint (host_api b) g w d - footprint (host_api b) g w' d"
  using host_consumers.governor_shed_honest [OF assms] by simp

text \<open>Object 0 is held by pool 0 under the id \<open>''''\<close>, and cache 0 holds an entry that refers to it.\<close>

definition host_backend :: "unit pool_env" where
  "host_backend = \<lparr>pv_owner = (\<lambda>_. NoOwner), pv_refs = (\<lambda>_. Some []), pv_fresh = (\<lambda>n. replicate n CHR ''x''),
     pv_depth = 10, pv_cost = Some (\<lambda>_. Some (PDict [(PStr ''ram'', PInt 5)])),
     pv_invalidate = (\<lambda>_ _ w. (w, True)), pv_unload = Some (\<lambda>_ w. (w, True)), pv_terminal = None\<rparr>"

definition host_pool :: pool where
  "host_pool = register_invalidator 0 True (fst (rid_for (host_env host_backend) 0 new_pool))"

definition sample_host :: host where
  "sample_host = \<lparr>ho_caches = (\<lambda>i. if i = 0 then empty_cache\<lparr>mc_entries := [(''k'', \<lparr>en_id = 3, en_outputs =
       [(''out'', Value ''core.Model'' ''f'' [(resource_id_key, PStr ''resident:'')] 3 Opaque [])]\<rparr>)]\<rparr>
       else empty_cache),
     ho_pools = (\<lambda>i. if i = 0 then host_pool else new_pool),
     ho_pins = (\<lambda>_. Some no_pins), ho_alive = (\<lambda>_. True)\<rparr>"

lemma sample_host_ok: "host_ok sample_host"
proof -
  have "cache_ok (ho_caches sample_host 0)" "cache_ok empty_cache"
    unfolding cache_ok_def by (intro conjI; code_simp)+
  then have "cache_ok (ho_caches sample_host i)" for i by (cases "i = 0") (simp_all add: sample_host_def)
  moreover have "\<exists>fresh. pool_ok fresh (ho_pools sample_host i) \<and> distinct (pl_pins (ho_pools sample_host i))" for i
  proof (cases "i = 0")
    case True
    obtain p r where p: "rid_for (host_env host_backend) 0 new_pool = (p, r)" by fastforce
    let ?fresh = "pv_fresh (host_env host_backend)"
    have "inj ?fresh" by (auto simp: host_env_def host_backend_def inj_def replicate_eq_replicate)
    note ok = rid_for_ok(1,2) [OF this new_pool_ok p]
    have "pool_ok ?fresh host_pool"
      using same_pool_ok(1) [OF same_pool_invalidators ok(1)] by (simp add: host_pool_def p register_invalidator_def)
    moreover have "pl_pins host_pool = []"
      using ok(2) by (simp add: host_pool_def p register_invalidator_def grows_def) (simp add: new_pool_def)
    ultimately show ?thesis using True by (auto simp: sample_host_def)
  next
    case False
    then show ?thesis using new_pool_ok by (auto simp: sample_host_def new_pool_def)
  qed
  ultimately show ?thesis by (simp add: host_ok_def)
qed

definition host_governor :: "consumer governor" where
  "host_governor = \<lparr>gv_budgets = [], gv_reserved = [], gv_peaks = [], gv_reservations = [],
     gv_shedders = [\<lparr>rg_order = 0, rg_priority = 0, rg_name = ''cache'', rg_shedder = Cache 0\<rparr>,
       \<lparr>rg_order = 1, rg_priority = 1, rg_name = ''models'', rg_shedder = Pool 0\<rparr>],
     gv_next_id = 1, gv_next_order = 2\<rparr>"

theorem host_sheds_are_honest_witness:
  "\<exists>w' m. governor_shed (host_api (\<lambda>_. host_backend)) host_governor ''ram'' 3 None None sample_host = (w', Inr m) \<and>
     host_ok w' \<and> 0 \<le> m"
proof -
  let ?shed = "governor_shed (host_api (\<lambda>_. host_backend)) host_governor ''ram'' 3 None None sample_host"
  have "snd ?shed = Inr 5" by code_simp
  then have shed: "?shed = (fst ?shed, Inr 5)" by (simp add: prod_eq_iff)
  have "distinct (map rg_shedder (gv_shedders host_governor))" by (simp add: host_governor_def)
  from host_sheds_are_honest [OF sample_host_ok this shed] shed show ?thesis by blast
qed

lemma invalidate_each_free:
  assumes "invalidate_each cache_invalidator is r w = (w', ok)" and "j \<in> set is"
  shows "free_of r (w' j)"
  using assms
proof (induction "is" arbitrary: w)
  case (Cons i "is")
  let ?w = "w(i := fst (drop_referencing (w i) r))"
  have rest: "invalidate_each cache_invalidator is r ?w = (w', ok)"
  proof -
    have "cache_invalidator i r w = (?w, True)" by (simp add: cache_invalidator_def)
    with Cons.prems(1) show ?thesis by simp
  qed
  show ?case
  proof (cases "j \<in> set is")
    case False
    then have "free_of r (?w j)" using Cons.prems(2) by (simp add: drop_referencing_free)
    moreover have "all_shrink ?w w'"
      using host_callbacks.invalidate_each_reach [of ?w host_backend "is" r] rest by (simp add: host_env_def)
    ultimately show ?thesis using free_of_shrinks by (auto simp: all_shrink_def)
  qed (use Cons.IH rest in blast)
qed simp

text \<open>
  C29: When a pool reports a resident released, no cache that is registered with it holds an entry
  that refers to that resident any more: no stub that comes out of a cache dangles.
\<close>
theorem releases_leave_no_references:
  assumes "host_ok w" and "release_entry (host_env b) rid d honor (releasing_of w i) = (s, Some n)"
    and "holder \<in> set (pl_invalidators (ho_pools w i))" and "live_invalidator (rl_out (releasing_of w i)) holder"
  shows "table_get (rl_pool s) rid = None \<and>
    free_of (resident_resource_id rid) (ou_world (rl_out s) (callback_of holder))"
proof -
  let ?s = "releasing_of w i" and ?r = "resident_resource_id rid"
  let ?calls = "map callback_of (filter (live_invalidator (rl_out ?s)) (pl_invalidators (ho_pools w i)))"
  obtain fresh where fresh: "pool_ok fresh (rl_pool ?s)" "distinct (pl_pins (rl_pool ?s))"
    using assms(1) by (auto simp: host_ok_def)
  obtain w1 ok where w1: "invalidate_each cache_invalidator ?calls ?r (ho_caches w) = (w1, ok)" by fastforce
  have "callback_of holder \<in> set ?calls" using assms(3,4) by auto
  from invalidate_each_free [OF w1 this] have "free_of ?r (w1 (callback_of holder))" .
  moreover have "all_shrink w1 (ou_world (rl_out s))"
    using host_callbacks.release_entry_reach(2) [OF assms(2) fresh(2)] w1 by (simp add: host_env_def)
  ultimately have "free_of ?r (ou_world (rl_out s) (callback_of holder))"
    using free_of_shrinks by (auto simp: all_shrink_def)
  moreover have "table_get (rl_pool s) rid = None"
    using release_entry_outcome [OF fresh assms(2)] by (auto simp: released_def held_def table_get_def domIff)
  ultimately show ?thesis by simp
qed

theorem releases_leave_no_references_witness:
  "free_of ''resident:'' (ou_world (rl_out (fst (release_entry (host_env host_backend) '''' ''ram'' True
     (releasing_of sample_host 0)))) 0)"
proof -
  let ?r = "release_entry (host_env host_backend) '''' ''ram'' True (releasing_of sample_host 0)"
  have "snd ?r = Some 5" by code_simp
  then have r: "?r = (fst ?r, Some 5)" by (simp add: prod_eq_iff)
  have "Weak 0 \<in> set (pl_invalidators (ho_pools sample_host 0))" by code_simp
  moreover have "live_invalidator (rl_out (releasing_of sample_host 0)) (Weak 0)"
    by (simp add: releasing_of_def sample_host_def)
  ultimately have "free_of (resident_resource_id '''') (ou_world (rl_out (fst ?r)) (callback_of (Weak 0)))"
    by (rule conjunct2 [OF releases_leave_no_references [OF sample_host_ok r]])
  then show ?thesis by (simp add: resident_resource_id_def)
qed

end
