(* ===== verification/Resident_Codec.thy ===== *)
theory Resident_Codec
  imports Resident_Release
begin

text \<open>
  The codec of resident types (\<^verbatim>\<open>dinkster_values/resident.py\<close>) over the governed pool: what crosses
  a process boundary is a stub that names the object's id. A wire is what its JSON text parses to,
  \<open>None\<close> when it does not parse.
\<close>

section \<open>The codec\<close>

type_synonym wire = "pyobj option"

datatype codec_error =
    PoolError pool_error
  | MalformedStub
  | NotJson
  | NotAnObject
  | BadFingerprint

definition lift_pool :: "pool \<times> (pool_error + 'a) \<Rightarrow> pool \<times> (codec_error + 'a)" where
  "lift_pool x = (fst x, case snd x of Inl err \<Rightarrow> Inl (PoolError err) | Inr a \<Rightarrow> Inr a)"

text \<open>\<open>own\<close> is the metadata that the type's own function gives for the primary owner.\<close>

definition codec_metadata :: "'w pool_env \<Rightarrow> (nat \<Rightarrow> (string, pyobj) dict) option \<Rightarrow> string \<Rightarrow> nat \<Rightarrow> pool \<Rightarrow>
    pool \<times> (codec_error + (string, pyobj) dict)" where
  "codec_metadata env own process obj p =
     (case resident_owners env obj of
        Inl err \<Rightarrow> (p, Inl (PoolError err))
      | Inr owners \<Rightarrow>
          (case lift_pool (rid_for env (hd owners) p) of
             (p1, Inl err) \<Rightarrow> (p1, Inl err)
           | (p1, Inr rid) \<Rightarrow>
               (case lift_pool (each_rid (rid_for env) (tl owners) p1) of
                  (p2, Inl err) \<Rightarrow> (p2, Inl err)
                | (p2, Inr rids) \<Rightarrow>
                    (let enriched = (case own of None \<Rightarrow> [] | Some f \<Rightarrow> f (hd owners));
                         m1 = dict_set resource_id_key (PStr (resident_resource_id rid)) enriched;
                         m2 = (if rids = [] then m1
                               else dict_set resource_refs_key
                                      (PTuple (map (\<lambda>r. PStr (resident_resource_id r)) rids)) m1)
                     in (p2, Inr (dict_set resource_owner_key (PStr process) m2))))))"

definition codec_encode :: "'w pool_env \<Rightarrow> nat \<Rightarrow> pool \<Rightarrow> pool \<times> (codec_error + wire)" where
  "codec_encode env obj p =
     (case lift_pool (rid_for env obj p) of
        (p', Inl err) \<Rightarrow> (p', Inl err)
      | (p', Inr rid) \<Rightarrow> (p', Inr (Some (PDict [(PStr ''residentId'', PStr rid)]))))"

definition codec_decode :: "'w pool_env \<Rightarrow> wire \<Rightarrow> pool \<Rightarrow> pool \<times> (codec_error + nat)" where
  "codec_decode env w p =
     (case w of
        None \<Rightarrow> (p, Inl NotJson)
      | Some (PDict d) \<Rightarrow>
          (case map_of d (PStr ''residentId'') of
             Some (PStr rid) \<Rightarrow> lift_pool (pool_get env rid p)
           | _ \<Rightarrow> (p, Inl MalformedStub))
      | Some _ \<Rightarrow> (p, Inl NotAnObject))"

definition codec_validate :: "wire \<Rightarrow> codec_error + unit" where
  "codec_validate w =
     (case w of
        Some (PDict d) \<Rightarrow>
          if fst ` set d \<noteq> {PStr ''residentId''} then Inl MalformedStub
          else (case map_of d (PStr ''residentId'') of
                  Some (PStr rid) \<Rightarrow> if rid = '''' then Inl MalformedStub else Inr ()
                | _ \<Rightarrow> Inl MalformedStub)
      | _ \<Rightarrow> Inl MalformedStub)"

text \<open>\<open>declared\<close> is the attribute \<^verbatim>\<open>_dinkster_resident_fingerprint\<close>, \<open>PNone\<close> when absent.\<close>

definition codec_fingerprint :: "'w pool_env \<Rightarrow> pyobj \<Rightarrow> nat \<Rightarrow> pool \<Rightarrow> pool \<times> (codec_error + string)" where
  "codec_fingerprint env declared obj p =
     (case declared of
        PNone \<Rightarrow>
          (case lift_pool (rid_for env obj p) of
             (p', Inl err) \<Rightarrow> (p', Inl err)
           | (p', Inr rid) \<Rightarrow> (p', Inr (resident_resource_id rid)))
      | PStr s \<Rightarrow> if s = '''' then (p, Inl BadFingerprint) else (p, Inr s)
      | _ \<Rightarrow> (p, Inl BadFingerprint))"

section \<open>Lemmas\<close>

lemma codec_encode_cases:
  assumes "codec_encode env obj p = (p', Inr w)"
  obtains rid where "rid_for env obj p = (p', Inr rid)" "w = Some (PDict [(PStr ''residentId'', PStr rid)])"
proof -
  obtain q r where q: "rid_for env obj p = (q, r)" by fastforce
  with assms have "p' = q" "\<exists>rid. r = Inr rid \<and> w = Some (PDict [(PStr ''residentId'', PStr rid)])"
    by (auto simp: codec_encode_def lift_pool_def split: sum.splits)
  with q that show ?thesis by blast
qed

lemma pool_get_own:
  assumes "table_get p rid = Some obj" and "resident_owners env obj = Inr owners" and "hd owners = obj"
  shows "snd (pool_get env rid p) = Inr obj"
  using assms by (simp add: pool_get_def split: option.split)

section \<open>Properties\<close>

text \<open>
  A stub means one object: what encoding an object produces passes the shape check whenever the
  drawn id is not empty, and decodes to that very object if to any; when the object is its own owner
  it does decode.
\<close>
theorem stubs_round_trip:
  assumes "inj (pv_fresh env)" and "s = fold (run_pool env) ops (new_releasing out)"
    and "codec_encode env obj (rl_pool s) = (p', Inr w)"
  shows "(w \<noteq> Some (PDict [(PStr ''residentId'', PStr '''')]) \<longrightarrow> codec_validate w = Inr ()) \<and>
    (\<forall>obj'. snd (codec_decode env w p') = Inr obj' \<longrightarrow> obj' = obj) \<and>
    (\<forall>owners. resident_owners env obj = Inr owners \<longrightarrow> hd owners = obj \<longrightarrow> snd (codec_decode env w p') = Inr obj)"
proof -
  obtain rid where rid: "rid_for env obj (rl_pool s) = (p', Inr rid)"
      and w: "w = Some (PDict [(PStr ''residentId'', PStr rid)])"
    using codec_encode_cases [OF assms(3)] by blast
  have s: "pool_ok (pv_fresh env) (rl_pool s)"
    using history_settled [OF assms(1)] assms(2) by (simp add: settled_def)
  have p': "pool_ok (pv_fresh env) p'" "table_get p' rid = Some obj"
    using rid_for_ok(1,3) [OF assms(1) s rid] by (simp_all add: table_get_def)
  have decode: "snd (codec_decode env w p') = Inr obj' \<longleftrightarrow> snd (pool_get env rid p') = Inr obj'" for obj'
    by (simp add: codec_decode_def w lift_pool_def split: sum.split)
  have same: "obj' = obj" if got: "snd (codec_decode env w p') = Inr obj'" for obj'
  proof -
    obtain q where q: "pool_get env rid p' = (q, Inr obj')" using got unfolding decode by (metis prod.collapse)
    from pool_get_ok [OF assms(1) p'(1) q] p'(2) show ?thesis by (simp add: table_get_def)
  qed
  have own: "snd (codec_decode env w p') = Inr obj"
    if "resident_owners env obj = Inr owners" "hd owners = obj" for owners
    unfolding decode by (rule pool_get_own [OF p'(2) that])
  have "w \<noteq> Some (PDict [(PStr ''residentId'', PStr '''')]) \<longrightarrow> codec_validate w = Inr ()"
    by (simp add: w codec_validate_def)
  then show ?thesis by (intro conjI allI impI) (simp, erule same, erule (1) own)
qed

theorem stubs_round_trip_witness:
  "snd (codec_decode sample_env (Some (PDict [(PStr ''residentId'', PStr ''xx'')]))
     (fst (codec_encode sample_env 2 (rl_pool sample_history)))) = Inr 2"
proof -
  have "snd (codec_encode sample_env 2 (rl_pool sample_history)) =
      Inr (Some (PDict [(PStr ''residentId'', PStr ''xx'')]))" by code_simp
  then have enc: "codec_encode sample_env 2 (rl_pool sample_history) =
      (fst (codec_encode sample_env 2 (rl_pool sample_history)), Inr (Some (PDict [(PStr ''residentId'', PStr ''xx'')])))"
    by (simp add: prod_eq_iff)
  have "resident_owners sample_env 2 = Inr [2]" by code_simp
  with stubs_round_trip [OF sample_env_inj sample_history_def enc] show ?thesis by simp
qed

end
