(* ===== verification/Spec2Isabelle.thy ===== *)
theory Spec2Isabelle
  imports Session_Theorems Pins Leases Budgets Names Graph_Lower Loops Result_Document Streams Blob_Store Scheduler Region_Theorems Job_History Host Resident_Codec
begin

text \<open>
  A verification development of Dinkster, an engine that runs graphs of typed nodes.

  \<^bold>\<open>The program.\<close> A document is a graph of nodes and regions
  (\<^verbatim>\<open>dinkster-graph\<close>) whose interfaces are typed (\<^verbatim>\<open>dinkster-schema\<close>). The engine lowers and plans
  it, runs the nodes on workers and passes values between them in typed envelopes
  (\<^verbatim>\<open>dinkster-values\<close>). Results are cached (\<^verbatim>\<open>dinkster-caches\<close>), large objects stay resident in the
  process and travel as stubs, and a governor arbitrates the declared memory of each device between
  running jobs, caches and residents (\<^verbatim>\<open>dinkster-memory\<close>). Several people edit one document through
  collaborative sessions (\<^verbatim>\<open>dinkster-collab\<close>), persisted in SQLite. The server admits submissions
  into a durable queue, dispatches them by priority and keeps their history
  (\<^verbatim>\<open>dinkster-server\<close>).

  \<^bold>\<open>Theories and code.\<close> Paths are below \<^verbatim>\<open>packages/*/src/\<close>; definitions keep the names of the
  code's functions, and a suffix tells methods of several classes apart.

    \<^item> \<^verbatim>\<open>Prelude\<close>: dictionaries as association lists that keep insertion order, Python and JSON
      objects, the lemma collections.
    \<^item> \<^verbatim>\<open>Session_Model\<close>, \<^verbatim>\<open>Sessions\<close>, \<^verbatim>\<open>Session_Store\<close>, \<^verbatim>\<open>Session_Theorems\<close>:
      \<^verbatim>\<open>dinkster_collab/sessions.py\<close> and \<^verbatim>\<open>store.py\<close>. The record \<^verbatim>\<open>service\<close> is the service's
      dictionary of sessions; every method is one function from the service and the store to the new
      pair and a result or an error. The store is a locale interface; the SQLite tables (lists of
      rows) interpret it. Proved: append orders and is idempotent, catch-up reads are exact,
      checkpoints keep the document, changes are authorised, errors are client errors, and a reload
      from the tables after any history gives the same service.
    \<^item> \<^verbatim>\<open>Governor\<close>: \<^verbatim>\<open>dinkster_memory/governor.py\<close>. Budgets, reservations with owners, registration
      of consumers, shedding, and admission as a step relation over any interleaving of waiters.
      Locale \<^verbatim>\<open>shedders\<close> is what a consumer promises (it frees no more than it held and says so),
      \<^verbatim>\<open>complete_shedders\<close> adds that it frees what it can.
    \<^item> \<^verbatim>\<open>Budgets\<close>: \<^verbatim>\<open>budgets.py\<close>, \<^verbatim>\<open>accelerator.py\<close>, \<^verbatim>\<open>reservations.py\<close>; parsing, policies, and the
      ordered acquisition that rules out deadlock. \<^verbatim>\<open>Leases\<close>: \<^verbatim>\<open>leases.py\<close> with event-loop time.
    \<^item> \<^verbatim>\<open>Memory_Cache\<close>: \<^verbatim>\<open>dinkster_caches/memory.py\<close>; \<^verbatim>\<open>Consumers\<close> interprets the governor's locales on
      caches.
    \<^item> \<^verbatim>\<open>Pins\<close>: \<^verbatim>\<open>dinkster_values/pins.py\<close>. \<^verbatim>\<open>Resident_Pool\<close>, \<^verbatim>\<open>Resident_Release\<close>,
      \<^verbatim>\<open>Resident_Codec\<close>: \<^verbatim>\<open>dinkster_values/resident.py\<close>, \<^verbatim>\<open>dinkster_memory/resident.py\<close> and
      \<^verbatim>\<open>release.py\<close>. The pool is a record of table, ledger, dependencies, leases and accounting;
      \<^verbatim>\<open>pool_ok\<close> is its invariant. \<^verbatim>\<open>Host\<close> puts caches, pools and pins of one process under one
      governor: releases leave no cached reference to a removed resident.
    \<^item> \<^verbatim>\<open>Type_Ids\<close>, \<^verbatim>\<open>Type_Exprs\<close>, \<^verbatim>\<open>Values\<close>, \<^verbatim>\<open>Names\<close>: the type id grammar, type expressions
      and the solver (\<^verbatim>\<open>dinkster_schema/model.py\<close>, \<^verbatim>\<open>solve.py\<close>, \<^verbatim>\<open>coerce.py\<close>), envelopes and containers,
      and the name grammar with namespace claims.
    \<^item> \<^verbatim>\<open>Graph_Model\<close>, \<^verbatim>\<open>Graph_Plan\<close>, \<^verbatim>\<open>Graph_Lower\<close>: \<^verbatim>\<open>dinkster_graph/model.py\<close>, \<^verbatim>\<open>plan.py\<close>,
      \<^verbatim>\<open>lower.py\<close>: the graph, the cycle search and the plan, and the lowering of selectors. The
      relation \<^verbatim>\<open>resolves\<close> is the specification of lowering: what a link means in the original graph
      when the branch is taken that the condition names.
    \<^item> \<^verbatim>\<open>Ready_Set\<close>, \<^verbatim>\<open>Scheduler\<close>: the level scheduler of \<^verbatim>\<open>dinkster_engine/engine.py\<close>
      (\<^verbatim>\<open>_strong_plan\<close>, \<^verbatim>\<open>_ProducedReferences\<close>, \<^verbatim>\<open>_execute_static_dag\<close>) as a step relation over
      tasks that start, return, fail, are cancelled and end as cancelled on their own. Proved: outputs
      live exactly while needed, all schedules agree with sequential evaluation up to what depends on
      such a task, a level ends, and the planner is the documented plan.
    \<^item> \<^verbatim>\<open>Regions\<close>, \<^verbatim>\<open>Region_Theorems\<close>: \<^verbatim>\<open>Engine._run_region\<close> and \<^verbatim>\<open>dinkster_values/absent.py\<close>: element
      bindings, the map, fold and while loops, the collected outputs and typed absence. \<^verbatim>\<open>iterates\<close> is
      the specification of a run by its iterations; maps refine to it in every order of completion.
    \<^item> \<^verbatim>\<open>Loops\<close>: the pairing of loop nodes in \<^verbatim>\<open>dinkster_graph/validate.py\<close>. \<^verbatim>\<open>Result_Algebra\<close>,
      \<^verbatim>\<open>Result_Document\<close>: \<^verbatim>\<open>dinkster_protocol/result_algebra.py\<close> and the JSON form of return units.
      \<^verbatim>\<open>Streams\<close>: leases on media streams. \<^verbatim>\<open>Blob_Store\<close>: the content-addressed store and its
      eviction (\<^verbatim>\<open>dinkster-assets\<close>).
    \<^item> \<^verbatim>\<open>Job_Queue\<close>, \<^verbatim>\<open>Queue_Theorems\<close>: \<^verbatim>\<open>dinkster_server/queue.py\<close>. Jobs are shared mutable objects,
      kept in a heap by run id; \<^verbatim>\<open>queue_step\<close> interleaves the calls, the dispatcher and the tasks of jobs,
      and \<^verbatim>\<open>queue_ok\<close> is the invariant. \<^verbatim>\<open>Queue_Store\<close> states as the locale \<^verbatim>\<open>job_store\<close> what the queue
      relies on in its store, and \<^verbatim>\<open>Job_History\<close> (\<^verbatim>\<open>history.py\<close>, \<^verbatim>\<open>paging.py\<close>) interprets it on the two
      tables: accepted work survives a crash with exactly one record, and listing is exact.

  \<^bold>\<open>Bounds and fuel.\<close> The cycle search runs with fuel one more than the number of nodes; the
  proof that it is exact shows that this is enough. One admission of the governor needs at most six
  turns of its loop between two waits, which \<^verbatim>\<open>admission_ends\<close> proves. The removal of a resident
  and its dependents recurses at most once per entry of the dependency table. The depth of the
  search for the identity of a nested resident is the interpreter's recursion limit, a parameter,
  and running out of it is the \<^verbatim>\<open>RecursionError\<close> of Python. A level of \<^verbatim>\<open>n\<close> nodes takes at most
  \<^verbatim>\<open>3 * n + 1\<close> steps, a while region as many iterations as it declares, the dispatcher as many rounds
  as there are pending jobs; following the cursors of a listing takes at most one page per record
  and one more.

  \<^bold>\<open>Parameters.\<close> Fresh ids (\<^verbatim>\<open>uuid4\<close>) are an input, fresh by hypothesis where a property needs
  it; hashes, clocks, the snapshot validator and registered providers are arguments of the
  definitions. What happens while a coroutine is suspended is an explicit step of another
  participant (\<^verbatim>\<open>Governor\<close>), or an argument describing the environment (\<^verbatim>\<open>Memory_Cache\<close>). What a
  node computes is a relation or a function given to the scheduler and to regions; whether a write of
  the disk or of a store succeeds is an argument of the operation that attempts it.

  \<^bold>\<open>Not modelled.\<close> Logging, threads below the granularity of the code's own locks, the reading of
  files and of operating-system counters, the byte codecs of media and tensors, the HTTP and RPC
  layers, worker processes, node packs and generated tables. Of the engine, the execution of one node
  (cache keys, single flight, coercion on the way in), lazy inputs and expansions at run time, events
  and compilation; of the graph package, elaboration, the link diagnostics and the wire form.

  \<^bold>\<open>Limits of the models.\<close> Reading and writing the SQLite tables of sessions does not fail (writes of
  the job store can). Floating-point numbers are reals, so there is no NaN time to live, and the
  negative zero that \<^verbatim>\<open>result_algebra.py\<close> refuses is zero. Callbacks of residents and of media streams
  do not re-enter the object that calls them. The caches that drop references to a removed resident
  are the in-memory ones; \<^verbatim>\<open>LayeredCache\<close> is not modelled. The publication of a blob and the trimming
  after it are one step, where the code trims outside the publication lock and another thread may
  evict in between. A task of the scheduler does not raise \<^verbatim>\<open>SystemExit\<close> or \<^verbatim>\<open>KeyboardInterrupt\<close>.
\<close>

end
